(* ===== verification/Kernel_Prelude.thy ===== *)
theory Kernel_Prelude
  imports Main "HOL-Library.Word"
begin

text \<open>
  Shared vocabulary of the development: the outcome type of kernel code (a normal
  result, a \<^verbatim>\<open>panic\<close>, or a memory access outside the object it belongs to), C's
  truncating division on \<^verbatim>\<open>int\<close>, signed readings of machine words, the error
  numbers of \<^verbatim>\<open>sys/errno.h\<close>, the named theorem collections and the generic lemmas
  on lists and words the components share.
\<close>

section \<open>Outcomes of kernel code\<close>

text \<open>
  \<open>Ret v\<close> is a normal return, \<open>Panic s\<close> a call of \<^verbatim>\<open>panic(s)\<close> (the kernel stops),
  \<open>Fault\<close> a read or write outside the array or chain the code walks.  A theorem that
  an operation returns \<open>Ret\<close> is therefore also a statement of memory safety.
\<close>

datatype 'a kres = Ret 'a | Panic string | Fault

primrec kbind :: "'a kres \<Rightarrow> ('a \<Rightarrow> 'b kres) \<Rightarrow> 'b kres" where
  "kbind (Ret x) f = f x"
| "kbind (Panic s) f = Panic s"
| "kbind Fault f = Fault"

definition kmap :: "('a \<Rightarrow> 'b) \<Rightarrow> 'a kres \<Rightarrow> 'b kres" where
  "kmap f r = kbind r (\<lambda>x. Ret (f x))"

lemma kmap_simps [simp]:
  "kmap f (Ret x) = Ret (f x)"
  "kmap f (Panic s) = Panic s"
  "kmap f Fault = Fault"
  by (simp_all add: kmap_def)

lemma kbind_eq_Ret [simp]: "kbind r f = Ret y \<longleftrightarrow> (\<exists>x. r = Ret x \<and> f x = Ret y)"
  by (cases r) auto

lemma kbind_Fault_iff: "kbind r f = Fault \<longleftrightarrow> r = Fault \<or> (\<exists>x. r = Ret x \<and> f x = Fault)"
  by (cases r) auto

lemma kmap_eq_Ret [simp]: "kmap f r = Ret y \<longleftrightarrow> (\<exists>x. r = Ret x \<and> y = f x)"
  by (cases r) auto

lemma kmap_eq_Panic [simp]: "kmap f r = Panic s \<longleftrightarrow> r = Panic s"
  by (cases r) auto

section \<open>Operations that may not return\<close>

text \<open>\<open>run\<close> is the type of an operation that may panic, or never return (\<open>None\<close>).\<close>

type_synonym 'a run = "'a kres option"

definition rbind :: "'a run \<Rightarrow> ('a \<Rightarrow> 'b run) \<Rightarrow> 'b run" where
  "rbind r f = (case r of None \<Rightarrow> None | Some (Ret x) \<Rightarrow> f x | Some (Panic e) \<Rightarrow> Some (Panic e)
     | Some Fault \<Rightarrow> Some Fault)"

definition rret :: "'a \<Rightarrow> 'a run" where
  "rret x = Some (Ret x)"

lemma rbind_simps [simp]:
  "rbind (Some (Ret x)) f = f x" "rbind None f = None" "rbind (Some (Panic e)) f = Some (Panic e)"
  "rbind (Some Fault) f = Some Fault"
  by (simp_all add: rbind_def)

lemma rbind_eq_Ret: "rbind r f = Some (Ret y) \<longleftrightarrow> (\<exists>x. r = Some (Ret x) \<and> f x = Some (Ret y))"
  by (auto simp: rbind_def split: option.splits kres.splits)

section \<open>Integers of C\<close>

text \<open>The target machines (VAX, Tahoe) have 32-bit \<^verbatim>\<open>int\<close> and \<^verbatim>\<open>long\<close>, 16-bit
  \<^verbatim>\<open>short\<close>, 8-bit \<^verbatim>\<open>char\<close>; division truncates towards zero.\<close>

type_synonym byte = "8 word"
type_synonym u16 = "16 word"
type_synonym u32 = "32 word"

definition INT_MAX :: int where
  "INT_MAX = 2147483647"

definition c_div :: "int \<Rightarrow> int \<Rightarrow> int" where
  "c_div a b = sgn a * sgn b * (\<bar>a\<bar> div \<bar>b\<bar>)"

definition c_mod :: "int \<Rightarrow> int \<Rightarrow> int" where
  "c_mod a b = a - c_div a b * b"

lemma c_div_nonneg [simp]: "0 \<le> a \<Longrightarrow> 0 < b \<Longrightarrow> c_div a b = a div b"
  by (cases "a = 0") (simp_all add: c_div_def)

lemma c_mod_nonneg [simp]: "0 \<le> a \<Longrightarrow> 0 < b \<Longrightarrow> c_mod a b = a mod b"
  by (simp add: c_mod_def minus_div_mult_eq_mod)

lemma sint_of_int_u32:
  assumes "- (2 ^ 31) \<le> k" and "k < 2 ^ 31"
  shows "sint (of_int k :: u32) = k"
  using assms by (simp add: sint_sbintrunc' signed_take_bit_int_eq_self)

lemma sint_eqI:
  fixes w :: u32
  shows "w = of_int k \<Longrightarrow> - (2 ^ 31) \<le> k \<Longrightarrow> k < 2 ^ 31 \<Longrightarrow> sint w = k"
  by (simp only: sint_of_int_u32)

lemma sint_of_nat_u32: "n < 2 ^ 31 \<Longrightarrow> sint (of_nat n :: u32) = int n"
  using sint_of_int_u32[of "int n"] by simp

lemma uint_of_int_u32: "0 \<le> v \<Longrightarrow> v < 2 ^ 32 \<Longrightarrow> uint (of_int v :: u32) = v"
  by (simp add: uint_word_of_int take_bit_int_eq_self)

lemma uint_of_nat_u32: "n < 2 ^ 32 \<Longrightarrow> uint (of_nat n :: u32) = int n"
  using uint_of_int_u32[of "int n"] by simp

section \<open>Error numbers (\<^verbatim>\<open>sys/errno.h\<close>)\<close>

datatype errno =
    EPERM | ESRCH | EINTR | ENOMEM | EACCES | EINVAL | EAGAIN | EWOULDBLOCK | EMSGSIZE | ENOPROTOOPT
  | EOPNOTSUPP | EAFNOSUPPORT | EADDRINUSE | EADDRNOTAVAIL | ENETDOWN | ECONNABORTED | ECONNRESET
  | ENOBUFS | EISCONN | ENOTCONN | ETIMEDOUT | ECONNREFUSED | EHOSTDOWN | EHOSTUNREACH
  | EFAULT | EPIPE | EDOM | EALREADY | EDESTADDRREQ | EPROTOTYPE | EPROTONOSUPPORT

section \<open>Named collections\<close>

named_theorems wf_intros \<open>preservation of the components' well-formedness\<close>
named_theorems abs_simps \<open>effect of the operations on the components' abstractions\<close>

section \<open>Lists\<close>

lemma takeWhile_dropWhile_split:
  assumes "\<forall>x \<in> set xs. P x" and "ys = [] \<or> \<not> P (hd ys)"
  shows "takeWhile P (xs @ ys) = xs" and "dropWhile P (xs @ ys) = ys"
  using assms by (induction xs; cases ys; simp)+

lemma list_update_length_Suc [simp]:
  "(xs @ a # b # ys)[Suc (length xs) := c] = xs @ a # c # ys"
  by (simp add: list_update_append)

end
