(* ===== verification/Rmap.thy ===== *)
theory Rmap
  imports Kernel_Prelude
begin

text \<open>
  Resource maps: \<^verbatim>\<open>sys/kern/subr_rmap.c\<close> and \<^verbatim>\<open>sys/sys/map.h\<close>.

  A map is an array of slots (base address, length), sorted, ended by a slot of size 0.
  The slots from the one behind \<^verbatim>\<open>struct map\<close> up to \<^verbatim>\<open>m_limit\<close> are the list \<open>m_ent\<close>;
  a C pointer \<^verbatim>\<open>bp\<close> into the array is a suffix of that list, so a loop that advances
  \<^verbatim>\<open>bp\<close> is a recursion on the suffix and running off the array is \<open>Fault\<close>.
  \<open>rm_free\<close> is the abstraction: the set of free units.  The section on the contract
  states what allocators and clients rely on as a locale.
\<close>

section \<open>Data\<close>

record mapent =
  m_size :: int
  m_addr :: int

record rmap =
  m_limit :: nat
  m_name :: string
  m_ent :: "mapent list"

text \<open>Which of the kernel's maps a pointer \<^verbatim>\<open>mp\<close> is (the code compares it with
  \<^verbatim>\<open>swapmap\<close> and \<^verbatim>\<open>kernelmap\<close>), the configuration the swap code reads, and the kernel
  variables \<^verbatim>\<open>rmfree\<close> touches: \<^verbatim>\<open>kmapwnt\<close>, the wakeups of \<^verbatim>\<open>kernelmap\<close> and the
  console messages about lost space.\<close>

datatype mapid = Swapmap | Kernelmap | Othermap

record rmconf =
  dmmax :: int
  nswdev :: int
  CLSIZE :: int

record rmenv =
  kmapwnt :: int
  kmap_wakeups :: nat
  rm_ovflo :: "(string \<times> int \<times> int) list"

definition mkseg :: "int \<Rightarrow> int \<Rightarrow> mapent" where
  "mkseg a s = \<lparr>m_size = s, m_addr = a\<rparr>"

definition delim :: mapent where
  "delim = mkseg 0 0"

lemma mkseg_sel [simp]: "m_size (mkseg a s) = s" "m_addr (mkseg a s) = a"
  by (simp_all add: mkseg_def)

lemma delim_sel [simp]: "m_size delim = 0" "m_addr delim = 0"
  by (simp_all add: delim_def)

lemma mapent_eq_iff:
  fixes e f :: mapent
  shows "e = f \<longleftrightarrow> m_size e = m_size f \<and> m_addr e = m_addr f"
  by (cases e; cases f) auto

lemma mapent_collapse [simp]:
  fixes e :: mapent
  shows "mkseg (m_addr e) (m_size e) = e"
  by (simp add: mapent_eq_iff)

section \<open>Operations\<close>

text \<open>\<^verbatim>\<open>rminit\<close>: the first two slots of the memory at \<^verbatim>\<open>mp+1\<close> are written.\<close>

definition rminit :: "mapent list \<Rightarrow> int \<Rightarrow> int \<Rightarrow> string \<Rightarrow> nat \<Rightarrow> rmap kres" where
  "rminit mem sz addr name mapsize =
     (case mem of
        a # b # r \<Rightarrow> Ret \<lparr>m_limit = mapsize - 1, m_name = name,
                         m_ent = mkseg addr sz # delim # r\<rparr>
      | _ \<Rightarrow> Fault)"

text \<open>The loop that closes a gap by copying every later slot one to the left, delimiter
  included; the head of the list is the slot to be overwritten.\<close>

fun shift_left :: "mapent list \<Rightarrow> mapent list kres" where
  "shift_left (e # f # r) =
     (if m_size f = 0 then Ret (f # f # r) else kmap (Cons f) (shift_left (f # r)))"
| "shift_left _ = Fault"

text \<open>The \<^verbatim>\<open>do ... while (size = t)\<close> loop of \<^verbatim>\<open>rmfree\<close>, which inserts a slot at \<^verbatim>\<open>bp\<close>
  and moves the later ones right; also the number of slots it steps over.\<close>

fun shift_in :: "int \<Rightarrow> int \<Rightarrow> mapent list \<Rightarrow> (nat \<times> mapent list) kres" where
  "shift_in addr sz [] = Fault"
| "shift_in addr sz (e # r) =
     (if m_size e = 0 then Ret (1, mkseg addr sz # r)
      else kmap (\<lambda>(n, es). (Suc n, mkseg addr sz # es)) (shift_in (m_addr e) (m_size e) r))"

definition rm_wakeup :: "mapid \<Rightarrow> rmenv \<Rightarrow> rmenv" where
  "rm_wakeup mid env =
     (if mid = Kernelmap \<and> kmapwnt env \<noteq> 0
      then env\<lparr>kmapwnt := 0, kmap_wakeups := Suc (kmap_wakeups env)\<rparr> else env)"

text \<open>\<^verbatim>\<open>rmfree\<close>.  \<open>lft\<close> are the slots \<^verbatim>\<open>bp\<close> has passed, \<open>bp # r\<close> those from \<^verbatim>\<open>bp\<close> on;
  \<^verbatim>\<open>bp-1\<close> is \<open>last lft\<close> and \<^verbatim>\<open>bp > firstbp\<close> is \<open>lft \<noteq> []\<close>.\<close>

definition rmfree :: "mapid \<Rightarrow> int \<Rightarrow> int \<Rightarrow> rmap \<times> rmenv \<Rightarrow> (rmap \<times> rmenv) kres" where
  "rmfree mid sz addr st =
     (let (mp, env) = st;
          lft = takeWhile (\<lambda>e. m_addr e \<le> addr \<and> m_size e \<noteq> 0) (m_ent mp);
          rest = dropWhile (\<lambda>e. m_addr e \<le> addr \<and> m_size e \<noteq> 0) (m_ent mp);
          fin = (\<lambda>es. Ret (mp\<lparr>m_ent := es\<rparr>, rm_wakeup mid env))
      in if addr \<le> 0 \<or> sz \<le> 0 then Panic ''bad rmfree''
         else case rest of [] \<Rightarrow> Fault | bp # r \<Rightarrow>
           if lft \<noteq> [] \<and> m_addr (last lft) + m_size (last lft) \<ge> addr then
             (if m_addr (last lft) + m_size (last lft) > addr then Panic ''bad rmfree''
              else let p = (last lft)\<lparr>m_size := m_size (last lft) + sz\<rparr> in
                if m_addr bp \<noteq> 0 \<and> addr + sz \<ge> m_addr bp then
                  (if addr + sz > m_addr bp then Panic ''bad rmfree''
                   else kbind (if m_size bp \<noteq> 0 then shift_left (bp # r) else Ret (bp # r))
                     (\<lambda>es. fin (butlast lft @ [p\<lparr>m_size := m_size p + m_size bp\<rparr>] @ es)))
                else fin (butlast lft @ [p] @ bp # r))
           else if addr + sz \<ge> m_addr bp \<and> m_size bp \<noteq> 0 then
             (if addr + sz > m_addr bp then Panic ''bad rmfree''
              else fin (lft @ bp\<lparr>m_addr := m_addr bp - sz, m_size := m_size bp + sz\<rparr> # r))
           else kbind (shift_in addr sz (bp # r)) (\<lambda>(n, es).
             let ents = lft @ es; i = length lft + n in
             if i + 1 > m_limit mp then
               (if 2 \<le> i \<and> i \<le> length ents then
                  let lost = ents ! (i - 2) in
                  Ret (mp\<lparr>m_ent := ents[i - 2 := ents ! (i - 1), i - 1 := delim]\<rparr>,
                       rm_wakeup mid (env\<lparr>rm_ovflo := rm_ovflo env @
                         [(m_name mp, m_addr lost, m_addr lost + m_size lost)]\<rparr>))
                else Fault)
             else fin ents))"

text \<open>\<^verbatim>\<open>rmalloc\<close>.  The scan returns no fit, the address taken with the slots from \<^verbatim>\<open>ep\<close>
  on, or, at an interleaving boundary of the swap area, the address, the rest to be
  freed and the slots.\<close>

datatype rmscan = NoFit | Took int "mapent list" | Split int int "mapent list"

definition scan_cons :: "mapent \<Rightarrow> rmscan \<Rightarrow> rmscan" where
  "scan_cons e s = (case s of NoFit \<Rightarrow> NoFit | Took a es \<Rightarrow> Took a (e # es)
                    | Split a t es \<Rightarrow> Split a t (e # es))"

fun rmalloc_scan :: "rmconf \<Rightarrow> mapid \<Rightarrow> int \<Rightarrow> mapent list \<Rightarrow> rmscan kres" where
  "rmalloc_scan c mid sz [] = Fault"
| "rmalloc_scan c mid sz (bp # r) =
     (if m_size bp = 0 then Ret NoFit
      else let first = dmmax c - c_mod (m_addr bp) (dmmax c) in
        if m_size bp \<ge> sz \<and> mid = Swapmap \<and> nswdev c > 1 \<and> first < sz
           \<and> \<not> m_size bp - first < sz
        then Ret (Split (m_addr bp + first) (m_size bp - first - sz)
                        (bp\<lparr>m_size := first\<rparr> # r))
        else if m_size bp \<ge> sz \<and> \<not> (mid = Swapmap \<and> nswdev c > 1 \<and> first < sz)
        then (let bp' = bp\<lparr>m_addr := m_addr bp + sz, m_size := m_size bp - sz\<rparr> in
              kmap (Took (m_addr bp))
                (if m_size bp' = 0 then shift_left (bp' # r) else Ret (bp' # r)))
        else kmap (scan_cons bp) (rmalloc_scan c mid sz r))"

definition rmalloc ::
  "rmconf \<Rightarrow> mapid \<Rightarrow> int \<Rightarrow> rmap \<times> rmenv \<Rightarrow> (int \<times> rmap \<times> rmenv) kres" where
  "rmalloc c mid sz st =
     (let (mp, env) = st in
      if sz \<le> 0 \<or> (mid = Swapmap \<and> sz > dmmax c) then Panic ''rmalloc''
      else kbind (rmalloc_scan c mid sz (m_ent mp)) (\<lambda>s. case s of
          NoFit \<Rightarrow> Ret (0, mp, env)
        | Took addr es \<Rightarrow>
            if mid = Swapmap \<and> c_mod addr (CLSIZE c) \<noteq> 0 then Panic ''rmalloc swapmap''
            else Ret (addr, mp\<lparr>m_ent := es\<rparr>, env)
        | Split addr rest es \<Rightarrow>
            if rest \<noteq> 0
            then kmap (\<lambda>st'. (addr, st')) (rmfree Swapmap rest (addr + sz) (mp\<lparr>m_ent := es\<rparr>, env))
            else Ret (addr, mp\<lparr>m_ent := es\<rparr>, env)))"

text \<open>\<^verbatim>\<open>rmget\<close>: allocate at a given address.  The last branch moves the delimiter and
  every slot behind \<^verbatim>\<open>bp\<close> one to the right, if the array has room.\<close>

definition rmget :: "mapid \<Rightarrow> int \<Rightarrow> int \<Rightarrow> rmap \<Rightarrow> (int \<times> rmap) kres" where
  "rmget mid sz addr mp =
     (let out = (\<lambda>e. \<not> (m_addr e \<le> addr \<and> m_addr e + m_size e > addr) \<and> m_size e \<noteq> 0);
          lft = takeWhile out (m_ent mp);
          rest = dropWhile out (m_ent mp)
      in if sz \<le> 0 then Panic ''rmget''
         else if mid = Swapmap then Ret (0, mp)
         else case rest of [] \<Rightarrow> Fault | bp # r \<Rightarrow>
           if m_size bp = 0 then Ret (0, mp)
           else if m_addr bp + m_size bp < addr + sz then Ret (0, mp)
           else if m_addr bp = addr then
             (if m_addr bp + m_size bp = addr + sz
              then kmap (\<lambda>es. (addr, mp\<lparr>m_ent := lft @ es\<rparr>)) (shift_left (bp # r))
              else Ret (addr, mp\<lparr>m_ent := lft @
                     bp\<lparr>m_addr := m_addr bp + sz, m_size := m_size bp - sz\<rparr> # r\<rparr>))
           else if m_addr bp + m_size bp = addr + sz
             then Ret (addr, mp\<lparr>m_ent := lft @ bp\<lparr>m_size := m_size bp - sz\<rparr> # r\<rparr>)
           else let segs = takeWhile (\<lambda>e. m_size e \<noteq> 0) r; zs = dropWhile (\<lambda>e. m_size e \<noteq> 0) r;
                    i = length lft + 1 + length segs in
             (case zs of
                [] \<Rightarrow> Fault
              | d # zs' \<Rightarrow>
                  if i + 1 \<ge> m_limit mp then Ret (0, mp)
                  else (case zs' of [] \<Rightarrow> Fault | _ # zs'' \<Rightarrow>
                    Ret (addr, mp\<lparr>m_ent := lft @ bp\<lparr>m_size := addr - m_addr bp\<rparr> #
                      mkseg (addr + sz) (m_addr bp + m_size bp - (addr + sz)) #
                      segs @ d # zs''\<rparr>))))"

section \<open>Well-formed maps and the set of free units\<close>

fun segs_from :: "int \<Rightarrow> mapent list \<Rightarrow> bool" where
  "segs_from lo [] = True"
| "segs_from lo (e # r) =
     (lo < m_addr e \<and> 0 < m_size e \<and> segs_from (m_addr e + m_size e) r)"

definition rm_segs :: "rmap \<Rightarrow> mapent list" where
  "rm_segs mp = takeWhile (\<lambda>e. m_size e \<noteq> 0) (m_ent mp)"

definition rm_wf :: "rmap \<Rightarrow> bool" where
  "rm_wf mp \<longleftrightarrow>
     (let zs = dropWhile (\<lambda>e. m_size e \<noteq> 0) (m_ent mp) in
      zs \<noteq> [] \<and> (\<forall>z \<in> set zs. z = delim) \<and> segs_from 0 (rm_segs mp)
      \<and> length (m_ent mp) = m_limit mp \<and> 2 \<le> m_limit mp)"

definition seg_units :: "mapent \<Rightarrow> int set" where
  "seg_units e = {m_addr e ..< m_addr e + m_size e}"

definition units :: "mapent list \<Rightarrow> int set" where
  "units ss = (\<Union>e \<in> set ss. seg_units e)"

definition rm_free :: "rmap \<Rightarrow> int set" where
  "rm_free mp = units (rm_segs mp)"

lemma units_simps [simp]:
  "units [] = {}"
  "units (e # ss) = seg_units e \<union> units ss"
  "units (xs @ ys) = units xs \<union> units ys"
  by (auto simp: units_def)

definition seg_end :: "int \<Rightarrow> mapent list \<Rightarrow> int" where
  "seg_end lo ss = (if ss = [] then lo else m_addr (last ss) + m_size (last ss))"

lemma seg_end_simps [simp]:
  "seg_end lo [] = lo"
  "seg_end lo (e # ss) = seg_end (m_addr e + m_size e) ss"
  "seg_end lo (xs @ ys) = seg_end (seg_end lo xs) ys"
  by (auto simp: seg_end_def)

lemma segs_from_append [simp]:
  "segs_from lo (xs @ ys) \<longleftrightarrow> segs_from lo xs \<and> segs_from (seg_end lo xs) ys"
  by (induction xs arbitrary: lo) auto

lemma segs_from_pos: "segs_from lo ss \<Longrightarrow> e \<in> set ss \<Longrightarrow> lo < m_addr e \<and> 0 < m_size e"
  by (induction ss arbitrary: lo) fastforce+

lemma seg_end_ge: "segs_from lo ss \<Longrightarrow> lo \<le> seg_end lo ss"
  by (induction ss arbitrary: lo) fastforce+

lemma segs_from_end: "segs_from lo ss \<Longrightarrow> e \<in> set ss \<Longrightarrow> m_addr e + m_size e \<le> seg_end lo ss"
proof (induction ss arbitrary: lo)
  case (Cons f ss)
  then show ?case using seg_end_ge [of "m_addr f + m_size f" ss] by auto
qed simp

lemma units_bounds: "segs_from lo ss \<Longrightarrow> x \<in> units ss \<Longrightarrow> lo < x \<and> x < seg_end lo ss"
  by (fastforce simp: units_def seg_units_def dest: segs_from_pos segs_from_end)

lemma segs_from_mono: "segs_from lo ss \<Longrightarrow> lo' \<le> lo \<Longrightarrow> segs_from lo' ss"
  by (cases ss) auto

text \<open>The array of a well-formed map: the segments, then at least one delimiter.\<close>

lemma rm_wf_decomp:
  "rm_wf mp \<longleftrightarrow> (\<exists>ss k. m_ent mp = ss @ delim # replicate k delim \<and> segs_from 0 ss
                        \<and> m_limit mp = length ss + Suc k \<and> 1 \<le> length ss + k)"
proof
  assume wf: "rm_wf mp"
  let ?zs = "dropWhile (\<lambda>e. m_size e \<noteq> 0) (m_ent mp)"
  from wf have zs: "?zs \<noteq> []" "\<forall>z \<in> set ?zs. z = delim" by (auto simp: rm_wf_def Let_def)
  then obtain k where k: "?zs = replicate (Suc k) delim"
    by (metis length_greater_0_conv Suc_pred replicate_length_same)
  then have "m_ent mp = rm_segs mp @ delim # replicate k delim"
    by (metis rm_segs_def replicate_Suc takeWhile_dropWhile_id)
  moreover from this wf have "m_limit mp = length (rm_segs mp) + Suc k"
    by (auto simp: rm_wf_def Let_def dest: arg_cong [where f = length])
  ultimately show "\<exists>ss k. m_ent mp = ss @ delim # replicate k delim \<and> segs_from 0 ss
      \<and> m_limit mp = length ss + Suc k \<and> 1 \<le> length ss + k"
    using wf by (auto simp: rm_wf_def Let_def)
next
  assume "\<exists>ss k. m_ent mp = ss @ delim # replicate k delim \<and> segs_from 0 ss
      \<and> m_limit mp = length ss + Suc k \<and> 1 \<le> length ss + k"
  then obtain ss k where ss: "m_ent mp = ss @ delim # replicate k delim" "segs_from 0 ss"
    "m_limit mp = length ss + Suc k" "1 \<le> length ss + k" by blast
  then have "\<forall>e \<in> set ss. m_size e \<noteq> 0" using segs_from_pos by fastforce
  with ss show "rm_wf mp"
    by (auto simp: rm_wf_def rm_segs_def takeWhile_dropWhile_split Let_def)
qed

lemma rm_segs_decomp:
  assumes "m_ent mp = ss @ delim # zs" and "segs_from lo ss"
  shows "rm_segs mp = ss"
proof -
  have "\<forall>e \<in> set ss. m_size e \<noteq> 0" using assms(2) segs_from_pos by fastforce
  then show ?thesis by (simp add: rm_segs_def assms(1) takeWhile_dropWhile_split)
qed

lemma rm_wfI:
  assumes "es = ss @ delim # replicate k delim" "segs_from 0 ss" "m_limit mp = length es"
    "2 \<le> m_limit mp"
  shows "rm_wf (mp\<lparr>m_ent := es\<rparr>)" and "rm_free (mp\<lparr>m_ent := es\<rparr>) = units ss"
proof -
  show "rm_wf (mp\<lparr>m_ent := es\<rparr>)" using assms by (auto simp: rm_wf_decomp)
  have "rm_segs (mp\<lparr>m_ent := es\<rparr>) = ss" using assms by (intro rm_segs_decomp) auto
  then show "rm_free (mp\<lparr>m_ent := es\<rparr>) = units ss" by (simp add: rm_free_def)
qed

lemma rm_wfE:
  assumes "rm_wf mp"
  obtains ss k where "m_ent mp = ss @ delim # replicate k delim" "segs_from 0 ss"
    "m_limit mp = length ss + Suc k" "1 \<le> length ss + k" "rm_segs mp = ss" "rm_free mp = units ss"
  using assms rm_segs_decomp by (fastforce simp: rm_wf_decomp rm_free_def)

section \<open>The shifting loops\<close>

lemma shift_left_segs:
  "\<forall>e \<in> set ss. m_size e \<noteq> 0 \<Longrightarrow>
   shift_left (e # ss @ delim # zs) = Ret (ss @ delim # delim # zs)"
  by (induction ss arbitrary: e) auto

lemma shift_in_segs:
  "\<forall>e \<in> set ss. m_size e \<noteq> 0 \<Longrightarrow>
   shift_in a s (ss @ delim # zs) = Ret (Suc (length ss), mkseg a s # ss @ zs)"
  by (induction ss arbitrary: a s) auto

section \<open>Freeing\<close>

text \<open>What \<^verbatim>\<open>rmfree\<close> does to the segment list: \<open>L\<close> starts at or before the freed space,
  \<open>R\<close> after it.\<close>

definition free_segs :: "mapent list \<Rightarrow> int \<Rightarrow> int \<Rightarrow> mapent list \<Rightarrow> mapent list" where
  "free_segs L a s R =
     (let p = last L; q = hd R;
          joinl = (L \<noteq> [] \<and> m_addr p + m_size p = a);
          joinr = (R \<noteq> [] \<and> a + s = m_addr q)
      in (if joinl then butlast L else L) @
         mkseg (if joinl then m_addr p else a)
               (s + (if joinl then m_size p else 0) + (if joinr then m_size q else 0)) #
         (if joinr then tl R else R))"

text \<open>The freed space meets no segment on either side.\<close>

definition clear_of :: "mapent list \<Rightarrow> int \<Rightarrow> int \<Rightarrow> mapent list \<Rightarrow> bool" where
  "clear_of L a s R \<longleftrightarrow> seg_end 0 L \<le> a \<and> (R = [] \<or> a + s \<le> m_addr (hd R))"

lemma segs_from_free_segs:
  assumes "segs_from 0 (L @ R)" "0 < a" "0 < s" "clear_of L a s R"
  shows "segs_from 0 (free_segs L a s R)"
  using assms
  by (cases L rule: rev_cases; cases R) (auto simp: free_segs_def clear_of_def Let_def elim!: segs_from_mono)

lemma ivl_join: "a \<le> b \<Longrightarrow> b \<le> c \<Longrightarrow> {a ..< b} \<union> {b ..< c} = {a ..< (c :: int)}"
  by auto

lemma units_free_segs:
  assumes "segs_from 0 (L @ R)" "0 < a" "0 < s" "clear_of L a s R"
  shows "units (free_segs L a s R) = units (L @ R) \<union> {a ..< a + s}"
proof -
  let ?jl = "L \<noteq> [] \<and> m_addr (last L) + m_size (last L) = a"
  let ?jr = "R \<noteq> [] \<and> a + s = m_addr (hd R)"
  define U where "U = (if ?jl then seg_units (last L) else {}) \<union> {a ..< a + s} \<union>
      (if ?jr then seg_units (hd R) else {})"
  have pos: "L \<noteq> [] \<Longrightarrow> 0 < m_size (last L)" "R \<noteq> [] \<Longrightarrow> 0 < m_size (hd R)"
    using segs_from_pos [OF assms(1)] by auto
  have "seg_units (mkseg (if ?jl then m_addr (last L) else a)
      (s + (if ?jl then m_size (last L) else 0) + (if ?jr then m_size (hd R) else 0))) = U"
    using pos \<open>0 < s\<close> unfolding U_def seg_units_def by auto
  then have "units (free_segs L a s R) =
      units (if ?jl then butlast L else L) \<union> U \<union> units (if ?jr then tl R else R)"
    by (simp add: free_segs_def Let_def Un_assoc)
  also have "\<dots> = units L \<union> {a ..< a + s} \<union> units R"
    unfolding U_def by (cases L rule: rev_cases; cases R) auto
  finally show ?thesis by auto
qed

lemma length_free_segs: "length (free_segs L a s R) \<le> Suc (length L + length R)"
  by (cases L rule: rev_cases; cases R) (auto simp: free_segs_def Let_def)

text \<open>When the array is full the entry before the last is thrown away.\<close>

definition discard :: "mapent list \<Rightarrow> mapent list" where
  "discard M = butlast (butlast M) @ [last M]"

definition lost_seg :: "mapent list \<Rightarrow> mapent" where
  "lost_seg M = last (butlast M)"

lemma ovflo_array:
  assumes "2 \<le> length M"
  shows "M[length M - 2 := M ! (length M - 1), length M - 1 := delim] = discard M @ [delim]"
    and "M ! (length M - 2) = lost_seg M"
proof -
  obtain N q where N: "M = N @ [q]" using assms by (cases M rule: rev_cases) auto
  moreover obtain xs p where "N = xs @ [p]" using assms N by (cases N rule: rev_cases) auto
  ultimately have M: "M = xs @ [p, q]" by simp
  show "M[length M - 2 := M ! (length M - 1), length M - 1 := delim] = discard M @ [delim]"
    "M ! (length M - 2) = lost_seg M"
    by (simp_all add: M discard_def lost_seg_def list_update_append nth_append butlast_append)
qed

text \<open>How the search loop of \<^verbatim>\<open>rmfree\<close> cuts the array.\<close>

lemma rmfree_locate:
  fixes a :: int
  assumes "m_ent mp = ss @ delim # zs" "segs_from 0 ss"
  defines "L \<equiv> takeWhile (\<lambda>e. m_addr e \<le> a) ss" and "R \<equiv> dropWhile (\<lambda>e. m_addr e \<le> a) ss"
  shows "takeWhile (\<lambda>e. m_addr e \<le> a \<and> m_size e \<noteq> 0) (m_ent mp) = L"
    and "dropWhile (\<lambda>e. m_addr e \<le> a \<and> m_size e \<noteq> 0) (m_ent mp) = R @ delim # zs"
    and "ss = L @ R" "R \<noteq> [] \<Longrightarrow> a < m_addr (hd R)" "L \<noteq> [] \<Longrightarrow> m_addr (last L) \<le> a"
proof -
  have ent: "m_ent mp = L @ R @ delim # zs" by (simp add: assms)
  have L: "\<forall>e \<in> set L. m_addr e \<le> a \<and> m_size e \<noteq> 0"
    using segs_from_pos [OF assms(2)] by (fastforce simp: L_def dest: set_takeWhileD)
  have R: "R \<noteq> [] \<Longrightarrow> a < m_addr (hd R)"
    unfolding R_def by (metis hd_dropWhile not_le)
  then have R': "\<not> (m_addr (hd (R @ delim # zs)) \<le> a \<and> m_size (hd (R @ delim # zs)) \<noteq> 0)"
    by (cases R) auto
  show "takeWhile (\<lambda>e. m_addr e \<le> a \<and> m_size e \<noteq> 0) (m_ent mp) = L"
    "dropWhile (\<lambda>e. m_addr e \<le> a \<and> m_size e \<noteq> 0) (m_ent mp) = R @ delim # zs"
    unfolding ent using L R' by (intro takeWhile_dropWhile_split; simp)+
  show "ss = L @ R" by (simp add: assms)
  show "R \<noteq> [] \<Longrightarrow> a < m_addr (hd R)" by (rule R)
  show "L \<noteq> [] \<Longrightarrow> m_addr (last L) \<le> a" using L by simp
qed

text \<open>\<^verbatim>\<open>rmfree\<close> in closed form on a well-formed map: it panics if the space overlaps a
  free segment, otherwise the segment list becomes \<open>free_segs\<close>, cut by \<open>discard\<close> if
  the array is too short.\<close>

lemma rmfree_closed:
  fixes a s :: int
  assumes ent: "m_ent mp = ss @ delim # replicate k delim" and ss: "segs_from 0 ss"
    and lim: "m_limit mp = length ss + Suc k" "1 \<le> length ss + k" and a: "0 < a" "0 < s"
  defines "L \<equiv> takeWhile (\<lambda>e. m_addr e \<le> a) ss" and "R \<equiv> dropWhile (\<lambda>e. m_addr e \<le> a) ss"
  defines "M \<equiv> free_segs L a s R"
  shows "rmfree mid s a (mp, env) =
    (if \<not> clear_of L a s R then Panic ''bad rmfree''
     else if length M < m_limit mp
     then Ret (mp\<lparr>m_ent := M @ replicate (m_limit mp - length M) delim\<rparr>, rm_wakeup mid env)
     else Ret (mp\<lparr>m_ent := discard M @ [delim]\<rparr>, rm_wakeup mid (env\<lparr>rm_ovflo := rm_ovflo env @
       [(m_name mp, m_addr (lost_seg M), m_addr (lost_seg M) + m_size (lost_seg M))]\<rparr>)))"
proof -
  note loc = rmfree_locate [OF ent ss, of a, folded L_def R_def]
  have nz: "\<forall>e \<in> set ss. m_size e \<noteq> 0" using segs_from_pos [OF ss] by fastforce
  have shr: "\<And>q R'. R = q # R' \<Longrightarrow>
      shift_left (q # R' @ delim # replicate k delim) = Ret (R' @ delim # delim # replicate k delim)"
    using nz loc(3) by (intro shift_left_segs) auto
  have shi: "shift_in a s (R @ delim # replicate k delim) =
      Ret (Suc (length R), mkseg a s # R @ replicate k delim)"
    using nz loc(3) by (intro shift_in_segs) auto
  have pos: "R \<noteq> [] \<Longrightarrow> 0 < m_size (hd R) \<and> 0 < m_addr (hd R)"
    using segs_from_pos [OF ss] loc(3) by auto
  have len: "length ss = length L + length R" using loc(3) by simp
  show ?thesis
  proof (cases "clear_of L a s R")
    case False
    then show ?thesis
      unfolding rmfree_def Let_def prod.case loc(1) loc(2) using a pos
      by (cases R) (auto simp: clear_of_def seg_end_def split: if_splits)
  next
    case clear: True
    show ?thesis
    proof (cases "(L \<noteq> [] \<and> m_addr (last L) + m_size (last L) = a) \<or> (R \<noteq> [] \<and> a + s = m_addr (hd R))")
      case False
      then have nj: "\<not> (L \<noteq> [] \<and> m_addr (last L) + m_size (last L) \<ge> a)"
          "\<not> (R \<noteq> [] \<and> a + s \<ge> m_addr (hd R))" and True: "M = L @ mkseg a s # R"
        using clear by (auto simp: M_def free_segs_def Let_def clear_of_def seg_end_def)
      have lenM: "length M = length L + length R + 1" "M \<noteq> []" "2 \<le> length M \<or> 0 < k"
        using True lim len by auto
      have head: "rmfree mid s a (mp, env) = (let ents = M @ replicate k delim; i = length M in
          if i + 1 > m_limit mp then
            (if 2 \<le> i \<and> i \<le> length ents then
               Ret (mp\<lparr>m_ent := ents[i - 2 := ents ! (i - 1), i - 1 := delim]\<rparr>,
                 rm_wakeup mid (env\<lparr>rm_ovflo := rm_ovflo env @ [(m_name mp, m_addr (ents ! (i - 2)),
                   m_addr (ents ! (i - 2)) + m_size (ents ! (i - 2)))]\<rparr>))
             else Fault)
          else Ret (mp\<lparr>m_ent := ents\<rparr>, rm_wakeup mid env))"
        unfolding rmfree_def Let_def prod.case loc(1) loc(2) using a nj shi pos True
        by (cases R) (auto simp del: shift_in.simps)
      show ?thesis
      proof (cases k)
        case 0
        with lenM lim len have "m_limit mp = length M" "2 \<le> length M" by auto
        with head 0 clear show ?thesis
          by (simp add: ovflo_array ovflo_array [unfolded One_nat_def] Let_def)
      next
        case (Suc k')
        with lenM lim len have "m_limit mp - length M = k" "length M < m_limit mp" by auto
        with head clear show ?thesis by simp
      qed
    next
      case joins: True
      then have "length M \<le> length ss" using len
        by (cases L rule: rev_cases; cases R) (auto simp: M_def free_segs_def Let_def)
      with lim have M: "length M < m_limit mp" by simp
      have lim': "m_limit mp = length L + length R + Suc k" using lim len by simp
      have upd: "p\<lparr>m_size := x\<rparr> = mkseg (m_addr p) x" "p\<lparr>m_addr := y, m_size := x\<rparr> = mkseg y x"
        for p :: mapent and x y by (simp_all add: mapent_eq_iff)
      show ?thesis
      proof (cases R)
        case Nil
        with M joins clear a lim' show ?thesis
          unfolding rmfree_def Let_def prod.case loc(1) loc(2)
          by (cases L rule: rev_cases)
            (auto simp: clear_of_def M_def free_segs_def Let_def upd Suc_diff_le add.commute)
      next
        case (Cons q R')
        with M joins clear a lim' pos shr [OF Cons] show ?thesis
          unfolding rmfree_def Let_def prod.case loc(1) loc(2)
          by (cases L rule: rev_cases)
            (auto simp: clear_of_def M_def free_segs_def Let_def upd Suc_diff_le algebra_simps)
      qed
    qed
  qed
qed

lemma clear_of_iff:
  assumes "segs_from 0 ss" "0 < a" "0 < s"
  defines "L \<equiv> takeWhile (\<lambda>e. m_addr e \<le> a) ss" and "R \<equiv> dropWhile (\<lambda>e. m_addr e \<le> a) ss"
  shows "clear_of L a s R \<longleftrightarrow> {a ..< a + s} \<inter> units ss = {}"
proof -
  have ss: "ss = L @ R" and segs: "segs_from 0 L" "segs_from (seg_end 0 L) R"
  proof -
    show ss: "ss = L @ R" by (simp add: L_def R_def)
    from assms(1) show "segs_from 0 L" "segs_from (seg_end 0 L) R" by (simp_all add: ss)
  qed
  have R: "R \<noteq> [] \<Longrightarrow> a < m_addr (hd R)" unfolding R_def by (metis hd_dropWhile not_le)
  have L: "L \<noteq> [] \<Longrightarrow> m_addr (last L) \<le> a"
    unfolding L_def by (metis last_in_set set_takeWhileD)
  show ?thesis
  proof
    assume c: "clear_of L a s R"
    have "x < a" if "x \<in> units L" for x
      using units_bounds [OF segs(1) that] c by (simp add: clear_of_def)
    moreover have "a + s \<le> x" if x: "x \<in> units R" for x
    proof -
      from x obtain q R' where q: "R = q # R'" by (cases R) auto
      with segs(2) have "segs_from (m_addr q - 1) R" by auto
      from units_bounds [OF this x] c q show ?thesis by (auto simp: clear_of_def)
    qed
    ultimately show "{a ..< a + s} \<inter> units ss = {}" unfolding ss by fastforce
  next
    assume d: "{a ..< a + s} \<inter> units ss = {}"
    have "seg_end 0 L \<le> a"
    proof (rule ccontr)
      assume "\<not> seg_end 0 L \<le> a"
      with L \<open>0 < a\<close> have "L \<noteq> []" "a \<in> seg_units (last L)"
        by (auto simp: seg_end_def seg_units_def split: if_splits)
      then have "a \<in> units ss" by (auto simp: ss units_def)
      with d \<open>0 < s\<close> show False by (auto simp: disjoint_iff)
    qed
    moreover have "a + s \<le> m_addr (hd R)" if "R \<noteq> []"
    proof (rule ccontr)
      assume "\<not> a + s \<le> m_addr (hd R)"
      moreover have "m_addr (hd R) \<in> units ss"
        using that segs(2) by (cases R) (auto simp: ss seg_units_def)
      ultimately show False using d R that by (fastforce simp: disjoint_iff)
    qed
    ultimately show "clear_of L a s R" by (auto simp: clear_of_def)
  qed
qed

lemma discard_segs:
  assumes "segs_from 0 M" "2 \<le> length M"
  shows "segs_from 0 (discard M)" and "units (discard M) = units M - seg_units (lost_seg M)"
    and "length (discard M) = length M - 1"
proof -
  obtain N q where N: "M = N @ [q]" using assms by (cases M rule: rev_cases) auto
  moreover obtain xs p where "N = xs @ [p]" using assms N by (cases N rule: rev_cases) auto
  ultimately have M: "M = xs @ [p, q]" by simp
  have d: "discard M = xs @ [q]" "lost_seg M = p"
    by (simp_all add: M discard_def lost_seg_def butlast_append)
  have p: "segs_from 0 xs" "seg_end 0 xs < m_addr p" "0 < m_size p" "m_addr p + m_size p < m_addr q"
    "0 < m_size q" using assms(1) by (auto simp: M)
  then show "segs_from 0 (discard M)" by (auto simp: d)
  have "units xs \<inter> seg_units p = {}" using units_bounds [OF p(1)] p(2)
    by (fastforce simp: seg_units_def)
  moreover have "seg_units q \<inter> seg_units p = {}" using p(4) by (auto simp: seg_units_def)
  ultimately show "units (discard M) = units M - seg_units (lost_seg M)" by (auto simp: d) (auto simp: M)
  show "length (discard M) = length M - 1" by (simp add: d(1)) (simp add: M)
qed

text \<open>Freeing on a well-formed map: total on disjoint space, exact up to the space
  reported as lost.\<close>

lemma rmfree_spec:
  assumes wf: "rm_wf mp" and a: "0 < a" "0 < s" and dis: "{a ..< a + s} \<inter> rm_free mp = {}"
  obtains mp' env' lost where "rmfree mid s a (mp, env) = Ret (mp', env')" "rm_wf mp'"
    "rm_ovflo env' = rm_ovflo env @ lost"
    "rm_free mp' = (rm_free mp \<union> {a ..< a + s}) - (\<Union>(n, lo, hi) \<in> set lost. {lo ..< hi})"
    "Suc (length (rm_segs mp)) < m_limit mp \<longrightarrow> lost = []"
    "m_limit mp' = m_limit mp" "m_name mp' = m_name mp"
proof -
  from wf obtain ss k where m: "m_ent mp = ss @ delim # replicate k delim" "segs_from 0 ss"
    "m_limit mp = length ss + Suc k" "1 \<le> length ss + k" "rm_segs mp = ss" "rm_free mp = units ss"
    by (rule rm_wfE)
  define L where "L = takeWhile (\<lambda>e. m_addr e \<le> a) ss"
  define R where "R = dropWhile (\<lambda>e. m_addr e \<le> a) ss"
  define M where "M = free_segs L a s R"
  have ss: "ss = L @ R" by (simp add: L_def R_def)
  have clear: "clear_of L a s R" unfolding L_def R_def
    using clear_of_iff [OF m(2) a] dis m(6) by simp
  note closed = rmfree_closed [OF m(1-4) a, of mid env, folded L_def R_def, folded M_def]
  have M: "segs_from 0 M" "units M = units ss \<union> {a ..< a + s}"
    using segs_from_free_segs units_free_segs m(2) a clear by (simp_all add: M_def ss)
  have wk: "rm_ovflo (rm_wakeup mid e) = rm_ovflo e" for e by (simp add: rm_wakeup_def)
  show ?thesis
  proof (cases "length M < m_limit mp")
    case True
    define n where "n = m_limit mp - length M - 1"
    have rep: "replicate (m_limit mp - length M) delim = delim # replicate n delim"
      using True unfolding n_def by (metis Suc_diff_Suc Suc_eq_plus1 diff_diff_left replicate_Suc)
    let ?mp = "mp\<lparr>m_ent := M @ replicate (m_limit mp - length M) delim\<rparr>"
    have "rm_wf ?mp" "rm_free ?mp = units M"
      using M m(3,4) True unfolding rep by (intro rm_wfI [where k = n and ss = M]; simp add: n_def)+
    with closed clear True M(2) m(6) show ?thesis
      by (intro that [of ?mp "rm_wakeup mid env" "[]"]) (simp_all add: wk)
  next
    case False
    have lM: "length M \<le> Suc (length ss)" using length_free_segs [of L a s R] by (simp add: M_def ss)
    with False m(3,4) have k: "length M = m_limit mp" "k = 0" "2 \<le> length M" by auto
    note d = discard_segs [OF M(1) k(3)]
    let ?mp = "mp\<lparr>m_ent := discard M @ [delim]\<rparr>"
    let ?lost = "[(m_name mp, m_addr (lost_seg M), m_addr (lost_seg M) + m_size (lost_seg M))]"
    have "rm_wf ?mp" "rm_free ?mp = units (discard M)"
      using d k by (intro rm_wfI [where k = 0 and ss = "discard M"]; simp)+
    with closed clear False d M(2) m(3,5,6) k show ?thesis
      by (intro that [of ?mp "rm_wakeup mid (env\<lparr>rm_ovflo := rm_ovflo env @ ?lost\<rparr>)" ?lost])
        (simp_all add: wk seg_units_def)
  qed
qed

section \<open>Allocating\<close>

text \<open>When a segment serves a request at its own base: it is large enough and, on an
  interleaved swap map, the request does not run past a boundary.\<close>

definition fits_here :: "rmconf \<Rightarrow> mapid \<Rightarrow> int \<Rightarrow> mapent \<Rightarrow> bool" where
  "fits_here c mid s e \<longleftrightarrow> s \<le> m_size e \<and>
     \<not> (mid = Swapmap \<and> nswdev c > 1 \<and> dmmax c - c_mod (m_addr e) (dmmax c) < s)"

definition fits_next :: "rmconf \<Rightarrow> mapid \<Rightarrow> int \<Rightarrow> mapent \<Rightarrow> bool" where
  "fits_next c mid s e \<longleftrightarrow> s \<le> m_size e \<and> mid = Swapmap \<and> nswdev c > 1 \<and>
     dmmax c - c_mod (m_addr e) (dmmax c) < s \<and>
     dmmax c - c_mod (m_addr e) (dmmax c) + s \<le> m_size e"

definition take_head :: "int \<Rightarrow> mapent \<Rightarrow> mapent list" where
  "take_head s e = (if m_size e = s then [] else [mkseg (m_addr e + s) (m_size e - s)])"

lemma rmalloc_scan_segs:
  assumes "\<forall>e \<in> set ss. m_size e \<noteq> 0"
  shows "rmalloc_scan c mid s (ss @ delim # zs) =
    (case dropWhile (\<lambda>e. \<not> fits_here c mid s e \<and> \<not> fits_next c mid s e) ss of
       [] \<Rightarrow> Ret NoFit
     | e # ys \<Rightarrow>
        let xs = takeWhile (\<lambda>e. \<not> fits_here c mid s e \<and> \<not> fits_next c mid s e) ss;
            first = dmmax c - c_mod (m_addr e) (dmmax c) in
        if fits_here c mid s e
        then Ret (Took (m_addr e) (xs @ take_head s e @ ys @ delim # (if m_size e = s then [delim] else []) @ zs))
        else Ret (Split (m_addr e + first) (m_size e - first - s) (xs @ mkseg (m_addr e) first # ys @ delim # zs)))"
  using assms
proof (induction ss)
  case (Cons e ss)
  have upd: "e\<lparr>m_size := x\<rparr> = mkseg (m_addr e) x" "e\<lparr>m_addr := y, m_size := x\<rparr> = mkseg y x" for x y
    by (simp_all add: mapent_eq_iff)
  have sl: "shift_left (f # ss @ delim # zs) = Ret (ss @ delim # delim # zs)" for f
    using Cons.prems by (intro shift_left_segs) auto
  consider "fits_here c mid s e" | "fits_next c mid s e" "\<not> fits_here c mid s e"
    | "\<not> fits_here c mid s e" "\<not> fits_next c mid s e" by blast
  then show ?case
  proof cases
    case 3
    with Cons.prems have step: "rmalloc_scan c mid s ((e # ss) @ delim # zs) =
        kmap (scan_cons e) (rmalloc_scan c mid s (ss @ delim # zs))"
      by (auto simp: fits_here_def fits_next_def Let_def)
    from Cons.prems have "\<forall>e \<in> set ss. m_size e \<noteq> 0" by simp
    note IH = Cons.IH [OF this]
    show ?thesis unfolding step IH using 3
      by (cases "dropWhile (\<lambda>e. \<not> fits_here c mid s e \<and> \<not> fits_next c mid s e) ss")
        (simp_all add: scan_cons_def Let_def del: dropWhile_eq_Nil_conv)
  qed (use Cons.prems sl in \<open>auto simp: fits_here_def fits_next_def Let_def take_head_def upd\<close>)
qed simp

lemma take_head_segs:
  assumes "segs_from lo (e # ys)" "0 < s" "s \<le> m_size e"
  shows "segs_from lo (take_head s e @ ys)"
    and "units (take_head s e @ ys) = units (e # ys) - {m_addr e ..< m_addr e + s}"
proof -
  show "segs_from lo (take_head s e @ ys)"
    using assms by (auto simp: take_head_def elim: segs_from_mono)
  have "m_addr e + s \<le> x" if "x \<in> units ys" for x
    using units_bounds [of "m_addr e + m_size e" ys x] that assms by auto
  moreover have "units (take_head s e) = seg_units e - {m_addr e ..< m_addr e + s}"
    using assms by (auto simp: take_head_def seg_units_def)
  ultimately show "units (take_head s e @ ys) = units (e # ys) - {m_addr e ..< m_addr e + s}"
    by fastforce
qed

text \<open>The units below a segment are untouched by what happens in it.\<close>

lemma units_prefix:
  assumes "segs_from lo (xs @ e # ys)" "m_addr e \<le> a"
  shows "units xs - {a ..< b} = units xs"
proof -
  have "x < a" if "x \<in> units xs" for x
    using units_bounds [of lo xs x] that assms by auto
  then show ?thesis by fastforce
qed

lemma rmalloc_took:
  assumes wf: "rm_wf mp" and s: "0 < s" "\<not> (mid = Swapmap \<and> s > dmmax c)"
    and seg: "rm_segs mp = xs @ e # ys"
    and xs: "\<forall>f \<in> set xs. \<not> fits_here c mid s f \<and> \<not> fits_next c mid s f" and e: "fits_here c mid s e"
    and cl: "\<not> (mid = Swapmap \<and> c_mod (m_addr e) (CLSIZE c) \<noteq> 0)"
  obtains mp' where "rmalloc c mid s (mp, env) = Ret (m_addr e, mp', env)" "rm_wf mp'"
    "rm_free mp' = rm_free mp - {m_addr e ..< m_addr e + s}"
    "{m_addr e ..< m_addr e + s} \<subseteq> rm_free mp" "0 < m_addr e"
    "m_limit mp' = m_limit mp" "m_name mp' = m_name mp"
proof -
  from wf obtain ss k where m: "m_ent mp = ss @ delim # replicate k delim" "segs_from 0 ss"
    "m_limit mp = length ss + Suc k" "1 \<le> length ss + k" "rm_segs mp = ss" "rm_free mp = units ss"
    by (rule rm_wfE)
  have ss: "ss = xs @ e # ys" using seg m(5) by simp
  have nz: "\<forall>f \<in> set ss. m_size f \<noteq> 0" using segs_from_pos [OF m(2)] by fastforce
  let ?P = "\<lambda>f. \<not> fits_here c mid s f \<and> \<not> fits_next c mid s f"
  have w: "takeWhile ?P ss = xs" "dropWhile ?P ss = e # ys"
    unfolding ss using xs e by (intro takeWhile_dropWhile_split; simp)+
  let ?n = "if m_size e = s then Suc k else k"
  let ?es = "(xs @ take_head s e @ ys) @ delim # replicate ?n delim"
  have r: "rmalloc c mid s (mp, env) = Ret (m_addr e, mp\<lparr>m_ent := ?es\<rparr>, env)"
    using s cl e by (auto simp: rmalloc_def m(1) rmalloc_scan_segs [OF nz] w Let_def)
  have se: "s \<le> m_size e" using e by (simp add: fits_here_def)
  have seg1: "segs_from (seg_end 0 xs) (e # ys)" "segs_from 0 xs" using m(2) by (simp_all add: ss)
  note th = take_head_segs [OF seg1(1) s(1) se]
  have "segs_from 0 (xs @ take_head s e @ ys)" using th seg1 by simp
  then have "rm_wf (mp\<lparr>m_ent := ?es\<rparr>)" "rm_free (mp\<lparr>m_ent := ?es\<rparr>) = units (xs @ take_head s e @ ys)"
    using m(3,4) se
    by (intro rm_wfI [where k = ?n and ss = "xs @ take_head s e @ ys"]; auto simp: ss take_head_def)+
  moreover have "units (xs @ take_head s e @ ys) = units ss - {m_addr e ..< m_addr e + s}"
    using th(2) units_prefix [of 0 xs e ys "m_addr e"] m(2) unfolding ss by (auto simp: Un_Diff)
  moreover have "{m_addr e ..< m_addr e + s} \<subseteq> units ss" using se by (auto simp: ss seg_units_def)
  moreover have "0 < m_addr e" using segs_from_pos [OF m(2)] ss by auto
  ultimately show ?thesis using r m(6) by (intro that [of "mp\<lparr>m_ent := ?es\<rparr>"]) simp_all
qed

lemma rmalloc_nofit:
  assumes wf: "rm_wf mp" and s: "0 < s" "\<not> (mid = Swapmap \<and> s > dmmax c)"
    and xs: "\<forall>f \<in> set (rm_segs mp). \<not> fits_here c mid s f \<and> \<not> fits_next c mid s f"
  shows "rmalloc c mid s (mp, env) = Ret (0, mp, env)"
proof -
  from wf obtain ss k where m: "m_ent mp = ss @ delim # replicate k delim" "segs_from 0 ss"
    "rm_segs mp = ss" by (rule rm_wfE)
  have nz: "\<forall>f \<in> set ss. m_size f \<noteq> 0" using segs_from_pos [OF m(2)] by fastforce
  have dw: "dropWhile (\<lambda>f. \<not> fits_here c mid s f \<and> \<not> fits_next c mid s f) ss = []"
    using xs by (auto simp: m(3) dropWhile_eq_Nil_conv)
  show ?thesis using s by (auto simp: rmalloc_def m(1) rmalloc_scan_segs [OF nz] dw Let_def)
qed

lemma rmalloc_split:
  assumes wf: "rm_wf mp" and s: "0 < s" "s \<le> dmmax c"
    and seg: "rm_segs mp = xs @ e # ys"
    and xs: "\<forall>f \<in> set xs. \<not> fits_here c Swapmap s f \<and> \<not> fits_next c Swapmap s f"
    and e: "fits_next c Swapmap s e"
  defines "a \<equiv> m_addr e + (dmmax c - c_mod (m_addr e) (dmmax c))"
  obtains mp' env' lost where "rmalloc c Swapmap s (mp, env) = Ret (a, mp', env')" "rm_wf mp'"
    "rm_ovflo env' = rm_ovflo env @ lost"
    "rm_free mp' = (rm_free mp - {a ..< a + s}) - (\<Union>(n, lo, hi) \<in> set lost. {lo ..< hi})"
    "{a ..< a + s} \<subseteq> rm_free mp" "0 < a" "m_limit mp' = m_limit mp" "m_name mp' = m_name mp"
proof -
  from wf obtain ss k where m: "m_ent mp = ss @ delim # replicate k delim" "segs_from 0 ss"
    "m_limit mp = length ss + Suc k" "1 \<le> length ss + k" "rm_segs mp = ss" "rm_free mp = units ss"
    by (rule rm_wfE)
  have ss: "ss = xs @ e # ys" using seg m(5) by simp
  have nz: "\<forall>f \<in> set ss. m_size f \<noteq> 0" using segs_from_pos [OF m(2)] by fastforce
  have e0: "0 < m_addr e" "0 < m_size e" using segs_from_pos [OF m(2)] ss by auto
  let ?P = "\<lambda>f. \<not> fits_here c Swapmap s f \<and> \<not> fits_next c Swapmap s f"
  have w: "takeWhile ?P ss = xs" "dropWhile ?P ss = e # ys"
    unfolding ss using xs e by (intro takeWhile_dropWhile_split; simp)+
  have nh: "\<not> fits_here c Swapmap s e" using e by (auto simp: fits_here_def fits_next_def)
  define fst where "fst = dmmax c - c_mod (m_addr e) (dmmax c)"
  have fst: "0 < fst" "fst + s \<le> m_size e" "a = m_addr e + fst"
    using e e0 s by (auto simp: fst_def fits_next_def a_def)
  define mp1 where "mp1 = mp\<lparr>m_ent := (xs @ mkseg (m_addr e) fst # ys) @ delim # replicate k delim\<rparr>"
  have segs1: "segs_from 0 (xs @ mkseg (m_addr e) fst # ys)"
    using m(2) fst s by (auto simp: ss elim: segs_from_mono)
  have wf1: "rm_wf mp1" and free1: "rm_free mp1 = units (xs @ mkseg (m_addr e) fst # ys)"
    unfolding mp1_def using segs1 m(3,4)
    by (intro rm_wfI [where k = k and ss = "xs @ mkseg (m_addr e) fst # ys"]; simp add: ss)+
  define rest where "rest = m_size e - fst - s"
  have hi: "m_addr e + m_size e < x" if "x \<in> units ys" for x
    using units_bounds [of "m_addr e + m_size e" ys x] that m(2) by (auto simp: ss)
  have lo: "x < m_addr e" if "x \<in> units xs" for x
    using units_bounds [of 0 xs x] that m(2) by (auto simp: ss)
  have U1: "units (xs @ mkseg (m_addr e) fst # ys) \<union> {a + s ..< a + s + rest} = units ss - {a ..< a + s}"
    using fst s lo hi unfolding rest_def ss by (fastforce simp: seg_units_def)
  have sub: "{a ..< a + s} \<subseteq> units ss" using fst by (auto simp: ss seg_units_def)
  have r: "rmalloc c Swapmap s (mp, env) =
      (if rest \<noteq> 0 then kmap (\<lambda>st'. (a, st')) (rmfree Swapmap rest (a + s) (mp1, env))
       else Ret (a, mp1, env))"
    using s nh by (auto simp: rmalloc_def m(1) rmalloc_scan_segs [OF nz] w Let_def
        fst_def [symmetric] rest_def mp1_def fst(3))
  show ?thesis
  proof (cases "rest = 0")
    case True
    with r U1 wf1 free1 m(6) sub e0 fst show ?thesis
      by (intro that [of mp1 env "[]"]) (simp_all add: mp1_def)
  next
    case False
    with fst have rp: "0 < rest" "0 < a + s" using e0 s by (simp_all add: rest_def)
    have "{a + s ..< a + s + rest} \<inter> rm_free mp1 = {}"
      using fst lo hi s e0 unfolding free1 rest_def by (fastforce simp: seg_units_def disjoint_iff)
    then obtain mp' env' lost where "rmfree Swapmap rest (a + s) (mp1, env) = Ret (mp', env')"
      "rm_wf mp'" "rm_ovflo env' = rm_ovflo env @ lost"
      "rm_free mp' = (rm_free mp1 \<union> {a + s ..< a + s + rest}) - (\<Union>(n, lo, hi) \<in> set lost. {lo ..< hi})"
      "m_limit mp' = m_limit mp1" "m_name mp' = m_name mp1"
      using rmfree_spec [OF wf1 rp(2,1), of Swapmap env] by metis
    with r False U1 free1 m(6) sub e0 fst show ?thesis
      by (intro that [of mp' env' lost]) (simp_all add: mp1_def)
  qed
qed

lemma first_fit_cases:
  obtains (none) "\<forall>f \<in> set ss. \<not> P f"
  | (found) xs e ys where "ss = xs @ e # ys" "\<forall>f \<in> set xs. \<not> P f" "P e"
  by (metis split_list_first_prop)

lemma rmalloc_sound:
  assumes wf: "rm_wf mp" and r: "rmalloc c mid s (mp, env) = Ret (a, mp', env')"
  shows "rm_wf mp' \<and> m_limit mp' = m_limit mp \<and> (a = 0 \<longrightarrow> mp' = mp \<and> env' = env) \<and>
    (a \<noteq> 0 \<longrightarrow> 0 < a \<and> 0 < s \<and> {a ..< a + s} \<subseteq> rm_free mp \<and>
       (\<exists>lost. rm_ovflo env' = rm_ovflo env @ lost \<and> (mid \<noteq> Swapmap \<longrightarrow> lost = []) \<and>
          rm_free mp' = (rm_free mp - {a ..< a + s}) - (\<Union>(n, lo, hi) \<in> set lost. {lo ..< hi})))"
proof -
  have s: "0 < s" "\<not> (mid = Swapmap \<and> s > dmmax c)"
    using r by (auto simp: rmalloc_def Let_def split: if_splits)
  let ?P = "\<lambda>f. fits_here c mid s f \<or> fits_next c mid s f"
  show ?thesis
  proof (cases rule: first_fit_cases [of "rm_segs mp" ?P])
    case none
    then show ?thesis using rmalloc_nofit [OF wf s] r wf by auto
  next
    case (found xs e ys)
    show ?thesis
    proof (cases "fits_here c mid s e")
      case True
      have xs: "\<forall>f \<in> set xs. \<not> fits_here c mid s f \<and> \<not> fits_next c mid s f" using found by auto
      have cl: "\<not> (mid = Swapmap \<and> c_mod (m_addr e) (CLSIZE c) \<noteq> 0)"
      proof
        assume bad: "mid = Swapmap \<and> c_mod (m_addr e) (CLSIZE c) \<noteq> 0"
        then have sw: "mid = Swapmap" by simp
        from wf obtain ss k where m: "m_ent mp = ss @ delim # replicate k delim" "segs_from 0 ss"
          "rm_segs mp = ss" by (rule rm_wfE)
        have nz: "\<forall>f \<in> set ss. m_size f \<noteq> 0" using segs_from_pos [OF m(2)] by fastforce
        have ss: "ss = xs @ e # ys" using found m(3) by simp
        have w: "dropWhile (\<lambda>f. \<not> fits_here c mid s f \<and> \<not> fits_next c mid s f) ss = e # ys"
          unfolding ss using xs True by (intro takeWhile_dropWhile_split; simp)+
        from r bad True s show False unfolding sw
          by (auto simp: rmalloc_def m(1) rmalloc_scan_segs [OF nz] w [unfolded sw] Let_def)
      qed
      from rmalloc_took [OF wf s found(1) xs True cl, of env] obtain mp1 where
        "rmalloc c mid s (mp, env) = Ret (m_addr e, mp1, env)" "rm_wf mp1"
        "rm_free mp1 = rm_free mp - {m_addr e ..< m_addr e + s}"
        "{m_addr e ..< m_addr e + s} \<subseteq> rm_free mp" "0 < m_addr e" "m_limit mp1 = m_limit mp" .
      with r s show ?thesis by (auto intro!: exI [of _ "[]"])
    next
      case False
      with found have n: "fits_next c mid s e" by auto
      then have sw: "mid = Swapmap" by (simp add: fits_next_def)
      have xs: "\<forall>f \<in> set xs. \<not> fits_here c Swapmap s f \<and> \<not> fits_next c Swapmap s f"
        using found sw by auto
      define b where "b = m_addr e + (dmmax c - c_mod (m_addr e) (dmmax c))"
      have le: "s \<le> dmmax c" using s sw by simp
      from rmalloc_split [OF wf s(1) le found(1) xs n [unfolded sw], of env, folded b_def]
      obtain mp1 env1 lost where
        "rmalloc c Swapmap s (mp, env) = Ret (b, mp1, env1)" "rm_wf mp1"
        "rm_ovflo env1 = rm_ovflo env @ lost"
        "rm_free mp1 = (rm_free mp - {b ..< b + s}) - (\<Union>(n, lo, hi) \<in> set lost. {lo ..< hi})"
        "{b ..< b + s} \<subseteq> rm_free mp" "0 < b" "m_limit mp1 = m_limit mp" .
      with r s sw show ?thesis by (auto intro!: exI [of _ lost])
    qed
  qed
qed

section \<open>The allocator contract\<close>

text \<open>What a client of an address-space allocator relies on.  A client keeps the blocks it
  was given; it asks for a block or hands one back.\<close>

datatype req = Want int | Back nat

fun client_step ::
  "(int \<Rightarrow> 's \<Rightarrow> (int \<times> 's) kres) \<Rightarrow> (int \<Rightarrow> int \<Rightarrow> 's \<Rightarrow> 's kres) \<Rightarrow> req \<Rightarrow>
   's \<times> (int \<times> int) list \<Rightarrow> ('s \<times> (int \<times> int) list) kres" where
  "client_step al rl (Want n) (s, held) =
     kmap (\<lambda>(a, s'). (s', if a = 0 then held else (a, n) # held)) (al n s)"
| "client_step al rl (Back i) (s, held) =
     (if i < length held
      then kmap (\<lambda>s'. (s', take i held @ drop (Suc i) held)) (rl (snd (held ! i)) (fst (held ! i)) s)
      else Ret (s, held))"

fun client_run ::
  "(int \<Rightarrow> 's \<Rightarrow> (int \<times> 's) kres) \<Rightarrow> (int \<Rightarrow> int \<Rightarrow> 's \<Rightarrow> 's kres) \<Rightarrow> req list \<Rightarrow>
   's \<times> (int \<times> int) list \<Rightarrow> ('s \<times> (int \<times> int) list) kres" where
  "client_run al rl [] st = Ret st"
| "client_run al rl (r # rs) st = kbind (client_step al rl r st) (client_run al rl rs)"

definition block :: "int \<times> int \<Rightarrow> int set" where
  "block p = {fst p ..< fst p + snd p}"

fun blocks_apart :: "int set \<Rightarrow> (int \<times> int) list \<Rightarrow> bool" where
  "blocks_apart A [] = True"
| "blocks_apart A (b # held) =
     (0 < fst b \<and> 0 < snd b \<and> block b \<inter> A = {} \<and> (\<forall>q \<in> set held. block b \<inter> block q = {})
      \<and> blocks_apart A held)"

lemma blocks_apart_mono: "blocks_apart A held \<Longrightarrow> B \<subseteq> A \<Longrightarrow> blocks_apart B held"
  by (induction held) auto

lemma blocks_apart_in: "blocks_apart A held \<Longrightarrow> b \<in> set held \<Longrightarrow>
    0 < fst b \<and> 0 < snd b \<and> block b \<inter> A = {}"
  by (induction held) auto

lemma blocks_apart_release:
  "blocks_apart A (xs @ b # ys) \<Longrightarrow> blocks_apart (A \<union> block b) (xs @ ys)"
proof (induction xs)
  case Nil
  then show ?case by (induction ys) auto
qed auto

locale space_allocator =
  fixes al :: "int \<Rightarrow> 's \<Rightarrow> (int \<times> 's) kres"
    and rl :: "int \<Rightarrow> int \<Rightarrow> 's \<Rightarrow> 's kres"
    and invar :: "'s \<Rightarrow> bool"
    and avail :: "'s \<Rightarrow> int set"
  assumes al_total: "invar s \<Longrightarrow> 0 < n \<Longrightarrow> \<exists>a s'. al n s = Ret (a, s')"
    and al_ok: "invar s \<Longrightarrow> al n s = Ret (a, s') \<Longrightarrow> invar s' \<and> avail s' \<subseteq> avail s \<and>
      (a \<noteq> 0 \<longrightarrow> 0 < a \<and> 0 < n \<and> {a ..< a + n} \<subseteq> avail s \<and> {a ..< a + n} \<inter> avail s' = {})"
    and rl_total: "invar s \<Longrightarrow> 0 < a \<Longrightarrow> 0 < n \<Longrightarrow> {a ..< a + n} \<inter> avail s = {} \<Longrightarrow>
      \<exists>s'. rl n a s = Ret s'"
    and rl_ok: "invar s \<Longrightarrow> 0 < a \<Longrightarrow> 0 < n \<Longrightarrow> {a ..< a + n} \<inter> avail s = {} \<Longrightarrow>
      rl n a s = Ret s' \<Longrightarrow> invar s' \<and> avail s' \<subseteq> avail s \<union> {a ..< a + n}"
begin

text \<open>One request keeps the blocks of all clients apart from each other and from the free
  space, and never panics.\<close>

lemma client_step_safe:
  assumes "invar s" "blocks_apart (avail s) held" "\<And>n. r = Want n \<Longrightarrow> 0 < n"
  obtains s' held' where "client_step al rl r (s, held) = Ret (s', held')" "invar s'"
    "blocks_apart (avail s') held'"
proof (cases r)
  case (Want n)
  with assms al_total obtain a s' where a: "al n s = Ret (a, s')" by blast
  note ok = al_ok [OF assms(1) a]
  have old: "blocks_apart (avail s') held" using ok assms(2) blocks_apart_mono by blast
  have "\<forall>q \<in> set held. block (a, n) \<inter> block q = {}" if "a \<noteq> 0"
    using ok that blocks_apart_in [OF assms(2)] by (fastforce simp: block_def)
  with ok old have "blocks_apart (avail s') (if a = 0 then held else (a, n) # held)"
    by (auto simp: block_def)
  with a ok Want show ?thesis by (intro that) auto
next
  case (Back i)
  show ?thesis
  proof (cases "i < length held")
    case False
    with Back assms show ?thesis by (intro that) auto
  next
    case True
    define b where "b = held ! i"
    have h: "held = take i held @ b # drop (Suc i) held"
      using True by (simp add: b_def id_take_nth_drop)
    have b: "0 < fst b" "0 < snd b" "{fst b ..< fst b + snd b} \<inter> avail s = {}"
      using blocks_apart_in [OF assms(2), of b] True by (auto simp: b_def block_def)
    obtain s' where s': "rl (snd b) (fst b) s = Ret s'" using rl_total assms(1) b by blast
    have "blocks_apart (avail s \<union> block b) (take i held @ drop (Suc i) held)"
      using assms(2) h blocks_apart_release by metis
    with rl_ok [OF assms(1) b s'] have "blocks_apart (avail s') (take i held @ drop (Suc i) held)"
      by (auto simp: block_def intro: blocks_apart_mono)
    with rl_ok [OF assms(1) b s'] s' True Back show ?thesis by (intro that) (auto simp: b_def)
  qed
qed

lemma client_run_safe:
  assumes "invar s" "blocks_apart (avail s) held" "\<forall>n. Want n \<in> set rs \<longrightarrow> 0 < n"
  shows "\<exists>s' held'. client_run al rl rs (s, held) = Ret (s', held') \<and> invar s' \<and>
    blocks_apart (avail s') held'"
  using assms
proof (induction rs arbitrary: s held)
  case (Cons r rs)
  then have "\<And>n. r = Want n \<Longrightarrow> 0 < n" by auto
  with Cons.prems obtain s1 h1 where s1: "client_step al rl r (s, held) = Ret (s1, h1)" "invar s1"
    "blocks_apart (avail s1) h1" using client_step_safe by metis
  with Cons.IH [of s1 h1] Cons.prems show ?case by auto
qed auto

end

lemma rmalloc_total:
  assumes "rm_wf mp" "0 < s" "mid \<noteq> Swapmap"
  shows "\<exists>a mp' env'. rmalloc c mid s (mp, env) = Ret (a, mp', env')"
proof (cases rule: first_fit_cases [of "rm_segs mp" "fits_here c mid s"])
  case none
  then show ?thesis using rmalloc_nofit [OF assms(1,2)] assms(3) by (auto simp: fits_next_def)
next
  case (found xs e ys)
  have A: "\<forall>f \<in> set xs. \<not> fits_here c mid s f \<and> \<not> fits_next c mid s f"
    using found(2) assms(3) by (auto simp: fits_next_def)
  have B: "\<not> (mid = Swapmap \<and> dmmax c < s)"
    "\<not> (mid = Swapmap \<and> c_mod (m_addr e) (CLSIZE c) \<noteq> 0)" using assms(3) by auto
  from rmalloc_took [OF assms(1,2) B(1) found(1) A found(3) B(2), of env]
  obtain mp1 where "rmalloc c mid s (mp, env) = Ret (m_addr e, mp1, env)" .
  then show ?thesis by blast
qed

interpretation rm: space_allocator "rmalloc c Othermap" "rmfree Othermap"
  "\<lambda>st. rm_wf (fst st)" "\<lambda>st. rm_free (fst st)" for c
proof (unfold_locales, goal_cases)
  case (1 st n)
  then show ?case using rmalloc_total [of "fst st" n Othermap c "snd st"] by auto
next
  case (2 st n a st')
  then show ?case
    using rmalloc_sound [of "fst st" c Othermap n "snd st" a "fst st'" "snd st'"] by auto
next
  case (3 st a n)
  from rmfree_spec [OF this, of Othermap "snd st"] show ?case by (metis prod.collapse)
next
  case (4 st a n st')
  from rmfree_spec [OF 4(1-4), of Othermap "snd st"]
  obtain mp' env' lost where "rmfree Othermap n a (fst st, snd st) = Ret (mp', env')" "rm_wf mp'"
    "rm_ovflo env' = rm_ovflo (snd st) @ lost"
    "rm_free mp' = (rm_free (fst st) \<union> {a ..< a + n}) - (\<Union>(n, lo, hi) \<in> set lost. {lo ..< hi})" .
  with 4 show ?case by auto
qed

section \<open>Allocating at a given address\<close>

lemma rmget_locate:
  fixes a :: int
  assumes "m_ent mp = ss @ delim # zs" "segs_from 0 ss"
  defines "out \<equiv> (\<lambda>e. \<not> (m_addr e \<le> a \<and> m_addr e + m_size e > a) \<and> m_size e \<noteq> 0)"
  shows "takeWhile out (m_ent mp) = takeWhile (\<lambda>e. a \<notin> seg_units e) ss"
    and "dropWhile out (m_ent mp) = dropWhile (\<lambda>e. a \<notin> seg_units e) ss @ delim # zs"
proof -
  have "takeWhile out (ss @ delim # zs) = takeWhile (\<lambda>e. a \<notin> seg_units e) ss \<and>
        dropWhile out (ss @ delim # zs) = dropWhile (\<lambda>e. a \<notin> seg_units e) ss @ delim # zs"
    using assms(2)
  proof (induction ss)
    case (Cons e ss)
    have "out e \<longleftrightarrow> a \<notin> seg_units e" using Cons.prems by (auto simp: out_def seg_units_def)
    moreover have "segs_from 0 ss" using Cons.prems by (auto elim: segs_from_mono)
    ultimately show ?case using Cons.IH by auto
  qed (auto simp: out_def)
  then show "takeWhile out (m_ent mp) = takeWhile (\<lambda>e. a \<notin> seg_units e) ss"
    "dropWhile out (m_ent mp) = dropWhile (\<lambda>e. a \<notin> seg_units e) ss @ delim # zs"
    by (simp_all add: assms(1))
qed

lemma carve_segs:
  assumes "segs_from lo (e # ys)" "0 < s" "m_addr e \<le> a" "a + s \<le> m_addr e + m_size e"
  defines "piece \<equiv> (if m_addr e = a then [] else [mkseg (m_addr e) (a - m_addr e)]) @
    (if m_addr e + m_size e = a + s then [] else [mkseg (a + s) (m_addr e + m_size e - (a + s))])"
  shows "segs_from lo (piece @ ys)" and "units (piece @ ys) = units (e # ys) - {a ..< a + s}"
proof -
  show "segs_from lo (piece @ ys)"
    using assms by (auto simp: piece_def elim: segs_from_mono)
  have "a + s \<le> x" if "x \<in> units ys" for x
    using units_bounds [of "m_addr e + m_size e" ys x] that assms by auto
  moreover have "units piece = seg_units e - {a ..< a + s}"
    using assms by (auto simp: piece_def seg_units_def)
  ultimately show "units (piece @ ys) = units (e # ys) - {a ..< a + s}"
    by fastforce
qed

lemma rmget_sound:
  assumes wf: "rm_wf mp" and s: "0 < s" and mid: "mid \<noteq> Swapmap" and a: "0 < a"
  obtains (got) mp' where "rmget mid s a mp = Ret (a, mp')" "rm_wf mp'" "{a ..< a + s} \<subseteq> rm_free mp"
      "rm_free mp' = rm_free mp - {a ..< a + s}"
  | (notgot) "rmget mid s a mp = Ret (0, mp)"
      "\<not> {a ..< a + s} \<subseteq> rm_free mp \<or> m_limit mp \<le> Suc (length (rm_segs mp))"
proof -
  from wf obtain ss k where m: "m_ent mp = ss @ delim # replicate k delim" "segs_from 0 ss"
    "m_limit mp = length ss + Suc k" "1 \<le> length ss + k" "rm_segs mp = ss" "rm_free mp = units ss"
    by (rule rm_wfE)
  note loc = rmget_locate [OF m(1,2), of a]
  show ?thesis
  proof (cases rule: first_fit_cases [of ss "\<lambda>e. a \<in> seg_units e"])
    case none
    then have dw: "dropWhile (\<lambda>e. a \<notin> seg_units e) ss = []" by (simp add: dropWhile_eq_Nil_conv)
    have "rmget mid s a mp = Ret (0, mp)"
      unfolding rmget_def Let_def loc dw using s mid by simp
    moreover have "a \<notin> units ss" using none by (auto simp: units_def)
    then have "\<not> {a ..< a + s} \<subseteq> rm_free mp" using s m(6) by (auto simp: subset_iff)
    ultimately show ?thesis using notgot by blast
  next
    case (found xs e ys)
    have w: "takeWhile (\<lambda>e. a \<notin> seg_units e) ss = xs" "dropWhile (\<lambda>e. a \<notin> seg_units e) ss = e # ys"
      unfolding found(1) using found(2,3) by (intro takeWhile_dropWhile_split; simp)+
    have nz: "\<forall>f \<in> set ys. m_size f \<noteq> 0" and e0: "0 < m_size e" "0 < m_addr e"
      using segs_from_pos [OF m(2)] found(1) by fastforce+
    have ein: "m_addr e \<le> a" "a < m_addr e + m_size e" using found(3) by (auto simp: seg_units_def)
    have segs: "segs_from 0 xs" "segs_from (seg_end 0 xs) (e # ys)" using m(2) found(1) by simp_all
    show ?thesis
    proof (cases "m_addr e + m_size e < a + s")
      case True
      have "rmget mid s a mp = Ret (0, mp)"
        unfolding rmget_def Let_def loc w using True s mid e0 by simp
      moreover have "m_addr e + m_size e \<notin> units ss"
      proof -
        have "m_addr e + m_size e < x" if "x \<in> units ys" for x
          using units_bounds [OF _ that] segs by auto
        moreover have "x < m_addr e" if "x \<in> units xs" for x
          using units_bounds [OF segs(1) that] segs(2) by auto
        ultimately show ?thesis using e0 by (fastforce simp: found(1) seg_units_def)
      qed
      then have "\<not> {a ..< a + s} \<subseteq> rm_free mp" using True ein unfolding m(6)
        by (metis atLeastLessThan_iff less_imp_le subsetD)
      ultimately show ?thesis using notgot by blast
    next
      case False
      define piece where "piece = (if m_addr e = a then [] else [mkseg (m_addr e) (a - m_addr e)]) @
        (if m_addr e + m_size e = a + s then [] else [mkseg (a + s) (m_addr e + m_size e - (a + s))])"
      have c: "segs_from (seg_end 0 xs) (piece @ ys)" "units (piece @ ys) = units (e # ys) - {a ..< a + s}"
        using carve_segs [OF segs(2) s ein(1)] False unfolding piece_def by auto
      have ux: "units xs - {a ..< a + s} = units xs"
        using units_prefix [of 0 xs e ys a] m(2) found(1) ein by simp
      have sub: "{a ..< a + s} \<subseteq> units ss" using ein False by (auto simp: found(1) seg_units_def)
      show ?thesis
      proof (cases "length piece = 2 \<and> k = 0")
        case True
        then have "rmget mid s a mp = Ret (0, mp)"
          unfolding rmget_def Let_def loc w using False s mid e0 nz m(3)
          by (auto simp: piece_def found(1) takeWhile_dropWhile_split split: if_splits)
        with True m notgot show ?thesis by simp
      next
        case fits: False
        define n where "n = Suc (Suc k) - length piece"
        define es where "es = (xs @ piece @ ys) @ delim # replicate (n - 1) delim"
        have lp: "length piece \<le> 2" "n = Suc (n - 1)" using fits by (auto simp: n_def piece_def)
        have upd: "p\<lparr>m_size := x\<rparr> = mkseg (m_addr p) x" "p\<lparr>m_addr := y, m_size := x\<rparr> = mkseg y x"
          for p :: mapent and x y by (simp_all add: mapent_eq_iff)
        have "rmget mid s a mp = Ret (a, mp\<lparr>m_ent := es\<rparr>)"
          unfolding rmget_def Let_def loc w es_def using False s mid e0 nz m(3) fits ein
          by (cases k) (auto simp: piece_def found(1) takeWhile_dropWhile_split n_def upd shift_left_segs
              split: if_splits)
        moreover have "rm_wf (mp\<lparr>m_ent := es\<rparr>)" "rm_free (mp\<lparr>m_ent := es\<rparr>) = units (xs @ piece @ ys)"
          using c segs m(3,4) lp
          by (intro rm_wfI [where ss = "xs @ piece @ ys" and k = "n - 1"];
              auto simp: es_def found(1) n_def)+
        ultimately show ?thesis using c(2) ux sub m(6)
          by (intro got [of "mp\<lparr>m_ent := es\<rparr>"]) (auto simp: found(1))
      qed
    qed
  qed
qed

section \<open>Properties\<close>

definition rm_conf0 :: rmconf where
  "rm_conf0 = \<lparr>dmmax = 32, nswdev = 2, CLSIZE = 2\<rparr>"

definition rm_map0 :: rmap where
  "rm_map0 = \<lparr>m_limit = 4, m_name = ''ex'',
     m_ent = [mkseg 10 20, mkseg 50 64, delim, delim]\<rparr>"

definition rm_env0 :: rmenv where
  "rm_env0 = \<lparr>kmapwnt = 0, kmap_wakeups = 0, rm_ovflo = []\<rparr>"

lemma rm_map0_wf: "rm_wf rm_map0"
  by (simp add: rm_wf_def rm_segs_def rm_map0_def delim_def Let_def)

lemma rm_map0_free: "rm_free rm_map0 = {10 ..< 30} \<union> {50 ..< 114}"
  by (simp add: rm_free_def rm_segs_def rm_map0_def delim_def seg_units_def)

text \<open>(C18) Allocator safety: from any well-formed resource map, any sequence of positive
  \<^verbatim>\<open>rmalloc\<close> requests and \<^verbatim>\<open>rmfree\<close>s of blocks obtained that way runs without a panic or an
  out-of-range access; the map stays well-formed and all blocks held by clients are
  pairwise disjoint and disjoint from the free space, so no unit is ever handed out twice.\<close>

theorem rmap_blocks_apart:
  assumes "rm_wf mp" "\<forall>n. Want n \<in> set rs \<longrightarrow> 0 < n"
  shows "\<exists>mp' env' held. client_run (rmalloc c Othermap) (rmfree Othermap) rs ((mp, env), []) =
    Ret ((mp', env'), held) \<and> rm_wf mp' \<and> blocks_apart (rm_free mp') held"
  using rm.client_run_safe [of "(mp, env)" "[]" rs c] assms by fastforce

theorem rmap_blocks_apart_witness:
  "\<exists>mp' env' held. client_run (rmalloc rm_conf0 Othermap) (rmfree Othermap)
     [Want 12, Want 60, Back 1, Want 4] ((rm_map0, rm_env0), []) =
    Ret ((mp', env'), held) \<and> rm_wf mp' \<and> blocks_apart (rm_free mp') held"
  by (rule rmap_blocks_apart [OF rm_map0_wf]) auto

text \<open>Freeing space that is not free returns normally, keeps the map well-formed and
  adds exactly that space to the free space, less what the console message reports as lost;
  nothing is lost while the slot array has room.\<close>

theorem rmfree_exact:
  assumes "rm_wf mp" "0 < a" "0 < s" "{a ..< a + s} \<inter> rm_free mp = {}"
  shows "\<exists>mp' env' lost. rmfree mid s a (mp, env) = Ret (mp', env') \<and> rm_wf mp' \<and>
    rm_ovflo env' = rm_ovflo env @ lost \<and>
    (Suc (length (rm_segs mp)) < m_limit mp \<longrightarrow> lost = []) \<and>
    rm_free mp' = (rm_free mp \<union> {a ..< a + s}) - (\<Union>(n, lo, hi) \<in> set lost. {lo ..< hi})"
  using rmfree_spec [OF assms, of mid env] by metis

theorem rmfree_exact_witness:
  "\<exists>mp' env' lost. rmfree Kernelmap 5 30 (rm_map0, rm_env0) = Ret (mp', env') \<and> rm_wf mp' \<and>
    rm_ovflo env' = rm_ovflo rm_env0 @ lost \<and>
    (Suc (length (rm_segs rm_map0)) < m_limit rm_map0 \<longrightarrow> lost = []) \<and>
    rm_free mp' = (rm_free rm_map0 \<union> {30 ..< 30 + 5}) - (\<Union>(n, lo, hi) \<in> set lost. {lo ..< hi})"
  by (rule rmfree_exact [OF rm_map0_wf]) (auto simp: rm_map0_free)

text \<open>Freeing space of which any unit is already free is detected: \<^verbatim>\<open>rmfree\<close> panics exactly
  when the space overlaps the free space.\<close>

theorem rmfree_panics_iff:
  assumes "rm_wf mp" "0 < a" "0 < s"
  shows "rmfree mid s a (mp, env) = Panic ''bad rmfree'' \<longleftrightarrow> {a ..< a + s} \<inter> rm_free mp \<noteq> {}"
proof
  assume "rmfree mid s a (mp, env) = Panic ''bad rmfree''"
  then show "{a ..< a + s} \<inter> rm_free mp \<noteq> {}" using rmfree_spec [OF assms, of mid env] by force
next
  assume ov: "{a ..< a + s} \<inter> rm_free mp \<noteq> {}"
  from assms(1) obtain ss k where m: "m_ent mp = ss @ delim # replicate k delim" "segs_from 0 ss"
    "m_limit mp = length ss + Suc k" "1 \<le> length ss + k" "rm_segs mp = ss" "rm_free mp = units ss"
    by (rule rm_wfE)
  from ov m(6) have "\<not> clear_of (takeWhile (\<lambda>e. m_addr e \<le> a) ss) a s (dropWhile (\<lambda>e. m_addr e \<le> a) ss)"
    using clear_of_iff [OF m(2) assms(2,3)] by simp
  with rmfree_closed [OF m(1-4) assms(2,3), of mid env]
  show "rmfree mid s a (mp, env) = Panic ''bad rmfree''" by simp
qed

theorem rmfree_panics_iff_witness:
  "rmfree Othermap 5 28 (rm_map0, rm_env0) = Panic ''bad rmfree'' \<longleftrightarrow>
     {28 ..< 28 + 5} \<inter> rm_free rm_map0 \<noteq> {}"
  by (rule rmfree_panics_iff [OF rm_map0_wf]) auto



text \<open>(C25) Swap interleaving: with several swap devices a block \<^verbatim>\<open>rmalloc\<close> returns from the swap
  map was free, is taken out of the free space and lies within one interleave unit of
  \<^verbatim>\<open>dmmax\<close> blocks.\<close>

theorem rmalloc_swap_boundary:
  assumes "rm_wf mp" "0 < dmmax c" "1 < nswdev c"
    and "rmalloc c Swapmap s (mp, env) = Ret (a, mp', env')" "a \<noteq> 0"
  shows "a mod dmmax c + s \<le> dmmax c \<and> {a ..< a + s} \<subseteq> rm_free mp \<and> rm_free mp' \<inter> {a ..< a + s} = {} \<and>
    rm_wf mp'"
proof -
  have snd: "rm_wf mp'" "0 < s" "{a ..< a + s} \<subseteq> rm_free mp" "rm_free mp' \<inter> {a ..< a + s} = {}"
    using rmalloc_sound [OF assms(1,4)] assms(5) by auto
  have s: "s \<le> dmmax c"
    using assms(4) by (auto simp: rmalloc_def Let_def split: if_splits)
  let ?P = "\<lambda>f. fits_here c Swapmap s f \<or> fits_next c Swapmap s f"
  have "a mod dmmax c + s \<le> dmmax c"
  proof (cases rule: first_fit_cases [of "rm_segs mp" ?P])
    case none
    then have "rmalloc c Swapmap s (mp, env) = Ret (0, mp, env)"
      using rmalloc_nofit [OF assms(1) snd(2)] s by auto
    with assms(4,5) show ?thesis by simp
  next
    case (found xs e ys)
    from assms(1) obtain ss k where m: "m_ent mp = ss @ delim # replicate k delim" "segs_from 0 ss"
      "rm_segs mp = ss" by (rule rm_wfE)
    have nz: "\<forall>f \<in> set ss. m_size f \<noteq> 0" using segs_from_pos [OF m(2)] by fastforce
    have ss: "ss = xs @ e # ys" using found m(3) by simp
    have e: "0 < m_addr e" using segs_from_pos [OF m(2), of e] ss by simp
    have w: "dropWhile (\<lambda>f. \<not> fits_here c Swapmap s f \<and> \<not> fits_next c Swapmap s f) ss = e # ys"
      unfolding ss using found(2,3) by (intro takeWhile_dropWhile_split; simp)+
    show ?thesis
    proof (cases "fits_here c Swapmap s e")
      case True
      with assms(4) s snd(2) have "a = m_addr e"
        by (auto simp: rmalloc_def m(1) rmalloc_scan_segs [OF nz] w Let_def split: if_splits)
      with True e assms(2,3) show ?thesis by (simp add: fits_here_def)
    next
      case False
      with assms(4) s snd(2) have "a = m_addr e + (dmmax c - m_addr e mod dmmax c)"
        using e assms(2)
        by (auto simp: rmalloc_def m(1) rmalloc_scan_segs [OF nz] w Let_def split: if_splits)
      then have "a = dmmax c * (m_addr e div dmmax c + 1)"
        by (simp add: distrib_left minus_mod_eq_mult_div)
      with s show ?thesis by simp
    qed
  qed
  with snd show ?thesis by blast
qed

definition rm_map1 :: rmap where
  "rm_map1 = rm_map0\<lparr>m_ent := [mkseg 10 20, mkseg 50 14, mkseg 94 20, delim]\<rparr>"

lemma rmalloc_map0: "rmalloc rm_conf0 Swapmap 30 (rm_map0, rm_env0) = Ret (64, rm_map1, rm_env0)"
  by (simp add: rmalloc_def rm_map0_def rm_map1_def rm_conf0_def rmfree_def rm_wakeup_def
      scan_cons_def mkseg_def delim_def Let_def)

theorem rmalloc_swap_boundary_witness:
  "64 mod dmmax rm_conf0 + 30 \<le> dmmax rm_conf0 \<and> {64 ..< 64 + 30} \<subseteq> rm_free rm_map0 \<and>
    rm_free rm_map1 \<inter> {64 ..< 64 + 30} = {} \<and> rm_wf rm_map1"
  by (rule rmalloc_swap_boundary [OF rm_map0_wf _ _ rmalloc_map0]) (simp_all add: rm_conf0_def)

text \<open>\<^verbatim>\<open>rmget\<close> at a given address: on any map but the swap map it either takes exactly the
  requested units, which were all free, or returns 0 leaving the map alone; the latter only
  if some unit is not free or the slot array is full.\<close>

theorem rmget_exact:
  assumes "rm_wf mp" "0 < s" "0 < a" "mid \<noteq> Swapmap"
  shows "(\<exists>mp'. rmget mid s a mp = Ret (a, mp') \<and> rm_wf mp' \<and> {a ..< a + s} \<subseteq> rm_free mp \<and>
      rm_free mp' = rm_free mp - {a ..< a + s}) \<or>
    rmget mid s a mp = Ret (0, mp) \<and>
      (\<not> {a ..< a + s} \<subseteq> rm_free mp \<or> m_limit mp \<le> Suc (length (rm_segs mp)))"
  using rmget_sound [OF assms(1,2,4,3)] by metis

theorem rmget_exact_witness:
  "(\<exists>mp'. rmget Kernelmap 10 60 rm_map0 = Ret (60, mp') \<and> rm_wf mp' \<and>
      {60 ..< 60 + 10} \<subseteq> rm_free rm_map0 \<and> rm_free mp' = rm_free rm_map0 - {60 ..< 60 + 10}) \<or>
    rmget Kernelmap 10 60 rm_map0 = Ret (0, rm_map0) \<and>
      (\<not> {60 ..< 60 + 10} \<subseteq> rm_free rm_map0 \<or> m_limit rm_map0 \<le> Suc (length (rm_segs rm_map0)))"
  by (rule rmget_exact [OF rm_map0_wf]) auto

end
