(* ===== verification/Mbuf.thy ===== *)
theory Mbuf
  imports Rmap
begin

text \<open>
  Memory buffers: \<^verbatim>\<open>sys/kern/uipc_mbuf.c\<close> and \<^verbatim>\<open>sys/sys/mbuf.h\<close>, with the sizes of the VAX
  (\<^verbatim>\<open>sys/vax/machparam.h\<close>).

  An mbuf carries its data as the list of the \<^verbatim>\<open>m_len\<close> bytes at \<^verbatim>\<open>m_data\<close> and the offset of
  \<^verbatim>\<open>m_data\<close> in its buffer (\<^verbatim>\<open>m_dat\<close>, or the cluster if \<open>M_EXT\<close>); a chain linked by \<^verbatim>\<open>m_next\<close>
  is a list.  Clusters are numbered and reference-counted in the state \<open>mbsys\<close>; no code
  modelled here writes to the bytes of a cluster, so sharing is visible only in the
  counts.  The answers of the kernel's \<^verbatim>\<open>malloc\<close> and \<^verbatim>\<open>memall\<close> are inputs, consumed one per
  call; the bytes of fresh memory are an input too.  \<open>mdata\<close>, the bytes of a chain, is the
  abstraction the lemmas are about.
\<close>

section \<open>Data\<close>

datatype mtype =
    MT_FREE | MT_DATA | MT_HEADER | MT_SOCKET | MT_PCB | MT_RTABLE | MT_HTABLE | MT_ATABLE
  | MT_SONAME | MT_SOOPTS | MT_FTABLE | MT_RIGHTS | MT_IFADDR | MT_CONTROL | MT_OOBDATA

definition MSIZE :: int where "MSIZE = 128"
definition MLEN :: int where "MLEN = 108"
definition MHLEN :: int where "MHLEN = 100"
definition MCLBYTES :: int where "MCLBYTES = 1024"
definition NBPG :: int where "NBPG = 512"
definition CLBYTES :: int where "CLBYTES = 1024"
definition NCL_INIT :: int where "NCL_INIT = 4096 div CLBYTES"
definition M_COPYALL :: int where "M_COPYALL = 1000000000"

lemmas mbuf_consts = MSIZE_def MLEN_def MHLEN_def MCLBYTES_def NBPG_def CLBYTES_def NCL_INIT_def
  M_COPYALL_def

record pkthdr =
  pkt_len :: int
  rcvif :: "nat option"

record mbuf =
  m_data :: int
  m_bytes :: "byte list"
  m_type :: mtype
  M_EXT :: bool
  M_PKTHDR :: bool
  M_EOR :: bool
  M_BCAST :: bool
  M_MCAST :: bool
  m_pkthdr :: pkthdr
  ext_buf :: nat
  ext_size :: int

type_synonym chain = "mbuf list"

definition m_len :: "mbuf \<Rightarrow> int" where
  "m_len m = int (length (m_bytes m))"

text \<open>The allocator state: \<^verbatim>\<open>mbstat\<close>, the cluster free list and reference counts, the failure
  counters, and \<^verbatim>\<open>mbmap\<close>, the resource map clusters come from.\<close>

record mbsys =
  mal_answers :: "bool list"
  memall_answers :: "bool list"
  fresh :: "nat \<Rightarrow> byte"
  m_mtypes :: "mtype \<Rightarrow> u16"
  m_clfree :: u32
  m_clusters :: u32
  m_drain :: u32
  mclfree :: "nat list"
  mclrefcnt :: "nat \<Rightarrow> byte"
  mbmap :: "rmap \<times> rmenv"
  mb_logged :: bool
  MCFail :: int
  MPFail :: int

section \<open>Allocation\<close>

definition kmalloc :: "mbsys \<Rightarrow> bool \<times> mbsys" where
  "kmalloc s = (case mal_answers s of [] \<Rightarrow> (False, s) | g # gs \<Rightarrow> (g, s\<lparr>mal_answers := gs\<rparr>))"

definition new_mbuf :: "mtype \<Rightarrow> mbuf" where
  "new_mbuf t = \<lparr>m_data = 0, m_bytes = [], m_type = t, M_EXT = False, M_PKTHDR = False,
     M_EOR = False, M_BCAST = False, M_MCAST = False, m_pkthdr = \<lparr>pkt_len = 0, rcvif = None\<rparr>,
     ext_buf = 0, ext_size = 0\<rparr>"

text \<open>\<^verbatim>\<open>MGET\<close> with \<^verbatim>\<open>m_retry\<close> defined away, as inside \<^verbatim>\<open>m_retry\<close> itself.\<close>

definition MGET_once :: "mtype \<Rightarrow> mbsys \<Rightarrow> mbuf option \<times> mbsys" where
  "MGET_once t s = (let (ok, s1) = kmalloc s in
     if ok then (Some (new_mbuf t), s1\<lparr>m_mtypes := (m_mtypes s1)(t := m_mtypes s1 t + 1)\<rparr>)
     else (None, s1))"

definition MGETHDR_once :: "mtype \<Rightarrow> mbsys \<Rightarrow> mbuf option \<times> mbsys" where
  "MGETHDR_once t s = (let (ok, s1) = kmalloc s in
     if ok then (Some ((new_mbuf t)\<lparr>m_data := MLEN - MHLEN, M_PKTHDR := True\<rparr>),
                 s1\<lparr>m_mtypes := (m_mtypes s1)(t := m_mtypes s1 t + 1)\<rparr>)
     else (None, s1))"

text \<open>\<^verbatim>\<open>m_reclaim\<close>: the protocols' drain routines act on state of their own; what they give back
  shows in the later answers of \<^verbatim>\<open>malloc\<close>.\<close>

definition m_reclaim :: "mbsys \<Rightarrow> mbsys" where
  "m_reclaim s = s\<lparr>m_drain := m_drain s + 1\<rparr>"

definition m_retry :: "mtype \<Rightarrow> mbsys \<Rightarrow> mbuf option \<times> mbsys" where
  "m_retry t s = MGET_once t (m_reclaim s)"

definition m_retryhdr :: "mtype \<Rightarrow> mbsys \<Rightarrow> mbuf option \<times> mbsys" where
  "m_retryhdr t s = MGETHDR_once t (m_reclaim s)"

definition MGET :: "mtype \<Rightarrow> mbsys \<Rightarrow> mbuf option \<times> mbsys" where
  "MGET t s = (case MGET_once t s of (Some m, s1) \<Rightarrow> (Some m, s1) | (None, s1) \<Rightarrow> m_retry t s1)"

definition MGETHDR :: "mtype \<Rightarrow> mbsys \<Rightarrow> mbuf option \<times> mbsys" where
  "MGETHDR t s =
     (case MGETHDR_once t s of (Some m, s1) \<Rightarrow> (Some m, s1) | (None, s1) \<Rightarrow> m_retryhdr t s1)"

text \<open>The zeroed area of \<^verbatim>\<open>m_getclr\<close> is beyond the \<^verbatim>\<open>m_len\<close> bytes the model keeps.\<close>

definition m_getclr :: "mtype \<Rightarrow> mbsys \<Rightarrow> mbuf option \<times> mbsys" where
  "m_getclr t s = MGET t s"

section \<open>Clusters\<close>

text \<open>\<^verbatim>\<open>m_clalloc\<close>: pages from \<^verbatim>\<open>mbmap\<close>, memory from \<^verbatim>\<open>memall\<close>; the new clusters go on the free
  list one by one, so the last is first.\<close>

definition rm_vax :: rmconf where
  "rm_vax = \<lparr>dmmax = 1024, nswdev = 1, CLSIZE = 2\<rparr>"

definition m_clalloc :: "int \<Rightarrow> mbsys \<Rightarrow> (bool \<times> mbsys) kres" where
  "m_clalloc ncl s =
     (let npg = ncl * CLSIZE rm_vax in
      kbind (rmalloc rm_vax Othermap npg (mbmap s)) (\<lambda>(mbx, mm).
        let s1 = s\<lparr>mbmap := mm\<rparr> in
        if mbx = 0 then Ret (False, s1\<lparr>mb_logged := True\<rparr>)
        else let p = nat (mbx * NBPG div MCLBYTES);
                 (ok, s2) = (case memall_answers s1 of [] \<Rightarrow> (False, s1)
                              | g # gs \<Rightarrow> (g, s1\<lparr>memall_answers := gs\<rparr>))
        in if \<not> ok
           then kmap (\<lambda>mm'. (False, s2\<lparr>mbmap := mm'\<rparr>)) (rmfree Othermap npg mbx (mbmap s2))
           else let n = nat (ncl * CLBYTES div MCLBYTES) in
             Ret (True, s2\<lparr>mclfree := rev [p ..< p + n] @ mclfree s2,
                           m_clfree := m_clfree s2 + of_nat n,
                           m_clusters := m_clusters s2 + of_nat n\<rparr>)))"

definition mbinit :: "mbsys \<Rightarrow> mbsys kres" where
  "mbinit s = kbind (m_clalloc NCL_INIT s) (\<lambda>(ok, s'). if ok then Ret s' else Panic ''mbinit'')"

definition MCLALLOC :: "mbsys \<Rightarrow> (nat option \<times> mbsys) kres" where
  "MCLALLOC s =
     kbind (if mclfree s = [] then kmap snd (m_clalloc 1 s) else Ret s) (\<lambda>s1.
       case mclfree s1 of
         [] \<Rightarrow> Ret (None, s1)
       | p # r \<Rightarrow> Ret (Some p, s1\<lparr>mclrefcnt := (mclrefcnt s1)(p := mclrefcnt s1 p + 1),
                                  m_clfree := m_clfree s1 - 1, mclfree := r\<rparr>))"

definition MCLGET :: "mbuf \<Rightarrow> mbsys \<Rightarrow> (mbuf \<times> mbsys) kres" where
  "MCLGET m s = kmap (\<lambda>(p, s1). case p of None \<Rightarrow> (m, s1)
     | Some k \<Rightarrow> (m\<lparr>ext_buf := k, m_data := 0, M_EXT := True, ext_size := MCLBYTES\<rparr>, s1)) (MCLALLOC s)"

definition MCLFREE :: "nat \<Rightarrow> mbsys \<Rightarrow> mbsys" where
  "MCLFREE p s =
     (let s1 = s\<lparr>mclrefcnt := (mclrefcnt s)(p := mclrefcnt s p - 1)\<rparr> in
      if mclrefcnt s1 p = 0
      then s1\<lparr>mclfree := p # mclfree s1, m_clfree := m_clfree s1 + 1\<rparr> else s1)"

text \<open>\<^verbatim>\<open>MFREE\<close> and \<^verbatim>\<open>m_free\<close> give back one mbuf (its successor is the rest of the chain).\<close>

definition MFREE :: "mbuf \<Rightarrow> mbsys \<Rightarrow> mbsys" where
  "MFREE m s =
     (let s1 = s\<lparr>m_mtypes := (m_mtypes s)(m_type m := m_mtypes s (m_type m) - 1)\<rparr> in
      if M_EXT m then MCLFREE (ext_buf m) s1 else s1)"

primrec m_freem :: "chain \<Rightarrow> mbsys \<Rightarrow> mbsys" where
  "m_freem [] s = s"
| "m_freem (m # r) s = m_freem r (MFREE m s)"

definition M_COPY_PKTHDR :: "mbuf \<Rightarrow> mbuf \<Rightarrow> mbuf" where
  "M_COPY_PKTHDR to from = to\<lparr>m_pkthdr := m_pkthdr from, M_EXT := False, M_PKTHDR := M_PKTHDR from,
     M_EOR := M_EOR from, M_BCAST := M_BCAST from, M_MCAST := M_MCAST from,
     m_data := MLEN - MHLEN\<rparr>"

definition long_align :: "int \<Rightarrow> int" where
  "long_align n = n div 4 * 4"

definition M_ALIGN :: "mbuf \<Rightarrow> int \<Rightarrow> mbuf" where
  "M_ALIGN m len = m\<lparr>m_data := m_data m + long_align (MLEN - len)\<rparr>"

definition MH_ALIGN :: "mbuf \<Rightarrow> int \<Rightarrow> mbuf" where
  "MH_ALIGN m len = m\<lparr>m_data := m_data m + long_align (MHLEN - len)\<rparr>"

definition M_LEADINGSPACE :: "mbuf \<Rightarrow> int" where
  "M_LEADINGSPACE m = (if M_EXT m then 0
     else if M_PKTHDR m then m_data m - (MLEN - MHLEN) else m_data m)"

definition M_TRAILINGSPACE :: "mbuf \<Rightarrow> int" where
  "M_TRAILINGSPACE m = (if M_EXT m then ext_size m - (m_data m + m_len m)
     else MLEN - (m_data m + m_len m))"

section \<open>Chains\<close>

text \<open>\<^verbatim>\<open>m_prepend\<close>: the new mbuf's bytes are whatever the memory held.\<close>

definition m_prepend :: "chain \<Rightarrow> int \<Rightarrow> mbsys \<Rightarrow> (chain option \<times> mbsys) kres" where
  "m_prepend c len s =
     (case c of [] \<Rightarrow> Fault | m # r \<Rightarrow>
        (case MGET (m_type m) s of
           (None, s1) \<Rightarrow> Ret (None, m_freem (m # r) s1)
         | (Some mn, s1) \<Rightarrow>
             let (mn1, m1) = (if M_PKTHDR m then (M_COPY_PKTHDR mn m, m\<lparr>M_PKTHDR := False\<rparr>) else (mn, m));
                 mn2 = (if len < MHLEN then MH_ALIGN mn1 len else mn1)
             in Ret (Some (mn2\<lparr>m_bytes := map (fresh s1) [0 ..< nat len]\<rparr> # m1 # r), s1)))"

definition M_PREPEND :: "chain \<Rightarrow> int \<Rightarrow> mbsys \<Rightarrow> (chain option \<times> mbsys) kres" where
  "M_PREPEND c plen s =
     (case c of [] \<Rightarrow> Fault | m # r \<Rightarrow>
        kbind (if M_LEADINGSPACE m \<ge> plen
               then Ret (Some (m\<lparr>m_data := m_data m - plen,
                                 m_bytes := map (fresh s) [0 ..< nat plen] @ m_bytes m\<rparr> # r), s)
               else m_prepend (m # r) plen s)
          (\<lambda>(res, s1). case res of
              Some (n # r') \<Rightarrow> Ret (Some ((if M_PKTHDR n
                 then n\<lparr>m_pkthdr := (m_pkthdr n)\<lparr>pkt_len := pkt_len (m_pkthdr n) + plen\<rparr>\<rparr> else n) # r'), s1)
            | _ \<Rightarrow> Ret (res, s1)))"

text \<open>The loop that finds the mbuf at an offset, shared by \<^verbatim>\<open>m_copym\<close> and \<^verbatim>\<open>m_copydata\<close>.\<close>

fun m_skip :: "string \<Rightarrow> int \<Rightarrow> chain \<Rightarrow> (int \<times> chain) kres" where
  "m_skip who off [] = (if off > 0 then Panic who else Ret (off, []))"
| "m_skip who off (m # r) =
     (if off > 0 then (if off < m_len m then Ret (off, m # r) else m_skip who (off - m_len m) r)
      else Ret (off, m # r))"

text \<open>The copy loop of \<^verbatim>\<open>m_copym\<close>; \<open>Inl\<close> the chain to free when \<^verbatim>\<open>MGET\<close> fails (\<^verbatim>\<open>nospace\<close>), \<open>Inr\<close> the
  copy.  A copy that would run past the new mbuf is \<open>Fault\<close>.\<close>

fun m_copym_loop ::
  "int \<Rightarrow> chain \<Rightarrow> int \<Rightarrow> int \<Rightarrow> bool \<Rightarrow> mbsys \<Rightarrow> ((chain + chain) \<times> mbsys) kres" where
  "m_copym_loop off0 [] off len copyhdr s =
     (if len > 0 \<and> len \<noteq> M_COPYALL then Panic ''m_copym'' else Ret (Inr [], s))"
| "m_copym_loop off0 (m # r) off len copyhdr s =
     (if \<not> len > 0 then Ret (Inr [], s)
      else case MGET (m_type m) s of
        (None, s1) \<Rightarrow> Ret (Inl [], s1)
      | (Some n, s1) \<Rightarrow>
          let n1 = (if copyhdr then
                      let h = M_COPY_PKTHDR n m in
                      h\<lparr>m_pkthdr := (m_pkthdr h)\<lparr>pkt_len :=
                          if len = M_COPYALL then pkt_len (m_pkthdr h) - off0 else len\<rparr>\<rparr>
                    else n);
              nlen = min len (m_len m - off);
              bytes = take (nat nlen) (drop (nat off) (m_bytes m));
              (n2, s2) = (if M_EXT m
                 then (n1\<lparr>m_data := m_data m + off, ext_buf := ext_buf m, ext_size := ext_size m,
                          M_EXT := True, m_bytes := bytes\<rparr>,
                       s1\<lparr>mclrefcnt := (mclrefcnt s1)(ext_buf m := mclrefcnt s1 (ext_buf m) + 1)\<rparr>)
                 else (n1\<lparr>m_bytes := bytes\<rparr>, s1))
          in if \<not> M_EXT m \<and> m_data n1 + nlen > MLEN then Fault
             else kmap (\<lambda>(res, s3). (map_sum (Cons n2) (Cons n2) res, s3))
                    (m_copym_loop off0 r 0 (if len \<noteq> M_COPYALL then len - nlen else len) False s2))"

definition m_copym :: "chain \<Rightarrow> int \<Rightarrow> int \<Rightarrow> mbsys \<Rightarrow> (chain \<times> mbsys) kres" where
  "m_copym c off0 len s =
     (if off0 < 0 \<or> len < 0 then Panic ''m_copym''
      else if off0 = 0 \<and> c = [] then Fault
      else kbind (m_skip ''m_copym'' off0 c) (\<lambda>(off, c').
        kbind (m_copym_loop off0 c' off len (off0 = 0 \<and> M_PKTHDR (hd c)) s) (\<lambda>(res, s1).
          case res of
            Inl cpy \<Rightarrow> (let s2 = m_freem cpy s1 in Ret ([], s2\<lparr>MCFail := MCFail s2 + 1\<rparr>))
          | Inr cpy \<Rightarrow> Ret (cpy, if cpy = [] then s1\<lparr>MCFail := MCFail s1 + 1\<rparr> else s1))))"

fun m_copydata_loop :: "chain \<Rightarrow> int \<Rightarrow> int \<Rightarrow> byte list kres" where
  "m_copydata_loop [] off len = (if len > 0 then Panic ''m_copydata'' else Ret [])"
| "m_copydata_loop (m # r) off len =
     (if \<not> len > 0 then Ret []
      else let count = min (m_len m - off) len in
        kmap (\<lambda>bs. take (nat count) (drop (nat off) (m_bytes m)) @ bs) (m_copydata_loop r 0 (len - count)))"

definition m_copydata :: "chain \<Rightarrow> int \<Rightarrow> int \<Rightarrow> byte list kres" where
  "m_copydata c off len =
     (if off < 0 \<or> len < 0 then Panic ''m_copydata''
      else kbind (m_skip ''m_copydata'' off c) (\<lambda>(off', c'). m_copydata_loop c' off' len))"

fun m_cat_loop :: "mbuf \<Rightarrow> chain \<Rightarrow> mbsys \<Rightarrow> chain \<times> mbsys" where
  "m_cat_loop m [] s = ([m], s)"
| "m_cat_loop m (n # r) s =
     (if M_EXT m \<or> m_data m + m_len m + m_len n \<ge> MLEN then (m # n # r, s)
      else m_cat_loop (m\<lparr>m_bytes := m_bytes m @ m_bytes n\<rparr>) r (MFREE n s))"

definition m_cat :: "chain \<Rightarrow> chain \<Rightarrow> mbsys \<Rightarrow> (chain \<times> mbsys) kres" where
  "m_cat m n s = (if m = [] then Fault
     else let (c, s1) = m_cat_loop (last m) n s in Ret (butlast m @ c, s1))"

text \<open>\<^verbatim>\<open>m_adj\<close>: a positive request trims the head, a negative one the tail.  Truncation looks for
  the mbuf with the last byte kept; running off the chain there is a \<open>Fault\<close>.\<close>

fun m_adj_head :: "chain \<Rightarrow> int \<Rightarrow> chain \<times> int" where
  "m_adj_head [] len = ([], len)"
| "m_adj_head (m # r) len =
     (if \<not> len > 0 then (m # r, len)
      else if m_len m \<le> len
           then let (r', len') = m_adj_head r (len - m_len m) in (m\<lparr>m_bytes := []\<rparr> # r', len')
           else (m\<lparr>m_data := m_data m + len, m_bytes := drop (nat len) (m_bytes m)\<rparr> # r, 0))"

fun m_adj_trunc :: "chain \<Rightarrow> int \<Rightarrow> chain kres" where
  "m_adj_trunc [] count = Fault"
| "m_adj_trunc (m # r) count =
     (if m_len m \<ge> count
      then Ret (m\<lparr>m_bytes := take (nat count) (m_bytes m)\<rparr> # map (\<lambda>x. x\<lparr>m_bytes := []\<rparr>) r)
      else kmap (Cons m) (m_adj_trunc r (count - m_len m)))"

definition pkt_set :: "(int \<Rightarrow> int) \<Rightarrow> mbuf \<Rightarrow> mbuf" where
  "pkt_set f m = (if M_PKTHDR m
     then m\<lparr>m_pkthdr := (m_pkthdr m)\<lparr>pkt_len := f (pkt_len (m_pkthdr m))\<rparr>\<rparr> else m)"

definition m_adj :: "chain \<Rightarrow> int \<Rightarrow> chain kres" where
  "m_adj mp req_len =
     (if mp = [] then Ret []
      else if req_len \<ge> 0
      then let (c, len) = m_adj_head mp req_len
           in Ret (pkt_set (\<lambda>l. l - (req_len - len)) (hd c) # tl c)
      else let len = - req_len; count = sum_list (map m_len mp); m = last mp in
        if m_len m \<ge> len
        then Ret (butlast mp @
               [pkt_set (\<lambda>l. l - len) (m\<lparr>m_bytes := take (nat (m_len m - len)) (m_bytes m)\<rparr>)])
        else let count' = (if count - len < 0 then 0 else count - len)
             in m_adj_trunc (pkt_set (\<lambda>_. count') (hd mp) # tl mp) count')"

text \<open>\<^verbatim>\<open>m_pullup\<close>; its \<^verbatim>\<open>do ... while\<close> loop has no evident bound, \<open>None\<close> is a loop that does not end.
  \<^verbatim>\<open>max_protohdr\<close> is set when the protocols are initialised.\<close>

partial_function (option) m_pullup_loop ::
  "int \<Rightarrow> mbuf \<Rightarrow> mbuf \<Rightarrow> chain \<Rightarrow> int \<Rightarrow> int \<Rightarrow> mbsys \<Rightarrow> (mbuf \<times> chain \<times> int \<times> mbsys) option" where
  "m_pullup_loop max_protohdr m n r len space s =
     (let count = min (min (max len max_protohdr) space) (m_len n);
          m1 = m\<lparr>m_bytes := m_bytes m @ take (nat count) (m_bytes n)\<rparr>;
          n1 = n\<lparr>m_bytes := drop (nat count) (m_bytes n)\<rparr>;
          (c, s1) = (if m_len n1 \<noteq> 0 then (n1\<lparr>m_data := m_data n + count\<rparr> # r, s) else (r, MFREE n1 s))
      in if len - count > 0
         then (case c of [] \<Rightarrow> Some (m1, [], len - count, s1)
               | n' # r' \<Rightarrow> m_pullup_loop max_protohdr m1 n' r' (len - count) (space - count) s1)
         else Some (m1, c, len - count, s1))"

definition m_pullup_bad :: "chain \<Rightarrow> mbsys \<Rightarrow> (chain option \<times> mbsys) option" where
  "m_pullup_bad c s = (let s1 = m_freem c s in Some (None, s1\<lparr>MPFail := MPFail s1 + 1\<rparr>))"

definition m_pullup_fill ::
  "int \<Rightarrow> mbuf \<Rightarrow> mbuf \<Rightarrow> chain \<Rightarrow> int \<Rightarrow> mbsys \<Rightarrow> (chain option \<times> mbsys) option" where
  "m_pullup_fill max_protohdr m n r len s =
     (case m_pullup_loop max_protohdr m n r len (MLEN - (m_data m + m_len m)) s of
        None \<Rightarrow> None
      | Some (m1, c, len1, s1) \<Rightarrow>
          if len1 > 0 then m_pullup_bad c (MFREE m1 s1) else Some (Some (m1 # c), s1))"

definition m_pullup :: "int \<Rightarrow> chain \<Rightarrow> int \<Rightarrow> mbsys \<Rightarrow> (chain option \<times> mbsys) option kres" where
  "m_pullup max_protohdr c len s =
     (case c of [] \<Rightarrow> Fault | n # r \<Rightarrow> Ret (
        if \<not> M_EXT n \<and> m_data n + len < MLEN \<and> r \<noteq> []
        then if m_len n \<ge> len then Some (Some c, s)
             else m_pullup_fill max_protohdr n (hd r) (tl r) (len - m_len n) s
        else if len > MHLEN then m_pullup_bad c s
        else case MGET (m_type n) s of
            (None, s1) \<Rightarrow> m_pullup_bad c s1
          | (Some m, s1) \<Rightarrow>
              let (m1, n1) = (if M_PKTHDR n then (M_COPY_PKTHDR m n, n\<lparr>M_PKTHDR := False\<rparr>) else (m, n))
              in m_pullup_fill max_protohdr m1 n1 r len s1))"

section \<open>Well-formedness and the abstraction\<close>

text \<open>Every mbuf keeps its data inside its own buffer: \<^verbatim>\<open>m_dat\<close> (after the packet header, if there
  is one) or the external buffer.\<close>

definition mbuf_wf :: "mbuf \<Rightarrow> bool" where
  "mbuf_wf m = (if M_EXT m then 0 \<le> m_data m \<and> m_data m + m_len m \<le> ext_size m
     else (if M_PKTHDR m then MLEN - MHLEN else 0) \<le> m_data m \<and> m_data m + m_len m \<le> MLEN)"

definition chain_wf :: "chain \<Rightarrow> bool" where
  "chain_wf c = list_all mbuf_wf c"

definition mdata :: "chain \<Rightarrow> byte list" where
  "mdata c = concat (map m_bytes c)"

definition extrefs :: "chain \<Rightarrow> nat \<Rightarrow> nat" where
  "extrefs c k = length (filter (\<lambda>m. M_EXT m \<and> ext_buf m = k) c)"

lemma mdata_simps [simp]:
  "mdata [] = []" "mdata (m # c) = m_bytes m @ mdata c" "mdata (a @ b) = mdata a @ mdata b"
  by (simp_all add: mdata_def)

lemma chain_wf_simps [simp]:
  "chain_wf []" "chain_wf (m # c) \<longleftrightarrow> mbuf_wf m \<and> chain_wf c"
  "chain_wf (a @ b) \<longleftrightarrow> chain_wf a \<and> chain_wf b"
  by (simp_all add: chain_wf_def)

lemma extrefs_simps [simp]:
  "extrefs [] k = 0" "extrefs (m # c) k = (if M_EXT m \<and> ext_buf m = k then 1 else 0) + extrefs c k"
  "extrefs (a @ b) k = extrefs a k + extrefs b k"
  by (simp_all add: extrefs_def)

lemma m_len_nonneg [simp]: "0 \<le> m_len m"
  by (simp add: m_len_def)

lemma sum_m_len: "sum_list (map m_len c) = int (length (mdata c))"
  by (induction c) (simp_all add: m_len_def)

text \<open>A chain and an allocator state for the examples.\<close>

definition ex_mbuf :: "byte list \<Rightarrow> mbuf" where
  "ex_mbuf bs = (new_mbuf MT_DATA)\<lparr>m_bytes := bs\<rparr>"

definition ex_mbsys :: mbsys where
  "ex_mbsys = \<lparr>mal_answers = [True, True, True, True], memall_answers = [True], fresh = (\<lambda>_. 0),
     m_mtypes = (\<lambda>_. 0), m_clfree = 0, m_clusters = 0, m_drain = 0, mclfree = [], mclrefcnt = (\<lambda>_. 0),
     mbmap = (\<lparr>m_limit = 4, m_name = ''mbclusters'', m_ent = [mkseg 2 64, delim, delim, delim]\<rparr>,
       \<lparr>kmapwnt = 0, kmap_wakeups = 0, rm_ovflo = []\<rparr>), mb_logged = False, MCFail = 0, MPFail = 0\<rparr>"

lemmas ex_mbuf_simps = ex_mbuf_def new_mbuf_def mbuf_wf_def m_len_def mbuf_consts

section \<open>Trimming\<close>

lemma pkt_set_simps [simp]:
  "m_bytes (pkt_set f m) = m_bytes m" "m_data (pkt_set f m) = m_data m"
  "M_EXT (pkt_set f m) = M_EXT m" "M_PKTHDR (pkt_set f m) = M_PKTHDR m"
  "ext_size (pkt_set f m) = ext_size m" "ext_buf (pkt_set f m) = ext_buf m"
  "m_len (pkt_set f m) = m_len m" "mbuf_wf (pkt_set f m) = mbuf_wf m"
  by (simp_all add: pkt_set_def mbuf_wf_def m_len_def)

lemma mbuf_wf_shrink [wf_intros]:
  assumes "mbuf_wf m"
  shows "mbuf_wf (m\<lparr>m_bytes := take k (m_bytes m)\<rparr>)" and "mbuf_wf (m\<lparr>m_bytes := []\<rparr>)"
    and "0 \<le> d \<Longrightarrow> d \<le> m_len m \<Longrightarrow> mbuf_wf (m\<lparr>m_data := m_data m + d, m_bytes := drop (nat d) (m_bytes m)\<rparr>)"
  using assms by (auto simp: mbuf_wf_def m_len_def split: if_splits)

lemma m_adj_head_spec:
  assumes "0 \<le> len" and "m_adj_head c len = (c', len')"
  shows "mdata c' = drop (nat len) (mdata c)" and "len' = max 0 (len - int (length (mdata c)))"
    and "chain_wf c \<Longrightarrow> chain_wf c'" and "map M_PKTHDR c' = map M_PKTHDR c"
    and "map m_pkthdr c' = map m_pkthdr c"
proof -
  have "mdata c' = drop (nat len) (mdata c) \<and> len' = max 0 (len - int (length (mdata c)))
      \<and> (chain_wf c \<longrightarrow> chain_wf c') \<and> map M_PKTHDR c' = map M_PKTHDR c
      \<and> map m_pkthdr c' = map m_pkthdr c"
    using assms
  proof (induction c len arbitrary: c' len' rule: m_adj_head.induct)
    case (2 m r len)
    show ?case
    proof (cases "len > 0 \<and> m_len m \<le> len")
      case True
      then obtain r' l' where r: "m_adj_head r (len - m_len m) = (r', l')" by fastforce
      with 2 True have "c' = m\<lparr>m_bytes := []\<rparr> # r'" "len' = l'" by auto
      moreover have "nat (len - m_len m) = nat len - length (m_bytes m)"
        using True by (simp add: m_len_def)
      ultimately show ?thesis using 2(1)[OF _ _ _ r] True
        by (auto simp: m_len_def wf_intros)
    next
      case False
      then consider "len = 0" | "len > 0" "\<not> m_len m \<le> len" using 2 by linarith
      then show ?thesis
      proof cases
        case 2
        then show ?thesis using \<open>m_adj_head (m # r) len = (c', len')\<close>
          by (auto simp: m_len_def wf_intros)
      qed (use 2 in auto)
    qed
  qed auto
  then show "mdata c' = drop (nat len) (mdata c)" "len' = max 0 (len - int (length (mdata c)))"
    "chain_wf c \<Longrightarrow> chain_wf c'" "map M_PKTHDR c' = map M_PKTHDR c" "map m_pkthdr c' = map m_pkthdr c"
    by auto
qed

lemma mdata_emptied [simp]: "mdata (map (\<lambda>x. x\<lparr>m_bytes := []\<rparr>) r) = []"
  by (induction r) simp_all

lemma chain_wf_emptied [wf_intros]: "chain_wf r \<Longrightarrow> chain_wf (map (\<lambda>x. x\<lparr>m_bytes := []\<rparr>) r)"
  by (induction r) (simp_all add: wf_intros)

lemma m_adj_trunc_spec:
  assumes "0 \<le> n" and "n \<le> int (length (mdata c))" and "c \<noteq> []"
  shows "\<exists>c'. m_adj_trunc c n = Ret c' \<and> mdata c' = take (nat n) (mdata c)
     \<and> (chain_wf c \<longrightarrow> chain_wf c') \<and> length c' = length c \<and> m_pkthdr (hd c') = m_pkthdr (hd c)
     \<and> M_PKTHDR (hd c') = M_PKTHDR (hd c)"
  using assms
proof (induction c n rule: m_adj_trunc.induct)
  case (2 m r n)
  show ?case
  proof (cases "m_len m \<ge> n")
    case True
    then show ?thesis by (auto simp: m_len_def wf_intros)
  next
    case False
    then have "r \<noteq> []" using 2 by (auto simp: m_len_def)
    moreover have "nat (n - m_len m) = nat n - length (m_bytes m)" by (simp add: m_len_def)
    ultimately show ?thesis using 2 False by (auto simp: m_len_def)
  qed
qed simp

lemma m_adj_head_case:
  assumes "0 \<le> n" and "c \<noteq> []"
  obtains c' where "m_adj c n = Ret c'" and "mdata c' = drop (nat n) (mdata c)"
    and "chain_wf c \<Longrightarrow> chain_wf c'" and "length c' = length c" and "M_PKTHDR (hd c') = M_PKTHDR (hd c)"
    and "M_PKTHDR (hd c) \<Longrightarrow>
       pkt_len (m_pkthdr (hd c')) = pkt_len (m_pkthdr (hd c)) - min n (int (length (mdata c)))"
proof -
  obtain d len where d: "m_adj_head c n = (d, len)" by fastforce
  note sp = m_adj_head_spec[OF assms(1) d]
  from sp(4) assms(2) have ld: "length d = length c" by (metis length_map)
  with assms(2) obtain m r where dm: "d = m # r" by (cases d) auto
  obtain m0 r0 where c0: "c = m0 # r0" using assms(2) by (cases c) auto
  have "m_adj c n = Ret (pkt_set (\<lambda>l. l - (n - len)) m # r)"
    using assms d dm by (simp add: m_adj_def)
  moreover have "M_PKTHDR m = M_PKTHDR m0" "m_pkthdr m = m_pkthdr m0" using sp(4,5) dm c0 by auto
  ultimately show ?thesis using sp(1-3) ld dm c0 by (intro that) (auto simp: pkt_set_def mbuf_wf_def m_len_def)
qed

lemma take_butlast_last:
  assumes "c \<noteq> []" and "0 < k" and "k \<le> m_len (last c)"
  shows "mdata (butlast c) @ take (nat (m_len (last c) - k)) (m_bytes (last c))
     = take (length (mdata c) - nat k) (mdata c)"
proof -
  have "mdata c = mdata (butlast c) @ m_bytes (last c)"
    using assms(1) mdata_simps(3)[of "butlast c" "[last c]"] by simp
  then show ?thesis using assms by (simp add: m_len_def nat_diff_distrib)
qed

lemma m_adj_eq_trunc:
  assumes "n < 0" and "c \<noteq> []" and "m_len (last c) < - n" and "k = int (length (mdata c) - nat (- n))"
  shows "m_adj c n = m_adj_trunc (pkt_set (\<lambda>_. k) (hd c) # tl c) k"
proof -
  have "k = (if int (length (mdata c)) - - n < 0 then 0 else int (length (mdata c)) - - n)"
    using assms(1) unfolding assms(4) by (cases "int (length (mdata c)) + n < 0") simp_all
  then show ?thesis using assms(1-3) unfolding m_adj_def Let_def sum_m_len by simp
qed

lemma m_adj_tail_case:
  assumes "n < 0" and "c \<noteq> []"
  shows "\<exists>c'. m_adj c n = Ret c' \<and> mdata c' = take (length (mdata c) - nat (- n)) (mdata c)
     \<and> (chain_wf c \<longrightarrow> chain_wf c') \<and> length c' = length c"
proof (cases "m_len (last c) \<ge> - n")
  case True
  have "chain_wf c \<Longrightarrow> chain_wf (butlast c) \<and> mbuf_wf (last c)"
    using assms(2) chain_wf_simps(3)[of "butlast c" "[last c]"] by simp
  then show ?thesis using True assms take_butlast_last[of c "- n"]
    by (simp add: m_adj_def wf_intros Let_def)
next
  case False
  define k where "k = int (length (mdata c) - nat (- n))"
  let ?c = "pkt_set (\<lambda>_. k) (hd c) # tl c"
  have d: "mdata ?c = mdata c" "chain_wf ?c = chain_wf c" "length ?c = length c"
    using assms(2) by (cases c; simp)+
  have "m_adj c n = m_adj_trunc ?c k" using m_adj_eq_trunc[OF assms _ k_def] False by simp
  moreover obtain c' where "m_adj_trunc ?c k = Ret c'" "mdata c' = take (nat k) (mdata ?c)"
     "chain_wf ?c \<longrightarrow> chain_wf c'" "length c' = length ?c"
    using m_adj_trunc_spec[of k ?c] d by (auto simp: k_def simp del: m_adj_trunc.simps mdata_simps)
  ultimately show ?thesis unfolding d by (metis k_def nat_int)
qed

lemma m_adj_data:
  "chain_wf c \<Longrightarrow> \<exists>c'. m_adj c n = Ret c' \<and> chain_wf c' \<and> length c' = length c
     \<and> mdata c' = (if n \<ge> 0 then drop (nat n) (mdata c)
                   else take (length (mdata c) - nat (- n)) (mdata c))"
proof (cases "c = []")
  case True
  then show ?thesis by (simp add: m_adj_def)
next
  case False
  assume wf: "chain_wf c"
  show ?thesis
  proof (cases "n \<ge> 0")
    case True
    from m_adj_head_case[OF True False] wf True show ?thesis by metis
  next
    case neg: False
    with m_adj_tail_case[of n c] False wf show ?thesis by auto
  qed
qed

text \<open>(C24) \<^verbatim>\<open>m_adj\<close> returns on every chain, without touching memory outside it; the result has the
  same mbufs, well-formed if they were, and holds the bytes that remain when the request is
  removed from the head (request at least 0) or from the tail (negative request).\<close>

theorem m_adj_exact:
  "chain_wf c \<Longrightarrow> \<exists>c'. m_adj c n = Ret c' \<and> chain_wf c' \<and> length c' = length c
     \<and> mdata c' = (if n \<ge> 0 then drop (nat n) (mdata c)
                   else take (length (mdata c) - nat (- n)) (mdata c))"
  by (rule m_adj_data)

theorem m_adj_exact_witness:
  "chain_wf [ex_mbuf [1, 2], ex_mbuf [3, 4, 5]] \<and>
   (\<exists>c'. m_adj [ex_mbuf [1, 2], ex_mbuf [3, 4, 5]] (-4) = Ret c' \<and> mdata c' = [1])"
proof -
  have wf: "chain_wf [ex_mbuf [1, 2], ex_mbuf [3, 4, 5]]" by (simp add: ex_mbuf_simps)
  show ?thesis using m_adj_exact[OF wf, of "-4"] wf by (auto simp: ex_mbuf_simps)
qed

text \<open>(C26) Trimming keeps the packet header's length equal to the bytes of the chain, with one
  exception: when a tail trim fits in the last of several mbufs, only that mbuf's flags are
  looked at and the length in the packet header stays as it was, too large by the request.\<close>

definition pkt_ok :: "chain \<Rightarrow> bool" where
  "pkt_ok c = (c \<noteq> [] \<and> M_PKTHDR (hd c) \<and> pkt_len (m_pkthdr (hd c)) = int (length (mdata c))
     \<and> list_all (\<lambda>m. \<not> M_PKTHDR m) (tl c))"

lemma pkt_ok_tail_hidden:
  assumes "pkt_ok c" and "n < 0" and "- n \<le> m_len (last c)" and "length c > 1" and "m_adj c n = Ret c'"
  shows "hd c' = hd c"
proof -
  from assms(1,4) obtain m r where c: "c = m # r" "r \<noteq> []" by (cases c) (auto simp: pkt_ok_def)
  then show ?thesis using assms by (auto simp: m_adj_def Let_def)
qed

lemma pkt_len_trunc:
  assumes "pkt_ok c" and "n < 0" and "m_len (last c) < - n" and "m_adj c n = Ret c'"
  shows "pkt_len (m_pkthdr (hd c')) = int (length (mdata c'))"
proof -
  define k where "k = int (length (mdata c) - nat (- n))"
  let ?c = "pkt_set (\<lambda>_. k) (hd c) # tl c"
  have c: "c \<noteq> []" "M_PKTHDR (hd c)" using assms(1) by (auto simp: pkt_ok_def)
  then have d: "mdata ?c = mdata c" by (cases c; simp)
  have "m_adj_trunc ?c k = Ret c'" using m_adj_eq_trunc[OF assms(2) c(1) assms(3) k_def] assms(4) by simp
  then have "mdata c' = take (nat k) (mdata c)" "m_pkthdr (hd c') = m_pkthdr (hd ?c)"
    using m_adj_trunc_spec[of k ?c] d by (auto simp: k_def simp del: m_adj_trunc.simps mdata_simps)
  then show ?thesis using c by (simp add: k_def pkt_set_def)
qed

theorem m_adj_pktlen:
  assumes "pkt_ok c" and "m_adj c n = Ret c'"
  shows "pkt_len (m_pkthdr (hd c')) = int (length (mdata c'))
     + (if n < 0 \<and> - n \<le> m_len (last c) \<and> length c > 1 then - n else 0)"
proof -
  have c: "c \<noteq> []" "M_PKTHDR (hd c)" "pkt_len (m_pkthdr (hd c)) = int (length (mdata c))"
    using assms(1) by (auto simp: pkt_ok_def)
  have len1: "length c = 1 \<or> length c > 1" using c(1) by (cases c) auto
  consider "n \<ge> 0" | "n < 0" "m_len (last c) < - n" | "n < 0" "- n \<le> m_len (last c)" "length c > 1"
    | "n < 0" "- n \<le> m_len (last c)" "length c = 1"
    using len1 by linarith
  then show ?thesis
  proof cases
    case 1
    then obtain d where "m_adj c n = Ret d" "mdata d = drop (nat n) (mdata c)"
      "M_PKTHDR (hd c) \<Longrightarrow> pkt_len (m_pkthdr (hd d)) = pkt_len (m_pkthdr (hd c)) - min n (int (length (mdata c)))"
      using m_adj_head_case[OF 1 c(1)] by metis
    then show ?thesis using assms(2) c 1 by (simp add: min_def)
  next
    case 2
    with pkt_len_trunc[OF assms(1) 2 assms(2)] show ?thesis by simp
  next
    case 3
    have "mdata c' = take (length (mdata c) - nat (- n)) (mdata c)"
      using m_adj_tail_case[OF 3(1) c(1)] assms(2) by auto
    moreover have "mdata c = mdata (butlast c) @ m_bytes (last c)"
      using c(1) mdata_simps(3)[of "butlast c" "[last c]"] by simp
    ultimately have "int (length (mdata c')) = int (length (mdata c)) + n"
      using 3 by (simp add: m_len_def)
    with pkt_ok_tail_hidden[OF assms(1) 3 assms(2)] 3 c show ?thesis by simp
  next
    case 4
    then obtain m where "c = [m]" by (auto simp: length_Suc_conv)
    then show ?thesis using 4 assms(2) c by (auto simp: m_adj_def pkt_set_def m_len_def)
  qed
qed

definition ex_pkt :: "byte list \<Rightarrow> int \<Rightarrow> mbuf" where
  "ex_pkt bs n = (ex_mbuf bs)\<lparr>m_data := 8, M_PKTHDR := True, m_pkthdr := \<lparr>pkt_len = n, rcvif = None\<rparr>\<rparr>"

theorem m_adj_pktlen_witness:
  "pkt_ok [ex_pkt [1, 2] 4, ex_mbuf [3, 4]] \<and>
   m_adj [ex_pkt [1, 2] 4, ex_mbuf [3, 4]] (-1) = Ret [ex_pkt [1, 2] 4, ex_mbuf [3]] \<and>
   pkt_len (m_pkthdr (hd [ex_pkt [1, 2] 4, ex_mbuf [3]])) = 3 + 1"
proof -
  have a: "pkt_ok [ex_pkt [1, 2] 4, ex_mbuf [3, 4]]"
    by (simp add: pkt_ok_def ex_pkt_def ex_mbuf_simps)
  have b: "m_adj [ex_pkt [1, 2] 4, ex_mbuf [3, 4]] (-1) = Ret [ex_pkt [1, 2] 4, ex_mbuf [3]]"
    by (simp add: m_adj_def ex_pkt_def ex_mbuf_simps pkt_set_def)
  show ?thesis using m_adj_pktlen[OF a b] a b by (simp add: ex_pkt_def ex_mbuf_simps)
qed

section \<open>Copying\<close>

definition mal_ok :: "nat \<Rightarrow> mbsys \<Rightarrow> bool" where
  "mal_ok n s = (n \<le> length (takeWhile id (mal_answers s)))"

lemma MGET_spec:
  assumes "MGET t s = (res, s')"
  shows "res = None \<or> res = Some (new_mbuf t)" and "mclrefcnt s' = mclrefcnt s"
    and "mclfree s' = mclfree s" and "mal_ok (Suc n) s \<Longrightarrow> res = Some (new_mbuf t) \<and> mal_ok n s'"
  using assms
  by (auto simp: MGET_def MGET_once_def kmalloc_def m_retry_def m_reclaim_def mal_ok_def
      split: list.splits if_splits prod.splits)

lemma m_skip_spec:
  assumes "0 \<le> off" and "off \<le> int (length (mdata c))"
  obtains off' c' where "m_skip who off c = Ret (off', c')" and "0 \<le> off'" and "off' \<le> off"
    and "c' = [] \<Longrightarrow> off' = 0" and "c' \<noteq> [] \<Longrightarrow> off' \<le> m_len (hd c')"
    and "drop (nat off) (mdata c) = drop (nat off') (mdata c')"
    and "chain_wf c \<Longrightarrow> chain_wf c'" and "\<And>k. extrefs c' k \<le> extrefs c k" and "length c' \<le> length c"
    and "off = 0 \<Longrightarrow> c' = c"
proof -
  have "\<exists>off' c'. m_skip who off c = Ret (off', c') \<and> 0 \<le> off' \<and> off' \<le> off \<and> (c' = [] \<longrightarrow> off' = 0)
      \<and> (c' \<noteq> [] \<longrightarrow> off' \<le> m_len (hd c')) \<and> drop (nat off) (mdata c) = drop (nat off') (mdata c')
      \<and> (chain_wf c \<longrightarrow> chain_wf c') \<and> (\<forall>k. extrefs c' k \<le> extrefs c k) \<and> length c' \<le> length c
      \<and> (off = 0 \<longrightarrow> c' = c)"
    using assms
  proof (induction who off c rule: m_skip.induct)
    case (2 who off m r)
    show ?case
    proof (cases "off > 0 \<and> \<not> off < m_len m")
      case True
      then have "0 \<le> off - m_len m" "off - m_len m \<le> int (length (mdata r))"
        using 2(2,3) by (auto simp: m_len_def)
      moreover have "nat off = length (m_bytes m) + nat (off - m_len m)"
        using True unfolding m_len_def by linarith
      ultimately show ?thesis using 2(1) True m_len_nonneg[of m]
        by (fastforce simp: add.commute[of "length (m_bytes m)"] intro: le_SucI trans_le_add2)
    qed (use 2 in auto)
  qed auto
  then show ?thesis using that by blast
qed

definition copied :: "chain \<Rightarrow> byte list \<Rightarrow> mbsys \<Rightarrow> chain + chain \<Rightarrow> mbsys \<Rightarrow> bool" where
  "copied c bs s res s' = (mclfree s' = mclfree s \<and>
     (let t = case_sum id id res in
        mclrefcnt s' = (\<lambda>k. mclrefcnt s k + of_nat (extrefs t k)) \<and> (\<forall>k. extrefs t k \<le> extrefs c k)) \<and>
     (case res of Inl _ \<Rightarrow> \<not> mal_ok (length c) s | Inr t \<Rightarrow> chain_wf t \<and> mdata t = bs))"

lemma copied_nil: "copied c [] s (Inr []) s"
  by (simp add: copied_def)

lemma mal_ok_mono: "mal_ok n s \<Longrightarrow> m \<le> n \<Longrightarrow> mal_ok m s"
  by (simp add: mal_ok_def)

lemma copied_mono:
  assumes "copied c' bs s res s1" and "\<And>k. extrefs c' k \<le> extrefs c k" and "length c' \<le> length c"
  shows "copied c bs s res s1"
  using assms mal_ok_mono[of "length c" s "length c'"]
  by (auto simp: copied_def Let_def split: sum.splits intro: order.trans)

lemma copied_Cons:
  assumes "copied r bs s2 res s3" and "mbuf_wf n" and "M_EXT n = M_EXT m" and "M_EXT m \<Longrightarrow> ext_buf n = ext_buf m"
    and "mclfree s2 = mclfree s" and "mal_ok (Suc (length r)) s \<Longrightarrow> mal_ok (length r) s2"
    and "mclrefcnt s2 = (if M_EXT m then (mclrefcnt s)(ext_buf m := mclrefcnt s (ext_buf m) + 1) else mclrefcnt s)"
  shows "copied (m # r) (m_bytes n @ bs) s (map_sum (Cons n) (Cons n) res) s3"
  using assms by (cases res) (auto simp: copied_def fun_eq_iff algebra_simps)

lemma copy_mbuf_wf:
  assumes "mbuf_wf m" and "0 \<le> off" and "off \<le> m_len m" and "nlen = min len (m_len m - off)" and "0 \<le> len"
    and "copyhdr \<Longrightarrow> M_PKTHDR m"
    and "n1 = (if copyhdr then (M_COPY_PKTHDR (new_mbuf t) m)\<lparr>m_pkthdr := p\<rparr> else new_mbuf t)"
    and "bytes = take (nat nlen) (drop (nat off) (m_bytes m))"
  shows "M_EXT m \<Longrightarrow> mbuf_wf (n1\<lparr>m_data := m_data m + off, ext_buf := ext_buf m, ext_size := ext_size m,
                          M_EXT := True, m_bytes := bytes\<rparr>)"
    and "\<not> M_EXT m \<Longrightarrow> mbuf_wf (n1\<lparr>m_bytes := bytes\<rparr>) \<and> \<not> M_EXT n1 \<and> m_data n1 + nlen \<le> MLEN"
  using assms by (auto simp: mbuf_wf_def m_len_def M_COPY_PKTHDR_def new_mbuf_def mbuf_consts min_def
      split: if_splits)

lemma copy_bytes:
  assumes "0 \<le> off" and "off \<le> m_len m" and "len > 0" and "int (length (mdata (m # r))) < M_COPYALL"
    and "len = M_COPYALL \<or> off + len \<le> int (length (mdata (m # r)))"
  shows "take (nat (min len (m_len m - off))) (drop (nat off) (m_bytes m))
      @ take (nat (if len \<noteq> M_COPYALL then len - min len (m_len m - off) else len)) (mdata r)
    = take (nat len) (drop (nat off) (mdata (m # r)))"
proof -
  have off: "nat off \<le> length (m_bytes m)" using assms(2) by (simp add: m_len_def)
  have n: "nat (min len (m_len m - off)) = min (nat len) (length (m_bytes m) - nat off)"
    using assms(1,2,3) unfolding m_len_def by linarith
  show ?thesis
  proof (cases "len = M_COPYALL")
    case True
    then have "length (m_bytes m) + length (mdata r) < nat len" using assms(4) by simp
    then show ?thesis using True off n by simp
  next
    case False
    have "nat (len - min len (m_len m - off)) = nat len - (length (m_bytes m) - nat off)"
      using assms(1,2,3) unfolding m_len_def by linarith
    then show ?thesis using False off n by (simp add: min_def)
  qed
qed

lemma m_copym_loop_spec:
  assumes "chain_wf c" and "0 \<le> off" and "c = [] \<Longrightarrow> off = 0" and "c \<noteq> [] \<Longrightarrow> off \<le> m_len (hd c)"
    and "copyhdr \<Longrightarrow> c \<noteq> [] \<and> M_PKTHDR (hd c)" and "0 \<le> len" and "int (length (mdata c)) < M_COPYALL"
    and "len = M_COPYALL \<or> off + len \<le> int (length (mdata c))"
  shows "\<exists>res s'. m_copym_loop off0 c off len copyhdr s = Ret (res, s')
     \<and> copied c (take (nat len) (drop (nat off) (mdata c))) s res s'"
  using assms
proof (induction c arbitrary: off len copyhdr s)
  case Nil
  then show ?case by (auto simp: copied_nil)
next
  case 2: (Cons m r)
  show ?case
  proof (cases "len > 0")
    case False
    with 2 show ?thesis by (simp add: copied_nil)
  next
    case True
    obtain o1 s1 where g: "MGET (m_type m) s = (o1, s1)" by fastforce
    note gs = MGET_spec[OF g]
    show ?thesis
    proof (cases o1)
      case None
      then show ?thesis using True g gs(2,3) gs(4)[of "length r"] by (auto simp: copied_def fun_eq_iff)
    next
      case (Some n)
      with gs(1) have n: "n = new_mbuf (m_type m)" by simp
      define n1 where "n1 = (if copyhdr then
                      let h = M_COPY_PKTHDR n m in
                      h\<lparr>m_pkthdr := (m_pkthdr h)\<lparr>pkt_len :=
                          if len = M_COPYALL then pkt_len (m_pkthdr h) - off0 else len\<rparr>\<rparr>
                    else n)"
      define nlen where "nlen = min len (m_len m - off)"
      define bytes where "bytes = take (nat nlen) (drop (nat off) (m_bytes m))"
      define len' where "len' = (if len \<noteq> M_COPYALL then len - nlen else len)"
      define n2 where "n2 = (if M_EXT m
                 then n1\<lparr>m_data := m_data m + off, ext_buf := ext_buf m, ext_size := ext_size m,
                          M_EXT := True, m_bytes := bytes\<rparr> else n1\<lparr>m_bytes := bytes\<rparr>)"
      define s2 where "s2 = (if M_EXT m
         then s1\<lparr>mclrefcnt := (mclrefcnt s1)(ext_buf m := mclrefcnt s1 (ext_buf m) + 1)\<rparr> else s1)"
      have wf: "mbuf_wf m" "off \<le> m_len m" "copyhdr \<Longrightarrow> M_PKTHDR m" using 2 by auto
      have n1f: "n1 = (if copyhdr then (M_COPY_PKTHDR (new_mbuf (m_type m)) m)\<lparr>m_pkthdr := m_pkthdr n1\<rparr>
          else new_mbuf (m_type m))"
        by (simp add: n1_def n Let_def)
      note cw = copy_mbuf_wf[OF wf(1) 2(3) wf(2) nlen_def 2(7) wf(3) n1f bytes_def]
      have step: "m_copym_loop off0 (m # r) off len copyhdr s =
          kmap (\<lambda>(res, s3). (map_sum (Cons n2) (Cons n2) res, s3)) (m_copym_loop off0 r 0 len' False s2)"
        using True g Some cw(2) unfolding len'_def n1_def nlen_def bytes_def n2_def s2_def 
        by (auto simp: Let_def)
      have "\<exists>res s'. m_copym_loop off0 r 0 len' False s2 = Ret (res, s')
          \<and> copied r (take (nat len') (drop (nat 0) (mdata r))) s2 res s'"
        by (rule 2(1)) (use 2(2,7,8,9) True wf(2) in
            \<open>auto simp: len'_def nlen_def m_len_def min_def split: if_splits\<close>)
      then obtain res s3 where rec: "m_copym_loop off0 r 0 len' False s2 = Ret (res, s3)"
          "copied r (take (nat len') (mdata r)) s2 res s3" by auto
      have n2: "m_bytes n2 = bytes" "mbuf_wf n2" "M_EXT n2 = M_EXT m" "M_EXT m \<Longrightarrow> ext_buf n2 = ext_buf m"
        using cw by (auto simp: n2_def)
      have "copied (m # r) (m_bytes n2 @ take (nat len') (mdata r)) s
          (map_sum (Cons n2) (Cons n2) res) s3"
        by (rule copied_Cons[OF rec(2) n2(2-4)]) (use gs(2,3) gs(4)[of "length r"] in \<open>auto simp: s2_def mal_ok_def\<close>)
      moreover have "m_bytes n2 @ take (nat len') (mdata r) = take (nat len) (drop (nat off) (mdata (m # r)))"
        using copy_bytes[OF 2(3) wf(2) True 2(8,9)] n2(1) unfolding len'_def bytes_def nlen_def by simp
      ultimately show ?thesis using step rec(1) by auto
    qed
  qed
qed

lemma m_freem_refs:
  assumes "\<And>k. extrefs t k > 0 \<Longrightarrow> extrefs t k < unat (mclrefcnt s k)"
  shows "mclfree (m_freem t s) = mclfree s"
    and "mclrefcnt (m_freem t s) = (\<lambda>k. mclrefcnt s k - of_nat (extrefs t k))"
proof -
  have "mclfree (m_freem t s) = mclfree s
      \<and> mclrefcnt (m_freem t s) = (\<lambda>k. mclrefcnt s k - of_nat (extrefs t k))"
    using assms
  proof (induction t arbitrary: s)
    case (Cons m t)
    let ?s = "MFREE m s"
    have ne: "M_EXT m \<Longrightarrow> mclrefcnt s (ext_buf m) - 1 \<noteq> 0"
      using Cons(2)[of "ext_buf m"] by (auto simp: unat_eq_0 dest: arg_cong[where f = unat])
    then have s: "mclfree ?s = mclfree s"
        "mclrefcnt ?s = (\<lambda>k. mclrefcnt s k - (if M_EXT m \<and> ext_buf m = k then 1 else 0))"
      by (auto simp: MFREE_def MCLFREE_def Let_def)
    have "extrefs t k < unat (mclrefcnt ?s k)" if "extrefs t k > 0" for k
    proof (cases "M_EXT m \<and> ext_buf m = k")
      case True
      then have "mclrefcnt s k \<noteq> 0" using Cons(2)[of k] by auto
      then show ?thesis using True Cons(2)[of k] s by (simp add: unat_minus_one)
    qed (use Cons(2)[of k] s that in auto)
    from Cons(1)[OF this] s show ?case by (auto simp: fun_eq_iff)
  qed simp
  then show "mclfree (m_freem t s) = mclfree s"
    "mclrefcnt (m_freem t s) = (\<lambda>k. mclrefcnt s k - of_nat (extrefs t k))" by auto
qed

definition refs_ok :: "chain \<Rightarrow> mbsys \<Rightarrow> bool" where
  "refs_ok c s = list_all (\<lambda>m. M_EXT m \<longrightarrow> 0 < unat (mclrefcnt s (ext_buf m))
      \<and> unat (mclrefcnt s (ext_buf m)) + extrefs c (ext_buf m) < 256) c"

lemma refs_okD:
  assumes "refs_ok c s" and "0 < extrefs c k"
  shows "0 < unat (mclrefcnt s k)" and "unat (mclrefcnt s k) + extrefs c k < 256"
  using assms by (auto simp: refs_ok_def list_all_iff extrefs_def filter_empty_conv
      length_greater_0_conv[symmetric] simp del: length_greater_0_conv)

lemma copied_freed:
  assumes "refs_ok c s" and "copied c bs s (Inl t) s1"
  shows "mclfree (m_freem t s1) = mclfree s" and "mclrefcnt (m_freem t s1) = mclrefcnt s"
proof -
  have r: "mclrefcnt s1 k = mclrefcnt s k + of_nat (extrefs t k)" "extrefs t k \<le> extrefs c k" for k
    using assms(2) by (auto simp: copied_def)
  have "extrefs t k < unat (mclrefcnt s1 k)" if "extrefs t k > 0" for k
  proof -
    have "0 < extrefs c k" using that r(2)[of k] by simp
    note d = refs_okD[OF assms(1) this]
    have "unat (of_nat (extrefs t k) :: byte) = extrefs t k"
      using d(2) r(2)[of k] by (simp add: unat_of_nat)
    then have "unat (mclrefcnt s1 k) = unat (mclrefcnt s k) + extrefs t k"
      using d(2) r(1,2)[of k] by (simp add: unat_word_ariths)
    then show ?thesis using d(1) by simp
  qed
  from m_freem_refs[OF this] r(1) assms(2)
  show "mclfree (m_freem t s1) = mclfree s" "mclrefcnt (m_freem t s1) = mclrefcnt s"
    by (auto simp: copied_def)
qed

text \<open>That a copy of a range inside the chain returns, and what it holds, does not depend on the reference counts.\<close>

lemma m_copym_data:
  assumes "chain_wf c" and "c \<noteq> []" and "int (length (mdata c)) < M_COPYALL" and "0 \<le> off" and "0 \<le> len"
    and "off + len \<le> int (length (mdata c))"
  shows "\<exists>t s'. m_copym c off len s = Ret (t, s') \<and> (t \<noteq> [] \<longrightarrow> mdata t = take (nat len) (drop (nat off) (mdata c)))"
proof -
  have o: "off \<le> int (length (mdata c))" using assms(5,6) by linarith
  obtain off' c' where sk: "m_skip ''m_copym'' off c = Ret (off', c')" "0 \<le> off'" "off' \<le> off"
      "c' = [] \<Longrightarrow> off' = 0" "c' \<noteq> [] \<Longrightarrow> off' \<le> m_len (hd c')"
      "drop (nat off) (mdata c) = drop (nat off') (mdata c')" "chain_wf c'" "off = 0 \<Longrightarrow> c' = c"
    using m_skip_spec[OF assms(4) o] assms(1) by metis
  let ?h = "off = 0 \<and> M_PKTHDR (hd c)"
  have lens: "int (length (mdata c)) - off = int (length (mdata c')) - off'"
    using arg_cong[OF sk(6), of length] sk(2-5) assms(4) o by (cases c') (auto simp: m_len_def)
  have "\<exists>res s1. m_copym_loop off c' off' len ?h s = Ret (res, s1)
      \<and> copied c' (take (nat len) (drop (nat off') (mdata c'))) s res s1"
    by (rule m_copym_loop_spec) (use assms sk lens in auto)
  then obtain res s1 where r: "m_copym_loop off c' off' len ?h s = Ret (res, s1)"
      "copied c' (take (nat len) (drop (nat off') (mdata c'))) s res s1" by blast
  have "m_copym c off len s = kbind (Ret (res, s1)) (\<lambda>(res, s1). case res of
            Inl cpy \<Rightarrow> (let s2 = m_freem cpy s1 in Ret ([], s2\<lparr>MCFail := MCFail s2 + 1\<rparr>))
          | Inr cpy \<Rightarrow> Ret (cpy, if cpy = [] then s1\<lparr>MCFail := MCFail s1 + 1\<rparr> else s1))"
    unfolding m_copym_def r(1)[symmetric] using assms(2,4,5) sk(1) by simp
  then show ?thesis using r(2) sk(6) by (auto simp: copied_def Let_def split: sum.splits)
qed

lemma MGET_mal:
  assumes "MGET ty s = (res, s')" shows "length (mal_answers s') \<le> length (mal_answers s)"
  using assms by (auto simp: MGET_def MGET_once_def kmalloc_def m_retry_def m_reclaim_def split: list.splits if_splits prod.splits)

lemma MGETHDR_mal:
  assumes "MGETHDR ty s = (res, s')"
  shows "length (mal_answers s') \<le> length (mal_answers s)" and "res \<noteq> None \<Longrightarrow> length (mal_answers s') < length (mal_answers s)"
  using assms by (auto simp: MGETHDR_def MGETHDR_once_def kmalloc_def m_retryhdr_def m_reclaim_def
      split: list.splits if_splits prod.splits)

lemma m_freem_mal: "mal_answers (m_freem c s) = mal_answers s"
  by (induction c arbitrary: s) (simp_all add: MFREE_def MCLFREE_def Let_def)

lemma m_copym_loop_mal:
  "m_copym_loop off0 c off len h s = Ret (res, s') \<Longrightarrow> length (mal_answers s') \<le> length (mal_answers s)"
proof (induction c arbitrary: off len h s res s')
  case (Cons m r)
  show ?case
  proof (cases "len > 0")
    case True
    obtain o1 s1 where g: "MGET (m_type m) s = (o1, s1)" by fastforce
    note le = MGET_mal[OF g]
    show ?thesis
    proof (cases o1)
      case None
      then show ?thesis using Cons(2) True g le by simp
    next
      case (Some n)
      then show ?thesis using Cons(2) True g le
        by (auto simp: Let_def split: if_splits dest!: Cons(1))
    qed
  qed (use Cons(2) in simp)
qed (auto split: if_splits)

lemma m_copym_mal:
  assumes "m_copym c off len s = Ret (c', s')" shows "length (mal_answers s') \<le> length (mal_answers s)"
proof -
  from assms obtain o1 c1 res s1 where r: "m_copym_loop off c1 o1 len (off = 0 \<and> M_PKTHDR (hd c)) s = Ret (res, s1)"
      "(case res of Inl cpy \<Rightarrow> (let s2 = m_freem cpy s1 in Ret ([], s2\<lparr>MCFail := MCFail s2 + 1\<rparr>))
          | Inr cpy \<Rightarrow> Ret (cpy, if cpy = [] then s1\<lparr>MCFail := MCFail s1 + 1\<rparr> else s1)) = Ret (c', s')"
    unfolding m_copym_def by (auto split: if_splits)
  have "mal_answers s' = mal_answers s1" using r(2) by (cases res) (auto simp: Let_def m_freem_mal split: if_splits)
  then show ?thesis using m_copym_loop_mal[OF r(1)] by simp
qed

lemma m_copym_lemma:
  assumes "chain_wf c" and "c \<noteq> []" and "int (length (mdata c)) < M_COPYALL" and "refs_ok c s"
    and "0 \<le> off" and "off \<le> int (length (mdata c))" and "0 \<le> len"
    and "len = M_COPYALL \<or> off + len \<le> int (length (mdata c))"
  shows "\<exists>t s'. m_copym c off len s = Ret (t, s') \<and> chain_wf t
     \<and> (mal_ok (length c) s \<or> t \<noteq> [] \<longrightarrow> mdata t = take (nat len) (drop (nat off) (mdata c)))
     \<and> mclfree s' = mclfree s \<and> mclrefcnt s' = (\<lambda>k. mclrefcnt s k + of_nat (extrefs t k))"
proof -
  obtain off' c' where sk: "m_skip ''m_copym'' off c = Ret (off', c')" "0 \<le> off'" "off' \<le> off"
      "c' = [] \<Longrightarrow> off' = 0" "c' \<noteq> [] \<Longrightarrow> off' \<le> m_len (hd c')"
      "drop (nat off) (mdata c) = drop (nat off') (mdata c')" "chain_wf c'"
      "\<And>k. extrefs c' k \<le> extrefs c k" "length c' \<le> length c" "off = 0 \<Longrightarrow> c' = c"
    using m_skip_spec[OF assms(5,6)] assms(1) by metis
  let ?h = "off = 0 \<and> M_PKTHDR (hd c)"
  have lens: "int (length (mdata c)) - off = int (length (mdata c')) - off'"
    using arg_cong[OF sk(6), of length] sk(2-5) assms(5,6) by (cases c') (auto simp: m_len_def)
  have "\<exists>res s1. m_copym_loop off c' off' len ?h s = Ret (res, s1)
      \<and> copied c' (take (nat len) (drop (nat off') (mdata c'))) s res s1"
    using sk(2-5,7,10) lens assms(2,3,7,8) by (intro m_copym_loop_spec) auto
  then obtain res s1 where l: "m_copym_loop off c' off' len ?h s = Ret (res, s1)"
      "copied c (take (nat len) (drop (nat off) (mdata c))) s res s1"
    using copied_mono[OF _ sk(8,9)] sk(6) by metis
  have eq: "m_copym c off len s = (case res of
       Inl cpy \<Rightarrow> (let s2 = m_freem cpy s1 in Ret ([], s2\<lparr>MCFail := MCFail s2 + 1\<rparr>))
     | Inr cpy \<Rightarrow> Ret (cpy, if cpy = [] then s1\<lparr>MCFail := MCFail s1 + 1\<rparr> else s1))"
    using assms(2,5,7) sk(1) l(1) by (simp add: m_copym_def)
  show ?thesis
  proof (cases res)
    case (Inl t)
    with l(2) copied_freed[OF assms(4), of _ t s1] eq show ?thesis
      by (auto simp: Let_def copied_def)
  next
    case (Inr t)
    with l(2) eq show ?thesis by (auto simp: copied_def)
  qed
qed

text \<open>(C19) \<^verbatim>\<open>m_copym\<close> of a range inside a well-formed chain (or of everything from an offset) returns
  without a panic and without writing past a new mbuf.  When \<^verbatim>\<open>malloc\<close> never fails the copy
  holds exactly the bytes asked for; if it fails part-way nothing is returned and what was
  copied so far is freed.  In every case each cluster's reference count grows by the number of
  mbufs of the result that share it, and the list of free clusters does not change.\<close>

theorem m_copym_exact:
  assumes "chain_wf c" and "c \<noteq> []" and "int (length (mdata c)) < M_COPYALL" and "refs_ok c s"
    and "0 \<le> off" and "off \<le> int (length (mdata c))" and "0 \<le> len"
    and "len = M_COPYALL \<or> off + len \<le> int (length (mdata c))"
  shows "\<exists>t s'. m_copym c off len s = Ret (t, s') \<and> chain_wf t
     \<and> (mal_ok (length c) s \<or> t \<noteq> [] \<longrightarrow> mdata t = take (nat len) (drop (nat off) (mdata c)))
     \<and> mclfree s' = mclfree s \<and> mclrefcnt s' = (\<lambda>k. mclrefcnt s k + of_nat (extrefs t k))"
  by (rule m_copym_lemma[OF assms])

theorem m_copym_exact_witness:
  "\<exists>t s'. m_copym [ex_mbuf [1, 2], ex_mbuf [3, 4, 5]] 1 3 ex_mbsys = Ret (t, s') \<and> mdata t = [2, 3, 4]"
proof -
  have "chain_wf [ex_mbuf [1, 2], ex_mbuf [3, 4, 5]]" "refs_ok [ex_mbuf [1, 2], ex_mbuf [3, 4, 5]] ex_mbsys"
    "mal_ok 2 ex_mbsys"
    by (simp_all add: ex_mbuf_simps refs_ok_def mal_ok_def ex_mbsys_def)
  with m_copym_exact[of "[ex_mbuf [1, 2], ex_mbuf [3, 4, 5]]" ex_mbsys 1 3]
  show ?thesis by (auto simp: ex_mbuf_simps numeral_2_eq_2)
qed

section \<open>Reading and joining\<close>

lemma m_copydata_loop_spec:
  assumes "0 \<le> off" and "c = [] \<Longrightarrow> off = 0" and "c \<noteq> [] \<Longrightarrow> off \<le> m_len (hd c)" and "0 \<le> len"
    and "off + len \<le> int (length (mdata c))"
  shows "m_copydata_loop c off len = Ret (take (nat len) (drop (nat off) (mdata c)))"
  using assms
proof (induction c arbitrary: off len)
  case (Cons m r)
  define n where "n = min (m_len m - off) len"
  have len: "nat n = min (length (m_bytes m) - nat off) (nat len)"
      "nat (len - n) = nat len - (length (m_bytes m) - nat off)"
    using Cons(2-5) unfolding n_def m_len_def list.sel by simp_all
  have off: "nat off \<le> length (m_bytes m)" using Cons(4) by (simp add: m_len_def)
  have "m_copydata_loop r 0 (len - n) = Ret (take (nat (len - n)) (drop (nat 0) (mdata r)))"
    by (rule Cons(1)) (use Cons(2-) in \<open>auto simp: n_def m_len_def min_def\<close>)
  then have "m_copydata_loop (m # r) off len = (if \<not> len > 0 then Ret []
      else Ret (take (nat n) (drop (nat off) (m_bytes m)) @ take (nat (len - n)) (mdata r)))"
    unfolding n_def by (simp add: Let_def)
  then show ?case using off unfolding len by (simp add: min_def)
qed auto

lemma m_copydata_loop_panic:
  assumes "0 \<le> off" and "c = [] \<Longrightarrow> off = 0" and "c \<noteq> [] \<Longrightarrow> off \<le> m_len (hd c)" and "0 \<le> len"
    and "off + len > int (length (mdata c))"
  shows "m_copydata_loop c off len = Panic ''m_copydata''"
  using assms
proof (induction c arbitrary: off len)
  case (Cons m r)
  let ?n = "min (m_len m - off) len"
  have "m_copydata_loop r 0 (len - ?n) = Panic ''m_copydata''"
    by (rule Cons(1)) (use Cons(2-) in \<open>auto simp: m_len_def min_def\<close>)
  moreover have "len > 0" using Cons(4,6) by (auto simp: m_len_def)
  ultimately show ?case by (simp add: Let_def)
qed auto

lemma m_skip_panic: "off > int (length (mdata c)) \<Longrightarrow> m_skip who off c = Panic who"
  by (induction who off c rule: m_skip.induct) (auto simp: m_len_def)

lemma m_copydata_lemma:
  "m_copydata c off len =
     (if 0 \<le> off \<and> 0 \<le> len \<and> off + len \<le> int (length (mdata c))
      then Ret (take (nat len) (drop (nat off) (mdata c))) else Panic ''m_copydata'')"
proof (cases "0 \<le> off \<and> 0 \<le> len")
  case True
  show ?thesis
  proof (cases "off \<le> int (length (mdata c))")
    case le: True
    obtain off' c' where sk: "m_skip ''m_copydata'' off c = Ret (off', c')" "0 \<le> off'"
      "c' = [] \<Longrightarrow> off' = 0" "c' \<noteq> [] \<Longrightarrow> off' \<le> m_len (hd c')"
      "drop (nat off) (mdata c) = drop (nat off') (mdata c')"
      using m_skip_spec[OF _ le] True by metis
    have "int (length (mdata c)) - off = int (length (mdata c')) - off'"
      using arg_cong[OF sk(5), of length] sk(2-4) True le by (cases c') (auto simp: m_len_def)
    then show ?thesis using sk True m_copydata_loop_spec[OF sk(2-4), of len]
        m_copydata_loop_panic[OF sk(2-4), of len] by (auto simp: m_copydata_def)
  qed (use True m_skip_panic[of c off] in \<open>auto simp: m_copydata_def\<close>)
qed (auto simp: m_copydata_def)

lemma m_cat_loop_spec:
  assumes "mbuf_wf m" and "chain_wf c" and "m_cat_loop m c s = (c', s')"
  shows "chain_wf c' \<and> mdata c' = m_bytes m @ mdata c \<and> c' \<noteq> [] \<and> m_pkthdr (hd c') = m_pkthdr m
     \<and> M_PKTHDR (hd c') = M_PKTHDR m"
  using assms
proof (induction m c s rule: m_cat_loop.induct)
  case (2 m n r s)
  show ?case
  proof (cases "M_EXT m \<or> m_data m + m_len m + m_len n \<ge> MLEN")
    case False
    then have "mbuf_wf (m\<lparr>m_bytes := m_bytes m @ m_bytes n\<rparr>)"
      using 2(2) by (auto simp: mbuf_wf_def m_len_def)
    then show ?thesis using 2 False by auto
  qed (use 2 in auto)
qed auto

text \<open>\<^verbatim>\<open>m_cat\<close> appends the bytes of the second chain to those of the first, keeping every
  mbuf inside its buffer, whether it joins the chains or moves the data; the packet header
  (flag and length) of the first chain is left as it was.\<close>

theorem m_cat_exact:
  assumes "chain_wf a" and "chain_wf b" and "a \<noteq> []"
  shows "\<exists>c s'. m_cat a b s = Ret (c, s') \<and> chain_wf c \<and> mdata c = mdata a @ mdata b
     \<and> M_PKTHDR (hd c) = M_PKTHDR (hd a) \<and> m_pkthdr (hd c) = m_pkthdr (hd a)"
proof -
  obtain c s' where l: "m_cat_loop (last a) b s = (c, s')" by fastforce
  have a: "a = butlast a @ [last a]" using assms(3) by simp
  have wf: "chain_wf (butlast a)" "mbuf_wf (last a)"
    using assms(1) chain_wf_simps(3)[of "butlast a" "[last a]"] a by simp_all
  note sp = m_cat_loop_spec[OF wf(2) assms(2) l]
  have "mdata a = mdata (butlast a) @ m_bytes (last a)"
    using mdata_simps(3)[of "butlast a" "[last a]"] a by simp
  moreover have "hd (butlast a @ c) = (if butlast a = [] then hd c else hd a)"
    using a sp by (metis hd_append)
  moreover have "butlast a = [] \<Longrightarrow> hd a = last a" using a by (metis append_Nil list.sel(1))
  ultimately show ?thesis using assms(3) l sp wf(1) by (simp add: m_cat_def)
qed

text \<open>\<^verbatim>\<open>m_copydata\<close> delivers the requested bytes of the chain; it panics exactly when the range
  is negative or not inside the chain.\<close>

theorem m_copydata_exact:
  "m_copydata c off len =
     (if 0 \<le> off \<and> 0 \<le> len \<and> off + len \<le> int (length (mdata c))
      then Ret (take (nat len) (drop (nat off) (mdata c))) else Panic ''m_copydata'')"
  by (rule m_copydata_lemma)

theorem m_cat_exact_witness:
  "\<exists>c s'. m_cat [ex_mbuf [1]] [ex_mbuf [2], ex_mbuf [3]] ex_mbsys = Ret (c, s') \<and> mdata c = [1, 2, 3]"
proof -
  have "chain_wf [ex_mbuf [1]]" "chain_wf [ex_mbuf [2], ex_mbuf [3]]" by (simp_all add: ex_mbuf_simps)
  from m_cat_exact[OF this, of ex_mbsys] show ?thesis by (auto simp: ex_mbuf_simps)
qed

section \<open>Pulling up\<close>

definition pulled :: "mbuf \<Rightarrow> chain \<Rightarrow> int \<Rightarrow> mbuf \<Rightarrow> chain \<Rightarrow> int \<Rightarrow> bool" where
  "pulled m c len m1 c1 len1 = (m_bytes m1 @ mdata c1 = m_bytes m @ mdata c \<and> mbuf_wf m1 \<and> chain_wf c1
     \<and> M_EXT m1 = M_EXT m \<and> M_PKTHDR m1 = M_PKTHDR m \<and> m_pkthdr m1 = m_pkthdr m \<and> m_data m1 = m_data m
     \<and> len1 = len - (m_len m1 - m_len m) \<and> (len1 > 0 \<longrightarrow> c1 = []))"

lemma m_pullup_step:
  assumes "mbuf_wf m" and "\<not> M_EXT m" and "mbuf_wf n" and "space = MLEN - (m_data m + m_len m)"
    and "len \<le> space" and "0 < len" and "count = min (min (max len mp) space) (m_len n)"
    and "m1 = m\<lparr>m_bytes := m_bytes m @ take (nat count) (m_bytes n)\<rparr>"
    and "n1 = n\<lparr>m_bytes := drop (nat count) (m_bytes n)\<rparr>"
  shows "mbuf_wf m1" and "m_bytes m1 @ m_bytes n1 = m_bytes m @ m_bytes n" and "m_len m1 = m_len m + count"
    and "mbuf_wf (n1\<lparr>m_data := m_data n + count\<rparr>)" and "m_len n1 \<noteq> 0 \<Longrightarrow> len - count \<le> 0"
proof -
  have count: "0 \<le> count" "count \<le> m_len n" "count \<le> space" "count < m_len n \<Longrightarrow> len \<le> count"
    using assms(5-7) by (auto simp: m_len_def min_def max_def split: if_splits)
  then have tk: "int (length (take (nat count) (m_bytes n))) = count" by (simp add: m_len_def)
  then show "m_len m1 = m_len m + count" by (simp add: assms(8) m_len_def)
  then show "mbuf_wf m1" using assms(1,2,4) count(3) by (simp add: mbuf_wf_def assms(8) m_len_def)
  show "m_bytes m1 @ m_bytes n1 = m_bytes m @ m_bytes n" by (simp add: assms(8,9))
  have "n1\<lparr>m_data := m_data n + count\<rparr> = n\<lparr>m_data := m_data n + count, m_bytes := drop (nat count) (m_bytes n)\<rparr>"
    by (simp add: assms(9))
  then show "mbuf_wf (n1\<lparr>m_data := m_data n + count\<rparr>)" using mbuf_wf_shrink(3)[OF assms(3) count(1,2)] by simp
  show "len - count \<le> 0" if "m_len n1 \<noteq> 0" using that count by (auto simp: assms(9) m_len_def)
qed

lemma m_pullup_loop_spec:
  assumes "mbuf_wf m" and "\<not> M_EXT m" and "chain_wf (n # r)" and "space = MLEN - (m_data m + m_len m)"
    and "len \<le> space" and "0 < len"
  shows "\<exists>m1 c1 len1 s1. m_pullup_loop mp m n r len space s = Some (m1, c1, len1, s1)
     \<and> pulled m (n # r) len m1 c1 len1"
  using assms
proof (induction r arbitrary: m n len space s)
  case Nil
  define count where "count = min (min (max len mp) space) (m_len n)"
  define m1 where "m1 = m\<lparr>m_bytes := m_bytes m @ take (nat count) (m_bytes n)\<rparr>"
  define n1 where "n1 = n\<lparr>m_bytes := drop (nat count) (m_bytes n)\<rparr>"
  have "mbuf_wf n" using Nil by simp
  note st = m_pullup_step[OF Nil(1,2) this Nil(4-6) count_def m1_def n1_def]
  show ?case using st unfolding m_pullup_loop.simps[of mp m n] count_def[symmetric] Let_def
      m1_def[symmetric] n1_def[symmetric]
    by (auto simp: pulled_def m1_def n1_def m_len_def)
next
  case (Cons n' r)
  define count where "count = min (min (max len mp) space) (m_len n)"
  define m1 where "m1 = m\<lparr>m_bytes := m_bytes m @ take (nat count) (m_bytes n)\<rparr>"
  define n1 where "n1 = n\<lparr>m_bytes := drop (nat count) (m_bytes n)\<rparr>"
  have wf: "mbuf_wf n" "chain_wf (n' # r)" using Cons(4) by simp_all
  note st = m_pullup_step[OF Cons(2,3) wf(1) Cons(5-7) count_def m1_def n1_def]
  note unf = m_pullup_loop.simps[of mp m n "n' # r" len space s, folded count_def, unfolded Let_def,
      folded m1_def n1_def]
  show ?case
  proof (cases "len - count > 0")
    case True
    then have n1: "m_len n1 = 0" using st(5) by auto
    have "\<exists>m2 c1 len1 s1. m_pullup_loop mp m1 n' r (len - count) (space - count) (MFREE n1 s) = Some (m2, c1, len1, s1)
        \<and> pulled m1 (n' # r) (len - count) m2 c1 len1"
      by (rule Cons(1)[OF st(1) _ wf(2)]) (use Cons(3,5,6) st(3) True in \<open>auto simp: m1_def\<close>)
    then show ?thesis using n1 True st(2,3) by (auto simp: unf pulled_def m1_def m_len_def)
  next
    case False
    then show ?thesis using st wf(2) by (auto simp: unf pulled_def m1_def n1_def m_len_def)
  qed
qed

definition pulled_up :: "chain \<Rightarrow> int \<Rightarrow> mbsys \<Rightarrow> chain option \<Rightarrow> bool" where
  "pulled_up c len s res = (case res of
     None \<Rightarrow> len > int (length (mdata c)) \<or> len > MHLEN \<or> \<not> mal_ok 1 s
   | Some c' \<Rightarrow> c' \<noteq> [] \<and> len \<le> m_len (hd c') \<and> \<not> M_EXT (hd c') \<and> chain_wf c' \<and> mdata c' = mdata c
       \<and> M_PKTHDR (hd c') = M_PKTHDR (hd c) \<and> (M_PKTHDR (hd c) \<longrightarrow> m_pkthdr (hd c') = m_pkthdr (hd c)))"

lemma m_pullup_fill_spec:
  assumes "mbuf_wf m" and "\<not> M_EXT m" and "chain_wf (n # r)" and "m_data m + m_len m + len \<le> MLEN" and "0 < len"
  shows "\<exists>res s'. m_pullup_fill mp m n r len s = Some (res, s') \<and> (case res of
     None \<Rightarrow> len > int (length (mdata (n # r)))
   | Some c' \<Rightarrow> c' \<noteq> [] \<and> len + m_len m \<le> m_len (hd c') \<and> \<not> M_EXT (hd c') \<and> chain_wf c'
       \<and> mdata c' = m_bytes m @ mdata (n # r) \<and> M_PKTHDR (hd c') = M_PKTHDR m \<and> m_pkthdr (hd c') = m_pkthdr m)"
proof -
  obtain m1 c1 len1 s1 where l: "m_pullup_loop mp m n r len (MLEN - (m_data m + m_len m)) s = Some (m1, c1, len1, s1)"
    and p: "pulled m (n # r) len m1 c1 len1"
    using m_pullup_loop_spec[OF assms(1,2,3) refl _ assms(5)] assms(4) by fastforce
  show ?thesis
  proof (cases "len1 > 0")
    case True
    then have "m_bytes m1 = m_bytes m @ mdata (n # r)" "len1 = len - (m_len m1 - m_len m)"
      using p by (auto simp: pulled_def)
    then show ?thesis using True l by (simp add: m_pullup_fill_def m_pullup_bad_def Let_def m_len_def)
  next
    case False
    then show ?thesis using l p assms(2) by (auto simp: m_pullup_fill_def pulled_def)
  qed
qed

lemma pulled_up_in_place:
  assumes "chain_wf (n # r)" and "0 < len" and "\<not> M_EXT n" and "m_data n + len < MLEN" and "r \<noteq> []" and "m_len n < len"
  shows "\<exists>res s'. m_pullup_fill mp n (hd r) (tl r) (len - m_len n) s = Some (res, s') \<and> pulled_up (n # r) len s res"
proof -
  have "\<exists>res s'. m_pullup_fill mp n (hd r) (tl r) (len - m_len n) s = Some (res, s') \<and> (case res of
     None \<Rightarrow> len - m_len n > int (length (mdata (hd r # tl r)))
   | Some c' \<Rightarrow> c' \<noteq> [] \<and> len - m_len n + m_len n \<le> m_len (hd c') \<and> \<not> M_EXT (hd c') \<and> chain_wf c'
       \<and> mdata c' = m_bytes n @ mdata (hd r # tl r) \<and> M_PKTHDR (hd c') = M_PKTHDR n \<and> m_pkthdr (hd c') = m_pkthdr n)"
    by (rule m_pullup_fill_spec) (use assms in auto)
  moreover have "hd r # tl r = r" using assms(5) by simp
  ultimately show ?thesis
    by (auto simp: pulled_up_def m_len_def split: option.splits)
qed

lemma pulled_up_new:
  assumes "chain_wf (n # r)" and "0 < len" and "len \<le> MHLEN"
    and "(m1, n1) = (if M_PKTHDR n then (M_COPY_PKTHDR (new_mbuf t) n, n\<lparr>M_PKTHDR := False\<rparr>) else (new_mbuf t, n))"
  shows "\<exists>res s'. m_pullup_fill mp m1 n1 r len s1 = Some (res, s') \<and> pulled_up (n # r) len s res"
proof -
  have m1: "mbuf_wf m1" "\<not> M_EXT m1" "m_data m1 + m_len m1 + len \<le> MLEN" "m_bytes m1 = []"
      "M_PKTHDR m1 = M_PKTHDR n" "M_PKTHDR n \<Longrightarrow> m_pkthdr m1 = m_pkthdr n" "m_bytes n1 = m_bytes n"
    using assms(3,4) by (auto simp: M_COPY_PKTHDR_def new_mbuf_def mbuf_wf_def m_len_def mbuf_consts split: if_splits)
  have wf: "chain_wf (n1 # r)"
    using assms(1,4) by (auto simp: mbuf_wf_def m_len_def mbuf_consts split: if_splits)
  show ?thesis using m_pullup_fill_spec[OF m1(1,2) wf m1(3) assms(2), of mp s1] m1(4-7)
    by (auto simp: pulled_up_def m_len_def split: option.splits)
qed

lemma m_pullup_spec:
  assumes "chain_wf c" and "c \<noteq> []" and "0 < len"
  shows "\<exists>res s'. m_pullup mp c len s = Ret (Some (res, s')) \<and> pulled_up c len s res"
proof -
  obtain n r where c: "c = n # r" using assms(2) by (cases c) auto
  show ?thesis
  proof (cases "\<not> M_EXT n \<and> m_data n + len < MLEN \<and> r \<noteq> []")
    case True
    then show ?thesis using assms pulled_up_in_place[of n r len mp s] unfolding c
      by (cases "m_len n \<ge> len") (auto simp: m_pullup_def pulled_up_def)
  next
    case False
    obtain o1 s1 where g: "MGET (m_type n) s = (o1, s1)" by fastforce
    obtain m1 n1 where mn: "(m1, n1) = (if M_PKTHDR n then (M_COPY_PKTHDR (new_mbuf (m_type n)) n,
        n\<lparr>M_PKTHDR := False\<rparr>) else (new_mbuf (m_type n), n))" by (metis surj_pair)
    have "m_pullup mp c len s = Ret (if len > MHLEN then m_pullup_bad c s
        else case o1 of None \<Rightarrow> m_pullup_bad c s1 | Some _ \<Rightarrow> m_pullup_fill mp m1 n1 r len s1)"
      using False g MGET_spec(1)[OF g] mn unfolding c m_pullup_def
      by (cases "M_PKTHDR n"; cases o1) auto
    then show ?thesis using assms MGET_spec(4)[OF g, of 0] pulled_up_new[OF _ assms(3) _ mn, of r mp s1 s]
      unfolding c by (cases o1) (auto simp: m_pullup_bad_def Let_def pulled_up_def)
  qed
qed

text \<open>(C22) \<^verbatim>\<open>m_pullup\<close> always ends, and either makes at least \<open>len\<close> bytes contiguous in the first
  mbuf's own buffer, with the bytes of the chain and the packet header unchanged and every mbuf
  within bounds, or fails; it fails only if the chain is too short, the request is larger than
  \<^verbatim>\<open>MHLEN\<close>, or no mbuf can be had.\<close>

theorem m_pullup_contiguous:
  assumes "chain_wf c" and "c \<noteq> []" and "0 < len"
  shows "\<exists>res s'. m_pullup mp c len s = Ret (Some (res, s')) \<and> pulled_up c len s res"
  using assms by (rule m_pullup_spec)

theorem m_pullup_contiguous_witness:
  "\<exists>c' s'. m_pullup 40 [ex_mbuf [1, 2], ex_mbuf [3, 4, 5]] 4 ex_mbsys = Ret (Some (Some c', s'))
     \<and> 4 \<le> m_len (hd c') \<and> mdata c' = [1, 2, 3, 4, 5]"
proof -
  have wf: "chain_wf [ex_mbuf [1, 2], ex_mbuf [3, 4, 5]]" "mal_ok 1 ex_mbsys"
    by (simp_all add: ex_mbuf_simps mal_ok_def ex_mbsys_def)
  show ?thesis using m_pullup_contiguous[OF wf(1), of 4 40 ex_mbsys] wf(2)
    by (fastforce simp: pulled_up_def ex_mbuf_simps split: option.splits)
qed

end
