(* ===== verification/Sockbuf.thy ===== *)
theory Sockbuf
  imports Mbuf
begin

text \<open>
  Socket buffers: the \<^verbatim>\<open>sb*\<close> routines of \<^verbatim>\<open>sys/kern/uipc_socket2.c\<close> and the macros of
  \<^verbatim>\<open>sys/sys/socketvar.h\<close>.  A buffer holds records (linked by \<^verbatim>\<open>m_nextpkt\<close>), each an mbuf chain:
  the model has a list of chains.  The counters are the code's unsigned 32-bit values, so
  that \<^verbatim>\<open>sbspace\<close> and the loop of \<^verbatim>\<open>sbflush\<close> are at their width.  The abstraction is \<open>sbdata\<close>,
  the bytes of all records, and \<open>sbrecords\<close>, the bytes record by record.
\<close>

section \<open>Data and macros\<close>

record sockbuf =
  sb_cc :: u32
  sb_hiwat :: u32
  sb_mbcnt :: u32
  sb_mbmax :: u32
  sb_lowat :: int
  sb_mb :: "chain list"
  sb_sel :: "nat option"
  SB_LOCK :: bool
  SB_WANT :: bool
  SB_WAIT :: bool
  SB_SEL :: bool
  SB_ASYNC :: bool
  SB_COLL :: bool
  SB_NOINTR :: bool
  sb_timeo :: int

definition sbspace :: "sockbuf \<Rightarrow> int" where
  "sbspace sb = min (sint (sb_hiwat sb - sb_cc sb)) (sint (sb_mbmax sb - sb_mbcnt sb))"

definition sballoc :: "mbuf \<Rightarrow> sockbuf \<Rightarrow> sockbuf" where
  "sballoc m sb = sb\<lparr>sb_cc := sb_cc sb + of_int (m_len m),
     sb_mbcnt := sb_mbcnt sb + of_int MSIZE + (if M_EXT m then of_int (ext_size m) else 0)\<rparr>"

definition sbfree :: "mbuf \<Rightarrow> sockbuf \<Rightarrow> sockbuf" where
  "sbfree m sb = sb\<lparr>sb_cc := sb_cc sb - of_int (m_len m),
     sb_mbcnt := sb_mbcnt sb - of_int MSIZE - (if M_EXT m then of_int (ext_size m) else 0)\<rparr>"

section \<open>Locking\<close>

text \<open>What a \<^verbatim>\<open>tsleep\<close> gives back: its error, and the buffer as others left it meanwhile.\<close>

type_synonym sleep = "errno option \<times> sockbuf"

text \<open>\<open>None\<close>: still asleep when the given wakeups are used up.\<close>

fun sb_lock :: "(sockbuf \<Rightarrow> sleep) list \<Rightarrow> sockbuf \<Rightarrow> (errno option \<times> sockbuf) option" where
  "sb_lock [] sb = (if SB_LOCK sb then None else Some (None, sb\<lparr>SB_LOCK := True\<rparr>))"
| "sb_lock (w # ws) sb =
     (if SB_LOCK sb
      then case w (sb\<lparr>SB_WANT := True\<rparr>) of
             (Some e, sb1) \<Rightarrow> Some (Some e, sb1)
           | (None, sb1) \<Rightarrow> sb_lock ws sb1
      else Some (None, sb\<lparr>SB_LOCK := True\<rparr>))"

text \<open>The macro \<^verbatim>\<open>sblock\<close>: the comma expression has the value 0 whatever \<^verbatim>\<open>sb_lock\<close> returned.\<close>

definition sblock :: "(sockbuf \<Rightarrow> sleep) list \<Rightarrow> sockbuf \<Rightarrow> (errno option \<times> sockbuf) option" where
  "sblock ws sb =
     map_option (\<lambda>(e, sb1). (None, sb1))
       (if SB_LOCK sb then sb_lock ws sb else Some (None, sb\<lparr>SB_LOCK := True\<rparr>))"

text \<open>\<^verbatim>\<open>sbunlock\<close>; the flag returned says whether \<^verbatim>\<open>wakeup\<close> is called.\<close>

definition sbunlock :: "sockbuf \<Rightarrow> sockbuf \<times> bool" where
  "sbunlock sb = (let sb1 = sb\<lparr>SB_LOCK := False\<rparr> in
     if SB_WANT sb1 then (sb1\<lparr>SB_WANT := False\<rparr>, True) else (sb1, False))"

section \<open>Appending\<close>

text \<open>\<^verbatim>\<open>sbcompress\<close>: the mbufs \<open>m\<close> are linked after \<open>n\<close>; the chain returned starts at \<open>n\<close>.\<close>

fun sbcompress_loop ::
  "chain \<Rightarrow> mbuf option \<Rightarrow> bool \<Rightarrow> sockbuf \<Rightarrow> mbsys \<Rightarrow> chain \<times> sockbuf \<times> mbsys" where
  "sbcompress_loop [] None eor sb s = ([], sb, s)"
| "sbcompress_loop [] (Some n) eor sb s = ([n\<lparr>M_EOR := M_EOR n \<or> eor\<rparr>], sb, s)"
| "sbcompress_loop (m # r) n eor sb s =
     (let eor1 = (eor \<or> M_EOR m) in
      if m_len m = 0 then sbcompress_loop r n eor1 sb (MFREE m s)
      else case n of
        None \<Rightarrow> sbcompress_loop r (Some (m\<lparr>M_EOR := False\<rparr>)) eor1 (sballoc m sb) s
      | Some k \<Rightarrow>
          if \<not> M_EXT k \<and> \<not> M_EOR k \<and> m_data k + m_len k + m_len m < MLEN \<and> m_type k = m_type m
          then sbcompress_loop r (Some (k\<lparr>m_bytes := m_bytes k @ m_bytes m\<rparr>)) eor1
                 (sb\<lparr>sb_cc := sb_cc sb + of_int (m_len m)\<rparr>) (MFREE m s)
          else let (c, sb1, s1) = sbcompress_loop r (Some (m\<lparr>M_EOR := False\<rparr>)) eor1 (sballoc m sb) s
               in (k # c, sb1, s1))"

definition sbcompress :: "chain \<Rightarrow> mbuf option \<Rightarrow> sockbuf \<Rightarrow> mbsys \<Rightarrow> chain \<times> sockbuf \<times> mbsys" where
  "sbcompress m n sb s = sbcompress_loop m n False sb s"

definition move_eor :: "mbuf \<Rightarrow> chain \<Rightarrow> mbuf \<times> chain" where
  "move_eor h r = (case r of [] \<Rightarrow> (h, [])
     | x # r' \<Rightarrow> if M_EOR h then (h\<lparr>M_EOR := False\<rparr>, x\<lparr>M_EOR := True\<rparr> # r') else (h, r))"

definition sbappendrecord :: "chain \<Rightarrow> sockbuf \<Rightarrow> mbsys \<Rightarrow> sockbuf \<times> mbsys" where
  "sbappendrecord m0 sb s = (case m0 of [] \<Rightarrow> (sb, s)
     | h # r \<Rightarrow>
        let sb1 = sballoc h sb;
            (h1, r1) = move_eor h r;
            (c, sb2, s2) = sbcompress r1 (Some h1) sb1 s
        in (sb2\<lparr>sb_mb := sb_mb sb @ [c]\<rparr>, s2))"

definition sbappend :: "chain \<Rightarrow> sockbuf \<Rightarrow> mbsys \<Rightarrow> sockbuf \<times> mbsys" where
  "sbappend m sb s =
     (if m = [] then (sb, s)
      else if sb_mb sb = []
      then let (c, sb1, s1) = sbcompress m None sb s
           in (sb1\<lparr>sb_mb := (if c = [] then [] else [c])\<rparr>, s1)
      else let l = last (sb_mb sb) in
        if list_ex M_EOR (butlast l) then sbappendrecord m sb s
        else let (c, sb1, s1) = sbcompress m (Some (last l)) sb s
             in (sb1\<lparr>sb_mb := butlast (sb_mb sb) @ [butlast l @ c]\<rparr>, s1))"

text \<open>The records \<^verbatim>\<open>sbinsertoob\<close> passes over.\<close>

fun oob_train :: "chain \<Rightarrow> bool" where
  "oob_train [] = False"
| "oob_train (m # r) = (if m_type m = MT_OOBDATA then True
     else if m_type m = MT_CONTROL then oob_train r else False)"

definition sbinsertoob :: "chain \<Rightarrow> sockbuf \<Rightarrow> mbsys \<Rightarrow> sockbuf \<times> mbsys" where
  "sbinsertoob m0 sb s = (case m0 of [] \<Rightarrow> (sb, s)
     | h # r \<Rightarrow>
        let sb1 = sballoc h sb;
            (h1, r1) = move_eor h r;
            (c, sb2, s2) = sbcompress r1 (Some h1) sb1 s
        in (sb2\<lparr>sb_mb := takeWhile oob_train (sb_mb sb) @ c # dropWhile oob_train (sb_mb sb)\<rparr>, s2))"

text \<open>\<open>False\<close>: no room, or no mbuf for the address; the buffer is then unchanged.\<close>

definition sbappendaddr ::
  "byte list \<Rightarrow> chain \<Rightarrow> chain \<Rightarrow> sockbuf \<Rightarrow> mbsys \<Rightarrow> (bool \<times> sockbuf \<times> mbsys) kres" where
  "sbappendaddr asa m0 control sb s =
     (if m0 \<noteq> [] \<and> \<not> M_PKTHDR (hd m0) then Panic ''sbappendaddr''
      else let space = int (length asa) + (if m0 = [] then 0 else pkt_len (m_pkthdr (hd m0)))
                 + sum_list (map m_len control) in
        if space > sbspace sb then Ret (False, sb, s)
        else if int (length asa) > MLEN then Ret (False, sb, s)
        else case MGET MT_SONAME s of
            (None, s1) \<Rightarrow> Ret (False, sb, s1)
          | (Some m, s1) \<Rightarrow>
              let c = m\<lparr>m_bytes := asa\<rparr> # control @ m0
              in Ret (True, (fold sballoc c sb)\<lparr>sb_mb := sb_mb sb @ [c]\<rparr>, s1))"

definition sbappendcontrol :: "chain \<Rightarrow> chain \<Rightarrow> sockbuf \<Rightarrow> (bool \<times> sockbuf) kres" where
  "sbappendcontrol m0 control sb =
     (if control = [] then Panic ''sbappendcontrol''
      else let space = sum_list (map m_len control) + sum_list (map m_len m0) in
        if space > sbspace sb then Ret (False, sb)
        else let c = control @ m0
             in Ret (True, (fold sballoc c sb)\<lparr>sb_mb := sb_mb sb @ [c]\<rparr>))"

section \<open>Removing\<close>

fun sbdrop_loop ::
  "chain \<Rightarrow> chain list \<Rightarrow> int \<Rightarrow> sockbuf \<Rightarrow> mbsys \<Rightarrow> (chain \<times> chain list \<times> sockbuf \<times> mbsys) kres" where
  "sbdrop_loop m nx len sb s =
     (if len > 0
      then case m of
          [] \<Rightarrow> (case nx of [] \<Rightarrow> Panic ''sbdrop'' | m1 # nx1 \<Rightarrow> sbdrop_loop m1 nx1 len sb s)
        | k # r \<Rightarrow>
            if m_len k > len
            then Ret (k\<lparr>m_data := m_data k + len, m_bytes := drop (nat len) (m_bytes k)\<rparr> # r, nx,
                      sb\<lparr>sb_cc := sb_cc sb - of_int len\<rparr>, s)
            else sbdrop_loop r nx (len - m_len k) (sbfree k sb) (MFREE k s)
      else Ret (m, nx, sb, s))"

declare sbdrop_loop.simps [simp del]

fun sbdrop_empty :: "chain \<Rightarrow> sockbuf \<Rightarrow> mbsys \<Rightarrow> chain \<times> sockbuf \<times> mbsys" where
  "sbdrop_empty [] sb s = ([], sb, s)"
| "sbdrop_empty (m # r) sb s =
     (if m_len m = 0 then sbdrop_empty r (sbfree m sb) (MFREE m s) else (m # r, sb, s))"

definition sbdrop :: "int \<Rightarrow> sockbuf \<Rightarrow> mbsys \<Rightarrow> (sockbuf \<times> mbsys) kres" where
  "sbdrop len sb s =
     (let (m, nx) = (case sb_mb sb of [] \<Rightarrow> ([], []) | m # nx \<Rightarrow> (m, nx)) in
      kbind (sbdrop_loop m nx len sb s) (\<lambda>(m1, nx1, sb1, s1).
        let (m2, sb2, s2) = sbdrop_empty m1 sb1 s1
        in Ret (sb2\<lparr>sb_mb := (if m2 = [] then nx1 else m2 # nx1)\<rparr>, s2)))"

definition sbdroprecord :: "sockbuf \<Rightarrow> mbsys \<Rightarrow> sockbuf \<times> mbsys" where
  "sbdroprecord sb s = (case sb_mb sb of [] \<Rightarrow> (sb, s)
     | m # nx \<Rightarrow> ((fold sbfree m sb)\<lparr>sb_mb := nx\<rparr>, m_freem m s))"

text \<open>\<open>None\<close>: the loop of \<^verbatim>\<open>sbflush\<close> does not end.\<close>

partial_function (option) sbflush_loop :: "sockbuf \<Rightarrow> mbsys \<Rightarrow> (sockbuf \<times> mbsys) kres option" where
  "sbflush_loop sb s =
     (if sb_mbcnt sb \<noteq> 0
      then case sbdrop (sint (sb_cc sb)) sb s of
             Ret (sb1, s1) \<Rightarrow> sbflush_loop sb1 s1
           | Panic e \<Rightarrow> Some (Panic e)
           | Fault \<Rightarrow> Some Fault
      else Some (Ret (sb, s)))"

definition sbflush :: "sockbuf \<Rightarrow> mbsys \<Rightarrow> (sockbuf \<times> mbsys) kres option" where
  "sbflush sb s =
     (if SB_LOCK sb then Some (Panic ''sbflush'')
      else map_option (\<lambda>r. kbind r (\<lambda>(sb1, s1).
             if sb_cc sb1 \<noteq> 0 \<or> sb_mb sb1 \<noteq> [] then Panic ''sbflush 2'' else Ret (sb1, s1)))
           (sbflush_loop sb s))"

section \<open>Reservations and checking\<close>

definition sbreserve :: "u32 \<Rightarrow> u32 \<Rightarrow> sockbuf \<Rightarrow> bool \<times> sockbuf" where
  "sbreserve sb_max cc sb =
     (if cc > sb_max * of_int MCLBYTES div of_int (MSIZE + MCLBYTES) then (False, sb)
      else let sb1 = sb\<lparr>sb_hiwat := cc, sb_mbmax := min (cc * 2) sb_max\<rparr>
           in (True, if (of_int (sb_lowat sb1) :: u32) > sb_hiwat sb1
                     then sb1\<lparr>sb_lowat := sint (sb_hiwat sb1)\<rparr> else sb1))"

definition sbrelease :: "sockbuf \<Rightarrow> mbsys \<Rightarrow> (sockbuf \<times> mbsys) kres option" where
  "sbrelease sb s = map_option (kmap (\<lambda>(sb1, s1). (sb1\<lparr>sb_hiwat := 0, sb_mbmax := 0\<rparr>, s1))) (sbflush sb s)"

text \<open>\<^verbatim>\<open>sbcheck\<close>, compiled with \<^verbatim>\<open>SOCKBUF_DEBUG\<close>: only for buffers of one record.\<close>

definition mbcnt_of :: "chain \<Rightarrow> int" where
  "mbcnt_of c = sum_list (map (\<lambda>m. MSIZE + (if M_EXT m then ext_size m else 0)) c)"

definition sbcheck :: "sockbuf \<Rightarrow> unit kres" where
  "sbcheck sb = (case sb_mb sb of
       [] \<Rightarrow> if 0 \<noteq> sb_cc sb \<or> 0 \<noteq> sb_mbcnt sb then Panic ''sbcheck'' else Ret ()
     | m # nx \<Rightarrow> if nx \<noteq> [] then Panic ''sbcheck nextpkt''
         else if of_int (sum_list (map m_len m)) \<noteq> sb_cc sb \<or> of_int (mbcnt_of m) \<noteq> sb_mbcnt sb
         then Panic ''sbcheck'' else Ret ())"

section \<open>The invariant\<close>

text \<open>The counters agree with the records, no record is empty of mbufs, and every mbuf keeps its data
  in its own buffer.\<close>

definition sbrecords :: "sockbuf \<Rightarrow> byte list list" where
  "sbrecords sb = map mdata (sb_mb sb)"

definition sbdata :: "sockbuf \<Rightarrow> byte list" where
  "sbdata sb = mdata (concat (sb_mb sb))"

definition sb_ok :: "sockbuf \<Rightarrow> bool" where
  "sb_ok sb = (sb_cc sb = of_nat (length (sbdata sb)) \<and> sb_mbcnt sb = of_int (mbcnt_of (concat (sb_mb sb)))
     \<and> list_all (\<lambda>r. r \<noteq> []) (sb_mb sb) \<and> chain_wf (concat (sb_mb sb)))"

lemma mbcnt_of_simps [simp]:
  "mbcnt_of [] = 0" "mbcnt_of (m # c) = MSIZE + (if M_EXT m then ext_size m else 0) + mbcnt_of c"
  "mbcnt_of (a @ b) = mbcnt_of a + mbcnt_of b"
  by (simp_all add: mbcnt_of_def)

lemma ext_size_nonneg: "mbuf_wf m \<Longrightarrow> M_EXT m \<Longrightarrow> 0 \<le> ext_size m"
  by (auto simp: mbuf_wf_def m_len_def)

lemma mbcnt_of_nonneg: "chain_wf c \<Longrightarrow> 0 \<le> mbcnt_of c"
  by (induction c) (auto simp: mbuf_consts dest: ext_size_nonneg)

lemma mbcnt_of_pos: "chain_wf c \<Longrightarrow> c \<noteq> [] \<Longrightarrow> 0 < mbcnt_of c"
  using mbcnt_of_nonneg[of "tl c"] by (cases c) (auto simp: mbuf_consts dest: ext_size_nonneg)

lemma mdata_concat: "mdata (concat rs) = concat (map mdata rs)"
  by (induction rs) simp_all

lemma sbdata_concat: "sbdata sb = concat (sbrecords sb)"
  by (simp add: sbdata_def sbrecords_def mdata_concat)

text \<open>How the counters move: \<open>grow\<close> adds bytes and mbuf space.\<close>

definition grow :: "int \<Rightarrow> int \<Rightarrow> sockbuf \<Rightarrow> sockbuf" where
  "grow n k sb = sb\<lparr>sb_cc := sb_cc sb + of_int n, sb_mbcnt := sb_mbcnt sb + of_int k\<rparr>"

lemma grow_simps [simp]:
  "sb_cc (grow n k sb) = sb_cc sb + of_int n" "sb_mbcnt (grow n k sb) = sb_mbcnt sb + of_int k"
  "sb_mb (grow n k sb) = sb_mb sb" "grow 0 0 sb = sb"
  "grow a b (grow n k sb) = grow (n + a) (k + b) sb"
  by (simp_all add: grow_def algebra_simps)

lemma sballoc_grow: "sballoc m = grow (m_len m) (mbcnt_of [m])"
  by (simp add: fun_eq_iff sballoc_def grow_def)

lemma sbfree_grow: "sbfree m = grow (- m_len m) (- mbcnt_of [m])"
  by (simp add: fun_eq_iff sbfree_def grow_def)

lemma sb_cc_grow: "sb\<lparr>sb_cc := sb_cc sb + of_int n\<rparr> = grow n 0 sb"
  by (simp add: grow_def)

lemma sb_cc_shrink: "sb\<lparr>sb_cc := sb_cc sb - of_int n\<rparr> = grow (- n) 0 sb"
  by (simp add: grow_def)

lemma fold_sballoc: "fold sballoc c sb = grow (int (length (mdata c))) (mbcnt_of c) sb"
  by (induction c arbitrary: sb) (simp_all add: sballoc_grow m_len_def algebra_simps)

lemma fold_sbfree: "fold sbfree c sb = grow (- int (length (mdata c))) (- mbcnt_of c) sb"
  by (induction c arbitrary: sb) (simp_all add: sbfree_grow m_len_def algebra_simps)

lemma sb_ok_grow:
  assumes "sb_ok sb" and "int (length (mdata (concat rs))) = int (length (sbdata sb)) + n"
    and "mbcnt_of (concat rs) = mbcnt_of (concat (sb_mb sb)) + k"
    and "list_all (\<lambda>r. r \<noteq> []) rs" and "chain_wf (concat rs)"
  shows "sb_ok ((grow n k sb)\<lparr>sb_mb := rs\<rparr>)"
proof -
  have "of_nat (length (mdata (concat rs))) = (of_nat (length (sbdata sb)) + of_int n :: u32)"
    using arg_cong[OF assms(2), of "of_int :: int \<Rightarrow> u32"] by simp
  then show ?thesis using assms by (simp add: sb_ok_def sbdata_def)
qed

section \<open>Appending keeps the stream\<close>

definition optl :: "mbuf option \<Rightarrow> chain" where
  "optl n = (case n of None \<Rightarrow> [] | Some k \<Rightarrow> [k])"

lemma optl_simps [simp]: "optl None = []" "optl (Some k) = [k]"
  by (simp_all add: optl_def)

lemma mbuf_wf_eor [simp]: "mbuf_wf (m\<lparr>M_EOR := b\<rparr>) = mbuf_wf m"
  by (simp add: mbuf_wf_def m_len_def)

lemma sbcompress_spec:
  assumes "sbcompress_loop m n eor sb s = (c, sb', s')"
  shows "mdata c = mdata (optl n) @ mdata m"
    and "sb' = grow (int (length (mdata m))) (mbcnt_of c - mbcnt_of (optl n)) sb"
    and "chain_wf (optl n) \<Longrightarrow> chain_wf m \<Longrightarrow> chain_wf c"
    and "n \<noteq> None \<Longrightarrow> c \<noteq> []"
proof -
  have "mdata c = mdata (optl n) @ mdata m
      \<and> sb' = grow (int (length (mdata m))) (mbcnt_of c - mbcnt_of (optl n)) sb
      \<and> (chain_wf (optl n) \<longrightarrow> chain_wf m \<longrightarrow> chain_wf c) \<and> (n \<noteq> None \<longrightarrow> c \<noteq> [])"
    using assms
  proof (induction m n eor sb s arbitrary: c rule: sbcompress_loop.induct)
    case (3 m r n eor sb s)
    show ?case
    proof (cases "m_len m = 0")
      case True
      then show ?thesis using 3(1)[OF refl True] 3(5) by (auto simp: m_len_def Let_def)
    next
      case len: False
      show ?thesis
      proof (cases n)
        case None
        then show ?thesis using 3(2)[OF refl len None] 3(5) len
          by (auto simp: Let_def sballoc_grow m_len_def algebra_simps)
      next
        case (Some k)
        let ?c = "\<not> M_EXT k \<and> \<not> M_EOR k \<and> m_data k + m_len k + m_len m < MLEN \<and> m_type k = m_type m"
        show ?thesis
        proof (cases ?c)
          case True
          have "mbuf_wf k \<Longrightarrow> mbuf_wf (k\<lparr>m_bytes := m_bytes k @ m_bytes m\<rparr>)"
            using True by (auto simp: mbuf_wf_def m_len_def)
          then show ?thesis using 3(3)[OF refl len Some True] 3(5) len Some True
            by (auto simp: Let_def sb_cc_grow add.commute m_len_def[symmetric])
        next
          case False
          obtain d sb1 s1 where d: "sbcompress_loop r (Some (m\<lparr>M_EOR := False\<rparr>)) (eor \<or> M_EOR m) (sballoc m sb) s
              = (d, sb1, s1)" by (metis surj_pair)
          have c: "c = k # d" "sb' = sb1" "s' = s1" using 3(5) len Some False d by (auto simp: Let_def)
          have "mdata d = m_bytes m @ mdata r
              \<and> sb' = grow (int (length (mdata r))) (mbcnt_of d - mbcnt_of [m]) (sballoc m sb)
              \<and> (mbuf_wf m \<longrightarrow> chain_wf r \<longrightarrow> chain_wf d) \<and> d \<noteq> []"
            using 3(4)[OF refl len Some False, of d] d c by simp
          then show ?thesis using c(1) Some by (auto simp: sballoc_grow m_len_def algebra_simps)
        qed
      qed
    qed
  qed auto
  then show "mdata c = mdata (optl n) @ mdata m"
    and "sb' = grow (int (length (mdata m))) (mbcnt_of c - mbcnt_of (optl n)) sb"
    and "chain_wf (optl n) \<Longrightarrow> chain_wf m \<Longrightarrow> chain_wf c"
    and "n \<noteq> None \<Longrightarrow> c \<noteq> []" by auto
qed

lemma move_eor_spec:
  assumes "move_eor h r = (h1, r1)"
  shows "mdata r1 = mdata r" and "m_bytes h1 = m_bytes h" and "mbcnt_of [h1] = mbcnt_of [h]"
    and "mbuf_wf h1 = mbuf_wf h" and "chain_wf r1 = chain_wf r"
  using assms by (auto simp: move_eor_def split: list.splits if_splits)

text \<open>The new record that \<^verbatim>\<open>sbappendrecord\<close> and \<^verbatim>\<open>sbinsertoob\<close> build.\<close>

lemma record_spec:
  assumes "move_eor h r = (h1, r1)" and "sbcompress r1 (Some h1) (sballoc h sb) s = (c, sb', s')"
  shows "mdata c = mdata (h # r)" and "sb' = grow (int (length (mdata (h # r)))) (mbcnt_of c) sb"
    and "chain_wf (h # r) \<Longrightarrow> chain_wf c" and "c \<noteq> []"
  using sbcompress_spec[OF assms(2)[unfolded sbcompress_def]] move_eor_spec[OF assms(1)]
  by (simp_all add: sballoc_grow m_len_def algebra_simps)

lemma sbappendrecord_spec:
  assumes "sb_ok sb" and "chain_wf m" and "m \<noteq> []" and "sbappendrecord m sb s = (sb', s')"
  shows "sb_ok sb'" and "sbrecords sb' = sbrecords sb @ [mdata m]"
proof -
  obtain h r where m: "m = h # r" using assms(3) by (cases m) auto
  obtain h1 r1 where e: "move_eor h r = (h1, r1)" by fastforce
  obtain c sb2 s2 where c: "sbcompress r1 (Some h1) (sballoc h sb) s = (c, sb2, s2)" by (metis surj_pair)
  note rec = record_spec[OF e c]
  have sb': "sb' = (grow (int (length (mdata m))) (mbcnt_of c) sb)\<lparr>sb_mb := sb_mb sb @ [c]\<rparr>"
    using assms(4) e c rec(2) by (simp add: sbappendrecord_def m)
  show "sb_ok sb'" unfolding sb'
    using assms(1,2) rec(1,3,4) by (intro sb_ok_grow) (auto simp: m sbdata_def sb_ok_def)
  show "sbrecords sb' = sbrecords sb @ [mdata m]" using rec(1) by (simp add: sb' sbrecords_def m)
qed

lemma sbinsertoob_spec:
  assumes "sb_ok sb" and "chain_wf m" and "m \<noteq> []" and "sbinsertoob m sb s = (sb', s')"
  shows "sb_ok sb'" and "sbrecords sb' = map mdata (takeWhile oob_train (sb_mb sb)) @ mdata m
            # map mdata (dropWhile oob_train (sb_mb sb))"
proof -
  let ?a = "takeWhile oob_train (sb_mb sb)" and ?b = "dropWhile oob_train (sb_mb sb)"
  obtain h r where m: "m = h # r" using assms(3) by (cases m) auto
  obtain h1 r1 where e: "move_eor h r = (h1, r1)" by fastforce
  obtain c sb2 s2 where c: "sbcompress r1 (Some h1) (sballoc h sb) s = (c, sb2, s2)" by (metis surj_pair)
  note rec = record_spec[OF e c]
  have sb': "sb' = (grow (int (length (mdata m))) (mbcnt_of c) sb)\<lparr>sb_mb := ?a @ c # ?b\<rparr>"
    using assms(4) e c rec(2) by (simp add: sbinsertoob_def m)
  have "mdata (concat (?a @ ?b)) = sbdata sb" "mbcnt_of (concat (?a @ ?b)) = mbcnt_of (concat (sb_mb sb))"
    "chain_wf (concat (?a @ ?b))" "list_all (\<lambda>r. r \<noteq> []) (?a @ ?b)"
    using assms(1) unfolding takeWhile_dropWhile_id by (simp_all add: sbdata_def sb_ok_def)
  note ab = this[unfolded concat_append mdata_simps mbcnt_of_simps chain_wf_simps list_all_append]
  show "sb_ok sb'" unfolding sb' using assms(1,2) rec(1,3,4) ab
    by (intro sb_ok_grow) (auto simp: m ab(1)[symmetric])
  show "sbrecords sb' = map mdata ?a @ mdata m # map mdata ?b"
    using rec(1) by (simp add: sb' sbrecords_def m)
qed

lemma sbappend_empty:
  assumes "sb_ok sb" and "chain_wf m" and "sb_mb sb = []" and "sbappend m sb s = (sb', s')"
  shows "sb_ok sb'" and "sbdata sb' = mdata m"
proof -
  obtain c sb2 s2 where c: "sbcompress m None sb s = (c, sb2, s2)" by (metis surj_pair)
  note sp = sbcompress_spec[OF c[unfolded sbcompress_def], simplified]
  show "sbdata sb' = mdata m" using assms(3,4) c sp(1) by (auto simp: sbappend_def sbdata_def split: if_splits)
  have "m \<noteq> [] \<Longrightarrow> sb' = (grow (int (length (mdata m))) (mbcnt_of c) sb)\<lparr>sb_mb := if c = [] then [] else [c]\<rparr>"
    using assms(3,4) c sp(2) by (simp add: sbappend_def)
  moreover have "sb_ok ((grow (int (length (mdata m))) (mbcnt_of c) sb)\<lparr>sb_mb := if c = [] then [] else [c]\<rparr>)"
    using assms(1-3) sp(1,3) by (intro sb_ok_grow) (auto simp: sbdata_def)
  ultimately show "sb_ok sb'" using assms(1,3,4) by (cases "m = []") (auto simp: sbappend_def)
qed

lemma sb_last_split:
  assumes "sb_ok sb" and "sb_mb sb \<noteq> []"
  shows "sb_mb sb = butlast (sb_mb sb) @ [butlast (last (sb_mb sb)) @ [last (last (sb_mb sb))]]"
proof -
  have "last (sb_mb sb) \<noteq> []" using assms by (auto simp: sb_ok_def list_all_iff)
  then show ?thesis using assms(2) by simp
qed

lemma sbappend_tail:
  assumes "sb_ok sb" and "chain_wf m" and "m \<noteq> []" and "sb_mb sb \<noteq> []"
    and "\<not> list_ex M_EOR (butlast (last (sb_mb sb)))" and "sbappend m sb s = (sb', s')"
  shows "sb_ok sb'" and "sbdata sb' = sbdata sb @ mdata m"
proof -
  define a l k where "a = butlast (sb_mb sb)" and "l = butlast (last (sb_mb sb))" and "k = last (last (sb_mb sb))"
  have mb: "sb_mb sb = a @ [l @ [k]]" unfolding a_def l_def k_def by (rule sb_last_split[OF assms(1,4)])
  obtain c sb2 s2 where c: "sbcompress m (Some k) sb s = (c, sb2, s2)" by (metis surj_pair)
  note sp = sbcompress_spec[OF c[unfolded sbcompress_def], simplified]
  have sb': "sb' = (grow (int (length (mdata m))) (mbcnt_of c - mbcnt_of [k]) sb)\<lparr>sb_mb := a @ [l @ c]\<rparr>"
    using assms(3-6) c sp(2) by (simp add: sbappend_def mb)
  show "sbdata sb' = sbdata sb @ mdata m" using sp(1) by (simp add: sb' sbdata_def mb)
  have "chain_wf (concat (sb_mb sb))" using assms(1) by (simp add: sb_ok_def)
  then show "sb_ok sb'" unfolding sb' using assms(1,2) sp(1,3,4)
    by (intro sb_ok_grow) (auto simp: sbdata_def mb sb_ok_def)
qed

lemma sbappend_spec:
  assumes "sb_ok sb" and "chain_wf m" and "sbappend m sb s = (sb', s')"
  shows "sb_ok sb' \<and> sbdata sb' = sbdata sb @ mdata m"
proof -
  consider "m = []" | "m \<noteq> []" "sb_mb sb = []" | "m \<noteq> []" "sb_mb sb \<noteq> []" "list_ex M_EOR (butlast (last (sb_mb sb)))"
    | "m \<noteq> []" "sb_mb sb \<noteq> []" "\<not> list_ex M_EOR (butlast (last (sb_mb sb)))" by blast
  then show ?thesis
  proof cases
    case 1
    then show ?thesis using assms by (simp add: sbappend_def)
  next
    case 2
    with sbappend_empty[OF assms(1,2) 2(2) assms(3)] show ?thesis by (simp add: sbdata_def)
  next
    case 3
    with assms(3) have "sbappendrecord m sb s = (sb', s')" by (simp add: sbappend_def)
    from sbappendrecord_spec[OF assms(1,2) 3(1) this] show ?thesis by (simp add: sbdata_concat)
  next
    case 4
    from sbappend_tail[OF assms(1,2) 4 assms(3)] show ?thesis by simp
  qed
qed

text \<open>\<^verbatim>\<open>sbappend\<close> adds exactly the bytes of the chain at the end of the buffer, whether it packs
  them into the last mbuf, links the chain, or has to begin a new record; the character and
  mbuf counts stay those of the records and no mbuf is filled beyond its buffer.\<close>

theorem sbappend_stream:
  assumes "sb_ok sb" and "chain_wf m" and "sbappend m sb s = (sb', s')"
  shows "sb_ok sb' \<and> sbdata sb' = sbdata sb @ mdata m"
  by (rule sbappend_spec[OF assms])

definition ex_sb :: "chain list \<Rightarrow> sockbuf" where
  "ex_sb rs = \<lparr>sb_cc = of_nat (length (mdata (concat rs))), sb_hiwat = 4096,
     sb_mbcnt = of_int (mbcnt_of (concat rs)), sb_mbmax = 8192, sb_lowat = 1, sb_mb = rs, sb_sel = None,
     SB_LOCK = False, SB_WANT = False, SB_WAIT = False, SB_SEL = False, SB_ASYNC = False,
     SB_COLL = False, SB_NOINTR = False, sb_timeo = 0\<rparr>"

lemma ex_sb_ok [simp]: "sb_ok (ex_sb rs) = (list_all (\<lambda>r. r \<noteq> []) rs \<and> chain_wf (concat rs))"
  by (simp add: sb_ok_def ex_sb_def sbdata_def)

lemma ex_sb_simps [simp]: "sb_mb (ex_sb rs) = rs" "sbdata (ex_sb rs) = mdata (concat rs)"
  "sbrecords (ex_sb rs) = map mdata rs"
  by (simp_all add: ex_sb_def sbdata_def sbrecords_def)

theorem sbappend_stream_witness:
  "\<exists>sb' s'. sbappend [ex_mbuf [3], ex_mbuf []] (ex_sb [[ex_mbuf [1, 2]]]) ex_mbsys = (sb', s')
     \<and> sb_ok sb' \<and> sbdata sb' = [1, 2, 3]"
proof -
  obtain sb' s' where e: "sbappend [ex_mbuf [3], ex_mbuf []] (ex_sb [[ex_mbuf [1, 2]]]) ex_mbsys = (sb', s')"
    by fastforce
  have "sb_ok (ex_sb [[ex_mbuf [1, 2]]])" "chain_wf [ex_mbuf [3], ex_mbuf []]"
    by (simp_all add: ex_mbuf_simps)
  from sbappend_stream[OF this e] e show ?thesis by (simp add: ex_mbuf_simps)
qed

section \<open>Records\<close>

text \<open>\<^verbatim>\<open>sbinsertoob\<close> puts its data in a record of its own, after the out-of-band records at the
  head of the buffer and before all others, which keep their contents and order.\<close>

theorem sbinsertoob_order:
  assumes "sb_ok sb" and "chain_wf m" and "m \<noteq> []" and "sbinsertoob m sb s = (sb', s')"
    and "sb_mb sb = oob @ rest" and "list_all oob_train oob" and "rest = [] \<or> \<not> oob_train (hd rest)"
  shows "sb_ok sb' \<and> sbrecords sb' = map mdata oob @ mdata m # map mdata rest"
proof -
  have "takeWhile oob_train (sb_mb sb) = oob" "dropWhile oob_train (sb_mb sb) = rest"
    using takeWhile_dropWhile_split[of oob oob_train rest] assms(5-7) by (auto simp: list_all_iff)
  with sbinsertoob_spec[OF assms(1-4)] show ?thesis by simp
qed

theorem sbinsertoob_order_witness:
  "\<exists>sb' s'. sbinsertoob [(ex_mbuf [9])\<lparr>m_type := MT_OOBDATA\<rparr>]
       (ex_sb [[(ex_mbuf [7])\<lparr>m_type := MT_OOBDATA\<rparr>], [ex_mbuf [1, 2]]]) ex_mbsys = (sb', s')
     \<and> sbrecords sb' = [[7], [9], [1, 2]]"
proof -
  let ?o = "(ex_mbuf [7])\<lparr>m_type := MT_OOBDATA\<rparr>" and ?n = "(ex_mbuf [9])\<lparr>m_type := MT_OOBDATA\<rparr>"
  obtain sb' s' where e: "sbinsertoob [?n] (ex_sb [[?o], [ex_mbuf [1, 2]]]) ex_mbsys = (sb', s')"
    by fastforce
  have "sb_ok (ex_sb [[?o], [ex_mbuf [1, 2]]])" "chain_wf [?n]" "\<not> oob_train [ex_mbuf [1, 2]]" "oob_train [?o]"
    by (simp_all add: ex_mbuf_simps)
  with sbinsertoob_order[OF _ _ _ e, of "[[?o]]" "[[ex_mbuf [1, 2]]]"] e
  show ?thesis by (auto simp: ex_mbuf_simps)
qed

text \<open>\<^verbatim>\<open>sbappendaddr\<close> adds one record, the address followed by the control data and the message,
  and only if all of it fits in the space of the buffer; otherwise it leaves the buffer as it was.
  It succeeds whenever there is room and an mbuf for the address.\<close>

theorem sbappendaddr_exact:
  assumes "sb_ok sb" and "chain_wf control" and "m0 = [] \<or> chain_wf m0 \<and> pkt_ok m0"
  shows "\<exists>ok sb' s'. sbappendaddr asa m0 control sb s = Ret (ok, sb', s') \<and>
     (ok \<longrightarrow> sb_ok sb' \<and> sbrecords sb' = sbrecords sb @ [asa @ mdata control @ mdata m0]
          \<and> int (length (asa @ mdata control @ mdata m0)) \<le> sbspace sb) \<and> (\<not> ok \<longrightarrow> sb' = sb) \<and>
     (int (length (asa @ mdata control @ mdata m0)) \<le> sbspace sb \<and> int (length asa) \<le> MLEN \<and> mal_ok 1 s \<longrightarrow> ok)"
proof -
  define n where "n = int (length asa) + (if m0 = [] then 0 else pkt_len (m_pkthdr (hd m0))) + sum_list (map m_len control)"
  have n: "n = int (length (asa @ mdata control @ mdata m0))"
    using assms(3) by (auto simp: n_def sum_m_len pkt_ok_def)
  obtain o1 s1 where g: "MGET MT_SONAME s = (o1, s1)" by fastforce
  note gs = MGET_spec(1)[OF g] MGET_spec(4)[OF g, of 0]
  let ?c = "(new_mbuf MT_SONAME)\<lparr>m_bytes := asa\<rparr> # control @ m0"
  let ?sb = "(fold sballoc ?c sb)\<lparr>sb_mb := sb_mb sb @ [?c]\<rparr>"
  have eq: "sbappendaddr asa m0 control sb s = Ret (if n > sbspace sb \<or> int (length asa) > MLEN then (False, sb, s)
      else case o1 of None \<Rightarrow> (False, sb, s1) | Some _ \<Rightarrow> (True, ?sb, s1))"
    using assms(3) g gs(1) by (auto simp: sbappendaddr_def n_def Let_def pkt_ok_def)
  have ok: "sb_ok ?sb" if "int (length asa) \<le> MLEN"
    unfolding fold_sballoc using that assms
    by (intro sb_ok_grow) (auto simp: sbdata_def sb_ok_def new_mbuf_def mbuf_wf_def m_len_def)
  have recs: "sbrecords ?sb = sbrecords sb @ [asa @ mdata control @ mdata m0]"
    by (simp add: sbrecords_def)
  show ?thesis
  proof (cases "n > sbspace sb \<or> int (length asa) > MLEN \<or> o1 = None")
    case True
    then show ?thesis using eq gs n by (auto split: option.splits)
  next
    case False
    then obtain m where "o1 = Some m" by auto
    with False have "sbappendaddr asa m0 control sb s = Ret (True, ?sb, s1)" using eq by simp
    with False ok recs n show ?thesis
      by (intro exI[of _ True] exI[of _ ?sb] exI[of _ s1]) (simp del: fold_simps)
  qed
qed

theorem sbappendaddr_exact_witness:
  "\<exists>sb' s'. sbappendaddr [16, 2] [ex_pkt [5, 6] 2] [ex_mbuf [4]] (ex_sb []) ex_mbsys = Ret (True, sb', s')
     \<and> sbrecords sb' = [[16, 2, 4, 5, 6]]"
proof -
  have "sb_ok (ex_sb [])" "chain_wf [ex_mbuf [4]]" "chain_wf [ex_pkt [5, 6] 2] \<and> pkt_ok [ex_pkt [5, 6] 2]"
    "mal_ok 1 ex_mbsys" "int (length [16, 2 :: byte]) \<le> MLEN"
    by (simp_all add: ex_pkt_def ex_mbuf_simps pkt_ok_def mal_ok_def ex_mbsys_def)
  moreover have "sbspace (ex_sb []) = 4096" by (simp add: sbspace_def ex_sb_def)
  ultimately show ?thesis using sbappendaddr_exact[of "ex_sb []" "[ex_mbuf [4]]" "[ex_pkt [5, 6] 2]" "[16, 2]" ex_mbsys]
    by (auto simp: ex_pkt_def ex_mbuf_simps)
qed

section \<open>Dropping\<close>

lemma sbdrop_loop_spec:
  assumes "0 \<le> len" and "len \<le> int (length (mdata (m @ concat nx)))" and "chain_wf (m @ concat nx)"
  shows "\<exists>m1 nx1 s1. sbdrop_loop m nx len sb s = Ret (m1, nx1,
        grow (- len) (mbcnt_of (m1 @ concat nx1) - mbcnt_of (m @ concat nx)) sb, s1)
     \<and> mdata (m1 @ concat nx1) = drop (nat len) (mdata (m @ concat nx))
     \<and> chain_wf (m1 @ concat nx1) \<and> set nx1 \<subseteq> set nx \<and> mbcnt_of (m1 @ concat nx1) \<le> mbcnt_of (m @ concat nx)"
  using assms
proof (induction m nx len sb s rule: sbdrop_loop.induct)
  case (1 m nx len sb s)
  show ?case
  proof (cases "len > 0")
    case False
    then show ?thesis using 1(3-5) by (simp add: sbdrop_loop.simps[of m])
  next
    case len: True
    show ?thesis
    proof (cases m)
      case Nil
      with 1(4) len obtain m1 nx1 where nx: "nx = m1 # nx1" by (cases nx) auto
      from 1(1)[OF len Nil nx] 1(3-5) Nil nx len show ?thesis
        by (auto simp: sbdrop_loop.simps[of "[]"])
    next
      case (Cons k r)
      show ?thesis
      proof (cases "m_len k > len")
        case True
        have "mbuf_wf (k\<lparr>m_data := m_data k + len, m_bytes := drop (nat len) (m_bytes k)\<rparr>)"
          using 1(5) Cons len True by (intro mbuf_wf_shrink(3)) auto
        then show ?thesis using True len Cons 1(5)
          by (simp add: sbdrop_loop.simps[of "k # r"] sb_cc_shrink) (simp add: m_len_def)
      next
        case False
        have d: "nat len = length (m_bytes k) + nat (len - m_len k)" using False unfolding m_len_def by linarith
        have k: "0 \<le> mbcnt_of [k]" using 1(5) Cons mbcnt_of_nonneg[of "[k]"] by simp
        have "0 \<le> len - m_len k" "len - m_len k \<le> int (length (mdata (r @ concat nx)))" "chain_wf (r @ concat nx)"
          using 1(4,5) Cons False by (auto simp: m_len_def)
        from 1(2)[OF len Cons False this] obtain m1 nx1 s1 where
          l: "sbdrop_loop r nx (len - m_len k) (sbfree k sb) (MFREE k s) = Ret (m1, nx1, grow (- (len - m_len k))
              (mbcnt_of (m1 @ concat nx1) - mbcnt_of (r @ concat nx)) (sbfree k sb), s1)"
          "mdata (m1 @ concat nx1) = drop (nat (len - m_len k)) (mdata (r @ concat nx))"
          "chain_wf (m1 @ concat nx1)" "set nx1 \<subseteq> set nx"
          "mbcnt_of (m1 @ concat nx1) \<le> mbcnt_of (r @ concat nx)" by blast
        have "sbdrop_loop m nx len sb s = Ret (m1, nx1,
            grow (- len) (mbcnt_of (m1 @ concat nx1) - mbcnt_of (m @ concat nx)) sb, s1)"
          using l(1) len False Cons by (simp add: sbdrop_loop.simps[of "k # r"] sbfree_grow algebra_simps)
        moreover have "mdata (m1 @ concat nx1) = drop (nat len) (mdata (m @ concat nx))"
          unfolding d l(2) Cons by simp
        ultimately show ?thesis using l(3-5) k Cons by (intro exI[of _ m1] exI[of _ nx1] exI[of _ s1]) simp
      qed
    qed
  qed
qed

lemma sbdrop_loop_panic:
  "len > int (length (mdata (m @ concat nx))) \<Longrightarrow> sbdrop_loop m nx len sb s = Panic ''sbdrop''"
  by (induction m nx len sb s rule: sbdrop_loop.induct)
    (subst sbdrop_loop.simps, auto simp: m_len_def split: list.splits)

lemma sbdrop_empty_spec:
  assumes "sbdrop_empty m sb s = (m1, sb1, s1)"
  shows "mdata m1 = mdata m" and "sb1 = grow 0 (mbcnt_of m1 - mbcnt_of m) sb" and "chain_wf m \<Longrightarrow> chain_wf m1"
    and "chain_wf m \<Longrightarrow> mbcnt_of m1 \<le> mbcnt_of m" and "mdata m = [] \<Longrightarrow> m1 = []"
proof -
  have "mdata m1 = mdata m \<and> sb1 = grow 0 (mbcnt_of m1 - mbcnt_of m) sb \<and> (chain_wf m \<longrightarrow> chain_wf m1)
      \<and> (chain_wf m \<longrightarrow> mbcnt_of m1 \<le> mbcnt_of m) \<and> (mdata m = [] \<longrightarrow> m1 = [])"
    using assms
  proof (induction m sb s rule: sbdrop_empty.induct)
    case (2 m r sb s)
    have "mbuf_wf m \<Longrightarrow> 0 \<le> mbcnt_of [m]" using mbcnt_of_nonneg[of "[m]"] by simp
    then show ?case using 2 by (auto simp: sbfree_grow m_len_def algebra_simps split: if_splits)
  qed auto
  then show "mdata m1 = mdata m" and "sb1 = grow 0 (mbcnt_of m1 - mbcnt_of m) sb" and "chain_wf m \<Longrightarrow> chain_wf m1"
    and "chain_wf m \<Longrightarrow> mbcnt_of m1 \<le> mbcnt_of m" and "mdata m = [] \<Longrightarrow> m1 = []" by auto
qed

lemma sbdrop_spec:
  assumes "sb_ok sb" and "0 \<le> len" and "len \<le> int (length (sbdata sb))"
  obtains sb' s' where "sbdrop len sb s = Ret (sb', s')" and "sb_ok sb'" and "sbdata sb' = drop (nat len) (sbdata sb)"
    and "mbcnt_of (concat (sb_mb sb')) \<le> mbcnt_of (concat (sb_mb sb))"
proof -
  define m nx where "m = (case sb_mb sb of [] \<Rightarrow> [] | m # nx \<Rightarrow> m)" and "nx = (case sb_mb sb of [] \<Rightarrow> [] | m # nx \<Rightarrow> nx)"
  have mn: "(case sb_mb sb of [] \<Rightarrow> ([], []) | m # nx \<Rightarrow> (m, nx)) = (m, nx)" "m @ concat nx = concat (sb_mb sb)"
      "list_all (\<lambda>r. r \<noteq> []) nx"
    using assms(1) by (auto simp: m_def nx_def sb_ok_def split: list.splits)
  have wf: "chain_wf (m @ concat nx)" "sbdata sb = mdata (m @ concat nx)"
    using assms(1) mn(2) by (simp_all add: sb_ok_def sbdata_def)
  obtain m1 nx1 s1 where l: "sbdrop_loop m nx len sb s = Ret (m1, nx1,
        grow (- len) (mbcnt_of (m1 @ concat nx1) - mbcnt_of (m @ concat nx)) sb, s1)"
      "mdata (m1 @ concat nx1) = drop (nat len) (sbdata sb)" "chain_wf (m1 @ concat nx1)" "set nx1 \<subseteq> set nx"
      "mbcnt_of (m1 @ concat nx1) \<le> mbcnt_of (m @ concat nx)"
    using sbdrop_loop_spec[OF assms(2) assms(3)[unfolded wf(2)] wf(1), of sb s] wf(2) by auto
  let ?sb1 = "grow (- len) (mbcnt_of (m1 @ concat nx1) - mbcnt_of (m @ concat nx)) sb"
  obtain m2 sb2 s2 where e: "sbdrop_empty m1 ?sb1 s1 = (m2, sb2, s2)" by (metis surj_pair)
  note sp = sbdrop_empty_spec[OF e]
  let ?rs = "if m2 = [] then nx1 else m2 # nx1"
  have rs: "concat ?rs = m2 @ concat nx1" by simp
  have ne: "list_all (\<lambda>r. r \<noteq> []) ?rs" using mn(3) l(4) by (auto simp: list_all_iff)
  have wf2: "chain_wf (concat ?rs)" unfolding rs using l(3) sp(3) by simp
  have dat: "mdata (concat ?rs) = drop (nat len) (sbdata sb)" unfolding rs using l(2) sp(1) by simp
  have sb2: "sb2 = grow (- len) (mbcnt_of (concat ?rs) - mbcnt_of (concat (sb_mb sb))) sb"
    unfolding rs sp(2) by (simp add: mn(2)[symmetric] algebra_simps)
  have "sbdrop len sb s = Ret (sb2\<lparr>sb_mb := ?rs\<rparr>, s2)" using l(1) e by (simp add: sbdrop_def mn(1))
  moreover have "sb_ok (sb2\<lparr>sb_mb := ?rs\<rparr>)" unfolding sb2
    by (rule sb_ok_grow[OF assms(1) _ _ ne wf2]) (use assms(2,3) dat in simp_all)
  moreover have "mbcnt_of (concat ?rs) \<le> mbcnt_of (concat (sb_mb sb))"
    unfolding rs using l(3,5) sp(4) mn(2)[symmetric] by simp
  ultimately show ?thesis using that dat by (simp add: sbdata_def)
qed

text \<open>\<^verbatim>\<open>sbdrop\<close> removes exactly the given number of bytes from the front of the buffer, across
  mbufs and records, keeps the counters right, and panics exactly when there are fewer bytes.\<close>

theorem sbdrop_exact:
  assumes "sb_ok sb" and "0 \<le> len"
  shows "if len \<le> int (length (sbdata sb))
     then \<exists>sb' s'. sbdrop len sb s = Ret (sb', s') \<and> sb_ok sb' \<and> sbdata sb' = drop (nat len) (sbdata sb)
     else sbdrop len sb s = Panic ''sbdrop''"
proof (cases "len \<le> int (length (sbdata sb))")
  case True
  with sbdrop_spec[OF assms True] show ?thesis by metis
next
  case False
  then have "sbdrop_loop (case sb_mb sb of [] \<Rightarrow> [] | m # nx \<Rightarrow> m) (case sb_mb sb of [] \<Rightarrow> [] | m # nx \<Rightarrow> nx) len sb s
      = Panic ''sbdrop''"
    by (intro sbdrop_loop_panic) (auto simp: sbdata_def split: list.splits)
  with False show ?thesis by (auto simp: sbdrop_def split: list.splits)
qed

theorem sbdrop_exact_witness:
  "\<exists>sb' s'. sbdrop 3 (ex_sb [[ex_mbuf [1, 2]], [ex_mbuf [3, 4]]]) ex_mbsys = Ret (sb', s') \<and> sbdata sb' = [4]"
proof -
  have "sb_ok (ex_sb [[ex_mbuf [1, 2]], [ex_mbuf [3, 4]]])" by (simp add: ex_mbuf_simps)
  from sbdrop_exact[OF this, of 3 ex_mbsys] show ?thesis by (auto simp: ex_mbuf_simps)
qed

section \<open>Flushing\<close>

lemma sb_mbcnt_zero:
  assumes "sb_ok sb" and "mbcnt_of (concat (sb_mb sb)) < 2 ^ 32"
  shows "sb_mbcnt sb = 0 \<longleftrightarrow> sb_mb sb = []"
proof -
  have c: "chain_wf (concat (sb_mb sb))" "list_all (\<lambda>r. r \<noteq> []) (sb_mb sb)"
      "sb_mbcnt sb = of_int (mbcnt_of (concat (sb_mb sb)))"
    using assms(1) by (auto simp: sb_ok_def)
  have "concat (sb_mb sb) = [] \<longleftrightarrow> sb_mb sb = []" using c(2) by (cases "sb_mb sb") auto
  moreover have "uint (sb_mbcnt sb) = mbcnt_of (concat (sb_mb sb))"
    unfolding c(3) using mbcnt_of_nonneg[OF c(1)] assms(2) by (simp add: uint_word_of_int take_bit_int_eq_self)
  ultimately show ?thesis using mbcnt_of_pos[OF c(1)] by (auto simp: uint_0_iff[symmetric])
qed

lemma sbflush_loop_empty:
  assumes "sb_ok sb" and "sbdata sb = []" and "mbcnt_of (concat (sb_mb sb)) < 2 ^ 32"
  shows "\<exists>sb' s'. sbflush_loop sb s = Some (Ret (sb', s')) \<and> sb_mb sb' = [] \<and> sb_cc sb' = 0 \<and> sb_mbcnt sb' = 0"
  using assms
proof (induction "sb_mb sb" arbitrary: sb s)
  case Nil
  then show ?case using sb_mbcnt_zero[of sb] by (auto simp: sbflush_loop.simps[of sb] sb_ok_def)
next
  case (Cons m nx)
  have mb: "sb_mb sb = m # nx" by (simp add: Cons.hyps(2)[symmetric])
  have ne: "sb_mbcnt sb \<noteq> 0" "sb_cc sb = 0"
    using sb_mbcnt_zero[OF Cons(3,5)] mb Cons(3,4) by (auto simp: sb_ok_def)
  obtain m1 sb1 s1 where e: "sbdrop_empty m sb s = (m1, sb1, s1)" by (metis surj_pair)
  have wf: "chain_wf m" "mdata m = []" "mdata (concat nx) = []"
    using Cons(3,4) mb by (auto simp: sb_ok_def sbdata_def)
  note sp = sbdrop_empty_spec[OF e]
  let ?sb = "(grow 0 (- mbcnt_of m) sb)\<lparr>sb_mb := nx\<rparr>"
  have "sbdrop (sint (sb_cc sb)) sb s = Ret (?sb, s1)"
    using sp(2) sp(5)[OF wf(2)] e by (simp add: sbdrop_def mb ne(2) sbdrop_loop.simps[of m])
  moreover have "sb_ok ?sb" by (rule sb_ok_grow[OF Cons(3)]) (use Cons(3) mb wf in \<open>auto simp: sbdata_def sb_ok_def\<close>)
  moreover have "mbcnt_of (concat nx) < 2 ^ 32" using Cons(5) mb mbcnt_of_nonneg[OF wf(1)] by simp
  ultimately show ?case using Cons(1)[of ?sb s1] wf(3) ne(1) by (simp add: sbflush_loop.simps[of sb] sbdata_def)
qed

text \<open>\<^verbatim>\<open>sbflush\<close> ends and leaves an unlocked buffer empty, with all its counters zero, without
  either of its panics.  (Its loop runs on the mbuf count, which must not have wrapped, and drops
  \<^verbatim>\<open>sb_cc\<close> read as a signed number.)\<close>

theorem sbflush_empties:
  assumes "sb_ok sb" and "\<not> SB_LOCK sb" and "mbcnt_of (concat (sb_mb sb)) < 2 ^ 32"
    and "length (sbdata sb) < 2 ^ 31"
  shows "\<exists>sb' s'. sbflush sb s = Some (Ret (sb', s')) \<and> sb_mb sb' = [] \<and> sb_cc sb' = 0 \<and> sb_mbcnt sb' = 0"
proof -
  have "\<exists>sb' s'. sbflush_loop sb s = Some (Ret (sb', s')) \<and> sb_mb sb' = [] \<and> sb_cc sb' = 0 \<and> sb_mbcnt sb' = 0"
  proof (cases "sb_mbcnt sb = 0")
    case True
    then show ?thesis using sb_mbcnt_zero[OF assms(1,3)] assms(1)
      by (auto simp: sbflush_loop.simps[of sb] sb_ok_def sbdata_def)
  next
    case False
    have "sint (sb_cc sb) = int (length (sbdata sb))"
      using assms(1,4) by (simp add: sb_ok_def sint_of_nat_u32)
    moreover obtain sb1 s1 where "sbdrop (int (length (sbdata sb))) sb s = Ret (sb1, s1)" "sb_ok sb1"
        "sbdata sb1 = drop (nat (int (length (sbdata sb)))) (sbdata sb)"
        "mbcnt_of (concat (sb_mb sb1)) \<le> mbcnt_of (concat (sb_mb sb))"
      using sbdrop_spec[OF assms(1), of "int (length (sbdata sb))" s] by auto
    ultimately show ?thesis using False sbflush_loop_empty[of sb1 s1] assms(3)
      by (simp add: sbflush_loop.simps[of sb])
  qed
  then show ?thesis using assms(2) by (auto simp: sbflush_def)
qed

theorem sbflush_empties_witness:
  "\<exists>sb' s'. sbflush (ex_sb [[ex_mbuf [1, 2]], [ex_mbuf []]]) ex_mbsys = Some (Ret (sb', s')) \<and> sb_mb sb' = []"
proof -
  let ?sb = "ex_sb [[ex_mbuf [1, 2]], [ex_mbuf []]]"
  have "sb_ok ?sb" "mbcnt_of (concat (sb_mb ?sb)) < 2 ^ 32" "length (sbdata ?sb) < 2 ^ 31"
    by (simp_all add: ex_mbuf_simps)
  moreover have "\<not> SB_LOCK ?sb" by (simp add: ex_sb_def)
  ultimately show ?thesis using sbflush_empties[of ?sb ex_mbsys] by blast
qed

section \<open>The buffer as a byte stream\<close>

text \<open>What the stream protocols rely on: appended bytes come out in order, and only as many as were
  put in can be taken out.  The clients' view of a run of operations is derived once.\<close>

datatype stream_op = Append chain | Drop nat

fun run_stream ::
  "(chain \<Rightarrow> 'b \<Rightarrow> mbsys \<Rightarrow> 'b \<times> mbsys) \<Rightarrow> (int \<Rightarrow> 'b \<Rightarrow> mbsys \<Rightarrow> ('b \<times> mbsys) kres) \<Rightarrow>
   stream_op list \<Rightarrow> 'b \<Rightarrow> mbsys \<Rightarrow> ('b \<times> mbsys) kres" where
  "run_stream app drp [] b s = Ret (b, s)"
| "run_stream app drp (Append m # ops) b s = (case app m b s of (b1, s1) \<Rightarrow> run_stream app drp ops b1 s1)"
| "run_stream app drp (Drop n # ops) b s = kbind (drp (int n) b s) (\<lambda>(b1, s1). run_stream app drp ops b1 s1)"

fun fits :: "stream_op list \<Rightarrow> nat \<Rightarrow> bool" where
  "fits [] n = True"
| "fits (Append m # ops) n = (chain_wf m \<and> fits ops (n + length (mdata m)))"
| "fits (Drop k # ops) n = (k \<le> n \<and> fits ops (n - k))"

fun appended :: "stream_op list \<Rightarrow> byte list" where
  "appended [] = []"
| "appended (Append m # ops) = mdata m @ appended ops"
| "appended (Drop k # ops) = appended ops"

fun dropped :: "stream_op list \<Rightarrow> nat" where
  "dropped [] = 0"
| "dropped (Append m # ops) = dropped ops"
| "dropped (Drop k # ops) = k + dropped ops"

locale byte_stream =
  fixes ok :: "'b \<Rightarrow> bool" and data :: "'b \<Rightarrow> byte list"
    and app :: "chain \<Rightarrow> 'b \<Rightarrow> mbsys \<Rightarrow> 'b \<times> mbsys" and drp :: "int \<Rightarrow> 'b \<Rightarrow> mbsys \<Rightarrow> ('b \<times> mbsys) kres"
  assumes app_law: "ok b \<Longrightarrow> chain_wf m \<Longrightarrow> app m b s = (b', s') \<Longrightarrow> ok b' \<and> data b' = data b @ mdata m"
    and drp_law: "ok b \<Longrightarrow> 0 \<le> n \<Longrightarrow> n \<le> int (length (data b)) \<Longrightarrow>
      \<exists>b' s'. drp n b s = Ret (b', s') \<and> ok b' \<and> data b' = drop (nat n) (data b)"
begin

lemma run_in_order:
  assumes "ok b" and "fits ops (length (data b))"
  shows "\<exists>b' s'. run_stream app drp ops b s = Ret (b', s') \<and> ok b'
     \<and> data b' = drop (dropped ops) (data b @ appended ops)"
  using assms
proof (induction ops arbitrary: b s)
  case (Cons p ops)
  show ?case
  proof (cases p)
    case (Append m)
    obtain b1 s1 where a: "app m b s = (b1, s1)" by fastforce
    from app_law[OF Cons(2) _ a] Cons(3) Append have "ok b1" "data b1 = data b @ mdata m" by auto
    with Cons(1)[of b1 s1] Cons(3) a Append show ?thesis by simp
  next
    case (Drop n)
    obtain b1 s1 where d: "drp (int n) b s = Ret (b1, s1)" "ok b1" "data b1 = drop n (data b)"
      using drp_law[OF Cons(2), of "int n" s] Cons(3) Drop by auto
    then show ?thesis using Cons(1)[of b1 s1] Cons(3) Drop by (simp add: add.commute)
  qed
qed simp

end

interpretation sbs: byte_stream sb_ok sbdata sbappend sbdrop
proof unfold_locales
  show "sb_ok b' \<and> sbdata b' = sbdata b @ mdata m"
    if "sb_ok b" "chain_wf m" "sbappend m b s = (b', s')" for b m s b' s'
    by (rule sbappend_spec[OF that])
  show "\<exists>b' s'. sbdrop n b s = Ret (b', s') \<and> sb_ok b' \<and> sbdata b' = drop (nat n) (sbdata b)"
    if "sb_ok b" "0 \<le> n" "n \<le> int (length (sbdata b))" for b n s
    using sbdrop_spec[OF that] by metis
qed

text \<open>(C17) A socket buffer is a reliable byte queue: after any run of \<^verbatim>\<open>sbappend\<close> and \<^verbatim>\<open>sbdrop\<close> calls
  that never drops more than is there, the buffer holds the bytes appended, in order, less as
  many from the front as were dropped; nothing panics and the counters are right.\<close>

theorem sockbuf_fifo:
  assumes "sb_ok sb" and "fits ops (length (sbdata sb))"
  shows "\<exists>sb' s'. run_stream sbappend sbdrop ops sb s = Ret (sb', s') \<and> sb_ok sb'
     \<and> sbdata sb' = drop (dropped ops) (sbdata sb @ appended ops)"
  by (rule sbs.run_in_order[OF assms])

theorem sockbuf_fifo_witness:
  "\<exists>sb' s'. run_stream sbappend sbdrop [Append [ex_mbuf [1, 2]], Drop 1, Append [ex_mbuf [3]], Drop 1]
      (ex_sb []) ex_mbsys = Ret (sb', s') \<and> sbdata sb' = [3]"
proof -
  have "sb_ok (ex_sb [])" "fits [Append [ex_mbuf [1, 2]], Drop 1, Append [ex_mbuf [3]], Drop 1] (length (sbdata (ex_sb [])))"
    by (simp_all add: ex_mbuf_simps)
  from sockbuf_fifo[OF this, of ex_mbsys] show ?thesis by (auto simp: ex_mbuf_simps)
qed

section \<open>Space and locking\<close>

text \<open>With byte and mbuf counts and limits below \<open>2\<^sup>3\<^sup>1\<close>, \<^verbatim>\<open>sbspace\<close> is the signed minimum of what is left
  of the two limits, although it subtracts unsigned values: negative exactly when a limit is
  exceeded.\<close>

theorem sbspace_signed:
  assumes "uint (sb_hiwat sb) < 2 ^ 31" and "uint (sb_cc sb) < 2 ^ 31"
    and "uint (sb_mbmax sb) < 2 ^ 31" and "uint (sb_mbcnt sb) < 2 ^ 31"
  shows "sbspace sb = min (uint (sb_hiwat sb) - uint (sb_cc sb)) (uint (sb_mbmax sb) - uint (sb_mbcnt sb))"
proof -
  have "sint (a - b) = uint a - uint b" if "uint a < 2 ^ 31" "uint b < 2 ^ 31" for a b :: u32
  proof -
    have "a - b = of_int (uint a - uint b)" by simp
    moreover have "- (2 ^ 31) \<le> uint a - uint b" "uint a - uint b < 2 ^ 31"
      using that uint_ge_0[of a] uint_ge_0[of b] by linarith+
    ultimately show ?thesis using sint_of_int_u32 by metis
  qed
  then show ?thesis using assms by (simp add: sbspace_def)
qed

theorem sbspace_signed_witness: "sbspace (ex_sb [[ex_mbuf [1, 2]]]) = 4094"
  using sbspace_signed[of "ex_sb [[ex_mbuf [1, 2]]]"] by (simp add: ex_sb_def ex_mbuf_simps)



end
