(* ===== verification/Socket.thy ===== *)
theory Socket
  imports Sockbuf
begin

text \<open>
  Sockets: \<^verbatim>\<open>struct socket\<close> of \<^verbatim>\<open>sys/sys/socketvar.h\<close> and the connection-state and accept-queue
  routines of \<^verbatim>\<open>sys/kern/uipc_socket2.c\<close>.  The queues of a listening socket are threaded through
  the sockets themselves (\<^verbatim>\<open>so_q0\<close>, \<^verbatim>\<open>so_q\<close>, \<^verbatim>\<open>so_head\<close>), so the model has a store of sockets and
  the loops follow the links; a loop that does not end is \<open>None\<close>.  \<open>soq_path\<close> reads a queue off the
  store as a list, and the lemmas show that the operations are list operations.  Calls of
  \<^verbatim>\<open>wakeup\<close>, \<^verbatim>\<open>selwakeup\<close> and the signal routines are recorded as events.
\<close>

section \<open>Data\<close>

datatype ss_flag =
    SS_NOFDREF | SS_ISCONNECTED | SS_ISCONNECTING | SS_ISDISCONNECTING | SS_CANTSENDMORE
  | SS_CANTRCVMORE | SS_RCVATMARK | SS_PRIV | SS_NBIO | SS_ASYNC | SS_ISCONFIRMING

datatype so_flag =
    SO_DEBUG | SO_ACCEPTCONN | SO_REUSEADDR | SO_KEEPALIVE | SO_DONTROUTE | SO_BROADCAST
  | SO_USELOOPBACK | SO_LINGER | SO_OOBINLINE

record socket =
  so_type :: int
  so_options :: "so_flag set"
  so_linger :: int
  so_state :: "ss_flag set"
  so_pcb :: "nat option"
  so_head :: "nat option"
  so_q0 :: "nat option"
  so_q :: "nat option"
  so_q0len :: int
  so_qlen :: int
  so_qlimit :: int
  so_timeo :: int
  so_error :: "errno option"
  so_pgid :: int
  so_oobmark :: u32
  so_rcv :: sockbuf
  so_snd :: sockbuf

datatype sbsel = Rcv | Snd

datatype wchan = W_timeo nat | W_cc nat sbsel | W_flags nat sbsel

datatype kevent = Wakeup wchan | Selwakeup nat bool | Gsignal int | Psignal int

record sotab =
  sock :: "nat \<Rightarrow> socket"
  events :: "kevent list"
  pfind_ok :: "int \<Rightarrow> bool"
  so_freed :: "nat set"

definition sb_of :: "sbsel \<Rightarrow> socket \<Rightarrow> sockbuf" where
  "sb_of w so = (case w of Rcv \<Rightarrow> so_rcv so | Snd \<Rightarrow> so_snd so)"

definition sb_set :: "sbsel \<Rightarrow> sockbuf \<Rightarrow> socket \<Rightarrow> socket" where
  "sb_set w sb so = (case w of Rcv \<Rightarrow> so\<lparr>so_rcv := sb\<rparr> | Snd \<Rightarrow> so\<lparr>so_snd := sb\<rparr>)"

definition upd :: "nat \<Rightarrow> (socket \<Rightarrow> socket) \<Rightarrow> sotab \<Rightarrow> sotab" where
  "upd i f t = t\<lparr>sock := (sock t)(i := f (sock t i))\<rparr>"

definition post :: "kevent list \<Rightarrow> sotab \<Rightarrow> sotab" where
  "post es t = t\<lparr>events := events t @ es\<rparr>"

section \<open>Select and wakeup\<close>

text \<open>\<^verbatim>\<open>selecting\<close> says whether a process sleeps in \<^verbatim>\<open>select\<close> (its \<^verbatim>\<open>p_wchan\<close> is \<^verbatim>\<open>selwait\<close>).\<close>

definition sbselqueue :: "(nat \<Rightarrow> bool) \<Rightarrow> nat \<Rightarrow> sockbuf \<Rightarrow> sockbuf" where
  "sbselqueue selecting self sb = (case sb_sel sb of
       Some p \<Rightarrow> if selecting p then sb\<lparr>SB_COLL := True\<rparr> else sb\<lparr>sb_sel := Some self, SB_SEL := True\<rparr>
     | None \<Rightarrow> sb\<lparr>sb_sel := Some self, SB_SEL := True\<rparr>)"

definition sbwait :: "(sockbuf \<Rightarrow> sleep) \<Rightarrow> sockbuf \<Rightarrow> sleep" where
  "sbwait tsleep sb = tsleep (sb\<lparr>SB_WAIT := True\<rparr>)"

definition sowakeup :: "nat \<Rightarrow> sbsel \<Rightarrow> sotab \<Rightarrow> sotab" where
  "sowakeup i w t =
     (let t1 = (case sb_sel (sb_of w (sock t i)) of
           None \<Rightarrow> t
         | Some p \<Rightarrow> post [Selwakeup p (SB_COLL (sb_of w (sock t i)))]
             (upd i (\<lambda>so. sb_set w ((sb_of w so)\<lparr>sb_sel := None, SB_SEL := False, SB_COLL := False\<rparr>) so) t));
          t2 = (if SB_WAIT (sb_of w (sock t1 i))
                then post [Wakeup (W_cc i w)]
                  (upd i (\<lambda>so. sb_set w ((sb_of w so)\<lparr>SB_WAIT := False\<rparr>) so) t1)
                else t1);
          pg = so_pgid (sock t2 i)
      in if SS_ASYNC \<in> so_state (sock t2 i)
         then if pg < 0 then post [Gsignal (- pg)] t2
              else if pg > 0 \<and> pfind_ok t2 pg then post [Psignal pg] t2 else t2
         else t2)"

abbreviation sorwakeup :: "nat \<Rightarrow> sotab \<Rightarrow> sotab" where
  "sorwakeup i \<equiv> sowakeup i Rcv"

abbreviation sowwakeup :: "nat \<Rightarrow> sotab \<Rightarrow> sotab" where
  "sowwakeup i \<equiv> sowakeup i Snd"

section \<open>Queues of connections\<close>

text \<open>\<open>q\<close> selects \<^verbatim>\<open>so_q\<close> (completed) or \<^verbatim>\<open>so_q0\<close> (partial).\<close>

definition nxt :: "bool \<Rightarrow> socket \<Rightarrow> nat option" where
  "nxt q so = (if q then so_q so else so_q0 so)"

definition set_nxt :: "bool \<Rightarrow> nat option \<Rightarrow> socket \<Rightarrow> socket" where
  "set_nxt q n so = (if q then so\<lparr>so_q := n\<rparr> else so\<lparr>so_q0 := n\<rparr>)"

definition add_len :: "bool \<Rightarrow> int \<Rightarrow> socket \<Rightarrow> socket" where
  "add_len q d so = (if q then so\<lparr>so_qlen := so_qlen so + d\<rparr> else so\<lparr>so_q0len := so_q0len so + d\<rparr>)"

text \<open>The loop of \<^verbatim>\<open>soqinsque\<close>: the socket whose link is null.\<close>

partial_function (option) soq_end :: "(nat \<Rightarrow> socket) \<Rightarrow> bool \<Rightarrow> nat \<Rightarrow> nat option" where
  "soq_end h q p = (case nxt q (h p) of None \<Rightarrow> Some p | Some n \<Rightarrow> soq_end h q n)"

definition soqinsque :: "nat \<Rightarrow> nat \<Rightarrow> bool \<Rightarrow> sotab \<Rightarrow> sotab option" where
  "soqinsque head so q t =
     (let t1 = upd so (\<lambda>s. s\<lparr>so_head := Some head\<rparr>) t;
          t2 = upd head (add_len q 1) t1;
          t3 = upd so (set_nxt q None) t2
      in map_option (\<lambda>prev. upd prev (set_nxt q (Some so)) t3) (soq_end (sock t3) q head))"

text \<open>The loop of \<^verbatim>\<open>soqremque\<close>: the socket whose link is \<open>so\<close>, if there is one.\<close>

partial_function (option) soq_prev :: "(nat \<Rightarrow> socket) \<Rightarrow> bool \<Rightarrow> nat \<Rightarrow> nat \<Rightarrow> nat option option" where
  "soq_prev h q so p = (case nxt q (h p) of None \<Rightarrow> Some None
     | Some n \<Rightarrow> if n = so then Some (Some p) else soq_prev h q so n)"

definition soqremque :: "nat \<Rightarrow> bool \<Rightarrow> sotab \<Rightarrow> (bool \<times> sotab) kres option" where
  "soqremque so q t = (case so_head (sock t so) of
       None \<Rightarrow> Some Fault
     | Some head \<Rightarrow> map_option (\<lambda>r. Ret (case r of
           None \<Rightarrow> (False, t)
         | Some prev \<Rightarrow>
             let t1 = upd prev (set_nxt q (nxt q (sock t so))) t;
                 t2 = upd head (add_len q (-1)) t1
             in (True, upd so (\<lambda>s. s\<lparr>so_q0 := None, so_q := None, so_head := None\<rparr>) t2)))
         (soq_prev (sock t) q so head))"

section \<open>Connection states\<close>

definition soisconnecting :: "nat \<Rightarrow> sotab \<Rightarrow> sotab" where
  "soisconnecting i = upd i (\<lambda>so. so\<lparr>so_state :=
     insert SS_ISCONNECTING (so_state so - {SS_ISCONNECTED, SS_ISDISCONNECTING})\<rparr>)"

definition soisconnected :: "nat \<Rightarrow> sotab \<Rightarrow> sotab kres option" where
  "soisconnected i t =
     (let head = so_head (sock t i);
          t1 = upd i (\<lambda>so. so\<lparr>so_state := insert SS_ISCONNECTED
                 (so_state so - {SS_ISCONNECTING, SS_ISDISCONNECTING, SS_ISCONFIRMING})\<rparr>) t;
          alone = (\<lambda>t2. sowwakeup i (sorwakeup i (post [Wakeup (W_timeo i)] t2)))
      in case head of
           None \<Rightarrow> Some (Ret (alone t1))
         | Some hso \<Rightarrow> (case soqremque i False t1 of
               None \<Rightarrow> None
             | Some (Ret (True, t2)) \<Rightarrow>
                 map_option (\<lambda>t3. Ret (post [Wakeup (W_timeo hso)] (sorwakeup hso t3))) (soqinsque hso i True t2)
             | Some (Ret (False, t2)) \<Rightarrow> Some (Ret (alone t2))
             | Some (Panic e) \<Rightarrow> Some (Panic e)
             | Some Fault \<Rightarrow> Some Fault))"

definition soisdisconnecting :: "nat \<Rightarrow> sotab \<Rightarrow> sotab" where
  "soisdisconnecting i t = sorwakeup i (sowwakeup i (post [Wakeup (W_timeo i)]
     (upd i (\<lambda>so. so\<lparr>so_state := (so_state so - {SS_ISCONNECTING})
        \<union> {SS_ISDISCONNECTING, SS_CANTRCVMORE, SS_CANTSENDMORE}\<rparr>) t)))"

definition soisdisconnected :: "nat \<Rightarrow> sotab \<Rightarrow> sotab" where
  "soisdisconnected i t = sorwakeup i (sowwakeup i (post [Wakeup (W_timeo i)]
     (upd i (\<lambda>so. so\<lparr>so_state := (so_state so - {SS_ISCONNECTING, SS_ISCONNECTED, SS_ISDISCONNECTING})
        \<union> {SS_CANTRCVMORE, SS_CANTSENDMORE}\<rparr>) t)))"

definition socantsendmore :: "nat \<Rightarrow> sotab \<Rightarrow> sotab" where
  "socantsendmore i t = sowwakeup i (upd i (\<lambda>so. so\<lparr>so_state := insert SS_CANTSENDMORE (so_state so)\<rparr>) t)"

definition socantrcvmore :: "nat \<Rightarrow> sotab \<Rightarrow> sotab" where
  "socantrcvmore i t = sorwakeup i (upd i (\<lambda>so. so\<lparr>so_state := insert SS_CANTRCVMORE (so_state so)\<rparr>) t)"

section \<open>New connections\<close>

definition soreserve ::
  "u32 \<Rightarrow> u32 \<Rightarrow> u32 \<Rightarrow> socket \<Rightarrow> mbsys \<Rightarrow> (errno option \<times> socket \<times> mbsys) kres option" where
  "soreserve sb_max sndcc rcvcc so s =
     (let (ok1, snd1) = sbreserve sb_max sndcc (so_snd so) in
      if \<not> ok1 then Some (Ret (Some ENOBUFS, so, s))
      else let (ok2, rcv1) = sbreserve sb_max rcvcc (so_rcv so) in
        if \<not> ok2
        then map_option (kmap (\<lambda>(b, s1). (Some ENOBUFS, so\<lparr>so_snd := b\<rparr>, s1))) (sbrelease snd1 s)
        else let rcv2 = (if sb_lowat rcv1 = 0 then rcv1\<lparr>sb_lowat := 1\<rparr> else rcv1);
                 snd2 = (if sb_lowat snd1 = 0 then snd1\<lparr>sb_lowat := MCLBYTES\<rparr> else snd1);
                 snd3 = (if (of_int (sb_lowat snd2) :: u32) > sb_hiwat snd2
                         then snd2\<lparr>sb_lowat := sint (sb_hiwat snd2)\<rparr> else snd2)
             in Some (Ret (None, so\<lparr>so_rcv := rcv2, so_snd := snd3\<rparr>, s)))"

definition zero_sb :: sockbuf where
  "zero_sb = \<lparr>sb_cc = 0, sb_hiwat = 0, sb_mbcnt = 0, sb_mbmax = 0, sb_lowat = 0, sb_mb = [],
     sb_sel = None, SB_LOCK = False, SB_WANT = False, SB_WAIT = False, SB_SEL = False,
     SB_ASYNC = False, SB_COLL = False, SB_NOINTR = False, sb_timeo = 0\<rparr>"

definition new_socket :: "socket \<Rightarrow> socket" where
  "new_socket head = \<lparr>so_type = so_type head, so_options = so_options head - {SO_ACCEPTCONN},
     so_linger = so_linger head, so_state = insert SS_NOFDREF (so_state head), so_pcb = None,
     so_head = None, so_q0 = None, so_q = None, so_q0len = 0, so_qlen = 0, so_qlimit = 0,
     so_timeo = so_timeo head, so_error = None, so_pgid = so_pgid head, so_oobmark = 0,
     so_rcv = zero_sb, so_snd = zero_sb\<rparr>"

text \<open>\<open>new\<close> is the socket \<^verbatim>\<open>MALLOC\<close> gives (\<open>None\<close>: no memory); \<open>attach\<close> the protocol's \<^verbatim>\<open>PRU_ATTACH\<close>, called
  through \<^verbatim>\<open>so_proto\<close>, with the protocol's own state \<open>x\<close>.\<close>

definition so_FREE :: "nat \<Rightarrow> sotab \<Rightarrow> sotab" where
  "so_FREE i t = t\<lparr>so_freed := insert i (so_freed t)\<rparr>"

definition sonewconn1 ::
  "u32 \<Rightarrow> nat option \<Rightarrow> (nat \<Rightarrow> sotab \<Rightarrow> mbsys \<Rightarrow> 'x \<Rightarrow> (errno option \<times> sotab \<times> mbsys \<times> 'x) run) \<Rightarrow> nat \<Rightarrow> ss_flag option
     \<Rightarrow> sotab \<Rightarrow> mbsys \<Rightarrow> 'x \<Rightarrow> (nat option \<times> sotab \<times> mbsys \<times> 'x) run" where
  "sonewconn1 sb_max new attach head connstatus t s x =
     (let h = sock t head; q = (connstatus \<noteq> None) in
      if so_qlen h + so_q0len h > c_div (3 * so_qlimit h) 2 then rret (None, t, s, x)
      else case new of None \<Rightarrow> rret (None, t, s, x) | Some so \<Rightarrow>
        rbind (soreserve sb_max (sb_hiwat (so_snd h)) (sb_hiwat (so_rcv h)) (new_socket h) s) (\<lambda>(_, so1, s1).
        case soqinsque head so q (upd so (\<lambda>_. so1) t) of
          None \<Rightarrow> None
        | Some t1 \<Rightarrow>
            rbind (attach so t1 s1 x) (\<lambda>(e, t2, s2, x2). case e of
                Some _ \<Rightarrow> rbind (soqremque so q t2) (\<lambda>(_, t3). rret (None, so_FREE so t3, s2, x2))
              | None \<Rightarrow> rret (Some so,
                  (case connstatus of None \<Rightarrow> t2
                   | Some f \<Rightarrow> upd so (\<lambda>y. y\<lparr>so_state := insert f (so_state y)\<rparr>)
                       (post [Wakeup (W_timeo head)] (sorwakeup head t2))), s2, x2))))"

section \<open>Freeing a socket\<close>

text \<open>\<^verbatim>\<open>sorflush\<close> and \<^verbatim>\<open>sofree\<close> of \<^verbatim>\<open>uipc_socket.c\<close>.  \<open>slp\<close> are the sleeps on the lock of the buffer; \<open>dispose\<close>
  is the domain's \<^verbatim>\<open>dom_dispose\<close> where the protocol has \<^verbatim>\<open>PR_RIGHTS\<close>, the identity where not.\<close>

definition sorflush ::
  "(sockbuf \<Rightarrow> sleep) list \<Rightarrow> (chain list \<Rightarrow> mbsys \<Rightarrow> mbsys) \<Rightarrow> nat \<Rightarrow> sotab \<Rightarrow> mbsys \<Rightarrow> (sotab \<times> mbsys) run" where
  "sorflush slp dispose i t s =
     (case sblock slp ((so_rcv (sock t i))\<lparr>SB_NOINTR := True\<rparr>) of
        None \<Rightarrow> None
      | Some (_, sb) \<Rightarrow>
          let t1 = socantrcvmore i (upd i (\<lambda>so. so\<lparr>so_rcv := sb\<rparr>) t);
              (asb, wanted) = sbunlock (so_rcv (sock t1 i));
              t2 = upd i (\<lambda>so. so\<lparr>so_rcv := zero_sb\<rparr>) (if wanted then post [Wakeup (W_flags i Rcv)] t1 else t1)
          in rbind (sbrelease asb (dispose (sb_mb asb) s)) (\<lambda>(_, s1). rret (t2, s1)))"

definition sofree ::
  "(sockbuf \<Rightarrow> sleep) list \<Rightarrow> (chain list \<Rightarrow> mbsys \<Rightarrow> mbsys) \<Rightarrow> nat \<Rightarrow> sotab \<Rightarrow> mbsys \<Rightarrow> (sotab \<times> mbsys) run" where
  "sofree slp dispose i t s =
     (if so_pcb (sock t i) \<noteq> None \<or> SS_NOFDREF \<notin> so_state (sock t i) then rret (t, s)
      else rbind (if so_head (sock t i) = None then rret t
          else rbind (soqremque i False t) (\<lambda>(ok, t1).
               if ok then rret (upd i (\<lambda>so. so\<lparr>so_head := None\<rparr>) t1)
               else rbind (soqremque i True t1) (\<lambda>(ok2, t2).
                    if ok2 then rret (upd i (\<lambda>so. so\<lparr>so_head := None\<rparr>) t2) else Some (Panic ''sofree dq''))))
        (\<lambda>t1. rbind (sbrelease (so_snd (sock t1 i)) s) (\<lambda>(sb, s1).
               rbind (sorflush slp dispose i (upd i (\<lambda>so. so\<lparr>so_snd := sb\<rparr>) t1) s1) (\<lambda>(t2, s2).
               rret (so_FREE i t2, s2)))))"

section \<open>Reading the queues as lists\<close>

fun soq_path :: "(nat \<Rightarrow> socket) \<Rightarrow> bool \<Rightarrow> nat \<Rightarrow> nat list \<Rightarrow> bool" where
  "soq_path h q p [] = (nxt q (h p) = None)"
| "soq_path h q p (x # xs) = (nxt q (h p) = Some x \<and> soq_path h q x xs)"

text \<open>Both queues of a listening socket: partial connections \<open>xs0\<close>, completed ones \<open>xs\<close>.\<close>

definition conn_queues :: "(nat \<Rightarrow> socket) \<Rightarrow> nat \<Rightarrow> nat list \<Rightarrow> nat list \<Rightarrow> bool" where
  "conn_queues h head xs0 xs = (soq_path h False head xs0 \<and> soq_path h True head xs
     \<and> distinct (head # xs0 @ xs) \<and> so_q0len (h head) = int (length xs0) \<and> so_qlen (h head) = int (length xs)
     \<and> list_all (\<lambda>x. so_head (h x) = Some head) (xs0 @ xs))"

lemma nxt_simps [simp]:
  "nxt q (set_nxt r n s) = (if q = r then n else nxt q s)" "nxt q (add_len r d s) = nxt q s"
  "nxt q (s\<lparr>so_head := x\<rparr>) = nxt q s" "nxt q (s\<lparr>so_state := st\<rparr>) = nxt q s"
  "nxt q (s\<lparr>so_q0 := None, so_q := None, so_head := None\<rparr>) = None"
  by (simp_all add: nxt_def set_nxt_def add_len_def)

lemma link_simps [simp]:
  "so_head (set_nxt q n s) = so_head s" "so_head (add_len q d s) = so_head s"
  "so_q0len (set_nxt q n s) = so_q0len s" "so_qlen (set_nxt q n s) = so_qlen s"
  "so_q0len (add_len q d s) = so_q0len s + (if q then 0 else d)"
  "so_qlen (add_len q d s) = so_qlen s + (if q then d else 0)"
  by (simp_all add: set_nxt_def add_len_def)

lemma sock_upd [simp]: "sock (upd i f t) = (sock t)(i := f (sock t i))"
  by (simp add: upd_def)

lemma sock_post [simp]: "sock (post es t) = sock t"
  by (simp add: post_def)

lemma soq_path_cong:
  assumes "\<And>x. x \<in> set (p # xs) \<Longrightarrow> nxt q (h' x) = nxt q (h x)"
  shows "soq_path h' q p xs = soq_path h q p xs"
  using assms by (induction xs arbitrary: p) auto

lemma soq_end_path: "soq_path h q p xs \<Longrightarrow> soq_end h q p = Some (last (p # xs))"
  by (induction xs arbitrary: p) (simp_all add: soq_end.simps)

lemma soq_prev_path:
  "soq_path h q p (a @ so # b) \<Longrightarrow> so \<notin> set a \<Longrightarrow> soq_prev h q so p = Some (Some (last (p # a)))"
  by (induction a arbitrary: p) (simp_all add: soq_prev.simps)

lemma soq_prev_none: "soq_path h q p xs \<Longrightarrow> so \<notin> set xs \<Longrightarrow> soq_prev h q so p = Some None"
  by (induction xs arbitrary: p) (simp_all add: soq_prev.simps)

lemma soq_path_snoc:
  assumes "soq_path h q p xs" and "distinct (p # xs)" and "so \<notin> set (p # xs)"
    and "nxt q (h' (last (p # xs))) = Some so" and "nxt q (h' so) = None"
    and "\<And>x. x \<in> set (butlast (p # xs)) \<Longrightarrow> nxt q (h' x) = nxt q (h x)"
  shows "soq_path h' q p (xs @ [so])"
  using assms by (induction xs arbitrary: p) auto

lemma soq_path_unlink:
  assumes "soq_path h q p (a @ so # b)" and "distinct (p # a @ so # b)"
    and "nxt q (h' (last (p # a))) = nxt q (h so)"
    and "\<And>x. x \<in> set (p # a @ b) - {last (p # a)} \<Longrightarrow> nxt q (h' x) = nxt q (h x)"
  shows "soq_path h' q p (a @ b)"
  using assms
proof (induction a arbitrary: p)
  case Nil
  then show ?case using soq_path_cong[of _ "tl b" q h' h]
    by (cases b) (auto simp: soq_path_cong[of _ _ q h' h])
next
  case (Cons x a)
  have "last (p # x # a) \<noteq> p" using Cons(3) last_in_set[of "x # a"] by auto
  then have "nxt q (h' p) = nxt q (h p)" using Cons(5)[of p] by simp
  then show ?case using Cons(2-5) by (auto intro!: Cons(1))
qed

lemma soqinsque_queues:
  assumes "conn_queues (sock t) head xs0 xs" and "so \<notin> set (head # xs0 @ xs)"
  shows "\<exists>t'. soqinsque head so q t = Some t'
     \<and> conn_queues (sock t') head (if q then xs0 else xs0 @ [so]) (if q then xs @ [so] else xs)
     \<and> (\<forall>x. x \<notin> set (so # head # xs0 @ xs) \<longrightarrow> sock t' x = sock t x)
     \<and> so_state (sock t' so) = so_state (sock t so)"
proof -
  define ys where "ys = (if q then xs else xs0)"
  define t3 where "t3 = upd so (set_nxt q None) (upd head (add_len q 1) (upd so (\<lambda>s. s\<lparr>so_head := Some head\<rparr>) t))"
  have q: "soq_path (sock t) q head ys" "distinct (head # ys)" "so \<notin> set (head # ys)"
    using assms by (auto simp: conn_queues_def ys_def)
  have nx: "nxt r (sock t3 x) = nxt r (sock t x)" if "x \<noteq> so" for r x
    using that by (simp add: t3_def)
  have "soq_path (sock t3) q head ys"
    using soq_path_cong[of head ys q "sock t3" "sock t"] nx q by (metis insert_iff list.set(2))
  then have e: "soqinsque head so q t = Some (upd (last (head # ys)) (set_nxt q (Some so)) t3)"
    unfolding t3_def soqinsque_def Let_def by (simp only: soq_end_path option.map)
  let ?l = "last (head # ys)"
  let ?t = "upd ?l (set_nxt q (Some so)) t3"
  have ls: "?l \<in> set (head # ys)" by (rule last_in_set) simp
  then have lso: "?l \<noteq> so" using q(3) by blast
  have bl: "?l \<notin> set (butlast (head # ys))"
    using q(2) append_butlast_last_id[of "head # ys"] by (metis distinct_append disjoint_iff list.set_intros(1) list.distinct(1))
  have p1: "soq_path (sock ?t) q head (ys @ [so])"
  proof (rule soq_path_snoc[OF q])
    show "nxt q (sock ?t x) = nxt q (sock t x)" if "x \<in> set (butlast (head # ys))" for x
    proof -
      have "x \<noteq> ?l" "x \<noteq> so" using that bl q(3) in_set_butlastD by metis+
      then show ?thesis using nx[of x q] by (simp add: upd_def)
    qed
  qed (use lso in \<open>simp_all add: t3_def\<close>)
  have p2: "soq_path (sock ?t) (\<not> q) head zs = soq_path (sock t) (\<not> q) head zs" if "so \<notin> set (head # zs)" for zs
    by (rule soq_path_cong) (use that nx in \<open>force simp: upd_def\<close>)
  have st: "sock ?t x = sock t x" if "x \<notin> set (so # head # ys)" for x
    using that ls by (auto simp: t3_def upd_def)
  have hd: "so_head (sock ?t x) = (if x = so then Some head else so_head (sock t x))"
      "so_state (sock ?t x) = so_state (sock t x)"
      "so_q0len (sock ?t x) = so_q0len (sock t x) + (if x = head \<and> \<not> q then 1 else 0)"
      "so_qlen (sock ?t x) = so_qlen (sock t x) + (if x = head \<and> q then 1 else 0)" for x
    using q(3) by (auto simp: t3_def upd_def set_nxt_def add_len_def)
  have dj: "distinct (head # xs0 @ xs)" "soq_path (sock t) False head xs0" "soq_path (sock t) True head xs"
      "so_q0len (sock t head) = int (length xs0)" "so_qlen (sock t head) = int (length xs)"
      "\<forall>x \<in> set (xs0 @ xs). so_head (sock t x) = Some head"
    using assms(1) by (auto simp: conn_queues_def list_all_iff)
  have "conn_queues (sock ?t) head (if q then xs0 else xs0 @ [so]) (if q then xs @ [so] else xs)"
    unfolding conn_queues_def hd list_all_iff using dj assms(2) p1 p2[of xs0] p2[of xs] by (cases q) (auto simp: ys_def)
  then show ?thesis using e st hd(2) by (auto simp: ys_def)
qed

lemma soqremque_absent:
  assumes "conn_queues (sock t) head xs0 xs" and "so_head (sock t so) = Some head"
    and "so \<notin> set (if q then xs else xs0)"
  shows "soqremque so q t = Some (Ret (False, t))"
proof -
  have "soq_path (sock t) q head (if q then xs else xs0)" using assms(1) by (auto simp: conn_queues_def)
  then show ?thesis using soq_prev_none[OF _ assms(3)] assms(2) by (simp add: soqremque_def)
qed

lemma soqremque_queues:
  assumes "conn_queues (sock t) head xs0 xs" and "(if q then xs else xs0) = a @ so # b"
  shows "\<exists>t'. soqremque so q t = Some (Ret (True, t'))
     \<and> conn_queues (sock t') head (if q then xs0 else a @ b) (if q then a @ b else xs)
     \<and> so_head (sock t' so) = None \<and> (\<forall>x. so_state (sock t' x) = so_state (sock t x))"
proof -
  have dj: "distinct (head # xs0 @ xs)" "soq_path (sock t) False head xs0" "soq_path (sock t) True head xs"
      "so_q0len (sock t head) = int (length xs0)" "so_qlen (sock t head) = int (length xs)"
      "\<forall>x \<in> set (xs0 @ xs). so_head (sock t x) = Some head"
    using assms(1) by (auto simp: conn_queues_def list_all_iff)
  have q: "soq_path (sock t) q head (a @ so # b)" "distinct (head # a @ so # b)" "so_head (sock t so) = Some head"
    using dj assms(2) by (cases q; auto)+
  define l where "l = last (head # a)"
  have l: "l \<in> set (head # a)" "l \<noteq> so" using last_in_set[of "head # a"] q(2) by (auto simp: l_def)
  define t' where "t' = upd so (\<lambda>s. s\<lparr>so_q0 := None, so_q := None, so_head := None\<rparr>)
      (upd head (add_len q (-1)) (upd l (set_nxt q (nxt q (sock t so))) t))"
  have e: "soqremque so q t = Some (Ret (True, t'))"
    using soq_prev_path[OF q(1)] q(2,3) by (simp add: soqremque_def Let_def t'_def l_def)
  have nx: "nxt r (sock t' x) = nxt r (sock t x)" if "x \<noteq> so" "x \<noteq> l \<or> r \<noteq> q" for r x
    using that by (auto simp: t'_def)
  have p1: "soq_path (sock t') q head (a @ b)"
  proof (rule soq_path_unlink[OF q(1,2)])
    show "nxt q (sock t' (last (head # a))) = nxt q (sock t so)"
      using l q(2) unfolding l_def[symmetric] by (auto simp: t'_def)
    show "nxt q (sock t' x) = nxt q (sock t x)" if "x \<in> set (head # a @ b) - {last (head # a)}" for x
      using nx[of x q] that q(2) by (auto simp: l_def)
  qed
  have p2: "soq_path (sock t') (\<not> q) head zs = soq_path (sock t) (\<not> q) head zs" if "so \<notin> set (head # zs)" for zs
  proof (rule soq_path_cong)
    show "nxt (\<not> q) (sock t' x) = nxt (\<not> q) (sock t x)" if "x \<in> set (head # zs)" for x
      by (rule nx) (use that \<open>so \<notin> set (head # zs)\<close> in auto)
  qed
  have hs: "head \<noteq> so" using q(2) by simp
  have fs: "so_head (sock t' x) = (if x = so then None else so_head (sock t x))"
      "so_state (sock t' x) = so_state (sock t x)"
      "so_q0len (sock t' head) = so_q0len (sock t head) - (if q then 0 else 1)"
      "so_qlen (sock t' head) = so_qlen (sock t head) - (if q then 1 else 0)" for x
    using hs by (auto simp: t'_def set_nxt_def add_len_def)
  have "conn_queues (sock t') head (if q then xs0 else a @ b) (if q then a @ b else xs)"
    unfolding conn_queues_def fs list_all_iff
    using dj assms(2) q(2) p1 p2[of xs0] p2[of xs] by (cases q) auto
  then show ?thesis using e fs by auto
qed

text \<open>Waking up a socket leaves its queues and its state alone.\<close>

definition same_links :: "sotab \<Rightarrow> sotab \<Rightarrow> bool" where
  "same_links t t' = (\<forall>i. so_head (sock t' i) = so_head (sock t i) \<and> so_q0 (sock t' i) = so_q0 (sock t i)
     \<and> so_q (sock t' i) = so_q (sock t i) \<and> so_q0len (sock t' i) = so_q0len (sock t i)
     \<and> so_qlen (sock t' i) = so_qlen (sock t i) \<and> so_qlimit (sock t' i) = so_qlimit (sock t i)
     \<and> so_state (sock t' i) = so_state (sock t i))"

lemma same_links_sowakeup: "same_links t (sowakeup i w t)"
  by (cases w) (simp_all add: same_links_def sowakeup_def Let_def sb_set_def sb_of_def split: option.splits)

lemma same_links_trans: "same_links a b \<Longrightarrow> same_links b c \<Longrightarrow> same_links a c"
  by (simp add: same_links_def)

lemma same_links_post: "same_links t (post es t)"
  by (simp add: same_links_def)

lemma same_links_queues:
  assumes "same_links t t'"
  shows "conn_queues (sock t') head xs0 xs = conn_queues (sock t) head xs0 xs"
proof -
  have "soq_path (sock t') q p zs = soq_path (sock t) q p zs" for q p zs
    by (rule soq_path_cong) (use assms in \<open>simp add: same_links_def nxt_def\<close>)
  then show ?thesis using assms by (simp add: conn_queues_def same_links_def)
qed

lemma conn_queues_state:
  "conn_queues (sock (upd i (\<lambda>so. so\<lparr>so_state := f so\<rparr>) t)) head xs0 xs = conn_queues (sock t) head xs0 xs"
proof -
  let ?h = "sock (upd i (\<lambda>so. so\<lparr>so_state := f so\<rparr>) t)"
  have p: "soq_path ?h q p zs = soq_path (sock t) q p zs" for q p zs
    by (rule soq_path_cong) simp
  have f: "so_head (?h x) = so_head (sock t x)" "so_qlen (?h x) = so_qlen (sock t x)"
    "so_q0len (?h x) = so_q0len (sock t x)" for x by simp_all
  show ?thesis unfolding conn_queues_def p f ..
qed

text \<open>(C20) When a partial connection completes, \<^verbatim>\<open>soisconnected\<close> ends, takes it from wherever it is in the
  queue of partial connections, puts it last in the queue of those ready to be accepted, keeps
  the order of all others, and both queue lengths stay those of the linked lists.\<close>

theorem soisconnected_moves:
  assumes "conn_queues (sock t) head (a @ so # b) xs"
  shows "\<exists>t'. soisconnected so t = Some (Ret t') \<and> conn_queues (sock t') head (a @ b) (xs @ [so])
     \<and> SS_ISCONNECTED \<in> so_state (sock t' so) \<and> SS_ISCONNECTING \<notin> so_state (sock t' so)"
proof -
  define t1 where "t1 = upd so (\<lambda>so. so\<lparr>so_state := insert SS_ISCONNECTED
                 (so_state so - {SS_ISCONNECTING, SS_ISDISCONNECTING, SS_ISCONFIRMING})\<rparr>) t"
  have h: "so_head (sock t so) = Some head" "so \<notin> set (head # (a @ b) @ xs)"
    using assms by (auto simp: conn_queues_def)
  have "conn_queues (sock t1) head (a @ so # b) xs" unfolding t1_def using assms by (simp only: conn_queues_state)
  from soqremque_queues[OF this, of False a so b] obtain t2 where
    t2: "soqremque so False t1 = Some (Ret (True, t2))" "conn_queues (sock t2) head (a @ b) xs"
      "\<And>x. so_state (sock t2 x) = so_state (sock t1 x)" by auto
  from soqinsque_queues[OF t2(2) h(2), of True] obtain t3 where
    t3: "soqinsque head so True t2 = Some t3" "conn_queues (sock t3) head (a @ b) (xs @ [so])"
      "so_state (sock t3 so) = so_state (sock t2 so)" by auto
  let ?t = "post [Wakeup (W_timeo head)] (sorwakeup head t3)"
  have sl: "same_links t3 ?t" using same_links_trans[OF same_links_sowakeup same_links_post] .
  have "soisconnected so t = Some (Ret ?t)"
    using h(1) t2(1) t3(1) unfolding soisconnected_def Let_def t1_def[symmetric] by simp
  moreover have "so_state (sock ?t so) = so_state (sock t1 so)" using sl t3(3) t2(3) by (simp add: same_links_def)
  ultimately show ?thesis using t3(2) same_links_queues[OF sl] by (simp add: t1_def)
qed

definition ex_so :: "nat option \<Rightarrow> nat option \<Rightarrow> nat option \<Rightarrow> int \<Rightarrow> int \<Rightarrow> socket" where
  "ex_so hso n0 n k0 k = \<lparr>so_type = 1, so_options = {}, so_linger = 0, so_state = {SS_ISCONNECTING}, so_pcb = None,
     so_head = hso, so_q0 = n0, so_q = n, so_q0len = k0, so_qlen = k, so_qlimit = 5, so_timeo = 0,
     so_error = None, so_pgid = 0, so_oobmark = 0, so_rcv = zero_sb, so_snd = zero_sb\<rparr>"

definition ex_tab :: sotab where
  "ex_tab = \<lparr>sock = (\<lambda>_. ex_so None None None 0 0)(0 := ex_so None (Some 1) (Some 3) 2 1,
      1 := ex_so (Some 0) (Some 2) None 0 0, 2 := ex_so (Some 0) None None 0 0,
      3 := ex_so (Some 0) None None 0 0), events = [], pfind_ok = (\<lambda>_. False), so_freed = {}\<rparr>"

lemma ex_tab_queues: "conn_queues (sock ex_tab) 0 [1, 2] [3]"
  by (simp add: conn_queues_def ex_tab_def ex_so_def nxt_def)

theorem soisconnected_moves_witness:
  "\<exists>t'. soisconnected 1 ex_tab = Some (Ret t') \<and> conn_queues (sock t') 0 [2] [3, 1]"
  using soisconnected_moves[of ex_tab 0 "[]" 1 "[2]" "[3]"] ex_tab_queues by auto

lemma sbreserve_fields:
  assumes "sbreserve mx cc sb = (ok, sb')"
  shows "sb_mb sb' = sb_mb sb" and "sb_cc sb' = sb_cc sb" and "sb_mbcnt sb' = sb_mbcnt sb" and "SB_LOCK sb' = SB_LOCK sb"
  using assms by (auto simp: sbreserve_def Let_def split: if_splits)

lemma soreserve_new:
  "\<exists>e r n s1. soreserve mx a b (new_socket h) s = Some (Ret (e, (new_socket h)\<lparr>so_rcv := r, so_snd := n\<rparr>, s1))"
proof -
  obtain ok1 n1 where n: "sbreserve mx a zero_sb = (ok1, n1)" by fastforce
  obtain ok2 r1 where r: "sbreserve mx b zero_sb = (ok2, r1)" by fastforce
  have z: "so_snd (new_socket h) = zero_sb" "so_rcv (new_socket h) = zero_sb" by (simp_all add: new_socket_def)
  have "sbrelease n1 s = Some (Ret (n1\<lparr>sb_hiwat := 0, sb_mbmax := 0\<rparr>, s))"
    using sbreserve_fields[OF n] by (simp add: sbrelease_def sbflush_def sbflush_loop.simps[of n1] zero_sb_def)
  note rel = this
  consider "\<not> ok1" | "ok1" "\<not> ok2" | "ok1" "ok2" by blast
  then show ?thesis
  proof cases
    case 1
    then show ?thesis using n
      by (intro exI[of _ "Some ENOBUFS"] exI[of _ zero_sb] exI[of _ s]) (simp add: soreserve_def z new_socket_def)
  next
    case 2
    then have "soreserve mx a b (new_socket h) s = Some (Ret (Some ENOBUFS, (new_socket h)\<lparr>so_rcv := zero_sb,
        so_snd := n1\<lparr>sb_hiwat := 0, sb_mbmax := 0\<rparr>\<rparr>, s))"
      using n r rel by (simp add: soreserve_def z new_socket_def)
    then show ?thesis by blast
  next
    case 3
    then show ?thesis using n r by (auto simp: soreserve_def z Let_def)
  qed
qed

text \<open>\<^verbatim>\<open>sonewconn1\<close> on a listening socket whose queues are well linked ends; it refuses, changing
  nothing, when the queues together exceed three halves of the limit; otherwise the new socket is
  last in the queue of partial connections (or of completed ones, if a status is given) and
  belongs to the listener; if the protocol refuses to attach, the queues are as before, and no
  other reason than these and a lack of memory makes it fail.  The
  protocol's attach routine must not touch queue links.\<close>

theorem sonewconn1_queues:
  assumes "conn_queues (sock t) head xs0 xs" and "new = None \<or> the new \<notin> set (head # xs0 @ xs)"
    and attach: "\<And>i t0 s0 x0. \<exists>e t1 s1 x1. attach i t0 s0 x0 = Some (Ret (e, t1, s1, x1)) \<and> same_links t0 t1"
  shows "\<exists>res t' s' x'. sonewconn1 mx new attach head st t s x = Some (Ret (res, t', s', x')) \<and>
     (if int (length xs0 + length xs) > c_div (3 * so_qlimit (sock t head)) 2 then res = None \<and> t' = t
      else res = None \<longrightarrow> new = None \<or> (\<exists>i t0 s0 x0 e r. attach i t0 s0 x0 = Some (Ret (Some e, r)))) \<and>
     (case res of None \<Rightarrow> conn_queues (sock t') head xs0 xs
      | Some so \<Rightarrow> new = Some so \<and> conn_queues (sock t') head (if st = None then xs0 @ [so] else xs0)
            (if st = None then xs else xs @ [so]))"
proof -
  define q where "q = (st \<noteq> None)"
  have len: "so_qlen (sock t head) + so_q0len (sock t head) = int (length xs0 + length xs)"
    using assms(1) by (simp add: conn_queues_def)
  show ?thesis
  proof (cases "int (length xs0 + length xs) > c_div (3 * so_qlimit (sock t head)) 2 \<or> new = None")
    case True
    then show ?thesis using assms(1) len by (auto simp: sonewconn1_def Let_def rret_def)
  next
    case False
    then obtain so where so: "new = Some so" "so \<notin> set (head # xs0 @ xs)" using assms(2) by auto
    obtain e r n s1 where rs: "soreserve mx (sb_hiwat (so_snd (sock t head))) (sb_hiwat (so_rcv (sock t head)))
        (new_socket (sock t head)) s = Some (Ret (e, (new_socket (sock t head))\<lparr>so_rcv := r, so_snd := n\<rparr>, s1))"
      using soreserve_new by blast
    define t0 where "t0 = upd so (\<lambda>_. (new_socket (sock t head))\<lparr>so_rcv := r, so_snd := n\<rparr>) t"
    have "soq_path (sock t0) k head zs = soq_path (sock t) k head zs" if "so \<notin> set (head # zs)" for k zs
      by (rule soq_path_cong) (use that in \<open>auto simp: t0_def\<close>)
    then have "conn_queues (sock t0) head xs0 xs"
      using assms(1) so(2) by (auto simp: conn_queues_def t0_def list_all_iff)
    from soqinsque_queues[OF this so(2), of q] obtain t1 where
      t1: "soqinsque head so q t0 = Some t1"
        "conn_queues (sock t1) head (if q then xs0 else xs0 @ [so]) (if q then xs @ [so] else xs)" by auto
    obtain a t2 s2 x2 where at: "attach so t1 s1 x = Some (Ret (a, t2, s2, x2))" "same_links t1 t2"
      using attach by blast
    have t2: "conn_queues (sock t2) head (if q then xs0 else xs0 @ [so]) (if q then xs @ [so] else xs)"
      using t1(2) same_links_queues[OF at(2)] by simp
    have eq: "sonewconn1 mx new attach head st t s x = (case a of
         Some e \<Rightarrow> rbind (soqremque so q t2) (\<lambda>(_, t3). rret (None, so_FREE so t3, s2, x2))
       | None \<Rightarrow> rret (Some so, (case st of None \<Rightarrow> t2
            | Some f \<Rightarrow> upd so (\<lambda>x. x\<lparr>so_state := insert f (so_state x)\<rparr>)
                (post [Wakeup (W_timeo head)] (sorwakeup head t2))), s2, x2))"
      using False so(1) len rs t1(1) at(1) unfolding sonewconn1_def Let_def q_def t0_def
      by (cases a) simp_all
    show ?thesis
    proof (cases a)
      case None
      have "conn_queues (sock (post es (sorwakeup head t2))) head ys0 ys = conn_queues (sock t2) head ys0 ys" for es ys0 ys
        using same_links_queues[OF same_links_sowakeup] by simp
      then show ?thesis using eq t2 None so(1) False
        by (cases st) (simp_all add: q_def conn_queues_state rret_def del: sock_upd)
    next
      case (Some e)
      obtain t3 where "soqremque so q t2 = Some (Ret (True, t3))"
          "conn_queues (sock t3) head xs0 xs"
        using soqremque_queues[OF t2, of q "if q then xs else xs0" so "[]"] by (cases q) auto
      then show ?thesis using eq Some False at(1) by (fastforce simp: rret_def so_FREE_def)
    qed
  qed
qed

theorem sonewconn1_queues_witness:
  "\<exists>t' s'. sonewconn1 65536 (Some 7) (\<lambda>i t s x. Some (Ret (None, t, s, x))) 0 None ex_tab ex_mbsys () = Some (Ret (Some 7, t', s', ()))
     \<and> conn_queues (sock t') 0 [1, 2, 7] [3]"
proof -
  have lim: "\<not> int (length [1::nat, 2] + length [3::nat]) > c_div (3 * so_qlimit (sock ex_tab 0)) 2"
    by (simp add: ex_tab_def ex_so_def)
  have fresh: "Some 7 = None \<or> the (Some 7) \<notin> set (0 # [1, 2] @ [3 :: nat])" by simp
  show ?thesis
    using sonewconn1_queues[OF ex_tab_queues fresh, of "\<lambda>i t s x. Some (Ret (None, t, s, x))" 65536 None ex_mbsys "()"] lim
    by (fastforce simp: same_links_def split: option.splits)
qed

end
