(* ===== verification/In_Pcb.thy ===== *)
theory In_Pcb
  imports Socket
begin

text \<open>
  Internet protocol control blocks: \<^verbatim>\<open>sys/netinet/in_pcb.c\<close> (allocation, bind, connect, disconnect,
  detach, lookup, notification).  A protocol's control blocks are a store with the queue that
  starts at \<^verbatim>\<open>head\<close>; the identity of a block is a number that is never used again.  Ports and
  addresses are kept in network order, as in the code.  The interface list and the routing
  lookups are arguments (\<open>incfg\<close>); reference counts of routes are not modelled, messages to the
  routing socket are recorded.
\<close>

section \<open>Data\<close>

datatype rtv = RTV_MTU | RTV_HOPCOUNT | RTV_EXPIRE | RTV_RPIPE | RTV_SPIPE | RTV_SSTHRESH | RTV_RTT | RTV_RTTVAR

text \<open>A route: metrics (\<^verbatim>\<open>struct rt_metrics\<close>), its interface (if any) with MTU and loopback flag, whether it is
  the default route or came from a redirect.\<close>

record rtent =
  rmx_locks :: "rtv set"
  rmx_mtu :: u32
  rmx_recvpipe :: u32
  rmx_sendpipe :: u32
  rmx_ssthresh :: u32
  rmx_rtt :: u32
  rmx_rttvar :: u32
  rt_ifp :: "nat option"
  rt_if_mtu :: int
  rt_loopback :: bool
  rt_default :: bool
  rt_dynamic :: bool

record inpcb =
  inp_faddr :: u32
  inp_fport :: u16
  inp_laddr :: u32
  inp_lport :: u16
  inp_socket :: nat
  inp_ppcb :: bool
  ro_rt :: "rtent option"
  ro_dst :: u32
  inp_options :: chain

datatype rtevent = RT_LOSING rtent | RT_DELETE rtent

record pcbtab =
  pcb :: "nat \<Rightarrow> inpcb"
  pcbq :: "nat list"
  head_lport :: u16
  nextpcb :: nat
  rt_events :: "rtevent list"

record in_ifaddr =
  ia_addr :: u32
  ia_broadaddr :: u32
  ia_ifp :: nat
  ia_bcast :: bool

record sockaddr_in =
  sin_family :: int
  sin_port :: u16
  sin_addr :: u32

text \<open>An address argument: the length of its mbuf and its contents.\<close>

type_synonym nam = "int \<times> sockaddr_in"

definition AF_INET :: int where "AF_INET = 2"
definition SIZEOF_SIN :: int where "SIZEOF_SIN = 16"
definition INADDR_ANY :: u32 where "INADDR_ANY = 0"
definition INADDR_BROADCAST :: u32 where "INADDR_BROADCAST = 0xffffffff"
definition IPPORT_RESERVED :: u16 where "IPPORT_RESERVED = 1024"
definition IPPORT_USERRESERVED :: u16 where "IPPORT_USERRESERVED = 5000"

lemmas in_consts = AF_INET_def SIZEOF_SIN_def INADDR_ANY_def INADDR_BROADCAST_def IPPORT_RESERVED_def
  IPPORT_USERRESERVED_def

text \<open>The interface list, what \<^verbatim>\<open>net/if.c\<close>, \<^verbatim>\<open>netinet/in.c\<close> and the routing table answer, the caller's privilege, and
  whether the protocol has \<^verbatim>\<open>PR_CONNREQUIRED\<close>.\<close>

record incfg =
  in_ifaddrs :: "in_ifaddr list"
  ifa_ifwithaddr :: "u32 \<Rightarrow> bool"
  ifa_ifwithdstaddr :: "u32 \<Rightarrow> in_ifaddr option"
  ia_onnetof :: "u32 \<Rightarrow> in_ifaddr option"
  rtalloc :: "u32 \<Rightarrow> rtent option"
  is_suser :: bool
  conn_required :: bool

unbundle bit_operations_syntax

text \<open>\<^verbatim>\<open>htons\<close> and \<^verbatim>\<open>ntohs\<close> on the VAX.\<close>

definition htons :: "u16 \<Rightarrow> u16" where
  "htons w = push_bit 8 w OR drop_bit 8 w"

definition updpcb :: "nat \<Rightarrow> (inpcb \<Rightarrow> inpcb) \<Rightarrow> pcbtab \<Rightarrow> pcbtab" where
  "updpcb i f t = t\<lparr>pcb := (pcb t)(i := f (pcb t i))\<rparr>"

section \<open>Allocation and lookup\<close>

definition zero_pcb :: inpcb where
  "zero_pcb = \<lparr>inp_faddr = 0, inp_fport = 0, inp_laddr = 0, inp_lport = 0, inp_socket = 0, inp_ppcb = False,
     ro_rt = None, ro_dst = 0, inp_options = []\<rparr>"

definition in_pcballoc :: "nat \<Rightarrow> pcbtab \<Rightarrow> sotab \<Rightarrow> mbsys \<Rightarrow> errno option \<times> pcbtab \<times> sotab \<times> mbsys" where
  "in_pcballoc so tab t s = (case m_getclr MT_PCB s of
       (None, s1) \<Rightarrow> (Some ENOBUFS, tab, t, s1)
     | (Some _, s1) \<Rightarrow>
         let i = nextpcb tab in
         (None, tab\<lparr>pcb := (pcb tab)(i := zero_pcb\<lparr>inp_socket := so\<rparr>), pcbq := i # pcbq tab, nextpcb := i + 1\<rparr>,
          upd so (\<lambda>x. x\<lparr>so_pcb := Some i\<rparr>) t, s1))"

text \<open>How many wildcards a match of a control block needs; \<open>None\<close>: it does not match.\<close>

definition pcb_wild :: "u32 \<Rightarrow> u16 \<Rightarrow> u32 \<Rightarrow> u16 \<Rightarrow> inpcb \<Rightarrow> nat option" where
  "pcb_wild faddr fport laddr lport p =
     (if inp_lport p \<noteq> lport then None
      else case (if inp_laddr p \<noteq> INADDR_ANY
                 then if laddr = INADDR_ANY then Some 1 else if inp_laddr p \<noteq> laddr then None else Some 0
                 else if laddr \<noteq> INADDR_ANY then Some 1 else Some 0) of
             None \<Rightarrow> None
           | Some w \<Rightarrow>
               if inp_faddr p \<noteq> INADDR_ANY
               then if faddr = INADDR_ANY then Some (w + 1)
                    else if inp_faddr p \<noteq> faddr \<or> inp_fport p \<noteq> fport then None else Some w
               else if faddr \<noteq> INADDR_ANY then Some (w + 1) else Some w)"

fun in_pcblookup_loop :: "(nat \<Rightarrow> nat option) \<Rightarrow> bool \<Rightarrow> nat list \<Rightarrow> nat option \<Rightarrow> nat \<Rightarrow> nat option" where
  "in_pcblookup_loop f wildok [] match matchwild = match"
| "in_pcblookup_loop f wildok (i # is) match matchwild = (case f i of
       None \<Rightarrow> in_pcblookup_loop f wildok is match matchwild
     | Some wildcard \<Rightarrow>
         if wildcard \<noteq> 0 \<and> \<not> wildok then in_pcblookup_loop f wildok is match matchwild
         else if wildcard < matchwild
         then if wildcard = 0 then Some i else in_pcblookup_loop f wildok is (Some i) wildcard
         else in_pcblookup_loop f wildok is match matchwild)"

definition in_pcblookup :: "pcbtab \<Rightarrow> u32 \<Rightarrow> u16 \<Rightarrow> u32 \<Rightarrow> u16 \<Rightarrow> bool \<Rightarrow> nat option" where
  "in_pcblookup tab faddr fport laddr lport wildok =
     in_pcblookup_loop (\<lambda>i. pcb_wild faddr fport laddr lport (pcb tab i)) wildok (pcbq tab) None 3"

section \<open>Bind and connect\<close>

text \<open>The search for a free port: \<open>None\<close>, it never ends.\<close>

partial_function (option) bind_port :: "u32 \<Rightarrow> pcbtab \<Rightarrow> (u16 \<times> pcbtab) option" where
  "bind_port laddr tab =
     (let p = head_lport tab;
          p1 = (if p < IPPORT_RESERVED \<or> p + 1 > IPPORT_USERRESERVED then IPPORT_RESERVED else p + 1);
          tab1 = tab\<lparr>head_lport := p1\<rparr>
      in if in_pcblookup tab1 INADDR_ANY 0 laddr (htons p1) False \<noteq> None then bind_port laddr tab1
         else Some (htons p1, tab1))"

definition bind_noname :: "nat \<Rightarrow> u16 \<Rightarrow> pcbtab \<Rightarrow> (errno option \<times> pcbtab) option" where
  "bind_noname i lport tab =
     map_option (\<lambda>(lp, tab1). (None, updpcb i (\<lambda>p. p\<lparr>inp_lport := lp\<rparr>) tab1))
       (if lport = 0 then bind_port (inp_laddr (pcb tab i)) tab else Some (lport, tab))"

definition in_pcbbind :: "incfg \<Rightarrow> nat \<Rightarrow> nam option \<Rightarrow> socket \<Rightarrow> pcbtab \<Rightarrow> (errno option \<times> pcbtab) option" where
  "in_pcbbind cfg i nam so tab =
     (if in_ifaddrs cfg = [] then Some (Some EADDRNOTAVAIL, tab)
      else if inp_lport (pcb tab i) \<noteq> 0 \<or> inp_laddr (pcb tab i) \<noteq> INADDR_ANY then Some (Some EINVAL, tab)
      else case nam of None \<Rightarrow> bind_noname i 0 tab
      | Some (len, sin) \<Rightarrow>
          if len \<noteq> SIZEOF_SIN then Some (Some EINVAL, tab)
          else if sin_addr sin \<noteq> INADDR_ANY \<and> \<not> ifa_ifwithaddr cfg (sin_addr sin) then Some (Some EADDRNOTAVAIL, tab)
          else if sin_port sin \<noteq> 0 \<and> htons (sin_port sin) < IPPORT_RESERVED \<and> \<not> is_suser cfg then Some (Some EACCES, tab)
          else if sin_port sin \<noteq> 0 \<and> in_pcblookup tab INADDR_ANY 0 (sin_addr sin) (sin_port sin)
                 (SO_REUSEADDR \<notin> so_options so \<and> (\<not> conn_required cfg \<or> SO_ACCEPTCONN \<notin> so_options so)) \<noteq> None
          then Some (Some EADDRINUSE, tab)
          else bind_noname i (sin_port sin) (updpcb i (\<lambda>p. p\<lparr>inp_laddr := sin_addr sin\<rparr>) tab))"

text \<open>The destination address \<^verbatim>\<open>in_pcbconnect\<close> uses.\<close>

definition connect_dst :: "incfg \<Rightarrow> u32 \<Rightarrow> u32" where
  "connect_dst cfg a = (case in_ifaddrs cfg of [] \<Rightarrow> a
     | ia # _ \<Rightarrow> if a = INADDR_ANY then ia_addr ia
                else if a = INADDR_BROADCAST \<and> ia_bcast ia then ia_broadaddr ia else a)"

text \<open>The local address of a connection whose socket is not bound to one, with the route found.\<close>

definition connect_src :: "incfg \<Rightarrow> u32 \<Rightarrow> socket \<Rightarrow> inpcb \<Rightarrow> u32 option \<times> inpcb" where
  "connect_src cfg dst so p =
     (let p1 = (if ro_rt p \<noteq> None \<and> (ro_dst p \<noteq> dst \<or> SO_DONTROUTE \<in> so_options so) then p\<lparr>ro_rt := None\<rparr> else p);
          p2 = (if SO_DONTROUTE \<notin> so_options so \<and> (case ro_rt p1 of None \<Rightarrow> True | Some r \<Rightarrow> rt_ifp r = None)
                then p1\<lparr>ro_dst := dst, ro_rt := rtalloc cfg dst\<rparr> else p1);
          ia = (case ro_rt p2 of None \<Rightarrow> None
                | Some r \<Rightarrow> (case rt_ifp r of None \<Rightarrow> None
                    | Some ifp \<Rightarrow> if rt_loopback r then None else find (\<lambda>x. ia_ifp x = ifp) (in_ifaddrs cfg)));
          ia1 = (if ia = None then ifa_ifwithdstaddr cfg dst else ia);
          ia2 = (if ia1 = None then ia_onnetof cfg dst else ia1);
          ia3 = (if ia2 = None then (case in_ifaddrs cfg of [] \<Rightarrow> None | x # _ \<Rightarrow> Some x) else ia2)
      in (map_option ia_addr ia3, p2))"

definition in_pcbconnect :: "incfg \<Rightarrow> nat \<Rightarrow> nam \<Rightarrow> socket \<Rightarrow> pcbtab \<Rightarrow> (errno option \<times> pcbtab) option" where
  "in_pcbconnect cfg i nm so tab = (let (len, sin) = nm in
     if len \<noteq> SIZEOF_SIN then Some (Some EINVAL, tab)
     else if sin_family sin \<noteq> AF_INET then Some (Some EAFNOSUPPORT, tab)
     else if sin_port sin = 0 then Some (Some EADDRNOTAVAIL, tab)
     else let dst = connect_dst cfg (sin_addr sin);
              p = pcb tab i;
              (src, p1) = (if inp_laddr p = INADDR_ANY then connect_src cfg dst so p else (Some (inp_laddr p), p));
              tab1 = updpcb i (\<lambda>_. p1) tab
          in case src of None \<Rightarrow> Some (Some EADDRNOTAVAIL, tab1)
             | Some la \<Rightarrow>
               if in_pcblookup tab1 dst (sin_port sin) la (inp_lport p1) False \<noteq> None
               then Some (Some EADDRINUSE, tab1)
               else map_option (\<lambda>tab2. (None, updpcb i (\<lambda>q. q\<lparr>inp_faddr := dst, inp_fport := sin_port sin\<rparr>) tab2))
                 (if inp_laddr p1 = INADDR_ANY
                  then map_option (\<lambda>tab2. updpcb i (\<lambda>q. q\<lparr>inp_laddr := la\<rparr>) tab2)
                    (if inp_lport p1 = 0 then map_option snd (in_pcbbind cfg i None so tab1) else Some tab1)
                  else Some tab1))"

section \<open>Disconnect, detach, addresses\<close>

definition in_pcbdetach ::
  "(sockbuf \<Rightarrow> sleep) list \<Rightarrow> nat \<Rightarrow> pcbtab \<Rightarrow> sotab \<Rightarrow> mbsys \<Rightarrow> (pcbtab \<times> sotab \<times> mbsys) run" where
  "in_pcbdetach slp i tab t s =
     (let so = inp_socket (pcb tab i) in
      rbind (sofree slp (\<lambda>_ s'. s') so (upd so (\<lambda>x. x\<lparr>so_pcb := None\<rparr>) t) s) (\<lambda>(t1, s1).
      rret (tab\<lparr>pcbq := remove1 i (pcbq tab)\<rparr>, t1,
            (case inp_options (pcb tab i) of [] \<Rightarrow> s1 | m # _ \<Rightarrow> MFREE m s1))))"

definition in_pcbdisconnect ::
  "(sockbuf \<Rightarrow> sleep) list \<Rightarrow> nat \<Rightarrow> pcbtab \<Rightarrow> sotab \<Rightarrow> mbsys \<Rightarrow> (pcbtab \<times> sotab \<times> mbsys) run" where
  "in_pcbdisconnect slp i tab t s =
     (let tab1 = updpcb i (\<lambda>p. p\<lparr>inp_faddr := INADDR_ANY, inp_fport := 0\<rparr>) tab in
      if SS_NOFDREF \<in> so_state (sock t (inp_socket (pcb tab i))) then in_pcbdetach slp i tab1 t s
      else rret (tab1, t, s))"

definition in_setsockaddr :: "inpcb \<Rightarrow> nam" where
  "in_setsockaddr p = (SIZEOF_SIN, \<lparr>sin_family = AF_INET, sin_port = inp_lport p, sin_addr = inp_laddr p\<rparr>)"

definition in_setpeeraddr :: "inpcb \<Rightarrow> nam" where
  "in_setpeeraddr p = (SIZEOF_SIN, \<lparr>sin_family = AF_INET, sin_port = inp_fport p, sin_addr = inp_faddr p\<rparr>)"

section \<open>Notification\<close>

definition PRC_NCMDS :: int where "PRC_NCMDS = 21"
definition PRC_QUENCH :: int where "PRC_QUENCH = 4"
definition PRC_HOSTDEAD :: int where "PRC_HOSTDEAD = 6"
definition PRC_REDIRECT_NET :: int where "PRC_REDIRECT_NET = 14"
definition PRC_REDIRECT_TOSHOST :: int where "PRC_REDIRECT_TOSHOST = 17"

definition PRC_IS_REDIRECT :: "int \<Rightarrow> bool" where
  "PRC_IS_REDIRECT cmd = (cmd \<ge> PRC_REDIRECT_NET \<and> cmd \<le> PRC_REDIRECT_TOSHOST)"

text \<open>The table has \<^verbatim>\<open>PRC_NCMDS\<close> entries.\<close>

definition inetctlerrmap :: "int \<Rightarrow> errno option kres" where
  "inetctlerrmap cmd = (let m = [None, None, None, None,
       None, Some EMSGSIZE, Some EHOSTDOWN, Some EHOSTUNREACH,
       Some EHOSTUNREACH, Some EHOSTUNREACH, Some ECONNREFUSED, Some ECONNREFUSED,
       Some EMSGSIZE, Some EHOSTUNREACH, None, None,
       None, None, None, None,
       Some ENOPROTOOPT] in
     if 0 \<le> cmd \<and> nat cmd < length m then Ret (m ! nat cmd) else Fault)"

definition in_losing :: "nat \<Rightarrow> pcbtab \<Rightarrow> pcbtab" where
  "in_losing i tab = (case ro_rt (pcb tab i) of None \<Rightarrow> tab
     | Some rt \<Rightarrow> (updpcb i (\<lambda>p. p\<lparr>ro_rt := None\<rparr>) tab)
         \<lparr>rt_events := rt_events tab @ RT_LOSING rt # (if rt_dynamic rt then [RT_DELETE rt] else [])\<rparr>)"

definition in_rtchange :: "nat \<Rightarrow> pcbtab \<Rightarrow> pcbtab" where
  "in_rtchange i = updpcb i (\<lambda>p. p\<lparr>ro_rt := None\<rparr>)"

text \<open>\<open>x\<close> is the protocol's state, \<open>tabof\<close> its control blocks; \<open>rtchange\<close> applies \<^verbatim>\<open>in_rtchange\<close> to it.\<close>

definition in_pcbnotify ::
  "('x \<Rightarrow> pcbtab) \<Rightarrow> (nat \<Rightarrow> 'x \<Rightarrow> 'x) \<Rightarrow> bool \<Rightarrow> u32 \<Rightarrow> u16 \<Rightarrow> u32 \<Rightarrow> u16 \<Rightarrow> int \<Rightarrow> (nat \<Rightarrow> errno option \<Rightarrow> 'x \<Rightarrow> 'x kres) \<Rightarrow> 'x \<Rightarrow> 'x kres" where
  "in_pcbnotify tabof rtchange inet faddr fport0 laddr0 lport0 cmd notify0 x =
     (if (of_int cmd :: u32) > of_int PRC_NCMDS \<or> \<not> inet \<or> faddr = INADDR_ANY then Ret x
      else let all = (PRC_IS_REDIRECT cmd \<or> cmd = PRC_HOSTDEAD);
               fport = (if all then 0 else fport0);
               lport = (if all then 0 else lport0);
               laddr = (if all then 0 else laddr0);
               notify = (if all \<and> cmd \<noteq> PRC_HOSTDEAD then (\<lambda>i _ y. Ret (rtchange i y)) else notify0)
           in kbind (inetctlerrmap cmd) (\<lambda>errno. fold (\<lambda>i r. kbind r (\<lambda>y. let p = pcb (tabof y) i in
                  if inp_faddr p \<noteq> faddr \<or> lport \<noteq> 0 \<and> inp_lport p \<noteq> lport
                     \<or> laddr \<noteq> 0 \<and> inp_laddr p \<noteq> laddr \<or> fport \<noteq> 0 \<and> inp_fport p \<noteq> fport
                  then Ret y else notify i errno y)) (pcbq (tabof x)) (Ret x)))"

section \<open>Lookup finds the best match\<close>

definition matches :: "(nat \<Rightarrow> nat option) \<Rightarrow> bool \<Rightarrow> nat \<Rightarrow> nat \<Rightarrow> bool" where
  "matches f wildok i c = (f i = Some c \<and> (c = 0 \<or> wildok))"

text \<open>\<open>i\<close> matches with fewer wildcards than all before it in the list and no more than those after it.\<close>

definition best_match :: "(nat \<Rightarrow> nat option) \<Rightarrow> bool \<Rightarrow> nat list \<Rightarrow> nat \<Rightarrow> nat \<Rightarrow> bool" where
  "best_match f w is i c = (\<exists>a b. is = a @ i # b \<and> matches f w i c
      \<and> (\<forall>j \<in> set a. \<forall>d. matches f w j d \<longrightarrow> c < d) \<and> (\<forall>j \<in> set b. \<forall>d. matches f w j d \<longrightarrow> c \<le> d))"

lemma best_match_hd:
  "matches f w i c \<Longrightarrow> \<forall>j \<in> set is. \<forall>d. matches f w j d \<longrightarrow> c \<le> d \<Longrightarrow> best_match f w (i # is) i c"
  unfolding best_match_def by (rule exI[of _ "[]"]) auto

lemma best_match_Cons:
  assumes "best_match f w is i c" and "\<And>d. matches f w j d \<Longrightarrow> c < d"
  shows "best_match f w (j # is) i c"
proof -
  from assms(1) obtain a b where "is = a @ i # b" "matches f w i c"
      "\<forall>j \<in> set a. \<forall>d. matches f w j d \<longrightarrow> c < d" "\<forall>j \<in> set b. \<forall>d. matches f w j d \<longrightarrow> c \<le> d"
    unfolding best_match_def by blast
  then show ?thesis unfolding best_match_def using assms(2) by (intro exI[of _ "j # a"] exI[of _ b]) auto
qed

lemma lookup_loop_spec:
  "(\<forall>j \<in> set is. \<forall>c. matches f w j c \<longrightarrow> c \<ge> k) \<and> in_pcblookup_loop f w is m k = m \<or>
   (\<exists>i c. in_pcblookup_loop f w is m k = Some i \<and> c < k \<and> best_match f w is i c)"
proof (induction "is" arbitrary: m k)
  case (Cons i "is")
  consider (skip) "\<forall>c. matches f w i c \<longrightarrow> c \<ge> k" | (zero) "matches f w i 0" "0 < k"
    | (better) c where "matches f w i c" "0 < c" "c < k" by (metis linorder_not_less neq0_conv)
  then show ?case
  proof cases
    case skip
    then have eq: "in_pcblookup_loop f w (i # is) m k = in_pcblookup_loop f w is m k"
      by (auto simp: matches_def split: option.splits)
    from Cons[of k m] show ?thesis
    proof (elim disjE exE conjE)
      fix x c assume "in_pcblookup_loop f w is m k = Some x" "c < k" "best_match f w is x c"
      then show ?thesis using skip best_match_Cons[of f w "is" x c i] unfolding eq by fastforce
    qed (use skip eq in simp)
  next
    case zero
    then have "in_pcblookup_loop f w (i # is) m k = Some i" by (simp add: matches_def)
    then show ?thesis using zero best_match_hd[OF zero(1)] by blast
  next
    case better
    then have eq: "in_pcblookup_loop f w (i # is) m k = in_pcblookup_loop f w is (Some i) c"
      by (simp add: matches_def)
    have only: "matches f w i d \<Longrightarrow> d = c" for d using better(1) by (auto simp: matches_def)
    from Cons[of c "Some i"] show ?thesis
    proof (elim disjE exE conjE)
      fix x e assume "in_pcblookup_loop f w is (Some i) c = Some x" "e < c" "best_match f w is x e"
      then show ?thesis using better(3) only best_match_Cons[of f w "is" x e i] unfolding eq by fastforce
    qed (use better best_match_hd[OF better(1)] eq in fastforce)
  qed
qed simp

lemma pcb_wild_le: "pcb_wild fa fp la lp p = Some c \<Longrightarrow> c \<le> 2"
  by (auto simp: pcb_wild_def split: if_splits)

lemma in_pcblookup_spec:
  "case in_pcblookup tab fa fp la lp w of
     None \<Rightarrow> \<forall>j c. j \<in> set (pcbq tab) \<longrightarrow> \<not> matches (\<lambda>i. pcb_wild fa fp la lp (pcb tab i)) w j c
   | Some i \<Rightarrow> \<exists>c. best_match (\<lambda>i. pcb_wild fa fp la lp (pcb tab i)) w (pcbq tab) i c"
proof -
  let ?f = "\<lambda>i. pcb_wild fa fp la lp (pcb tab i)"
  have lt: "matches ?f w j c \<Longrightarrow> \<not> 3 \<le> c" for j c using pcb_wild_le by (fastforce simp: matches_def)
  from lookup_loop_spec[of "pcbq tab" ?f w 3 None] show ?thesis
    unfolding in_pcblookup_def using lt by (elim disjE exE conjE) (simp_all only: option.case, blast+)
qed

text \<open>(C36) \<^verbatim>\<open>in_pcblookup\<close> returns the control block that needs the fewest wildcards, the first such in the queue,
  and nothing exactly when no block matches (with no wildcard at all, unless they are
  allowed).  So a segment goes to the connection it belongs to rather than to a listening socket.\<close>

theorem in_pcblookup_best:
  "case in_pcblookup tab fa fp la lp w of
     None \<Rightarrow> \<forall>j c. j \<in> set (pcbq tab) \<longrightarrow> \<not> matches (\<lambda>i. pcb_wild fa fp la lp (pcb tab i)) w j c
   | Some i \<Rightarrow> \<exists>c. best_match (\<lambda>i. pcb_wild fa fp la lp (pcb tab i)) w (pcbq tab) i c"
  by (rule in_pcblookup_spec)

section \<open>Connections are unique\<close>

text \<open>No two control blocks of the queue that are bound have the same addresses and ports.\<close>

definition same_conn :: "inpcb \<Rightarrow> inpcb \<Rightarrow> bool" where
  "same_conn p q = (inp_faddr p = inp_faddr q \<and> inp_fport p = inp_fport q \<and> inp_laddr p = inp_laddr q
     \<and> inp_lport p = inp_lport q)"

definition unique_conns :: "pcbtab \<Rightarrow> bool" where
  "unique_conns tab = (\<forall>i \<in> set (pcbq tab). \<forall>j \<in> set (pcbq tab).
     i \<noteq> j \<longrightarrow> inp_lport (pcb tab i) \<noteq> 0 \<longrightarrow> \<not> same_conn (pcb tab i) (pcb tab j))"

lemma pcb_wild_exact:
  "inp_lport p = lp \<Longrightarrow> inp_laddr p = la \<Longrightarrow> inp_faddr p = fa \<Longrightarrow> fa = INADDR_ANY \<or> inp_fport p = fp \<Longrightarrow>
     pcb_wild fa fp la lp p = Some 0"
  by (auto simp: pcb_wild_def)

lemma lookup_none_exact:
  assumes "in_pcblookup tab fa fp la lp w = None" and "j \<in> set (pcbq tab)"
  shows "\<not> (inp_lport (pcb tab j) = lp \<and> inp_laddr (pcb tab j) = la \<and> inp_faddr (pcb tab j) = fa
     \<and> (fa = INADDR_ANY \<or> inp_fport (pcb tab j) = fp))"
proof
  let ?f = "\<lambda>i. pcb_wild fa fp la lp (pcb tab i)"
  assume "inp_lport (pcb tab j) = lp \<and> inp_laddr (pcb tab j) = la \<and> inp_faddr (pcb tab j) = fa
     \<and> (fa = INADDR_ANY \<or> inp_fport (pcb tab j) = fp)"
  then have "matches ?f w j 0" using pcb_wild_exact[of "pcb tab j" lp la fa fp] by (simp add: matches_def)
  then show False using lookup_loop_spec[of "pcbq tab" ?f w 3 None] assms unfolding in_pcblookup_def
    by (elim disjE exE conjE) force+
qed

lemma updpcb_simps [simp]:
  "pcbq (updpcb i f tab) = pcbq tab" "pcb (updpcb i f tab) = (pcb tab)(i := f (pcb tab i))"
  "head_lport (updpcb i f tab) = head_lport tab" "nextpcb (updpcb i f tab) = nextpcb tab"
  by (simp_all add: updpcb_def)

lemma unique_conns_upd:
  assumes "unique_conns tab" and "\<And>j. j \<in> set (pcbq tab) \<Longrightarrow> j \<noteq> i \<Longrightarrow> \<not> same_conn (f (pcb tab i)) (pcb tab j)"
  shows "unique_conns (updpcb i f tab)"
  using assms by (fastforce simp: unique_conns_def same_conn_def)

lemma lookup_port [simp]:
  "in_pcblookup (tab\<lparr>head_lport := p\<rparr>) fa fp la lp w = in_pcblookup tab fa fp la lp w"
  by (simp add: in_pcblookup_def)

lemma htons_htons [simp]: "htons (htons w) = w"
  unfolding htons_def by (rule bit_word_eqI) (auto simp: bit_simps)

lemma htons_0 [simp]: "htons 0 = 0"
  by (simp add: htons_def)

lemma htons_eq_0 [simp]: "htons w = 0 \<longleftrightarrow> w = 0"
  by (metis htons_htons htons_0)

text \<open>The port after \<open>p\<close> in the search.\<close>

definition next_port :: "u16 \<Rightarrow> u16" where
  "next_port p = (if p < IPPORT_RESERVED \<or> p + 1 > IPPORT_USERRESERVED then IPPORT_RESERVED else p + 1)"

definition port_free :: "pcbtab \<Rightarrow> u32 \<Rightarrow> u16 \<Rightarrow> bool" where
  "port_free tab la p = (in_pcblookup tab INADDR_ANY 0 la (htons p) False = None)"

lemma bind_port_unfold:
  "bind_port la tab = (let p = next_port (head_lport tab) in
     if port_free tab la p then Some (htons p, tab\<lparr>head_lport := p\<rparr>) else bind_port la (tab\<lparr>head_lport := p\<rparr>))"
  by (subst bind_port.simps) (simp add: Let_def next_port_def port_free_def)

lemma next_port_range:
  "p \<le> IPPORT_USERRESERVED \<Longrightarrow> IPPORT_RESERVED \<le> next_port p \<and> next_port p \<le> IPPORT_USERRESERVED"
  unfolding next_port_def in_consts by (auto simp: word_le_nat_alt word_less_nat_alt unat_word_ariths)

definition port_found :: "u32 \<Rightarrow> pcbtab \<Rightarrow> u16 \<times> pcbtab \<Rightarrow> bool" where
  "port_found la tab r = (\<exists>p. r = (htons p, tab\<lparr>head_lport := p\<rparr>) \<and> IPPORT_RESERVED \<le> p \<and> p \<le> IPPORT_USERRESERVED
     \<and> port_free tab la p)"

lemma bind_port_result:
  assumes "bind_port la tab = Some r" and "head_lport tab \<le> IPPORT_USERRESERVED"
  shows "port_found la tab r"
proof (rule bind_port.raw_induct[of "\<lambda>la tab r. head_lport tab \<le> IPPORT_USERRESERVED \<longrightarrow> port_found la tab r", rule_format])
  fix g :: "u32 \<Rightarrow> pcbtab \<Rightarrow> (u16 \<times> pcbtab) option" and la tab r
  assume IH: "\<And>la tab r. g la tab = Some r \<Longrightarrow> head_lport tab \<le> IPPORT_USERRESERVED \<Longrightarrow> port_found la tab r"
    and h: "head_lport tab \<le> IPPORT_USERRESERVED"
    and r: "(let p = head_lport tab;
          p1 = (if p < IPPORT_RESERVED \<or> p + 1 > IPPORT_USERRESERVED then IPPORT_RESERVED else p + 1);
          tab1 = tab\<lparr>head_lport := p1\<rparr>
      in if in_pcblookup tab1 INADDR_ANY 0 la (htons p1) False \<noteq> None then g la tab1
         else Some (htons p1, tab1)) = Some r"
  let ?p = "next_port (head_lport tab)"
  have eq: "(if port_free tab la ?p then Some (htons ?p, tab\<lparr>head_lport := ?p\<rparr>) else g la (tab\<lparr>head_lport := ?p\<rparr>)) = Some r"
    using r by (auto simp: Let_def next_port_def port_free_def split: if_splits)
  show "port_found la tab r"
  proof (cases "port_free tab la ?p")
    case True
    then show ?thesis using eq next_port_range[OF h] by (auto simp: port_found_def)
  next
    case False
    then have "port_found la (tab\<lparr>head_lport := ?p\<rparr>) r" using eq IH next_port_range[OF h] by simp
    then show ?thesis by (auto simp: port_found_def port_free_def)
  qed
qed (use assms in simp_all)

lemma bind_port_reaches:
  "port_free tab la ((next_port ^^ Suc d) (head_lport tab)) \<Longrightarrow> \<exists>r. bind_port la tab = Some r"
proof (induction d arbitrary: tab)
  case (Suc d)
  show ?case
  proof (cases "port_free tab la (next_port (head_lport tab))")
    case False
    have "port_free (tab\<lparr>head_lport := next_port (head_lport tab)\<rparr>) la ((next_port ^^ Suc d) (next_port (head_lport tab)))"
      using Suc(2) by (simp add: port_free_def funpow_swap1)
    then have "\<exists>r. bind_port la (tab\<lparr>head_lport := next_port (head_lport tab)\<rparr>) = Some r"
      by (intro Suc(1)) simp
    then show ?thesis using False by (subst bind_port_unfold) (simp add: Let_def)
  qed (subst bind_port_unfold, simp add: Let_def)
qed (subst bind_port_unfold, simp add: Let_def)

lemma next_port_up:
  "1024 \<le> n \<Longrightarrow> n + k \<le> 5000 \<Longrightarrow> (next_port ^^ k) (of_nat n) = of_nat (n + k)"
proof (induction k)
  case (Suc k)
  have "(of_nat (n + k) :: u16) \<ge> IPPORT_RESERVED" "(of_nat (n + k) :: u16) + 1 \<le> IPPORT_USERRESERVED"
    using Suc(2,3) by (auto simp: in_consts word_le_nat_alt unat_word_ariths unat_of_nat)
  then have "next_port (of_nat (n + k)) = of_nat (n + k) + 1" by (simp add: next_port_def not_less[symmetric])
  moreover have "(next_port ^^ k) (of_nat n) = of_nat (n + k)" using Suc by simp
  ultimately show ?case by simp
qed simp

lemma next_port_reaches:
  assumes "h \<le> IPPORT_USERRESERVED" and "IPPORT_RESERVED \<le> p" and "p \<le> IPPORT_USERRESERVED"
  shows "\<exists>d. (next_port ^^ Suc d) h = p"
proof -
  have b: "unat h \<le> 5000" "1024 \<le> unat p" "unat p \<le> 5000" using assms by (simp_all add: in_consts word_le_nat_alt)
  have up: "(next_port ^^ (unat p - 1024)) 1024 = p" using next_port_up[of 1024 "unat p - 1024"] b by simp
  show ?thesis
  proof (cases "h < IPPORT_RESERVED")
    case True
    then have "next_port h = 1024" by (simp add: next_port_def in_consts)
    then have "(next_port ^^ Suc (unat p - 1024)) h = p" using up by (simp add: funpow_swap1)
    then show ?thesis by blast
  next
    case False
    then have "1024 \<le> unat h" by (simp add: in_consts word_le_nat_alt not_less)
    then have "(next_port ^^ (5000 - unat h)) h = 5000" using next_port_up[of "unat h" "5000 - unat h"] b(1) by simp
    moreover have "next_port 5000 = 1024" by (simp add: next_port_def in_consts)
    ultimately have "(next_port ^^ ((unat p - 1024) + Suc (5000 - unat h))) h = p"
      using up by (simp only: funpow_add comp_apply funpow.simps)
    then show ?thesis by (metis add_Suc_right)
  qed
qed


lemma bind_noname_unique:
  assumes "unique_conns tab" and "inp_faddr (pcb tab i) = INADDR_ANY" and "head_lport tab \<le> IPPORT_USERRESERVED"
    and "bind_noname i lp tab = Some (e, tab')"
    and "lp \<noteq> 0 \<Longrightarrow> \<forall>j \<in> set (pcbq tab). j \<noteq> i \<longrightarrow> \<not> (inp_lport (pcb tab j) = lp \<and> inp_laddr (pcb tab j) = inp_laddr (pcb tab i)
        \<and> inp_faddr (pcb tab j) = INADDR_ANY)"
  shows "unique_conns tab' \<and> inp_lport (pcb tab' i) \<noteq> 0 \<and> head_lport tab' \<le> IPPORT_USERRESERVED"
proof (cases "lp = 0")
  case False
  then have "tab' = updpcb i (\<lambda>p. p\<lparr>inp_lport := lp\<rparr>) tab" using assms(4) by (simp add: bind_noname_def)
  then show ?thesis using assms(1-3) assms(5)[OF False] False
    by (auto intro!: unique_conns_upd simp: same_conn_def)
next
  case True
  then obtain r where r: "bind_port (inp_laddr (pcb tab i)) tab = Some r"
      "tab' = updpcb i (\<lambda>p. p\<lparr>inp_lport := fst r\<rparr>) (snd r)"
    using assms(4) by (auto simp: bind_noname_def split: prod.splits)
  from bind_port_result[OF r(1) assms(3)] obtain p where
    p: "r = (htons p, tab\<lparr>head_lport := p\<rparr>)" "IPPORT_RESERVED \<le> p" "p \<le> IPPORT_USERRESERVED"
      "port_free tab (inp_laddr (pcb tab i)) p" by (auto simp: port_found_def)
  have "unique_conns (tab\<lparr>head_lport := p\<rparr>)" using assms(1) by (simp add: unique_conns_def)
  then have "unique_conns tab'" unfolding r(2) p(1) fst_conv snd_conv
    by (rule unique_conns_upd)
      (use p(4) lookup_none_exact[of tab INADDR_ANY 0 "inp_laddr (pcb tab i)" "htons p" False] assms(2)
       in \<open>fastforce simp: port_free_def same_conn_def\<close>)
  moreover have "p \<noteq> 0" using p(2) by (auto simp: in_consts)
  ultimately show ?thesis using p r(2) by simp
qed

text \<open>(C38) \<^verbatim>\<open>in_pcbbind\<close> never makes two control blocks of a protocol alike: whatever the socket options allow, the
  block it binds gets a port, and differs from every other bound block in an address or a port; on an
  error nothing changes.\<close>

theorem in_pcbbind_unique:
  assumes "unique_conns tab" and "inp_faddr (pcb tab i) = INADDR_ANY" and "head_lport tab \<le> IPPORT_USERRESERVED"
    and "in_pcbbind cfg i nam so tab = Some (e, tab')"
  shows "unique_conns tab' \<and> head_lport tab' \<le> IPPORT_USERRESERVED
    \<and> (if e = None then inp_lport (pcb tab' i) \<noteq> 0 else tab' = tab)"
proof (cases "e = None")
  case False
  then have "tab' = tab" using assms(4)
    by (auto simp: in_pcbbind_def bind_noname_def split: if_splits option.splits prod.splits)
  then show ?thesis using assms(1,3) False by auto
next
  case True
  show ?thesis
  proof (cases nam)
    case None
    then have "bind_noname i 0 tab = Some (e, tab')" using assms(4) True
      by (simp add: in_pcbbind_def split: if_splits)
    from bind_noname_unique[OF assms(1-3) this] show ?thesis using True by simp
  next
    case (Some n)
    then obtain len sin where n: "nam = Some (len, sin)" by (cases n) auto
    define tab1 where "tab1 = updpcb i (\<lambda>p. p\<lparr>inp_laddr := sin_addr sin\<rparr>) tab"
    have b: "bind_noname i (sin_port sin) tab1 = Some (e, tab')" and l0: "inp_lport (pcb tab i) = 0"
        and lk: "sin_port sin \<noteq> 0 \<Longrightarrow> \<exists>w. in_pcblookup tab INADDR_ANY 0 (sin_addr sin) (sin_port sin) w = None"
      using assms(4) True unfolding n in_pcbbind_def tab1_def by (auto split: if_splits)
    have u: "unique_conns tab1" using assms(1) l0 unfolding tab1_def unique_conns_def same_conn_def by auto
    have "\<forall>j \<in> set (pcbq tab1). j \<noteq> i \<longrightarrow> \<not> (inp_lport (pcb tab1 j) = sin_port sin \<and>
        inp_laddr (pcb tab1 j) = inp_laddr (pcb tab1 i) \<and> inp_faddr (pcb tab1 j) = INADDR_ANY)" if "sin_port sin \<noteq> 0"
      using lk[OF that] lookup_none_exact unfolding tab1_def by fastforce
    from bind_noname_unique[OF u _ _ b this] assms(2,3) show ?thesis using True by (simp add: tab1_def)
  qed
qed

lemma connect_src_same:
  assumes "connect_src cfg dst so p = (la, p1)"
  shows "inp_faddr p1 = inp_faddr p" and "inp_fport p1 = inp_fport p" and "inp_laddr p1 = inp_laddr p"
    and "inp_lport p1 = inp_lport p" and "inp_socket p1 = inp_socket p"
  using assms by (auto simp: connect_src_def Let_def)

text \<open>(C39) \<^verbatim>\<open>in_pcbconnect\<close> on a socket that has its local port (as \<^verbatim>\<open>tcp_usrreq\<close> sees to) keeps the connections of the
  protocol unique: it succeeds only if no other block has the same pair of addresses and ports, and then
  records the destination; on an error the addresses stay as they were.\<close>

theorem in_pcbconnect_unique:
  assumes "unique_conns tab" and "inp_lport (pcb tab i) \<noteq> 0" and "i \<in> set (pcbq tab)" and "in_pcbconnect cfg i (len, sin) so tab = Some (e, tab')"
  shows "unique_conns tab' \<and> (if e = None then inp_faddr (pcb tab' i) = connect_dst cfg (sin_addr sin)
      \<and> inp_fport (pcb tab' i) = sin_port sin else same_conn (pcb tab i) (pcb tab' i))"
proof -
  let ?p = "pcb tab i" and ?dst = "connect_dst cfg (sin_addr sin)"
  obtain src p1 where s1: "(if inp_laddr ?p = INADDR_ANY then connect_src cfg ?dst so ?p else (Some (inp_laddr ?p), ?p)) = (src, p1)"
    by fastforce
  have p1: "same_conn ?p p1" using s1 connect_src_same[of cfg ?dst so ?p src p1] by (auto simp: same_conn_def split: if_splits)
  define tab1 where "tab1 = updpcb i (\<lambda>_. p1) tab"
  have "\<not> same_conn p1 (pcb tab j)" if "j \<in> set (pcbq tab)" "j \<noteq> i" for j
  proof -
    have "\<not> same_conn (pcb tab i) (pcb tab j)" 
      by (rule assms(1)[unfolded unique_conns_def, rule_format]) (use assms(2,3) that in auto)
    then show ?thesis using p1 by (simp add: same_conn_def)
  qed
  then have u1: "unique_conns tab1" unfolding tab1_def by (intro unique_conns_upd[OF assms(1)])
  have eq: "in_pcbconnect cfg i (len, sin) so tab =
     (if len \<noteq> SIZEOF_SIN then Some (Some EINVAL, tab) else if sin_family sin \<noteq> AF_INET then Some (Some EAFNOSUPPORT, tab)
      else if sin_port sin = 0 then Some (Some EADDRNOTAVAIL, tab)
      else case src of None \<Rightarrow> Some (Some EADDRNOTAVAIL, tab1)
         | Some la \<Rightarrow> if in_pcblookup tab1 ?dst (sin_port sin) la (inp_lport p1) False \<noteq> None then Some (Some EADDRINUSE, tab1)
             else Some (None, updpcb i (\<lambda>q. q\<lparr>inp_faddr := ?dst, inp_fport := sin_port sin\<rparr>)
                 (if inp_laddr p1 = INADDR_ANY then updpcb i (\<lambda>q. q\<lparr>inp_laddr := la\<rparr>) tab1 else tab1)))"
    unfolding in_pcbconnect_def Let_def prod.case s1 tab1_def[symmetric] using p1 assms(2)
    by (auto simp: same_conn_def split: option.splits)
  show ?thesis
  proof (cases "e = None")
    case False
    then have "tab' = tab \<or> tab' = tab1" using assms(4) unfolding eq by (auto split: if_splits option.splits)
    then show ?thesis using False u1 assms(1) p1 by (auto simp: tab1_def same_conn_def)
  next
    case True
    then obtain la where la: "src = Some la" "in_pcblookup tab1 ?dst (sin_port sin) la (inp_lport p1) False = None"
        "tab' = updpcb i (\<lambda>q. q\<lparr>inp_faddr := ?dst, inp_fport := sin_port sin\<rparr>)
           (if inp_laddr p1 = INADDR_ANY then updpcb i (\<lambda>q. q\<lparr>inp_laddr := la\<rparr>) tab1 else tab1)"
      using assms(4) unfolding eq by (auto split: if_splits option.splits)
    have lp: "inp_laddr p1 \<noteq> INADDR_ANY \<Longrightarrow> la = inp_laddr p1" using s1 la(1) p1 by (auto simp: same_conn_def split: if_splits)
    have t': "tab' = updpcb i (\<lambda>q. q\<lparr>inp_laddr := la, inp_faddr := ?dst, inp_fport := sin_port sin\<rparr>) tab1"
      unfolding la(3) using lp by (auto simp: updpcb_def tab1_def)
    have "unique_conns tab'" unfolding t'
      by (rule unique_conns_upd[OF u1]) (use lookup_none_exact[OF la(2)] in \<open>fastforce simp: same_conn_def tab1_def\<close>)
    then show ?thesis using True by (simp add: t')
  qed
qed

text \<open>Two control blocks: block 0 is the connection of local address 1, port 1025 with port 80 of address 9; block 1
  is new.\<close>

definition ex_pcbs :: pcbtab where
  "ex_pcbs = \<lparr>pcb = (\<lambda>_. zero_pcb)(0 := zero_pcb\<lparr>inp_faddr := 9, inp_fport := htons 80, inp_laddr := 1, inp_lport := htons 1025\<rparr>,
     1 := zero_pcb\<lparr>inp_socket := 1\<rparr>), pcbq = [1, 0], head_lport = 1024, nextpcb = 2, rt_events = []\<rparr>"

definition ex_ia :: in_ifaddr where
  "ex_ia = \<lparr>ia_addr = 1, ia_broadaddr = 0, ia_ifp = 0, ia_bcast = False\<rparr>"

definition ex_incfg :: incfg where
  "ex_incfg = \<lparr>in_ifaddrs = [ex_ia], ifa_ifwithaddr = (\<lambda>a. a = 1), ifa_ifwithdstaddr = (\<lambda>_. None),
     ia_onnetof = (\<lambda>_. None), rtalloc = (\<lambda>_. None), is_suser = False, conn_required = True\<rparr>"

definition ex_sin :: "u16 \<Rightarrow> u32 \<Rightarrow> sockaddr_in" where
  "ex_sin p a = \<lparr>sin_family = AF_INET, sin_port = htons p, sin_addr = a\<rparr>"

lemmas ex_pcb_simps = ex_pcbs_def zero_pcb_def ex_ia_def ex_incfg_def ex_sin_def in_consts in_pcblookup_def
  pcb_wild_def unique_conns_def same_conn_def htons_def

theorem in_pcblookup_best_witness:
  "in_pcblookup ex_pcbs 9 (htons 80) 1 (htons 1025) True = Some 0
     \<and> (\<exists>c. best_match (\<lambda>i. pcb_wild 9 (htons 80) 1 (htons 1025) (pcb ex_pcbs i)) True (pcbq ex_pcbs) 0 c)"
proof -
  have "in_pcblookup ex_pcbs 9 (htons 80) 1 (htons 1025) True = Some 0" by (simp add: ex_pcb_simps)
  with in_pcblookup_best[of ex_pcbs 9 "htons 80" 1 "htons 1025" True] show ?thesis by simp
qed

theorem in_pcbbind_unique_witness:
  "\<exists>tab'. in_pcbbind ex_incfg 1 (Some (SIZEOF_SIN, ex_sin 1026 1)) (ex_so None None None 0 0) ex_pcbs = Some (None, tab')
     \<and> unique_conns tab' \<and> inp_lport (pcb tab' 1) \<noteq> 0"
proof -
  let ?so = "ex_so None None None 0 0"
  obtain tab' where b: "in_pcbbind ex_incfg 1 (Some (SIZEOF_SIN, ex_sin 1026 1)) ?so ex_pcbs = Some (None, tab')"
    by (simp add: in_pcbbind_def bind_noname_def ex_pcb_simps)
  have "unique_conns ex_pcbs" "inp_faddr (pcb ex_pcbs 1) = INADDR_ANY" "head_lport ex_pcbs \<le> IPPORT_USERRESERVED"
    by (simp_all add: ex_pcb_simps)
  from in_pcbbind_unique[OF this b] b show ?thesis by auto
qed

theorem in_pcbconnect_unique_witness:
  "in_pcbconnect ex_incfg 0 (SIZEOF_SIN, ex_sin 80 7) (ex_so None None None 0 0) ex_pcbs
     = Some (None, updpcb 0 (\<lambda>q. q\<lparr>inp_faddr := 7, inp_fport := htons 80\<rparr>) ex_pcbs)
   \<and> unique_conns (updpcb 0 (\<lambda>q. q\<lparr>inp_faddr := 7, inp_fport := htons 80\<rparr>) ex_pcbs)"
proof -
  have c: "in_pcbconnect ex_incfg 0 (SIZEOF_SIN, ex_sin 80 7) (ex_so None None None 0 0) ex_pcbs
     = Some (None, updpcb 0 (\<lambda>q. q\<lparr>inp_faddr := 7, inp_fport := htons 80\<rparr>) ex_pcbs)"
    by (simp add: in_pcbconnect_def connect_dst_def ex_pcb_simps, simp add: updpcb_def)
  have "unique_conns ex_pcbs" "inp_lport (pcb ex_pcbs 0) \<noteq> 0" "0 \<in> set (pcbq ex_pcbs)" by (simp_all add: ex_pcb_simps)
  from conjunct1[OF in_pcbconnect_unique[OF this c]] c show ?thesis by blast
qed



text \<open>The error table has \<^verbatim>\<open>PRC_NCMDS\<close> entries, but the guard of \<^verbatim>\<open>in_pcbnotify\<close> lets the command \<^verbatim>\<open>PRC_NCMDS\<close> itself
  through: that command, and no other, reads beyond the end of the table.\<close>

theorem in_pcbnotify_overrun:
  assumes "- (2 ^ 31) \<le> cmd" and "cmd < 2 ^ 31" and "faddr \<noteq> INADDR_ANY"
    and notify: "\<And>i e y. notify i e y \<noteq> Fault"
  shows "in_pcbnotify tabof rtchange True faddr fport laddr lport cmd notify x = Fault \<longleftrightarrow> cmd = PRC_NCMDS"
proof -
  have "(of_int cmd :: u32) > of_int PRC_NCMDS \<longleftrightarrow> cmd < 0 \<or> cmd > PRC_NCMDS"
  proof (cases "cmd < 0")
    case True
    have "uint (of_int cmd :: u32) = cmd mod 2 ^ 32" by (simp add: uint_word_of_int take_bit_eq_mod)
    also have "\<dots> = cmd + 2 ^ 32" using assms(1) True by (intro int_mod_pos_eq[of _ _ "-1"]) auto
    finally have "uint (of_int cmd :: u32) = cmd + 2 ^ 32" .
    then show ?thesis using True assms(1) by (simp add: word_less_def PRC_NCMDS_def)
  qed (use assms(2) in \<open>auto simp: word_less_def uint_of_int_u32 PRC_NCMDS_def\<close>)
  moreover have "kbind (inetctlerrmap cmd) f = Fault \<longleftrightarrow> \<not> (0 \<le> cmd \<and> cmd < PRC_NCMDS)"
    if "\<And>e. f e \<noteq> Fault" for f :: "errno option \<Rightarrow> 'a kres"
    using that by (auto simp: inetctlerrmap_def PRC_NCMDS_def Let_def)
  moreover have "fold (\<lambda>i r. kbind r (h i)) is r \<noteq> Fault" if "\<And>i y. h i y \<noteq> Fault" "r \<noteq> Fault"
    for h :: "nat \<Rightarrow> 'a \<Rightarrow> 'a kres" and "is" r
    using that by (induction "is" arbitrary: r) (auto simp: kbind_Fault_iff)
  ultimately show ?thesis using assms(3) notify
    by (auto simp: in_pcbnotify_def Let_def PRC_NCMDS_def)
qed

theorem in_pcbnotify_overrun_witness:
  "in_pcbnotify id in_rtchange True 9 0 0 0 21 (\<lambda>_ _ y. Ret y) ex_pcbs = Fault"
  using in_pcbnotify_overrun[of 21 9 "\<lambda>_ _ y. Ret y" id in_rtchange 0 0 0 ex_pcbs] by (simp add: in_consts PRC_NCMDS_def)

end
