(* ===== verification/Tcp_Defs.thy ===== *)
theory Tcp_Defs
  imports In_Pcb
begin

text \<open>
  The TCP control block and the small operations on it: sequence number comparison
  (\<^verbatim>\<open>sys/netinet/tcp_seq.h\<close>), connection states (\<^verbatim>\<open>tcp_fsm.h\<close>), timers (\<^verbatim>\<open>tcp_timer.h\<close>), \<^verbatim>\<open>struct tcpcb\<close>
  and the statistics (\<^verbatim>\<open>tcp_var.h\<close>).  Sequence numbers are 32-bit words, the \<^verbatim>\<open>u_short\<close> fields
  16-bit words, \<^verbatim>\<open>short\<close> fields integers to which every assignment goes through \<open>to_short\<close>.  The state
  \<open>tcp\<close> holds one connection (control block, socket, route) with the kernel state its handlers
  touch.\<close>

section \<open>Sequence numbers\<close>

definition SEQ_LT :: "u32 \<Rightarrow> u32 \<Rightarrow> bool" where
  "SEQ_LT a b = (sint (a - b) < 0)"

definition SEQ_LEQ :: "u32 \<Rightarrow> u32 \<Rightarrow> bool" where
  "SEQ_LEQ a b = (sint (a - b) \<le> 0)"

definition SEQ_GT :: "u32 \<Rightarrow> u32 \<Rightarrow> bool" where
  "SEQ_GT a b = (sint (a - b) > 0)"

definition SEQ_GEQ :: "u32 \<Rightarrow> u32 \<Rightarrow> bool" where
  "SEQ_GEQ a b = (sint (a - b) \<ge> 0)"

definition TCP_ISSINCR :: int where
  "TCP_ISSINCR = 125 * 1024"

section \<open>Connection states\<close>

datatype tcp_state =
    TCPS_CLOSED | TCPS_LISTEN | TCPS_SYN_SENT | TCPS_SYN_RECEIVED | TCPS_ESTABLISHED
  | TCPS_CLOSE_WAIT | TCPS_FIN_WAIT_1 | TCPS_CLOSING | TCPS_LAST_ACK | TCPS_FIN_WAIT_2 | TCPS_TIME_WAIT

primrec state_num :: "tcp_state \<Rightarrow> nat" where
  "state_num TCPS_CLOSED = 0"
| "state_num TCPS_LISTEN = 1"
| "state_num TCPS_SYN_SENT = 2"
| "state_num TCPS_SYN_RECEIVED = 3"
| "state_num TCPS_ESTABLISHED = 4"
| "state_num TCPS_CLOSE_WAIT = 5"
| "state_num TCPS_FIN_WAIT_1 = 6"
| "state_num TCPS_CLOSING = 7"
| "state_num TCPS_LAST_ACK = 8"
| "state_num TCPS_FIN_WAIT_2 = 9"
| "state_num TCPS_TIME_WAIT = 10"

lemma state_num_inj: "state_num a = state_num b \<Longrightarrow> a = b"
  by (cases a; cases b) simp_all

instantiation tcp_state :: linorder
begin

definition less_eq_tcp_state :: "tcp_state \<Rightarrow> tcp_state \<Rightarrow> bool" where
  "less_eq_tcp_state a b = (state_num a \<le> state_num b)"

definition less_tcp_state :: "tcp_state \<Rightarrow> tcp_state \<Rightarrow> bool" where
  "less_tcp_state a b = (state_num a < state_num b)"

instance
  by standard (auto simp: less_eq_tcp_state_def less_tcp_state_def dest: state_num_inj)

end

lemmas state_ord = less_eq_tcp_state_def less_tcp_state_def

definition TCPS_HAVERCVDSYN :: "tcp_state \<Rightarrow> bool" where
  "TCPS_HAVERCVDSYN s = (s \<ge> TCPS_SYN_RECEIVED)"

definition TCPS_HAVERCVDFIN :: "tcp_state \<Rightarrow> bool" where
  "TCPS_HAVERCVDFIN s = (s \<ge> TCPS_TIME_WAIT)"

datatype th_flag = TH_FIN | TH_SYN | TH_RST | TH_PUSH | TH_ACK | TH_URG

primrec tcp_outflags :: "tcp_state \<Rightarrow> th_flag set" where
  "tcp_outflags TCPS_CLOSED = {TH_RST, TH_ACK}"
| "tcp_outflags TCPS_LISTEN = {}"
| "tcp_outflags TCPS_SYN_SENT = {TH_SYN}"
| "tcp_outflags TCPS_SYN_RECEIVED = {TH_SYN, TH_ACK}"
| "tcp_outflags TCPS_ESTABLISHED = {TH_ACK}"
| "tcp_outflags TCPS_CLOSE_WAIT = {TH_ACK}"
| "tcp_outflags TCPS_FIN_WAIT_1 = {TH_FIN, TH_ACK}"
| "tcp_outflags TCPS_CLOSING = {TH_FIN, TH_ACK}"
| "tcp_outflags TCPS_LAST_ACK = {TH_FIN, TH_ACK}"
| "tcp_outflags TCPS_FIN_WAIT_2 = {TH_ACK}"
| "tcp_outflags TCPS_TIME_WAIT = {TH_ACK}"

section \<open>Constants\<close>

definition PR_SLOWHZ :: int where "PR_SLOWHZ = 2"
definition TCPTV_MSL :: int where "TCPTV_MSL = 30 * PR_SLOWHZ"
definition TCPTV_SRTTDFLT :: int where "TCPTV_SRTTDFLT = 3 * PR_SLOWHZ"
definition TCPTV_PERSMIN :: int where "TCPTV_PERSMIN = 5 * PR_SLOWHZ"
definition TCPTV_PERSMAX :: int where "TCPTV_PERSMAX = 60 * PR_SLOWHZ"
definition TCPTV_KEEP_INIT :: int where "TCPTV_KEEP_INIT = 75 * PR_SLOWHZ"
definition TCPTV_KEEPCNT :: int where "TCPTV_KEEPCNT = 8"
definition TCPTV_MIN :: int where "TCPTV_MIN = 1 * PR_SLOWHZ"
definition TCPTV_REXMTMAX :: int where "TCPTV_REXMTMAX = 64 * PR_SLOWHZ"
definition TCP_MAXRXTSHIFT :: int where "TCP_MAXRXTSHIFT = 12"
definition TCP_LINGERTIME :: int where "TCP_LINGERTIME = 120"
definition TCP_MAXWIN :: int where "TCP_MAXWIN = 65535"
definition SB_MAX :: int where "SB_MAX = 64 * 1024"
definition RTM_RTTUNIT :: int where "RTM_RTTUNIT = 1000000"
definition TCPIPHDR :: int where "TCPIPHDR = 40"

lemmas tcp_consts = PR_SLOWHZ_def TCPTV_MSL_def TCPTV_SRTTDFLT_def TCPTV_PERSMIN_def TCPTV_PERSMAX_def
  TCPTV_KEEP_INIT_def TCPTV_KEEPCNT_def TCPTV_MIN_def TCPTV_REXMTMAX_def TCP_MAXRXTSHIFT_def
  TCP_LINGERTIME_def TCP_MAXWIN_def SB_MAX_def RTM_RTTUNIT_def TCPIPHDR_def TCP_ISSINCR_def

definition tcp_backoff :: "int \<Rightarrow> int" where
  "tcp_backoff i = [1, 2, 4, 8, 16, 32, 64, 64, 64, 64, 64, 64, 64] ! nat i"

section \<open>C conversions\<close>

definition to_short :: "int \<Rightarrow> int" where
  "to_short v = sint (of_int v :: u16)"

text \<open>\<^verbatim>\<open>min\<close> and \<^verbatim>\<open>max\<close> of the kernel take and return \<^verbatim>\<open>unsigned\<close>.\<close>

definition u_min :: "int \<Rightarrow> int \<Rightarrow> int" where
  "u_min a b = (if (of_int a :: u32) < of_int b then uint (of_int a :: u32) else uint (of_int b :: u32))"

definition u_max :: "int \<Rightarrow> int \<Rightarrow> int" where
  "u_max a b = (if (of_int a :: u32) > of_int b then uint (of_int a :: u32) else uint (of_int b :: u32))"

lemma to_short_id: "- (2 ^ 15) \<le> v \<Longrightarrow> v < 2 ^ 15 \<Longrightarrow> to_short v = v"
  by (simp add: to_short_def sint_sbintrunc' signed_take_bit_int_eq_self)

lemma u_min_nonneg: "0 \<le> a \<Longrightarrow> 0 \<le> b \<Longrightarrow> a < 2 ^ 32 \<Longrightarrow> b < 2 ^ 32 \<Longrightarrow> u_min a b = min a b"
  by (auto simp: u_min_def word_less_def uint_of_int_u32 min_def)

lemma u_max_nonneg: "0 \<le> a \<Longrightarrow> 0 \<le> b \<Longrightarrow> a < 2 ^ 32 \<Longrightarrow> b < 2 ^ 32 \<Longrightarrow> u_max a b = max a b"
  by (auto simp: u_max_def word_less_def uint_of_int_u32 max_def)

text \<open>\<^verbatim>\<open>TCPT_RANGESET\<close>: the value is stored in the \<^verbatim>\<open>short\<close> first and brought into range there.\<close>

definition TCPT_RANGESET :: "int \<Rightarrow> int \<Rightarrow> int \<Rightarrow> int" where
  "TCPT_RANGESET value tvmin tvmax = (let tv = to_short value in
     if tv < tvmin then to_short tvmin else if tv > tvmax then to_short tvmax else tv)"

section \<open>The control block\<close>

datatype tcpt = TCPT_REXMT | TCPT_PERSIST | TCPT_KEEP | TCPT_2MSL

datatype tf_flag = TF_ACKNOW | TF_DELACK | TF_NODELAY | TF_NOOPT | TF_SENTFIN

text \<open>A queued segment: \<^verbatim>\<open>struct tcpiphdr\<close> after conversion to host order, with its data
  (\<^verbatim>\<open>REASS_MBUF\<close>).\<close>

record tseg =
  ti_seq :: u32
  ti_ack :: u32
  ti_len :: int
  ti_flags :: "th_flag set"
  ti_win :: u16
  ti_urp :: u16
  ti_m :: chain

record tcpcb =
  seg_q :: "tseg list"
  t_state :: tcp_state
  t_timer :: "tcpt \<Rightarrow> int"
  t_rxtshift :: int
  t_rxtcur :: int
  t_dupacks :: int
  t_maxseg :: u16
  t_force :: bool
  t_flags :: "tf_flag set"
  t_template :: bool
  snd_una :: u32
  snd_nxt :: u32
  snd_up :: u32
  snd_wl1 :: u32
  snd_wl2 :: u32
  iss :: u32
  snd_wnd :: u16
  rcv_wnd :: u16
  rcv_nxt :: u32
  rcv_up :: u32
  irs :: u32
  rcv_adv :: u32
  snd_max :: u32
  snd_cwnd :: u16
  snd_ssthresh :: u16
  t_idle :: int
  t_rtt :: int
  t_rtseq :: u32
  t_srtt :: int
  t_rttvar :: int
  t_rttmin :: u16
  max_sndwnd :: u16
  TCPOOB_HAVEDATA :: bool
  TCPOOB_HADDATA :: bool
  t_iobc :: byte
  t_softerror :: "errno option"

datatype tstat =
    connattempt | accepts | connects | drops | conndrops | closed_conns | segstimed | rttupdated
  | delack | timeoutdrop | rexmttimeo | persisttimeo | keeptimeo | keepprobe | keepdrops
  | sndtotal | sndpack | sndbyte | sndrexmitpack | sndrexmitbyte | sndacks | sndprobe | sndurg
  | sndwinup | sndctrl | rcvtotal | rcvpack | rcvbyte | rcvbadsum | rcvbadoff | rcvshort
  | rcvduppack | rcvdupbyte | rcvpartduppack | rcvpartdupbyte | rcvoopack | rcvoobyte
  | rcvpackafterwin | rcvbyteafterwin | rcvafterclose | rcvwinprobe | rcvdupack | rcvacktoomuch
  | rcvackpack | rcvackbyte | rcvwinupd | predack | preddat

text \<open>A segment handed to \<^verbatim>\<open>ip_output\<close>.\<close>

record tout =
  o_seq :: u32
  o_ack :: u32
  o_flags :: "th_flag set"
  o_win :: u16
  o_urp :: u16
  o_mss :: "int option"
  o_data :: "byte list"

text \<open>TCP as one of its handlers sees it: the control block \<open>tp\<close> of the connection at hand, which is control block
  \<open>inp_id\<close> of the table \<open>tab\<close> (\<^verbatim>\<open>tcb\<close>), and the shared state: the TCP control blocks of the other
  connections (\<open>tcbs\<close>), sockets, mbufs, \<^verbatim>\<open>tcp_iss\<close> and the statistics.  \<open>sent\<close> are the segments handed to
  \<^verbatim>\<open>ip_output\<close>, \<open>ip_answers\<close> the results of its coming calls (success when used up), \<open>so_mallocs\<close> what
  \<^verbatim>\<open>MALLOC\<close> gives the coming new sockets; \<open>tcp_last_inpcb\<close> is the control block of the last segment (\<open>None\<close>: \<^verbatim>\<open>&tcb\<close>).\<close>

record tcp =
  tp :: tcpcb
  inp_id :: nat
  tab :: pcbtab
  tcbs :: "nat \<Rightarrow> tcpcb"
  stab :: sotab
  mbs :: mbsys
  tcp_iss :: u32
  tcpstat :: "tstat \<Rightarrow> u32"
  sent :: "tout list"
  ip_answers :: "errno option list"
  so_mallocs :: "nat option list"
  tcp_last_inpcb :: "nat option"

text \<open>Configuration and patchable variables: \<^verbatim>\<open>TCP_COMPAT_42\<close>, the keepalive times, \<^verbatim>\<open>max_linkhdr\<close>, default
  segment size and round trip time, \<^verbatim>\<open>tcp_sendspace\<close> and \<^verbatim>\<open>tcp_recvspace\<close>, \<^verbatim>\<open>sb_max\<close>, \<^verbatim>\<open>in_localaddr\<close>; the
  interfaces and routes (\<open>inc\<close>); the sleeps on a locked socket buffer; and what the uninitialised
  variable of \<^verbatim>\<open>tcp_close\<close> holds.\<close>

record tcpcfg =
  COMPAT_42 :: bool
  tcp_keepidle :: int
  tcp_keepintvl :: int
  tcp_maxidle :: int
  max_linkhdr :: int
  tcp_mssdflt :: int
  tcp_rttdflt :: int
  tcp_sendspace :: u32
  tcp_recvspace :: u32
  sb_max :: u32
  in_localaddr :: "u32 \<Rightarrow> bool"
  tcprexmtthresh :: int
  inc :: incfg
  so_sleeps :: "(sockbuf \<Rightarrow> sleep) list"
  stack_i :: u32

definition inp :: "tcp \<Rightarrow> inpcb" where
  "inp t = pcb (tab t) (inp_id t)"

definition updinp :: "(inpcb \<Rightarrow> inpcb) \<Rightarrow> tcp \<Rightarrow> tcp" where
  "updinp f t = t\<lparr>tab := updpcb (inp_id t) f (tab t)\<rparr>"

definition so_id :: "tcp \<Rightarrow> nat" where
  "so_id t = inp_socket (inp t)"

definition tp_live :: "tcp \<Rightarrow> bool" where
  "tp_live t = inp_ppcb (inp t)"

text \<open>Going on with connection \<open>i\<close>.\<close>

definition enter :: "nat \<Rightarrow> tcp \<Rightarrow> tcp" where
  "enter i t = (let s = (tcbs t)(inp_id t := tp t) in t\<lparr>tcbs := s, inp_id := i, tp := s i\<rparr>)"

definition bump :: "tstat \<Rightarrow> u32 \<Rightarrow> tcp \<Rightarrow> tcp" where
  "bump k n t = t\<lparr>tcpstat := (tcpstat t)(k := tcpstat t k + n)\<rparr>"

definition updtp :: "(tcpcb \<Rightarrow> tcpcb) \<Rightarrow> tcp \<Rightarrow> tcp" where
  "updtp f t = t\<lparr>tp := f (tp t)\<rparr>"

definition the_so :: "tcp \<Rightarrow> socket" where
  "the_so t = sock (stab t) (so_id t)"

definition updso :: "(socket \<Rightarrow> socket) \<Rightarrow> tcp \<Rightarrow> tcp" where
  "updso f t = t\<lparr>stab := upd (so_id t) f (stab t)\<rparr>"

definition onstab :: "(nat \<Rightarrow> sotab \<Rightarrow> sotab) \<Rightarrow> tcp \<Rightarrow> tcp" where
  "onstab f t = t\<lparr>stab := f (so_id t) (stab t)\<rparr>"

definition set_timer :: "tcpt \<Rightarrow> int \<Rightarrow> tcpcb \<Rightarrow> tcpcb" where
  "set_timer k v p = p\<lparr>t_timer := (t_timer p)(k := v)\<rparr>"

lemma inp_simps [simp]:
  "inp (bump k n t) = inp t" "inp (updtp f t) = inp t" "inp (updso g t) = inp t" "inp (onstab h t) = inp t"
  "inp (updinp u t) = u (inp t)"
  by (simp_all add: bump_def updtp_def updso_def onstab_def updinp_def inp_def)

lemma inp_upd [simp]:
  "inp (t\<lparr>mbs := s\<rparr>) = inp t" "inp (t\<lparr>tp := p\<rparr>) = inp t" "inp (t\<lparr>tcpstat := w\<rparr>) = inp t" "inp (t\<lparr>stab := k\<rparr>) = inp t"
  "inp (t\<lparr>sent := q\<rparr>) = inp t" "inp (t\<lparr>ip_answers := a\<rparr>) = inp t" "inp (t\<lparr>tcp_iss := i\<rparr>) = inp t"
  by (simp_all add: inp_def)

lemma so_id_upd [simp]:
  "so_id (t\<lparr>mbs := s\<rparr>) = so_id t" "so_id (t\<lparr>tp := p\<rparr>) = so_id t" "so_id (t\<lparr>tcpstat := w\<rparr>) = so_id t"
  "so_id (t\<lparr>stab := k\<rparr>) = so_id t" "so_id (t\<lparr>sent := q\<rparr>) = so_id t" "so_id (t\<lparr>ip_answers := a\<rparr>) = so_id t"
  "so_id (t\<lparr>tcp_iss := i\<rparr>) = so_id t"
  by (simp_all add: so_id_def)

lemma conn_simps [simp]:
  "tp (bump k n t) = tp t" "tp (updtp f t) = f (tp t)" "tp (updso g t) = tp t" "tp (onstab h t) = tp t" "tp (updinp u t) = tp t"
  "stab (bump k n t) = stab t" "stab (updtp f t) = stab t" "stab (updinp u t) = stab t" "so_id (bump k n t) = so_id t"
  "so_id (updtp f t) = so_id t" "so_id (updso g t) = so_id t" "so_id (onstab h t) = so_id t"
  "mbs (bump k n t) = mbs t" "mbs (updtp f t) = mbs t" "mbs (updso g t) = mbs t" "mbs (onstab h t) = mbs t" "mbs (updinp u t) = mbs t"
  "the_so (bump k n t) = the_so t" "the_so (updtp f t) = the_so t" "the_so (updso g t) = g (the_so t)"
  by (simp_all add: bump_def updtp_def updso_def onstab_def updinp_def the_so_def so_id_def)

lemma timer_simps [simp]:
  "t_timer (set_timer k v p) = (t_timer p)(k := v)" "t_state (set_timer k v p) = t_state p"
  by (simp_all add: set_timer_def)

end
