(* ===== verification/Tcp_Reass.thy ===== *)
theory Tcp_Reass
  imports Tcp_Defs
begin

text \<open>
  TCP reassembly: \<^verbatim>\<open>tcp_reass\<close> and the macro \<^verbatim>\<open>TCP_REASS\<close> of \<^verbatim>\<open>sys/netinet/tcp_input.c\<close>.  The queue of
  segments waiting for their turn is a list.  The lemmas relate it to the stream the peer
  sends: if every segment that arrives is a piece of one stream, the bytes put in the receive
  buffer are the next bytes of that stream, whatever the order, overlap or repetition of the
  segments.
\<close>

section \<open>Operations\<close>

text \<open>Trimming or removing the queued segments that the new one overlaps.\<close>

fun reass_trim :: "tseg \<Rightarrow> tseg list \<Rightarrow> mbsys \<Rightarrow> (tseg list \<times> mbsys) kres" where
  "reass_trim ti [] s = Ret ([], s)"
| "reass_trim ti (q # r) s =
     (let i = sint ((ti_seq ti + of_int (ti_len ti)) - ti_seq q) in
      if i \<le> 0 then Ret (q # r, s)
      else if i < ti_len q
      then kmap (\<lambda>m. (q\<lparr>ti_seq := ti_seq q + of_int i, ti_len := ti_len q - i, ti_m := m\<rparr> # r, s))
             (m_adj (ti_m q) i)
      else reass_trim ti r (m_freem (ti_m q) s))"

text \<open>What of the new segment the preceding one already holds: \<open>None\<close>, all of it.\<close>

definition reass_front :: "tseg list \<Rightarrow> tseg \<Rightarrow> tseg option kres" where
  "reass_front pre ti =
     (if pre = [] then Ret (Some ti)
      else let q = last pre; i = sint (ti_seq q + of_int (ti_len q) - ti_seq ti) in
        if i > 0
        then if i \<ge> ti_len ti then Ret None
             else kmap (\<lambda>m. Some (ti\<lparr>ti_seq := ti_seq ti + of_int i, ti_len := ti_len ti - i, ti_m := m\<rparr>))
                    (m_adj (ti_m ti) i)
        else Ret (Some ti))"

definition reass_insert :: "tseg \<Rightarrow> tcp \<Rightarrow> (bool \<times> tcp) kres" where
  "reass_insert ti t =
     (let pre = takeWhile (\<lambda>q. \<not> SEQ_GT (ti_seq q) (ti_seq ti)) (seg_q (tp t));
          suf = dropWhile (\<lambda>q. \<not> SEQ_GT (ti_seq q) (ti_seq ti)) (seg_q (tp t))
      in kbind (reass_front pre ti) (\<lambda>res. case res of
           None \<Rightarrow> Ret (False, (bump rcvduppack 1 (bump rcvdupbyte (of_int (ti_len ti)) t))
                              \<lparr>mbs := m_freem (ti_m ti) (mbs t)\<rparr>)
         | Some ti1 \<Rightarrow>
             kbind (reass_trim ti1 suf (mbs t)) (\<lambda>(suf1, s1).
               Ret (True, (bump rcvoopack 1 (bump rcvoobyte (of_int (ti_len ti1))
                            (updtp (\<lambda>p. p\<lparr>seg_q := pre @ ti1 # suf1\<rparr>) t)))\<lparr>mbs := s1\<rparr>))))"

text \<open>Handing segments in sequence to the receive buffer.\<close>

fun present_loop ::
  "bool \<Rightarrow> tseg \<Rightarrow> tseg list \<Rightarrow> u32 \<Rightarrow> sockbuf \<Rightarrow> mbsys
     \<Rightarrow> th_flag set \<times> tseg list \<times> u32 \<times> sockbuf \<times> mbsys" where
  "present_loop cant ti rest rn sb s =
     (let rn1 = rn + of_int (ti_len ti);
          flags = ti_flags ti \<inter> {TH_FIN};
          (sb1, s1) = (if cant then (sb, m_freem (ti_m ti) s) else sbappend (ti_m ti) sb s)
      in case rest of
           [] \<Rightarrow> (flags, [], rn1, sb1, s1)
         | q # r \<Rightarrow> if ti_seq q = rn1 then present_loop cant q r rn1 sb1 s1
                   else (flags, q # r, rn1, sb1, s1))"

declare present_loop.simps [simp del]

definition reass_present :: "tcp \<Rightarrow> th_flag set \<times> tcp" where
  "reass_present t =
     (if \<not> TCPS_HAVERCVDSYN (t_state (tp t)) then ({}, t)
      else case seg_q (tp t) of
        [] \<Rightarrow> ({}, t)
      | ti # r \<Rightarrow>
          if ti_seq ti \<noteq> rcv_nxt (tp t) then ({}, t)
          else if t_state (tp t) = TCPS_SYN_RECEIVED \<and> ti_len ti \<noteq> 0 then ({}, t)
          else let (flags, q, rn, sb, s) =
                     present_loop (SS_CANTRCVMORE \<in> so_state (the_so t)) ti r (rcv_nxt (tp t))
                       (so_rcv (the_so t)) (mbs t)
               in (flags, onstab (\<lambda>i. sowakeup i Rcv)
                     (updso (\<lambda>x. x\<lparr>so_rcv := sb\<rparr>)
                       (updtp (\<lambda>p. p\<lparr>seg_q := q, rcv_nxt := rn\<rparr>) t)\<lparr>mbs := s\<rparr>)))"

definition tcp_reass :: "tseg option \<Rightarrow> tcp \<Rightarrow> (th_flag set \<times> tcp) kres" where
  "tcp_reass ti t = (case ti of
       None \<Rightarrow> Ret (reass_present t)
     | Some x \<Rightarrow> kbind (reass_insert x t) (\<lambda>(queued, t1).
         if queued then Ret (reass_present t1) else Ret ({}, t1)))"

definition TCP_REASS :: "tseg \<Rightarrow> tcp \<Rightarrow> (th_flag set \<times> tcp) kres" where
  "TCP_REASS ti t =
     (if ti_seq ti = rcv_nxt (tp t) \<and> seg_q (tp t) = [] \<and> t_state (tp t) = TCPS_ESTABLISHED
      then let (sb, s) = sbappend (ti_m ti) (so_rcv (the_so t)) (mbs t) in
        Ret (ti_flags ti \<inter> {TH_FIN},
             onstab (\<lambda>i. sowakeup i Rcv) (updso (\<lambda>x. x\<lparr>so_rcv := sb\<rparr>)
               (bump rcvpack 1 (bump rcvbyte (of_int (ti_len ti))
                 (updtp (\<lambda>p. p\<lparr>t_flags := insert TF_DELACK (t_flags p),
                              rcv_nxt := rcv_nxt p + of_int (ti_len ti)\<rparr>) t)))\<lparr>mbs := s\<rparr>))
      else kmap (\<lambda>(fl, t1). (fl, updtp (\<lambda>p. p\<lparr>t_flags := insert TF_ACKNOW (t_flags p)\<rparr>) t1))
             (tcp_reass (Some ti) t))"

section \<open>Segments as pieces of a stream\<close>

text \<open>\<open>S n\<close> is byte \<open>n\<close> of the peer's stream, \<open>p\<close> the number of bytes received in sequence so far, so that
  \<open>rn\<close>, the value of \<^verbatim>\<open>rcv_nxt\<close>, is the sequence number of byte \<open>p\<close>.  \<open>rel\<close> is a segment's distance from
  \<^verbatim>\<open>rcv_nxt\<close>; segments lie in the \<open>2\<^sup>1\<^sup>6\<close> bytes from there, the largest window there is.\<close>

definition rel :: "u32 \<Rightarrow> tseg \<Rightarrow> int" where
  "rel rn q = sint (ti_seq q - rn)"

definition seg_of :: "(nat \<Rightarrow> byte) \<Rightarrow> nat \<Rightarrow> u32 \<Rightarrow> tseg \<Rightarrow> bool" where
  "seg_of S p rn q = (0 \<le> rel rn q \<and> rel rn q + ti_len q \<le> 2 ^ 16 \<and> ti_len q = int (length (mdata (ti_m q)))
     \<and> chain_wf (ti_m q)
     \<and> mdata (ti_m q) = map S [p + nat (rel rn q) ..< p + nat (rel rn q) + nat (ti_len q)])"

definition before :: "u32 \<Rightarrow> tseg \<Rightarrow> tseg \<Rightarrow> bool" where
  "before rn a b = (rel rn a + ti_len a \<le> rel rn b)"

definition queue_inv :: "(nat \<Rightarrow> byte) \<Rightarrow> nat \<Rightarrow> u32 \<Rightarrow> tseg list \<Rightarrow> bool" where
  "queue_inv S p rn qs = (list_all (seg_of S p rn) qs \<and> sorted_wrt (before rn) qs)"

text \<open>The positions in the stream that segments hold.\<close>

definition span :: "nat \<Rightarrow> u32 \<Rightarrow> tseg \<Rightarrow> int set" where
  "span p rn q = {int p + rel rn q ..< int p + rel rn q + ti_len q}"

definition held :: "nat \<Rightarrow> u32 \<Rightarrow> tseg list \<Rightarrow> int set" where
  "held p rn qs = (\<Union>q \<in> set qs. span p rn q)"

lemma held_simps [simp]:
  "held p rn [] = {}" "held p rn (a # r) = span p rn a \<union> held p rn r"
  "held p rn (xs @ ys) = held p rn xs \<union> held p rn ys"
  by (simp_all add: held_def)

lemma seq_diff_rel: "ti_seq q - rn = of_int (rel rn q)"
  by (simp add: rel_def)

lemma seq_rel: "ti_seq q = rn + of_int (rel rn q)"
  by (metis seq_diff_rel add.commute diff_add_cancel)

lemma seg_ofD:
  assumes "seg_of S p rn q"
  shows "0 \<le> rel rn q" and "rel rn q + ti_len q \<le> 2 ^ 16" and "ti_len q = int (length (mdata (ti_m q)))"
    and "chain_wf (ti_m q)" and "mdata (ti_m q) = map S [p + nat (rel rn q) ..< p + nat (rel rn q) + nat (ti_len q)]"
    and "0 \<le> ti_len q"
  using assms unfolding seg_of_def by (blast, blast, blast, blast, blast, metis of_nat_0_le_iff)

lemma sint_rel_diff:
  assumes "\<bar>rel rn a\<bar> + \<bar>k\<bar> + \<bar>rel rn b\<bar> < 2 ^ 31"
  shows "sint (ti_seq a + of_int k - ti_seq b) = rel rn a + k - rel rn b"
proof (rule sint_eqI)
  show "ti_seq a + of_int k - ti_seq b = of_int (rel rn a + k - rel rn b)"
    using seq_diff_rel[of a rn] seq_diff_rel[of b rn]
    by (simp only: of_int_add of_int_diff) (simp add: algebra_simps)
qed (use assms in linarith)+

lemma sint_rel_seg:
  assumes "seg_of S p rn a" and "seg_of S p rn b"
  shows "sint (ti_seq a + of_int (ti_len a) - ti_seq b) = rel rn a + ti_len a - rel rn b"
    and "SEQ_GT (ti_seq a) (ti_seq b) = (rel rn a > rel rn b)"
proof -
  note r = seg_ofD(1,2,6)[OF assms(1)] seg_ofD(1,2,6)[OF assms(2)]
  then show "sint (ti_seq a + of_int (ti_len a) - ti_seq b) = rel rn a + ti_len a - rel rn b"
    by (intro sint_rel_diff) simp
  have "sint (ti_seq a + of_int 0 - ti_seq b) = rel rn a + 0 - rel rn b"
    using r by (intro sint_rel_diff) simp
  then show "SEQ_GT (ti_seq a) (ti_seq b) = (rel rn a > rel rn b)" by (simp add: SEQ_GT_def)
qed

text \<open>Cutting the front of a segment.\<close>

lemma rel_advance:
  assumes "0 \<le> rel rn q" and "0 \<le> i" and "rel rn q + i \<le> 2 ^ 16" and "ti_seq q' = ti_seq q + of_int i"
  shows "rel rn q' = rel rn q + i"
  unfolding rel_def[of rn q']
proof (rule sint_eqI)
  show "ti_seq q' - rn = of_int (rel rn q + i)"
    using seq_diff_rel[of q rn] by (simp only: assms(4) of_int_add) (simp add: algebra_simps)
qed (use assms(1-3) in auto)

lemma seg_of_cut:
  assumes "seg_of S p rn q" and "0 \<le> i" and "i \<le> ti_len q"
  obtains m where "m_adj (ti_m q) i = Ret m"
    and "seg_of S p rn (q\<lparr>ti_seq := ti_seq q + of_int i, ti_len := ti_len q - i, ti_m := m\<rparr>)"
    and "rel rn (q\<lparr>ti_seq := ti_seq q + of_int i, ti_len := ti_len q - i, ti_m := m\<rparr>) = rel rn q + i"
proof -
  note q = seg_ofD[OF assms(1)]
  obtain m where m: "m_adj (ti_m q) i = Ret m" "mdata m = drop (nat i) (mdata (ti_m q))" "chain_wf m"
  proof (cases "ti_m q = []")
    case True
    then show ?thesis using that[of "[]"] by (simp add: m_adj_def)
  next
    case False
    show ?thesis by (rule m_adj_head_case[OF assms(2) False]) (use that q(4) in blast)
  qed
  let ?q = "q\<lparr>ti_seq := ti_seq q + of_int i, ti_len := ti_len q - i, ti_m := m\<rparr>"
  have r: "rel rn ?q = rel rn q + i" by (rule rel_advance[OF q(1) assms(2)]) (use q(2) assms(3) in auto)
  have n: "nat (rel rn q + i) = nat (rel rn q) + nat i" "nat (ti_len q - i) = nat (ti_len q) - nat i" "nat i \<le> nat (ti_len q)"
    using q(1) assms(2,3) by auto
  have "mdata m = map S [p + nat (rel rn q) + nat i ..< p + nat (rel rn q) + nat (ti_len q)]"
    unfolding m(2) q(5) drop_map by simp
  then have "mdata m = map S [p + nat (rel rn ?q) ..< p + nat (rel rn ?q) + nat (ti_len ?q)]"
    unfolding r using n by (simp add: add.assoc)
  moreover have "int (length (mdata m)) = ti_len q - i"
    unfolding m(2) using q(3) assms(2,3) by simp
  ultimately have "seg_of S p rn ?q" unfolding seg_of_def using q(1,2) m(3) assms(2,3) r by simp
  then show ?thesis using that m(1) r by blast
qed

lemma seg_of_advance:
  assumes "seg_of S p rn x" and "0 \<le> k" and "k \<le> rel rn x"
  shows "rel (rn + of_int k) x = rel rn x - k" and "seg_of S (p + nat k) (rn + of_int k) x"
    and "span (p + nat k) (rn + of_int k) x = span p rn x"
proof -
  note x = seg_ofD[OF assms(1)]
  have b: "rel rn x \<le> 2 ^ 16" using x(2,6) by linarith
  show r: "rel (rn + of_int k) x = rel rn x - k"
    unfolding rel_def[of "rn + of_int k"]
  proof (rule sint_eqI)
    show "ti_seq x - (rn + of_int k) = of_int (rel rn x - k)"
      using seq_diff_rel[of x rn] by (simp only: of_int_diff) (simp add: algebra_simps)
  qed (use assms(2,3) b in auto)
  have n: "p + nat k + nat (rel rn x - k) = p + nat (rel rn x)" using assms(2,3) by simp
  have "rel rn x - k + ti_len x \<le> 2 ^ 16" "0 \<le> rel rn x - k" using x(2) assms(2,3) by linarith+
  then show "seg_of S (p + nat k) (rn + of_int k) x" unfolding seg_of_def r n by (intro conjI x(3-5))
  show "span (p + nat k) (rn + of_int k) x = span p rn x" using assms(2) by (simp add: span_def r)
qed

section \<open>Inserting a segment\<close>

lemma reass_front_spec:
  assumes "seg_of S p rn ti" and "pre \<noteq> [] \<Longrightarrow> seg_of S p rn (last pre) \<and> rel rn (last pre) \<le> rel rn ti"
  shows "(reass_front pre ti = Ret None \<and> pre \<noteq> [] \<and> span p rn ti \<subseteq> span p rn (last pre))
    \<or> (\<exists>ti1. reass_front pre ti = Ret (Some ti1) \<and> seg_of S p rn ti1 \<and> rel rn ti \<le> rel rn ti1
        \<and> rel rn ti1 + ti_len ti1 = rel rn ti + ti_len ti \<and> (pre \<noteq> [] \<longrightarrow> before rn (last pre) ti1)
        \<and> (rel rn ti < rel rn ti1 \<longrightarrow> pre \<noteq> [] \<and> rel rn ti1 = rel rn (last pre) + ti_len (last pre)))"
proof (cases "pre = []")
  case True
  then show ?thesis using assms(1) by (auto simp: reass_front_def)
next
  case False
  define i where "i = rel rn (last pre) + ti_len (last pre) - rel rn ti"
  have i: "sint (ti_seq (last pre) + of_int (ti_len (last pre)) - ti_seq ti) = i"
    unfolding i_def using sint_rel_seg(1)[of S p rn "last pre" ti] assms False by blast
  have lp: "rel rn (last pre) \<le> rel rn ti" using assms(2) False by blast
  have eq: "reass_front pre ti = (if i > 0 then if i \<ge> ti_len ti then Ret None
      else kmap (\<lambda>m. Some (ti\<lparr>ti_seq := ti_seq ti + of_int i, ti_len := ti_len ti - i, ti_m := m\<rparr>)) (m_adj (ti_m ti) i)
      else Ret (Some ti))"
    using False by (simp add: reass_front_def Let_def i)
  consider "i \<le> 0" | "i > 0" "i \<ge> ti_len ti" | "i > 0" "i < ti_len ti" by linarith
  then show ?thesis
  proof cases
    case 1
    then show ?thesis using eq assms(1) by (auto simp: before_def i_def)
  next
    case 2
    then have "span p rn ti \<subseteq> span p rn (last pre)" using lp by (auto simp: span_def i_def)
    then show ?thesis using eq 2 False by simp
  next
    case 3
    obtain m where m: "m_adj (ti_m ti) i = Ret m"
        "seg_of S p rn (ti\<lparr>ti_seq := ti_seq ti + of_int i, ti_len := ti_len ti - i, ti_m := m\<rparr>)"
        "rel rn (ti\<lparr>ti_seq := ti_seq ti + of_int i, ti_len := ti_len ti - i, ti_m := m\<rparr>) = rel rn ti + i"
      by (rule seg_of_cut[OF assms(1) less_imp_le[OF 3(1)] less_imp_le[OF 3(2)]])
    then show ?thesis using eq 3 False by (simp add: before_def i_def)
  qed
qed

lemma reass_trim_spec:
  assumes "seg_of S p rn ti" and "list_all (seg_of S p rn) qs" and "sorted_wrt (before rn) qs"
    and "list_all (\<lambda>q. rel rn ti \<le> rel rn q) qs"
  shows "\<exists>qs' s'. reass_trim ti qs s = Ret (qs', s') \<and> list_all (seg_of S p rn) qs'
     \<and> sorted_wrt (before rn) (ti # qs') \<and> span p rn ti \<union> held p rn qs' = span p rn ti \<union> held p rn qs"
  using assms(2-4)
proof (induction qs arbitrary: s)
  case (Cons q qs)
  define i where "i = rel rn ti + ti_len ti - rel rn q"
  have sq: "seg_of S p rn q" using Cons(2) by simp
  have i: "sint (ti_seq ti + of_int (ti_len ti) - ti_seq q) = i"
    unfolding i_def by (rule sint_rel_seg(1)[OF assms(1) sq])
  have le: "rel rn ti \<le> rel rn q" using Cons(4) by simp
  have after: "rel rn q + ti_len q \<le> rel rn x" if "x \<in> set qs" for x
    using Cons(3) that by (auto simp: before_def)
  note lq = seg_ofD(6)[OF sq] seg_ofD(6)[OF assms(1)]
  consider "i \<le> 0" | "i > 0" "i < ti_len q" | "i > 0" "i \<ge> ti_len q" by linarith
  then show ?case
  proof cases
    case 1
    have "before rn ti x" if "x \<in> set (q # qs)" for x
      using that after[of x] 1 lq by (auto simp: before_def i_def)
    then show ?thesis using 1 Cons(2,3) by (simp add: i)
  next
    case 2
    obtain m where m: "m_adj (ti_m q) i = Ret m"
        "seg_of S p rn (q\<lparr>ti_seq := ti_seq q + of_int i, ti_len := ti_len q - i, ti_m := m\<rparr>)"
        "rel rn (q\<lparr>ti_seq := ti_seq q + of_int i, ti_len := ti_len q - i, ti_m := m\<rparr>) = rel rn q + i"
      by (rule seg_of_cut[OF sq less_imp_le[OF 2(1)] less_imp_le[OF 2(2)]])
    let ?q = "q\<lparr>ti_seq := ti_seq q + of_int i, ti_len := ti_len q - i, ti_m := m\<rparr>"
    have "reass_trim ti (q # qs) s = Ret (?q # qs, s)" using 2 m(1) by (simp add: Let_def i)
    moreover have "before rn ti x" if "x \<in> set (?q # qs)" for x
      using that after[of x] m(3) 2 lq by (auto simp: before_def i_def)
    moreover have "before rn ?q x" if "x \<in> set qs" for x using after[OF that] m(3) by (simp add: before_def)
    moreover have "span p rn ti \<union> span p rn ?q = span p rn ti \<union> span p rn q"
      using m(3) 2 le lq by (auto simp: span_def i_def)
    ultimately show ?thesis using Cons(2,3) m(2) by (auto simp del: reass_trim.simps)
  next
    case 3
    obtain qs' s' where r: "reass_trim ti qs (m_freem (ti_m q) s) = Ret (qs', s')" "list_all (seg_of S p rn) qs'"
        "sorted_wrt (before rn) (ti # qs')" "span p rn ti \<union> held p rn qs' = span p rn ti \<union> held p rn qs"
      using Cons(1)[of "m_freem (ti_m q) s"] Cons(2-4) by auto
    have "span p rn q \<subseteq> span p rn ti" using 3 le by (auto simp: span_def i_def)
    then have "span p rn ti \<union> held p rn qs' = span p rn ti \<union> held p rn (q # qs)" using r(4) by auto
    moreover have "reass_trim ti (q # qs) s = Ret (qs', s')" using 3 r(1) by (simp add: Let_def i)
    ultimately show ?thesis using r(2,3) by (auto simp del: reass_trim.simps)
  qed
qed simp

lemma reass_held:
  assumes "rel rn ti \<le> rel rn ti1" and "rel rn ti1 + ti_len ti1 = rel rn ti + ti_len ti"
    and "rel rn lst \<le> rel rn ti"
    and "rel rn ti < rel rn ti1 \<longrightarrow> P \<and> rel rn ti1 = rel rn lst + ti_len lst"
  shows "span p rn ti \<subseteq> span p rn lst \<union> span p rn ti1" and "span p rn ti1 \<subseteq> span p rn ti"
  using assms by (auto simp: span_def)

lemma queue_split:
  assumes "queue_inv S p rn qs" and "seg_of S p rn ti"
    and "pre = takeWhile (\<lambda>q. \<not> SEQ_GT (ti_seq q) (ti_seq ti)) qs"
    and "suf = dropWhile (\<lambda>q. \<not> SEQ_GT (ti_seq q) (ti_seq ti)) qs"
  shows "qs = pre @ suf" and "list_all (seg_of S p rn) pre" and "list_all (seg_of S p rn) suf"
    and "sorted_wrt (before rn) pre" and "sorted_wrt (before rn) suf"
    and "\<And>x y. x \<in> set pre \<Longrightarrow> y \<in> set suf \<Longrightarrow> before rn x y"
    and "\<And>x. x \<in> set pre \<Longrightarrow> rel rn x \<le> rel rn ti" and "\<And>y. y \<in> set suf \<Longrightarrow> rel rn ti < rel rn y"
proof -
  show qs: "qs = pre @ suf" using assms(3,4) by simp
  have q: "list_all (seg_of S p rn) (pre @ suf)" "sorted_wrt (before rn) (pre @ suf)"
    using assms(1) unfolding queue_inv_def qs by auto
  show "list_all (seg_of S p rn) pre" "list_all (seg_of S p rn) suf"
    "sorted_wrt (before rn) pre" "sorted_wrt (before rn) suf" using q by (auto simp: sorted_wrt_append)
  show "before rn x y" if "x \<in> set pre" "y \<in> set suf" for x y
    using q(2) that by (auto simp: sorted_wrt_append)
  show "rel rn x \<le> rel rn ti" if "x \<in> set pre" for x
  proof -
    have "\<not> SEQ_GT (ti_seq x) (ti_seq ti)" using that set_takeWhileD unfolding assms(3) by fastforce
    moreover have "seg_of S p rn x" using q(1) that by (auto simp: list_all_iff)
    ultimately show ?thesis using sint_rel_seg(2)[OF _ assms(2)] by fastforce
  qed
  show "rel rn ti < rel rn y" if y: "y \<in> set suf" for y
  proof -
    obtain z r where suf: "suf = z # r" using y by (cases suf) auto
    have "SEQ_GT (ti_seq z) (ti_seq ti)" using hd_dropWhile[of _ qs] suf unfolding assms(4) by (metis list.discI list.sel(1))
    moreover have z: "seg_of S p rn z" using q(1) suf by simp
    ultimately have "rel rn ti < rel rn z" using sint_rel_seg(2)[OF _ assms(2)] by blast
    moreover have "rel rn z \<le> rel rn y"
      using q(2) y suf seg_ofD(6)[OF z] by (auto simp: sorted_wrt_append before_def)
    ultimately show ?thesis by simp
  qed
qed

lemma reass_insert_spec:
  assumes "queue_inv S p rn (seg_q (tp t))" and "seg_of S p rn ti"
  shows "\<exists>b qs s st. reass_insert ti t = Ret (b, t\<lparr>tp := (tp t)\<lparr>seg_q := qs\<rparr>, mbs := s, tcpstat := st\<rparr>)
     \<and> queue_inv S p rn qs \<and> held p rn qs = held p rn (seg_q (tp t)) \<union> span p rn ti
     \<and> (\<not> b \<longrightarrow> qs = seg_q (tp t))"
proof -
  define pre suf where "pre = takeWhile (\<lambda>q. \<not> SEQ_GT (ti_seq q) (ti_seq ti)) (seg_q (tp t))"
    and "suf = dropWhile (\<lambda>q. \<not> SEQ_GT (ti_seq q) (ti_seq ti)) (seg_q (tp t))"
  note sp = queue_split[OF assms pre_def suf_def]
  have lp: "pre \<noteq> [] \<Longrightarrow> last pre \<in> set pre" by simp
  have fr: "pre \<noteq> [] \<Longrightarrow> seg_of S p rn (last pre) \<and> rel rn (last pre) \<le> rel rn ti"
    using lp sp(2,7) by (auto simp: list_all_iff)
  from reass_front_spec[OF assms(2) fr] consider
    (dup) "reass_front pre ti = Ret None" "pre \<noteq> []" "span p rn ti \<subseteq> span p rn (last pre)"
  | (new) ti1 where "reass_front pre ti = Ret (Some ti1)" "seg_of S p rn ti1" "rel rn ti \<le> rel rn ti1"
       "rel rn ti1 + ti_len ti1 = rel rn ti + ti_len ti" "pre \<noteq> [] \<longrightarrow> before rn (last pre) ti1"
       "rel rn ti < rel rn ti1 \<longrightarrow> pre \<noteq> [] \<and> rel rn ti1 = rel rn (last pre) + ti_len (last pre)"
    by blast
  then show ?thesis
  proof cases
    case dup
    have "span p rn ti \<subseteq> held p rn (seg_q (tp t))"
      using dup(3) lp[OF dup(2)] unfolding sp(1) held_def by auto
    moreover have "reass_insert ti t = Ret (False, t\<lparr>tp := (tp t)\<lparr>seg_q := seg_q (tp t)\<rparr>, mbs := m_freem (ti_m ti) (mbs t),
        tcpstat := tcpstat (bump rcvduppack 1 (bump rcvdupbyte (of_int (ti_len ti)) t))\<rparr>)"
      using dup(1) by (simp add: reass_insert_def Let_def pre_def[symmetric] suf_def[symmetric] bump_def)
    ultimately show ?thesis using assms(1) by blast
  next
    case new
    have ge: "list_all (\<lambda>q. rel rn ti1 \<le> rel rn q) suf" unfolding list_all_iff
    proof
      fix y assume y: "y \<in> set suf"
      show "rel rn ti1 \<le> rel rn y"
      proof (cases "rel rn ti < rel rn ti1")
        case True
        then show ?thesis using new(6) sp(6)[OF lp y] by (auto simp: before_def)
      qed (use sp(8)[OF y] in simp)
    qed
    obtain suf' s' where tr: "reass_trim ti1 suf (mbs t) = Ret (suf', s')" "list_all (seg_of S p rn) suf'"
        "sorted_wrt (before rn) (ti1 # suf')" "span p rn ti1 \<union> held p rn suf' = span p rn ti1 \<union> held p rn suf"
      using reass_trim_spec[OF new(2) sp(3,5) ge] by blast
    have b1: "before rn x ti1" if "x \<in> set pre" for x
    proof -
      have "rel rn x + ti_len x \<le> rel rn (last pre) + ti_len (last pre)"
      proof (cases "x = last pre")
        case False
        then have "x \<in> set (butlast pre)" using that by (metis append_butlast_last_id empty_iff list.set(1) rotate1.simps(2) set_ConsD set_rotate1)
        then have "before rn x (last pre)"
          using sp(4) that append_butlast_last_id[of pre] by (metis empty_iff list.set(1) list.set_intros(1) sorted_wrt_append)
        moreover have "pre \<noteq> []" using that by auto
        ultimately show ?thesis using fr seg_ofD(6)[of S p rn "last pre"] by (auto simp: before_def)
      qed simp
      then show ?thesis using new(5) that by (auto simp: before_def)
    qed
    have b2: "before rn x y" if "x \<in> set pre" "y \<in> set suf'" for x y
      using b1[OF that(1)] tr(3) that(2) seg_ofD(6)[OF new(2)] by (auto simp: before_def)
    have "queue_inv S p rn (pre @ ti1 # suf')"
      using sp(2,4) new(2) tr(2,3) b1 b2 by (auto simp: queue_inv_def sorted_wrt_append)
    moreover have "span p rn ti \<subseteq> held p rn pre \<union> span p rn ti1"
    proof (cases "pre = []")
      case True
      then have "rel rn ti1 = rel rn ti" using new(3,6) by auto
      then show ?thesis using new(4) by (simp add: span_def)
    next
      case False
      then show ?thesis using reass_held(1)[OF new(3,4) _ new(6), of p] fr lp unfolding held_def by blast
    qed
    then have "held p rn (pre @ ti1 # suf') = held p rn (seg_q (tp t)) \<union> span p rn ti"
      using reass_held(2)[OF new(3,4), of "last pre" "pre \<noteq> []" p] new(3,4) tr(4) unfolding sp(1) by (auto simp: span_def)
    moreover have "reass_insert ti t = Ret (True, t\<lparr>tp := (tp t)\<lparr>seg_q := pre @ ti1 # suf'\<rparr>, mbs := s',
        tcpstat := tcpstat (bump rcvoopack 1 (bump rcvoobyte (of_int (ti_len ti1)) t))\<rparr>)"
      using new(1) tr(1) by (simp add: reass_insert_def Let_def pre_def[symmetric] suf_def[symmetric] bump_def updtp_def)
    ultimately show ?thesis by blast
  qed
qed

section \<open>Presenting data\<close>

lemma queue_inv_advance:
  assumes "queue_inv S p rn (ti # rest)" and "ti_seq ti = rn"
  shows "queue_inv S (p + nat (ti_len ti)) (rn + of_int (ti_len ti)) rest"
    and "held (p + nat (ti_len ti)) (rn + of_int (ti_len ti)) rest = held p rn rest"
    and "span p rn ti = {int p ..< int p + ti_len ti}"
    and "mdata (ti_m ti) = map S [p ..< p + nat (ti_len ti)]"
proof -
  have ti: "seg_of S p rn ti" "rel rn ti = 0" using assms by (auto simp: queue_inv_def rel_def)
  note d = seg_ofD[OF ti(1)]
  have r: "seg_of S p rn x" "ti_len ti \<le> rel rn x" if "x \<in> set rest" for x
    using assms(1) that ti(2) by (auto simp: queue_inv_def before_def list_all_iff)
  note adv = seg_of_advance[OF r(1) d(6) r(2)]
  show "queue_inv S (p + nat (ti_len ti)) (rn + of_int (ti_len ti)) rest"
    unfolding queue_inv_def list_all_iff
  proof
    show "\<forall>x \<in> set rest. seg_of S (p + nat (ti_len ti)) (rn + of_int (ti_len ti)) x" using adv(2) by blast
    have "sorted_wrt (before rn) rest" using assms(1) by (simp add: queue_inv_def)
    then show "sorted_wrt (before (rn + of_int (ti_len ti))) rest"
      by (rule sorted_wrt_mono_rel[rotated]) (use adv(1) in \<open>auto simp: before_def\<close>)
  qed
  show "held (p + nat (ti_len ti)) (rn + of_int (ti_len ti)) rest = held p rn rest"
    unfolding held_def using adv(3) by auto
  show "span p rn ti = {int p ..< int p + ti_len ti}" by (simp add: span_def ti(2))
  show "mdata (ti_m ti) = map S [p ..< p + nat (ti_len ti)]" using d(5) ti(2) by simp
qed

lemma present_loop_spec:
  assumes "queue_inv S p rn (ti # rest)" and "ti_seq ti = rn" and "sb_ok sb"
    and "present_loop False ti rest rn sb s = (fl, q, rn', sb', s')"
  shows "\<exists>n. rn' = rn + of_nat n \<and> queue_inv S (p + n) rn' q \<and> sb_ok sb'
     \<and> sbdata sb' = sbdata sb @ map S [p ..< p + n]
     \<and> {int p ..< int (p + n)} \<union> held (p + n) rn' q = held p rn (ti # rest) \<and> (q \<noteq> [] \<longrightarrow> ti_seq (hd q) \<noteq> rn')"
  using assms
proof (induction rest arbitrary: ti p rn sb s)
  case Nil
  obtain sb1 s1 where a: "sbappend (ti_m ti) sb s = (sb1, s1)" by fastforce
  note adv = queue_inv_advance[OF Nil(1,2)]
  have ti: "chain_wf (ti_m ti)" "0 \<le> ti_len ti" using Nil(1) seg_ofD(4,6)[of S p rn ti] by (auto simp: queue_inv_def)
  note ap = sbappend_spec[OF Nil(3) ti(1) a]
  have "q = []" "rn' = rn + of_int (ti_len ti)" "sb' = sb1"
    using Nil(4) a by (auto simp: present_loop.simps[of False ti "[]"])
  then show ?case using adv ap ti(2) by (intro exI[of _ "nat (ti_len ti)"]) (auto simp: queue_inv_def)
next
  case (Cons x rest)
  obtain sb1 s1 where a: "sbappend (ti_m ti) sb s = (sb1, s1)" by fastforce
  define L where "L = nat (ti_len ti)"
  note adv = queue_inv_advance[OF Cons(2,3), folded L_def]
  have ti: "chain_wf (ti_m ti)" "0 \<le> ti_len ti" using Cons(2) seg_ofD(4,6)[of S p rn ti] by (auto simp: queue_inv_def)
  note ap = sbappend_spec[OF Cons(4) ti(1) a]
  have L: "of_int (ti_len ti) = (of_nat L :: u32)" "ti_len ti = int L" using ti(2) by (simp_all add: L_def)
  show ?case
  proof (cases "ti_seq x = rn + of_int (ti_len ti)")
    case False
    then have "q = x # rest" "rn' = rn + of_int (ti_len ti)" "sb' = sb1"
      using Cons(5) a by (auto simp: present_loop.simps[of False ti "x # rest"])
    then show ?thesis using adv ap False by (intro exI[of _ L]) (auto simp: L)
  next
    case True
    then have "present_loop False x rest (rn + of_int (ti_len ti)) sb1 s1 = (fl, q, rn', sb', s')"
      using Cons(5) a by (simp add: present_loop.simps[of False ti "x # rest"])
    from Cons(1)[OF adv(1) True conjunct1[OF ap] this] obtain n where
      n: "rn' = rn + of_int (ti_len ti) + of_nat n" "queue_inv S (p + L + n) rn' q" "sb_ok sb'"
        "sbdata sb' = sbdata sb1 @ map S [p + L ..< p + L + n]"
        "{int (p + L) ..< int (p + L + n)} \<union> held (p + L + n) rn' q = held (p + L) (rn + of_int (ti_len ti)) (x # rest)"
        "q \<noteq> [] \<longrightarrow> ti_seq (hd q) \<noteq> rn'" unfolding L_def by blast
    have m: "map S [p ..< p + L] @ map S [p + L ..< p + L + n] = map S [p ..< p + (L + n)]"
      using upt_add_eq_append[of p "p + L" n] by (simp add: map_append[symmetric] add.assoc del: map_append)
    have e1: "rn' = rn + of_nat (L + n)" unfolding n(1) L(1) by simp
    have e2: "sbdata sb' = sbdata sb @ map S [p ..< p + (L + n)]"
      using ap adv(4) m unfolding n(4) by simp
    have "{int p ..< int (p + (L + n))} = {int p ..< int p + ti_len ti} \<union> {int (p + L) ..< int (p + L + n)}"
      unfolding L(2) by auto
    moreover have "held (p + L) (rn + of_int (ti_len ti)) (x # rest) = held p rn (x # rest)"
      using adv(2) unfolding L_def .
    ultimately have e3: "{int p ..< int (p + (L + n))} \<union> held (p + (L + n)) rn' q = held p rn (ti # x # rest)"
      using n(5) adv(3) unfolding held_simps(2)[of p rn ti] add.assoc[symmetric] by (metis sup_assoc)
    show ?thesis using e1 e2 e3 n(2,3,6) unfolding add.assoc by blast
  qed
qed

text \<open>What holds of a connection that receives the stream \<open>S\<close>, \<open>p\<close> bytes of it in sequence so far.\<close>

definition receiving :: "(nat \<Rightarrow> byte) \<Rightarrow> nat \<Rightarrow> tcp \<Rightarrow> bool" where
  "receiving S p t = (queue_inv S p (rcv_nxt (tp t)) (seg_q (tp t)) \<and> sb_ok (so_rcv (the_so t)))"

lemma sbdata_sowakeup [simp]:
  "sbdata (so_rcv (sock (sowakeup i w t) j)) = sbdata (so_rcv (sock t j))"
  "sb_ok (so_rcv (sock (sowakeup i w t) j)) = sb_ok (so_rcv (sock t j))"
  by (cases w; auto simp: sowakeup_def Let_def sb_set_def sb_of_def sbdata_def sb_ok_def upd_def post_def split: option.splits)+

lemma reass_present_spec:
  assumes "receiving S p t" and "TCPS_ESTABLISHED \<le> t_state (tp t)" and "SS_CANTRCVMORE \<notin> so_state (the_so t)"
  shows "\<exists>fl t' n. reass_present t = (fl, t') \<and> receiving S (p + n) t' \<and> rcv_nxt (tp t') = rcv_nxt (tp t) + of_nat n
     \<and> sbdata (so_rcv (the_so t')) = sbdata (so_rcv (the_so t)) @ map S [p ..< p + n]
     \<and> {int p ..< int (p + n)} \<union> held (p + n) (rcv_nxt (tp t')) (seg_q (tp t')) = held p (rcv_nxt (tp t)) (seg_q (tp t))
     \<and> (seg_q (tp t') \<noteq> [] \<longrightarrow> ti_seq (hd (seg_q (tp t'))) \<noteq> rcv_nxt (tp t'))"
proof -
  have st: "TCPS_HAVERCVDSYN (t_state (tp t))" "t_state (tp t) \<noteq> TCPS_SYN_RECEIVED"
    using assms(2) by (auto simp: TCPS_HAVERCVDSYN_def state_ord)
  show ?thesis
  proof (cases "seg_q (tp t) = [] \<or> ti_seq (hd (seg_q (tp t))) \<noteq> rcv_nxt (tp t)")
    case True
    then have "reass_present t = ({}, t)" using st by (cases "seg_q (tp t)") (auto simp: reass_present_def)
    then show ?thesis using assms(1) True by (intro exI[of _ "{}"] exI[of _ t] exI[of _ 0]) auto
  next
    case False
    then obtain ti r where q: "seg_q (tp t) = ti # r" "ti_seq ti = rcv_nxt (tp t)" by (cases "seg_q (tp t)") auto
    have qi: "queue_inv S p (rcv_nxt (tp t)) (ti # r)" "sb_ok (so_rcv (the_so t))"
      using assms(1) q(1) by (simp_all add: receiving_def)
    obtain fl q' rn' sb' s' where l: "present_loop False ti r (rcv_nxt (tp t)) (so_rcv (the_so t)) (mbs t) = (fl, q', rn', sb', s')"
      by (metis surj_pair)
    obtain n where n: "rn' = rcv_nxt (tp t) + of_nat n" "queue_inv S (p + n) rn' q'" "sb_ok sb'"
        "sbdata sb' = sbdata (so_rcv (the_so t)) @ map S [p ..< p + n]"
        "{int p ..< int (p + n)} \<union> held (p + n) rn' q' = held p (rcv_nxt (tp t)) (ti # r)" "q' \<noteq> [] \<longrightarrow> ti_seq (hd q') \<noteq> rn'"
      using present_loop_spec[OF qi(1) q(2) qi(2) l] by blast
    let ?t = "onstab (\<lambda>i. sowakeup i Rcv) (updso (\<lambda>x. x\<lparr>so_rcv := sb'\<rparr>)
                       (updtp (\<lambda>p. p\<lparr>seg_q := q', rcv_nxt := rn'\<rparr>) t)\<lparr>mbs := s'\<rparr>)"
    have "reass_present t = (fl, ?t)" using st q l assms(3) by (simp add: reass_present_def)
    moreover have "sbdata (so_rcv (the_so ?t)) = sbdata sb'" "sb_ok (so_rcv (the_so ?t)) = sb_ok sb'"
        "tp ?t = (tp t)\<lparr>seg_q := q', rcv_nxt := rn'\<rparr>"
      by (simp_all add: the_so_def onstab_def updso_def updtp_def)
    ultimately show ?thesis using n q(1) by (intro exI[of _ fl] exI[of _ ?t] exI[of _ n]) (simp add: receiving_def)
  qed
qed

lemma tcp_reass_spec:
  assumes "receiving S p t" and "seg_of S p (rcv_nxt (tp t)) ti" and "TCPS_ESTABLISHED \<le> t_state (tp t)"
    and "SS_CANTRCVMORE \<notin> so_state (the_so t)"
    and "seg_q (tp t) = [] \<or> ti_seq (hd (seg_q (tp t))) \<noteq> rcv_nxt (tp t)"
  shows "\<exists>fl t' n. tcp_reass (Some ti) t = Ret (fl, t') \<and> receiving S (p + n) t'
     \<and> rcv_nxt (tp t') = rcv_nxt (tp t) + of_nat n
     \<and> sbdata (so_rcv (the_so t')) = sbdata (so_rcv (the_so t)) @ map S [p ..< p + n]
     \<and> {int p ..< int (p + n)} \<union> held (p + n) (rcv_nxt (tp t')) (seg_q (tp t'))
        = held p (rcv_nxt (tp t)) (seg_q (tp t)) \<union> span p (rcv_nxt (tp t)) ti
     \<and> (seg_q (tp t') = [] \<or> ti_seq (hd (seg_q (tp t'))) \<noteq> rcv_nxt (tp t'))"
proof -
  obtain b qs s st where i: "reass_insert ti t = Ret (b, t\<lparr>tp := (tp t)\<lparr>seg_q := qs\<rparr>, mbs := s, tcpstat := st\<rparr>)"
      "queue_inv S p (rcv_nxt (tp t)) qs"
      "held p (rcv_nxt (tp t)) qs = held p (rcv_nxt (tp t)) (seg_q (tp t)) \<union> span p (rcv_nxt (tp t)) ti"
      "\<not> b \<longrightarrow> qs = seg_q (tp t)"
    using reass_insert_spec[OF _ assms(2), of t] assms(1) unfolding receiving_def by blast
  let ?t = "t\<lparr>tp := (tp t)\<lparr>seg_q := qs\<rparr>, mbs := s, tcpstat := st\<rparr>"
  have so: "the_so ?t = the_so t" by (simp add: the_so_def)
  have r: "receiving S p ?t" using assms(1) i(2) so by (simp add: receiving_def)
  have st': "TCPS_ESTABLISHED \<le> t_state (tp ?t)" "SS_CANTRCVMORE \<notin> so_state (the_so ?t)"
    using assms(3,4) so by simp_all
  show ?thesis
  proof (cases b)
    case False
    then have "tcp_reass (Some ti) t = Ret ({}, ?t)" using i(1) by (simp add: tcp_reass_def)
    moreover have "qs = seg_q (tp t)" using i(4) False by simp
    ultimately show ?thesis using r i(3) assms(5) so
      by (intro exI[of _ "{}"] exI[of _ ?t] exI[of _ 0]) auto
  next
    case True
    then have "tcp_reass (Some ti) t = Ret (reass_present ?t)" using i(1) by (simp add: tcp_reass_def)
    moreover obtain fl t' n where "reass_present ?t = (fl, t')" "receiving S (p + n) t'"
        "rcv_nxt (tp t') = rcv_nxt (tp ?t) + of_nat n"
        "sbdata (so_rcv (the_so t')) = sbdata (so_rcv (the_so ?t)) @ map S [p ..< p + n]"
        "{int p ..< int (p + n)} \<union> held (p + n) (rcv_nxt (tp t')) (seg_q (tp t')) = held p (rcv_nxt (tp ?t)) (seg_q (tp ?t))"
        "seg_q (tp t') \<noteq> [] \<longrightarrow> ti_seq (hd (seg_q (tp t'))) \<noteq> rcv_nxt (tp t')"
      using reass_present_spec[OF r st'] by blast
    ultimately show ?thesis using i(3) so by (intro exI[of _ fl] exI[of _ t'] exI[of _ n]) auto
  qed
qed

text \<open>(C33) TCP reassembly delivers the peer's stream.  If the segments queued and the one that arrives
  are pieces of one stream, \<^verbatim>\<open>tcp_reass\<close> puts in the receive buffer exactly the next bytes of that
  stream and advances \<^verbatim>\<open>rcv_nxt\<close> by their number; the bytes delivered and those still queued together
  are those queued before and those of the new segment, so none is lost, duplicated or
  reordered; and nothing that is next in sequence stays in the queue.\<close>

theorem tcp_reass_stream:
  assumes "receiving S p t" and "seg_of S p (rcv_nxt (tp t)) ti" and "TCPS_ESTABLISHED \<le> t_state (tp t)"
    and "SS_CANTRCVMORE \<notin> so_state (the_so t)"
    and "seg_q (tp t) = [] \<or> ti_seq (hd (seg_q (tp t))) \<noteq> rcv_nxt (tp t)"
  shows "\<exists>fl t' n. tcp_reass (Some ti) t = Ret (fl, t') \<and> receiving S (p + n) t'
     \<and> rcv_nxt (tp t') = rcv_nxt (tp t) + of_nat n
     \<and> sbdata (so_rcv (the_so t')) = sbdata (so_rcv (the_so t)) @ map S [p ..< p + n]
     \<and> {int p ..< int (p + n)} \<union> held (p + n) (rcv_nxt (tp t')) (seg_q (tp t'))
        = held p (rcv_nxt (tp t)) (seg_q (tp t)) \<union> span p (rcv_nxt (tp t)) ti
     \<and> (seg_q (tp t') = [] \<or> ti_seq (hd (seg_q (tp t'))) \<noteq> rcv_nxt (tp t'))"
  by (rule tcp_reass_spec[OF assms])

text \<open>An established connection that has received \<open>[1, 2]\<close> in sequence, for the examples.\<close>

definition ex_tcpcb :: tcpcb where
  "ex_tcpcb = \<lparr>seg_q = [], t_state = TCPS_ESTABLISHED, t_timer = (\<lambda>_. 0), t_rxtshift = 0, t_rxtcur = 12,
     t_dupacks = 0, t_maxseg = 512, t_force = False, t_flags = {}, t_template = True, snd_una = 100, snd_nxt = 100,
     snd_up = 100, snd_wl1 = 0, snd_wl2 = 0, iss = 99, snd_wnd = 4096, rcv_wnd = 4096, rcv_nxt = 1002,
     rcv_up = 1002, irs = 999, rcv_adv = 5096, snd_max = 100, snd_cwnd = 4096, snd_ssthresh = 4096,
     t_idle = 0, t_rtt = 0, t_rtseq = 0, t_srtt = 0, t_rttvar = 24, t_rttmin = 2, max_sndwnd = 4096,
     TCPOOB_HAVEDATA = False, TCPOOB_HADDATA = False, t_iobc = 0, t_softerror = None\<rparr>"

definition ex_tcp :: tcp where
  "ex_tcp = \<lparr>tp = ex_tcpcb, inp_id = 0,
     tab = \<lparr>pcb = (\<lambda>_. zero_pcb\<lparr>inp_faddr := 9, inp_fport := htons 80, inp_laddr := 1, inp_lport := htons 1025, inp_ppcb := True\<rparr>),
       pcbq = [0], head_lport = 1025, nextpcb = 1, rt_events = []\<rparr>, tcbs = (\<lambda>_. ex_tcpcb),
     stab = \<lparr>sock = (\<lambda>_. (ex_so None None None 0 0)\<lparr>so_rcv := ex_sb [[ex_mbuf [1, 2]]], so_snd := ex_sb []\<rparr>),
       events = [], pfind_ok = (\<lambda>_. False), so_freed = {}\<rparr>,
     mbs = ex_mbsys, tcp_iss = 1, tcpstat = (\<lambda>_. 0), sent = [], ip_answers = [], so_mallocs = [], tcp_last_inpcb = None\<rparr>"

definition ex_seg :: "u32 \<Rightarrow> byte list \<Rightarrow> tseg" where
  "ex_seg sq bs = \<lparr>ti_seq = sq, ti_ack = 100, ti_len = int (length bs), ti_flags = {TH_ACK}, ti_win = 4096,
     ti_urp = 0, ti_m = [ex_mbuf bs]\<rparr>"

lemma ex_rcv: "so_rcv (the_so ex_tcp) = ex_sb [[ex_mbuf [1, 2]]]" "so_state (the_so ex_tcp) = {SS_ISCONNECTING}"
  by (simp_all add: the_so_def ex_tcp_def ex_so_def)

lemma ex_tcp_tp [simp]: "tp ex_tcp = ex_tcpcb"
  by (simp add: ex_tcp_def)

theorem tcp_reass_stream_witness:
  "\<exists>fl t' n. tcp_reass (Some (ex_seg 1002 [3, 4])) ex_tcp = Ret (fl, t')
     \<and> sbdata (so_rcv (the_so t')) = [1, 2] @ map (\<lambda>n. of_nat (n + 1)) [2 ..< 2 + n]
     \<and> rcv_nxt (tp t') = 1002 + of_nat n"
proof -
  have "receiving (\<lambda>n. of_nat (n + 1)) 2 ex_tcp"
    by (simp add: receiving_def ex_rcv queue_inv_def ex_tcpcb_def, simp add: ex_mbuf_simps)
  moreover have "seg_of (\<lambda>n. of_nat (n + 1)) 2 (rcv_nxt (tp ex_tcp)) (ex_seg 1002 [3, 4])"
    by (simp add: seg_of_def rel_def ex_tcpcb_def ex_seg_def ex_mbuf_simps upt_rec)
  moreover have "TCPS_ESTABLISHED \<le> t_state (tp ex_tcp)" "SS_CANTRCVMORE \<notin> so_state (the_so ex_tcp)"
      "seg_q (tp ex_tcp) = []" "rcv_nxt (tp ex_tcp) = 1002"
    by (simp_all add: ex_rcv ex_tcpcb_def)
  moreover have "sbdata (so_rcv (the_so ex_tcp)) = [1, 2]" by (simp add: ex_rcv, simp add: ex_mbuf_simps)
  ultimately show ?thesis
    using tcp_reass_stream[of "\<lambda>n. of_nat (n + 1)" 2 ex_tcp "ex_seg 1002 [3, 4]"] by fastforce
qed

end
