(* ===== verification/Tcp_Output.thy ===== *)
theory Tcp_Output
  imports Tcp_Reass
begin

text \<open>
  TCP output: \<^verbatim>\<open>sys/netinet/tcp_output.c\<close>, with \<^verbatim>\<open>tcp_mss\<close> and \<^verbatim>\<open>tcp_xmit_timer\<close> of \<^verbatim>\<open>tcp_input.c\<close> and
  \<^verbatim>\<open>tcp_quench\<close> of \<^verbatim>\<open>tcp_subr.c\<close>.  \<^verbatim>\<open>tcp_output\<close> is cut at its own paragraphs: how much to send, whether
  to send, building the segment, its header fields, timing, and the call of \<^verbatim>\<open>ip_output\<close>.  Comparisons
  between \<^verbatim>\<open>long\<close> and \<^verbatim>\<open>u_long\<close> are unsigned as in C.  Checksums, the IP header and the trace buffer are
  not modelled; the segments handed to IP are recorded in \<open>sent\<close>.
\<close>

section \<open>Round trip time and segment size\<close>

definition TCP_REXMTVAL :: "tcpcb \<Rightarrow> int" where
  "TCP_REXMTVAL p = t_srtt p div 8 + t_rttvar p"

definition tcp_xmit_timer :: "tcp \<Rightarrow> tcp" where
  "tcp_xmit_timer t = bump rttupdated 1 (updtp (\<lambda>p.
     let p1 = (if t_srtt p \<noteq> 0
        then let delta = to_short (t_rtt p - 1 - t_srtt p div 8);
                 srtt = to_short (t_srtt p + delta);
                 d1 = (if delta < 0 then to_short (- delta) else delta);
                 d2 = to_short (d1 - t_rttvar p div 4);
                 var = to_short (t_rttvar p + d2)
             in p\<lparr>t_srtt := (if srtt \<le> 0 then 1 else srtt), t_rttvar := (if var \<le> 0 then 1 else var)\<rparr>
        else p\<lparr>t_srtt := to_short (t_rtt p * 8), t_rttvar := to_short (t_rtt p * 2)\<rparr>);
         p2 = p1\<lparr>t_rtt := 0, t_rxtshift := 0\<rparr>
     in p2\<lparr>t_rxtcur := TCPT_RANGESET (TCP_REXMTVAL p2) (uint (t_rttmin p2)) TCPTV_REXMTMAX,
           t_softerror := None\<rparr>) t)"

text \<open>The initial round trip time from the route.\<close>

definition mss_rtt :: "rtent \<Rightarrow> tcpcb \<Rightarrow> tcpcb" where
  "mss_rtt rt p = (let rtt = sint (rmx_rtt rt) in
     if t_srtt p = 0 \<and> rtt \<noteq> 0
     then let p1 = (if RTV_MTU \<in> rmx_locks rt
                    then p\<lparr>t_rttmin := of_int (c_div rtt (RTM_RTTUNIT div PR_SLOWHZ))\<rparr> else p);
              p2 = p1\<lparr>t_srtt := to_short (c_div rtt (RTM_RTTUNIT div (PR_SLOWHZ * 8)))\<rparr>;
              p3 = p2\<lparr>t_rttvar := (if rmx_rttvar rt \<noteq> 0
                     then to_short (uint (rmx_rttvar rt) div (RTM_RTTUNIT div (PR_SLOWHZ * 4)))
                     else to_short (c_div (t_srtt p2 * 4) 8))\<rparr>
          in p3\<lparr>t_rxtcur := TCPT_RANGESET ((t_srtt p3 div 4 + t_rttvar p3) div 2) (uint (t_rttmin p3)) TCPTV_REXMTMAX\<rparr>
     else p)"

definition mss_path :: "tcpcfg \<Rightarrow> u32 \<Rightarrow> rtent \<Rightarrow> int" where
  "mss_path cfg faddr rt =
     (if rmx_mtu rt \<noteq> 0 then sint (rmx_mtu rt - of_int TCPIPHDR)
      else let m = rt_if_mtu rt - TCPIPHDR;
               m1 = (if m > MCLBYTES then m - m mod MCLBYTES else m)
           in if in_localaddr cfg faddr then m1 else u_min m1 (tcp_mssdflt cfg))"

text \<open>Fitting the buffers to the segment size.\<close>

definition mss_bufs :: "tcpcfg \<Rightarrow> rtent \<Rightarrow> int \<Rightarrow> tcp \<Rightarrow> int \<times> tcp" where
  "mss_bufs cfg rt mss t =
     (let b1 = (if rmx_sendpipe rt \<noteq> 0 then rmx_sendpipe rt else sb_hiwat (so_snd (the_so t)));
          (mss1, t1) = (if b1 < of_int mss then (sint b1, t)
             else (mss, updso (\<lambda>x. x\<lparr>so_snd := snd (sbreserve (sb_max cfg)
                     (of_int (u_min (uint b1) SB_MAX) div of_int mss * of_int mss) (so_snd x))\<rparr>) t));
          t2 = updtp (\<lambda>p. p\<lparr>t_maxseg := of_int mss1\<rparr>) t1;
          b2 = (if rmx_recvpipe rt \<noteq> 0 then rmx_recvpipe rt else sb_hiwat (so_rcv (the_so t2)));
          t3 = (if b2 > of_int mss1
             then updso (\<lambda>x. x\<lparr>so_rcv := snd (sbreserve (sb_max cfg)
                     (of_int (u_min (uint b2) SB_MAX) div of_int mss1 * of_int mss1) (so_rcv x))\<rparr>) t2
             else t2)
      in (mss1, t3))"

definition tcp_mss :: "tcpcfg \<Rightarrow> u16 \<Rightarrow> tcp \<Rightarrow> int \<times> tcp" where
  "tcp_mss cfg offer t =
     (let t0 = (if ro_rt (inp t) = None \<and> inp_faddr (inp t) \<noteq> INADDR_ANY
                then updinp (\<lambda>q. q\<lparr>ro_dst := inp_faddr q, ro_rt := rtalloc (inc cfg) (inp_faddr q)\<rparr>) t else t) in
      case ro_rt (inp t0) of
        None \<Rightarrow> (tcp_mssdflt cfg, t0)
      | Some rt \<Rightarrow>
          let t1 = updtp (mss_rtt rt) t0;
              m0 = mss_path cfg (inp_faddr (inp t0)) rt;
              m1 = (if offer \<noteq> 0 then u_min m0 (uint offer) else m0);
              mss = u_max m1 32;
              (mss1, t2) = (if mss < uint (t_maxseg (tp t1)) \<or> offer \<noteq> 0 then mss_bufs cfg rt mss t1 else (mss, t1));
              t3 = updtp (\<lambda>p. p\<lparr>snd_cwnd := of_int mss1\<rparr>) t2;
              t4 = (if rmx_ssthresh rt \<noteq> 0
                 then updtp (\<lambda>p. p\<lparr>snd_ssthresh := of_int (u_max (2 * mss1) (uint (rmx_ssthresh rt)))\<rparr>) t3 else t3)
          in (mss1, t4))"

definition tcp_quench :: "tcp \<Rightarrow> tcp" where
  "tcp_quench t = (if tp_live t then updtp (\<lambda>p. p\<lparr>snd_cwnd := t_maxseg p\<rparr>) t else t)"

section \<open>Persist timer\<close>

definition tcp_setpersist :: "tcpcb \<Rightarrow> tcpcb kres" where
  "tcp_setpersist p =
     (let v = (t_srtt p div 4 + t_rttvar p) div 2 in
      if t_timer p TCPT_REXMT \<noteq> 0 then Panic ''tcp_output REXMT''
      else let p1 = set_timer TCPT_PERSIST
                 (TCPT_RANGESET (v * tcp_backoff (t_rxtshift p)) TCPTV_PERSMIN TCPTV_PERSMAX) p
           in Ret (if t_rxtshift p1 < TCP_MAXRXTSHIFT then p1\<lparr>t_rxtshift := t_rxtshift p1 + 1\<rparr> else p1))"

section \<open>How much to send\<close>

record outlen =
  ol_off :: int
  ol_len :: int
  ol_flags :: "th_flag set"
  ol_more :: bool

definition tcp_output_len :: "tcp \<Rightarrow> outlen \<times> tcp" where
  "tcp_output_len t =
     (let p = tp t;
          off = sint (snd_nxt p - snd_una p);
          win0 = min (uint (snd_wnd p)) (uint (snd_cwnd p));
          (win, p1) = (if t_force p
             then if win0 = 0 then (1, p) else (win0, (set_timer TCPT_PERSIST 0 p)\<lparr>t_rxtshift := 0\<rparr>)
             else (win0, p));
          flags = tcp_outflags (t_state p1);
          cc = sb_cc (so_snd (the_so t));
          len0 = sint ((if cc < of_int win then cc else of_int win) - of_int off);
          (len1, p2) = (if len0 < 0
             then (0, if win = 0 then (set_timer TCPT_REXMT 0 p1)\<lparr>snd_nxt := snd_una p1\<rparr> else p1)
             else (len0, p1));
          (len2, alot) = (if len1 > uint (t_maxseg p2) then (uint (t_maxseg p2), True) else (len1, False));
          flags1 = (if SEQ_LT (snd_nxt p2 + of_int len2) (snd_una p2 + cc) then flags - {TH_FIN} else flags)
      in (\<lparr>ol_off = off, ol_len = len2, ol_flags = flags1, ol_more = alot\<rparr>, updtp (\<lambda>_. p2) t))"

section \<open>Whether to send\<close>

definition send_data :: "bool \<Rightarrow> outlen \<Rightarrow> tcp \<Rightarrow> bool" where
  "send_data idle o1 t = (let p = tp t; len = ol_len o1 in
     len \<noteq> 0 \<and> (len = uint (t_maxseg p)
       \<or> (idle \<or> TF_NODELAY \<in> t_flags p) \<and> (of_int (len + ol_off o1) :: u32) \<ge> sb_cc (so_snd (the_so t))
       \<or> t_force p \<or> len \<ge> uint (max_sndwnd p) div 2 \<or> SEQ_LT (snd_nxt p) (snd_max p)))"

definition send_window :: "tcp \<Rightarrow> bool" where
  "send_window t = (let p = tp t; win = sbspace (so_rcv (the_so t)) in
     win > 0 \<and> (let adv = sint (of_int win - (rcv_adv p - rcv_nxt p)) in
        adv \<ge> 2 * uint (t_maxseg p) \<or> (of_int (2 * adv) :: u32) \<ge> sb_hiwat (so_rcv (the_so t))))"

definition send_control :: "outlen \<Rightarrow> tcp \<Rightarrow> bool" where
  "send_control o1 t = (let p = tp t in
     TF_ACKNOW \<in> t_flags p \<or> TH_SYN \<in> ol_flags o1 \<or> TH_RST \<in> ol_flags o1 \<or> SEQ_GT (snd_up p) (snd_una p)
     \<or> TH_FIN \<in> ol_flags o1 \<and> (TF_SENTFIN \<notin> t_flags p \<or> snd_nxt p = snd_una p))"

definition tcp_output_idle :: "tcp \<Rightarrow> tcp kres" where
  "tcp_output_idle t =
     (if sb_cc (so_snd (the_so t)) \<noteq> 0 \<and> t_timer (tp t) TCPT_REXMT = 0 \<and> t_timer (tp t) TCPT_PERSIST = 0
      then kmap (\<lambda>p. updtp (\<lambda>_. p) t) (tcp_setpersist ((tp t)\<lparr>t_rxtshift := 0\<rparr>))
      else Ret t)"

section \<open>Building and sending a segment\<close>

definition first_rec :: "sockbuf \<Rightarrow> chain" where
  "first_rec sb = (case sb_mb sb of [] \<Rightarrow> [] | c # _ \<Rightarrow> c)"

definition count_sent :: "outlen \<Rightarrow> tcp \<Rightarrow> tcp" where
  "count_sent o1 t = (let p = tp t; len = ol_len o1 in
     if len \<noteq> 0
     then if t_force p \<and> len = 1 then bump sndprobe 1 t
          else if SEQ_LT (snd_nxt p) (snd_max p) then bump sndrexmitpack 1 (bump sndrexmitbyte (of_int len) t)
          else bump sndpack 1 (bump sndbyte (of_int len) t)
     else if TF_ACKNOW \<in> t_flags p then bump sndacks 1 t
          else if ol_flags o1 \<inter> {TH_SYN, TH_FIN, TH_RST} \<noteq> {} then bump sndctrl 1 t
          else if SEQ_GT (snd_up p) (snd_una p) then bump sndurg 1 t
          else bump sndwinup 1 t)"

text \<open>The data of the segment; \<open>None\<close> is \<^verbatim>\<open>ENOBUFS\<close>.  A copy that fails leaves a segment without data.\<close>

definition tcp_output_data ::
  "tcpcfg \<Rightarrow> int \<Rightarrow> outlen \<Rightarrow> tcp \<Rightarrow> ((byte list \<times> outlen) option \<times> tcp) kres" where
  "tcp_output_data cfg hdrlen o1 t =
     (let t1 = count_sent o1 t; sb = so_snd (the_so t) in
      case MGETHDR MT_HEADER (mbs t1) of
        (None, s1) \<Rightarrow> Ret (None, t1\<lparr>mbs := s1\<rparr>)
      | (Some m, s1) \<Rightarrow>
          if ol_len o1 = 0 then Ret (Some ([], o1), t1\<lparr>mbs := s1\<rparr>)
          else let push = (\<lambda>o2. if (of_int (ol_off o2 + ol_len o2) :: u32) = sb_cc sb
                             then o2\<lparr>ol_flags := insert TH_PUSH (ol_flags o2)\<rparr> else o2) in
            if ol_len o1 \<le> MHLEN - hdrlen - max_linkhdr cfg
            then kmap (\<lambda>bs. (Some (bs, push o1), t1\<lparr>mbs := s1\<rparr>)) (m_copydata (first_rec sb) (ol_off o1) (ol_len o1))
            else kmap (\<lambda>(c, s2). (Some (mdata c, push (if c = [] then o1\<lparr>ol_len := 0\<rparr> else o1)), t1\<lparr>mbs := s2\<rparr>))
                   (m_copym (first_rec sb) (ol_off o1) (ol_len o1) s1))"

text \<open>Header fields: a FIN sent again keeps its sequence number, the window never shrinks.\<close>

definition out_window :: "int \<Rightarrow> tcp \<Rightarrow> int" where
  "out_window w0 t =
     (let p = tp t;
          w1 = (if w0 < uint (sb_hiwat (so_rcv (the_so t)) div 4) \<and> w0 < uint (t_maxseg p) then 0 else w0);
          w2 = (if w1 > TCP_MAXWIN then TCP_MAXWIN else w1);
          adv = sint (rcv_adv p - rcv_nxt p)
      in if w2 < adv then adv else w2)"

definition tcp_output_fill :: "byte list \<Rightarrow> int option \<Rightarrow> int \<Rightarrow> outlen \<Rightarrow> tcp \<Rightarrow> tout \<times> tcp" where
  "tcp_output_fill bs mss win o1 t =
     (let p = tp t;
          p1 = (if TH_FIN \<in> ol_flags o1 \<and> TF_SENTFIN \<in> t_flags p \<and> snd_nxt p = snd_max p
                then p\<lparr>snd_nxt := snd_nxt p - 1\<rparr> else p);
          urg = SEQ_GT (snd_up p1) (snd_nxt p1)
      in (\<lparr>o_seq = snd_nxt p1, o_ack = rcv_nxt p1,
           o_flags = (if urg then insert TH_URG (ol_flags o1) else ol_flags o1), o_win = of_int win,
           o_urp = (if urg then ucast (snd_up p1 - snd_nxt p1) else 0), o_mss = mss, o_data = bs\<rparr>,
          updtp (\<lambda>_. if urg then p1 else p1\<lparr>snd_up := snd_una p1\<rparr>) t))"

definition tcp_output_time :: "outlen \<Rightarrow> tcp \<Rightarrow> tcp" where
  "tcp_output_time o1 t =
     (let p = tp t; len = of_int (ol_len o1) in
      if \<not> t_force p \<or> t_timer p TCPT_PERSIST = 0
      then let startseq = snd_nxt p;
               p1 = (if TH_SYN \<in> ol_flags o1 then p\<lparr>snd_nxt := snd_nxt p + 1\<rparr> else p);
               p2 = (if TH_FIN \<in> ol_flags o1
                     then p1\<lparr>snd_nxt := snd_nxt p1 + 1, t_flags := insert TF_SENTFIN (t_flags p1)\<rparr> else p1);
               p3 = p2\<lparr>snd_nxt := snd_nxt p2 + len\<rparr>;
               new = SEQ_GT (snd_nxt p3) (snd_max p3);
               p4 = (if new then p3\<lparr>snd_max := snd_nxt p3\<rparr> else p3);
               timed = (new \<and> t_rtt p4 = 0);
               p5 = (if timed then p4\<lparr>t_rtt := 1, t_rtseq := startseq\<rparr> else p4);
               p6 = (if t_timer p5 TCPT_REXMT = 0 \<and> snd_nxt p5 \<noteq> snd_una p5
                     then let r = set_timer TCPT_REXMT (t_rxtcur p5) p5
                          in if t_timer r TCPT_PERSIST \<noteq> 0
                             then (set_timer TCPT_PERSIST 0 r)\<lparr>t_rxtshift := 0\<rparr> else r
                     else p5)
           in (if timed then bump segstimed 1 else id) (updtp (\<lambda>_. p6) t)
      else if SEQ_GT (snd_nxt p + len) (snd_max p) then updtp (\<lambda>q. q\<lparr>snd_max := snd_nxt q + len\<rparr>) t
      else t)"

definition ip_output :: "tout \<Rightarrow> tcp \<Rightarrow> errno option \<times> tcp" where
  "ip_output seg t = (case ip_answers t of [] \<Rightarrow> (None, t\<lparr>sent := sent t @ [seg]\<rparr>)
     | None # r \<Rightarrow> (None, t\<lparr>sent := sent t @ [seg], ip_answers := r\<rparr>)
     | Some e # r \<Rightarrow> (Some e, t\<lparr>ip_answers := r\<rparr>))"

definition tcp_output_error :: "errno \<Rightarrow> tcp \<Rightarrow> errno option \<times> tcp" where
  "tcp_output_error e t =
     (if e = ENOBUFS then (None, tcp_quench t)
      else if (e = EHOSTUNREACH \<or> e = ENETDOWN) \<and> TCPS_HAVERCVDSYN (t_state (tp t))
      then (None, updtp (\<lambda>p. p\<lparr>t_softerror := Some e\<rparr>) t)
      else (Some e, t))"

definition tcp_output_ship :: "tout \<Rightarrow> outlen \<Rightarrow> int \<Rightarrow> tcp \<Rightarrow> bool \<times> errno option \<times> tcp" where
  "tcp_output_ship seg o1 win t = (case ip_output seg t of
       (Some e, t1) \<Rightarrow> (False, tcp_output_error e t1)
     | (None, t1) \<Rightarrow>
         let t2 = bump sndtotal 1 t1;
             t3 = updtp (\<lambda>p. let q = (if win > 0 \<and> SEQ_GT (rcv_nxt p + of_int win) (rcv_adv p)
                                then p\<lparr>rcv_adv := rcv_nxt p + of_int win\<rparr> else p)
                            in q\<lparr>t_flags := t_flags q - {TF_ACKNOW, TF_DELACK}\<rparr>) t2
         in (ol_more o1, None, t3))"

text \<open>One pass from \<^verbatim>\<open>again\<close>; the flag says whether there is more to send.\<close>

definition tcp_output_once :: "tcpcfg \<Rightarrow> bool \<Rightarrow> tcp \<Rightarrow> (bool \<times> errno option \<times> tcp) kres" where
  "tcp_output_once cfg idle t =
     (let (o1, t1) = tcp_output_len t in
      if \<not> (send_data idle o1 t1 \<or> send_window t1 \<or> send_control o1 t1)
      then kmap (\<lambda>t2. (False, None, t2)) (tcp_output_idle t1)
      else let opts = (TH_SYN \<in> ol_flags o1 \<and> TF_NOOPT \<notin> t_flags (tp t1));
               win0 = sbspace (so_rcv (the_so t1));
               (mss, t2) = (if opts then case tcp_mss cfg 0 t1 of (m, t') \<Rightarrow> (Some m, t') else (None, t1));
               hdrlen = TCPIPHDR + (if opts then 4 else 0)
        in kbind (tcp_output_data cfg hdrlen o1 t2) (\<lambda>(res, t3). case res of
             None \<Rightarrow> Ret (False, tcp_output_error ENOBUFS t3)
           | Some (bs, o2) \<Rightarrow>
               if \<not> t_template (tp t3) then Panic ''tcp_output''
               else let win = out_window win0 t3;
                        (seg, t4) = tcp_output_fill bs mss win o2 t3
                    in Ret (tcp_output_ship seg o2 win (tcp_output_time o2 t4))))"

partial_function (option) tcp_output_loop :: "tcpcfg \<Rightarrow> bool \<Rightarrow> tcp \<Rightarrow> (errno option \<times> tcp) run" where
  "tcp_output_loop cfg idle t = (case tcp_output_once cfg idle t of
       Ret (again, e, t1) \<Rightarrow> if again then tcp_output_loop cfg idle t1 else Some (Ret (e, t1))
     | Panic x \<Rightarrow> Some (Panic x)
     | Fault \<Rightarrow> Some Fault)"

definition tcp_output :: "tcpcfg \<Rightarrow> tcp \<Rightarrow> (errno option \<times> tcp) run" where
  "tcp_output cfg t =
     (let idle = (snd_max (tp t) = snd_una (tp t));
          t1 = (if idle \<and> t_idle (tp t) \<ge> t_rxtcur (tp t) then updtp (\<lambda>p. p\<lparr>snd_cwnd := t_maxseg p\<rparr>) t else t)
      in tcp_output_loop cfg idle t1)"

section \<open>What is sent\<close>

text \<open>The parts of the connection that building a segment does not touch.\<close>

definition same_send :: "tcp \<Rightarrow> tcp \<Rightarrow> bool" where
  "same_send t t' = (sb_mb (so_snd (the_so t')) = sb_mb (so_snd (the_so t)) \<and> sb_cc (so_snd (the_so t')) = sb_cc (so_snd (the_so t))
     \<and> t_template (tp t') = t_template (tp t) \<and> sent t' = sent t \<and> snd_una (tp t') = snd_una (tp t)
     \<and> snd_max (tp t') = snd_max (tp t) \<and> t_flags (tp t') = t_flags (tp t))"

lemma same_send_refl: "same_send t t"
  by (simp add: same_send_def)

lemma same_send_trans: "same_send a b \<Longrightarrow> same_send b c \<Longrightarrow> same_send a c"
  by (simp add: same_send_def)

lemma sent_simps [simp]:
  "sent (bump k n t) = sent t" "sent (updtp f t) = sent t" "sent (updso g t) = sent t" "sent (onstab h t) = sent t"
  by (simp_all add: bump_def updtp_def updso_def onstab_def)

lemma same_send_tcp_mss:
  assumes "tcp_mss cfg ofr t = (m, t')"
  shows "same_send t t'" and "mbs t' = mbs t" and "snd_nxt (tp t') = snd_nxt (tp t)"
proof -
  have res: "sb_mb (snd (sbreserve a b sb)) = sb_mb sb" "sb_cc (snd (sbreserve a b sb)) = sb_cc sb" for a b sb
    using sbreserve_fields[of a b sb] by (metis prod.collapse)+
  have rt: "t_template (mss_rtt r p) = t_template p" "snd_una (mss_rtt r p) = snd_una p"
      "snd_max (mss_rtt r p) = snd_max p" "t_flags (mss_rtt r p) = t_flags p" "snd_nxt (mss_rtt r p) = snd_nxt p" for r p
    by (simp_all add: mss_rtt_def Let_def)
  have b: "same_send s (snd (mss_bufs cfg r k s)) \<and> mbs (snd (mss_bufs cfg r k s)) = mbs s
      \<and> snd_nxt (tp (snd (mss_bufs cfg r k s))) = snd_nxt (tp s)" for r k s
    by (auto simp: mss_bufs_def Let_def same_send_def res split: prod.splits if_splits)
  have so: "the_so (updinp f t) = the_so t" if "\<And>q. inp_socket (f q) = inp_socket q" for f
    by (simp add: the_so_def so_id_def that)
  have r0: "same_send t (updinp f t)" if "\<And>q. inp_socket (f q) = inp_socket q" for f
    by (simp add: same_send_def so[OF that], simp add: updinp_def)
  have u: "same_send s (updtp f s)" if "\<And>p. t_template (f p) = t_template p" "\<And>p. snd_una (f p) = snd_una p"
      "\<And>p. snd_max (f p) = snd_max p" "\<And>p. t_flags (f p) = t_flags p" for s f
    using that by (simp add: same_send_def)
  define t0 where "t0 = (if ro_rt (inp t) = None \<and> inp_faddr (inp t) \<noteq> INADDR_ANY
      then updinp (\<lambda>q. q\<lparr>ro_dst := inp_faddr q, ro_rt := rtalloc (inc cfg) (inp_faddr q)\<rparr>) t else t)"
  have t0: "same_send t t0" "mbs t0 = mbs t" "snd_nxt (tp t0) = snd_nxt (tp t)" using r0 by (simp_all add: t0_def same_send_refl)
  show "same_send t t'" "mbs t' = mbs t" "snd_nxt (tp t') = snd_nxt (tp t)"
  proof (atomize (full), cases "ro_rt (inp t0)")
    case None
    then show "same_send t t' \<and> mbs t' = mbs t \<and> snd_nxt (tp t') = snd_nxt (tp t)" using assms t0 by (simp add: tcp_mss_def t0_def[symmetric])
  next
    case (Some rt)
    define t1 where "t1 = updtp (mss_rtt rt) t0"
    define mss where "mss = u_max (if ofr \<noteq> 0 then u_min (mss_path cfg (inp_faddr (inp t0)) rt) (uint ofr)
      else mss_path cfg (inp_faddr (inp t0)) rt) 32"
    obtain m2 t2 where t2: "(if mss < uint (t_maxseg (tp t1)) \<or> ofr \<noteq> 0 then mss_bufs cfg rt mss t1 else (mss, t1)) = (m2, t2)"
      by (metis surj_pair)
    have s1: "same_send t0 t1" "mbs t1 = mbs t0" "snd_nxt (tp t1) = snd_nxt (tp t0)"
      unfolding t1_def using u[of "mss_rtt rt"] rt by simp_all
    have s2: "same_send t1 t2 \<and> mbs t2 = mbs t1 \<and> snd_nxt (tp t2) = snd_nxt (tp t1)"
      using t2 b[of t1 rt mss] same_send_refl[of t1] by (auto split: if_splits)
    define t3 where "t3 = updtp (\<lambda>p. p\<lparr>snd_cwnd := of_int m2\<rparr>) t2"
    have s3: "same_send t2 t3" "mbs t3 = mbs t2" "snd_nxt (tp t3) = snd_nxt (tp t2)"
      unfolding t3_def by (rule u) simp_all
    have "t' = (if rmx_ssthresh rt \<noteq> 0
        then updtp (\<lambda>p. p\<lparr>snd_ssthresh := of_int (u_max (2 * m2) (uint (rmx_ssthresh rt)))\<rparr>) t3 else t3)"
      using assms Some t2 unfolding tcp_mss_def t0_def[symmetric] Let_def mss_def t1_def t3_def by (auto split: prod.splits)
    then have "same_send t3 t' \<and> mbs t' = mbs t3 \<and> snd_nxt (tp t') = snd_nxt (tp t3)" by (auto simp: same_send_def)
    then show "same_send t t' \<and> mbs t' = mbs t \<and> snd_nxt (tp t') = snd_nxt (tp t)"
      using t0 s1 s2 s3 same_send_trans by (metis (no_types))
  qed
qed

text \<open>The window \<^verbatim>\<open>tcp_output\<close> works with, and how much it would like to send.\<close>

definition send_win :: "tcpcb \<Rightarrow> int" where
  "send_win p = (let w = min (uint (snd_wnd p)) (uint (snd_cwnd p)) in if t_force p \<and> w = 0 then 1 else w)"

definition send_want :: "tcp \<Rightarrow> int" where
  "send_want t = (let p = tp t; cc = sb_cc (so_snd (the_so t)); win = send_win p in
     sint ((if cc < of_int win then cc else of_int win) - of_int (sint (snd_nxt p - snd_una p))))"

definition kept_tp :: "tcpcb \<Rightarrow> tcpcb \<Rightarrow> bool" where
  "kept_tp p q = (t_state q = t_state p \<and> seg_q q = seg_q p \<and> rcv_nxt q = rcv_nxt p \<and> t_template q = t_template p
     \<and> snd_una q = snd_una p \<and> t_force q = t_force p \<and> snd_wnd q = snd_wnd p \<and> t_maxseg q = t_maxseg p)"

lemma tcp_output_len_form:
  assumes "tcp_output_len t = (o1, t1)"
  obtains p2 where "t1 = updtp (\<lambda>_. p2) t" and "kept_tp (tp t) p2" and "snd_cwnd p2 = snd_cwnd (tp t)" and "snd_max p2 = snd_max (tp t)"
    and "t_flags p2 = t_flags (tp t)" and "send_want t < 0 \<or> snd_nxt p2 = snd_nxt (tp t)"
    and "ol_off o1 = sint (snd_nxt (tp t) - snd_una (tp t))" and "ol_more o1 = (uint (t_maxseg (tp t)) < max 0 (send_want t))"
    and "ol_len o1 = min (uint (t_maxseg (tp t))) (max 0 (send_want t))"
    and "ol_flags o1 = (if SEQ_LT (snd_nxt p2 + of_int (ol_len o1)) (snd_una (tp t) + sb_cc (so_snd (the_so t)))
        then tcp_outflags (t_state (tp t)) - {TH_FIN} else tcp_outflags (t_state (tp t)))"
proof -
  let ?p = "tp t"
  let ?p1 = "if t_force ?p \<and> min (uint (snd_wnd ?p)) (uint (snd_cwnd ?p)) \<noteq> 0 then (set_timer TCPT_PERSIST 0 ?p)\<lparr>t_rxtshift := 0\<rparr> else ?p"
  let ?p2 = "if send_want t < 0 \<and> send_win ?p = 0 then (set_timer TCPT_REXMT 0 ?p1)\<lparr>snd_nxt := snd_una ?p1\<rparr> else ?p1"
  have w: "(if t_force ?p then if min (uint (snd_wnd ?p)) (uint (snd_cwnd ?p)) = 0 then (1, ?p)
        else (min (uint (snd_wnd ?p)) (uint (snd_cwnd ?p)), (set_timer TCPT_PERSIST 0 ?p)\<lparr>t_rxtshift := 0\<rparr>)
      else (min (uint (snd_wnd ?p)) (uint (snd_cwnd ?p)), ?p)) = (send_win ?p, ?p1)"
    by (simp add: send_win_def Let_def)
  have l: "(if k < 0 then (0, if send_win ?p = 0 then q else q') else (k, q')) = (max 0 k, if k < 0 \<and> send_win ?p = 0 then q else q')"
      "(if L > m then (m, True) else (L, False)) = (min m L, m < L)" for k L m :: int and q q' :: tcpcb by auto
  have p: "t_state ?p1 = t_state ?p" "t_maxseg ?p2 = t_maxseg ?p" "snd_una ?p2 = snd_una ?p" by (simp_all add: set_timer_def)
  have eq: "(o1, t1) = (\<lparr>ol_off = sint (snd_nxt ?p - snd_una ?p), ol_len = min (uint (t_maxseg ?p)) (max 0 (send_want t)),
        ol_flags = (if SEQ_LT (snd_nxt ?p2 + of_int (min (uint (t_maxseg ?p)) (max 0 (send_want t)))) (snd_una ?p + sb_cc (so_snd (the_so t)))
          then tcp_outflags (t_state ?p) - {TH_FIN} else tcp_outflags (t_state ?p)),
        ol_more = (uint (t_maxseg ?p) < max 0 (send_want t))\<rparr>, updtp (\<lambda>_. ?p2) t)"
    unfolding assms(1)[symmetric] tcp_output_len_def Let_def w prod.case l send_want_def[unfolded Let_def, symmetric] p ..
  show thesis
    by (rule that[of ?p2]) (use eq in \<open>simp_all add: kept_tp_def set_timer_def\<close>)
qed

lemma send_win_bounds: "0 \<le> send_win p" "send_win p < 2 ^ 16"
  "send_win p \<le> max (if t_force p then 1 else 0) (min (uint (snd_wnd p)) (uint (snd_cwnd p)))"
  using uint_bounded[of "snd_wnd p"] by (auto simp: send_win_def Let_def)

lemma send_want_eq:
  assumes "sb_ok (so_snd (the_so t))" and "length (sbdata (so_snd (the_so t))) < 2 ^ 31" and "0 \<le> sint (snd_nxt (tp t) - snd_una (tp t))"
  shows "send_want t = min (int (length (sbdata (so_snd (the_so t))))) (send_win (tp t)) - sint (snd_nxt (tp t) - snd_una (tp t))"
proof -
  let ?p = "tp t" and ?cc = "sb_cc (so_snd (the_so t))"
  have cc: "uint ?cc = int (length (sbdata (so_snd (the_so t))))" using assms(1,2) by (simp add: sb_ok_def uint_of_nat_u32)
  note w = send_win_bounds[of ?p]
  have "(if ?cc < of_int (send_win ?p) then ?cc else of_int (send_win ?p)) = of_int (min (uint ?cc) (send_win ?p))"
    using w(1,2) by (auto simp: word_less_def uint_of_int_u32 min_def)
  then show ?thesis unfolding send_want_def Let_def cc[symmetric]
    by (intro sint_eqI) (use w(1,2) cc assms(2,3) sint_lt[of "snd_nxt ?p - snd_una ?p"] in \<open>simp_all add: min_def\<close>)
qed

lemma tcp_output_len_spec:
  assumes "tcp_output_len t = (o1, t1)" and "sb_ok (so_snd (the_so t))" and "length (sbdata (so_snd (the_so t))) < 2 ^ 31"
    and "0 \<le> sint (snd_nxt (tp t) - snd_una (tp t))"
  shows "ol_off o1 = sint (snd_nxt (tp t) - snd_una (tp t))" and "0 \<le> ol_len o1"
    and "ol_len o1 \<noteq> 0 \<Longrightarrow> ol_len o1 \<le> uint (t_maxseg (tp t))
        \<and> ol_off o1 + ol_len o1 \<le> int (length (sbdata (so_snd (the_so t))))
        \<and> ol_off o1 + ol_len o1 \<le> max (if t_force (tp t) then 1 else 0) (min (uint (snd_wnd (tp t))) (uint (snd_cwnd (tp t))))"
    and "same_send t t1" and "mbs t1 = mbs t" and "ol_len o1 \<noteq> 0 \<Longrightarrow> snd_nxt (tp t1) = snd_nxt (tp t)"
proof -
  obtain p2 where p2: "t1 = updtp (\<lambda>_. p2) t" "kept_tp (tp t) p2" "snd_max p2 = snd_max (tp t)" "t_flags p2 = t_flags (tp t)"
      "send_want t < 0 \<or> snd_nxt p2 = snd_nxt (tp t)" "ol_off o1 = sint (snd_nxt (tp t) - snd_una (tp t))"
      "ol_len o1 = min (uint (t_maxseg (tp t))) (max 0 (send_want t))"
    using tcp_output_len_form[OF assms(1)] by metis
  show "ol_off o1 = sint (snd_nxt (tp t) - snd_una (tp t))" by (rule p2(6))
  show "0 \<le> ol_len o1" using p2(7) by simp
  show "same_send t t1" "mbs t1 = mbs t" using p2(1-4) by (simp_all add: same_send_def kept_tp_def)
  assume "ol_len o1 \<noteq> 0"
  then have pos: "0 < send_want t" using p2(7) by (cases "send_want t \<le> 0") (simp_all add: min_def split: if_splits)
  then show "snd_nxt (tp t1) = snd_nxt (tp t)" using p2(1,5) by simp
  show "ol_len o1 \<le> uint (t_maxseg (tp t)) \<and> ol_off o1 + ol_len o1 \<le> int (length (sbdata (so_snd (the_so t))))
        \<and> ol_off o1 + ol_len o1 \<le> max (if t_force (tp t) then 1 else 0) (min (uint (snd_wnd (tp t))) (uint (snd_cwnd (tp t))))"
    using p2(6,7) pos send_want_eq[OF assms(2-4)] send_win_bounds(3)[of "tp t"] by (simp add: min_def max_def split: if_splits)
qed

lemma same_send_count: "same_send t (count_sent o1 t)" "mbs (count_sent o1 t) = mbs t" "the_so (count_sent o1 t) = the_so t"
    "tp (count_sent o1 t) = tp t"
  by (simp_all add: count_sent_def Let_def same_send_def)

lemma same_send_mbs: "same_send t (t'\<lparr>mbs := s\<rparr>) = same_send t t'"
  by (simp add: same_send_def the_so_def)

text \<open>A send buffer of a stream socket: at most one record, less than \<^verbatim>\<open>M_COPYALL\<close> bytes.\<close>

definition send_ok :: "tcp \<Rightarrow> bool" where
  "send_ok t = (sb_ok (so_snd (the_so t)) \<and> length (sb_mb (so_snd (the_so t))) \<le> 1
     \<and> int (length (sbdata (so_snd (the_so t)))) < M_COPYALL)"

lemma send_ok_first:
  assumes "send_ok t" and "same_send t t'"
  shows "mdata (first_rec (so_snd (the_so t'))) = sbdata (so_snd (the_so t))" and "chain_wf (first_rec (so_snd (the_so t')))"
    and "first_rec (so_snd (the_so t')) = first_rec (so_snd (the_so t))"
  using assms by (auto simp: send_ok_def same_send_def first_rec_def sbdata_def sb_ok_def split: list.splits)

lemma tcp_output_data_spec:
  assumes "send_ok t0" and "same_send t0 t" and "0 \<le> ol_off o1" and "0 \<le> ol_len o1"
    and "ol_len o1 \<noteq> 0 \<Longrightarrow> ol_off o1 + ol_len o1 \<le> int (length (sbdata (so_snd (the_so t0))))"
  shows "\<exists>res t'. tcp_output_data cfg h o1 t = Ret (res, t') \<and> same_send t0 t' \<and> tp t' = tp t \<and>
     (case res of None \<Rightarrow> True | Some (bs, o2) \<Rightarrow> bs = [] \<or>
        bs = take (nat (ol_len o1)) (drop (nat (ol_off o1)) (sbdata (so_snd (the_so t0)))))"
proof -
  let ?c = "first_rec (so_snd (the_so t))"
  note c = send_ok_first[OF assms(1,2)]
  have ss: "same_send t0 (count_sent o1 t)" using same_send_trans[OF assms(2) same_send_count(1)] .
  obtain m s1 where g: "MGETHDR MT_HEADER (mbs (count_sent o1 t)) = (m, s1)" by fastforce
  have tpm: "tp (t\<lparr>mbs := s\<rparr>) = tp t" for t :: tcp and s by simp
  show ?thesis
  proof (cases "m = None \<or> ol_len o1 = 0")
    case True
    then show ?thesis using g ss by (cases m) (auto simp: tcp_output_data_def Let_def same_send_mbs same_send_count)
  next
    case False
    then have len: "0 < ol_len o1" "ol_off o1 + ol_len o1 \<le> int (length (mdata ?c))" using assms(4,5) c(1) by auto
    have ne: "?c \<noteq> []" using len assms(3) by auto
    have "int (length (mdata ?c)) < M_COPYALL" using assms(1) c(1) by (simp add: send_ok_def)
    then obtain cp s2 where cp: "m_copym ?c (ol_off o1) (ol_len o1) s1 = Ret (cp, s2)"
        "cp \<noteq> [] \<longrightarrow> mdata cp = take (nat (ol_len o1)) (drop (nat (ol_off o1)) (mdata ?c))"
      using m_copym_data[OF c(2) ne _ assms(3,4) len(2)] by blast
    have cd: "m_copydata ?c (ol_off o1) (ol_len o1) = Ret (take (nat (ol_len o1)) (drop (nat (ol_off o1)) (mdata ?c)))"
      using len assms(3) by (simp add: m_copydata_lemma)
    show ?thesis using False g ss cp cd c(1)
      by (cases "cp = []") (auto simp: tcp_output_data_def Let_def same_send_mbs same_send_count)
  qed
qed

text \<open>What a segment sent from state \<open>t\<close> may hold: at most a maximal segment of the unacknowledged data, at the
  place \<^verbatim>\<open>snd_nxt\<close> says, within the peer's window and the congestion window (or one byte beyond
  when forced).\<close>

definition good_segment :: "tcp \<Rightarrow> tout \<Rightarrow> bool" where
  "good_segment t seg = (let p = tp t; off = sint (snd_nxt p - snd_una p); n = length (o_data seg) in
     n = 0 \<or> o_data seg = take n (drop (nat off) (sbdata (so_snd (the_so t)))) \<and> int n \<le> uint (t_maxseg p)
       \<and> off + int n \<le> max (if t_force p then 1 else 0) (min (uint (snd_wnd p)) (uint (snd_cwnd p)))
       \<and> (o_seq seg = snd_nxt p \<or> TF_SENTFIN \<in> t_flags p \<and> snd_nxt p = snd_max p))"

lemma tcp_output_fill_spec:
  assumes "tcp_output_fill bs mss win o1 t = (seg, t')"
  shows "o_data seg = bs" and "sent t' = sent t"
    and "o_seq seg = snd_nxt (tp t) \<or> TF_SENTFIN \<in> t_flags (tp t) \<and> snd_nxt (tp t) = snd_max (tp t)"
  using assms by (auto simp: tcp_output_fill_def Let_def split: if_splits)

lemma sent_tcp_output_time: "sent (tcp_output_time o1 t) = sent t"
  by (simp add: tcp_output_time_def Let_def)

lemma tcp_output_ship_sent:
  assumes "tcp_output_ship seg o1 win t = (again, e, t')"
  shows "sent t' = sent t \<or> sent t' = sent t @ [seg]"
  using assms by (auto simp: tcp_output_ship_def ip_output_def tcp_output_error_def tcp_quench_def Let_def
      split: list.splits option.splits if_splits prod.splits)

lemma tcp_output_idle_ret: "\<exists>t'. tcp_output_idle t = Ret t' \<and> sent t' = sent t"
  by (auto simp: tcp_output_idle_def tcp_setpersist_def Let_def set_timer_def)

lemma good_segmentI:
  assumes "send_ok t" and "0 \<le> sint (snd_nxt (tp t) - snd_una (tp t))" and "tcp_output_len t = (o1, t1)"
    and "o_data seg = [] \<or> o_data seg = take (nat (ol_len o1)) (drop (nat (ol_off o1)) (sbdata (so_snd (the_so t))))"
    and "same_send t t3" and "ol_len o1 \<noteq> 0 \<Longrightarrow> snd_nxt (tp t3) = snd_nxt (tp t)"
    and "o_seq seg = snd_nxt (tp t3) \<or> TF_SENTFIN \<in> t_flags (tp t3) \<and> snd_nxt (tp t3) = snd_max (tp t3)"
  shows "good_segment t seg"
proof (cases "o_data seg = []")
  case False
  have len: "length (sbdata (so_snd (the_so t))) < 2 ^ 31" using assms(1) by (simp add: send_ok_def M_COPYALL_def)
  have ok: "sb_ok (so_snd (the_so t))" using assms(1) by (simp add: send_ok_def)
  note ls = tcp_output_len_spec[OF assms(3) ok len assms(2)]
  have nz: "ol_len o1 \<noteq> 0" using False assms(4) by auto
  have n: "length (o_data seg) = nat (ol_len o1)" using False assms(4) ls(1,2) ls(3)[OF nz] assms(2) by auto
  have "t_flags (tp t3) = t_flags (tp t)" "snd_max (tp t3) = snd_max (tp t)" using assms(5) by (auto simp: same_send_def)
  then show ?thesis using False assms(4,7) assms(6)[OF nz] ls(1,2) ls(3)[OF nz] n
    by (auto simp: good_segment_def Let_def)
qed (simp add: good_segment_def)

text \<open>Every pass of \<^verbatim>\<open>tcp_output\<close> over a stream socket's send buffer returns without a panic, and sends at
  most one segment; its data are exactly the bytes of the buffer from \<^verbatim>\<open>snd_nxt - snd_una\<close> on, no more
  than a maximal segment, and never beyond the smaller of the offered and the congestion
  window (one byte beyond a closed window only when forced by the persist timer).\<close>

lemma tcp_output_once_spec:
  assumes "send_ok t" and "0 \<le> sint (snd_nxt (tp t) - snd_una (tp t))" and "t_template (tp t)"
  shows "\<exists>again e t'. tcp_output_once cfg idle t = Ret (again, e, t') \<and>
     (sent t' = sent t \<or> (\<exists>seg. sent t' = sent t @ [seg] \<and> good_segment t seg))"
proof -
  obtain o1 t1 where o1: "tcp_output_len t = (o1, t1)" by fastforce
  have len: "length (sbdata (so_snd (the_so t))) < 2 ^ 31" using assms(1) by (simp add: send_ok_def M_COPYALL_def)
  have ok: "sb_ok (so_snd (the_so t))" using assms(1) by (simp add: send_ok_def)
  note ls = tcp_output_len_spec[OF o1 ok len assms(2)]
  show ?thesis
  proof (cases "send_data idle o1 t1 \<or> send_window t1 \<or> send_control o1 t1")
    case False
    then show ?thesis using o1 tcp_output_idle_ret[of t1] ls(4) by (auto simp: tcp_output_once_def same_send_def)
  next
    case True
    define opts where "opts = (TH_SYN \<in> ol_flags o1 \<and> TF_NOOPT \<notin> t_flags (tp t1))"
    obtain mss t2 where t2: "(if opts then case tcp_mss cfg 0 t1 of (m, t') \<Rightarrow> (Some m, t') else (None, t1)) = (mss, t2)"
      by (metis surj_pair)
    have s2: "same_send t1 t2 \<and> mbs t2 = mbs t1 \<and> snd_nxt (tp t2) = snd_nxt (tp t1)"
      using t2 same_send_tcp_mss[of cfg 0 t1] same_send_refl[of t1] by (auto split: if_splits prod.splits)
    define h where "h = TCPIPHDR + (if opts then 4 else 0)"
    have ss: "same_send t t2" using same_send_trans[OF ls(4)] s2 by blast
    obtain res t3 where d: "tcp_output_data cfg h o1 t2 = Ret (res, t3)" "same_send t t3" "tp t3 = tp t2"
        "case res of None \<Rightarrow> True | Some (bs, o2) \<Rightarrow> bs = [] \<or>
            bs = take (nat (ol_len o1)) (drop (nat (ol_off o1)) (sbdata (so_snd (the_so t))))"
      using tcp_output_data_spec[OF assms(1) ss, of o1 cfg h] ls(1,2,3) assms(2) by auto
    have eq: "tcp_output_once cfg idle t = (case res of
             None \<Rightarrow> Ret (False, tcp_output_error ENOBUFS t3)
           | Some (bs, o2) \<Rightarrow>
               if \<not> t_template (tp t3) then Panic ''tcp_output''
               else let win = out_window (sbspace (so_rcv (the_so t1))) t3;
                        (seg, t4) = tcp_output_fill bs mss win o2 t3
                    in Ret (tcp_output_ship seg o2 win (tcp_output_time o2 t4)))"
      using o1 t2 d(1) unfolding tcp_output_once_def Let_def opts_def h_def by (simp only: not_not prod.case True if_False not_True_eq_False kbind.simps)
    show ?thesis
    proof (cases res)
      case None
      then show ?thesis using eq d(2) by (auto simp: tcp_output_error_def tcp_quench_def same_send_def split: prod.splits)
    next
      case (Some r)
      then obtain bs o2 where r: "res = Some (bs, o2)" by (cases r) auto
      define win where "win = out_window (sbspace (so_rcv (the_so t1))) t3"
      obtain seg t4 where f: "tcp_output_fill bs mss win o2 t3 = (seg, t4)" by fastforce
      obtain again e t' where sh: "tcp_output_ship seg o2 win (tcp_output_time o2 t4) = (again, e, t')" by (metis surj_pair)
      note fs = tcp_output_fill_spec[OF f]
      have "t_template (tp t3)" using d(2) assms(3) by (simp add: same_send_def)
      then have "tcp_output_once cfg idle t = Ret (again, e, t')" using eq r f sh by (simp add: win_def)
      moreover have "good_segment t seg"
        by (rule good_segmentI[OF assms(1,2) o1 _ d(2)]) (use d(3,4) r fs(1,3) s2 ls(6) in auto)
      ultimately show ?thesis
        using tcp_output_ship_sent[OF sh] fs(2) d(2) by (auto simp: sent_tcp_output_time same_send_def)
    qed
  qed
qed

text \<open>The example connection with \<open>[7, 8, 9]\<close> to send.\<close>

definition ex_tcp_snd :: tcp where
  "ex_tcp_snd = ex_tcp\<lparr>stab := (stab ex_tcp)\<lparr>sock := (\<lambda>_. (the_so ex_tcp)\<lparr>so_snd := ex_sb [[ex_mbuf [7, 8, 9]]]\<rparr>)\<rparr>\<rparr>"

definition ex_cfg :: tcpcfg where
  "ex_cfg = \<lparr>COMPAT_42 = False, tcp_keepidle = 14400, tcp_keepintvl = 150, tcp_maxidle = 1200, max_linkhdr = 16,
     tcp_mssdflt = 512, tcp_rttdflt = 3, tcp_sendspace = 4096, tcp_recvspace = 4096, sb_max = 65536,
     in_localaddr = (\<lambda>_. False), tcprexmtthresh = 3, inc = ex_incfg, so_sleeps = [], stack_i = 0\<rparr>"

lemma ex_tcp_snd_simps: "tp ex_tcp_snd = ex_tcpcb" "so_snd (the_so ex_tcp_snd) = ex_sb [[ex_mbuf [7, 8, 9]]]"
    "mbs ex_tcp_snd = mbs ex_tcp" "sent ex_tcp_snd = []"
  by (simp_all add: ex_tcp_snd_def the_so_def ex_tcp_def)

end
