(* ===== verification/Tcp_Subr.thy ===== *)
theory Tcp_Subr
  imports Tcp_Output
begin

text \<open>
  The life of a TCP control block: \<^verbatim>\<open>sys/netinet/tcp_subr.c\<close> (template, responses, creation, drop, close,
  notification) and the timers, \<^verbatim>\<open>sys/netinet/tcp_timer.c\<close>.  The header template is only present or
  not: its contents are the addresses of the control block.  A route is a value here, so what
  \<^verbatim>\<open>tcp_close\<close> saves in the routing entry is saved in the block's own copy.  Division by a zero segment
  size is a fault.
\<close>

section \<open>Templates and responses\<close>

definition tcp_template :: "tcp \<Rightarrow> bool \<times> tcp" where
  "tcp_template t = (if t_template (tp t) then (True, t)
     else case MGET MT_HEADER (mbs t) of (None, s1) \<Rightarrow> (False, t\<lparr>mbs := s1\<rparr>) | (Some m, s1) \<Rightarrow> (True, t\<lparr>mbs := s1\<rparr>))"

text \<open>\<open>has_tp\<close>: the argument \<^verbatim>\<open>tp\<close> is not null; \<open>c\<close>: the chain answered to, \<open>[]\<close> for a null \<^verbatim>\<open>m\<close>.\<close>

definition respond_seg :: "byte list \<Rightarrow> bool \<Rightarrow> u32 \<Rightarrow> u32 \<Rightarrow> th_flag set \<Rightarrow> tcp \<Rightarrow> tout" where
  "respond_seg bs has_tp ack sq flags t =
     \<lparr>o_seq = sq, o_ack = ack, o_flags = flags,
      o_win = (if has_tp then of_int (sbspace (so_rcv (the_so t))) else 0), o_urp = 0, o_mss = None, o_data = bs\<rparr>"

definition tcp_respond :: "tcpcfg \<Rightarrow> bool \<Rightarrow> chain \<Rightarrow> u32 \<Rightarrow> u32 \<Rightarrow> th_flag set \<Rightarrow> tcp \<Rightarrow> tcp" where
  "tcp_respond cfg has_tp c ack sq flags t = (case c of
       [] \<Rightarrow> (case MGETHDR MT_HEADER (mbs t) of
           (None, s1) \<Rightarrow> t\<lparr>mbs := s1\<rparr>
         | (Some m, s1) \<Rightarrow> snd (ip_output (respond_seg (if COMPAT_42 cfg then [fresh s1 0] else []) has_tp ack sq {TH_ACK} t)
             (t\<lparr>mbs := s1\<rparr>)))
     | m # r \<Rightarrow> snd (ip_output (respond_seg [] has_tp ack sq flags t) (t\<lparr>mbs := m_freem r (mbs t)\<rparr>)))"

section \<open>Creation\<close>

definition zero_tcpcb :: tcpcb where
  "zero_tcpcb = \<lparr>seg_q = [], t_state = TCPS_CLOSED, t_timer = (\<lambda>_. 0), t_rxtshift = 0, t_rxtcur = 0,
     t_dupacks = 0, t_maxseg = 0, t_force = False, t_flags = {}, t_template = False, snd_una = 0, snd_nxt = 0,
     snd_up = 0, snd_wl1 = 0, snd_wl2 = 0, iss = 0, snd_wnd = 0, rcv_wnd = 0, rcv_nxt = 0,
     rcv_up = 0, irs = 0, rcv_adv = 0, snd_max = 0, snd_cwnd = 0, snd_ssthresh = 0,
     t_idle = 0, t_rtt = 0, t_rtseq = 0, t_srtt = 0, t_rttvar = 0, t_rttmin = 0, max_sndwnd = 0,
     TCPOOB_HAVEDATA = False, TCPOOB_HADDATA = False, t_iobc = 0, t_softerror = None\<rparr>"

definition tcp_newtcpcb :: "tcpcfg \<Rightarrow> tcp \<Rightarrow> bool \<times> tcp" where
  "tcp_newtcpcb cfg t = (case m_getclr MT_PCB (mbs t) of
       (None, s1) \<Rightarrow> (False, t\<lparr>mbs := s1\<rparr>)
     | (Some _, s1) \<Rightarrow> (True, updinp (\<lambda>q. q\<lparr>inp_ppcb := True\<rparr>) (t\<lparr>mbs := s1,
         tp := zero_tcpcb\<lparr>t_maxseg := of_int (tcp_mssdflt cfg), t_srtt := 0,
                 t_rttvar := to_short (tcp_rttdflt cfg * PR_SLOWHZ * 4), t_rttmin := of_int TCPTV_MIN,
                 t_rxtcur := TCPT_RANGESET ((0 div 4 + TCPTV_SRTTDFLT * 4) div 2) TCPTV_MIN TCPTV_REXMTMAX,
                 snd_cwnd := of_int TCP_MAXWIN, snd_ssthresh := of_int TCP_MAXWIN\<rparr>\<rparr>)))"

section \<open>Closing\<close>

text \<open>Half the old and half the new value, unless one of them is 0.\<close>

definition halfway :: "u32 \<Rightarrow> u32 \<Rightarrow> u32" where
  "halfway old i = (if old \<noteq> 0 \<and> i \<noteq> 0 then (old + i) div 2 else i)"

text \<open>The metrics saved in the route.  The variable \<^verbatim>\<open>i\<close> of the code is threaded through: its first value is
  whatever the stack holds.\<close>

definition close_rtt :: "u32 \<Rightarrow> tcpcb \<Rightarrow> rtent \<Rightarrow> rtent \<times> u32" where
  "close_rtt i0 p rt =
     (let (r1, i1) = (if RTV_RTT \<notin> rmx_locks rt
            then let i = of_int (t_srtt p * (RTM_RTTUNIT div (PR_SLOWHZ * 8))) in (rt\<lparr>rmx_rtt := halfway (rmx_rtt rt) i\<rparr>, i)
            else (rt, i0))
      in if RTV_RTTVAR \<notin> rmx_locks r1
         then let i = of_int (t_rttvar p * (RTM_RTTUNIT div (PR_SLOWHZ * 4))) in (r1\<lparr>rmx_rttvar := halfway (rmx_rttvar r1) i\<rparr>, i)
         else (r1, i1))"

definition close_ssthresh :: "u32 \<Rightarrow> tcpcb \<Rightarrow> rtent \<Rightarrow> rtent kres" where
  "close_ssthresh i0 p rt =
     (let i = (if RTV_SSTHRESH \<notin> rmx_locks rt then ucast (snd_ssthresh p) else i0);
          mss = (ucast (t_maxseg p) :: u32)
      in if RTV_SSTHRESH \<notin> rmx_locks rt \<and> i \<noteq> 0 \<and> rmx_ssthresh rt \<noteq> 0 \<or> i < rmx_sendpipe rt div 2
         then if mss = 0 then Fault
              else let n = (i + mss div 2) div mss;
                       v = (if n < 2 then 2 else n) * (mss + of_int TCPIPHDR)
                   in Ret (rt\<lparr>rmx_ssthresh := (if rmx_ssthresh rt \<noteq> 0 then (rmx_ssthresh rt + v) div 2 else v)\<rparr>)
         else Ret rt)"

definition close_metrics :: "tcpcfg \<Rightarrow> tcp \<Rightarrow> tcp kres" where
  "close_metrics cfg t = (case ro_rt (inp t) of
       Some rt \<Rightarrow>
         if SEQ_LT (iss (tp t) + 4096 * 16) (snd_max (tp t)) \<and> \<not> rt_default rt
         then let (r1, i) = close_rtt (stack_i cfg) (tp t) rt
              in kmap (\<lambda>r2. updinp (\<lambda>q. q\<lparr>ro_rt := Some r2\<rparr>) t) (close_ssthresh i (tp t) r1)
         else Ret t
     | None \<Rightarrow> Ret t)"

definition tcp_close :: "tcpcfg \<Rightarrow> tcp \<Rightarrow> tcp run" where
  "tcp_close cfg t = rbind (Some (close_metrics cfg t)) (\<lambda>t1.
     let s1 = fold (\<lambda>q. m_freem (ti_m q)) (seg_q (tp t1)) (mbs t1);
         s2 = (if t_template (tp t1) then MFREE (new_mbuf MT_HEADER) s1 else s1);
         s3 = MFREE (new_mbuf MT_PCB) s2;
         t2 = updinp (\<lambda>q. q\<lparr>inp_ppcb := False\<rparr>) (updtp (\<lambda>p. p\<lparr>seg_q := []\<rparr>) t1);
         t3 = onstab soisdisconnected t2;
         t4 = (if tcp_last_inpcb t3 = Some (inp_id t3) then t3\<lparr>tcp_last_inpcb := None\<rparr> else t3)
     in rbind (in_pcbdetach (so_sleeps cfg) (inp_id t4) (tab t4) (stab t4) s3) (\<lambda>(tab1, so1, s4).
        rret (bump closed_conns 1 (t4\<lparr>tab := tab1, stab := so1, mbs := s4\<rparr>))))"

definition tcp_drop :: "tcpcfg \<Rightarrow> errno option \<Rightarrow> tcp \<Rightarrow> tcp run" where
  "tcp_drop cfg e t =
     rbind (if TCPS_HAVERCVDSYN (t_state (tp t))
            then rbind (tcp_output cfg (updtp (\<lambda>p. p\<lparr>t_state := TCPS_CLOSED\<rparr>) t)) (\<lambda>(_, t1). rret (bump drops 1 t1))
            else rret (bump conndrops 1 t))
       (\<lambda>t1. let e1 = (if e = Some ETIMEDOUT \<and> t_softerror (tp t1) \<noteq> None then t_softerror (tp t1) else e)
             in tcp_close cfg (updso (\<lambda>x. x\<lparr>so_error := e1\<rparr>) t1))"

section \<open>Notification\<close>

text \<open>The state of TCP with connection \<open>i\<close> changed by \<open>f\<close>, the connection at hand remaining the same.\<close>

definition onconn :: "nat \<Rightarrow> (tcp \<Rightarrow> tcp kres) \<Rightarrow> tcp \<Rightarrow> tcp kres" where
  "onconn i f t = kmap (enter (inp_id t)) (f (enter i t))"

definition tcp_notify :: "nat \<Rightarrow> errno option \<Rightarrow> tcp \<Rightarrow> tcp kres" where
  "tcp_notify i e = onconn i (\<lambda>t.
     if \<not> tp_live t then Fault
     else Ret (onstab (\<lambda>so. sowwakeup so) (onstab (\<lambda>so. sorwakeup so)
            (onstab (\<lambda>so. post [Wakeup (W_timeo so)]) (updtp (\<lambda>p. p\<lparr>t_softerror := e\<rparr>) t)))))"

text \<open>\<open>ip\<close>: source address and ports of the packet the error is about.\<close>

definition tcp_ctlinput :: "int \<Rightarrow> bool \<Rightarrow> u32 \<Rightarrow> (u32 \<times> u16 \<times> u16) option \<Rightarrow> tcp \<Rightarrow> tcp kres" where
  "tcp_ctlinput cmd inet dst ip t =
     (let rtch = (\<lambda>i t. t\<lparr>tab := in_rtchange i (tab t)\<rparr>);
          go = (\<lambda>notify. case ip of
              Some (src, sport, dport) \<Rightarrow> in_pcbnotify tab rtch inet dst dport src sport cmd notify t
            | None \<Rightarrow> in_pcbnotify tab rtch inet dst 0 0 0 cmd notify t)
      in if cmd = PRC_QUENCH then go (\<lambda>i _. onconn i (\<lambda>t. Ret (tcp_quench t)))
         else if (of_int cmd :: u32) > of_int PRC_NCMDS then Ret t
         else kbind (inetctlerrmap cmd) (\<lambda>e. if e = None then Ret t else go tcp_notify))"

section \<open>Timers\<close>

definition tcp_canceltimers :: "tcpcb \<Rightarrow> tcpcb" where
  "tcp_canceltimers p = p\<lparr>t_timer := (\<lambda>_. 0)\<rparr>"

text \<open>What the retransmission timeout does to the control block before the segment is sent again.\<close>

definition rexmt_backoff :: "tcp \<Rightarrow> tcp kres" where
  "rexmt_backoff t =
     (let p = tp t;
          p1 = p\<lparr>t_rxtcur := TCPT_RANGESET (TCP_REXMTVAL p * tcp_backoff (t_rxtshift p)) (uint (t_rttmin p)) TCPTV_REXMTMAX\<rparr>;
          p2 = set_timer TCPT_REXMT (t_rxtcur p1) p1;
          losing = t_rxtshift p2 > TCP_MAXRXTSHIFT div 4;
          p3 = (if losing then p2\<lparr>t_rttvar := to_short (t_rttvar p2 + t_srtt p2 div 8), t_srtt := 0\<rparr> else p2);
          p4 = p3\<lparr>snd_nxt := snd_una p3, t_rtt := 0\<rparr>
      in if t_maxseg p4 = 0 then Fault
         else let win = u_min (uint (snd_wnd p4)) (uint (snd_cwnd p4)) div 2 div uint (t_maxseg p4);
                  win1 = (if win < 2 then 2 else win)
              in Ret ((updtp (\<lambda>_. p4\<lparr>snd_cwnd := t_maxseg p4, snd_ssthresh := of_int (win1 * uint (t_maxseg p4)), t_dupacks := 0\<rparr>) t)
                   \<lparr>tab := (if losing then in_losing (inp_id t) (tab t) else tab t)\<rparr>))"

definition tcp_timers :: "tcpcfg \<Rightarrow> tcpt \<Rightarrow> tcp \<Rightarrow> tcp run" where
  "tcp_timers cfg timer t = (case timer of
     TCPT_2MSL \<Rightarrow>
       if t_state (tp t) \<noteq> TCPS_TIME_WAIT \<and> t_idle (tp t) \<le> tcp_maxidle cfg
       then rret (updtp (set_timer TCPT_2MSL (to_short (tcp_keepintvl cfg))) t)
       else tcp_close cfg t
   | TCPT_REXMT \<Rightarrow>
       let t1 = updtp (\<lambda>p. p\<lparr>t_rxtshift := t_rxtshift p + 1\<rparr>) t in
       if t_rxtshift (tp t1) > TCP_MAXRXTSHIFT
       then tcp_drop cfg (if t_softerror (tp t) \<noteq> None then t_softerror (tp t) else Some ETIMEDOUT)
              (bump timeoutdrop 1 (updtp (\<lambda>p. p\<lparr>t_rxtshift := TCP_MAXRXTSHIFT\<rparr>) t1))
       else rbind (Some (rexmt_backoff (bump rexmttimeo 1 t1))) (\<lambda>t2. rbind (tcp_output cfg t2) (\<lambda>(_, t3). rret t3))
   | TCPT_PERSIST \<Rightarrow>
       rbind (Some (tcp_setpersist (tp t))) (\<lambda>p.
       rbind (tcp_output cfg (updtp (\<lambda>_. p\<lparr>t_force := True\<rparr>) (bump persisttimeo 1 t))) (\<lambda>(_, t1).
       rret (updtp (\<lambda>q. q\<lparr>t_force := False\<rparr>) t1)))
   | TCPT_KEEP \<Rightarrow>
       let t1 = bump keeptimeo 1 t; p = tp t;
           dropit = tcp_drop cfg (Some ETIMEDOUT) (bump keepdrops 1 t1)
       in if t_state p < TCPS_ESTABLISHED then dropit
          else if SO_KEEPALIVE \<in> so_options (the_so t) \<and> t_state p \<le> TCPS_CLOSE_WAIT
          then if t_idle p \<ge> tcp_keepidle cfg + tcp_maxidle cfg then dropit
               else rret (updtp (set_timer TCPT_KEEP (to_short (tcp_keepintvl cfg)))
                      (tcp_respond cfg True [] (if COMPAT_42 cfg then rcv_nxt p - 1 else rcv_nxt p) (snd_una p - 1) {}
                        (bump keepprobe 1 t1)))
          else rret (updtp (set_timer TCPT_KEEP (to_short (tcp_keepidle cfg))) t1))"

text \<open>The body of the loop of \<^verbatim>\<open>tcp_slowtimo\<close> for the timers left; the connection is gone when it has left the
  queue.\<close>

fun slow_timers :: "tcpcfg \<Rightarrow> tcpt list \<Rightarrow> tcp \<Rightarrow> tcp run" where
  "slow_timers cfg [] t = rret (updtp (\<lambda>p. p\<lparr>t_idle := to_short (t_idle p + 1),
       t_rtt := (if t_rtt p \<noteq> 0 then to_short (t_rtt p + 1) else t_rtt p)\<rparr>) t)"
| "slow_timers cfg (k # ks) t =
     (if t_timer (tp t) k = 0 then slow_timers cfg ks t
      else let t1 = updtp (set_timer k (to_short (t_timer (tp t) k - 1))) t in
        if t_timer (tp t1) k = 0
        then rbind (tcp_timers cfg k t1) (\<lambda>t2.
             if inp_id t2 \<in> set (pcbq (tab t2)) then slow_timers cfg ks t2 else rret t2)
        else slow_timers cfg ks t1)"

fun slow_conns :: "tcpcfg \<Rightarrow> nat list \<Rightarrow> tcp \<Rightarrow> tcp run" where
  "slow_conns cfg [] t = rret t"
| "slow_conns cfg (i # is) t =
     (if inp_ppcb (pcb (tab t) i)
      then rbind (slow_timers cfg [TCPT_REXMT, TCPT_PERSIST, TCPT_KEEP, TCPT_2MSL] (enter i t)) (slow_conns cfg is)
      else slow_conns cfg is t)"

definition tcp_slowtimo :: "tcpcfg \<Rightarrow> tcp \<Rightarrow> tcp run" where
  "tcp_slowtimo cfg t =
     rbind (slow_conns (cfg\<lparr>tcp_maxidle := TCPTV_KEEPCNT * tcp_keepintvl cfg\<rparr>) (pcbq (tab t)) t) (\<lambda>t1.
       let iss1 = tcp_iss t1 + of_int (TCP_ISSINCR div PR_SLOWHZ)
       in rret (t1\<lparr>tcp_iss := (if COMPAT_42 cfg \<and> sint iss1 < 0 then 0 else iss1)\<rparr>))"

fun fast_conns :: "tcpcfg \<Rightarrow> nat list \<Rightarrow> tcp \<Rightarrow> tcp run" where
  "fast_conns cfg [] t = rret t"
| "fast_conns cfg (i # is) t =
     (let t1 = enter i t in
      if tp_live t1 \<and> TF_DELACK \<in> t_flags (tp t1)
      then rbind (tcp_output cfg (bump delack 1
             (updtp (\<lambda>p. p\<lparr>t_flags := insert TF_ACKNOW (t_flags p - {TF_DELACK})\<rparr>) t1))) (\<lambda>(_, t2). fast_conns cfg is t2)
      else fast_conns cfg is t1)"

definition tcp_fasttimo :: "tcpcfg \<Rightarrow> tcp \<Rightarrow> tcp run" where
  "tcp_fasttimo cfg t = fast_conns cfg (pcbq (tab t)) t"

end
