(* ===== verification/Tcp_Usrreq.thy ===== *)
theory Tcp_Usrreq
  imports Tcp_Subr
begin

text \<open>
  The user side of TCP: \<^verbatim>\<open>sys/netinet/tcp_usrreq.c\<close>.  A request carries its arguments as the constructor's;
  \<^verbatim>\<open>PRU_CONTROL\<close> (interface ioctls, \<^verbatim>\<open>in_control\<close>) and the trace buffer are not modelled.  A request
  may return a name, the out-of-band byte or the block size besides the error.
\<close>

section \<open>Closing by the user\<close>

text \<open>\<open>tp_live\<close> is false when the control block is gone: the code's null \<^verbatim>\<open>tp\<close>.\<close>

definition tcp_usrclosed :: "tcpcfg \<Rightarrow> tcp \<Rightarrow> tcp run" where
  "tcp_usrclosed cfg t =
     rbind (case t_state (tp t) of
          TCPS_CLOSED \<Rightarrow> tcp_close cfg (updtp (\<lambda>p. p\<lparr>t_state := TCPS_CLOSED\<rparr>) t)
        | TCPS_LISTEN \<Rightarrow> tcp_close cfg (updtp (\<lambda>p. p\<lparr>t_state := TCPS_CLOSED\<rparr>) t)
        | TCPS_SYN_SENT \<Rightarrow> tcp_close cfg (updtp (\<lambda>p. p\<lparr>t_state := TCPS_CLOSED\<rparr>) t)
        | TCPS_SYN_RECEIVED \<Rightarrow> rret (updtp (\<lambda>p. p\<lparr>t_state := TCPS_FIN_WAIT_1\<rparr>) t)
        | TCPS_ESTABLISHED \<Rightarrow> rret (updtp (\<lambda>p. p\<lparr>t_state := TCPS_FIN_WAIT_1\<rparr>) t)
        | TCPS_CLOSE_WAIT \<Rightarrow> rret (updtp (\<lambda>p. p\<lparr>t_state := TCPS_LAST_ACK\<rparr>) t)
        | _ \<Rightarrow> rret t)
       (\<lambda>t1. rret (if tp_live t1 \<and> t_state (tp t1) \<ge> TCPS_FIN_WAIT_2 then onstab soisdisconnected t1 else t1))"

text \<open>\<^verbatim>\<open>if (tp) tcp_output(tp)\<close>.\<close>

definition output_if_live :: "tcpcfg \<Rightarrow> tcp \<Rightarrow> (errno option \<times> tcp) run" where
  "output_if_live cfg t = (if tp_live t then tcp_output cfg t else rret (None, t))"

definition tcp_disconnect :: "tcpcfg \<Rightarrow> tcp \<Rightarrow> tcp run" where
  "tcp_disconnect cfg t =
     (if t_state (tp t) < TCPS_ESTABLISHED then tcp_close cfg t
      else if SO_LINGER \<in> so_options (the_so t) \<and> so_linger (the_so t) = 0 then tcp_drop cfg None t
      else let t1 = onstab soisdisconnecting t in
        rbind (sbflush (so_rcv (the_so t1)) (mbs t1)) (\<lambda>(sb, s1).
        rbind (tcp_usrclosed cfg ((updso (\<lambda>x. x\<lparr>so_rcv := sb\<rparr>) t1)\<lparr>mbs := s1\<rparr>)) (\<lambda>t2.
        rbind (output_if_live cfg t2) (\<lambda>(_, t3). rret t3))))"

section \<open>Attaching\<close>

text \<open>The result leaves the new connection at hand.\<close>

definition tcp_attach :: "tcpcfg \<Rightarrow> nat \<Rightarrow> tcp \<Rightarrow> (errno option \<times> tcp) run" where
  "tcp_attach cfg so t =
     rbind (if sb_hiwat (so_snd (sock (stab t) so)) = 0 \<or> sb_hiwat (so_rcv (sock (stab t) so)) = 0
            then rbind (soreserve (sb_max cfg) (tcp_sendspace cfg) (tcp_recvspace cfg) (sock (stab t) so) (mbs t))
                   (\<lambda>(e, x, s1). rret (e, t\<lparr>stab := upd so (\<lambda>_. x) (stab t), mbs := s1\<rparr>))
            else rret (None, t))
       (\<lambda>(e, t1). if e \<noteq> None then rret (e, t1)
          else (case in_pcballoc so (tab t1) (stab t1) (mbs t1) of
              (Some e1, tab1, so1, s1) \<Rightarrow> rret (Some e1, t1\<lparr>tab := tab1, stab := so1, mbs := s1\<rparr>)
            | (None, tab1, so1, s1) \<Rightarrow>
                let t2 = enter (nextpcb (tab t1)) (t1\<lparr>tab := tab1, stab := so1, mbs := s1\<rparr>) in
                (case tcp_newtcpcb cfg t2 of
                   (True, t3) \<Rightarrow> rret (None, updtp (\<lambda>p. p\<lparr>t_state := TCPS_CLOSED\<rparr>) t3)
                 | (False, t3) \<Rightarrow>
                     let nofd = so_state (the_so t3) \<inter> {SS_NOFDREF};
                         t4 = updso (\<lambda>x. x\<lparr>so_state := so_state x - {SS_NOFDREF}\<rparr>) t3
                     in rbind (in_pcbdetach (so_sleeps cfg) (inp_id t4) (tab t4) (stab t4) (mbs t4)) (\<lambda>(tab2, so2, s2).
                        rret (Some ENOBUFS, updso (\<lambda>x. x\<lparr>so_state := so_state x \<union> nofd\<rparr>)
                          (t4\<lparr>tab := tab2, stab := so2, mbs := s2\<rparr>))))))"

section \<open>Requests\<close>

datatype pru =
    PRU_ATTACH | PRU_DETACH | PRU_BIND nam | PRU_LISTEN | PRU_CONNECT nam | PRU_ACCEPT | PRU_DISCONNECT
  | PRU_SHUTDOWN | PRU_RCVD | PRU_SEND chain | PRU_ABORT | PRU_SENSE | PRU_RCVOOB bool | PRU_SENDOOB chain
  | PRU_SOCKADDR | PRU_PEERADDR | PRU_CONNECT2 | PRU_SLOWTIMO tcpt | PRU_OTHER

datatype reply = NoReply | Name nam | Oob byte | Blksize u32

definition tcp_sendseqinit :: "tcpcb \<Rightarrow> tcpcb" where
  "tcp_sendseqinit p = p\<lparr>snd_una := iss p, snd_nxt := iss p, snd_max := iss p, snd_up := iss p\<rparr>"

definition tcp_rcvseqinit :: "tcpcb \<Rightarrow> tcpcb" where
  "tcp_rcvseqinit p = p\<lparr>rcv_adv := irs p + 1, rcv_nxt := irs p + 1\<rparr>"

definition noreply :: "(errno option \<times> tcp) run \<Rightarrow> (errno option \<times> reply \<times> tcp) run" where
  "noreply r = rbind r (\<lambda>(e, t). rret (e, NoReply, t))"

text \<open>\<^verbatim>\<open>in_pcbbind\<close> and \<^verbatim>\<open>in_pcbconnect\<close> on the connection at hand; \<open>None\<close> when the search for a port does not end.\<close>

definition tcp_bind :: "tcpcfg \<Rightarrow> nam option \<Rightarrow> tcp \<Rightarrow> (errno option \<times> tcp) run" where
  "tcp_bind cfg nam t = map_option (\<lambda>(e, tab1). Ret (e, t\<lparr>tab := tab1\<rparr>)) (in_pcbbind (inc cfg) (inp_id t) nam (the_so t) (tab t))"

definition tcp_conn :: "tcpcfg \<Rightarrow> nam \<Rightarrow> tcp \<Rightarrow> (errno option \<times> tcp) run" where
  "tcp_conn cfg nam t = map_option (\<lambda>(e, tab1). Ret (e, t\<lparr>tab := tab1\<rparr>)) (in_pcbconnect (inc cfg) (inp_id t) nam (the_so t) (tab t))"

definition bind_if_unbound :: "tcpcfg \<Rightarrow> tcp \<Rightarrow> (errno option \<times> tcp) run" where
  "bind_if_unbound cfg t = (if inp_lport (inp t) = 0 then tcp_bind cfg None t else rret (None, t))"

definition usr_connect :: "tcpcfg \<Rightarrow> nam \<Rightarrow> tcp \<Rightarrow> (errno option \<times> tcp) run" where
  "usr_connect cfg nam t =
     rbind (bind_if_unbound cfg t) (\<lambda>(e, t1).
     if e \<noteq> None then rret (e, t1)
     else rbind (tcp_conn cfg nam t1) (\<lambda>(e1, t2).
       if e1 \<noteq> None then rret (e1, t2)
       else let (ok, t3) = tcp_template t2; t4 = updtp (\<lambda>p. p\<lparr>t_template := ok\<rparr>) t3 in
         if \<not> ok
         then rbind (in_pcbdisconnect (so_sleeps cfg) (inp_id t4) (tab t4) (stab t4) (mbs t4)) (\<lambda>(tab1, so1, s1).
              rret (Some ENOBUFS, t4\<lparr>tab := tab1, stab := so1, mbs := s1\<rparr>))
         else let t5 = bump connattempt 1 (onstab soisconnecting t4);
                  t6 = updtp (\<lambda>p. tcp_sendseqinit ((set_timer TCPT_KEEP TCPTV_KEEP_INIT (p\<lparr>t_state := TCPS_SYN_SENT\<rparr>))\<lparr>iss := tcp_iss t5\<rparr>)) t5
              in tcp_output cfg (t6\<lparr>tcp_iss := tcp_iss t6 + of_int (TCP_ISSINCR div 2)\<rparr>)))"

definition usr_rcvoob :: "bool \<Rightarrow> tcp \<Rightarrow> errno option \<times> reply \<times> tcp" where
  "usr_rcvoob peek t = (let so = the_so t; p = tp t in
     if so_oobmark so = 0 \<and> SS_RCVATMARK \<notin> so_state so \<or> SO_OOBINLINE \<in> so_options so \<or> TCPOOB_HADDATA p
     then (Some EINVAL, NoReply, t)
     else if \<not> TCPOOB_HAVEDATA p then (Some EWOULDBLOCK, NoReply, t)
     else (None, Oob (t_iobc p),
           if peek then t else updtp (\<lambda>q. q\<lparr>TCPOOB_HAVEDATA := \<not> TCPOOB_HAVEDATA q, TCPOOB_HADDATA := \<not> TCPOOB_HADDATA q\<rparr>) t))"

definition usr_append :: "chain \<Rightarrow> tcp \<Rightarrow> tcp" where
  "usr_append m t = (let (sb, s1) = sbappend m (so_snd (the_so t)) (mbs t)
     in (updso (\<lambda>x. x\<lparr>so_snd := sb\<rparr>) t)\<lparr>mbs := s1\<rparr>)"

definition usr_sendoob :: "tcpcfg \<Rightarrow> chain \<Rightarrow> tcp \<Rightarrow> (errno option \<times> tcp) run" where
  "usr_sendoob cfg m t =
     (if sbspace (so_snd (the_so t)) < -512 then rret (Some ENOBUFS, t\<lparr>mbs := m_freem m (mbs t)\<rparr>)
      else let t1 = usr_append m t;
               t2 = updtp (\<lambda>p. p\<lparr>snd_up := snd_una p + sb_cc (so_snd (the_so t1)), t_force := True\<rparr>) t1
           in rbind (tcp_output cfg t2) (\<lambda>(e, t3). rret (e, updtp (\<lambda>p. p\<lparr>t_force := False\<rparr>) t3)))"

text \<open>A request on a connection that has its control blocks.\<close>

definition tcp_request :: "tcpcfg \<Rightarrow> pru \<Rightarrow> tcp \<Rightarrow> (errno option \<times> reply \<times> tcp) run" where
  "tcp_request cfg req t = (case req of
     PRU_ATTACH \<Rightarrow> rret (Some EISCONN, NoReply, t)
   | PRU_DETACH \<Rightarrow> rbind (if t_state (tp t) > TCPS_LISTEN then tcp_disconnect cfg t else tcp_close cfg t) (\<lambda>t1. rret (None, NoReply, t1))
   | PRU_BIND nam \<Rightarrow> noreply (tcp_bind cfg (Some nam) t)
   | PRU_LISTEN \<Rightarrow> noreply (rbind (bind_if_unbound cfg t) (\<lambda>(e, t1).
       rret (e, if e = None then updtp (\<lambda>p. p\<lparr>t_state := TCPS_LISTEN\<rparr>) t1 else t1)))
   | PRU_CONNECT nam \<Rightarrow> noreply (usr_connect cfg nam t)
   | PRU_CONNECT2 \<Rightarrow> rret (Some EOPNOTSUPP, NoReply, t)
   | PRU_DISCONNECT \<Rightarrow> rbind (tcp_disconnect cfg t) (\<lambda>t1. rret (None, NoReply, t1))
   | PRU_ACCEPT \<Rightarrow> rret (None, Name (in_setpeeraddr (inp t)), t)
   | PRU_SHUTDOWN \<Rightarrow> noreply (rbind (tcp_usrclosed cfg (onstab socantsendmore t)) (output_if_live cfg))
   | PRU_RCVD \<Rightarrow> rbind (tcp_output cfg t) (\<lambda>(_, t1). rret (None, NoReply, t1))
   | PRU_SEND m \<Rightarrow> noreply (tcp_output cfg (usr_append m t))
   | PRU_ABORT \<Rightarrow> rbind (tcp_drop cfg (Some ECONNABORTED) t) (\<lambda>t1. rret (None, NoReply, t1))
   | PRU_SENSE \<Rightarrow> rret (None, Blksize (sb_hiwat (so_snd (the_so t))), t)
   | PRU_RCVOOB peek \<Rightarrow> rret (usr_rcvoob peek t)
   | PRU_SENDOOB m \<Rightarrow> noreply (usr_sendoob cfg m t)
   | PRU_SOCKADDR \<Rightarrow> rret (None, Name (in_setsockaddr (inp t)), t)
   | PRU_PEERADDR \<Rightarrow> rret (None, Name (in_setpeeraddr (inp t)), t)
   | PRU_SLOWTIMO k \<Rightarrow> rbind (tcp_timers cfg k t) (\<lambda>t1. rret (None, NoReply, t1))
   | PRU_OTHER \<Rightarrow> Some (Panic ''tcp_usrreq''))"

definition pru_data :: "pru \<Rightarrow> chain" where
  "pru_data req = (case req of PRU_SEND m \<Rightarrow> m | PRU_SENDOOB m \<Rightarrow> m | _ \<Rightarrow> [])"

text \<open>The state of a socket whose internet control block has no TCP control block is read through a null pointer.\<close>

definition tcp_usrreq :: "tcpcfg \<Rightarrow> nat \<Rightarrow> pru \<Rightarrow> chain \<Rightarrow> tcp \<Rightarrow> (errno option \<times> reply \<times> tcp) run" where
  "tcp_usrreq cfg so req control t =
     (if control \<noteq> [] \<and> m_len (control ! 0) \<noteq> 0
      then rret (Some EINVAL, NoReply, t\<lparr>mbs := m_freem (pru_data req) (m_freem control (mbs t))\<rparr>)
      else case so_pcb (sock (stab t) so) of
        None \<Rightarrow> if req = PRU_ATTACH
               then rbind (tcp_attach cfg so t) (\<lambda>(e, t1). rret (e, NoReply,
                      if e = None \<and> SO_LINGER \<in> so_options (the_so t1) \<and> so_linger (the_so t1) = 0
                      then updso (\<lambda>x. x\<lparr>so_linger := TCP_LINGERTIME\<rparr>) t1 else t1))
               else rret (Some EINVAL, NoReply, t)
      | Some i \<Rightarrow> let t1 = enter i t in if \<not> tp_live t1 then Some Fault else tcp_request cfg req t1)"

section \<open>Options\<close>

datatype tcpopt = TCP_NODELAY | TCP_MAXSEG | TCP_OTHEROPT

text \<open>\<open>m\<close>: length and value of the option's mbuf.  The value of \<^verbatim>\<open>TCP_NODELAY\<close> read back is the flag bit.\<close>

definition tcp_setopt :: "tcpopt \<Rightarrow> (int \<times> int) option \<Rightarrow> tcpcb \<Rightarrow> errno option \<times> tcpcb" where
  "tcp_setopt opt m p = (case opt of
     TCP_NODELAY \<Rightarrow> (case m of None \<Rightarrow> (Some EINVAL, p)
       | Some (len, v) \<Rightarrow> if len < 4 then (Some EINVAL, p)
           else if v \<noteq> 0 then (None, p\<lparr>t_flags := insert TF_NODELAY (t_flags p)\<rparr>)
           else (None, p\<lparr>t_flags := t_flags p - {TF_NODELAY}\<rparr>))
   | _ \<Rightarrow> (Some EINVAL, p))"

definition tcp_getopt :: "tcpopt \<Rightarrow> tcpcb \<Rightarrow> errno option \<times> int" where
  "tcp_getopt opt p = (case opt of
     TCP_NODELAY \<Rightarrow> (None, if TF_NODELAY \<in> t_flags p then 4 else 0)
   | TCP_MAXSEG \<Rightarrow> (None, uint (t_maxseg p))
   | TCP_OTHEROPT \<Rightarrow> (Some EINVAL, 0))"

end
