(* ===== verification/Tcp_Input.thy ===== *)
theory Tcp_Input
  imports Tcp_Usrreq
begin

text \<open>
  TCP input: \<^verbatim>\<open>tcp_input\<close>, \<^verbatim>\<open>tcp_dooptions\<close> and \<^verbatim>\<open>tcp_pulloutofband\<close> of \<^verbatim>\<open>sys/netinet/tcp_input.c\<close>, from the
  label \<^verbatim>\<open>findpcb\<close> on, cut at the paragraphs of the code.  A segment is the \<open>tseg\<close> with its data
  (\<open>ti_m\<close>, headers removed); \<open>ti_flags\<close> is the header's field and \<open>tiflags\<close> the local variable of the
  code, which differ once flags have been masked.  Each paragraph returns where the code goes
  next (\<open>act\<close>).  The trace buffer and the counters of the pcb cache are not modelled.
\<close>

section \<open>Control flow\<close>

text \<open>\<open>Drop\<close>, \<open>DropReset\<close> and \<open>DropAfterAck\<close> are the labels of the code (the flag of \<open>DropReset\<close>: \<^verbatim>\<open>tp\<close> is not null;
  \<open>DropGone\<close> is \<^verbatim>\<open>drop\<close> with \<^verbatim>\<open>dropsocket\<close> cleared), \<open>Return\<close> a return, \<open>Restart\<close> the jump back to \<^verbatim>\<open>findpcb\<close>
  with an initial sequence number, \<open>Continue\<close> the next paragraph (with \<^verbatim>\<open>needoutput\<close>).\<close>

datatype act =
    Drop tseg
  | DropGone tseg
  | DropReset tseg "th_flag set" bool
  | DropAfterAck tseg "th_flag set"
  | Return
  | Restart tseg "th_flag set" u32
  | Continue tseg "th_flag set" bool

record segaddr =
  ti_src :: u32
  ti_sport :: u16
  ti_dst :: u32
  ti_dport :: u16
  srcroute :: chain

definition run_so :: "(nat \<Rightarrow> sotab \<Rightarrow> sotab run) \<Rightarrow> tcp \<Rightarrow> tcp run" where
  "run_so f t = rbind (f (so_id t) (stab t)) (\<lambda>st. rret (t\<lparr>stab := st\<rparr>))"

definition drop_snd :: "int \<Rightarrow> tcp \<Rightarrow> tcp kres" where
  "drop_snd n t = kmap (\<lambda>(sb, s). (updso (\<lambda>x. x\<lparr>so_snd := sb\<rparr>) t)\<lparr>mbs := s\<rparr>) (sbdrop n (so_snd (the_so t)) (mbs t))"

definition sb_notify :: "sockbuf \<Rightarrow> bool" where
  "sb_notify sb = (SB_WAIT sb \<or> SB_SEL sb \<or> SB_ASYNC sb)"

definition wakeup_snd :: "tcp \<Rightarrow> tcp" where
  "wakeup_snd t = (if sb_notify (so_snd (the_so t)) then onstab (\<lambda>i. sowwakeup i) t else t)"

definition output_quiet :: "tcpcfg \<Rightarrow> tcp \<Rightarrow> tcp run" where
  "output_quiet cfg t = rbind (tcp_output cfg t) (\<lambda>(_, t1). rret t1)"

section \<open>Finding the connection\<close>

definition pcb_exact :: "segaddr \<Rightarrow> inpcb \<Rightarrow> bool" where
  "pcb_exact a p = (inp_lport p = ti_dport a \<and> inp_fport p = ti_sport a \<and> inp_faddr p = ti_src a \<and> inp_laddr p = ti_dst a)"

definition find_pcb :: "segaddr \<Rightarrow> tcp \<Rightarrow> nat option \<times> tcp" where
  "find_pcb a t =
     (let last = (case tcp_last_inpcb t of None \<Rightarrow> zero_pcb\<lparr>inp_lport := head_lport (tab t)\<rparr> | Some i \<Rightarrow> pcb (tab t) i) in
      if pcb_exact a last then (tcp_last_inpcb t, t)
      else case in_pcblookup (tab t) (ti_src a) (ti_sport a) (ti_dst a) (ti_dport a) True of
             None \<Rightarrow> (None, t)
           | Some i \<Rightarrow> (Some i, t\<lparr>tcp_last_inpcb := Some i\<rparr>))"

definition tcp_sonewconn :: "tcpcfg \<Rightarrow> nat \<Rightarrow> tcp \<Rightarrow> (nat option \<times> tcp) run" where
  "tcp_sonewconn cfg head t =
     (let (new, ms) = (case so_mallocs t of [] \<Rightarrow> (None, []) | n # r \<Rightarrow> (n, r));
          attach = (\<lambda>so st s x. rbind (tcp_usrreq cfg so PRU_ATTACH [] (x\<lparr>stab := st, mbs := s\<rparr>))
                      (\<lambda>(e, _, x1). rret (e, stab x1, mbs x1, x1)))
      in rbind (sonewconn1 (sb_max cfg) new attach head None (stab t) (mbs t) (t\<lparr>so_mallocs := ms\<rparr>))
           (\<lambda>(r, st, s, x). rret (r, x\<lparr>stab := st, mbs := s\<rparr>)))"

text \<open>A segment for a socket that accepts connections gets a new connection in state \<^verbatim>\<open>LISTEN\<close>; \<open>None\<close>: no socket
  could be made.\<close>

definition listen_conn :: "tcpcfg \<Rightarrow> segaddr \<Rightarrow> tcp \<Rightarrow> (bool option \<times> tcp) run" where
  "listen_conn cfg a t =
     (if SO_ACCEPTCONN \<in> so_options (the_so t)
      then rbind (tcp_sonewconn cfg (so_id t) t) (\<lambda>(r, t1). case r of
             None \<Rightarrow> rret (None, t1)
           | Some so \<Rightarrow> (case so_pcb (sock (stab t1) so) of
               None \<Rightarrow> Some Fault
             | Some i \<Rightarrow> rret (Some True, updtp (\<lambda>p. p\<lparr>t_state := TCPS_LISTEN\<rparr>)
                 (updinp (\<lambda>q. q\<lparr>inp_laddr := ti_dst a, inp_lport := ti_dport a, inp_options := srcroute a\<rparr>) (enter i t1)))))
      else rret (Some False, t))"

section \<open>Options\<close>

text \<open>\<open>cp\<close> is the mbuf with the options: beyond its length are bytes of no known value.\<close>

function (sequential) dooptions_loop :: "tcpcfg \<Rightarrow> bool \<Rightarrow> (nat \<Rightarrow> byte) \<Rightarrow> nat \<Rightarrow> int \<Rightarrow> tcp \<Rightarrow> tcp" where
  "dooptions_loop cfg syn cp i cnt t =
     (if cnt \<le> 0 \<or> cp i = 0 then t
      else if cp i = 1 then dooptions_loop cfg syn cp (i + 1) (cnt - 1) t
      else let optlen = unat (cp (i + 1)) in
        if optlen = 0 then t
        else dooptions_loop cfg syn cp (i + optlen) (cnt - int optlen)
          (if cp i = 2 \<and> optlen = 4 \<and> syn then snd (tcp_mss cfg (word_rcat [cp (i + 2), cp (i + 3)]) t) else t))"
  by pat_completeness auto
termination
proof (relation "measure (\<lambda>(cfg, syn, cp, i, cnt, t). nat cnt)")
  fix cp :: "nat \<Rightarrow> byte" and i optlen :: nat and cnt :: int
  assume "\<not> (cnt \<le> 0 \<or> cp i = 0)" "optlen = unat (cp (i + 1))" "optlen \<noteq> 0"
  then have "nat (cnt - int optlen) < nat cnt" by linarith
  then show "((cfg, syn, cp, i + optlen, cnt - int optlen, t'), cfg, syn, cp, i, cnt, t)
      \<in> measure (\<lambda>(cfg, syn, cp, i, cnt, t). nat cnt)" for cfg syn t t' by simp
qed auto

declare dooptions_loop.simps [simp del]

definition tcp_dooptions :: "tcpcfg \<Rightarrow> byte list \<Rightarrow> tseg \<Rightarrow> tcp \<Rightarrow> tcp" where
  "tcp_dooptions cfg om ti t =
     (let t1 = dooptions_loop cfg (TH_SYN \<in> ti_flags ti) (\<lambda>i. if i < length om then om ! i else fresh (mbs t) i) 0 (int (length om)) t
      in t1\<lparr>mbs := MFREE (new_mbuf MT_DATA) (mbs t1)\<rparr>)"

section \<open>Header prediction\<close>

definition predicted :: "tseg \<Rightarrow> th_flag set \<Rightarrow> tcpcb \<Rightarrow> bool" where
  "predicted ti tiflags p = (t_state p = TCPS_ESTABLISHED \<and> tiflags \<inter> {TH_SYN, TH_FIN, TH_RST, TH_URG, TH_ACK} = {TH_ACK}
     \<and> ti_seq ti = rcv_nxt p \<and> ti_win ti \<noteq> 0 \<and> ti_win ti = snd_wnd p \<and> snd_nxt p = snd_max p)"

definition pred_ack :: "tseg \<Rightarrow> tcpcb \<Rightarrow> bool" where
  "pred_ack ti p = (ti_len ti = 0 \<and> SEQ_GT (ti_ack ti) (snd_una p) \<and> SEQ_LEQ (ti_ack ti) (snd_max p) \<and> snd_cwnd p \<ge> snd_wnd p)"

definition pred_data :: "tseg \<Rightarrow> tcp \<Rightarrow> bool" where
  "pred_data ti t = (ti_len ti \<noteq> 0 \<and> ti_ack ti = snd_una (tp t) \<and> seg_q (tp t) = [] \<and> ti_len ti \<le> sbspace (so_rcv (the_so t)))"

definition pred_ack_input :: "tcpcfg \<Rightarrow> tseg \<Rightarrow> tcp \<Rightarrow> tcp run" where
  "pred_ack_input cfg ti t =
     (let t1 = bump predack 1 t;
          t2 = (if t_rtt (tp t1) \<noteq> 0 \<and> SEQ_GT (ti_ack ti) (t_rtseq (tp t1)) then tcp_xmit_timer t1 else t1);
          acked = sint (ti_ack ti - snd_una (tp t2))
      in rbind (Some (drop_snd acked (bump rcvackpack 1 (bump rcvackbyte (of_int acked) t2)))) (\<lambda>t3.
         let t4 = (updtp (\<lambda>p. let q = p\<lparr>snd_una := ti_ack ti\<rparr> in
                 if snd_una q = snd_max q then set_timer TCPT_REXMT 0 q
                 else if t_timer q TCPT_PERSIST = 0 then set_timer TCPT_REXMT (t_rxtcur q) q else q) t3)
                 \<lparr>mbs := m_freem (ti_m ti) (mbs t3)\<rparr>;
             t5 = wakeup_snd t4
         in if sb_cc (so_snd (the_so t5)) \<noteq> 0 then output_quiet cfg t5 else rret t5))"

definition pred_data_input :: "tseg \<Rightarrow> tcp \<Rightarrow> tcp" where
  "pred_data_input ti t =
     (let t1 = bump rcvbyte (of_int (ti_len ti)) (bump rcvpack 1 (updtp (\<lambda>p. p\<lparr>rcv_nxt := rcv_nxt p + of_int (ti_len ti)\<rparr>) (bump preddat 1 t)));
          (sb, s) = sbappend (ti_m ti) (so_rcv (the_so t1)) (mbs t1)
      in updtp (\<lambda>p. p\<lparr>t_flags := insert TF_DELACK (t_flags p)\<rparr>)
           (onstab (\<lambda>i. sorwakeup i) ((updso (\<lambda>x. x\<lparr>so_rcv := sb\<rparr>) t1)\<lparr>mbs := s\<rparr>)))"

section \<open>Opening a connection\<close>

definition receive_window :: "tcp \<Rightarrow> tcp" where
  "receive_window t =
     (let win = sbspace (so_rcv (the_so t));
          win1 = (if win < 0 then 0 else win)
      in updtp (\<lambda>p. p\<lparr>rcv_wnd := of_int (u_max win1 (sint (rcv_adv p - rcv_nxt p)))\<rparr>) t)"

text \<open>\<^verbatim>\<open>trimthenstep6\<close>.\<close>

definition trim_then_step6 :: "tseg \<Rightarrow> th_flag set \<Rightarrow> tcp \<Rightarrow> (act \<times> tcp) run" where
  "trim_then_step6 ti tiflags t =
     (let ti1 = ti\<lparr>ti_seq := ti_seq ti + 1\<rparr>;
          fin = (\<lambda>ti2 fl t1. (Continue ti2 fl False, updtp (\<lambda>p. p\<lparr>snd_wl1 := ti_seq ti2 - 1, rcv_up := ti_seq ti2\<rparr>) t1))
      in if ti_len ti1 > uint (rcv_wnd (tp t))
         then let todrop = ti_len ti1 - uint (rcv_wnd (tp t)) in
           Some (kmap (\<lambda>m. fin (ti1\<lparr>ti_m := m, ti_len := uint (rcv_wnd (tp t))\<rparr>) (tiflags - {TH_FIN})
               (bump rcvbyteafterwin (of_int todrop) (bump rcvpackafterwin 1 t))) (m_adj (ti_m ti1) (- todrop)))
         else rret (fin ti1 tiflags t))"

definition is_bcast :: "tseg \<Rightarrow> bool" where
  "is_bcast ti = (case ti_m ti of [] \<Rightarrow> False | m # _ \<Rightarrow> M_BCAST m)"

text \<open>State \<^verbatim>\<open>LISTEN\<close>; \<open>iss0\<close> is the local variable \<^verbatim>\<open>iss\<close>.\<close>

definition listen_input :: "tcpcfg \<Rightarrow> segaddr \<Rightarrow> byte list option \<Rightarrow> u32 \<Rightarrow> tseg \<Rightarrow> th_flag set \<Rightarrow> tcp \<Rightarrow> (act \<times> tcp) run" where
  "listen_input cfg a om iss0 ti tiflags t =
     (if TH_RST \<in> tiflags then rret (Drop ti, t)
      else if TH_ACK \<in> tiflags then rret (DropReset ti tiflags True, t)
      else if TH_SYN \<notin> tiflags \<or> is_bcast ti then rret (Drop ti, t)
      else case MGET MT_SONAME (mbs t) of
        (None, s1) \<Rightarrow> rret (Drop ti, t\<lparr>mbs := s1\<rparr>)
      | (Some am, s1) \<Rightarrow>
          let laddr = inp_laddr (inp t);
              t1 = (if laddr = INADDR_ANY then updinp (\<lambda>q. q\<lparr>inp_laddr := ti_dst a\<rparr>) (t\<lparr>mbs := s1\<rparr>) else t\<lparr>mbs := s1\<rparr>)
          in rbind (tcp_conn cfg (SIZEOF_SIN, \<lparr>sin_family = AF_INET, sin_port = ti_sport a, sin_addr = ti_src a\<rparr>) t1) (\<lambda>(e, t2).
             let t3 = t2\<lparr>mbs := MFREE am (mbs t2)\<rparr> in
             if e \<noteq> None then rret (Drop ti, updinp (\<lambda>q. q\<lparr>inp_laddr := laddr\<rparr>) t3)
             else let (ok, t4) = tcp_template t3; t5 = updtp (\<lambda>p. p\<lparr>t_template := ok\<rparr>) t4 in
               if \<not> ok then rbind (tcp_drop cfg (Some ENOBUFS) t5) (\<lambda>t6. rret (DropGone ti, t6))
               else let t6 = (case om of None \<Rightarrow> t5 | Some bs \<Rightarrow> tcp_dooptions cfg bs ti t5);
                        t7 = updtp (\<lambda>p. (set_timer TCPT_KEEP TCPTV_KEEP_INIT
                               (tcp_rcvseqinit (tcp_sendseqinit (p\<lparr>iss := (if iss0 \<noteq> 0 then iss0 else tcp_iss t6), irs := ti_seq ti\<rparr>))))
                               \<lparr>t_flags := insert TF_ACKNOW (t_flags p), t_state := TCPS_SYN_RECEIVED\<rparr>) t6
                    in trim_then_step6 ti tiflags (bump accepts 1 (t7\<lparr>tcp_iss := tcp_iss t7 + of_int (TCP_ISSINCR div 2)\<rparr>))))"

text \<open>State \<^verbatim>\<open>SYN_SENT\<close>.\<close>

definition synsent_input :: "tcpcfg \<Rightarrow> tseg \<Rightarrow> th_flag set \<Rightarrow> tcp \<Rightarrow> (act \<times> tcp) run" where
  "synsent_input cfg ti tiflags t =
     (if TH_ACK \<in> tiflags \<and> (SEQ_LEQ (ti_ack ti) (iss (tp t)) \<or> SEQ_GT (ti_ack ti) (snd_max (tp t)))
      then rret (DropReset ti tiflags True, t)
      else if TH_RST \<in> tiflags
      then if TH_ACK \<in> tiflags then rbind (tcp_drop cfg (Some ECONNREFUSED) t) (\<lambda>t1. rret (Drop ti, t1))
           else rret (Drop ti, t)
      else if TH_SYN \<notin> tiflags then rret (Drop ti, t)
      else let t1 = updtp (\<lambda>p. let p1 = (if TH_ACK \<in> tiflags
                       then p\<lparr>snd_una := ti_ack ti, snd_nxt := (if SEQ_LT (snd_nxt p) (ti_ack ti) then ti_ack ti else snd_nxt p)\<rparr> else p)
                     in (tcp_rcvseqinit ((set_timer TCPT_REXMT 0 p1)\<lparr>irs := ti_seq ti\<rparr>))\<lparr>t_flags := insert TF_ACKNOW (t_flags p1)\<rparr>) t
           in rbind (if TH_ACK \<in> tiflags \<and> SEQ_GT (snd_una (tp t1)) (iss (tp t1))
                then rbind (run_so soisconnected (bump connects 1 t1)) (\<lambda>t2.
                     rbind (Some (tcp_reass None (updtp (\<lambda>p. p\<lparr>t_state := TCPS_ESTABLISHED\<rparr>) t2))) (\<lambda>(_, t3).
                     rret (if t_rtt (tp t3) \<noteq> 0 then tcp_xmit_timer t3 else t3)))
                else rret (updtp (\<lambda>p. p\<lparr>t_state := TCPS_SYN_RECEIVED\<rparr>) t1))
              (trim_then_step6 ti tiflags))"

section \<open>Trimming\<close>

text \<open>Data (and SYN) before \<^verbatim>\<open>rcv_nxt\<close>.\<close>

definition trim_left :: "tcpcfg \<Rightarrow> tseg \<Rightarrow> th_flag set \<Rightarrow> tcp \<Rightarrow> (act \<times> tcp) kres" where
  "trim_left cfg ti tiflags t =
     (let todrop0 = sint (rcv_nxt (tp t) - ti_seq ti) in
      if todrop0 \<le> 0 then Ret (Continue ti tiflags False, t)
      else let (ti1, fl1, todrop1) =
                 (if TH_SYN \<in> tiflags
                  then (ti\<lparr>ti_seq := ti_seq ti + 1, ti_urp := (if ti_urp ti > 1 then ti_urp ti - 1 else ti_urp ti)\<rparr>,
                        tiflags - (if ti_urp ti > 1 then {TH_SYN} else {TH_SYN, TH_URG}), todrop0 - 1)
                  else (ti, tiflags, todrop0));
               all = (todrop1 > ti_len ti1 \<or> todrop1 = ti_len ti1 \<and> TH_FIN \<notin> fl1);
               t1 = (if all then bump rcvdupbyte (of_int (ti_len ti1)) (bump rcvduppack 1 t)
                     else bump rcvpartdupbyte (of_int todrop1) (bump rcvpartduppack 1 t));
               special = (TH_FIN \<in> fl1 \<and> todrop1 = ti_len ti1 + 1
                          \<or> COMPAT_42 cfg \<and> TH_RST \<in> fl1 \<and> ti_seq ti1 = rcv_nxt (tp t) - 1)
           in if all \<and> \<not> special then Ret (DropAfterAck ti1 fl1, t1)
              else let (todrop, fl2, t2) = (if all
                     then (ti_len ti1, fl1 - {TH_FIN}, updtp (\<lambda>p. p\<lparr>t_flags := insert TF_ACKNOW (t_flags p)\<rparr>) t1)
                     else (todrop1, fl1, t1))
                   in kmap (\<lambda>m. (if uint (ti_urp ti1) > todrop
                        then Continue (ti1\<lparr>ti_m := m, ti_seq := ti_seq ti1 + of_int todrop, ti_len := ti_len ti1 - todrop,
                               ti_urp := ti_urp ti1 - of_int todrop\<rparr>) fl2 False
                        else Continue (ti1\<lparr>ti_m := m, ti_seq := ti_seq ti1 + of_int todrop, ti_len := ti_len ti1 - todrop,
                               ti_urp := 0\<rparr>) (fl2 - {TH_URG}) False, t2)) (m_adj (ti_m ti1) todrop))"

text \<open>New data after the user is gone.\<close>

definition after_close :: "tcpcfg \<Rightarrow> tseg \<Rightarrow> th_flag set \<Rightarrow> tcp \<Rightarrow> (act \<times> tcp) run" where
  "after_close cfg ti tiflags t =
     (if SS_NOFDREF \<in> so_state (the_so t) \<and> t_state (tp t) > TCPS_CLOSE_WAIT \<and> ti_len ti \<noteq> 0
      then rbind (tcp_close cfg t) (\<lambda>t1. rret (DropReset ti tiflags False, bump rcvafterclose 1 t1))
      else rret (Continue ti tiflags False, t))"

text \<open>Data (and PUSH and FIN) after the window.\<close>

definition trim_right :: "tcpcfg \<Rightarrow> tseg \<Rightarrow> th_flag set \<Rightarrow> tcp \<Rightarrow> (act \<times> tcp) run" where
  "trim_right cfg ti tiflags t =
     (let p = tp t;
          todrop = sint ((ti_seq ti + of_int (ti_len ti)) - (rcv_nxt p + ucast (rcv_wnd p)));
          cut = (\<lambda>t1. Some (kmap (\<lambda>m. (Continue (ti\<lparr>ti_m := m, ti_len := ti_len ti - todrop\<rparr>) (tiflags - {TH_PUSH, TH_FIN}) False, t1))
                        (m_adj (ti_m ti) (- todrop))))
      in if todrop \<le> 0 then rret (Continue ti tiflags False, t)
         else let t1 = bump rcvpackafterwin 1 t in
           if todrop < ti_len ti then cut (bump rcvbyteafterwin (of_int todrop) t1)
           else let t2 = bump rcvbyteafterwin (of_int (ti_len ti)) t1 in
             if TH_SYN \<in> tiflags \<and> t_state p = TCPS_TIME_WAIT \<and> SEQ_GT (ti_seq ti) (rcv_nxt p)
             then rbind (tcp_close cfg t2) (\<lambda>t3. rret (Restart ti tiflags (rcv_nxt p + of_int TCP_ISSINCR), t3))
             else if rcv_wnd p = 0 \<and> ti_seq ti = rcv_nxt p
             then cut (bump rcvwinprobe 1 (updtp (\<lambda>q. q\<lparr>t_flags := insert TF_ACKNOW (t_flags q)\<rparr>) t2))
             else rret (DropAfterAck ti tiflags, t2))"

section \<open>RST and ACK\<close>

definition rst_input :: "tcpcfg \<Rightarrow> tseg \<Rightarrow> th_flag set \<Rightarrow> tcp \<Rightarrow> (act \<times> tcp) run" where
  "rst_input cfg ti tiflags t =
     (let close = (\<lambda>t1. rbind (tcp_close cfg t1) (\<lambda>t2. rret (Drop ti, t2)));
          reset = (\<lambda>e. close (bump drops 1 (updtp (\<lambda>p. p\<lparr>t_state := TCPS_CLOSED\<rparr>) (updso (\<lambda>x. x\<lparr>so_error := Some e\<rparr>) t))))
      in case t_state (tp t) of
           TCPS_SYN_RECEIVED \<Rightarrow> reset ECONNREFUSED
         | TCPS_ESTABLISHED \<Rightarrow> reset ECONNRESET
         | TCPS_FIN_WAIT_1 \<Rightarrow> reset ECONNRESET
         | TCPS_FIN_WAIT_2 \<Rightarrow> reset ECONNRESET
         | TCPS_CLOSE_WAIT \<Rightarrow> reset ECONNRESET
         | TCPS_CLOSING \<Rightarrow> close t
         | TCPS_LAST_ACK \<Rightarrow> close t
         | TCPS_TIME_WAIT \<Rightarrow> close t
         | _ \<Rightarrow> rret (Continue ti tiflags False, t))"

text \<open>Half the window in segments, at least two: the new slow start threshold.\<close>

definition half_window :: "tcpcb \<Rightarrow> int" where
  "half_window p = (let win = u_min (uint (snd_wnd p)) (uint (snd_cwnd p)) div 2 div uint (t_maxseg p) in if win < 2 then 2 else win)"

definition fast_rexmt :: "tcpcfg \<Rightarrow> tseg \<Rightarrow> tcp \<Rightarrow> tcp run" where
  "fast_rexmt cfg ti t =
     (if t_maxseg (tp t) = 0 then Some Fault
      else let onxt = snd_nxt (tp t);
               t1 = updtp (\<lambda>p. (set_timer TCPT_REXMT 0 (p\<lparr>snd_ssthresh := of_int (half_window p * uint (t_maxseg p))\<rparr>))
                      \<lparr>t_rtt := 0, snd_nxt := ti_ack ti, snd_cwnd := t_maxseg p\<rparr>) t
           in rbind (output_quiet cfg t1) (\<lambda>t2. rret (updtp (\<lambda>p.
                p\<lparr>snd_cwnd := snd_ssthresh p + t_maxseg p * of_int (t_dupacks p),
                  snd_nxt := (if SEQ_GT onxt (snd_nxt p) then onxt else snd_nxt p)\<rparr>) t2)))"

definition dup_ack :: "tcpcfg \<Rightarrow> tseg \<Rightarrow> th_flag set \<Rightarrow> tcp \<Rightarrow> (act \<times> tcp) run" where
  "dup_ack cfg ti tiflags t =
     (if ti_len ti = 0 \<and> ti_win ti = snd_wnd (tp t)
      then let t1 = bump rcvdupack 1 t in
        if t_timer (tp t1) TCPT_REXMT = 0 \<or> ti_ack ti \<noteq> snd_una (tp t1)
        then rret (Continue ti tiflags False, updtp (\<lambda>p. p\<lparr>t_dupacks := 0\<rparr>) t1)
        else let t2 = updtp (\<lambda>p. p\<lparr>t_dupacks := t_dupacks p + 1\<rparr>) t1 in
          if t_dupacks (tp t2) = tcprexmtthresh cfg then rbind (fast_rexmt cfg ti t2) (\<lambda>t3. rret (Drop ti, t3))
          else if t_dupacks (tp t2) > tcprexmtthresh cfg
          then rbind (output_quiet cfg (updtp (\<lambda>p. p\<lparr>snd_cwnd := snd_cwnd p + t_maxseg p\<rparr>) t2)) (\<lambda>t3. rret (Drop ti, t3))
          else rret (Continue ti tiflags False, t2)
      else rret (Continue ti tiflags False, updtp (\<lambda>p. p\<lparr>t_dupacks := 0\<rparr>) t))"

text \<open>Opening the congestion window.\<close>

definition open_cwnd :: "tcpcb \<Rightarrow> tcpcb" where
  "open_cwnd p = (let cw = uint (snd_cwnd p); mss = uint (t_maxseg p);
       incr = (if cw > uint (snd_ssthresh p) then mss * mss div cw + mss div 8 else mss)
     in p\<lparr>snd_cwnd := of_int (u_min (cw + incr) TCP_MAXWIN)\<rparr>)"

text \<open>The states waiting for the acknowledgement of our FIN.\<close>

definition fin_acked :: "tcpcfg \<Rightarrow> bool \<Rightarrow> bool \<Rightarrow> tseg \<Rightarrow> th_flag set \<Rightarrow> tcp \<Rightarrow> (act \<times> tcp) run" where
  "fin_acked cfg ourfinisacked needoutput ti tiflags t =
     (let go = (\<lambda>t1. rret (Continue ti tiflags needoutput, t1)) in
      case t_state (tp t) of
        TCPS_FIN_WAIT_1 \<Rightarrow>
          if ourfinisacked
          then go (updtp (\<lambda>p. p\<lparr>t_state := TCPS_FIN_WAIT_2\<rparr>)
                 (if SS_CANTRCVMORE \<in> so_state (the_so t)
                  then updtp (set_timer TCPT_2MSL (to_short (tcp_maxidle cfg))) (onstab soisdisconnected t) else t))
          else go t
      | TCPS_CLOSING \<Rightarrow>
          if ourfinisacked
          then go (onstab soisdisconnected
                 (updtp (\<lambda>p. set_timer TCPT_2MSL (2 * TCPTV_MSL) (tcp_canceltimers (p\<lparr>t_state := TCPS_TIME_WAIT\<rparr>))) t))
          else go t
      | TCPS_LAST_ACK \<Rightarrow>
          if ourfinisacked then rbind (tcp_close cfg t) (\<lambda>t1. rret (Drop ti, t1)) else go t
      | TCPS_TIME_WAIT \<Rightarrow> rret (DropAfterAck ti tiflags, updtp (set_timer TCPT_2MSL (2 * TCPTV_MSL)) t)
      | _ \<Rightarrow> go t)"

definition new_ack :: "tcpcfg \<Rightarrow> tseg \<Rightarrow> th_flag set \<Rightarrow> tcp \<Rightarrow> (act \<times> tcp) run" where
  "new_ack cfg ti tiflags t0 =
     (let t = updtp (\<lambda>p. p\<lparr>snd_cwnd := (if t_dupacks p > tcprexmtthresh cfg \<and> snd_cwnd p > snd_ssthresh p then snd_ssthresh p else snd_cwnd p),
                         t_dupacks := 0\<rparr>) t0
      in if SEQ_GT (ti_ack ti) (snd_max (tp t)) then rret (DropAfterAck ti tiflags, bump rcvacktoomuch 1 t)
         else let acked = sint (ti_ack ti - snd_una (tp t));
                  t1 = bump rcvackbyte (of_int acked) (bump rcvackpack 1 t);
                  t2 = (if t_rtt (tp t1) \<noteq> 0 \<and> SEQ_GT (ti_ack ti) (t_rtseq (tp t1)) then tcp_xmit_timer t1 else t1);
                  needoutput = (ti_ack ti = snd_max (tp t2));
                  t3 = updtp (\<lambda>p. open_cwnd (if needoutput then set_timer TCPT_REXMT 0 p
                         else if t_timer p TCPT_PERSIST = 0 then set_timer TCPT_REXMT (t_rxtcur p) p else p)) t2;
                  cc = sb_cc (so_snd (the_so t3));
                  ourfin = ((of_int acked :: u32) > cc)
              in rbind (Some (drop_snd (if ourfin then sint cc else acked) t3)) (\<lambda>t4.
                 let t5 = updtp (\<lambda>p. p\<lparr>snd_wnd := snd_wnd p - (if ourfin then ucast cc else of_int acked)\<rparr>) t4;
                     t6 = updtp (\<lambda>p. p\<lparr>snd_una := ti_ack ti, snd_nxt := (if SEQ_LT (snd_nxt p) (ti_ack ti) then ti_ack ti else snd_nxt p)\<rparr>)
                            (wakeup_snd t5)
                 in fin_acked cfg ourfin needoutput ti tiflags t6))"

definition ack_input :: "tcpcfg \<Rightarrow> tseg \<Rightarrow> th_flag set \<Rightarrow> tcp \<Rightarrow> (act \<times> tcp) run" where
  "ack_input cfg ti tiflags t =
     (let process = (\<lambda>t1. if SEQ_LEQ (ti_ack ti) (snd_una (tp t1)) then dup_ack cfg ti tiflags t1 else new_ack cfg ti tiflags t1) in
      if t_state (tp t) = TCPS_SYN_RECEIVED
      then if SEQ_GT (snd_una (tp t)) (ti_ack ti) \<or> SEQ_GT (ti_ack ti) (snd_max (tp t))
           then rret (DropReset ti tiflags True, t)
           else rbind (run_so soisconnected (bump connects 1 t)) (\<lambda>t1.
                rbind (Some (tcp_reass None (updtp (\<lambda>p. p\<lparr>t_state := TCPS_ESTABLISHED\<rparr>) t1))) (\<lambda>(_, t2).
                process (updtp (\<lambda>p. p\<lparr>snd_wl1 := ti_seq ti - 1\<rparr>) t2)))
      else if t_state (tp t) < TCPS_SYN_RECEIVED then rret (Continue ti tiflags False, t)
      else process t)"

section \<open>Window, urgent data, text and FIN\<close>

definition window_update :: "tseg \<Rightarrow> th_flag set \<Rightarrow> bool \<Rightarrow> tcp \<Rightarrow> bool \<times> tcp" where
  "window_update ti tiflags needoutput t =
     (let p = tp t in
      if TH_ACK \<in> tiflags \<and> (SEQ_LT (snd_wl1 p) (ti_seq ti) \<or> snd_wl1 p = ti_seq ti \<and>
           (SEQ_LT (snd_wl2 p) (ti_ack ti) \<or> snd_wl2 p = ti_ack ti \<and> ti_win ti > snd_wnd p))
      then let t1 = (if ti_len ti = 0 \<and> snd_wl2 p = ti_ack ti \<and> ti_win ti > snd_wnd p then bump rcvwinupd 1 t else t)
           in (True, updtp (\<lambda>q. q\<lparr>snd_wnd := ti_win ti, snd_wl1 := ti_seq ti, snd_wl2 := ti_ack ti,
                 max_sndwnd := (if ti_win ti > max_sndwnd q then ti_win ti else max_sndwnd q)\<rparr>) t1)
      else (needoutput, t))"

text \<open>The byte at offset \<open>cnt\<close> of a chain, taken out of it; \<open>None\<close>: the chain is shorter.\<close>

fun pull_oob :: "int \<Rightarrow> chain \<Rightarrow> (byte \<times> chain) option" where
  "pull_oob cnt [] = None"
| "pull_oob cnt (m # r) =
     (if cnt < 0 then None
      else if m_len m > cnt
      then Some (m_bytes m ! nat cnt, m\<lparr>m_bytes := take (nat cnt) (m_bytes m) @ drop (Suc (nat cnt)) (m_bytes m)\<rparr> # r)
      else map_option (\<lambda>(b, c). (b, m # c)) (pull_oob (cnt - m_len m) r))"

definition tcp_pulloutofband :: "tseg \<Rightarrow> tcp \<Rightarrow> (tseg \<times> tcp) kres" where
  "tcp_pulloutofband ti t = (case pull_oob (uint (ti_urp ti) - 1) (ti_m ti) of
       None \<Rightarrow> Panic ''tcp_pulloutofband''
     | Some (b, c) \<Rightarrow> Ret (ti\<lparr>ti_m := c\<rparr>, updtp (\<lambda>p. p\<lparr>t_iobc := b, TCPOOB_HAVEDATA := True\<rparr>) t))"

text \<open>\<^verbatim>\<open>sohasoutofband\<close> of \<^verbatim>\<open>uipc_socket.c\<close>.\<close>

definition sohasoutofband :: "nat \<Rightarrow> sotab \<Rightarrow> sotab" where
  "sohasoutofband i t =
     (let pg = so_pgid (sock t i);
          t1 = (if pg < 0 then post [Gsignal (- pg)] t else if pg > 0 \<and> pfind_ok t pg then post [Psignal pg] t else t)
      in case sb_sel (so_rcv (sock t1 i)) of
           None \<Rightarrow> t1
         | Some q \<Rightarrow> post [Selwakeup q (SB_COLL (so_rcv (sock t1 i)))]
             (upd i (\<lambda>so. so\<lparr>so_rcv := (so_rcv so)\<lparr>sb_sel := None, SB_COLL := False\<rparr>\<rparr>) t1))"

definition urg_mark :: "tseg \<Rightarrow> tcp \<Rightarrow> tcp" where
  "urg_mark ti t =
     (if SEQ_GT (ti_seq ti + ucast (ti_urp ti)) (rcv_up (tp t))
      then let t1 = updtp (\<lambda>p. p\<lparr>rcv_up := ti_seq ti + ucast (ti_urp ti)\<rparr>) t;
               mark = sb_cc (so_rcv (the_so t1)) + (rcv_up (tp t1) - rcv_nxt (tp t1)) - 1;
               t2 = updso (\<lambda>x. x\<lparr>so_oobmark := mark,
                      so_state := (if mark = 0 then insert SS_RCVATMARK (so_state x) else so_state x)\<rparr>) t1
           in updtp (\<lambda>p. p\<lparr>TCPOOB_HAVEDATA := False, TCPOOB_HADDATA := False\<rparr>) (onstab sohasoutofband t2)
      else t)"

definition urg_input :: "tseg \<Rightarrow> th_flag set \<Rightarrow> tcp \<Rightarrow> (tseg \<times> th_flag set \<times> tcp) kres" where
  "urg_input ti tiflags t =
     (if TH_URG \<in> tiflags \<and> ti_urp ti \<noteq> 0 \<and> \<not> TCPS_HAVERCVDFIN (t_state (tp t))
      then if ucast (ti_urp ti) + sb_cc (so_rcv (the_so t)) > of_int SB_MAX
           then Ret (ti\<lparr>ti_urp := 0\<rparr>, tiflags - {TH_URG}, t)
           else let t1 = urg_mark ti t in
             if uint (ti_urp ti) \<le> ti_len ti \<and> SO_OOBINLINE \<notin> so_options (the_so t1)
             then kmap (\<lambda>(ti1, t2). (ti1, tiflags, t2)) (tcp_pulloutofband ti t1)
             else Ret (ti, tiflags, t1)
      else Ret (ti, tiflags, updtp (\<lambda>p. p\<lparr>rcv_up := (if SEQ_GT (rcv_nxt p) (rcv_up p) then rcv_nxt p else rcv_up p)\<rparr>) t))"

text \<open>The text of the segment: the flags returned are \<^verbatim>\<open>tiflags\<close> after \<^verbatim>\<open>TCP_REASS\<close>, FIN or nothing.\<close>

definition data_input :: "tseg \<Rightarrow> th_flag set \<Rightarrow> tcp \<Rightarrow> (th_flag set \<times> tcp) kres" where
  "data_input ti tiflags t =
     (if (ti_len ti \<noteq> 0 \<or> TH_FIN \<in> tiflags) \<and> \<not> TCPS_HAVERCVDFIN (t_state (tp t)) then TCP_REASS ti t
      else Ret (tiflags - {TH_FIN}, t\<lparr>mbs := m_freem (ti_m ti) (mbs t)\<rparr>))"

definition fin_input :: "th_flag set \<Rightarrow> tcp \<Rightarrow> tcp" where
  "fin_input tiflags t =
     (if TH_FIN \<notin> tiflags then t
      else let t1 = (if \<not> TCPS_HAVERCVDFIN (t_state (tp t))
              then updtp (\<lambda>p. p\<lparr>t_flags := insert TF_ACKNOW (t_flags p), rcv_nxt := rcv_nxt p + 1\<rparr>) (onstab socantrcvmore t)
              else t)
           in case t_state (tp t1) of
                TCPS_SYN_RECEIVED \<Rightarrow> updtp (\<lambda>p. p\<lparr>t_state := TCPS_CLOSE_WAIT\<rparr>) t1
              | TCPS_ESTABLISHED \<Rightarrow> updtp (\<lambda>p. p\<lparr>t_state := TCPS_CLOSE_WAIT\<rparr>) t1
              | TCPS_FIN_WAIT_1 \<Rightarrow> updtp (\<lambda>p. p\<lparr>t_state := TCPS_CLOSING\<rparr>) t1
              | TCPS_FIN_WAIT_2 \<Rightarrow> onstab soisdisconnected
                  (updtp (\<lambda>p. set_timer TCPT_2MSL (2 * TCPTV_MSL) (tcp_canceltimers (p\<lparr>t_state := TCPS_TIME_WAIT\<rparr>))) t1)
              | TCPS_TIME_WAIT \<Rightarrow> updtp (set_timer TCPT_2MSL (2 * TCPTV_MSL)) t1
              | _ \<Rightarrow> t1)"

definition step6 :: "tcpcfg \<Rightarrow> tseg \<Rightarrow> th_flag set \<Rightarrow> bool \<Rightarrow> tcp \<Rightarrow> tcp run" where
  "step6 cfg ti tiflags need0 t =
     (let (needoutput, t1) = window_update ti tiflags need0 t in
      rbind (Some (urg_input ti tiflags t1)) (\<lambda>(ti1, fl1, t2).
      rbind (Some (data_input ti1 fl1 t2)) (\<lambda>(fl2, t3).
      let t4 = fin_input fl2 t3 in
      if needoutput \<or> TF_ACKNOW \<in> t_flags (tp t4) then output_quiet cfg t4 else rret t4)))"

section \<open>The whole of the input routine\<close>

definition andthen :: "(act \<times> tcp) run \<Rightarrow> (tseg \<Rightarrow> th_flag set \<Rightarrow> bool \<Rightarrow> tcp \<Rightarrow> (act \<times> tcp) run) \<Rightarrow> (act \<times> tcp) run" where
  "andthen r f = rbind r (\<lambda>(ac, t). case ac of Continue ti fl need \<Rightarrow> f ti fl need t | _ \<Rightarrow> rret (ac, t))"

text \<open>States other than \<^verbatim>\<open>LISTEN\<close> and \<^verbatim>\<open>SYN_SENT\<close>, up to \<^verbatim>\<open>step6\<close>.\<close>

definition sync_input :: "tcpcfg \<Rightarrow> tseg \<Rightarrow> th_flag set \<Rightarrow> tcp \<Rightarrow> (act \<times> tcp) run" where
  "sync_input cfg ti tiflags t =
     andthen (Some (trim_left cfg ti tiflags t)) (\<lambda>ti fl _ t.
     andthen (after_close cfg ti fl t) (\<lambda>ti fl _ t.
     andthen (trim_right cfg ti fl t) (\<lambda>ti fl _ t.
     andthen (if TH_RST \<in> fl then rst_input cfg ti fl t else rret (Continue ti fl False, t)) (\<lambda>ti fl _ t.
     if TH_SYN \<in> fl then rbind (tcp_drop cfg (Some ECONNRESET) t) (\<lambda>t1. rret (DropReset ti fl False, t1))
     else if TH_ACK \<notin> fl then rret (Drop ti, t)
     else ack_input cfg ti fl t))))"

text \<open>The labels at the end; the connection made for the segment is aborted if it was not kept.\<close>

definition soabort_conn :: "tcpcfg \<Rightarrow> bool \<Rightarrow> tcp \<Rightarrow> tcp run" where
  "soabort_conn cfg dropsocket t =
     (if dropsocket then rbind (tcp_usrreq cfg (so_id t) PRU_ABORT [] t) (\<lambda>(_, _, t1). rret t1) else rret t)"

definition drop_segment :: "tseg \<Rightarrow> byte list option \<Rightarrow> tcp \<Rightarrow> tcp" where
  "drop_segment ti om t = t\<lparr>mbs := m_freem (ti_m ti) (if om = None then mbs t else MFREE (new_mbuf MT_DATA) (mbs t))\<rparr>"

definition reset_peer :: "tcpcfg \<Rightarrow> tseg \<Rightarrow> th_flag set \<Rightarrow> bool \<Rightarrow> tcp \<Rightarrow> tcp" where
  "reset_peer cfg ti tiflags has_tp t =
     (if TH_ACK \<in> tiflags then tcp_respond cfg has_tp (ti_m ti) 0 (ti_ack ti) {TH_RST} t
      else tcp_respond cfg has_tp (ti_m ti) (ti_seq ti + of_int (if TH_SYN \<in> tiflags then ti_len ti + 1 else ti_len ti)) 0
             {TH_RST, TH_ACK} t)"

definition finish :: "tcpcfg \<Rightarrow> byte list option \<Rightarrow> bool \<Rightarrow> act \<times> tcp \<Rightarrow> tcp run" where
  "finish cfg om dropsocket r = (let (ac, t) = r in case ac of
       Drop ti \<Rightarrow> soabort_conn cfg dropsocket (drop_segment ti om t)
     | DropGone ti \<Rightarrow> rret (drop_segment ti om t)
     | DropReset ti tiflags has_tp \<Rightarrow>
         if TH_RST \<in> tiflags \<or> is_bcast ti then soabort_conn cfg dropsocket (drop_segment ti om t)
         else soabort_conn cfg dropsocket (reset_peer cfg ti tiflags has_tp
                (if om = None then t else t\<lparr>mbs := MFREE (new_mbuf MT_DATA) (mbs t)\<rparr>))
     | DropAfterAck ti tiflags \<Rightarrow>
         if TH_RST \<in> tiflags then soabort_conn cfg dropsocket (drop_segment ti om t)
         else output_quiet cfg (updtp (\<lambda>p. p\<lparr>t_flags := insert TF_ACKNOW (t_flags p)\<rparr>) (t\<lparr>mbs := m_freem (ti_m ti) (mbs t)\<rparr>))
     | Continue ti tiflags need \<Rightarrow> step6 cfg ti tiflags need t
     | Return \<Rightarrow> rret t
     | Restart ti tiflags i \<Rightarrow> rret t)"

text \<open>A segment on its connection.  The result is also where the code goes, since \<open>Restart\<close> starts again.\<close>

definition conn_input ::
  "tcpcfg \<Rightarrow> segaddr \<Rightarrow> byte list option \<Rightarrow> u32 \<Rightarrow> bool \<Rightarrow> tseg \<Rightarrow> th_flag set \<Rightarrow> tcp \<Rightarrow> (act \<times> tcp) run" where
  "conn_input cfg a om0 iss0 dropsocket ti tiflags t =
     (let t1 = updtp (\<lambda>p. (set_timer TCPT_KEEP (to_short (tcp_keepidle cfg)) p)\<lparr>t_idle := 0\<rparr>) t;
          (om, t2) = (case om0 of Some bs \<Rightarrow> if t_state (tp t1) \<noteq> TCPS_LISTEN then (None, tcp_dooptions cfg bs ti t1) else (om0, t1)
                      | None \<Rightarrow> (None, t1))
      in if predicted ti tiflags (tp t2) \<and> pred_ack ti (tp t2) then rbind (pred_ack_input cfg ti t2) (\<lambda>t3. rret (Return, t3))
         else if predicted ti tiflags (tp t2) \<and> pred_data ti t2 then rret (Return, pred_data_input ti t2)
         else let t3 = receive_window t2 in
           rbind (case t_state (tp t3) of
               TCPS_LISTEN \<Rightarrow> listen_input cfg a om iss0 ti tiflags t3
             | TCPS_SYN_SENT \<Rightarrow> synsent_input cfg ti tiflags t3
             | _ \<Rightarrow> sync_input cfg ti tiflags t3)
             (\<lambda>(ac, t4). rbind (finish cfg om dropsocket (ac, t4)) (\<lambda>t5. rret (ac, t5))))"

text \<open>From \<^verbatim>\<open>findpcb\<close> on.  A connection in \<^verbatim>\<open>TIME_WAIT\<close> may be replaced by the segment that opens the next; that sends the
  code back once for each connection closed.\<close>

partial_function (option) tcp_input ::
  "tcpcfg \<Rightarrow> segaddr \<Rightarrow> byte list option \<Rightarrow> u32 \<Rightarrow> tseg \<Rightarrow> th_flag set \<Rightarrow> tcp \<Rightarrow> tcp run" where
  "tcp_input cfg a om iss0 ti tiflags t =
     (case find_pcb a t of
        (None, t1) \<Rightarrow> finish cfg om False (DropReset ti tiflags False, t1)
      | (Some i, t1) \<Rightarrow>
          let t2 = enter i t1 in
          if \<not> tp_live t2 then finish cfg om False (DropReset ti tiflags False, t2)
          else if t_state (tp t2) = TCPS_CLOSED then finish cfg om False (Drop ti, t2)
          else case listen_conn cfg a t2 of
              None \<Rightarrow> None
            | Some (Panic x) \<Rightarrow> Some (Panic x)
            | Some Fault \<Rightarrow> Some Fault
            | Some (Ret (None, t3)) \<Rightarrow> finish cfg om False (Drop ti, t3)
            | Some (Ret (Some dropsocket, t3)) \<Rightarrow>
                (case conn_input cfg a om iss0 dropsocket ti tiflags t3 of
                   None \<Rightarrow> None
                 | Some (Panic x) \<Rightarrow> Some (Panic x)
                 | Some Fault \<Rightarrow> Some Fault
                 | Some (Ret (Restart ti1 fl1 iss1, t4)) \<Rightarrow> tcp_input cfg a (if t_state (tp t3) = TCPS_LISTEN then om else None) iss1 ti1 fl1 t4
                 | Some (Ret (_, t4)) \<Rightarrow> Some (Ret t4)))"

end
