(* ===== verification/Tcp_Header.thy ===== *)
theory Tcp_Header
  imports Tcp_Input
begin

text \<open>
  The beginning of \<^verbatim>\<open>tcp_input\<close>: getting the headers into the first mbuf, checksum, options, and the header
  fields in host order, with \<^verbatim>\<open>ip_stripoptions\<close> of \<^verbatim>\<open>sys/netinet/ip_input.c\<close>.  Headers are read as bytes at
  the offsets of \<^verbatim>\<open>struct tcpiphdr\<close>; the length field of the IP header is in host (VAX) order, as
  \<^verbatim>\<open>ipintr\<close> leaves it.  The checksum routine is an argument.
\<close>

section \<open>Reading header fields\<close>

definition be16 :: "byte list \<Rightarrow> nat \<Rightarrow> u16" where
  "be16 bs i = word_rcat [bs ! i, bs ! (i + 1)]"

definition be32 :: "byte list \<Rightarrow> nat \<Rightarrow> u32" where
  "be32 bs i = word_rcat [bs ! i, bs ! (i + 1), bs ! (i + 2), bs ! (i + 3)]"

text \<open>Network order fields that are not converted keep the byte order of memory.\<close>

definition le16 :: "byte list \<Rightarrow> nat \<Rightarrow> u16" where
  "le16 bs i = word_rcat [bs ! (i + 1), bs ! i]"

definition le32 :: "byte list \<Rightarrow> nat \<Rightarrow> u32" where
  "le32 bs i = word_rcat [bs ! (i + 3), bs ! (i + 2), bs ! (i + 1), bs ! i]"

definition th_flags_of :: "byte \<Rightarrow> th_flag set" where
  "th_flags_of b = set (map fst (filter snd [(TH_FIN, bit b 0), (TH_SYN, bit b 1), (TH_RST, bit b 2), (TH_PUSH, bit b 3),
     (TH_ACK, bit b 4), (TH_URG, bit b 5)]))"

definition SIZEOF_IP :: int where "SIZEOF_IP = 20"
definition SIZEOF_TCPHDR :: int where "SIZEOF_TCPHDR = 20"

text \<open>\<^verbatim>\<open>ip_stripoptions\<close>: the options between the IP header and the rest are overwritten.\<close>

definition ip_stripoptions :: "mbuf \<Rightarrow> mbuf" where
  "ip_stripoptions m =
     (let olen = 4 * (unat (m_bytes m ! 0) mod 16) - 20;
          bs = take 20 (m_bytes m) @ drop (20 + olen) (m_bytes m);
          m1 = m\<lparr>m_bytes := bs[0 := (bs ! 0 AND 0xf0) OR 5]\<rparr>
      in if M_PKTHDR m then m1\<lparr>m_pkthdr := (m_pkthdr m)\<lparr>pkt_len := pkt_len (m_pkthdr m) - int olen\<rparr>\<rparr> else m1)"

section \<open>The header paragraph\<close>

text \<open>\<open>HGone\<close>: the packet has been freed by \<^verbatim>\<open>m_pullup\<close>; \<open>HDrop\<close>: the label \<^verbatim>\<open>drop\<close>.\<close>

datatype hdr = HGone | HDrop chain | HSeg segaddr "byte list option" tseg

definition pullup_to :: "int \<Rightarrow> int \<Rightarrow> chain \<Rightarrow> tcp \<Rightarrow> (chain option \<times> tcp) run" where
  "pullup_to max_protohdr n c t =
     (if c \<noteq> [] \<and> m_len (c ! 0) < n
      then (case m_pullup max_protohdr c n (mbs t) of
              Ret None \<Rightarrow> None
            | Ret (Some (None, s1)) \<Rightarrow> rret (None, bump rcvshort 1 (t\<lparr>mbs := s1\<rparr>))
            | Ret (Some (Some c1, s1)) \<Rightarrow> rret (Some c1, t\<lparr>mbs := s1\<rparr>)
            | Panic e \<Rightarrow> Some (Panic e)
            | Fault \<Rightarrow> Some Fault)
      else rret (Some c, t))"

text \<open>The fields of the header in the first mbuf, whose options (\<open>olen\<close> bytes) go, and the data.\<close>

definition header_seg :: "int \<Rightarrow> nat \<Rightarrow> chain \<Rightarrow> chain \<Rightarrow> segaddr \<times> tseg" where
  "header_seg tlen olen sr c =
     (let m = c ! 0; bs = m_bytes m;
          m1 = m\<lparr>m_bytes := drop 40 (take 40 bs @ drop (40 + olen) bs), m_data := m_data m + 40,
                 m_pkthdr := (m_pkthdr m)\<lparr>pkt_len := pkt_len (m_pkthdr m) - int olen\<rparr>\<rparr>
      in (\<lparr>ti_src = le32 bs 12, ti_sport = le16 bs 20, ti_dst = le32 bs 16, ti_dport = le16 bs 22, srcroute = sr\<rparr>,
          \<lparr>ti_seq = be32 bs 24, ti_ack = be32 bs 28, ti_len = tlen, ti_flags = th_flags_of (bs ! 33),
           ti_win = be16 bs 34, ti_urp = be16 bs 38, ti_m = m1 # tl c\<rparr>))"

text \<open>Offset check and options, once the headers are in the first mbuf.\<close>

definition header_options :: "int \<Rightarrow> chain \<Rightarrow> int \<Rightarrow> chain \<Rightarrow> tcp \<Rightarrow> (hdr \<times> tcp) run" where
  "header_options max_protohdr sr tlen c t =
     (let off = 4 * (uint (m_bytes (c ! 0) ! 32) div 16) in
      if off < SIZEOF_TCPHDR \<or> off > tlen then rret (HDrop c, bump rcvbadoff 1 t)
      else if off = SIZEOF_TCPHDR
      then (let (a, ti) = header_seg (tlen - off) 0 sr c in rret (HSeg a None ti, t))
      else rbind (pullup_to max_protohdr (SIZEOF_IP + off) c t) (\<lambda>(r, t1). case r of
          None \<Rightarrow> rret (HGone, t1)
        | Some c1 \<Rightarrow> (case MGET MT_DATA (mbs t1) of
              (None, s1) \<Rightarrow> rret (HDrop c1, t1\<lparr>mbs := s1\<rparr>)
            | (Some om, s1) \<Rightarrow>
                let olen = nat (off - SIZEOF_TCPHDR);
                    (a, ti) = header_seg (tlen - off) olen sr c1
                in rret (HSeg a (Some (take olen (drop 40 (m_bytes (c1 ! 0))))) ti, t1\<lparr>mbs := s1\<rparr>))))"

definition tcp_input_hdr ::
  "(chain \<Rightarrow> int \<Rightarrow> u16) \<Rightarrow> int \<Rightarrow> chain \<Rightarrow> int \<Rightarrow> chain \<Rightarrow> tcp \<Rightarrow> (hdr \<times> tcp) run" where
  "tcp_input_hdr in_cksum max_protohdr sr iphlen c0 t0 =
     (case c0 of [] \<Rightarrow> Some Fault | m0 # r0 \<Rightarrow>
        let t = bump rcvtotal 1 t0;
            c = (if iphlen > SIZEOF_IP then ip_stripoptions m0 # r0 else c0)
        in rbind (pullup_to max_protohdr TCPIPHDR c t) (\<lambda>(r, t1). case r of
             None \<Rightarrow> rret (HGone, t1)
           | Some c1 \<Rightarrow>
               let tlen = sint (le16 (m_bytes (c1 ! 0)) 2) in
               if in_cksum c1 (SIZEOF_IP + tlen) \<noteq> 0 then rret (HDrop c1, bump rcvbadsum 1 t1)
               else header_options max_protohdr sr tlen c1 t1))"

text \<open>\<^verbatim>\<open>tcp_input\<close> on a packet.\<close>

definition tcp_input_packet ::
  "(chain \<Rightarrow> int \<Rightarrow> u16) \<Rightarrow> tcpcfg \<Rightarrow> int \<Rightarrow> chain \<Rightarrow> int \<Rightarrow> chain \<Rightarrow> tcp \<Rightarrow> tcp run" where
  "tcp_input_packet in_cksum cfg max_protohdr sr iphlen c t =
     rbind (tcp_input_hdr in_cksum max_protohdr sr iphlen c t) (\<lambda>(h, t1). case h of
         HGone \<Rightarrow> rret t1
       | HDrop c1 \<Rightarrow> rret (t1\<lparr>mbs := m_freem c1 (mbs t1)\<rparr>)
       | HSeg a om ti \<Rightarrow> tcp_input cfg a om 0 ti (ti_flags ti) t1)"

end
