(* ===== verification/Tcp_Send.thy ===== *)
theory Tcp_Send
  imports Tcp_Header
begin

text \<open>
  What TCP output does over a whole call: the parts of a connection \<^verbatim>\<open>tcp_output\<close> leaves alone (\<open>kept\<close>), that
  it returns, and that every segment it sends holds bytes of the send buffer at the place its
  sequence number says.
\<close>

section \<open>What output leaves alone\<close>

definition kept :: "tcp \<Rightarrow> tcp \<Rightarrow> bool" where
  "kept t t' = (kept_tp (tp t) (tp t') \<and> inp_id t' = inp_id t \<and> tab t' = tab t \<and> stab t' = stab t \<and> tcbs t' = tcbs t)"

lemma kept_refl [simp]: "kept t t" "kept_tp p p"
  by (simp_all add: kept_def kept_tp_def)

lemma kept_trans: "kept a b \<Longrightarrow> kept b c \<Longrightarrow> kept a c"
  by (simp add: kept_def kept_tp_def)

lemma kept_upd [simp]:
  "kept t (bump k n t') = kept t t'" "kept t (t'\<lparr>mbs := s\<rparr>) = kept t t'"
  "kept t (t'\<lparr>sent := q\<rparr>) = kept t t'" "kept t (t'\<lparr>ip_answers := a\<rparr>) = kept t t'"
  by (simp_all add: kept_def bump_def)

lemma kept_updtp: "kept_tp (tp t') (f (tp t')) \<Longrightarrow> kept t t' \<Longrightarrow> kept t (updtp f t')"
  by (simp add: kept_def kept_tp_def updtp_def)

lemma kept_tp_if: "kept_tp p a \<Longrightarrow> kept_tp p b \<Longrightarrow> kept_tp p (if c then a else b)"
  by simp

lemma kept_tp_fields:
  "kept_tp p q \<Longrightarrow> kept_tp p (q\<lparr>snd_nxt := a\<rparr>)" "kept_tp p q \<Longrightarrow> kept_tp p (q\<lparr>snd_max := a\<rparr>)"
  "kept_tp p q \<Longrightarrow> kept_tp p (q\<lparr>t_flags := fl\<rparr>)" "kept_tp p q \<Longrightarrow> kept_tp p (set_timer k v q)"
  "kept_tp p q \<Longrightarrow> kept_tp p (q\<lparr>t_rxtshift := i\<rparr>)" "kept_tp p q \<Longrightarrow> kept_tp p (q\<lparr>t_rtt := i, t_rtseq := a\<rparr>)"
  "kept_tp p q \<Longrightarrow> kept_tp p (q\<lparr>snd_nxt := a, t_flags := fl\<rparr>)"
  by (simp_all add: kept_tp_def set_timer_def)

lemmas kept_tp_intros = kept_tp_if kept_tp_fields kept_refl

lemma kept_so: "kept t t' \<Longrightarrow> the_so t' = the_so t"
  by (simp add: kept_def the_so_def so_id_def inp_def)

section \<open>The paragraphs\<close>

lemma tcp_output_len_kept:
  assumes "tcp_output_len t = (o1, t1)"
  shows "kept t t1" and "snd_cwnd (tp t1) = snd_cwnd (tp t)" and "snd_max (tp t1) = snd_max (tp t)" and "t_flags (tp t1) = t_flags (tp t)"
    and "mbs t1 = mbs t" and "sent t1 = sent t" and "ol_flags o1 \<subseteq> tcp_outflags (t_state (tp t))"
    and "ol_more o1 \<Longrightarrow> ol_len o1 = uint (t_maxseg (tp t)) \<and> snd_nxt (tp t1) = snd_nxt (tp t)"
proof -
  obtain p2 where p2: "t1 = updtp (\<lambda>_. p2) t" "kept_tp (tp t) p2" "snd_cwnd p2 = snd_cwnd (tp t)" "snd_max p2 = snd_max (tp t)"
      "t_flags p2 = t_flags (tp t)" "send_want t < 0 \<or> snd_nxt p2 = snd_nxt (tp t)"
      "ol_off o1 = sint (snd_nxt (tp t) - snd_una (tp t))" "ol_more o1 = (uint (t_maxseg (tp t)) < max 0 (send_want t))"
      "ol_len o1 = min (uint (t_maxseg (tp t))) (max 0 (send_want t))"
      "ol_flags o1 = (if SEQ_LT (snd_nxt p2 + of_int (ol_len o1)) (snd_una (tp t) + sb_cc (so_snd (the_so t)))
        then tcp_outflags (t_state (tp t)) - {TH_FIN} else tcp_outflags (t_state (tp t)))"
    by (rule tcp_output_len_form[OF assms(1)])
  show "kept t t1" unfolding p2(1) by (rule kept_updtp) (use p2(2) in simp_all)
  show "snd_cwnd (tp t1) = snd_cwnd (tp t)" "snd_max (tp t1) = snd_max (tp t)" "t_flags (tp t1) = t_flags (tp t)"
    "mbs t1 = mbs t" "sent t1 = sent t" "ol_flags o1 \<subseteq> tcp_outflags (t_state (tp t))"
    using p2(1,3-5,10) by auto
  assume "ol_more o1"
  then have "uint (t_maxseg (tp t)) < max 0 (send_want t)" using p2(8) by simp
  moreover from le_less_trans[OF uint_nonnegative this] have "send_want t > 0" by simp
  ultimately show "ol_len o1 = uint (t_maxseg (tp t)) \<and> snd_nxt (tp t1) = snd_nxt (tp t)" using p2(1,6,9) by simp
qed

lemma tcp_output_idle_kept:
  assumes "tcp_output_idle t = Ret t'" shows "kept t t'" and "sent t' = sent t"
  using assms by (auto simp: tcp_output_idle_def tcp_setpersist_def Let_def set_timer_def kept_tp_def intro!: kept_updtp split: if_splits)

lemma count_sent_kept [simp]: "kept t (count_sent o1 t)" "sent (count_sent o1 t) = sent t"
  by (simp_all add: count_sent_def Let_def)

lemma tcp_output_data_kept:
  assumes "tcp_output_data cfg h o1 t = Ret (res, t')"
  shows "\<exists>s. t' = (count_sent o1 t)\<lparr>mbs := s\<rparr>"
    and "res = Some (bs, o2) \<Longrightarrow> length (mal_answers (mbs t')) < length (mal_answers (mbs t)) \<and> ol_more o2 = ol_more o1
       \<and> ol_flags o2 \<subseteq> insert TH_PUSH (ol_flags o1) \<and> (ol_len o2 = ol_len o1 \<or> ol_len o2 = 0)"
proof -
  obtain m s1 where g: "MGETHDR MT_HEADER (mbs t) = (m, s1)" by fastforce
  then have g': "MGETHDR MT_HEADER (mbs (count_sent o1 t)) = (m, s1)" by (simp add: same_send_count)
  note d = assms[unfolded tcp_output_data_def Let_def g' prod.case]
  show "\<exists>s. t' = (count_sent o1 t)\<lparr>mbs := s\<rparr>" using d by (auto split: option.splits if_splits)
  assume r: "res = Some (bs, o2)"
  then obtain k where m: "m = Some k" using d by (cases m) auto
  have less: "length (mal_answers s1) < length (mal_answers (mbs t))" using MGETHDR_mal(2)[OF g] m by simp
  show "length (mal_answers (mbs t')) < length (mal_answers (mbs t)) \<and> ol_more o2 = ol_more o1
       \<and> ol_flags o2 \<subseteq> insert TH_PUSH (ol_flags o1) \<and> (ol_len o2 = ol_len o1 \<or> ol_len o2 = 0)"
    using d less unfolding m r by (auto split: if_splits dest!: m_copym_mal)
qed

lemma tcp_output_fill_kept:
  assumes "tcp_output_fill bs mss win o1 t = (seg, t')"
  shows "kept t t'" and "mbs t' = mbs t" and "snd_cwnd (tp t') = snd_cwnd (tp t)" and "snd_max (tp t') = snd_max (tp t)"
    and "t_flags (tp t') = t_flags (tp t)" and "TH_FIN \<notin> ol_flags o1 \<Longrightarrow> snd_nxt (tp t') = snd_nxt (tp t)"
proof -
  define p1 where "p1 = (if TH_FIN \<in> ol_flags o1 \<and> TF_SENTFIN \<in> t_flags (tp t) \<and> snd_nxt (tp t) = snd_max (tp t)
      then (tp t)\<lparr>snd_nxt := snd_nxt (tp t) - 1\<rparr> else tp t)"
  have t': "t' = updtp (\<lambda>_. if SEQ_GT (snd_up p1) (snd_nxt p1) then p1 else p1\<lparr>snd_up := snd_una p1\<rparr>) t"
    using assms unfolding tcp_output_fill_def Let_def p1_def by (simp only: prod.inject)
  have p1: "kept_tp (tp t) p1" "snd_cwnd p1 = snd_cwnd (tp t)" "snd_max p1 = snd_max (tp t)" "t_flags p1 = t_flags (tp t)"
      "TH_FIN \<notin> ol_flags o1 \<Longrightarrow> snd_nxt p1 = snd_nxt (tp t)"
    by (simp_all add: p1_def kept_tp_def)
  show "kept t t'" unfolding t' by (rule kept_updtp) (use p1(1) in \<open>simp_all add: kept_tp_def\<close>)
  show "mbs t' = mbs t" "snd_cwnd (tp t') = snd_cwnd (tp t)" "snd_max (tp t') = snd_max (tp t)"
    "t_flags (tp t') = t_flags (tp t)" "TH_FIN \<notin> ol_flags o1 \<Longrightarrow> snd_nxt (tp t') = snd_nxt (tp t)"
    using p1(2-5) by (simp_all add: t')
qed

lemma tcp_output_time_kept:
  shows "kept t (tcp_output_time o1 t)" and "mbs (tcp_output_time o1 t) = mbs t" and "snd_cwnd (tp (tcp_output_time o1 t)) = snd_cwnd (tp t)"
proof -
  have i: "kept t x \<Longrightarrow> kept t ((if c then bump k n else id) x)" "kept t x \<Longrightarrow> kept t y \<Longrightarrow> kept t (if c then x else y)"
      "kept_tp (tp t) q \<Longrightarrow> kept t (updtp (\<lambda>_. q) t)" "kept t (updtp (\<lambda>q. q\<lparr>snd_max := f q\<rparr>) t)" for x y c k n q f
    by (simp_all add: kept_updtp kept_tp_def)
  show "kept t (tcp_output_time o1 t)" unfolding tcp_output_time_def Let_def by (intro i kept_tp_intros)
  show "mbs (tcp_output_time o1 t) = mbs t" by (simp add: tcp_output_time_def Let_def)
  have j: "snd_cwnd (p\<lparr>snd_nxt := a\<rparr>) = snd_cwnd p" "snd_cwnd (p\<lparr>snd_max := a\<rparr>) = snd_cwnd p"
      "snd_cwnd (p\<lparr>snd_nxt := a, t_flags := fl\<rparr>) = snd_cwnd p" "snd_cwnd (set_timer k v p) = snd_cwnd p"
      "snd_cwnd (p\<lparr>t_rxtshift := i\<rparr>) = snd_cwnd p" "snd_cwnd (p\<lparr>t_rtt := i, t_rtseq := a\<rparr>) = snd_cwnd p"
      "tp ((if c then bump k' n else id) x) = tp x" for p a fl k v i c k' n x
    by (simp_all add: set_timer_def)
  show "snd_cwnd (tp (tcp_output_time o1 t)) = snd_cwnd (tp t)" unfolding tcp_output_time_def Let_def
    by (simp only: if_distrib[of snd_cwnd] if_distrib[of tp] j conn_simps if_cancel)
qed

lemma tcp_output_time_data:
  assumes "ol_flags o1 \<inter> {TH_SYN, TH_FIN} = {}"
  shows "t_flags (tp (tcp_output_time o1 t)) = t_flags (tp t)"
    and "snd_nxt (tp (tcp_output_time o1 t)) \<in> {snd_nxt (tp t), snd_nxt (tp t) + of_int (ol_len o1)}"
    and "snd_max (tp (tcp_output_time o1 t)) = (if SEQ_GT (snd_nxt (tp t) + of_int (ol_len o1)) (snd_max (tp t))
      then snd_nxt (tp t) + of_int (ol_len o1) else snd_max (tp t))"
  using assms by (auto simp: tcp_output_time_def Let_def set_timer_def)

lemma tcp_output_error_kept:
  assumes "tcp_output_error e t = (e', t')" shows "kept t t'" and "sent t' = sent t"
  using assms by (auto simp: tcp_output_error_def tcp_quench_def kept_tp_def intro!: kept_updtp split: if_splits)

lemma tcp_output_ship_kept:
  assumes "tcp_output_ship seg o1 win t = (again, e, t')"
  shows "kept t t'"
    and "again \<Longrightarrow> ol_more o1 \<and> mbs t' = mbs t \<and> snd_cwnd (tp t') = snd_cwnd (tp t) \<and> snd_nxt (tp t') = snd_nxt (tp t)
       \<and> snd_max (tp t') = snd_max (tp t) \<and> (TF_SENTFIN \<in> t_flags (tp t') \<longleftrightarrow> TF_SENTFIN \<in> t_flags (tp t))"
proof -
  obtain r t1 where r: "ip_output seg t = (r, t1)" by fastforce
  have k: "kept t t1" "mbs t1 = mbs t" "tp t1 = tp t" using r by (auto simp: ip_output_def split: list.splits option.splits)
  have "kept t1 t'" using assms r tcp_output_error_kept(1)
    by (auto simp: tcp_output_ship_def Let_def kept_tp_def intro!: kept_updtp split: option.splits)
  then show "kept t t'" using k(1) kept_trans by blast
  assume again
  then show "ol_more o1 \<and> mbs t' = mbs t \<and> snd_cwnd (tp t') = snd_cwnd (tp t) \<and> snd_nxt (tp t') = snd_nxt (tp t)
       \<and> snd_max (tp t') = snd_max (tp t) \<and> (TF_SENTFIN \<in> t_flags (tp t') \<longleftrightarrow> TF_SENTFIN \<in> t_flags (tp t))"
    using assms r k(2,3) by (auto simp: tcp_output_ship_def Let_def split: option.splits if_splits)
qed

section \<open>A whole call\<close>

text \<open>The unacknowledged part of the stream fits the sequence space, there is a header template, and a FIN that was
  sent was sent after all data.  \<^verbatim>\<open>SYN\<close> is no longer sent.\<close>

definition send_inv :: "tcp \<Rightarrow> bool" where
  "send_inv t = (send_ok t \<and> 0 \<le> sint (snd_nxt (tp t) - snd_una (tp t)) \<and> t_template (tp t)
     \<and> TH_SYN \<notin> tcp_outflags (t_state (tp t)) \<and> 0 \<le> sint (snd_max (tp t) - snd_una (tp t))
     \<and> (TF_SENTFIN \<in> t_flags (tp t) \<longrightarrow> int (length (sbdata (so_snd (the_so t)))) \<le> sint (snd_max (tp t) - snd_una (tp t))))"

text \<open>A segment holds the bytes of the send buffer its sequence number names: at most a maximal segment, within the
  offered and the congestion window, or one byte when forced.\<close>

definition stream_seg :: "tcp \<Rightarrow> int \<Rightarrow> tout \<Rightarrow> bool" where
  "stream_seg t cw seg = (let off = sint (o_seq seg - snd_una (tp t)); n = length (o_data seg) in
     n = 0 \<or> 0 \<le> off \<and> o_data seg = take n (drop (nat off) (sbdata (so_snd (the_so t))))
       \<and> int n \<le> uint (t_maxseg (tp t))
       \<and> off + int n \<le> max (if t_force (tp t) then 1 else 0) (min (uint (snd_wnd (tp t))) cw))"

lemma stream_seg_kept: "kept t t' \<Longrightarrow> stream_seg t' cw seg = stream_seg t cw seg"
  using kept_so[of t t'] by (simp add: stream_seg_def kept_def kept_tp_def)

lemma good_stream_seg:
  assumes "send_inv t" and "good_segment t seg"
  shows "stream_seg t (uint (snd_cwnd (tp t))) seg"
proof (cases "o_data seg = []")
  case False
  let ?n = "length (o_data seg)" and ?off = "sint (snd_nxt (tp t) - snd_una (tp t))" and ?d = "sbdata (so_snd (the_so t))"
  have g: "o_data seg = take ?n (drop (nat ?off) ?d)" "0 \<le> ?off"
      "o_seq seg = snd_nxt (tp t) \<or> TF_SENTFIN \<in> t_flags (tp t) \<and> snd_nxt (tp t) = snd_max (tp t)"
    using False assms by (simp_all add: good_segment_def Let_def send_inv_def)
  from g(1) have "?n \<le> length ?d - nat ?off" by (metis length_drop length_take min.cobounded1 min.commute)
  then have "?off < int (length ?d)" using False g(2) by (cases "?n") auto
  then have "o_seq seg = snd_nxt (tp t)" using g(3) assms(1) by (auto simp: send_inv_def)
  then show ?thesis using False assms by (simp add: good_segment_def stream_seg_def Let_def send_inv_def)
qed (simp add: stream_seg_def)

text \<open>A pass that goes on was cut to a maximal segment, so it sent neither SYN nor FIN and stays in the data.\<close>

lemma send_inv_next:
  assumes "send_inv t" and "kept t t'" and "0 \<le> len"
    and "sint (snd_nxt (tp t) - snd_una (tp t)) + len \<le> int (length (sbdata (so_snd (the_so t))))"
    and "snd_nxt (tp t') \<in> {snd_nxt (tp t), snd_nxt (tp t) + of_int len}"
    and "snd_max (tp t') = (if SEQ_GT (snd_nxt (tp t) + of_int len) (snd_max (tp t)) then snd_nxt (tp t) + of_int len else snd_max (tp t))"
    and "TF_SENTFIN \<in> t_flags (tp t') \<longleftrightarrow> TF_SENTFIN \<in> t_flags (tp t)"
  shows "send_inv t'"
proof -
  let ?p = "tp t" and ?off = "sint (snd_nxt (tp t) - snd_una (tp t))" and ?max = "sint (snd_max (tp t) - snd_una (tp t))"
  let ?N = "int (length (sbdata (so_snd (the_so t))))"
  have inv: "0 \<le> ?off" "0 \<le> ?max" "?N < 2 ^ 30" "TF_SENTFIN \<in> t_flags ?p \<longrightarrow> ?N \<le> ?max"
    using assms(1) by (auto simp: send_inv_def send_ok_def M_COPYALL_def)
  have nx: "snd_nxt ?p = snd_una ?p + of_int ?off" "snd_max ?p = snd_una ?p + of_int ?max" by simp_all
  have s1: "sint (snd_nxt ?p + of_int len - snd_una ?p) = ?off + len"
    by (rule sint_eqI) (use inv(1,3) assms(3,4) in \<open>simp_all\<close>)
  have s2: "sint (snd_nxt ?p + of_int len - snd_max ?p) = ?off + len - ?max"
  proof (rule sint_eqI)
    show "snd_nxt ?p + of_int len - snd_max ?p = of_int (?off + len - ?max)" by simp
    show "?off + len - ?max < 2 ^ 31" using inv(2,3) assms(4) by simp
    show "- (2 ^ 31) \<le> ?off + len - ?max" using inv(1) assms(3) sint_lt[of "snd_max ?p - snd_una ?p"] by simp
  qed
  have k: "the_so t' = the_so t" "snd_una (tp t') = snd_una ?p" "t_template (tp t') = t_template ?p" "t_state (tp t') = t_state ?p"
    using assms(2) kept_so[OF assms(2)] by (simp_all add: kept_def kept_tp_def)
  have m: "0 \<le> sint (snd_max (tp t') - snd_una ?p)" "?max \<le> sint (snd_max (tp t') - snd_una ?p)"
    using assms(6) s1 s2 inv(2) by (auto simp: SEQ_GT_def)
  have "0 \<le> sint (snd_nxt (tp t') - snd_una ?p)" using assms(3,5) s1 inv(1) by auto
  then show ?thesis using assms(1,7) m k inv(4) by (auto simp: send_inv_def send_ok_def)
qed

text \<open>The flag TH_FIN survives \<^verbatim>\<open>tcp_output_len\<close> only when all data are in the segment.\<close>

lemma tcp_output_len_more:
  assumes "send_inv t" and "tcp_output_len t = (o1, t1)" and "ol_more o1"
  shows "TH_FIN \<notin> ol_flags o1" and "ol_off o1 + ol_len o1 < int (length (sbdata (so_snd (the_so t))))" and "0 \<le> ol_len o1"
    and "ol_off o1 = sint (snd_nxt (tp t) - snd_una (tp t))"
proof -
  let ?off = "sint (snd_nxt (tp t) - snd_una (tp t))" and ?N = "length (sbdata (so_snd (the_so t)))"
  have ok: "sb_ok (so_snd (the_so t))" "?N < 2 ^ 31" "0 \<le> ?off"
    using assms(1) by (simp_all add: send_inv_def send_ok_def M_COPYALL_def)
  have cc: "sb_cc (so_snd (the_so t)) = of_nat ?N" using ok(1) by (simp add: sb_ok_def)
  obtain p2 where "t1 = updtp (\<lambda>_. p2) t" "kept_tp (tp t) p2" "snd_cwnd p2 = snd_cwnd (tp t)" "snd_max p2 = snd_max (tp t)"
      "t_flags p2 = t_flags (tp t)" and p2: "send_want t < 0 \<or> snd_nxt p2 = snd_nxt (tp t)" "ol_off o1 = ?off"
      "ol_more o1 = (uint (t_maxseg (tp t)) < max 0 (send_want t))" "ol_len o1 = min (uint (t_maxseg (tp t))) (max 0 (send_want t))"
      "ol_flags o1 = (if SEQ_LT (snd_nxt p2 + of_int (ol_len o1)) (snd_una (tp t) + of_nat ?N)
        then tcp_outflags (t_state (tp t)) - {TH_FIN} else tcp_outflags (t_state (tp t)))"
    by (rule tcp_output_len_form[OF assms(2), unfolded cc])
  note m = p2(3)[THEN iffD1, OF assms(3)]
  from le_less_trans[OF uint_nonnegative m] have pos: "0 < send_want t" by simp
  show "ol_off o1 = ?off" by (rule p2(2))
  show len: "0 \<le> ol_len o1" using p2(4) by simp
  show lt: "ol_off o1 + ol_len o1 < int ?N" using p2(2,4) m pos send_want_eq[OF ok] by (simp add: min_def split: if_splits)
  have "sint (snd_nxt (tp t) + of_int (ol_len o1) - (snd_una (tp t) + of_nat ?N)) = ?off + ol_len o1 - int ?N"
    by (rule sint_eqI) (use lt len ok(2,3) p2(2) in simp_all)
  then show "TH_FIN \<notin> ol_flags o1" using p2(1,2,5) pos lt by (simp add: SEQ_LT_def)
qed

lemma tcp_output_once_cases:
  assumes "send_inv t" and "tcp_output_once cfg idle t = Ret (again, e, t')"
  obtains (idle) o1 t1 where "tcp_output_len t = (o1, t1)" and "tcp_output_idle t1 = Ret t'" and "\<not> again"
  | (nobufs) o1 t1 t3 where "tcp_output_len t = (o1, t1)" and "tcp_output_data cfg TCPIPHDR o1 t1 = Ret (None, t3)"
      and "tcp_output_error ENOBUFS t3 = (e, t')" and "\<not> again"
  | (ship) o1 t1 bs o2 t3 win seg t4 where "tcp_output_len t = (o1, t1)" and "tcp_output_data cfg TCPIPHDR o1 t1 = Ret (Some (bs, o2), t3)"
      and "tcp_output_fill bs None win o2 t3 = (seg, t4)" and "tcp_output_ship seg o2 win (tcp_output_time o2 t4) = (again, e, t')"
proof -
  obtain o1 t1 where o1: "tcp_output_len t = (o1, t1)" by fastforce
  have nosyn: "TH_SYN \<notin> ol_flags o1" using tcp_output_len_kept(7)[OF o1] assms(1) by (auto simp: send_inv_def)
  show thesis
  proof (cases "send_data idle o1 t1 \<or> send_window t1 \<or> send_control o1 t1")
    case False
    then have "tcp_output_idle t1 = Ret t'" "\<not> again" using assms(2) o1 by (auto simp: tcp_output_once_def)
    then show thesis using idle o1 by blast
  next
    case True
    have "tcp_output_once cfg idle t = kbind (tcp_output_data cfg TCPIPHDR o1 t1) (\<lambda>(res, t3). case res of
             None \<Rightarrow> Ret (False, tcp_output_error ENOBUFS t3)
           | Some (bs, o2) \<Rightarrow>
               if \<not> t_template (tp t3) then Panic ''tcp_output''
               else let win = out_window (sbspace (so_rcv (the_so t1))) t3;
                        (seg, t4) = tcp_output_fill bs None win o2 t3
                    in Ret (tcp_output_ship seg o2 win (tcp_output_time o2 t4)))"
      using nosyn unfolding tcp_output_once_def Let_def
      by (simp only: o1 True prod.case not_True_eq_False if_False simp_thms add_0_right)
    from this[unfolded assms(2), symmetric] obtain res t3 where d: "tcp_output_data cfg TCPIPHDR o1 t1 = Ret (res, t3)" and
      q: "(case res of None \<Rightarrow> Ret (False, tcp_output_error ENOBUFS t3)
           | Some (bs, o2) \<Rightarrow>
               if \<not> t_template (tp t3) then Panic ''tcp_output''
               else let win = out_window (sbspace (so_rcv (the_so t1))) t3;
                        (seg, t4) = tcp_output_fill bs None win o2 t3
                    in Ret (tcp_output_ship seg o2 win (tcp_output_time o2 t4))) = Ret (again, e, t')"
      by (cases "tcp_output_data cfg TCPIPHDR o1 t1") auto
    show thesis
    proof (cases res)
      case None
      then show thesis using nobufs[OF o1] d q by simp
    next
      case (Some r)
      then obtain bs o2 where res: "res = Some (bs, o2)" by (cases r) auto
      define win where "win = out_window (sbspace (so_rcv (the_so t1))) t3"
      obtain seg t4 where f: "tcp_output_fill bs None win o2 t3 = (seg, t4)" by fastforce
      have "tcp_output_ship seg o2 win (tcp_output_time o2 t4) = (again, e, t')"
        using q res f by (auto simp: win_def Let_def split: if_splits)
      then show thesis using ship[OF o1] d res f by blast
    qed
  qed
qed

text \<open>The state a segment is built from.\<close>

lemma tcp_output_before_ship:
  assumes "tcp_output_len t = (o1, t1)" and "tcp_output_data cfg h o1 t1 = Ret (res, t3)"
  shows "kept t t3" and "tp t3 = tp t1" and "kept t t1"
proof -
  note k1 = tcp_output_len_kept[OF assms(1)]
  obtain s3 where t3: "t3 = (count_sent o1 t1)\<lparr>mbs := s3\<rparr>" using tcp_output_data_kept(1)[OF assms(2)] by blast
  show "kept t t3" "tp t3 = tp t1" "kept t t1" using k1(1) kept_trans[OF k1(1)] t3 by (auto simp: same_send_count)
qed

lemma tcp_output_once_step:
  assumes "send_inv t"
  shows "\<exists>again e t' segs. tcp_output_once cfg idle t = Ret (again, e, t') \<and> kept t t' \<and> sent t' = sent t @ segs
     \<and> (\<forall>seg \<in> set segs. stream_seg t (uint (snd_cwnd (tp t))) seg)
     \<and> (again \<longrightarrow> send_inv t' \<and> snd_cwnd (tp t') = snd_cwnd (tp t) \<and> length (mal_answers (mbs t')) < length (mal_answers (mbs t)))"
proof -
  have inv: "send_ok t" "0 \<le> sint (snd_nxt (tp t) - snd_una (tp t))" "t_template (tp t)" using assms by (simp_all add: send_inv_def)
  from tcp_output_once_spec[OF this, of cfg idle] obtain again e t' where r: "tcp_output_once cfg idle t = Ret (again, e, t')"
      "sent t' = sent t \<or> (\<exists>seg. sent t' = sent t @ [seg] \<and> good_segment t seg)" by blast
  then obtain segs where segs: "sent t' = sent t @ segs" "\<forall>seg \<in> set segs. stream_seg t (uint (snd_cwnd (tp t))) seg"
    using good_stream_seg[OF assms] by (metis append_Nil2 empty_iff empty_set set_ConsD)
  have "kept t t' \<and> (again \<longrightarrow> send_inv t' \<and> snd_cwnd (tp t') = snd_cwnd (tp t) \<and> length (mal_answers (mbs t')) < length (mal_answers (mbs t)))"
  proof (rule tcp_output_once_cases[OF assms r(1)])
    fix o1 t1 assume "tcp_output_len t = (o1, t1)" "tcp_output_idle t1 = Ret t'" "\<not> again"
    then show ?thesis using kept_trans tcp_output_idle_kept(1) tcp_output_len_kept(1) by blast
  next
    fix o1 t1 t3 assume "tcp_output_len t = (o1, t1)" "tcp_output_data cfg TCPIPHDR o1 t1 = Ret (None, t3)"
      "tcp_output_error ENOBUFS t3 = (e, t')" "\<not> again"
    then show ?thesis using kept_trans tcp_output_error_kept(1) tcp_output_before_ship(1) by blast
  next
    fix o1 t1 bs o2 t3 win seg t4
    assume o1: "tcp_output_len t = (o1, t1)" and d: "tcp_output_data cfg TCPIPHDR o1 t1 = Ret (Some (bs, o2), t3)"
      and f: "tcp_output_fill bs None win o2 t3 = (seg, t4)" and sh: "tcp_output_ship seg o2 win (tcp_output_time o2 t4) = (again, e, t')"
    note k1 = tcp_output_len_kept[OF o1] and k3 = tcp_output_before_ship[OF o1 d] and d2 = tcp_output_data_kept(2)[OF d refl]
    note k4 = tcp_output_fill_kept[OF f] and k6 = tcp_output_ship_kept[OF sh]
    note k5 = tcp_output_time_kept(1)[of t4 o2] tcp_output_time_kept(2,3)[of o2 t4]
    have k: "kept t t'" using k3(1) k4(1) k5(1) k6(1) kept_trans by blast
    have "send_inv t' \<and> snd_cwnd (tp t') = snd_cwnd (tp t) \<and> length (mal_answers (mbs t')) < length (mal_answers (mbs t))" if again
    proof -
      note g = k6(2)[OF that]
      have more: "ol_more o1" using d2 g by simp
      note l = tcp_output_len_more[OF assms o1 more] and nx = k1(8)[OF more]
      have fl: "ol_flags o2 \<inter> {TH_SYN, TH_FIN} = {}" using d2 l(1) k1(7) assms by (auto simp: send_inv_def)
      note tm = tcp_output_time_data[OF fl, of t4]
      have t4: "snd_nxt (tp t4) = snd_nxt (tp t)" "snd_max (tp t4) = snd_max (tp t)" "t_flags (tp t4) = t_flags (tp t)"
          "snd_cwnd (tp t4) = snd_cwnd (tp t)"
        using k4 k3(2) nx k1 fl by auto
      have "send_inv t'" by (intro send_inv_next[OF assms k, where len = "ol_len o2"]) (use t4 g tm d2 l in auto)
      then show ?thesis using g k5 t4(4) d2 k4(2) k1(5) by simp
    qed
    then show ?thesis using k by blast
  qed
  then show ?thesis using r(1) segs by blast
qed

lemma tcp_output_loop_stream:
  assumes "send_inv t"
  shows "\<exists>e t' segs. tcp_output_loop cfg idle t = Some (Ret (e, t')) \<and> kept t t' \<and> sent t' = sent t @ segs
     \<and> (\<forall>seg \<in> set segs. stream_seg t (uint (snd_cwnd (tp t))) seg)"
  using assms
proof (induction "length (mal_answers (mbs t))" arbitrary: t rule: less_induct)
  case less
  from tcp_output_once_step[OF less(2)] obtain again e t' segs where r: "tcp_output_once cfg idle t = Ret (again, e, t')" "kept t t'"
      "sent t' = sent t @ segs" "\<forall>seg \<in> set segs. stream_seg t (uint (snd_cwnd (tp t))) seg"
      "again \<longrightarrow> send_inv t' \<and> snd_cwnd (tp t') = snd_cwnd (tp t) \<and> length (mal_answers (mbs t')) < length (mal_answers (mbs t))"
    by blast
  show ?case
  proof (cases again)
    case False
    then show ?thesis using r by (subst tcp_output_loop.simps) auto
  next
    case True
    then have g: "send_inv t'" "snd_cwnd (tp t') = snd_cwnd (tp t)" "length (mal_answers (mbs t')) < length (mal_answers (mbs t))"
      using r(5) by simp_all
    from less(1)[OF g(3,1)] obtain e' t'' segs' where i: "tcp_output_loop cfg idle t' = Some (Ret (e', t''))" "kept t' t''"
        "sent t'' = sent t' @ segs'" "\<forall>seg \<in> set segs'. stream_seg t' (uint (snd_cwnd (tp t'))) seg" by blast
    have l: "tcp_output_loop cfg idle t = Some (Ret (e', t''))" using r(1) True i(1) by (subst tcp_output_loop.simps) simp
    have "\<forall>seg \<in> set (segs @ segs'). stream_seg t (uint (snd_cwnd (tp t))) seg"
      using r(4) i(4) stream_seg_kept[OF r(2)] g(2) by (auto simp: ball_Un)
    then show ?thesis using l kept_trans[OF r(2) i(2)] r(3) i(3) by (metis append_assoc)
  qed
qed

lemma tcp_output_spec:
  assumes "send_inv t"
  shows "\<exists>e t' segs. tcp_output cfg t = Some (Ret (e, t')) \<and> kept t t' \<and> sent t' = sent t @ segs
     \<and> (\<forall>seg \<in> set segs. stream_seg t (if snd_max (tp t) = snd_una (tp t) \<and> t_idle (tp t) \<ge> t_rxtcur (tp t)
          then uint (t_maxseg (tp t)) else uint (snd_cwnd (tp t))) seg)"
proof (cases "snd_max (tp t) = snd_una (tp t) \<and> t_idle (tp t) \<ge> t_rxtcur (tp t)")
  case False
  then show ?thesis using tcp_output_loop_stream[OF assms] by (simp only: tcp_output_def Let_def if_False)
next
  case True
  let ?t = "updtp (\<lambda>p. p\<lparr>snd_cwnd := t_maxseg p\<rparr>) t"
  have k: "kept t ?t" by (rule kept_updtp) (simp_all add: kept_tp_def)
  have "send_inv ?t" using assms by (simp add: send_inv_def send_ok_def)
  from tcp_output_loop_stream[OF this, of cfg "snd_max (tp t) = snd_una (tp t)"] show ?thesis using True kept_trans[OF k] stream_seg_kept[OF k]
    by (auto simp: tcp_output_def)
qed



end
