(* ===== verification/Tcp_Receive.thy ===== *)
theory Tcp_Receive
  imports Tcp_Send
begin

text \<open>
  The receiving side of TCP: the cache of the last control block agrees with the lookup, the fast path
  of header prediction agrees with the general path, and trimming leaves exactly the part of a
  segment that lies in the window.
\<close>

section \<open>The control block cache\<close>

lemma pcb_wild_0:
  assumes "pcb_wild fa fp la lp p = Some 0" and "fa \<noteq> INADDR_ANY"
  shows "inp_lport p = lp" and "inp_fport p = fp" and "inp_faddr p = fa" and "inp_laddr p = la"
  using assms by (auto simp: pcb_wild_def split: if_splits)

definition cache_ok :: "tcp \<Rightarrow> bool" where
  "cache_ok t = (case tcp_last_inpcb t of None \<Rightarrow> True | Some i \<Rightarrow> i \<in> set (pcbq (tab t)))"

lemma in_pcblookup_exact:
  assumes "unique_conns q" and "i \<in> set (pcbq q)" and "fa \<noteq> INADDR_ANY" and "lp \<noteq> 0"
    and "inp_lport (pcb q i) = lp" and "inp_fport (pcb q i) = fp" and "inp_faddr (pcb q i) = fa" and "inp_laddr (pcb q i) = la"
  shows "in_pcblookup q fa fp la lp w = Some i"
proof (cases "in_pcblookup q fa fp la lp w")
  case None
  then show ?thesis using lookup_none_exact[OF None assms(2)] assms(5-8) by simp
next
  case (Some j)
  let ?f = "\<lambda>i. pcb_wild fa fp la lp (pcb q i)"
  obtain c where "best_match ?f w (pcbq q) j c" using in_pcblookup_spec[of q fa fp la lp w] Some by auto
  moreover have "matches ?f w i 0" using pcb_wild_exact[OF assms(5,8,7)] assms(6) by (simp add: matches_def)
  ultimately have j: "?f j = Some 0" "j \<in> set (pcbq q)"
    using assms(2) by (fastforce simp: best_match_def matches_def)+
  note e = pcb_wild_0[OF j(1) assms(3)]
  have "i = j"
  proof (rule ccontr)
    assume "i \<noteq> j"
    then have "\<not> same_conn (pcb q i) (pcb q j)"
      using assms(1)[unfolded unique_conns_def, rule_format, OF assms(2) j(2)] assms(4,5) by simp
    then show False using e assms(5-8) by (simp add: same_conn_def)
  qed
  then show ?thesis using Some by simp
qed

text \<open>Finding the connection of a segment through the one-entry cache \<^verbatim>\<open>tcp_last_inpcb\<close> gives the same control
  block as \<^verbatim>\<open>in_pcblookup\<close> over the whole queue, for segments with a source address and a destination
  port, as long as connections are unique; the cache stays valid and nothing else changes.\<close>

theorem find_pcb_cache:
  assumes "unique_conns (tab t)" and "cache_ok t" and "ti_src a \<noteq> INADDR_ANY" and "ti_dport a \<noteq> 0"
  shows "\<exists>c. find_pcb a t = (in_pcblookup (tab t) (ti_src a) (ti_sport a) (ti_dst a) (ti_dport a) True, t\<lparr>tcp_last_inpcb := c\<rparr>)
     \<and> cache_ok (t\<lparr>tcp_last_inpcb := c\<rparr>)"
proof (cases "\<exists>i. tcp_last_inpcb t = Some i \<and> pcb_exact a (pcb (tab t) i)")
  case True
  then obtain i where i: "tcp_last_inpcb t = Some i" "pcb_exact a (pcb (tab t) i)" by blast
  then have "in_pcblookup (tab t) (ti_src a) (ti_sport a) (ti_dst a) (ti_dport a) True = Some i"
    using assms by (intro in_pcblookup_exact) (simp_all add: cache_ok_def pcb_exact_def)
  then show ?thesis using i assms(2) by (intro exI[of _ "Some i"]) (simp add: find_pcb_def cache_ok_def)
next
  case False
  let ?l = "in_pcblookup (tab t) (ti_src a) (ti_sport a) (ti_dst a) (ti_dport a) True"
  have n: "\<not> pcb_exact a (case tcp_last_inpcb t of None \<Rightarrow> zero_pcb\<lparr>inp_lport := head_lport (tab t)\<rparr> | Some i \<Rightarrow> pcb (tab t) i)"
    using False assms(3) by (auto simp: pcb_exact_def zero_pcb_def INADDR_ANY_def split: option.splits)
  show ?thesis
  proof (cases ?l)
    case None
    then show ?thesis using n assms(2) by (intro exI[of _ "tcp_last_inpcb t"]) (simp add: find_pcb_def Let_def)
  next
    case (Some i)
    then have "i \<in> set (pcbq (tab t))" using in_pcblookup_spec[of "tab t" "ti_src a" "ti_sport a" "ti_dst a" "ti_dport a" True]
      by (auto simp: best_match_def)
    then show ?thesis using n Some by (intro exI[of _ "Some i"]) (simp add: find_pcb_def Let_def cache_ok_def)
  qed
qed

definition ex_addr :: segaddr where
  "ex_addr = \<lparr>ti_src = 9, ti_sport = htons 80, ti_dst = 1, ti_dport = htons 1025, srcroute = []\<rparr>"

theorem find_pcb_cache_witness:
  "\<exists>c. find_pcb ex_addr ex_tcp = (Some 0, ex_tcp\<lparr>tcp_last_inpcb := c\<rparr>) \<and> cache_ok (ex_tcp\<lparr>tcp_last_inpcb := c\<rparr>)"
proof -
  have "unique_conns (tab ex_tcp)" "cache_ok ex_tcp" "ti_src ex_addr \<noteq> INADDR_ANY" "ti_dport ex_addr \<noteq> 0"
    "in_pcblookup (tab ex_tcp) 9 (htons 80) 1 (htons 1025) True = Some 0"
    by (simp_all add: ex_tcp_def ex_addr_def cache_ok_def ex_pcb_simps)
  then show ?thesis using find_pcb_cache[of ex_tcp ex_addr] by (simp add: ex_addr_def)
qed

section \<open>Header prediction\<close>

text \<open>The window a connection computes on input, when neither the space in the buffer nor what was advertised
  needs more than 16 bits.\<close>

definition rcv_window_ok :: "tcp \<Rightarrow> bool" where
  "rcv_window_ok t = (sbspace (so_rcv (the_so t)) < 2 ^ 16 \<and> 0 \<le> sint (rcv_adv (tp t) - rcv_nxt (tp t))
     \<and> sint (rcv_adv (tp t) - rcv_nxt (tp t)) < 2 ^ 16)"

lemma receive_window_eq:
  assumes "rcv_window_ok t"
  shows "uint (rcv_wnd (tp (receive_window t))) = max (max 0 (sbspace (so_rcv (the_so t)))) (sint (rcv_adv (tp t) - rcv_nxt (tp t)))"
proof -
  let ?w = "sbspace (so_rcv (the_so t))" and ?a = "sint (rcv_adv (tp t) - rcv_nxt (tp t))"
  have "u_max (if ?w < 0 then 0 else ?w) ?a = max (max 0 ?w) ?a"
    using assms by (subst u_max_nonneg) (auto simp: rcv_window_ok_def max_def)
  moreover have "0 \<le> max (max 0 ?w) ?a" "max (max 0 ?w) ?a < 2 ^ 16" using assms by (auto simp: rcv_window_ok_def)
  ultimately show ?thesis by (simp add: receive_window_def Let_def uint_word_of_int take_bit_int_eq_self)
qed

lemma sowakeup_Rcv_snd [simp]: "so_snd (sock (sowakeup i Rcv st) j) = so_snd (sock st j)"
  by (auto simp: sowakeup_def Let_def sb_set_def sb_of_def upd_def post_def split: option.splits)

text \<open>The paragraphs a segment with the next data, no flag but ACK and nothing acknowledged goes through.\<close>

lemma sync_input_predicted:
  assumes "t_state (tp t) = TCPS_ESTABLISHED" and "fl \<inter> {TH_SYN, TH_FIN, TH_RST, TH_URG, TH_ACK} = {TH_ACK}"
    and "ti_seq ti = rcv_nxt (tp t)" and "ti_ack ti = snd_una (tp t)" and "0 < ti_len ti" and "ti_len ti \<le> uint (rcv_wnd (tp t))"
  shows "sync_input cfg ti fl t = rret (Continue ti fl False, updtp (\<lambda>p. p\<lparr>t_dupacks := 0\<rparr>) t)"
proof -
  have fl: "TH_SYN \<notin> fl" "TH_RST \<notin> fl" "TH_ACK \<in> fl" using assms(2) by auto
  have "sint (rcv_nxt (tp t) + of_int (ti_len ti) - (rcv_nxt (tp t) + ucast (rcv_wnd (tp t)))) = ti_len ti - uint (rcv_wnd (tp t))"
  proof (rule sint_eqI)
    have "ucast (rcv_wnd (tp t)) = (of_int (uint (rcv_wnd (tp t))) :: u32)" by simp
    then show "rcv_nxt (tp t) + of_int (ti_len ti) - (rcv_nxt (tp t) + ucast (rcv_wnd (tp t)))
        = of_int (ti_len ti - uint (rcv_wnd (tp t)))" by (simp only: of_int_diff) simp
  qed (use assms(5,6) uint_bounded[of "rcv_wnd (tp t)"] in \<open>simp_all\<close>)
  then show ?thesis using assms fl
    by (simp add: sync_input_def andthen_def trim_left_def after_close_def trim_right_def ack_input_def dup_ack_def SEQ_LEQ_def
        state_ord rret_def)
qed

text \<open>What the user of the connection and its peer see of a step: everything but counters, timers and the
  bookkeeping of window updates.\<close>

definition same_conn_state :: "tcp \<Rightarrow> tcp \<Rightarrow> bool" where
  "same_conn_state t t' = (stab t' = stab t \<and> tab t' = tab t \<and> inp_id t' = inp_id t \<and> t_state (tp t') = t_state (tp t)
     \<and> rcv_nxt (tp t') = rcv_nxt (tp t) \<and> seg_q (tp t') = seg_q (tp t) \<and> snd_una (tp t') = snd_una (tp t)
     \<and> snd_wnd (tp t') = snd_wnd (tp t))"

lemma window_update_frame:
  assumes "window_update ti fl need t = (need', t1)"
  shows "stab t1 = stab t" and "tab t1 = tab t" and "inp_id t1 = inp_id t" and "mbs t1 = mbs t" and "the_so t1 = the_so t"
    and "kept_tp (tp t) ((tp t1)\<lparr>snd_wnd := snd_wnd (tp t)\<rparr>)" and "snd_wnd (tp t1) \<in> {snd_wnd (tp t), ti_win ti}"
    and "snd_nxt (tp t1) = snd_nxt (tp t)" and "snd_max (tp t1) = snd_max (tp t)" and "t_flags (tp t1) = t_flags (tp t)"
  using assms by (auto simp: window_update_def Let_def kept_tp_def updtp_def bump_def the_so_def so_id_def inp_def split: if_splits)

lemma output_quiet_kept:
  assumes "send_inv t"
  shows "\<exists>t'. output_quiet cfg t = Some (Ret t') \<and> kept t t'"
  using tcp_output_spec[OF assms, of cfg] by (auto simp: output_quiet_def rret_def)

lemma step6_predicted:
  assumes "t_state (tp t) = TCPS_ESTABLISHED" and "ti_flags ti = fl" and "fl \<inter> {TH_SYN, TH_FIN, TH_RST, TH_URG, TH_ACK} = {TH_ACK}"
    and "ti_seq ti = rcv_nxt (tp t)" and "ti_win ti = snd_wnd (tp t)" and "seg_q (tp t) = []" and "ti_len ti \<noteq> 0"
    and "send_inv t"
  shows "\<exists>t'. step6 cfg ti fl False t = Some (Ret t') \<and> same_conn_state (pred_data_input ti t) t'"
proof -
  have fl: "TH_URG \<notin> fl" "TH_FIN \<notin> fl" using assms(3) by auto
  obtain need t1 where w: "window_update ti fl False t = (need, t1)" by fastforce
  note t1 = window_update_frame[OF w]
  obtain sb s where sb: "sbappend (ti_m ti) (so_rcv (the_so t)) (mbs t) = (sb, s)" by fastforce
  define t2 where "t2 = updtp (\<lambda>p. p\<lparr>rcv_up := (if SEQ_GT (rcv_nxt p) (rcv_up p) then rcv_nxt p else rcv_up p)\<rparr>) t1"
  define t3 where "t3 = onstab (\<lambda>i. sowakeup i Rcv) (updso (\<lambda>x. x\<lparr>so_rcv := sb\<rparr>) (bump rcvpack 1 (bump rcvbyte (of_int (ti_len ti))
      (updtp (\<lambda>p. p\<lparr>t_flags := insert TF_DELACK (t_flags p), rcv_nxt := rcv_nxt p + of_int (ti_len ti)\<rparr>) t2)))\<lparr>mbs := s\<rparr>)"
  have u: "urg_input ti fl t1 = Ret (ti, fl, t2)" using fl by (simp add: urg_input_def t2_def)
  have t2: "the_so t2 = the_so t" "mbs t2 = mbs t" "t_state (tp t2) = TCPS_ESTABLISHED" "rcv_nxt (tp t2) = rcv_nxt (tp t)" "seg_q (tp t2) = []"
    using t1 assms(1,6) by (auto simp: t2_def kept_tp_def)
  have d: "data_input ti fl t2 = Ret ({}, t3)" using assms(2,4,7) fl t2 sb
    by (simp add: data_input_def TCP_REASS_def TCPS_HAVERCVDFIN_def state_ord t3_def)
  have id: "so_id t1 = so_id t" using t1(2,3) by (simp add: so_id_def inp_def)
  have s3: "same_conn_state (pred_data_input ti t) t3"
    using t1 sb id assms(5) by (simp add: same_conn_state_def pred_data_input_def t3_def t2_def onstab_def kept_tp_def)
      (simp add: updso_def updtp_def bump_def so_id_def inp_def)
  have so: "so_snd (the_so t3) = so_snd (the_so t)"
    using t1(1) id by (simp add: t3_def t2_def onstab_def the_so_def) (simp add: updso_def upd_def)
  have "snd_nxt (tp t3) = snd_nxt (tp t)" "snd_max (tp t3) = snd_max (tp t)" "snd_una (tp t3) = snd_una (tp t)"
      "t_template (tp t3) = t_template (tp t)" "t_state (tp t3) = t_state (tp t)" "t_flags (tp t3) = insert TF_DELACK (t_flags (tp t))"
    using t1 by (simp_all add: t3_def t2_def kept_tp_def)
  then have "send_inv t3" using assms(8) by (simp add: send_inv_def send_ok_def so)
  from output_quiet_kept[OF this, of cfg] obtain t' where o: "output_quiet cfg t3 = Some (Ret t')" "kept t3 t'" by blast
  have "same_conn_state (pred_data_input ti t) t'" using s3 o(2) by (simp add: same_conn_state_def kept_def kept_tp_def)
  then show ?thesis using w u d o(1) s3 by (auto simp: step6_def fin_input_def rret_def)
qed

lemma same_conn_state_trans: "same_conn_state a b \<Longrightarrow> same_conn_state b c \<Longrightarrow> same_conn_state a c"
  by (simp add: same_conn_state_def)

lemma pred_data_slow_path_spec:
  assumes "predicted ti fl (tp t)" and "pred_data ti t" and "ti_flags ti = fl" and "0 \<le> ti_len ti" and "send_inv t" and "rcv_window_ok t"
  shows "\<exists>t'. rbind (sync_input cfg ti fl (receive_window t)) (finish cfg None False) = Some (Ret t')
     \<and> same_conn_state (pred_data_input ti t) t'"
proof -
  let ?t1 = "receive_window t" and ?t2 = "updtp (\<lambda>p. p\<lparr>t_dupacks := 0\<rparr>) (receive_window t)"
  have p: "t_state (tp t) = TCPS_ESTABLISHED" "fl \<inter> {TH_SYN, TH_FIN, TH_RST, TH_URG, TH_ACK} = {TH_ACK}" "ti_seq ti = rcv_nxt (tp t)"
      "ti_win ti = snd_wnd (tp t)" "ti_ack ti = snd_una (tp t)" "seg_q (tp t) = []" "0 < ti_len ti" "ti_len ti \<le> sbspace (so_rcv (the_so t))"
    using assms(1,2,4) by (simp_all add: predicted_def pred_data_def)
  have "ti_len ti \<le> uint (rcv_wnd (tp ?t1))" using receive_window_eq[OF assms(6)] p(8) by simp
  then have "sync_input cfg ti fl ?t1 = rret (Continue ti fl False, ?t2)"
    using p by (intro sync_input_predicted) (simp_all add: receive_window_def Let_def)
  moreover have "send_inv ?t2" using assms(5) by (simp add: receive_window_def Let_def send_inv_def send_ok_def)
  with p assms(3) have "\<exists>t'. step6 cfg ti fl False ?t2 = Some (Ret t') \<and> same_conn_state (pred_data_input ti ?t2) t'"
    by (intro step6_predicted) (simp_all add: receive_window_def Let_def)
  moreover have "same_conn_state (pred_data_input ti t) (pred_data_input ti ?t2)"
    by (simp add: same_conn_state_def pred_data_input_def receive_window_def Let_def onstab_def split: prod.splits)
      (simp add: updso_def updtp_def bump_def so_id_def inp_def)
  ultimately show ?thesis using same_conn_state_trans by (auto simp: finish_def rret_def)
qed

text \<open>(C30) Header prediction of data is only an optimisation.  When the fast path takes a segment (the next data in
  sequence, nothing queued, nothing acknowledged, room in the buffer), the general path (trimming, ACK
  processing, window update, reassembly and the output it triggers) also ends, and leaves the same
  socket with the same bytes and wakeups, the same \<^verbatim>\<open>rcv_nxt\<close>, state, queue and send window.\<close>

theorem pred_data_slow_path:
  assumes "predicted ti fl (tp t)" and "pred_data ti t" and "ti_flags ti = fl" and "0 \<le> ti_len ti" and "send_inv t" and "rcv_window_ok t"
  shows "\<exists>t'. rbind (sync_input cfg ti fl (receive_window t)) (finish cfg None False) = Some (Ret t')
     \<and> same_conn_state (pred_data_input ti t) t'"
  by (rule pred_data_slow_path_spec[OF assms])

lemma ex_pred: "predicted (ex_seg 1002 [3, 4]) {TH_ACK} ex_tcpcb" "pred_data (ex_seg 1002 [3, 4]) ex_tcp"
    "send_inv ex_tcp" "rcv_window_ok ex_tcp"
proof -
  have sp: "sbspace (so_rcv (the_so ex_tcp)) = 4094"
    by (simp add: ex_rcv sbspace_def ex_sb_def ex_mbuf_simps ex_mbuf_def new_mbuf_def MSIZE_def)
  have sb: "so_snd (the_so ex_tcp) = ex_sb []" by (simp add: the_so_def ex_tcp_def)
  show "predicted (ex_seg 1002 [3, 4]) {TH_ACK} ex_tcpcb" "pred_data (ex_seg 1002 [3, 4]) ex_tcp"
    "send_inv ex_tcp" "rcv_window_ok ex_tcp"
    by (simp_all add: ex_tcpcb_def ex_seg_def predicted_def pred_data_def sp sb send_inv_def send_ok_def rcv_window_ok_def M_COPYALL_def)
qed

theorem pred_data_slow_path_witness:
  "\<exists>t'. rbind (sync_input ex_cfg (ex_seg 1002 [3, 4]) {TH_ACK} (receive_window ex_tcp)) (finish ex_cfg None False) = Some (Ret t')
     \<and> same_conn_state (pred_data_input (ex_seg 1002 [3, 4]) ex_tcp) t'"
  using pred_data_slow_path[of "ex_seg 1002 [3, 4]" "{TH_ACK}" ex_tcp ex_cfg] ex_pred by (simp add: ex_seg_def)

section \<open>Trimming to the window\<close>

text \<open>A segment as it arrives: a piece of the stream \<open>S\<close> near position \<open>p\<close>, the next to be received, which may
  begin before it.\<close>

definition piece :: "(nat \<Rightarrow> byte) \<Rightarrow> nat \<Rightarrow> u32 \<Rightarrow> tseg \<Rightarrow> bool" where
  "piece S p rn q = (- (2 ^ 30) < rel rn q \<and> 0 \<le> int p + rel rn q \<and> rel rn q + ti_len q < 2 ^ 30
     \<and> ti_len q = int (length (mdata (ti_m q))) \<and> chain_wf (ti_m q)
     \<and> mdata (ti_m q) = map S [nat (int p + rel rn q) ..< nat (int p + rel rn q + ti_len q)])"

lemma pieceD:
  assumes "piece S p rn q"
  shows "- (2 ^ 30) < rel rn q" and "0 \<le> int p + rel rn q" and "rel rn q + ti_len q < 2 ^ 30"
    and "ti_len q = int (length (mdata (ti_m q)))" and "chain_wf (ti_m q)"
    and "mdata (ti_m q) = map S [nat (int p + rel rn q) ..< nat (int p + rel rn q + ti_len q)]" and "0 \<le> ti_len q"
  using assms unfolding piece_def by (blast, blast, blast, blast, blast, blast, metis of_nat_0_le_iff)

lemma pieceI:
  assumes "- (2 ^ 30) < rel rn q" and "0 \<le> int p + rel rn q" and "rel rn q + ti_len q < 2 ^ 30"
    and "ti_len q = int (length (mdata (ti_m q)))" and "chain_wf (ti_m q)"
    and "mdata (ti_m q) = map S [nat (int p + rel rn q) ..< nat (int p + rel rn q + ti_len q)]"
  shows "piece S p rn q"
  unfolding piece_def using assms by blast

lemma seg_of_piece:
  assumes "piece S p rn q" and "0 \<le> rel rn q" and "rel rn q + ti_len q \<le> 2 ^ 16"
  shows "seg_of S p rn q"
proof -
  have n: "nat (int p + rel rn q) = p + nat (rel rn q)" "nat (int p + rel rn q + ti_len q) = p + nat (rel rn q) + nat (ti_len q)"
    using assms(2) pieceD(7)[OF assms(1)] by auto
  show ?thesis unfolding seg_of_def using assms(2,3) pieceD(4,5,6)[OF assms(1)] unfolding n by blast
qed

text \<open>Cutting \<open>i\<close> bytes from the front or \<open>j\<close> from the end.\<close>

lemma piece_cut:
  assumes "piece S p rn q" and "0 \<le> i" and "i \<le> ti_len q"
  obtains m where "m_adj (ti_m q) i = Ret m"
    and "\<And>u. piece S p rn (q\<lparr>ti_m := m, ti_seq := ti_seq q + of_int i, ti_len := ti_len q - i, ti_urp := u\<rparr>)"
    and "\<And>u. rel rn (q\<lparr>ti_m := m, ti_seq := ti_seq q + of_int i, ti_len := ti_len q - i, ti_urp := u\<rparr>) = rel rn q + i"
proof -
  note q = pieceD[OF assms(1)]
  obtain m where m: "m_adj (ti_m q) i = Ret m" "mdata m = drop (nat i) (mdata (ti_m q))" "chain_wf m"
    using m_adj_data[OF q(5), of i] assms(2) by auto
  have s: "ti_seq q + of_int i - rn = of_int (rel rn q + i)" using seq_diff_rel[of q rn] by (simp only: of_int_add) (simp add: algebra_simps)
  have r: "rel rn (q\<lparr>ti_m := m, ti_seq := ti_seq q + of_int i, ti_len := ti_len q - i, ti_urp := u\<rparr>) = rel rn q + i" for u
    unfolding rel_def[of rn "q\<lparr>ti_m := m, ti_seq := ti_seq q + of_int i, ti_len := ti_len q - i, ti_urp := u\<rparr>"]
    by (rule sint_eqI) (use s q(1,3) assms(2,3) in simp_all)
  have n: "nat (int p + rel rn q) + nat i = nat (int p + (rel rn q + i))" using q(2) assms(2) by simp
  have d: "mdata m = map S [nat (int p + (rel rn q + i)) ..< nat (int p + (rel rn q + i) + (ti_len q - i))]"
    unfolding m(2) q(6) by (simp only: drop_map drop_upt n) (simp add: add.assoc)
  have l: "ti_len q - i = int (length (mdata m))" using q(4) assms(2,3) unfolding m(2) by simp
  have "piece S p rn (q\<lparr>ti_m := m, ti_seq := ti_seq q + of_int i, ti_len := ti_len q - i, ti_urp := u\<rparr>)" for u
    by (rule pieceI) (use q(1-3) m(3) assms(2,3) d l r in simp_all)
  then show ?thesis using that m(1) r by blast
qed

lemma piece_cut_end:
  assumes "piece S p rn q" and "0 \<le> j" and "j \<le> ti_len q"
  obtains m where "m_adj (ti_m q) (- j) = Ret m" and "piece S p rn (q\<lparr>ti_m := m, ti_len := ti_len q - j\<rparr>)"
    and "rel rn (q\<lparr>ti_m := m, ti_len := ti_len q - j\<rparr>) = rel rn q"
proof -
  note q = pieceD[OF assms(1)]
  obtain m where m: "m_adj (ti_m q) (- j) = Ret m" "chain_wf m" "mdata m = take (nat (ti_len q - j)) (mdata (ti_m q))"
  proof (cases "j = 0")
    case True
    then show ?thesis using m_adj_data[OF q(5), of 0] q(4) that by auto
  next
    case False
    then show ?thesis using m_adj_data[OF q(5), of "- j"] q(4) assms(2,3) that by (auto simp: nat_diff_distrib)
  qed
  have r: "rel rn (q\<lparr>ti_m := m, ti_len := ti_len q - j\<rparr>) = rel rn q" by (simp add: rel_def)
  have "nat (int p + rel rn q + ti_len q) - nat (int p + rel rn q) = nat (ti_len q)"
     "nat (int p + rel rn q) + nat (ti_len q - j) = nat (int p + rel rn q + (ti_len q - j))" using q(2,7) assms(3) by auto
  then have d: "mdata m = map S [nat (int p + rel rn q) ..< nat (int p + rel rn q + (ti_len q - j))]"
    using assms(2,3) unfolding m(3) q(6) take_map by (subst take_upt) auto
  have l: "ti_len q - j = int (length (mdata m))" using q(4) assms(2,3) unfolding m(3) by simp
  have "piece S p rn (q\<lparr>ti_m := m, ti_len := ti_len q - j\<rparr>)"
    by (rule pieceI) (use q(1-3) m(2) assms(2,3) d l r in simp_all)
  then show ?thesis using that m(1) r by blast
qed

text \<open>What trimming changes of the connection: counters, and an acknowledgement asked for.\<close>

definition ack_back :: "tcp \<Rightarrow> tcp \<Rightarrow> tcp" where
  "ack_back t t' = t'\<lparr>tcpstat := tcpstat t, tp := (tp t')\<lparr>t_flags := t_flags (tp t)\<rparr>\<rparr>"

definition only_ack :: "tcp \<Rightarrow> tcp \<Rightarrow> bool" where
  "only_ack t t' = (ack_back t t' = t \<and> t_flags (tp t') \<in> {t_flags (tp t), insert TF_ACKNOW (t_flags (tp t))})"

lemma only_ack_intros [intro]: "only_ack t t" "only_ack t t' \<Longrightarrow> only_ack t (bump k n t')"
  "only_ack t t' \<Longrightarrow> only_ack t (updtp (\<lambda>p. p\<lparr>t_flags := insert TF_ACKNOW (t_flags p)\<rparr>) t')"
  by (auto simp: only_ack_def ack_back_def bump_def updtp_def)

lemma only_ackD:
  assumes "only_ack t t'"
  shows "the_so t' = the_so t" and "rcv_nxt (tp t') = rcv_nxt (tp t)" and "rcv_wnd (tp t') = rcv_wnd (tp t)"
    and "t_state (tp t') = t_state (tp t)" and "seg_q (tp t') = seg_q (tp t)"
proof -
  have e: "ack_back t t' = t" using assms by (simp add: only_ack_def)
  show "the_so t' = the_so t" using arg_cong[OF e, of the_so] by (simp add: ack_back_def the_so_def so_id_def inp_def)
  show "rcv_nxt (tp t') = rcv_nxt (tp t)" "rcv_wnd (tp t') = rcv_wnd (tp t)" "t_state (tp t') = t_state (tp t)" "seg_q (tp t') = seg_q (tp t)"
    using arg_cong[OF e, of "\<lambda>t. rcv_nxt (tp t)"] arg_cong[OF e, of "\<lambda>t. rcv_wnd (tp t)"] arg_cong[OF e, of "\<lambda>t. t_state (tp t)"]
      arg_cong[OF e, of "\<lambda>t. seg_q (tp t)"] by (simp_all add: ack_back_def)
qed

lemma only_ack_trans:
  assumes "only_ack a b" and "only_ack b c" shows "only_ack a c"
proof -
  have "ack_back a c = ack_back a (ack_back b c)" by (simp add: ack_back_def)
  then show ?thesis using assms by (auto simp: only_ack_def)
qed

text \<open>The first step leaves the part from \<^verbatim>\<open>rcv_nxt\<close> on.\<close>

lemma trim_left_spec:
  assumes "piece S p (rcv_nxt (tp t)) ti" and "TH_SYN \<notin> fl"
  shows "\<exists>ac t'. trim_left cfg ti fl t = Ret (ac, t') \<and> only_ack t t' \<and>
     ((\<exists>ti1 fl1. ac = DropAfterAck ti1 fl1) \<and> rel (rcv_nxt (tp t)) ti + ti_len ti \<le> 0
      \<or> (\<exists>ti1 fl1. ac = Continue ti1 fl1 False \<and> fl1 \<subseteq> fl \<and> piece S p (rcv_nxt (tp t)) ti1 \<and> ti_flags ti1 = ti_flags ti
          \<and> (ti_len ti1 = 0 \<and> rel (rcv_nxt (tp t)) ti + ti_len ti \<le> 0 \<and> rel (rcv_nxt (tp t)) ti1 \<le> 0
            \<or> rel (rcv_nxt (tp t)) ti1 = max 0 (rel (rcv_nxt (tp t)) ti)
              \<and> rel (rcv_nxt (tp t)) ti1 + ti_len ti1 = rel (rcv_nxt (tp t)) ti + ti_len ti)))"
proof -
  let ?rn = "rcv_nxt (tp t)"
  note q = pieceD[OF assms(1)]
  have todrop: "sint (?rn - ti_seq ti) = - rel ?rn ti"
    by (rule sint_eqI) (use q(1,3,7) seq_diff_rel[of ti ?rn] in \<open>simp_all add: algebra_simps\<close>)
  consider "rel ?rn ti \<ge> 0" | "rel ?rn ti < 0" "- rel ?rn ti > ti_len ti \<or> - rel ?rn ti = ti_len ti \<and> TH_FIN \<notin> fl"
    | "rel ?rn ti < 0" "\<not> (- rel ?rn ti > ti_len ti \<or> - rel ?rn ti = ti_len ti \<and> TH_FIN \<notin> fl)" by linarith
  then show ?thesis
  proof cases
    case 1
    then show ?thesis using assms(1) todrop by (auto simp: trim_left_def)
  next
    case 2
    obtain m where m: "m_adj (ti_m ti) (ti_len ti) = Ret m"
       "\<And>u. piece S p ?rn (ti\<lparr>ti_m := m, ti_seq := ti_seq ti + of_int (ti_len ti), ti_len := ti_len ti - ti_len ti, ti_urp := u\<rparr>)"
       "\<And>u. rel ?rn (ti\<lparr>ti_m := m, ti_seq := ti_seq ti + of_int (ti_len ti), ti_len := ti_len ti - ti_len ti, ti_urp := u\<rparr>) = rel ?rn ti + ti_len ti"
      using piece_cut[OF assms(1) q(7) order_refl] by blast
    then show ?thesis using 2 assms(2) todrop by (auto simp: trim_left_def Let_def)
  next
    case 3
    obtain m where m: "m_adj (ti_m ti) (- rel ?rn ti) = Ret m"
       "\<And>u. piece S p ?rn (ti\<lparr>ti_m := m, ti_seq := ti_seq ti + of_int (- rel ?rn ti), ti_len := ti_len ti - - rel ?rn ti, ti_urp := u\<rparr>)"
       "\<And>u. rel ?rn (ti\<lparr>ti_m := m, ti_seq := ti_seq ti + of_int (- rel ?rn ti), ti_len := ti_len ti - - rel ?rn ti, ti_urp := u\<rparr>) = rel ?rn ti + - rel ?rn ti"
      using piece_cut[OF assms(1), of "- rel ?rn ti"] 3 by force
    then show ?thesis using 3 assms(2) todrop by (auto simp: trim_left_def Let_def)
  qed
qed

text \<open>The second step leaves the part before the end of the window.\<close>

lemma trim_right_spec:
  assumes "piece S p (rcv_nxt (tp t)) ti" and "TH_SYN \<notin> fl"
  shows "\<exists>ac t'. trim_right cfg ti fl t = Some (Ret (ac, t')) \<and> only_ack t t' \<and>
     ((\<exists>ti1 fl1. ac = DropAfterAck ti1 fl1) \<and> rel (rcv_nxt (tp t)) ti \<ge> uint (rcv_wnd (tp t))
      \<or> (\<exists>ti1 fl1. ac = Continue ti1 fl1 False \<and> fl1 \<subseteq> fl \<and> piece S p (rcv_nxt (tp t)) ti1 \<and> ti_flags ti1 = ti_flags ti
          \<and> rel (rcv_nxt (tp t)) ti1 = rel (rcv_nxt (tp t)) ti
          \<and> rel (rcv_nxt (tp t)) ti1 + ti_len ti1 = min (rel (rcv_nxt (tp t)) ti + ti_len ti) (uint (rcv_wnd (tp t)))))"
proof -
  let ?rn = "rcv_nxt (tp t)" and ?W = "uint (rcv_wnd (tp t))"
  let ?d = "rel ?rn ti + ti_len ti - ?W"
  note q = pieceD[OF assms(1)]
  have W: "0 \<le> ?W" "?W < 65536" using uint_bounded[of "rcv_wnd (tp t)"] by simp_all
  have "?d < 2 ^ 30" using q(3) W(1) by linarith
  then have d: "?d < 2 ^ 31" "- (2 ^ 31) \<le> ?d" using q(1,7) W(2) by simp_all
  have todrop: "sint (ti_seq ti + of_int (ti_len ti) - (?rn + ucast (rcv_wnd (tp t)))) = ?d"
  proof (rule sint_eqI)
    have "ucast (rcv_wnd (tp t)) = (of_int ?W :: u32)" by simp
    then show "ti_seq ti + of_int (ti_len ti) - (?rn + ucast (rcv_wnd (tp t))) = of_int ?d"
      using seq_diff_rel[of ti ?rn] by (simp only: of_int_add of_int_diff) (simp add: algebra_simps)
  qed (use d in \<open>simp_all only:\<close>)
  define D where "D = ?d"
  note tr = trim_right_def[of cfg ti fl t, unfolded Let_def todrop, folded D_def]
  have edge: "D = ti_len ti" if "rcv_wnd (tp t) = 0" "ti_seq ti = ?rn" using that by (simp add: D_def rel_def)
  show ?thesis
  proof (cases "D \<le> 0")
    case True
    then show ?thesis using assms(1) by (auto simp: tr rret_def D_def)
  next
    case False
    show ?thesis
    proof (cases "D < ti_len ti \<or> rcv_wnd (tp t) = 0 \<and> ti_seq ti = ?rn")
      case True
      then have le: "D \<le> ti_len ti" "0 \<le> D" using edge False by auto
      obtain m where m: "m_adj (ti_m ti) (- D) = Ret m" "piece S p ?rn (ti\<lparr>ti_m := m, ti_len := ti_len ti - D\<rparr>)"
          "rel ?rn (ti\<lparr>ti_m := m, ti_len := ti_len ti - D\<rparr>) = rel ?rn ti"
        by (rule piece_cut_end[OF assms(1) le(2,1)])
      have "\<exists>t'. trim_right cfg ti fl t = Some (Ret (Continue (ti\<lparr>ti_m := m, ti_len := ti_len ti - D\<rparr>) (fl - {TH_PUSH, TH_FIN}) False, t')) \<and> only_ack t t'"
        using True False assms(2) m(1) by (auto simp: tr rret_def intro!: only_ack_intros)
      moreover have "rel ?rn ti + (ti_len ti - D) = min (rel ?rn ti + ti_len ti) ?W" using False by (simp add: D_def)
      ultimately show ?thesis using m(2,3) by auto
    next
      case nd: False
      then have "\<exists>ti1 fl1 t'. trim_right cfg ti fl t = Some (Ret (DropAfterAck ti1 fl1, t')) \<and> only_ack t t'"
        using False assms(2) by (auto simp: tr rret_def intro!: only_ack_intros)
      moreover have "rel ?rn ti \<ge> ?W" using nd by (simp add: D_def)
      ultimately show ?thesis by auto
    qed
  qed
qed

lemma trim_window_spec:
  assumes "piece S p (rcv_nxt (tp t)) ti" and "TH_SYN \<notin> fl"
  shows "\<exists>ac t'. andthen (Some (trim_left cfg ti fl t)) (\<lambda>ti fl _ t. trim_right cfg ti fl t) = Some (Ret (ac, t')) \<and> only_ack t t' \<and>
     (case ac of
        DropAfterAck _ _ \<Rightarrow> span p (rcv_nxt (tp t)) ti \<inter> {int p ..< int p + uint (rcv_wnd (tp t))} = {}
      | Continue ti' fl' _ \<Rightarrow> fl' \<subseteq> fl
          \<and> span p (rcv_nxt (tp t)) ti' = span p (rcv_nxt (tp t)) ti \<inter> {int p ..< int p + uint (rcv_wnd (tp t))}
          \<and> (ti_len ti' \<noteq> 0 \<longrightarrow> seg_of S p (rcv_nxt (tp t)) ti')
      | _ \<Rightarrow> False)"
proof -
  let ?rn = "rcv_nxt (tp t)" and ?W = "uint (rcv_wnd (tp t))"
  have W: "0 \<le> ?W" "?W < 65536" using uint_bounded[of "rcv_wnd (tp t)"] by simp_all
  obtain ac t1 where l: "trim_left cfg ti fl t = Ret (ac, t1)" "only_ack t t1"
     "(\<exists>ti1 fl1. ac = DropAfterAck ti1 fl1) \<and> rel ?rn ti + ti_len ti \<le> 0
      \<or> (\<exists>ti1 fl1. ac = Continue ti1 fl1 False \<and> fl1 \<subseteq> fl \<and> piece S p ?rn ti1 \<and> ti_flags ti1 = ti_flags ti
          \<and> (ti_len ti1 = 0 \<and> rel ?rn ti + ti_len ti \<le> 0 \<and> rel ?rn ti1 \<le> 0
            \<or> rel ?rn ti1 = max 0 (rel ?rn ti) \<and> rel ?rn ti1 + ti_len ti1 = rel ?rn ti + ti_len ti))"
    using trim_left_spec[OF assms, of cfg] by blast
  note k = only_ackD[OF l(2)]
  from l(3) consider ti1 fl1 where "ac = DropAfterAck ti1 fl1" "rel ?rn ti + ti_len ti \<le> 0"
    | ti1 fl1 where "ac = Continue ti1 fl1 False" "fl1 \<subseteq> fl" "piece S p ?rn ti1"
       "ti_len ti1 = 0 \<and> rel ?rn ti + ti_len ti \<le> 0 \<and> rel ?rn ti1 \<le> 0
            \<or> rel ?rn ti1 = max 0 (rel ?rn ti) \<and> rel ?rn ti1 + ti_len ti1 = rel ?rn ti + ti_len ti" by blast
  then show ?thesis
  proof cases
    case 1
    then show ?thesis using l(1,2) by (auto simp: andthen_def rret_def span_def)
  next
    case 2
    have ns: "TH_SYN \<notin> fl1" using 2(2) assms(2) by blast
    obtain ac' t' where r: "trim_right cfg ti1 fl1 t1 = Some (Ret (ac', t'))" "only_ack t1 t'"
       "(\<exists>ti2 fl2. ac' = DropAfterAck ti2 fl2) \<and> rel ?rn ti1 \<ge> ?W
      \<or> (\<exists>ti2 fl2. ac' = Continue ti2 fl2 False \<and> fl2 \<subseteq> fl1 \<and> piece S p ?rn ti2 \<and> ti_flags ti2 = ti_flags ti1
          \<and> rel ?rn ti2 = rel ?rn ti1 \<and> rel ?rn ti2 + ti_len ti2 = min (rel ?rn ti1 + ti_len ti1) ?W)"
      using trim_right_spec[of S p t1 ti1 fl1 cfg] 2(3) ns unfolding k(2,3) by blast
    have eq: "andthen (Some (trim_left cfg ti fl t)) (\<lambda>ti fl _ t. trim_right cfg ti fl t) = Some (Ret (ac', t'))" "only_ack t t'"
      using l(1) 2(1) r(1) only_ack_trans[OF l(2) r(2)] by (simp_all add: andthen_def)
    from r(3) show ?thesis
    proof (elim disjE exE conjE)
      fix ti2 fl2 assume "ac' = DropAfterAck ti2 fl2" "?W \<le> rel ?rn ti1"
      then show ?thesis using eq 2(4) W by (auto simp: span_def)
    next
      fix ti2 fl2 assume c: "ac' = Continue ti2 fl2 False" "fl2 \<subseteq> fl1" "piece S p ?rn ti2"
        "rel ?rn ti2 = rel ?rn ti1" "rel ?rn ti2 + ti_len ti2 = min (rel ?rn ti1 + ti_len ti1) ?W"
      have n: "0 \<le> ti_len ti2" using pieceD(7)[OF c(3)] .
      have "seg_of S p ?rn ti2" if "ti_len ti2 \<noteq> 0"
        by (rule seg_of_piece[OF c(3)]) (use that n 2(4) c(4,5) W in auto)
      moreover have "span p ?rn ti2 = span p ?rn ti \<inter> {int p ..< int p + ?W}"
        using 2(4) c(4,5) W n unfolding span_def by (auto simp: min_def max_def split: if_splits)
      ultimately show ?thesis using eq c(1,2) 2(2) by auto
    qed
  qed
qed

text \<open>(C31) Trimming leaves exactly what is in the window.  A segment of the peer's stream that may begin before
  \<^verbatim>\<open>rcv_nxt\<close> and end after the window is either acknowledged and dropped, and then no byte of it is in
  the window, or goes on as a piece of the stream that holds precisely its bytes inside the window,
  as reassembly requires of it; the connection is left alone but for counters and \<^verbatim>\<open>TF_ACKNOW\<close>.\<close>

theorem trim_in_window:
  assumes "piece S p (rcv_nxt (tp t)) ti" and "TH_SYN \<notin> fl"
  shows "\<exists>ac t'. andthen (Some (trim_left cfg ti fl t)) (\<lambda>ti fl _ t. trim_right cfg ti fl t) = Some (Ret (ac, t')) \<and> only_ack t t' \<and>
     (case ac of
        DropAfterAck _ _ \<Rightarrow> span p (rcv_nxt (tp t)) ti \<inter> {int p ..< int p + uint (rcv_wnd (tp t))} = {}
      | Continue ti' fl' _ \<Rightarrow> fl' \<subseteq> fl
          \<and> span p (rcv_nxt (tp t)) ti' = span p (rcv_nxt (tp t)) ti \<inter> {int p ..< int p + uint (rcv_wnd (tp t))}
          \<and> (ti_len ti' \<noteq> 0 \<longrightarrow> seg_of S p (rcv_nxt (tp t)) ti')
      | _ \<Rightarrow> False)"
  by (rule trim_window_spec[OF assms])

theorem trim_in_window_witness:
  "\<exists>ac t'. andthen (Some (trim_left ex_cfg (ex_seg 1000 [1, 2, 3, 4]) {TH_ACK} ex_tcp)) (\<lambda>ti fl _ t. trim_right ex_cfg ti fl t)
       = Some (Ret (ac, t')) \<and> only_ack ex_tcp t' \<and>
     (case ac of
        DropAfterAck _ _ \<Rightarrow> span 2 1002 (ex_seg 1000 [1, 2, 3, 4]) \<inter> {2 ..< 2 + 4096} = {}
      | Continue ti' fl' _ \<Rightarrow> fl' \<subseteq> {TH_ACK} \<and> span 2 1002 ti' = span 2 1002 (ex_seg 1000 [1, 2, 3, 4]) \<inter> {2 ..< 2 + 4096}
          \<and> (ti_len ti' \<noteq> 0 \<longrightarrow> seg_of (\<lambda>n. of_nat (n + 1)) 2 1002 ti')
      | _ \<Rightarrow> False)"
proof -
  have r: "rel 1002 (ex_seg 1000 [1, 2, 3, 4]) = - 2" by (simp add: rel_def ex_seg_def)
  have "piece (\<lambda>n. of_nat (n + 1)) 2 1002 (ex_seg 1000 [1, 2, 3, 4])"
    by (rule pieceI) (simp_all add: r, simp_all add: ex_seg_def ex_mbuf_simps upt_rec)
  moreover have v: "rcv_nxt (tp ex_tcp) = 1002" "uint (rcv_wnd (tp ex_tcp)) = 4096" "int 2 = 2" by (simp_all add: ex_tcpcb_def)
  ultimately show ?thesis
    using trim_in_window[of "\<lambda>n. of_nat (n + 1)" 2 ex_tcp "ex_seg 1000 [1, 2, 3, 4]" "{TH_ACK}" ex_cfg, unfolded v] by blast
qed

section \<open>A FIN beyond the window\<close>

text \<open>(C32) A FIN after the window is trimmed with the data in front of it, but only in the local copy of the flags:
  \<^verbatim>\<open>TCP_REASS\<close> takes them from the header again.  So when a segment that is next in sequence reaches beyond the
  window and carries a FIN, its data are cut and the FIN is accepted nevertheless: the
  connection goes to \<^verbatim>\<open>CLOSE_WAIT\<close> and the FIN is counted right after the bytes kept, as if the bytes
  cut had never been sent.\<close>

theorem trimmed_fin_accepted:
  assumes "trim_right cfg ti fl t = Some (Ret (Continue ti1 fl1 need, t1))" and "ti_len ti1 < ti_len ti" and "0 < ti_len ti1"
    and "TH_FIN \<in> ti_flags ti" and "ti_seq ti = rcv_nxt (tp t)" and "seg_q (tp t) = []" and "t_state (tp t) = TCPS_ESTABLISHED"
  shows "TH_FIN \<notin> fl1 \<and> (\<exists>t2. data_input ti1 fl1 t1 = Ret ({TH_FIN}, t2) \<and> t_state (tp (fin_input {TH_FIN} t2)) = TCPS_CLOSE_WAIT
     \<and> rcv_nxt (tp (fin_input {TH_FIN} t2)) = ti_seq ti + of_int (ti_len ti1) + 1)"
proof -
  have ti1: "ti_seq ti1 = ti_seq ti" "ti_flags ti1 = ti_flags ti" "TH_FIN \<notin> fl1"
    and t1: "rcv_nxt (tp t1) = rcv_nxt (tp t)" "seg_q (tp t1) = []" "t_state (tp t1) = TCPS_ESTABLISHED"
    using assms(1,2,6,7) by (auto simp: trim_right_def Let_def rret_def rbind_eq_Ret split: if_splits)
  obtain t2 where "TCP_REASS ti1 t1 = Ret ({TH_FIN}, t2)" "rcv_nxt (tp t2) = rcv_nxt (tp t1) + of_int (ti_len ti1)" "t_state (tp t2) = TCPS_ESTABLISHED"
    using ti1(1,2) t1 assms(4,5)
    by (cases "sbappend (ti_m ti1) (so_rcv (the_so t1)) (mbs t1)") (simp add: TCP_REASS_def)
  then show ?thesis using ti1(3) assms(3,5) t1
    by (simp add: data_input_def fin_input_def TCPS_HAVERCVDFIN_def state_ord)
qed

theorem trimmed_fin_accepted_witness:
  "\<exists>ti1 fl1 need t1 t2. trim_right ex_cfg ((ex_seg 1002 [3, 4])\<lparr>ti_flags := {TH_ACK, TH_FIN}\<rparr>) {TH_ACK, TH_FIN}
        (updtp (\<lambda>p. p\<lparr>rcv_wnd := 1\<rparr>) ex_tcp) = Some (Ret (Continue ti1 fl1 need, t1))
     \<and> data_input ti1 fl1 t1 = Ret ({TH_FIN}, t2) \<and> t_state (tp (fin_input {TH_FIN} t2)) = TCPS_CLOSE_WAIT
     \<and> rcv_nxt (tp (fin_input {TH_FIN} t2)) = 1004"
proof -
  let ?ti = "(ex_seg 1002 [3, 4])\<lparr>ti_flags := {TH_ACK, TH_FIN}\<rparr>" and ?t = "updtp (\<lambda>p. p\<lparr>rcv_wnd := 1\<rparr>) ex_tcp"
  obtain m where "m_adj (ti_m ?ti) (- 1) = Ret m" using m_adj_data[of "ti_m ?ti" "- 1"] by (auto simp: ex_seg_def ex_mbuf_simps)
  then obtain ti1 fl1 t1 where r: "trim_right ex_cfg ?ti {TH_ACK, TH_FIN} ?t = Some (Ret (Continue ti1 fl1 False, t1))" "ti_len ti1 = 1"
    by (simp add: trim_right_def ex_seg_def ex_tcpcb_def Let_def)
  then have "\<exists>t2. data_input ti1 fl1 t1 = Ret ({TH_FIN}, t2) \<and> t_state (tp (fin_input {TH_FIN} t2)) = TCPS_CLOSE_WAIT
     \<and> rcv_nxt (tp (fin_input {TH_FIN} t2)) = 1004"
    using trimmed_fin_accepted[OF r(1)] by (simp add: ex_seg_def ex_tcpcb_def)
  then show ?thesis using r(1) by blast
qed

end
