(* ===== verification/Tcp_Stream.thy ===== *)
theory Tcp_Stream
  imports Tcp_Receive
begin

text \<open>
  The path of a segment's text through input, from the trimming to the window to reassembly, over any
  sequence of arrivals: whatever is lost, repeated, reordered or cut differently on the way, the
  receive buffer holds a prefix of the peer's stream.
\<close>

section \<open>Parts reassembly does not touch\<close>

definition rcv_frame :: "tcp \<Rightarrow> tcp \<Rightarrow> bool" where
  "rcv_frame t t' = (t_state (tp t') = t_state (tp t) \<and> rcv_wnd (tp t') = rcv_wnd (tp t) \<and> so_state (the_so t') = so_state (the_so t))"

lemma rcv_frame_refl [simp]: "rcv_frame t t"
  by (simp add: rcv_frame_def)

lemma rcv_frame_trans: "rcv_frame a b \<Longrightarrow> rcv_frame b c \<Longrightarrow> rcv_frame a c"
  by (simp add: rcv_frame_def)

lemma the_so_mbs [simp]: "the_so (t\<lparr>mbs := s\<rparr>) = the_so t" and tp_mbs: "tp (t\<lparr>mbs := s\<rparr>) = tp t"
  by (simp_all add: the_so_def)

lemma so_state_sowakeup [simp]: "so_state (sock (sowakeup i w st) j) = so_state (sock st j)"
  by (cases w) (auto simp: sowakeup_def Let_def sb_set_def sb_of_def upd_def post_def split: option.splits)

lemma deliver_frame:
  "rcv_frame t (onstab (\<lambda>i. sowakeup i Rcv) (updso (\<lambda>x. x\<lparr>so_rcv := sb\<rparr>) (updtp (\<lambda>p. p\<lparr>seg_q := q, rcv_nxt := rn\<rparr>) t)\<lparr>mbs := s\<rparr>))"
  by (simp add: rcv_frame_def the_so_def onstab_def updso_def)

lemma reass_present_frame: "reass_present t = (fl, t') \<Longrightarrow> rcv_frame t t'"
  using deliver_frame by (auto simp: reass_present_def split: if_splits list.splits prod.splits)

lemma reass_insert_frame: "reass_insert ti t = Ret (b, t') \<Longrightarrow> rcv_frame t t'"
  by (auto simp: reass_insert_def Let_def rcv_frame_def the_so_def split: option.splits)

lemma tcp_reass_frame: "tcp_reass (Some ti) t = Ret (fl, t') \<Longrightarrow> rcv_frame t t'"
  by (auto simp: tcp_reass_def dest: reass_insert_frame reass_present_frame rcv_frame_trans split: if_splits)

text \<open>The macro in front of \<^verbatim>\<open>tcp_reass\<close> does the same.\<close>

lemma TCP_REASS_spec:
  assumes "receiving S p t" and "seg_of S p (rcv_nxt (tp t)) ti" and "TCPS_ESTABLISHED \<le> t_state (tp t)"
    and "SS_CANTRCVMORE \<notin> so_state (the_so t)"
    and "seg_q (tp t) = [] \<or> ti_seq (hd (seg_q (tp t))) \<noteq> rcv_nxt (tp t)"
  shows "\<exists>fl t' n. TCP_REASS ti t = Ret (fl, t') \<and> rcv_frame t t' \<and> receiving S (p + n) t'
     \<and> rcv_nxt (tp t') = rcv_nxt (tp t) + of_nat n
     \<and> sbdata (so_rcv (the_so t')) = sbdata (so_rcv (the_so t)) @ map S [p ..< p + n]
     \<and> {int p ..< int (p + n)} \<union> held (p + n) (rcv_nxt (tp t')) (seg_q (tp t'))
        = held p (rcv_nxt (tp t)) (seg_q (tp t)) \<union> span p (rcv_nxt (tp t)) ti
     \<and> (seg_q (tp t') = [] \<or> ti_seq (hd (seg_q (tp t'))) \<noteq> rcv_nxt (tp t'))"
proof (cases "ti_seq ti = rcv_nxt (tp t) \<and> seg_q (tp t) = [] \<and> t_state (tp t) = TCPS_ESTABLISHED")
  case False
  obtain fl t' n where r: "tcp_reass (Some ti) t = Ret (fl, t')" "receiving S (p + n) t'" "rcv_nxt (tp t') = rcv_nxt (tp t) + of_nat n"
     "sbdata (so_rcv (the_so t')) = sbdata (so_rcv (the_so t)) @ map S [p ..< p + n]"
     "{int p ..< int (p + n)} \<union> held (p + n) (rcv_nxt (tp t')) (seg_q (tp t'))
        = held p (rcv_nxt (tp t)) (seg_q (tp t)) \<union> span p (rcv_nxt (tp t)) ti"
     "seg_q (tp t') = [] \<or> ti_seq (hd (seg_q (tp t'))) \<noteq> rcv_nxt (tp t')"
    using tcp_reass_spec[OF assms] by blast
  let ?t = "updtp (\<lambda>p. p\<lparr>t_flags := insert TF_ACKNOW (t_flags p)\<rparr>) t'"
  have "TCP_REASS ti t = Ret (fl, ?t)" "rcv_frame t ?t" "receiving S (p + n) ?t"
    using False r(1,2) tcp_reass_frame[OF r(1)] by (auto simp: TCP_REASS_def receiving_def rcv_frame_def)
  then show ?thesis using r(3-6) by (intro exI[of _ fl] exI[of _ ?t] exI[of _ n]) simp
next
  case True
  note q = seg_ofD[OF assms(2)]
  obtain sb s where sb: "sbappend (ti_m ti) (so_rcv (the_so t)) (mbs t) = (sb, s)" by fastforce
  note ap = sbappend_spec[OF _ q(4) sb]
  define n where "n = nat (ti_len ti)"
  have n: "int n = ti_len ti" "rel (rcv_nxt (tp t)) ti = 0" using q(6) True by (simp_all add: n_def rel_def)
  let ?t = "onstab (\<lambda>i. sowakeup i Rcv) (updso (\<lambda>x. x\<lparr>so_rcv := sb\<rparr>) (bump rcvpack 1 (bump rcvbyte (of_int (ti_len ti))
      (updtp (\<lambda>p. p\<lparr>t_flags := insert TF_DELACK (t_flags p), rcv_nxt := rcv_nxt p + of_int (ti_len ti)\<rparr>) t)))\<lparr>mbs := s\<rparr>)"
  have so: "sbdata (so_rcv (the_so ?t)) = sbdata sb" "sb_ok (so_rcv (the_so ?t)) = sb_ok sb" "so_state (the_so ?t) = so_state (the_so t)"
    by (simp_all add: the_so_def onstab_def updso_def)
  have e: "TCP_REASS ti t = Ret (ti_flags ti \<inter> {TH_FIN}, ?t)" using True sb by (simp add: TCP_REASS_def)
  have "of_int (ti_len ti) = (of_nat n :: u32)" by (simp flip: n(1))
  then have nx: "rcv_nxt (tp ?t) = rcv_nxt (tp t) + of_nat n" "seg_q (tp ?t) = []" "t_state (tp ?t) = t_state (tp t)" "rcv_wnd (tp ?t) = rcv_wnd (tp t)"
    using True by simp_all
  have f: "rcv_frame t ?t" using nx so(3) by (simp add: rcv_frame_def)
  have r: "receiving S (p + n) ?t" using ap so(2) nx(2) assms(1) by (simp add: receiving_def queue_inv_def)
  have d: "sbdata (so_rcv (the_so ?t)) = sbdata (so_rcv (the_so t)) @ map S [p ..< p + n]"
    using so(1) ap assms(1) q(5) n by (simp add: receiving_def n_def)
  have "span p (rcv_nxt (tp t)) ti = {int p ..< int (p + n)}" unfolding span_def n(2) n(1)[symmetric] by simp
  then show ?thesis using True nx by (intro exI[of _ "ti_flags ti \<inter> {TH_FIN}"] exI[of _ ?t] exI[of _ n] conjI e f r d) simp_all
qed

section \<open>Arrivals\<close>

text \<open>The way of a segment's text through \<^verbatim>\<open>tcp_input\<close>.\<close>

definition recv_text :: "tcpcfg \<Rightarrow> tseg \<Rightarrow> tcp \<Rightarrow> tcp run" where
  "recv_text cfg ti t =
     rbind (andthen (Some (trim_left cfg ti (ti_flags ti) t)) (\<lambda>ti fl _ t. trim_right cfg ti fl t)) (\<lambda>(ac, t1). case ac of
       Continue ti1 fl1 _ \<Rightarrow> rbind (Some (data_input ti1 fl1 t1)) (\<lambda>(_, t2). rret t2)
     | _ \<Rightarrow> rret t1)"

text \<open>A segment without SYN and FIN cut anywhere from the first \<open>w\<close> bytes of the stream \<open>S\<close>, which begins at sequence
  number \<open>s0\<close>.\<close>

definition from_stream :: "(nat \<Rightarrow> byte) \<Rightarrow> u32 \<Rightarrow> nat \<Rightarrow> tseg \<Rightarrow> bool" where
  "from_stream S s0 w ti = (\<exists>pos. ti_seq ti = s0 + of_nat pos \<and> pos + length (mdata (ti_m ti)) \<le> w
     \<and> ti_len ti = int (length (mdata (ti_m ti))) \<and> chain_wf (ti_m ti) \<and> ti_flags ti \<inter> {TH_SYN, TH_FIN} = {}
     \<and> mdata (ti_m ti) = map S [pos ..< pos + length (mdata (ti_m ti))])"

text \<open>What may happen to a receiver: segments of the stream arrive in any order, as often as they like; the window
  is computed again; the user takes bytes from the buffer.  The list is what the user has got.\<close>

inductive receiver :: "tcpcfg \<Rightarrow> (nat \<Rightarrow> byte) \<Rightarrow> u32 \<Rightarrow> nat \<Rightarrow> tcp \<Rightarrow> byte list \<Rightarrow> tcp \<Rightarrow> bool"
  for cfg S s0 w t0 where
  receiver_start: "receiver cfg S s0 w t0 [] t0"
| receiver_segment: "receiver cfg S s0 w t0 out t \<Longrightarrow> from_stream S s0 w ti \<Longrightarrow> recv_text cfg ti t = Some (Ret t') \<Longrightarrow>
    receiver cfg S s0 w t0 out t'"
| receiver_window: "receiver cfg S s0 w t0 out t \<Longrightarrow> receiver cfg S s0 w t0 out (receive_window t)"
| receiver_read: "receiver cfg S s0 w t0 out t \<Longrightarrow> n \<le> length (sbdata (so_rcv (the_so t))) \<Longrightarrow>
    sbdrop (int n) (so_rcv (the_so t)) (mbs t) = Ret (sb, s) \<Longrightarrow>
    receiver cfg S s0 w t0 (out @ take n (sbdata (so_rcv (the_so t)))) ((updso (\<lambda>x. x\<lparr>so_rcv := sb\<rparr>) t)\<lparr>mbs := s\<rparr>)"

definition stream_inv :: "(nat \<Rightarrow> byte) \<Rightarrow> u32 \<Rightarrow> nat \<Rightarrow> byte list \<Rightarrow> nat \<Rightarrow> tcp \<Rightarrow> bool" where
  "stream_inv S s0 w out p t = (receiving S p t \<and> rcv_nxt (tp t) = s0 + of_nat p \<and> p \<le> w
     \<and> held p (rcv_nxt (tp t)) (seg_q (tp t)) \<subseteq> {..< int w}
     \<and> (seg_q (tp t) = [] \<or> ti_seq (hd (seg_q (tp t))) \<noteq> rcv_nxt (tp t))
     \<and> out @ sbdata (so_rcv (the_so t)) = map S [0 ..< p])"

definition can_receive :: "tcp \<Rightarrow> bool" where
  "can_receive t = (TCPS_ESTABLISHED \<le> t_state (tp t) \<and> \<not> TCPS_HAVERCVDFIN (t_state (tp t)) \<and> SS_CANTRCVMORE \<notin> so_state (the_so t))"

lemma from_stream_piece:
  assumes "from_stream S s0 w ti" and "p \<le> w" and "w < 2 ^ 29"
  shows "piece S p (s0 + of_nat p) ti" and "span p (s0 + of_nat p) ti \<subseteq> {..< int w}"
proof -
  obtain pos where ti: "ti_seq ti = s0 + of_nat pos" "pos + length (mdata (ti_m ti)) \<le> w" "ti_len ti = int (length (mdata (ti_m ti)))"
      "chain_wf (ti_m ti)" "mdata (ti_m ti) = map S [pos ..< pos + length (mdata (ti_m ti))]"
    using assms(1) unfolding from_stream_def by blast
  have r: "rel (s0 + of_nat p) ti = int pos - int p" unfolding rel_def
    by (rule sint_eqI) (use ti(1,2) assms(2,3) in simp_all)
  have "nat (int p + rel (s0 + of_nat p) ti) = pos" "nat (int p + rel (s0 + of_nat p) ti + ti_len ti) = pos + length (mdata (ti_m ti))"
    using r ti(3) by simp_all
  then show "piece S p (s0 + of_nat p) ti"
    by (intro pieceI) (use r ti(2-5) assms(2,3) in simp_all)
  show "span p (s0 + of_nat p) ti \<subseteq> {..< int w}" using ti(2,3) by (auto simp: span_def r)
qed

lemma recv_text_step:
  assumes "stream_inv S s0 w out p t" and "can_receive t" and "from_stream S s0 w ti" and "w < 2 ^ 29"
  shows "\<exists>t' n. recv_text cfg ti t = Some (Ret t') \<and> stream_inv S s0 w out (p + n) t' \<and> can_receive t'"
proof -
  have inv: "receiving S p t" "rcv_nxt (tp t) = s0 + of_nat p" "p \<le> w" "held p (rcv_nxt (tp t)) (seg_q (tp t)) \<subseteq> {..< int w}"
      "seg_q (tp t) = [] \<or> ti_seq (hd (seg_q (tp t))) \<noteq> rcv_nxt (tp t)" "out @ sbdata (so_rcv (the_so t)) = map S [0 ..< p]"
    using assms(1) unfolding stream_inv_def by blast+
  note pc = from_stream_piece[OF assms(3) inv(3) assms(4), folded inv(2)]
  have fl: "TH_SYN \<notin> ti_flags ti" "TH_FIN \<notin> ti_flags ti" using assms(3) by (auto simp: from_stream_def)
  from trim_window_spec[OF pc(1) fl(1), of cfg] obtain ac t1 where
    tr: "andthen (Some (trim_left cfg ti (ti_flags ti) t)) (\<lambda>ti fl _ t. trim_right cfg ti fl t) = Some (Ret (ac, t1))" "only_ack t t1"
     and ac: "case ac of
        DropAfterAck _ _ \<Rightarrow> span p (rcv_nxt (tp t)) ti \<inter> {int p ..< int p + uint (rcv_wnd (tp t))} = {}
      | Continue ti' fl' _ \<Rightarrow> fl' \<subseteq> ti_flags ti
          \<and> span p (rcv_nxt (tp t)) ti' = span p (rcv_nxt (tp t)) ti \<inter> {int p ..< int p + uint (rcv_wnd (tp t))}
          \<and> (ti_len ti' \<noteq> 0 \<longrightarrow> seg_of S p (rcv_nxt (tp t)) ti')
      | _ \<Rightarrow> False" by blast
  note k = only_ackD[OF tr(2)]
  have i1: "stream_inv S s0 w out p t1" "can_receive t1"
    using assms(1,2) unfolding stream_inv_def receiving_def can_receive_def k by blast+
  show ?thesis
  proof (cases "\<exists>ti' fl' b. ac = Continue ti' fl' b \<and> ti_len ti' \<noteq> 0")
    case False
    have "\<exists>s. t1 = t1\<lparr>mbs := s\<rparr>" by (rule exI[of _ "mbs t1"]) simp
    with False have "\<exists>s. recv_text cfg ti t = Some (Ret (t1\<lparr>mbs := s\<rparr>))"
      using ac tr(1) fl(2)
      by (auto simp: recv_text_def data_input_def rret_def split: act.splits)
    then obtain s where "recv_text cfg ti t = Some (Ret (t1\<lparr>mbs := s\<rparr>))" by blast
    moreover have "stream_inv S s0 w out (p + 0) (t1\<lparr>mbs := s\<rparr>)" "can_receive (t1\<lparr>mbs := s\<rparr>)"
      using i1 unfolding stream_inv_def receiving_def can_receive_def the_so_mbs tp_mbs add_0_right by blast+
    ultimately show ?thesis by blast
  next
    case True
    then obtain ti' fl' b where c: "ac = Continue ti' fl' b" "ti_len ti' \<noteq> 0" by blast
    then have sg: "seg_of S p (rcv_nxt (tp t1)) ti'" "span p (rcv_nxt (tp t1)) ti' \<subseteq> {..< int w}" using ac pc(2) by (auto simp: k)
    have ca: "receiving S p t1" "TCPS_ESTABLISHED \<le> t_state (tp t1)" "SS_CANTRCVMORE \<notin> so_state (the_so t1)" "\<not> TCPS_HAVERCVDFIN (t_state (tp t1))"
        "seg_q (tp t1) = [] \<or> ti_seq (hd (seg_q (tp t1))) \<noteq> rcv_nxt (tp t1)"
      using i1 by (auto simp: can_receive_def stream_inv_def)
    from TCP_REASS_spec[OF ca(1) sg(1) ca(2,3,5)] obtain fl2 t2 n where d: "TCP_REASS ti' t1 = Ret (fl2, t2)" "rcv_frame t1 t2"
       "receiving S (p + n) t2" "rcv_nxt (tp t2) = rcv_nxt (tp t1) + of_nat n"
       "sbdata (so_rcv (the_so t2)) = sbdata (so_rcv (the_so t1)) @ map S [p ..< p + n]"
       "{int p ..< int (p + n)} \<union> held (p + n) (rcv_nxt (tp t2)) (seg_q (tp t2))
          = held p (rcv_nxt (tp t1)) (seg_q (tp t1)) \<union> span p (rcv_nxt (tp t1)) ti'"
       "seg_q (tp t2) = [] \<or> ti_seq (hd (seg_q (tp t2))) \<noteq> rcv_nxt (tp t2)" by blast
    have "recv_text cfg ti t = Some (Ret t2)" using tr(1) c d(1) ca(4) by (simp add: recv_text_def data_input_def rret_def)
    moreover have sub: "{int p ..< int (p + n)} \<union> held (p + n) (rcv_nxt (tp t2)) (seg_q (tp t2)) \<subseteq> {..< int w}"
      unfolding d(6) using sg(2) inv(4) by (simp add: k)
    have "p + n \<le> w"
    proof (cases n)
      case (Suc m)
      then have "int (p + m) \<in> {int p ..< int (p + n)}" by simp
      then have "int (p + m) \<in> {..< int w}" using sub by blast
      then show ?thesis using Suc by simp
    qed (use inv(3) in simp)
    moreover have "out @ sbdata (so_rcv (the_so t2)) = map S [0 ..< p + n]"
      using inv(6) d(5) by (simp add: k upt_add_eq_append[of 0 p n, simplified])
    moreover have "rcv_nxt (tp t2) = s0 + of_nat (p + n)" using d(4) inv(2) k by simp
    moreover have "can_receive t2" using d(2) i1(2) by (simp add: can_receive_def rcv_frame_def)
    ultimately show ?thesis using d(3,7) sub unfolding stream_inv_def by blast
  qed
qed

lemma stream_inv_mono: "stream_inv S s0 w out p t \<Longrightarrow> w \<le> w' \<Longrightarrow> stream_inv S s0 w' out p t"
  unfolding stream_inv_def by fastforce

lemma stream_inv_window:
  "stream_inv S s0 w out p t \<Longrightarrow> stream_inv S s0 w out p (receive_window t)" "can_receive t \<Longrightarrow> can_receive (receive_window t)"
  by (auto simp: receive_window_def Let_def stream_inv_def receiving_def can_receive_def)

lemma stream_inv_read:
  assumes "stream_inv S s0 w out p t" and "can_receive t" and "n \<le> length (sbdata (so_rcv (the_so t)))"
    and "sbdrop (int n) (so_rcv (the_so t)) (mbs t) = Ret (sb, s)"
  shows "stream_inv S s0 w (out @ take n (sbdata (so_rcv (the_so t)))) p ((updso (\<lambda>x. x\<lparr>so_rcv := sb\<rparr>) t)\<lparr>mbs := s\<rparr>)
     \<and> can_receive ((updso (\<lambda>x. x\<lparr>so_rcv := sb\<rparr>) t)\<lparr>mbs := s\<rparr>)"
proof -
  have ok: "sb_ok (so_rcv (the_so t))" using assms(1) by (simp add: stream_inv_def receiving_def)
  have sb: "sb_ok sb" "sbdata sb = drop n (sbdata (so_rcv (the_so t)))"
    using sbs.drp_law[OF ok, of "int n" "mbs t"] assms(3,4) by auto
  have so: "the_so ((updso (\<lambda>x. x\<lparr>so_rcv := sb\<rparr>) t)\<lparr>mbs := s\<rparr>) = (the_so t)\<lparr>so_rcv := sb\<rparr>" by simp
  show ?thesis using assms(1,2) sb by (auto simp: stream_inv_def receiving_def can_receive_def so)
qed

lemma receiver_inv:
  assumes "receiver cfg S s0 w t0 out t" and "stream_inv S s0 w [] 0 t0" and "can_receive t0" and "w < 2 ^ 29"
  shows "\<exists>p. stream_inv S s0 w out p t \<and> can_receive t"
  using assms
proof (induction rule: receiver.induct)
  case receiver_start
  then show ?case by blast
next
  case (receiver_segment out t ti t')
  then obtain p where i: "stream_inv S s0 w out p t" "can_receive t" by blast
  from recv_text_step[OF this receiver_segment(2) assms(4), of cfg] receiver_segment(3) show ?case by auto
next
  case (receiver_window out t)
  then show ?case using stream_inv_window by blast
next
  case (receiver_read out t n sb s)
  then show ?case using stream_inv_read[OF _ _ receiver_read(2,3)] by blast
qed


text \<open>The example: the second half of a stream arrives first.\<close>

definition ex_rx :: tcp where
  "ex_rx = ex_tcp\<lparr>stab := (stab ex_tcp)\<lparr>sock := (\<lambda>_. (the_so ex_tcp)\<lparr>so_rcv := ex_sb []\<rparr>)\<rparr>\<rparr>"


end
