(* ===== verification/Tcp_Sender.thy ===== *)
theory Tcp_Sender
  imports Tcp_Stream
begin

text \<open>
  The sending side of a connection over time: the user writes, \<^verbatim>\<open>tcp_output\<close> runs, acknowledgements and window
  updates arrive, the retransmission and persist timers go off, in any order.  Every segment ever
  handed to IP is a piece of the bytes written, at the place its sequence number says.
\<close>

section \<open>Send buffers of a stream\<close>

text \<open>One record, no record marks.\<close>

definition plain :: "sockbuf \<Rightarrow> bool" where
  "plain sb = (length (sb_mb sb) \<le> 1 \<and> (\<forall>k \<in> set (concat (sb_mb sb)). \<not> M_EOR k))"

lemma sbcompress_plain:
  assumes "sbcompress_loop m n False sb s = (c, sb', s')" and "\<forall>k \<in> set m. \<not> M_EOR k" and "\<forall>k \<in> set (optl n). \<not> M_EOR k"
  shows "\<forall>k \<in> set c. \<not> M_EOR k"
  using assms
proof (induction m arbitrary: n sb s c sb' s')
  case Nil
  then show ?case by (cases n) (auto simp: optl_def)
next
  case (Cons m r)
  have e: "\<not> M_EOR m" "\<forall>k \<in> set r. \<not> M_EOR k" using Cons(3) by simp_all
  show ?case
  proof (cases "m_len m = 0")
    case True
    show ?thesis by (rule Cons(1)[OF _ e(2) Cons(4)]) (use Cons(2) True e(1) in simp)
  next
    case False
    have o: "\<forall>k \<in> set (optl (Some (m\<lparr>M_EOR := False\<rparr>))). \<not> M_EOR k" by (simp add: optl_def)
    show ?thesis
    proof (cases n)
      case None
      show ?thesis by (rule Cons(1)[OF _ e(2) o]) (use Cons(2) False None e(1) in simp)
    next
      case (Some k)
      then have k: "\<not> M_EOR k" using Cons(4) by (simp add: optl_def)
      show ?thesis
      proof (cases "\<not> M_EXT k \<and> \<not> M_EOR k \<and> m_data k + m_len k + m_len m < MLEN \<and> m_type k = m_type m")
        case True
        have ok: "\<forall>x \<in> set (optl (Some (k\<lparr>m_bytes := m_bytes k @ m_bytes m\<rparr>))). \<not> M_EOR x" using k by (simp add: optl_def)
        show ?thesis by (rule Cons(1)[OF _ e(2) ok]) (use Cons(2) False Some True e(1) in simp)
      next
        case nf: False
        obtain c1 sb1 s1 where c1: "sbcompress_loop r (Some (m\<lparr>M_EOR := False\<rparr>)) False (sballoc m sb) s = (c1, sb1, s1)" by (metis surj_pair)
        have "c = k # c1" using Cons(2) False Some nf e(1) c1 by (simp only: sbcompress_loop.simps Let_def) simp
        then show ?thesis using Cons(1)[OF c1 e(2) o] k by simp
      qed
    qed
  qed
qed

lemma sbappend_plain:
  assumes "plain sb" and "sb_ok sb" and "\<forall>k \<in> set m. \<not> M_EOR k" and "sbappend m sb s = (sb', s')"
  shows "plain sb'"
proof (cases "m = []")
  case True
  then show ?thesis using assms(1,4) by (simp add: sbappend_def)
next
  case False
  show ?thesis
  proof (cases "sb_mb sb")
    case Nil
    obtain c sb1 s1 where c: "sbcompress m None sb s = (c, sb1, s1)" by (metis surj_pair)
    from sbcompress_plain[OF c[unfolded sbcompress_def] assms(3)] show ?thesis using False Nil c assms(4)
      by (auto simp: sbappend_def plain_def split: if_splits)
  next
    case (Cons l r)
    then have r: "r = []" "l \<noteq> []" "\<forall>k \<in> set l. \<not> M_EOR k" using assms(1,2) by (auto simp: plain_def sb_ok_def)
    obtain c sb1 s1 where c: "sbcompress m (Some (last l)) sb s = (c, sb1, s1)" by (metis surj_pair)
    from sbcompress_plain[OF c[unfolded sbcompress_def] assms(3)] have ce: "\<forall>k \<in> set c. \<not> M_EOR k" using r(2,3) by simp
    have "\<not> list_ex M_EOR (butlast l)" using r(3) by (auto simp: list_ex_iff dest: in_set_butlastD)
    then have "sb_mb sb' = [butlast l @ c]" using False Cons r(1) c assms(4) by (auto simp: sbappend_def)
    then show ?thesis using ce r(3) by (auto simp: plain_def dest: in_set_butlastD)
  qed
qed

lemma sbdrop_loop_plain:
  assumes "sbdrop_loop m nx len sb s = Ret (m1, nx1, sb1, s1)" and "\<forall>k \<in> set (m @ concat nx). \<not> M_EOR k"
  shows "length nx1 \<le> length nx \<and> (\<forall>k \<in> set (m1 @ concat nx1). \<not> M_EOR k)"
  using assms
proof (induction m nx len sb s rule: sbdrop_loop.induct)
  case (1 m nx len sb s)
  note eq = 1(3)[unfolded sbdrop_loop.simps[of m nx len sb s]]
  show ?case
  proof (cases "len > 0")
    case pos: True
    show ?thesis
    proof (cases m)
      case Nil
      then show ?thesis using eq pos 1(1)[OF pos Nil] 1(4) by (cases nx) auto
    next
      case (Cons k r)
      show ?thesis
      proof (cases "m_len k > len")
        case True
        then show ?thesis using eq pos Cons 1(4) by auto
      next
        case False
        then show ?thesis using eq pos Cons 1(2)[OF pos Cons False] 1(4) by simp
      qed
    qed
  qed (use eq 1(4) in auto)
qed

lemma sbdrop_empty_plain: "sbdrop_empty m sb s = (m2, sb2, s2) \<Longrightarrow> set m2 \<subseteq> set m"
  by (induction m sb s rule: sbdrop_empty.induct) (auto split: if_splits)

lemma sbdrop_plain:
  assumes "plain sb" and "sbdrop len sb s = Ret (sb', s')"
  shows "plain sb'"
proof -
  obtain m nx where mn: "(case sb_mb sb of [] \<Rightarrow> ([], []) | m # nx \<Rightarrow> (m, nx)) = (m, nx)" by fastforce
  then have nx: "nx = []" "\<forall>k \<in> set (m @ concat nx). \<not> M_EOR k" using assms(1) by (auto simp: plain_def split: list.splits)
  obtain m1 nx1 sb1 s1 where l: "sbdrop_loop m nx len sb s = Ret (m1, nx1, sb1, s1)" using assms(2) mn by (auto simp: sbdrop_def)
  obtain m2 sb2 s2 where e: "sbdrop_empty m1 sb1 s1 = (m2, sb2, s2)" by (metis surj_pair)
  have "sb_mb sb' = (if m2 = [] then nx1 else m2 # nx1)" using assms(2) mn l e by (auto simp: sbdrop_def)
  then show ?thesis using sbdrop_loop_plain[OF l nx(2)] sbdrop_empty_plain[OF e] nx(1) by (auto simp: plain_def)
qed

section \<open>Output stays within the data\<close>

text \<open>No FIN yet, and nothing beyond the buffer has been sent.\<close>

definition within :: "tcp \<Rightarrow> bool" where
  "within t = (TF_SENTFIN \<notin> t_flags (tp t) \<and> TH_FIN \<notin> tcp_outflags (t_state (tp t))
     \<and> sint (snd_nxt (tp t) - snd_una (tp t)) \<le> int (length (sbdata (so_snd (the_so t))))
     \<and> sint (snd_max (tp t) - snd_una (tp t)) \<le> int (length (sbdata (so_snd (the_so t)))))"

lemma tcp_output_len_nxt:
  "tcp_output_len t = (o1, t1) \<Longrightarrow> snd_nxt (tp t1) = snd_nxt (tp t) \<or> snd_nxt (tp t1) = snd_una (tp t)"
  unfolding tcp_output_len_def Let_def
  by (cases "t_force (tp t)"; cases "min (uint (snd_wnd (tp t))) (uint (snd_cwnd (tp t))) = 0")
    (auto simp: set_timer_def split: if_splits)

lemma tcp_output_idle_nxt:
  assumes "tcp_output_idle t = Ret t'"
  shows "snd_nxt (tp t') = snd_nxt (tp t)" and "snd_max (tp t') = snd_max (tp t)" and "t_flags (tp t') = t_flags (tp t)"
  using assms by (auto simp: tcp_output_idle_def tcp_setpersist_def Let_def set_timer_def split: if_splits)

lemma tcp_output_error_nxt:
  assumes "tcp_output_error e t = (e', t')"
  shows "snd_nxt (tp t') = snd_nxt (tp t)" and "snd_max (tp t') = snd_max (tp t)" and "t_flags (tp t') = t_flags (tp t)"
  using assms by (auto simp: tcp_output_error_def tcp_quench_def split: if_splits)

lemma tcp_output_ship_nxt:
  assumes "tcp_output_ship seg o1 win t = (again, e, t')"
  shows "snd_nxt (tp t') = snd_nxt (tp t)" and "snd_max (tp t') = snd_max (tp t)" and "TF_SENTFIN \<in> t_flags (tp t') \<longleftrightarrow> TF_SENTFIN \<in> t_flags (tp t)"
proof -
  obtain r t1 where r: "ip_output seg t = (r, t1)" by fastforce
  have k: "tp t1 = tp t" using r by (auto simp: ip_output_def split: list.splits option.splits)
  show "snd_nxt (tp t') = snd_nxt (tp t)" "snd_max (tp t') = snd_max (tp t)" "TF_SENTFIN \<in> t_flags (tp t') \<longleftrightarrow> TF_SENTFIN \<in> t_flags (tp t)"
    using assms r tcp_output_error_nxt[of _ t1 e t'] unfolding k[symmetric]
    by (auto simp: tcp_output_ship_def Let_def split: option.splits if_splits)
qed

text \<open>A step that leaves the buffer and the connection alone, but may go back to the first unacknowledged byte.\<close>

lemma send_inv_quiet:
  assumes "send_inv t" and "kept t t'" and "snd_nxt (tp t') = snd_nxt (tp t) \<or> snd_nxt (tp t') = snd_una (tp t)"
    and "snd_max (tp t') = snd_max (tp t)" and "TF_SENTFIN \<in> t_flags (tp t') \<longleftrightarrow> TF_SENTFIN \<in> t_flags (tp t)"
  shows "send_inv t'" and "within t \<Longrightarrow> within t'"
proof -
  have k: "the_so t' = the_so t" "snd_una (tp t') = snd_una (tp t)" "t_template (tp t') = t_template (tp t)" "t_state (tp t') = t_state (tp t)"
    using assms(2) kept_so[OF assms(2)] by (simp_all add: kept_def kept_tp_def)
  show "send_inv t'" using assms(1,3-5) k by (auto simp: send_inv_def send_ok_def)
  show "within t'" if "within t" using that assms(3-5) k by (auto simp: within_def)
qed

lemma within_next:
  assumes "send_inv t" and "within t" and "kept t t'" and "0 \<le> len"
    and "sint (snd_nxt (tp t) - snd_una (tp t)) + len \<le> int (length (sbdata (so_snd (the_so t))))"
    and "snd_nxt (tp t') \<in> {snd_nxt (tp t), snd_nxt (tp t) + of_int len}"
    and "snd_max (tp t') = (if SEQ_GT (snd_nxt (tp t) + of_int len) (snd_max (tp t)) then snd_nxt (tp t) + of_int len else snd_max (tp t))"
    and "TF_SENTFIN \<in> t_flags (tp t') \<longleftrightarrow> TF_SENTFIN \<in> t_flags (tp t)"
  shows "within t'"
proof -
  have inv: "0 \<le> sint (snd_nxt (tp t) - snd_una (tp t))" "int (length (sbdata (so_snd (the_so t)))) < 2 ^ 30"
    using assms(1) by (auto simp: send_inv_def send_ok_def M_COPYALL_def)
  have "sint (snd_nxt (tp t) + of_int len - snd_una (tp t)) = sint (snd_nxt (tp t) - snd_una (tp t)) + len"
    by (rule sint_eqI) (use inv assms(4,5) in simp_all)
  moreover have "the_so t' = the_so t" "snd_una (tp t') = snd_una (tp t)" "t_state (tp t') = t_state (tp t)"
    using assms(3) kept_so[OF assms(3)] by (simp_all add: kept_def kept_tp_def)
  ultimately show ?thesis using assms(2,4-8) by (auto simp: within_def)
qed

lemma tcp_output_once_within:
  assumes "send_inv t" and "within t" and "tcp_output_once cfg idle t = Ret (again, e, t')"
  shows "send_inv t' \<and> within t'"
proof (rule tcp_output_once_cases[OF assms(1,3)])
  fix o1 t1 assume o1: "tcp_output_len t = (o1, t1)" and i: "tcp_output_idle t1 = Ret t'"
  note k1 = tcp_output_len_kept[OF o1] and n = tcp_output_idle_nxt[OF i]
  show ?thesis using send_inv_quiet[OF assms(1) kept_trans[OF k1(1) tcp_output_idle_kept(1)[OF i]]] assms(2) tcp_output_len_nxt[OF o1] k1(3,4) n
    by simp
next
  fix o1 t1 t3 assume o1: "tcp_output_len t = (o1, t1)" and d: "tcp_output_data cfg TCPIPHDR o1 t1 = Ret (None, t3)"
    and er: "tcp_output_error ENOBUFS t3 = (e, t')"
  note k1 = tcp_output_len_kept[OF o1] and k3 = tcp_output_before_ship[OF o1 d] and n = tcp_output_error_nxt[OF er]
  show ?thesis using send_inv_quiet[OF assms(1) kept_trans[OF k3(1) tcp_output_error_kept(1)[OF er]]] assms(2) tcp_output_len_nxt[OF o1] k1(3,4) k3(2) n
    by simp
next
  fix o1 t1 bs o2 t3 win seg t4
  assume o1: "tcp_output_len t = (o1, t1)" and d: "tcp_output_data cfg TCPIPHDR o1 t1 = Ret (Some (bs, o2), t3)"
    and f: "tcp_output_fill bs None win o2 t3 = (seg, t4)" and sh: "tcp_output_ship seg o2 win (tcp_output_time o2 t4) = (again, e, t')"
  note k1 = tcp_output_len_kept[OF o1] and k3 = tcp_output_before_ship[OF o1 d] and d2 = tcp_output_data_kept(2)[OF d refl]
  note k4 = tcp_output_fill_kept[OF f] and n6 = tcp_output_ship_nxt[OF sh]
  have fin: "TH_FIN \<notin> ol_flags o1" "TH_SYN \<notin> ol_flags o1" using k1(7) assms(1,2) by (auto simp: send_inv_def within_def)
  then have fl: "ol_flags o2 \<inter> {TH_SYN, TH_FIN} = {}" using d2 by auto
  note tm = tcp_output_time_data[OF fl, of t4]
  have k: "kept t1 t'"
    using k3 kept_trans[OF _ kept_trans[OF k4(1) kept_trans[OF tcp_output_time_kept(1) tcp_output_ship_kept(1)[OF sh]]]]
      tcp_output_data_kept(1)[OF d] by auto
  have q: "send_inv t1" "within t1" using send_inv_quiet[OF assms(1) k1(1)] tcp_output_len_nxt[OF o1] k1(3,4) assms(2) by auto
  have t4: "snd_nxt (tp t4) = snd_nxt (tp t1)" "snd_max (tp t4) = snd_max (tp t1)" "t_flags (tp t4) = t_flags (tp t1)"
    using k4 k3(2) fl by auto
  have ok: "sb_ok (so_snd (the_so t))" "length (sbdata (so_snd (the_so t))) < 2 ^ 31" "0 \<le> sint (snd_nxt (tp t) - snd_una (tp t))"
    using assms(1) by (simp_all add: send_inv_def send_ok_def M_COPYALL_def)
  note ls = tcp_output_len_spec[OF o1 ok]
  have k1': "the_so t1 = the_so t" "snd_una (tp t1) = snd_una (tp t)" using k1(1) kept_so[OF k1(1)] by (simp_all add: kept_def kept_tp_def)
  have len: "0 \<le> ol_len o2" "sint (snd_nxt (tp t1) - snd_una (tp t1)) + ol_len o2 \<le> int (length (sbdata (so_snd (the_so t1))))"
    using d2 ls(1,2) ls(3)[THEN conjunct2, THEN conjunct1] ls(6) q(2) k1' by (cases "ol_len o2 = 0"; auto simp: within_def)+
  show ?thesis
  proof
    show "send_inv t'" by (rule send_inv_next[OF q(1) k len]) (use t4 tm n6 in auto)
    show "within t'" by (rule within_next[OF q k len]) (use t4 tm n6 in auto)
  qed
qed

lemma tcp_output_loop_within:
  assumes "send_inv t" and "within t" and "tcp_output_loop cfg idle t = Some (Ret (e, t'))"
  shows "send_inv t' \<and> within t'"
  using assms
proof (induction "length (mal_answers (mbs t))" arbitrary: t rule: less_induct)
  case less
  from tcp_output_once_step[OF less(2)] obtain again e1 t1 where r: "tcp_output_once cfg idle t = Ret (again, e1, t1)"
      "again \<longrightarrow> length (mal_answers (mbs t1)) < length (mal_answers (mbs t))" by blast
  note w = tcp_output_once_within[OF less(2,3) r(1)]
  note eq = less(4)[unfolded tcp_output_loop.simps[of cfg idle t]]
  show ?case
  proof (cases again)
    case True
    then show ?thesis using less(1)[of t1] w r eq by simp
  next
    case False
    then show ?thesis using w r(1) eq by simp
  qed
qed

lemma tcp_output_within:
  assumes "send_inv t" and "within t" and "tcp_output cfg t = Some (Ret (e, t'))"
  shows "send_inv t'" and "within t'"
proof -
  let ?t = "if snd_max (tp t) = snd_una (tp t) \<and> t_idle (tp t) \<ge> t_rxtcur (tp t) then updtp (\<lambda>p. p\<lparr>snd_cwnd := t_maxseg p\<rparr>) t else t"
  have "send_inv ?t" "within ?t" using assms(1,2) by (simp_all add: send_inv_def send_ok_def within_def)
  then show "send_inv t'" "within t'" using tcp_output_loop_within assms(3) unfolding tcp_output_def Let_def by blast+
qed

section \<open>Acknowledgements\<close>

text \<open>What the sender depends on in a control block and a socket buffer.\<close>

definition core :: "tcpcb \<Rightarrow> u32 \<times> u32 \<times> u32 \<times> tf_flag set \<times> bool \<times> tcp_state" where
  "core p = (snd_una p, snd_nxt p, snd_max p, t_flags p, t_template p, t_state p)"

lemma core_updates [simp]:
  "core (p\<lparr>snd_cwnd := a\<rparr>) = core p" "core (p\<lparr>t_dupacks := i\<rparr>) = core p" "core (p\<lparr>snd_wnd := a\<rparr>) = core p"
  "core (set_timer k v p) = core p" "core (open_cwnd p) = core p"
  by (simp_all add: core_def set_timer_def open_cwnd_def Let_def)

lemma core_xmit_timer [simp]: "core (tp (tcp_xmit_timer t)) = core (tp t)"
  by (simp add: tcp_xmit_timer_def Let_def core_def)

lemma xmit_timer_frame [simp]:
  "the_so (tcp_xmit_timer t) = the_so t" "sent (tcp_xmit_timer t) = sent t" "mbs (tcp_xmit_timer t) = mbs t" "so_id (tcp_xmit_timer t) = so_id t"
  by (simp_all add: tcp_xmit_timer_def)

lemma sowakeup_sb [simp]:
  "sb_mb (so_snd (sock (sowakeup i w st) j)) = sb_mb (so_snd (sock st j))"
  "sb_cc (so_snd (sock (sowakeup i w st) j)) = sb_cc (so_snd (sock st j))"
  "sb_mbcnt (so_snd (sock (sowakeup i w st) j)) = sb_mbcnt (so_snd (sock st j))"
  by (cases w; auto simp: sowakeup_def Let_def sb_set_def sb_of_def upd_def post_def split: option.splits)+

lemma wakeup_snd_frame [simp]:
  "tp (wakeup_snd t) = tp t" "sent (wakeup_snd t) = sent t" "sb_mb (so_snd (the_so (wakeup_snd t))) = sb_mb (so_snd (the_so t))"
  "sb_cc (so_snd (the_so (wakeup_snd t))) = sb_cc (so_snd (the_so t))" "sb_mbcnt (so_snd (the_so (wakeup_snd t))) = sb_mbcnt (so_snd (the_so t))"
  by (simp_all add: wakeup_snd_def the_so_def onstab_def)

lemma drop_snd_spec:
  assumes "send_ok t" and "plain (so_snd (the_so t))" and "0 \<le> n" and "n \<le> int (length (sbdata (so_snd (the_so t))))"
  obtains t' where "drop_snd n t = Ret t'" and "tp t' = tp t" and "sent t' = sent t" and "plain (so_snd (the_so t'))" and "send_ok t'"
    and "sbdata (so_snd (the_so t')) = drop (nat n) (sbdata (so_snd (the_so t)))"
proof -
  have ok: "sb_ok (so_snd (the_so t))" using assms(1) by (simp add: send_ok_def)
  obtain sb s where sb: "sbdrop n (so_snd (the_so t)) (mbs t) = Ret (sb, s)" "sb_ok sb" "sbdata sb = drop (nat n) (sbdata (so_snd (the_so t)))"
    by (rule sbdrop_spec[OF ok assms(3,4)])
  let ?t = "(updso (\<lambda>x. x\<lparr>so_snd := sb\<rparr>) t)\<lparr>mbs := s\<rparr>"
  have so: "so_snd (the_so ?t) = sb" by simp
  have pl: "plain sb" by (rule sbdrop_plain[OF assms(2) sb(1)])
  have "length (sbdata sb) \<le> length (sbdata (so_snd (the_so t)))" using sb(3) by simp
  then have "int (length (sbdata sb)) < M_COPYALL" using assms(1) by (auto simp: send_ok_def)
  then have "send_ok ?t" using sb(2) pl unfolding send_ok_def so by (simp add: plain_def)
  then show thesis using that[of ?t] sb pl unfolding so by (simp add: drop_snd_def)
qed

text \<open>The states in which data flow and neither SYN nor FIN is waited for.\<close>

lemma fin_acked_quiet:
  assumes "TH_FIN \<notin> tcp_outflags (t_state (tp t))" and "fin_acked cfg f need ti fl t = Some (Ret (ac, t'))"
  shows "core (tp t') = core (tp t)" and "the_so t' = the_so t" and "sent t' = sent t"
  using assms by (cases "t_state (tp t)"; auto simp: fin_acked_def rret_def)+

lemma new_ack_step:
  assumes "send_inv t" and "within t" and "plain (so_snd (the_so t))" and "SEQ_GT (ti_ack ti) (snd_una (tp t))"
    and "SEQ_LEQ (ti_ack ti) (snd_max (tp t))" and "new_ack cfg ti fl t = Some (Ret (ac, t'))"
  shows "\<exists>n \<le> length (sbdata (so_snd (the_so t))). snd_una (tp t') = snd_una (tp t) + of_nat n \<and> ti_ack ti = snd_una (tp t')
     \<and> sbdata (so_snd (the_so t')) = drop n (sbdata (so_snd (the_so t))) \<and> sent t' = sent t
     \<and> send_inv t' \<and> within t' \<and> plain (so_snd (the_so t'))"
proof -
  let ?N = "int (length (sbdata (so_snd (the_so t))))" and ?una = "snd_una (tp t)"
  define A where "A = sint (ti_ack ti - ?una)"
  define M where "M = sint (snd_max (tp t) - ?una)"
  define X where "X = sint (snd_nxt (tp t) - ?una)"
  have A: "0 < A" "ti_ack ti = ?una + of_int A" using assms(4) by (simp_all add: A_def SEQ_GT_def)
  have inv: "0 \<le> X" "X \<le> ?N" "0 \<le> M" "M \<le> ?N" "?N < 2 ^ 30" "send_ok t" "TF_SENTFIN \<notin> t_flags (tp t)" "t_template (tp t)"
      "TH_SYN \<notin> tcp_outflags (t_state (tp t))" "TH_FIN \<notin> tcp_outflags (t_state (tp t))"
    using assms(1,2) by (auto simp: send_inv_def within_def X_def M_def send_ok_def M_COPYALL_def)
  have Au: "A < 2 ^ 31" using sint_lt[of "ti_ack ti - ?una"] by (simp add: A_def)
  have mx: "snd_max (tp t) = ?una + of_int M" "snd_nxt (tp t) = ?una + of_int X" by (simp_all add: M_def X_def)
  have "sint (ti_ack ti - snd_max (tp t)) = A - M"
    by (rule sint_eqI) (use A mx inv(3-5) Au in simp_all)
  then have AM: "A \<le> M" using assms(5) by (simp add: SEQ_LEQ_def)
  have sn: "sint (snd_nxt (tp t) - ti_ack ti) = X - A" by (rule sint_eqI) (use A mx inv AM in simp_all)
  have sm: "sint (snd_max (tp t) - ti_ack ti) = M - A" by (rule sint_eqI) (use A mx inv AM in simp_all)
  define t1 where "t1 = updtp (\<lambda>p. p\<lparr>snd_cwnd := (if t_dupacks p > tcprexmtthresh cfg \<and> snd_cwnd p > snd_ssthresh p then snd_ssthresh p else snd_cwnd p),
                         t_dupacks := 0\<rparr>) t"
  define t2 where "t2 = (let s = bump rcvackbyte (of_int A) (bump rcvackpack 1 t1) in
      if t_rtt (tp s) \<noteq> 0 \<and> SEQ_GT (ti_ack ti) (t_rtseq (tp s)) then tcp_xmit_timer s else s)"
  define need where "need = (ti_ack ti = snd_max (tp t2))"
  define t3 where "t3 = updtp (\<lambda>p. open_cwnd (if need then set_timer TCPT_REXMT 0 p
                         else if t_timer p TCPT_PERSIST = 0 then set_timer TCPT_REXMT (t_rxtcur p) p else p)) t2"
  have c1: "core (tp t1) = core (tp t)" "the_so t1 = the_so t" "sent t1 = sent t" by (simp_all add: t1_def)
  have c2: "core (tp t2) = core (tp t)" "the_so t2 = the_so t" "sent t2 = sent t" using c1 by (simp_all add: t2_def Let_def)
  have c3: "core (tp t3) = core (tp t)" "the_so t3 = the_so t" "sent t3 = sent t" using c2 by (simp_all add: t3_def)
  have s3: "send_ok t3" "plain (so_snd (the_so t3))" using inv(6) assms(3) c3(2) by (simp_all add: send_ok_def)
  have cc: "\<not> (of_int A :: u32) > sb_cc (so_snd (the_so t3))"
  proof -
    have "uint (sb_cc (so_snd (the_so t))) = ?N" using inv(5,6) by (simp add: send_ok_def sb_ok_def uint_of_nat_u32)
    then show ?thesis using A(1) AM inv(4,5) c3(2) by (simp add: word_less_def uint_of_int_u32)
  qed
  obtain t4 where t4: "drop_snd A t3 = Ret t4" "tp t4 = tp t3" "sent t4 = sent t3" "plain (so_snd (the_so t4))" "send_ok t4"
      "sbdata (so_snd (the_so t4)) = drop (nat A) (sbdata (so_snd (the_so t3)))"
    by (rule drop_snd_spec[OF s3, of A]) (use A(1) AM inv(4) c3(2) in auto)
  define t5 where "t5 = updtp (\<lambda>p. p\<lparr>snd_wnd := snd_wnd p - of_int A\<rparr>) t4"
  define t6 where "t6 = updtp (\<lambda>p. p\<lparr>snd_una := ti_ack ti, snd_nxt := (if SEQ_LT (snd_nxt p) (ti_ack ti) then ti_ack ti else snd_nxt p)\<rparr>) (wakeup_snd t5)"
  have a: "sint (ti_ack ti - snd_una (tp t1)) = A" "SEQ_GT (ti_ack ti) (snd_max (tp t1)) = False"
    using c1(1) AM \<open>sint (ti_ack ti - snd_max (tp t)) = A - M\<close> by (simp_all add: core_def A_def SEQ_GT_def)
  have c: "(of_int A > sb_cc (so_snd (the_so t3))) = False" using cc by simp
  have "new_ack cfg ti fl t = fin_acked cfg False need ti fl t6"
    unfolding new_ack_def Let_def t1_def[symmetric] a if_False t2_def[unfolded Let_def, symmetric] need_def[symmetric] t3_def[symmetric] c
      t4(1) rbind_simps t5_def[symmetric] t6_def[symmetric] ..
  then have e: "fin_acked cfg False need ti fl t6 = Some (Ret (ac, t'))" using assms(6) by simp
  have c6: "snd_una (tp t6) = ti_ack ti" "snd_max (tp t6) = snd_max (tp t)" "t_flags (tp t6) = t_flags (tp t)" "t_template (tp t6)"
      "t_state (tp t6) = t_state (tp t)" "snd_nxt (tp t6) = (if SEQ_LT (snd_nxt (tp t)) (ti_ack ti) then ti_ack ti else snd_nxt (tp t))"
    using c3(1) t4(2) inv(8) by (simp_all add: t6_def t5_def core_def)
  have so6: "sb_mb (so_snd (the_so t6)) = sb_mb (so_snd (the_so t4))" "sb_cc (so_snd (the_so t6)) = sb_cc (so_snd (the_so t4))" "sent t6 = sent t"
      "sb_mbcnt (so_snd (the_so t6)) = sb_mbcnt (so_snd (the_so t4))"
    using t4(3) c3(3) by (simp_all add: t6_def t5_def)
  note f = fin_acked_quiet[OF _ e]
  have "TH_FIN \<notin> tcp_outflags (t_state (tp t6))" using inv(10) c6(5) by simp
  note f = f[OF this]
  have f1: "snd_una (tp t') = ti_ack ti" "snd_max (tp t') = snd_max (tp t)" "t_flags (tp t') = t_flags (tp t)" "t_template (tp t')"
      "t_state (tp t') = t_state (tp t)" "snd_nxt (tp t') = (if SEQ_LT (snd_nxt (tp t)) (ti_ack ti) then ti_ack ti else snd_nxt (tp t))"
    using f(1) c6 by (simp_all add: core_def)
  have so': "sb_mb (so_snd (the_so t')) = sb_mb (so_snd (the_so t4))" "sb_cc (so_snd (the_so t')) = sb_cc (so_snd (the_so t4))"
      "sb_mbcnt (so_snd (the_so t')) = sb_mbcnt (so_snd (the_so t4))"
    using f(2) so6 by simp_all
  then have dat: "sbdata (so_snd (the_so t')) = drop (nat A) (sbdata (so_snd (the_so t)))" using t4(6) c3(2) by (simp add: sbdata_def)
  have ok: "send_ok t'" "plain (so_snd (the_so t'))" using t4(4,5) so' by (simp_all add: send_ok_def plain_def sb_ok_def sbdata_def)
  have n: "0 \<le> sint (snd_nxt (tp t') - ti_ack ti)" "sint (snd_nxt (tp t') - ti_ack ti) \<le> ?N - A"
    using f1(6) sn AM inv(2,4) by (auto simp: SEQ_LT_def)
  have "send_inv t'" "within t'" using ok(1) n sm AM inv f1 dat A(1) by (simp_all add: send_inv_def within_def)
  moreover have "int (nat A) = A" "nat A \<le> length (sbdata (so_snd (the_so t)))" using A(1) AM inv(4) by simp_all
  moreover have "ti_ack ti = ?una + of_nat (nat A)" using A by simp
  ultimately show ?thesis using f1(1) dat ok(2) f(3) so6(3) by (intro exI[of _ "nat A"]) simp
qed

section \<open>A sender over time\<close>

text \<open>A segment with bytes of the first \<open>w\<close> bytes of the stream \<open>S\<close>.\<close>

definition out_of_stream :: "(nat \<Rightarrow> byte) \<Rightarrow> u32 \<Rightarrow> nat \<Rightarrow> tout \<Rightarrow> bool" where
  "out_of_stream S s0 w seg = (o_data seg = [] \<or> (\<exists>pos. o_seq seg = s0 + of_nat pos \<and> pos + length (o_data seg) \<le> w
     \<and> o_data seg = map S [pos ..< pos + length (o_data seg)]))"

text \<open>\<open>w\<close> bytes have been written and the first \<open>a\<close> of them acknowledged.\<close>

definition sender_inv :: "(nat \<Rightarrow> byte) \<Rightarrow> u32 \<Rightarrow> nat \<Rightarrow> nat \<Rightarrow> tcp \<Rightarrow> bool" where
  "sender_inv S s0 a w t = (send_inv t \<and> within t \<and> plain (so_snd (the_so t)) \<and> a \<le> w \<and> snd_una (tp t) = s0 + of_nat a
     \<and> sbdata (so_snd (the_so t)) = map S [a ..< w] \<and> (\<forall>seg \<in> set (sent t). out_of_stream S s0 w seg))"

lemma out_of_stream_mono: "out_of_stream S s0 w seg \<Longrightarrow> w \<le> w' \<Longrightarrow> out_of_stream S s0 w' seg"
  unfolding out_of_stream_def by (meson order_trans)

lemma stream_seg_out:
  assumes "sender_inv S s0 a w t" and "stream_seg t cw seg"
  shows "out_of_stream S s0 w seg"
proof (cases "o_data seg = []")
  case False
  let ?n = "length (o_data seg)"
  define off where "off = sint (o_seq seg - snd_una (tp t))"
  have t: "snd_una (tp t) = s0 + of_nat a" "sbdata (so_snd (the_so t)) = map S [a ..< w]" using assms(1) by (simp_all add: sender_inv_def)
  have o: "0 \<le> off" "o_data seg = take ?n (drop (nat off) (map S [a ..< w]))"
    using assms(2) False t(2) by (simp_all add: stream_seg_def Let_def off_def)
  have "o_seq seg = snd_una (tp t) + of_int off" by (simp add: off_def)
  then have "o_seq seg = s0 + of_nat (a + nat off)" using t(1) o(1) by (simp add: of_nat_nat)
  moreover have d: "o_data seg = take ?n (map S [a + nat off ..< w])" using o(2) by (simp add: drop_map)
  then have "?n \<le> w - (a + nat off)" by (metis length_map length_take length_upt min.cobounded1 min.commute)
  then have le: "a + nat off + ?n \<le> w" using False by (cases "?n") auto
  moreover have "o_data seg = map S [a + nat off ..< a + nat off + ?n]" using d le by (metis take_map take_upt)
  ultimately show ?thesis unfolding out_of_stream_def by blast
qed (simp add: out_of_stream_def)

text \<open>Steps that leave the data and the sequence numbers alone, but may go back to the first unacknowledged byte.\<close>

definition quiet :: "tcp \<Rightarrow> tcp \<Rightarrow> bool" where
  "quiet t t' = (so_snd (the_so t') = so_snd (the_so t) \<and> sent t' = sent t \<and> snd_una (tp t') = snd_una (tp t) \<and> snd_max (tp t') = snd_max (tp t)
     \<and> (snd_nxt (tp t') = snd_nxt (tp t) \<or> snd_nxt (tp t') = snd_una (tp t)) \<and> t_template (tp t') = t_template (tp t)
     \<and> t_state (tp t') = t_state (tp t) \<and> t_flags (tp t') = t_flags (tp t))"

lemma sender_inv_quiet: "sender_inv S s0 a w t \<Longrightarrow> quiet t t' \<Longrightarrow> sender_inv S s0 a w t'"
  by (auto simp: sender_inv_def quiet_def send_inv_def within_def send_ok_def)

lemma sender_inv_output:
  assumes "sender_inv S s0 a w t" and "tcp_output cfg t = Some (Ret (e, t'))"
  shows "sender_inv S s0 a w t'"
proof -
  have i: "send_inv t" "within t" using assms(1) by (simp_all add: sender_inv_def)
  obtain segs cw where k: "kept t t'" "sent t' = sent t @ segs" "\<forall>seg \<in> set segs. stream_seg t cw seg"
    using tcp_output_spec[OF i(1), of cfg] assms(2) by auto
  have "the_so t' = the_so t" "snd_una (tp t') = snd_una (tp t)" using k(1) kept_so[OF k(1)] by (simp_all add: kept_def kept_tp_def)
  then show ?thesis using assms(1) tcp_output_within[OF i assms(2)] k(2,3) stream_seg_out[OF assms(1)]
    by (auto simp: sender_inv_def)
qed

text \<open>The user's bytes go to the end of the send buffer.\<close>

lemma usr_append_inv:
  assumes "send_inv t" and "within t" and "plain (so_snd (the_so t))" and "chain_wf m" and "\<forall>k \<in> set m. \<not> M_EOR k"
    and "int (length (sbdata (so_snd (the_so t))) + length (mdata m)) < M_COPYALL"
  shows "send_inv (usr_append m t)" and "within (usr_append m t)" and "plain (so_snd (the_so (usr_append m t)))"
    and "sbdata (so_snd (the_so (usr_append m t))) = sbdata (so_snd (the_so t)) @ mdata m"
    and "tp (usr_append m t) = tp t" and "sent (usr_append m t) = sent t"
proof -
  have ok: "sb_ok (so_snd (the_so t))" using assms(1) by (simp add: send_inv_def send_ok_def)
  obtain sb s where sb: "sbappend m (so_snd (the_so t)) (mbs t) = (sb, s)" by fastforce
  note sp = sbappend_spec[OF ok assms(4) sb] and pl = sbappend_plain[OF assms(3) ok assms(5) sb]
  have t: "usr_append m t = (updso (\<lambda>x. x\<lparr>so_snd := sb\<rparr>) t)\<lparr>mbs := s\<rparr>" using sb by (simp add: usr_append_def)
  have so: "so_snd (the_so (usr_append m t)) = sb" "tp (usr_append m t) = tp t" "sent (usr_append m t) = sent t" by (simp_all add: t)
  have len: "length (sbdata sb) = length (sbdata (so_snd (the_so t))) + length (mdata m)" using sp by simp
  then have "send_ok (usr_append m t)" using sp pl assms(6) unfolding send_ok_def so by (simp only: plain_def simp_thms)
  moreover have "\<not> TF_SENTFIN \<in> t_flags (tp t)" using assms(2) by (simp add: within_def)
  ultimately show "send_inv (usr_append m t)" "within (usr_append m t)"
    using assms(1,2) len by (auto simp: send_inv_def within_def so)
  show "plain (so_snd (the_so (usr_append m t)))" "sbdata (so_snd (the_so (usr_append m t))) = sbdata (so_snd (the_so t)) @ mdata m"
    "tp (usr_append m t) = tp t" "sent (usr_append m t) = sent t" using sp pl so by simp_all
qed

lemma sender_inv_append:
  assumes "sender_inv S s0 a w t" and "chain_wf m" and "\<forall>k \<in> set m. \<not> M_EOR k" and "mdata m = map S [w ..< w + length (mdata m)]"
    and "int (w + length (mdata m) - a) < M_COPYALL"
  shows "sender_inv S s0 a (w + length (mdata m)) (usr_append m t)"
proof -
  have i: "send_inv t" "within t" "plain (so_snd (the_so t))" "a \<le> w" "sbdata (so_snd (the_so t)) = map S [a ..< w]"
    using assms(1) by (simp_all add: sender_inv_def)
  then have "int (length (sbdata (so_snd (the_so t))) + length (mdata m)) < M_COPYALL" using assms(5) by simp
  note u = usr_append_inv[OF i(1-3) assms(2,3) this]
  have "sbdata (so_snd (the_so (usr_append m t))) = map S [a ..< w + length (mdata m)]"
    using u(4) i(5) assms(4) upt_add_eq_append[OF i(4), of "length (mdata m)"] by (metis map_append)
  then show ?thesis using assms(1) u out_of_stream_mono[of S s0 w _ "w + length (mdata m)"] by (auto simp: sender_inv_def)
qed

lemma quiet_rexmt:
  assumes "rexmt_backoff t = Ret t'"
  shows "quiet t t'"
proof -
  have "inp_socket (pcb (in_losing (inp_id t) (tab t)) (inp_id t)) = inp_socket (pcb (tab t) (inp_id t))"
    by (simp add: in_losing_def Let_def updpcb_def split: option.splits)
  then show ?thesis using assms by (auto simp: rexmt_backoff_def Let_def quiet_def set_timer_def the_so_def so_id_def inp_def updtp_def split: if_splits)
qed

text \<open>What may happen to a sender; \<open>w\<close> counts the bytes of \<open>S\<close> written so far.\<close>

inductive snd_step :: "tcpcfg \<Rightarrow> (nat \<Rightarrow> byte) \<Rightarrow> nat \<Rightarrow> tcp \<Rightarrow> nat \<Rightarrow> tcp \<Rightarrow> bool" for cfg S where
  snd_write: "chain_wf m \<Longrightarrow> \<forall>k \<in> set m. \<not> M_EOR k \<Longrightarrow> mdata m = map S [w ..< w + length (mdata m)] \<Longrightarrow>
    int (length (sbdata (so_snd (the_so t))) + length (mdata m)) < M_COPYALL \<Longrightarrow>
    tcp_request cfg (PRU_SEND m) t = Some (Ret (e, r, t')) \<Longrightarrow> snd_step cfg S w t (w + length (mdata m)) t'"
| snd_output: "tcp_output cfg t = Some (Ret (e, t')) \<Longrightarrow> snd_step cfg S w t w t'"
| snd_ack: "SEQ_GT (ti_ack ti) (snd_una (tp t)) \<Longrightarrow> SEQ_LEQ (ti_ack ti) (snd_max (tp t)) \<Longrightarrow>
    new_ack cfg ti fl t = Some (Ret (ac, t')) \<Longrightarrow> snd_step cfg S w t w t'"
| snd_window: "window_update ti fl need t = (need', t') \<Longrightarrow> snd_step cfg S w t w t'"
| snd_rexmt: "t_rxtshift (tp t) < TCP_MAXRXTSHIFT \<Longrightarrow> tcp_timers cfg TCPT_REXMT t = Some (Ret t') \<Longrightarrow> snd_step cfg S w t w t'"
| snd_persist: "tcp_timers cfg TCPT_PERSIST t = Some (Ret t') \<Longrightarrow> snd_step cfg S w t w t'"

lemma quiet_updtp:
  assumes "\<And>p. core (f p) = core p" shows "quiet t (updtp f t)"
  using assms[of "tp t"] by (simp add: quiet_def core_def)

lemma quiet_trans: "quiet a b \<Longrightarrow> quiet b c \<Longrightarrow> quiet a c"
  by (auto simp: quiet_def)

lemma sender_inv_ack:
  assumes "sender_inv S s0 a w t" and "SEQ_GT (ti_ack ti) (snd_una (tp t))" and "SEQ_LEQ (ti_ack ti) (snd_max (tp t))"
    and "new_ack cfg ti fl t = Some (Ret (ac, t'))"
  shows "\<exists>a' \<ge> a. sender_inv S s0 a' w t'"
proof -
  have i: "send_inv t" "within t" "plain (so_snd (the_so t))" "a \<le> w" "snd_una (tp t) = s0 + of_nat a" "sbdata (so_snd (the_so t)) = map S [a ..< w]"
    using assms(1) by (simp_all add: sender_inv_def)
  obtain n where n: "n \<le> w - a" "snd_una (tp t') = snd_una (tp t) + of_nat n" "sbdata (so_snd (the_so t')) = drop n (map S [a ..< w])"
      "sent t' = sent t" "send_inv t'" "within t'" "plain (so_snd (the_so t'))"
    using new_ack_step[OF i(1-3) assms(2-4)] i(6) by auto
  have "sender_inv S s0 (a + n) w t'" using assms(1) n i(4,5) by (simp add: sender_inv_def drop_map)
  then show ?thesis by (intro exI[of _ "a + n"]) simp
qed

lemma snd_step_inv:
  assumes "snd_step cfg S w t w' t'" and "sender_inv S s0 a w t"
  shows "w \<le> w' \<and> (\<exists>a' \<ge> a. sender_inv S s0 a' w' t')"
  using assms
proof cases
  case (snd_write m e r)
  have "length (sbdata (so_snd (the_so t))) = w - a" "a \<le> w" using assms(2) by (simp_all add: sender_inv_def)
  then have "sender_inv S s0 a w' (usr_append m t)" using sender_inv_append[OF assms(2) snd_write(2-4)] snd_write(1,5) by simp
  moreover obtain e' where "tcp_output cfg (usr_append m t) = Some (Ret (e', t'))"
    using snd_write(6) by (auto simp: tcp_request_def noreply_def rbind_eq_Ret rret_def)
  ultimately have "sender_inv S s0 a w' t'" using sender_inv_output by blast
  then show ?thesis using snd_write(1) by auto
next
  case (snd_output e)
  then show ?thesis using sender_inv_output[OF assms(2)] by blast
next
  case (snd_ack ti fl ac)
  then show ?thesis using sender_inv_ack[OF assms(2)] by blast
next
  case (snd_window ti fl need need')
  note f = window_update_frame[OF snd_window(2)]
  have "sent t' = sent t" using snd_window(2) by (auto simp: window_update_def Let_def split: if_splits)
  then have "quiet t t'" using f by (simp add: quiet_def kept_tp_def)
  then show ?thesis using sender_inv_quiet[OF assms(2)] snd_window(1) by blast
next
  case snd_rexmt
  let ?t = "bump rexmttimeo 1 (updtp (\<lambda>p. p\<lparr>t_rxtshift := t_rxtshift p + 1\<rparr>) t)"
  obtain t2 e where r: "rexmt_backoff ?t = Ret t2" "tcp_output cfg t2 = Some (Ret (e, t'))"
    using snd_rexmt(2,3) by (auto simp: tcp_timers_def Let_def rbind_eq_Ret rret_def)
  have "quiet t ?t" by (simp add: quiet_def)
  then show ?thesis using sender_inv_output[OF _ r(2)] sender_inv_quiet[OF assms(2)] quiet_trans quiet_rexmt[OF r(1)] snd_rexmt(1) by blast
next
  case snd_persist
  obtain p e t1 where p: "tcp_setpersist (tp t) = Ret p" "tcp_output cfg (updtp (\<lambda>_. p\<lparr>t_force := True\<rparr>) (bump persisttimeo 1 t)) = Some (Ret (e, t1))"
      "t' = updtp (\<lambda>q. q\<lparr>t_force := False\<rparr>) t1"
    using snd_persist(2) by (auto simp: tcp_timers_def rbind_eq_Ret rret_def)
  have "quiet t (updtp (\<lambda>_. p\<lparr>t_force := True\<rparr>) (bump persisttimeo 1 t))" "quiet t1 t'"
    using p(1,3) by (auto simp: quiet_def tcp_setpersist_def Let_def set_timer_def split: if_splits)
  then show ?thesis using sender_inv_output[OF sender_inv_quiet[OF assms(2)] p(2)] sender_inv_quiet snd_persist(1) by blast
qed

section \<open>Both ends\<close>

text \<open>A segment with data that was sent, as it arrives at the other end.\<close>

definition carries :: "tout \<Rightarrow> tseg \<Rightarrow> bool" where
  "carries seg ti = (o_data seg \<noteq> [] \<and> ti_seq ti = o_seq seg \<and> mdata (ti_m ti) = o_data seg \<and> ti_len ti = int (length (o_data seg))
     \<and> chain_wf (ti_m ti) \<and> ti_flags ti \<inter> {TH_SYN, TH_FIN} = {})"

lemma carries_from_stream: "carries seg ti \<Longrightarrow> out_of_stream S s0 w seg \<Longrightarrow> from_stream S s0 w ti"
  unfolding carries_def out_of_stream_def from_stream_def by auto

text \<open>A sender, a receiver, and a network that delivers what was sent in any order, any number of times or never.\<close>

inductive connection :: "tcpcfg \<Rightarrow> (nat \<Rightarrow> byte) \<Rightarrow> tcp \<Rightarrow> tcp \<Rightarrow> nat \<Rightarrow> tcp \<Rightarrow> byte list \<Rightarrow> tcp \<Rightarrow> bool" for cfg S ta0 tb0 where
  conn_start: "connection cfg S ta0 tb0 0 ta0 [] tb0"
| conn_send: "connection cfg S ta0 tb0 w ta out tb \<Longrightarrow> snd_step cfg S w ta w' ta' \<Longrightarrow> w' < 2 ^ 29 \<Longrightarrow>
    connection cfg S ta0 tb0 w' ta' out tb"
| conn_deliver: "connection cfg S ta0 tb0 w ta out tb \<Longrightarrow> seg \<in> set (sent ta) \<Longrightarrow> carries seg ti \<Longrightarrow> recv_text cfg ti tb = Some (Ret tb') \<Longrightarrow>
    connection cfg S ta0 tb0 w ta out tb'"
| conn_window: "connection cfg S ta0 tb0 w ta out tb \<Longrightarrow> connection cfg S ta0 tb0 w ta out (receive_window tb)"
| conn_read: "connection cfg S ta0 tb0 w ta out tb \<Longrightarrow> n \<le> length (sbdata (so_rcv (the_so tb))) \<Longrightarrow>
    sbdrop (int n) (so_rcv (the_so tb)) (mbs tb) = Ret (sb, s) \<Longrightarrow>
    connection cfg S ta0 tb0 w ta (out @ take n (sbdata (so_rcv (the_so tb)))) ((updso (\<lambda>x. x\<lparr>so_rcv := sb\<rparr>) tb)\<lparr>mbs := s\<rparr>)"

lemma connection_inv:
  assumes "connection cfg S ta0 tb0 w ta out tb" and "sender_inv S s0 0 0 ta0" and "stream_inv S s0 0 [] 0 tb0" and "can_receive tb0"
  shows "w < 2 ^ 29 \<and> (\<exists>a. sender_inv S s0 a w ta) \<and> (\<exists>p. stream_inv S s0 w out p tb) \<and> can_receive tb"
  using assms
proof (induction rule: connection.induct)
  case conn_start
  then show ?case by auto
next
  case (conn_send w ta out tb w' ta')
  then obtain a p where i: "sender_inv S s0 a w ta" "stream_inv S s0 w out p tb" by blast
  from snd_step_inv[OF conn_send(2) i(1)] have w: "w \<le> w'" "\<exists>a. sender_inv S s0 a w' ta'" by blast+
  have "stream_inv S s0 w' out p tb" by (rule stream_inv_mono[OF i(2) w(1)])
  then show ?case using conn_send w(2) by blast
next
  case (conn_deliver w ta out tb seg ti tb')
  then obtain a p where i: "sender_inv S s0 a w ta" "stream_inv S s0 w out p tb" "can_receive tb" "w < 2 ^ 29" by blast
  have "from_stream S s0 w ti" using carries_from_stream[OF conn_deliver(3)] i(1) conn_deliver(2) by (simp add: sender_inv_def)
  from recv_text_step[OF i(2,3) this i(4), of cfg] conn_deliver(4) show ?case using i by auto
next
  case (conn_window w ta out tb)
  then show ?case using stream_inv_window by blast
next
  case (conn_read w ta out tb n sb s)
  then show ?case using stream_inv_read[OF _ _ conn_read(2,3)] by blast
qed


text \<open>The example connection with nothing sent or received yet, whose user writes \<open>[1, 2]\<close>.\<close>

definition ex_tx :: tcp where
  "ex_tx = ex_tcp\<lparr>tp := ex_tcpcb\<lparr>snd_una := 1002, snd_nxt := 1002, snd_max := 1002\<rparr>\<rparr>"


end
