(* ===== verification/Tcp_Fsm.thy ===== *)
theory Tcp_Fsm
  imports Tcp_Receive
begin

text \<open>
  The TCP state machine: the arcs between connection states, and that input, user close and timers move a
  connection along them only.
\<close>

section \<open>Arcs\<close>

inductive tcp_arc :: "tcp_state \<Rightarrow> tcp_state \<Rightarrow> bool" where
  "tcp_arc s TCPS_CLOSED"
| "tcp_arc TCPS_SYN_SENT TCPS_SYN_RECEIVED"
| "tcp_arc TCPS_SYN_SENT TCPS_ESTABLISHED"
| "tcp_arc TCPS_SYN_RECEIVED TCPS_ESTABLISHED"
| "tcp_arc TCPS_SYN_RECEIVED TCPS_FIN_WAIT_1"
| "tcp_arc TCPS_SYN_RECEIVED TCPS_CLOSE_WAIT"
| "tcp_arc TCPS_ESTABLISHED TCPS_FIN_WAIT_1"
| "tcp_arc TCPS_ESTABLISHED TCPS_CLOSE_WAIT"
| "tcp_arc TCPS_CLOSE_WAIT TCPS_LAST_ACK"
| "tcp_arc TCPS_FIN_WAIT_1 TCPS_FIN_WAIT_2"
| "tcp_arc TCPS_FIN_WAIT_1 TCPS_CLOSING"
| "tcp_arc TCPS_FIN_WAIT_2 TCPS_TIME_WAIT"
| "tcp_arc TCPS_CLOSING TCPS_TIME_WAIT"

code_pred (modes: i \<Rightarrow> i \<Rightarrow> bool) tcp_arc .

definition arcs :: "tcp \<Rightarrow> tcp \<Rightarrow> bool" where
  "arcs t t' = tcp_arc\<^sup>*\<^sup>* (t_state (tp t)) (t_state (tp t'))"

lemma arcs_same [intro]: "t_state (tp t') = t_state (tp t) \<Longrightarrow> arcs t t'"
  by (simp add: arcs_def)

lemma arcs_arc [intro]: "tcp_arc (t_state (tp t)) (t_state (tp t')) \<Longrightarrow> arcs t t'"
  by (simp add: arcs_def)

lemma arcs_closed: "t_state (tp t') = TCPS_CLOSED \<Longrightarrow> arcs t t'"
  by (simp add: arcs_def tcp_arc.intros(1) r_into_rtranclp)

lemma arcs_trans [trans]: "arcs a b \<Longrightarrow> arcs b c \<Longrightarrow> arcs a c"
  by (simp add: arcs_def)

lemma arcs_upd [simp]:
  "arcs t (bump k n t') = arcs t t'" "arcs t (updso g t') = arcs t t'" "arcs t (onstab h t') = arcs t t'" "arcs t (updinp u t') = arcs t t'"
  "arcs t (t'\<lparr>mbs := s\<rparr>) = arcs t t'" "arcs t (t'\<lparr>stab := st\<rparr>) = arcs t t'"
  "arcs (bump k n t) t' = arcs t t'" "arcs (updso g t) t' = arcs t t'" "arcs (onstab h t) t' = arcs t t'" "arcs (t\<lparr>mbs := s\<rparr>) t' = arcs t t'"
  by (simp_all add: arcs_def)

lemmas arc_stars = tcp_arc.intros[THEN r_into_rtranclp[of tcp_arc]]

section \<open>Output keeps the state\<close>

lemma mss_rtt_state [simp]: "t_state (mss_rtt rt p) = t_state p"
  by (simp add: mss_rtt_def Let_def)

lemma mss_bufs_state: "mss_bufs cfg rt mss t = (m, t') \<Longrightarrow> t_state (tp t') = t_state (tp t)"
  by (auto simp: mss_bufs_def Let_def split: prod.splits if_splits)

lemma tcp_mss_state: "tcp_mss cfg ofr t = (m, t') \<Longrightarrow> t_state (tp t') = t_state (tp t)"
  by (auto simp: tcp_mss_def Let_def split: prod.splits option.splits if_splits dest!: mss_bufs_state)

lemma kept_state: "kept t t' \<Longrightarrow> t_state (tp t') = t_state (tp t)"
  by (simp add: kept_def kept_tp_def)

lemma tcp_output_data_state: "tcp_output_data cfg h o1 t = Ret (res, t') \<Longrightarrow> t_state (tp t') = t_state (tp t)"
  using tcp_output_data_kept(1)[of cfg h o1 t res t'] by (auto simp: same_send_count)

lemmas output_states = tcp_mss_state tcp_output_data_state kept_state[OF tcp_output_len_kept(1)] kept_state[OF tcp_output_idle_kept(1)]
  kept_state[OF tcp_output_fill_kept(1)] kept_state[OF tcp_output_error_kept(1)] kept_state[OF tcp_output_ship_kept(1)]

lemma tcp_output_once_state:
  assumes "tcp_output_once cfg idle t = Ret (again, e, t')" shows "t_state (tp t') = t_state (tp t)"
proof -
  obtain o1 t1 where o1: "tcp_output_len t = (o1, t1)" by fastforce
  define opts where "opts = (TH_SYN \<in> ol_flags o1 \<and> TF_NOOPT \<notin> t_flags (tp t1))"
  obtain mss t2 where t2: "(if opts then case tcp_mss cfg 0 t1 of (m, t') \<Rightarrow> (Some m, t') else (None, t1)) = (mss, t2)" by (metis surj_pair)
  have s2: "t_state (tp t2) = t_state (tp t)" using t2 output_states(1)[of cfg 0 t1] output_states(3)[OF o1] by (auto split: if_splits prod.splits)
  have time: "t_state (tp (tcp_output_time o2 x)) = t_state (tp x)" for o2 x by (rule kept_state[OF tcp_output_time_kept(1)])
  show ?thesis
  proof (cases "send_data idle o1 t1 \<or> send_window t1 \<or> send_control o1 t1")
    case False
    then show ?thesis using assms o1 output_states(3)[OF o1] by (auto simp: tcp_output_once_def dest!: output_states(4))
  next
    case True
    have "tcp_output_once cfg idle t = kbind (tcp_output_data cfg (TCPIPHDR + (if opts then 4 else 0)) o1 t2) (\<lambda>(res, t3). case res of
             None \<Rightarrow> Ret (False, tcp_output_error ENOBUFS t3)
           | Some (bs, o2) \<Rightarrow>
               if \<not> t_template (tp t3) then Panic ''tcp_output''
               else let win = out_window (sbspace (so_rcv (the_so t1))) t3;
                        (seg, t4) = tcp_output_fill bs mss win o2 t3
                    in Ret (tcp_output_ship seg o2 win (tcp_output_time o2 t4)))"
      unfolding tcp_output_once_def Let_def o1 prod.case opts_def[symmetric] t2 using True by (simp only: not_True_eq_False if_False)
    from this[unfolded assms, symmetric] show ?thesis using s2
      by (cases "tcp_output_data cfg (TCPIPHDR + (if opts then 4 else 0)) o1 t2")
        (auto simp: Let_def time split: option.splits prod.splits if_splits dest!: output_states(2,5-7))
  qed
qed

lemma tcp_output_loop_state:
  assumes "tcp_output_loop cfg idle t = Some r" shows "\<forall>e t'. r = Ret (e, t') \<longrightarrow> t_state (tp t') = t_state (tp t)"
proof (rule tcp_output_loop.raw_induct[where P = "\<lambda>_ _ t r. \<forall>e t'. r = Ret (e, t') \<longrightarrow> t_state (tp t') = t_state (tp t)", OF _ assms])
  fix loop cfg idle t and r :: "(errno option \<times> tcp) kres"
  assume ih: "\<And>cfg idle t r. loop cfg idle t = Some r \<Longrightarrow> \<forall>e t'. r = Ret (e, t') \<longrightarrow> t_state (tp t') = t_state (tp t)"
    and eq: "(case tcp_output_once cfg idle t of Ret (again, e, t1) \<Rightarrow> if again then loop cfg idle t1 else Some (Ret (e, t1))
      | Panic x \<Rightarrow> Some (Panic x) | Fault \<Rightarrow> Some Fault) = Some r"
  show "\<forall>e t'. r = Ret (e, t') \<longrightarrow> t_state (tp t') = t_state (tp t)"
  proof (intro allI impI)
    fix e t' assume r: "r = Ret (e, t')"
    then obtain again e1 t1 where o: "tcp_output_once cfg idle t = Ret (again, e1, t1)" using eq by (auto split: kres.splits)
    show "t_state (tp t') = t_state (tp t)" using ih[of cfg idle t1 r] eq o r tcp_output_once_state[OF o] by (auto split: if_splits)
  qed
qed

lemma tcp_output_state: "tcp_output cfg t = Some (Ret (e, t')) \<Longrightarrow> t_state (tp t') = t_state (tp t)"
  by (auto simp: tcp_output_def Let_def dest!: tcp_output_loop_state split: if_splits)

lemma output_quiet_state: "output_quiet cfg t = Some (Ret t') \<Longrightarrow> t_state (tp t') = t_state (tp t)"
  by (auto simp: output_quiet_def rbind_eq_Ret rret_def dest: tcp_output_state)

section \<open>Close and drop\<close>

lemma close_metrics_tp: "close_metrics cfg t = Ret t' \<Longrightarrow> tp t' = tp t"
  by (auto simp: close_metrics_def Let_def split: option.splits if_splits prod.splits)

lemma tcp_close_state:
  assumes "tcp_close cfg t = Some (Ret t')" shows "t_state (tp t') = t_state (tp t)"
proof -
  obtain t1 where t1: "close_metrics cfg t = Ret t1" using assms by (auto simp: tcp_close_def rbind_eq_Ret)
  show ?thesis using assms close_metrics_tp[OF t1] unfolding tcp_close_def t1 rbind_simps Let_def rbind_eq_Ret
    by (auto simp: rret_def)
qed

lemma tcp_drop_arcs:
  assumes "tcp_drop cfg e t = Some (Ret t')" shows "arcs t t'"
proof (cases "TCPS_HAVERCVDSYN (t_state (tp t))")
  case True
  then have "t_state (tp t') = TCPS_CLOSED" using assms
    by (auto simp: tcp_drop_def rbind_eq_Ret rret_def Let_def dest!: tcp_close_state tcp_output_state)
  then show ?thesis by (rule arcs_closed)
next
  case False
  then show ?thesis using assms by (auto simp: tcp_drop_def rbind_eq_Ret rret_def Let_def dest!: tcp_close_state)
qed

section \<open>Input\<close>

lemma trim_left_state:
  assumes "trim_left cfg ti fl t = Ret (ac, t')" shows "t_state (tp t') = t_state (tp t)"
proof -
  obtain ti1 fl1 d where d: "(if TH_SYN \<in> fl
      then (ti\<lparr>ti_seq := ti_seq ti + 1, ti_urp := (if ti_urp ti > 1 then ti_urp ti - 1 else ti_urp ti)\<rparr>,
            fl - (if ti_urp ti > 1 then {TH_SYN} else {TH_SYN, TH_URG}), sint (rcv_nxt (tp t) - ti_seq ti) - 1)
      else (ti, fl, sint (rcv_nxt (tp t) - ti_seq ti))) = (ti1, fl1, d)" by (metis surj_pair)
  define dup where "dup = (d > ti_len ti1 \<or> d = ti_len ti1 \<and> TH_FIN \<notin> fl1)"
  define t1 where "t1 = (if dup then bump rcvdupbyte (of_int (ti_len ti1)) (bump rcvduppack 1 t)
      else bump rcvpartdupbyte (of_int d) (bump rcvpartduppack 1 t))"
  obtain e fl2 t2 where t2: "(if dup then (ti_len ti1, fl1 - {TH_FIN}, updtp (\<lambda>p. p\<lparr>t_flags := insert TF_ACKNOW (t_flags p)\<rparr>) t1)
      else (d, fl1, t1)) = (e, fl2, t2)" by (metis surj_pair)
  have st: "t_state (tp t1) = t_state (tp t)" "t_state (tp t2) = t_state (tp t)" using t2 by (auto simp: t1_def split: if_splits)
  show ?thesis using assms st unfolding trim_left_def Let_def d prod.case dup_def[symmetric] t1_def[symmetric] t2
    by (fastforce split: if_splits)
qed

lemma after_close_state: "after_close cfg ti fl t = Some (Ret (ac, t')) \<Longrightarrow> t_state (tp t') = t_state (tp t)"
  by (auto simp: after_close_def rbind_eq_Ret rret_def dest!: tcp_close_state split: if_splits)

lemma trim_right_state: "trim_right cfg ti fl t = Some (Ret (ac, t')) \<Longrightarrow> t_state (tp t') = t_state (tp t)"
  by (auto simp: trim_right_def rbind_eq_Ret rret_def Let_def dest!: tcp_close_state split: if_splits)

lemma rst_input_arcs: "rst_input cfg ti fl t = Some (Ret (ac, t')) \<Longrightarrow> arcs t t'"
  by (cases "t_state (tp t)")
    (auto simp: rst_input_def rbind_eq_Ret rret_def Let_def dest!: tcp_close_state intro: arcs_closed)

lemma fast_rexmt_state: "fast_rexmt cfg ti t = Some (Ret t') \<Longrightarrow> t_state (tp t') = t_state (tp t)"
  by (auto simp: fast_rexmt_def rbind_eq_Ret rret_def Let_def set_timer_def dest!: output_quiet_state split: if_splits)

lemma dup_ack_state: "dup_ack cfg ti fl t = Some (Ret (ac, t')) \<Longrightarrow> t_state (tp t') = t_state (tp t)"
  by (auto simp: dup_ack_def rbind_eq_Ret rret_def Let_def dest!: output_quiet_state fast_rexmt_state split: if_splits)

lemma fin_acked_arcs: "fin_acked cfg f need ti fl t = Some (Ret (ac, t')) \<Longrightarrow> arcs t t'"
  by (cases "t_state (tp t)")
    (auto simp: fin_acked_def rbind_eq_Ret rret_def Let_def set_timer_def tcp_canceltimers_def arcs_def arc_stars dest!: tcp_close_state
      split: if_splits)

lemma tcp_xmit_timer_state [simp]: "t_state (tp (tcp_xmit_timer t)) = t_state (tp t)"
  by (simp add: tcp_xmit_timer_def Let_def)

lemma wakeup_snd_tp [simp]: "tp (wakeup_snd t) = tp t"
  by (simp add: wakeup_snd_def)

lemma open_cwnd_state [simp]: "t_state (open_cwnd p) = t_state p"
  by (simp add: open_cwnd_def Let_def)

lemma drop_snd_tp: "drop_snd n t = Ret t' \<Longrightarrow> tp t' = tp t"
  by (auto simp: drop_snd_def)

lemma new_ack_arcs:
  assumes "new_ack cfg ti fl t = Some (Ret (ac, t'))" shows "arcs t t'"
  using assms unfolding new_ack_def Let_def arcs_def
  by (auto simp: rbind_eq_Ret rret_def arcs_def set_timer_def dest!: drop_snd_tp fin_acked_arcs split: if_splits)

lemma reass_present_state: "reass_present t = (fl, t') \<Longrightarrow> t_state (tp t') = t_state (tp t)"
  by (auto simp: reass_present_def split: if_splits list.splits prod.splits)

lemma tcp_reass_state: "tcp_reass ti t = Ret (fl, t') \<Longrightarrow> t_state (tp t') = t_state (tp t)"
  by (auto simp: tcp_reass_def reass_insert_def Let_def split: option.splits if_splits dest!: reass_present_state)

lemma TCP_REASS_state: "TCP_REASS ti t = Ret (fl, t') \<Longrightarrow> t_state (tp t') = t_state (tp t)"
  by (auto simp: TCP_REASS_def Let_def split: if_splits prod.splits dest!: tcp_reass_state)

lemma ack_input_arcs:
  assumes "ack_input cfg ti fl t = Some (Ret (ac, t'))" shows "arcs t t'"
proof -
  have p: "arcs u t'" if "(if SEQ_LEQ (ti_ack ti) (snd_una (tp u)) then dup_ack cfg ti fl u else new_ack cfg ti fl u) = Some (Ret (ac, t'))" for u
    using that by (auto split: if_splits dest: dup_ack_state new_ack_arcs)
  show ?thesis
  proof (cases "t_state (tp t) = TCPS_SYN_RECEIVED")
    case False
    then show ?thesis using assms p by (auto simp: ack_input_def rret_def split: if_splits)
  next
    case True
    have q: "arcs t t'" if "t_state (tp b) = TCPS_ESTABLISHED" and "dup_ack cfg ti fl (updtp g b) = Some (Ret (ac, t')) \<or> new_ack cfg ti fl (updtp g b) = Some (Ret (ac, t'))"
        and "\<And>p. t_state (g p) = t_state p" for b g
    proof -
      have "arcs (updtp g b) t'" using that(2) dup_ack_state new_ack_arcs by auto
      then show ?thesis using that(1,3) True by (auto simp: arcs_def intro: converse_rtranclp_into_rtranclp tcp_arc.intros)
    qed
    show ?thesis using assms True
      by (auto simp: ack_input_def rbind_eq_Ret rret_def run_so_def Let_def split: if_splits dest!: tcp_reass_state intro!: q)
  qed
qed

lemma window_update_state: "window_update ti fl need t = (need', t') \<Longrightarrow> t_state (tp t') = t_state (tp t)"
  by (auto simp: window_update_def Let_def split: if_splits)

lemma urg_input_state: "urg_input ti fl t = Ret (ti', fl', t') \<Longrightarrow> t_state (tp t') = t_state (tp t)"
  by (auto simp: urg_input_def urg_mark_def tcp_pulloutofband_def Let_def split: if_splits option.splits)

lemma data_input_state: "data_input ti fl t = Ret (fl', t') \<Longrightarrow> t_state (tp t') = t_state (tp t)"
  by (auto simp: data_input_def dest: TCP_REASS_state split: if_splits)

lemma fin_input_arcs: "arcs t (fin_input fl t)"
  by (cases "t_state (tp t)") (auto simp: fin_input_def arcs_def arc_stars set_timer_def tcp_canceltimers_def TCPS_HAVERCVDFIN_def state_ord Let_def)

lemma step6_arcs:
  assumes "step6 cfg ti fl need t = Some (Ret t')" shows "arcs t t'"
proof -
  obtain need1 t1 ti1 fl1 t2 fl2 t3 where s: "window_update ti fl need t = (need1, t1)" "urg_input ti fl t1 = Ret (ti1, fl1, t2)"
      "data_input ti1 fl1 t2 = Ret (fl2, t3)" "t' = fin_input fl2 t3 \<or> output_quiet cfg (fin_input fl2 t3) = Some (Ret t')"
    using assms by (auto simp: step6_def rbind_eq_Ret rret_def Let_def split: prod.splits if_splits)
  have "t_state (tp t3) = t_state (tp t)" using window_update_state[OF s(1)] urg_input_state[OF s(2)] data_input_state[OF s(3)] by simp
  moreover have "arcs t3 t'" using s(4) fin_input_arcs[of t3 fl2] output_quiet_state by (auto simp: arcs_def)
  ultimately show ?thesis by (simp add: arcs_def)
qed

lemma andthen_arcs:
  assumes "andthen r f = Some (Ret (ac, t'))" and "\<And>ac t1. r = Some (Ret (ac, t1)) \<Longrightarrow> arcs t t1"
    and "\<And>ti fl need t1. f ti fl need t1 = Some (Ret (ac, t')) \<Longrightarrow> arcs t1 t'"
  shows "arcs t t'"
proof -
  obtain ac1 t1 where r: "r = Some (Ret (ac1, t1))" using assms(1) by (auto simp: andthen_def rbind_eq_Ret)
  note a = assms(2)[OF r]
  show ?thesis using assms(1,3) r a arcs_trans[OF a] by (cases ac1) (auto simp: andthen_def rret_def)
qed

lemma sync_input_arcs:
  assumes "sync_input cfg ti fl t = Some (Ret (ac, t'))" shows "arcs t t'"
  using assms unfolding sync_input_def
  by (elim andthen_arcs)
    (auto dest: trim_left_state after_close_state trim_right_state ack_input_arcs rst_input_arcs tcp_drop_arcs
      simp: rbind_eq_Ret rret_def split: if_splits)

section \<open>User close and the end of input\<close>

lemma tcp_usrclosed_arcs:
  assumes "tcp_usrclosed cfg t = Some (Ret t')" shows "arcs t t'"
  using assms by (cases "t_state (tp t)")
    (auto simp: tcp_usrclosed_def rbind_eq_Ret rret_def arcs_def arc_stars dest!: tcp_close_state)

lemma tcp_respond_tp [simp]: "tp (tcp_respond cfg l m a s fl t) = tp t"
  by (auto simp: tcp_respond_def ip_output_def split: list.splits option.splits prod.splits)

lemma finish_arcs:
  assumes "finish cfg om False (ac, t) = Some (Ret t')" shows "arcs t t'"
proof (cases "\<exists>ti fl need. ac = Continue ti fl need")
  case True
  then show ?thesis using assms step6_arcs by (auto simp: finish_def)
next
  case False
  then have "t_state (tp t') = t_state (tp t)"
    using assms by (cases ac) (auto simp: finish_def drop_segment_def soabort_conn_def reset_peer_def rret_def
      split: if_splits dest!: output_quiet_state)
  then show ?thesis by (rule arcs_same)
qed



end
