(* ===== verification/Tcp_Timer.thy ===== *)
theory Tcp_Timer
  imports Tcp_Subr
begin

text \<open>
  Round trip estimation and retransmission backoff: the arithmetic of \<^verbatim>\<open>tcp_xmit_timer\<close>
  (\<^verbatim>\<open>sys/netinet/tcp_input.c\<close>) and of the retransmission timer (\<^verbatim>\<open>sys/netinet/tcp_timer.c\<close>) in 16-bit \<^verbatim>\<open>short\<close>s.
\<close>

section \<open>Values in range\<close>

definition clamp :: "int \<Rightarrow> int \<Rightarrow> int \<Rightarrow> int" where
  "clamp lo hi v = (if v < lo then lo else if v > hi then hi else v)"

lemma clamp_range: "lo \<le> hi \<Longrightarrow> lo \<le> clamp lo hi v \<and> clamp lo hi v \<le> hi"
  by (simp add: clamp_def)

lemma RANGESET_range:
  assumes "- (2 ^ 15) \<le> lo" and "lo \<le> hi" and "hi < 2 ^ 15"
  shows "lo \<le> TCPT_RANGESET v lo hi" and "TCPT_RANGESET v lo hi \<le> hi"
  using assms by (auto simp: TCPT_RANGESET_def Let_def to_short_id)

lemma RANGESET_exact:
  assumes "- (2 ^ 15) \<le> lo" and "lo \<le> hi" and "hi < 2 ^ 15" and "- (2 ^ 15) \<le> v" and "v < 2 ^ 15"
  shows "TCPT_RANGESET v lo hi = clamp lo hi v"
  using assms by (auto simp: TCPT_RANGESET_def Let_def to_short_id clamp_def)

section \<open>The round trip estimator\<close>

text \<open>Smoothed round trip time, in eighths of a tick, and smoothed deviation, in quarters, after round trips of at most
  \<open>R\<close> ticks.\<close>

definition estimate :: "int \<Rightarrow> tcpcb \<Rightarrow> bool" where
  "estimate R p = ((t_srtt p = 0 \<or> 1 \<le> t_srtt p \<and> t_srtt p \<le> 8 * R) \<and> 1 \<le> t_rttvar p \<and> t_rttvar p \<le> 4 * R)"

definition smooth :: "int \<Rightarrow> int \<Rightarrow> int \<Rightarrow> int \<times> int" where
  "smooth m srtt var =
     (if srtt = 0 then (8 * m, 2 * m)
      else let d = m - 1 - srtt div 8 in (max 1 (srtt + d), max 1 (var + (\<bar>d\<bar> - var div 4))))"

lemma smooth_range:
  assumes "1 \<le> m" and "m \<le> R" and "srtt = 0 \<or> 1 \<le> srtt \<and> srtt \<le> 8 * R" and "1 \<le> var" and "var \<le> 4 * R"
    and "smooth m srtt var = (srtt', var')"
  shows "1 \<le> srtt' \<and> srtt' \<le> 8 * R \<and> 1 \<le> var' \<and> var' \<le> 4 * R"
proof (cases "srtt = 0")
  case True
  then show ?thesis using assms by (auto simp: smooth_def)
next
  case False
  define k j i n where "k = srtt div 8" and "j = srtt mod 8" and "i = var div 4" and "n = var mod 4"
  have s: "srtt = 8 * k + j" "0 \<le> j" "j \<le> 7" "var = 4 * i + n" "0 \<le> n" "n \<le> 3" by (auto simp: k_def j_def i_def n_def)
  have k: "0 \<le> k" "k \<le> R" "0 \<le> i" "i \<le> R" using s assms(3-5) False by auto
  have v: "srtt' = max 1 (srtt + (m - 1 - k))" "var' = max 1 (var + (\<bar>m - 1 - k\<bar> - i))" using assms(6) False by (auto simp: smooth_def Let_def k_def i_def)
  have "srtt + (m - 1 - k) \<le> 8 * R" using s assms(2,3) k(2) False by (cases "k = R") auto
  moreover have "\<bar>m - 1 - k\<bar> \<le> R" using assms(1,2) k by auto
  then have "var + (\<bar>m - 1 - k\<bar> - i) \<le> 4 * R" using s(4-6) assms(5) k(4) by (cases "i = R") auto
  ultimately show ?thesis using v assms(1,2) by auto
qed

lemma xmit_timer_rxtcur:
  "t_rxtcur (tp (tcp_xmit_timer t)) = TCPT_RANGESET (TCP_REXMTVAL (tp (tcp_xmit_timer t))) (uint (t_rttmin (tp t))) TCPTV_REXMTMAX"
  by (cases "t_srtt (tp t) = 0") (simp_all add: tcp_xmit_timer_def TCP_REXMTVAL_def Let_def)

lemma xmit_timer_smooth:
  assumes "estimate R (tp t)" and "1 \<le> t_rtt (tp t)" and "t_rtt (tp t) \<le> R" and "R \<le> 4095" and "uint (t_rttmin (tp t)) \<le> TCPTV_REXMTMAX"
  shows "(t_srtt (tp (tcp_xmit_timer t)), t_rttvar (tp (tcp_xmit_timer t))) = smooth (t_rtt (tp t)) (t_srtt (tp t)) (t_rttvar (tp t))"
    and "estimate R (tp (tcp_xmit_timer t)) \<and> t_srtt (tp (tcp_xmit_timer t)) \<noteq> 0"
    and "t_rxtcur (tp (tcp_xmit_timer t)) = clamp (uint (t_rttmin (tp t))) TCPTV_REXMTMAX (TCP_REXMTVAL (tp (tcp_xmit_timer t)))"
proof -
  let ?p = "tp t" and ?q = "tp (tcp_xmit_timer t)"
  define m where "m = t_rtt ?p"
  obtain srtt var where sv: "smooth m (t_srtt ?p) (t_rttvar ?p) = (srtt, var)" by fastforce
  have e: "t_srtt ?p = 0 \<or> 1 \<le> t_srtt ?p \<and> t_srtt ?p \<le> 8 * R" "1 \<le> t_rttvar ?p" "t_rttvar ?p \<le> 4 * R" using assms(1) by (auto simp: estimate_def)
  have r: "1 \<le> srtt \<and> srtt \<le> 8 * R \<and> 1 \<le> var \<and> var \<le> 4 * R"
    by (rule smooth_range[OF _ _ e sv]) (use assms(2,3) in \<open>simp_all add: m_def\<close>)
  have R: "1 \<le> R" "8 * R < 32768" using assms(2-4) by auto
  have q: "t_srtt ?q = srtt" "t_rttvar ?q = var"
  proof -
    have "t_srtt ?q = srtt \<and> t_rttvar ?q = var"
    proof (cases "t_srtt ?p = 0")
      case True
      then show ?thesis using sv r R by (auto simp: tcp_xmit_timer_def Let_def smooth_def m_def to_short_id algebra_simps)
    next
      case False
      define d where "d = m - 1 - t_srtt ?p div 8"
      have k: "0 \<le> t_srtt ?p div 8" "t_srtt ?p div 8 \<le> R" "0 \<le> t_rttvar ?p div 4" "t_rttvar ?p div 4 \<le> R" using e False by auto
      have d: "- R \<le> d" "d \<le> R" using k assms(2,3) by (auto simp: d_def m_def)
      have v: "srtt = max 1 (t_srtt ?p + d)" "var = max 1 (t_rttvar ?p + (\<bar>d\<bar> - t_rttvar ?p div 4))" using sv False by (auto simp: smooth_def Let_def d_def)
      have s: "to_short d = d" "to_short (- d) = - d" "to_short (t_srtt ?p + d) = t_srtt ?p + d"
          "to_short (\<bar>d\<bar> - t_rttvar ?p div 4) = \<bar>d\<bar> - t_rttvar ?p div 4"
          "to_short (t_rttvar ?p + (\<bar>d\<bar> - t_rttvar ?p div 4)) = t_rttvar ?p + (\<bar>d\<bar> - t_rttvar ?p div 4)"
      proof -
        define ab w u where "ab = \<bar>d\<bar>" and "w = t_rttvar ?p div 4" and "u = t_srtt ?p"
        have b: "0 \<le> ab" "ab \<le> R" "0 \<le> w" "w \<le> R" "1 \<le> u" "u \<le> 8 * R" "u + d \<le> 8 * R" "t_rttvar ?p + (ab - w) \<le> 4 * R"
          using d k e False r v by (auto simp: ab_def w_def u_def)
        show "to_short d = d" "to_short (- d) = - d" "to_short (t_srtt ?p + d) = t_srtt ?p + d"
          "to_short (\<bar>d\<bar> - t_rttvar ?p div 4) = \<bar>d\<bar> - t_rttvar ?p div 4"
          "to_short (t_rttvar ?p + (\<bar>d\<bar> - t_rttvar ?p div 4)) = t_rttvar ?p + (\<bar>d\<bar> - t_rttvar ?p div 4)"
          unfolding ab_def[symmetric] w_def[symmetric] u_def[symmetric] by (rule to_short_id; use b d R e(2,3) in simp)+
      qed
      have a: "(if d < 0 then - d else d) = \<bar>d\<bar>" by simp
      show ?thesis using False v s a by (cases "d < 0") (simp_all add: tcp_xmit_timer_def Let_def flip: d_def m_def)
    qed
    then show "t_srtt ?q = srtt" "t_rttvar ?q = var" by auto
  qed
  show "(t_srtt ?q, t_rttvar ?q) = smooth (t_rtt ?p) (t_srtt ?p) (t_rttvar ?p)" using q sv by (simp add: m_def)
  show "estimate R ?q \<and> t_srtt ?q \<noteq> 0" using q r by (auto simp: estimate_def)
  have "0 \<le> TCP_REXMTVAL ?q" "TCP_REXMTVAL ?q < 2 ^ 15" using q r R by (auto simp: TCP_REXMTVAL_def)
  then have "TCPT_RANGESET (TCP_REXMTVAL ?q) (uint (t_rttmin ?p)) TCPTV_REXMTMAX = clamp (uint (t_rttmin ?p)) TCPTV_REXMTMAX (TCP_REXMTVAL ?q)"
    using assms(5) by (intro RANGESET_exact) (auto simp: TCPTV_REXMTMAX_def PR_SLOWHZ_def intro: order_trans[OF _ uint_ge_0])
  then show "t_rxtcur ?q = clamp (uint (t_rttmin ?p)) TCPTV_REXMTMAX (TCP_REXMTVAL ?q)" unfolding xmit_timer_rxtcur .
qed

text \<open>A segment was timed at \<open>m\<close> ticks and is acknowledged.\<close>

definition measured :: "int \<Rightarrow> tcp \<Rightarrow> tcp" where
  "measured m t = tcp_xmit_timer (updtp (\<lambda>p. p\<lparr>t_rtt := m\<rparr>) t)"

lemma measured_rttmin [simp]: "t_rttmin (tp (measured m t)) = t_rttmin (tp t)"
  by (simp add: measured_def tcp_xmit_timer_def Let_def)

text \<open>(C34) The round trip estimator does not overflow its shorts.  Whatever round trips of 1 to \<open>R\<close> ticks are measured
  (\<open>R\<close> up to 4095 ticks, 34 minutes), the smoothed time and deviation are exactly those of Jacobson's integer
  recurrence, the time stays within \<open>8 R\<close> and the deviation within \<open>4 R\<close> in their fixed-point scales, and the
  retransmission interval is the sum of both brought between \<^verbatim>\<open>t_rttmin\<close> and \<^verbatim>\<open>TCPTV_REXMTMAX\<close>.\<close>

theorem rtt_estimator:
  assumes "estimate R (tp t)" and "\<forall>m \<in> set ms. 1 \<le> m \<and> m \<le> R" and "R \<le> 4095" and "uint (t_rttmin (tp t)) \<le> TCPTV_REXMTMAX"
    and "t' = fold measured ms t"
  shows "(t_srtt (tp t'), t_rttvar (tp t')) = fold (\<lambda>m (srtt, var). smooth m srtt var) ms (t_srtt (tp t), t_rttvar (tp t))
    \<and> estimate R (tp t')
    \<and> (ms \<noteq> [] \<longrightarrow> t_rxtcur (tp t') = clamp (uint (t_rttmin (tp t))) TCPTV_REXMTMAX (TCP_REXMTVAL (tp t'))
        \<and> uint (t_rttmin (tp t)) \<le> t_rxtcur (tp t') \<and> t_rxtcur (tp t') \<le> TCPTV_REXMTMAX)"
  using assms
proof (induction ms arbitrary: t' rule: rev_induct)
  case (snoc m ms)
  let ?u = "fold measured ms t"
  have ih: "(t_srtt (tp ?u), t_rttvar (tp ?u)) = fold (\<lambda>m (srtt, var). smooth m srtt var) ms (t_srtt (tp t), t_rttvar (tp t))"
      "estimate R (tp ?u)" using snoc.IH[OF assms(1) _ assms(3,4) refl] snoc.prems(2) by auto
  have rm: "t_rttmin (tp ?u) = t_rttmin (tp t)" by (induction ms rule: rev_induct) simp_all
  let ?v = "updtp (\<lambda>p. p\<lparr>t_rtt := m\<rparr>) ?u"
  have "estimate R (tp ?v)" "1 \<le> t_rtt (tp ?v)" "t_rtt (tp ?v) \<le> R" "uint (t_rttmin (tp ?v)) \<le> TCPTV_REXMTMAX"
    using ih(2) snoc.prems(2,4) rm by (simp_all add: estimate_def)
  note x = xmit_timer_smooth[OF this(1-3) assms(3) this(4)]
  have t': "t' = tcp_xmit_timer ?v" using snoc.prems(5) by (simp add: measured_def[of m])
  have "(t_srtt (tp t'), t_rttvar (tp t')) = smooth m (t_srtt (tp ?u)) (t_rttvar (tp ?u))" using x(1) t' by simp
  then show ?case using x(2,3) t' rm ih(1)[symmetric] clamp_range[OF assms(4)] by auto
qed simp

section \<open>Backing off\<close>

lemma backoff_range: "0 \<le> i \<Longrightarrow> i \<le> TCP_MAXRXTSHIFT \<Longrightarrow> tcp_backoff i = 2 ^ nat (min i 6)"
proof -
  assume "0 \<le> i" "i \<le> TCP_MAXRXTSHIFT"
  then have "i \<in> {0 .. 12}" by (simp add: TCP_MAXRXTSHIFT_def)
  then have "i \<in> set [0, 1, 2, 3, 4, 5, 6, 7, 8, 9, 10, 11, 12]" by simp presburger
  then show ?thesis by (auto simp: tcp_backoff_def)
qed

lemma rexmt_backoff_ret: "t_maxseg (tp t) \<noteq> 0 \<Longrightarrow> \<exists>t'. rexmt_backoff t = Ret t'"
  unfolding rexmt_backoff_def Let_def by (simp add: set_timer_def)

lemma rexmt_backoff_fields:
  assumes "rexmt_backoff t = Ret t'"
  shows "t_maxseg (tp t) \<noteq> 0" and "t_timer (tp t') TCPT_REXMT = t_rxtcur (tp t')" and "t_maxseg (tp t') = t_maxseg (tp t)"
    and "snd_cwnd (tp t') = t_maxseg (tp t)" and "snd_nxt (tp t') = snd_una (tp t)" and "t_rtt (tp t') = 0"
    and "t_rxtcur (tp t') = TCPT_RANGESET (TCP_REXMTVAL (tp t) * tcp_backoff (t_rxtshift (tp t))) (uint (t_rttmin (tp t))) TCPTV_REXMTMAX"
    and "snd_ssthresh (tp t') = of_int (max 2 (min (uint (snd_wnd (tp t))) (uint (snd_cwnd (tp t))) div 2 div uint (t_maxseg (tp t))) * uint (t_maxseg (tp t)))"
proof -
  have u: "u_min (uint (snd_wnd (tp t))) (uint (snd_cwnd (tp t))) = min (uint (snd_wnd (tp t))) (uint (snd_cwnd (tp t)))"
    using uint_lt2p[of "snd_wnd (tp t)"] uint_lt2p[of "snd_cwnd (tp t)"] by (intro u_min_nonneg) simp_all
  have m: "(if w < 2 then 2 else w) = max 2 w" for w :: int by simp
  show "t_maxseg (tp t) \<noteq> 0" "t_timer (tp t') TCPT_REXMT = t_rxtcur (tp t')" "t_maxseg (tp t') = t_maxseg (tp t)"
      "snd_cwnd (tp t') = t_maxseg (tp t)" "snd_nxt (tp t') = snd_una (tp t)" "t_rtt (tp t') = 0"
      "t_rxtcur (tp t') = TCPT_RANGESET (TCP_REXMTVAL (tp t) * tcp_backoff (t_rxtshift (tp t))) (uint (t_rttmin (tp t))) TCPTV_REXMTMAX"
    using assms by (auto simp: rexmt_backoff_def Let_def set_timer_def split: if_splits)
  show "snd_ssthresh (tp t') = of_int (max 2 (min (uint (snd_wnd (tp t))) (uint (snd_cwnd (tp t))) div 2 div uint (t_maxseg (tp t))) * uint (t_maxseg (tp t)))"
    using assms unfolding rexmt_backoff_def Let_def by (auto simp: set_timer_def u m split: if_splits)
qed

text \<open>(C35) The retransmission timer.  When the \<open>i\<close>-th timeout (of twelve) finds an interval of \<open>v\<close> ticks, small enough
  for the product to fit a \<^verbatim>\<open>short\<close>, the next interval is \<open>v\<close> doubled each time up to the sixth, brought between
  \<^verbatim>\<open>t_rttmin\<close> and \<^verbatim>\<open>TCPTV_REXMTMAX\<close>, and is what the timer is set to; sending starts again at the oldest
  unacknowledged byte with a congestion window of one segment, and the slow start threshold is half the window in
  force, in whole segments, at least two.  Whatever \<open>v\<close> is, the interval stays within its bounds.\<close>

theorem rexmt_backoff_bounds:
  assumes "rexmt_backoff t = Ret t'" and "0 \<le> t_rxtshift (tp t)" and "t_rxtshift (tp t) \<le> TCP_MAXRXTSHIFT"
    and "uint (t_rttmin (tp t)) \<le> TCPTV_REXMTMAX" and "uint (t_maxseg (tp t)) < 2 ^ 15"
  shows "uint (t_rttmin (tp t)) \<le> t_rxtcur (tp t') \<and> t_rxtcur (tp t') \<le> TCPTV_REXMTMAX \<and> t_timer (tp t') TCPT_REXMT = t_rxtcur (tp t')
    \<and> (0 \<le> TCP_REXMTVAL (tp t) \<and> TCP_REXMTVAL (tp t) < 512 \<longrightarrow> t_rxtcur (tp t')
        = clamp (uint (t_rttmin (tp t))) TCPTV_REXMTMAX (TCP_REXMTVAL (tp t) * 2 ^ nat (min (t_rxtshift (tp t)) 6)))
    \<and> snd_nxt (tp t') = snd_una (tp t) \<and> snd_cwnd (tp t') = t_maxseg (tp t)
    \<and> uint (snd_ssthresh (tp t'))
        = max 2 (min (uint (snd_wnd (tp t))) (uint (snd_cwnd (tp t))) div 2 div uint (t_maxseg (tp t))) * uint (t_maxseg (tp t))"
proof -
  note f = rexmt_backoff_fields[OF assms(1)] and b = backoff_range[OF assms(2,3)]
  have lo: "- (2 ^ 15) \<le> uint (t_rttmin (tp t))" "TCPTV_REXMTMAX < 2 ^ 15" using uint_ge_0[of "t_rttmin (tp t)"]
    by (simp_all add: TCPTV_REXMTMAX_def PR_SLOWHZ_def order_trans[of _ 0])
  have "t_rxtcur (tp t') = clamp (uint (t_rttmin (tp t))) TCPTV_REXMTMAX (TCP_REXMTVAL (tp t) * 2 ^ nat (min (t_rxtshift (tp t)) 6))"
    if v: "0 \<le> TCP_REXMTVAL (tp t)" "TCP_REXMTVAL (tp t) < 512"
  proof -
    have "(2 :: int) ^ nat (min (t_rxtshift (tp t)) 6) \<le> 2 ^ 6" by (intro power_increasing) auto
    then have "TCP_REXMTVAL (tp t) * 2 ^ nat (min (t_rxtshift (tp t)) 6) \<le> 511 * 64" using v by (intro mult_mono) auto
    then show ?thesis unfolding f(7) b using v by (intro RANGESET_exact[OF lo(1) assms(4) lo(2)]) (auto intro: order_trans[of _ 0])
  qed
  moreover have "uint (snd_ssthresh (tp t'))
        = max 2 (min (uint (snd_wnd (tp t))) (uint (snd_cwnd (tp t))) div 2 div uint (t_maxseg (tp t))) * uint (t_maxseg (tp t))"
  proof -
    define w mss where "w = min (uint (snd_wnd (tp t))) (uint (snd_cwnd (tp t)))" and "mss = uint (t_maxseg (tp t))"
    have w: "0 \<le> w" "w < 65536" using uint_lt2p[of "snd_wnd (tp t)"] by (auto simp: w_def)
    have mss: "0 < mss" "mss < 32768" using f(1) assms(5) uint_ge_0[of "t_maxseg (tp t)"] by (auto simp: mss_def uint_0_iff less_le)
    have "w div 2 div mss * mss \<le> w div 2" using pos_mod_sign[OF mss(1), of "w div 2"] by (simp add: minus_mod_eq_div_mult[symmetric])
    then have "max 2 (w div 2 div mss) * mss < 65536" "0 \<le> max 2 (w div 2 div mss) * mss" using w mss by (auto simp: max_def)
    then have "uint (of_int (max 2 (w div 2 div mss) * mss) :: u16) = max 2 (w div 2 div mss) * mss"
      by (simp add: uint_word_of_int take_bit_int_eq_self del: of_int_mult)
    then show ?thesis unfolding f(8) w_def[symmetric] mss_def[symmetric] .
  qed
  ultimately show ?thesis using f RANGESET_range[OF lo(1) assms(4) lo(2)] by simp
qed

definition ex_timed :: tcp where
  "ex_timed = updtp (\<lambda>p. p\<lparr>t_srtt := 16, t_rttvar := 8, t_rttmin := 2, t_rxtshift := 3, t_maxseg := 512, snd_wnd := 8192, snd_cwnd := 4096\<rparr>)
     \<lparr>tp = zero_tcpcb, inp_id = 0, tab = \<lparr>pcb = (\<lambda>_. zero_pcb), pcbq = [0], head_lport = 1025, nextpcb = 1, rt_events = []\<rparr>, tcbs = (\<lambda>_. zero_tcpcb),
      stab = \<lparr>sock = (\<lambda>_. ex_so None None None 0 0), events = [], pfind_ok = (\<lambda>_. False), so_freed = {}\<rparr>,
      mbs = ex_mbsys, tcp_iss = 1, tcpstat = (\<lambda>_. 0), sent = [], ip_answers = [], so_mallocs = [], tcp_last_inpcb = None\<rparr>"

theorem rtt_estimator_witness:
  "estimate 100 (tp (fold measured [4, 2] ex_timed))
     \<and> 2 \<le> t_rxtcur (tp (fold measured [4, 2] ex_timed))"
proof -
  define t' where t': "t' = fold measured [4, 2] ex_timed"
  have e: "estimate 100 (tp ex_timed)" "t_rttmin (tp ex_timed) = 2" by (simp_all add: estimate_def ex_timed_def)
  have "\<forall>m \<in> set [4, 2]. 1 \<le> m \<and> m \<le> (100 :: int)" "(100 :: int) \<le> 4095" "uint (t_rttmin (tp ex_timed)) \<le> TCPTV_REXMTMAX"
    unfolding e(2) by (simp_all add: TCPTV_REXMTMAX_def PR_SLOWHZ_def)
  note r = rtt_estimator[OF e(1) this t']
  have "estimate 100 (tp t')" "uint (t_rttmin (tp ex_timed)) \<le> t_rxtcur (tp t')" using r by blast+
  then have "estimate 100 (tp t') \<and> 2 \<le> t_rxtcur (tp t')" unfolding e(2) by simp
  then show ?thesis unfolding t' .
qed

theorem rexmt_backoff_bounds_witness:
  "\<exists>t'. rexmt_backoff ex_timed = Ret t' \<and> t_rxtcur (tp t') = 80 \<and> snd_cwnd (tp t') = 512 \<and> uint (snd_ssthresh (tp t')) = 2048"
proof -
  have e: "t_rttmin (tp ex_timed) = 2" "t_rxtshift (tp ex_timed) = 3" "t_maxseg (tp ex_timed) = 512" "snd_wnd (tp ex_timed) = 8192"
    "snd_cwnd (tp ex_timed) = 4096" "TCP_REXMTVAL (tp ex_timed) = 10" by (simp_all add: ex_timed_def TCP_REXMTVAL_def)
  then obtain t' where t': "rexmt_backoff ex_timed = Ret t'" using rexmt_backoff_ret[of ex_timed] by auto
  show ?thesis using rexmt_backoff_bounds[OF t'] t' e by (simp add: TCPTV_REXMTMAX_def PR_SLOWHZ_def TCP_MAXRXTSHIFT_def clamp_def)
qed

end
