(* ===== verification/Clist.thy ===== *)
theory Clist
  imports Kernel_Prelude "HOL-Library.Sublist"
begin

text \<open>
  Character lists, the queues of the terminal drivers: \<^verbatim>\<open>sys/kern/tty_subr.c\<close>, with \<^verbatim>\<open>struct cblock\<close> of
  \<^verbatim>\<open>sys/sys/clist.h\<close>, \<^verbatim>\<open>struct clist\<close> of \<^verbatim>\<open>sys/sys/tty.h\<close> and \<^verbatim>\<open>cinit\<close> of \<^verbatim>\<open>sys/kern/init_main.c\<close>.  The code finds the
  block of a character by rounding the character's address, so addresses are kept: a pointer is a natural
  number, 0 is \<^verbatim>\<open>NULL\<close>, the block at \<open>b\<close> occupies \<open>CBLOCK\<close> bytes from \<open>b\<close>.  Masking of interrupts (\<^verbatim>\<open>spltty\<close>) is not
  modelled; \<^verbatim>\<open>getw\<close> and \<^verbatim>\<open>putw\<close> are not compiled (\<^verbatim>\<open>#ifdef unneeded\<close>).
\<close>

unbundle bit_operations_syntax

section \<open>Blocks and lists\<close>

definition CBLOCK :: nat where
  "CBLOCK = 64"

definition CBQSIZE :: nat where
  "CBQSIZE = CBLOCK div 8"

definition CBSIZE :: nat where
  "CBSIZE = CBLOCK - 4 - CBQSIZE"

definition TTY_QUOTE :: int where
  "TTY_QUOTE = 256"

text \<open>\<open>c_info p\<close> and \<open>c_quote p\<close> are the character at address \<open>p\<close> and its bit in the quote array of its block;
  \<open>wakeups\<close> counts the calls of \<^verbatim>\<open>wakeup(&cwaiting)\<close>.\<close>

record clsys =
  c_next :: "nat \<Rightarrow> nat"
  c_quote :: "nat \<Rightarrow> bool"
  c_info :: "nat \<Rightarrow> byte"
  cfreelist :: nat
  cfreecount :: int
  cwaiting :: bool
  wakeups :: nat

record clist =
  c_cc :: int
  c_cf :: nat
  c_cl :: nat

definition c_round :: "nat \<Rightarrow> nat" where
  "c_round p = p mod CBLOCK"

definition c_base :: "nat \<Rightarrow> nat" where
  "c_base p = p - c_round p"

definition first_info :: "nat \<Rightarrow> nat" where
  "first_info bp = bp + (CBLOCK - CBSIZE)"

definition no_chars :: clist where
  "no_chars = \<lparr>c_cc = 0, c_cf = 0, c_cl = 0\<rparr>"

definition push_cblock :: "nat \<Rightarrow> clsys \<Rightarrow> clsys" where
  "push_cblock bp s = s\<lparr>c_next := (c_next s)(bp := cfreelist s), cfreelist := bp, cfreecount := cfreecount s + int CBSIZE\<rparr>"

definition free_cblock :: "nat \<Rightarrow> clsys \<Rightarrow> clsys" where
  "free_cblock bp s = (let s1 = push_cblock bp s in
     if cwaiting s1 then s1\<lparr>wakeups := wakeups s1 + 1, cwaiting := False\<rparr> else s1)"

definition take_cblock :: "clsys \<Rightarrow> nat \<times> clsys" where
  "take_cblock s = (let bp = cfreelist s in
     (bp, s\<lparr>cfreelist := c_next s bp, cfreecount := cfreecount s - int CBSIZE, c_next := (c_next s)(bp := 0)\<rparr>))"

definition zero_quote :: "nat \<Rightarrow> clsys \<Rightarrow> clsys" where
  "zero_quote bp s = s\<lparr>c_quote := (\<lambda>a. c_base a \<noteq> bp \<and> c_quote s a)\<rparr>"

definition quoted :: "int \<Rightarrow> nat \<Rightarrow> clsys \<Rightarrow> int" where
  "quoted c p s = (if c_quote s p then c OR TTY_QUOTE else c)"

text \<open>\<^verbatim>\<open>cinit\<close>: every block of the array from its first aligned address on.\<close>

definition cinit :: "nat \<Rightarrow> nat \<Rightarrow> clsys \<Rightarrow> clsys" where
  "cinit cfree nclist s =
     (let ccp = c_base (cfree + (CBLOCK - 1)); lim = cfree + CBLOCK * (nclist - 1)
      in fold push_cblock (filter (\<lambda>cp. cp < lim) (map (\<lambda>i. ccp + CBLOCK * i) [0 ..< nclist])) s)"

section \<open>Taking characters from the front\<close>

text \<open>Moving \<^verbatim>\<open>c_cf\<close> by \<open>nc\<close> characters within its block, and giving back a block that is used up: the same text in
  \<^verbatim>\<open>getc\<close> and \<^verbatim>\<open>q_to_b\<close>.\<close>

definition advance :: "nat \<Rightarrow> clist \<Rightarrow> clsys \<Rightarrow> clist \<times> clsys" where
  "advance nc q s =
     (let q1 = q\<lparr>c_cf := c_cf q + nc, c_cc := c_cc q - int nc\<rparr> in
      if c_cc q1 \<le> 0 then (q1\<lparr>c_cf := 0, c_cl := 0\<rparr>, free_cblock (c_base (c_cf q1 - 1)) s)
      else if c_round (c_cf q1) = 0
      then let bp = c_cf q1 - CBLOCK in (q1\<lparr>c_cf := first_info (c_next s bp)\<rparr>, free_cblock bp s)
      else (q1, s))"

definition getc :: "clist \<Rightarrow> clsys \<Rightarrow> int \<times> clist \<times> clsys" where
  "getc p s =
     (if c_cc p \<le> 0 then (- 1, no_chars, s)
      else (quoted (uint (c_info s (c_cf p))) (c_cf p) s, advance 1 p s))"

function q_to_b_loop :: "nat \<Rightarrow> clist \<Rightarrow> clsys \<Rightarrow> byte list \<times> clist \<times> clsys" where
  "q_to_b_loop cc q s =
     (if cc = 0 then ([], q, s)
      else let nc = min (min (CBLOCK - c_round (c_cf q)) cc) (nat (c_cc q));
               got = map (c_info s) [c_cf q ..< c_cf q + nc];
               (q1, s1) = advance nc q s
           in if c_cc q - int nc \<le> 0 then (got, q1, s1)
              else let (rest, q2, s2) = q_to_b_loop (cc - nc) q1 s1 in (got @ rest, q2, s2))"
  by pat_completeness auto

termination
  by (relation "measure fst") (auto simp: c_round_def CBLOCK_def min_def split: if_splits)

text \<open>The characters copied; the code returns their number.\<close>

definition q_to_b :: "clist \<Rightarrow> int \<Rightarrow> clsys \<Rightarrow> byte list \<times> clist \<times> clsys" where
  "q_to_b q cc s =
     (if cc \<le> 0 then ([], q, s)
      else if c_cc q \<le> 0 then ([], no_chars, s)
      else q_to_b_loop (nat cc) q s)"

definition ndqb :: "clist \<Rightarrow> int \<Rightarrow> clsys \<Rightarrow> int" where
  "ndqb q flag s =
     (if c_cc q \<le> 0 then - c_cc q
      else let cc = int (c_base (c_cf q + CBSIZE)) - int (c_cf q);
               cc = (if c_cc q < cc then c_cc q else cc)
           in if flag = 0 then cc
              else int (length (takeWhile (\<lambda>p. sint (c_info s p) AND flag = 0) [c_cf q ..< nat (int (c_cf q) + cc)])))"

partial_function (option) ndflush_loop :: "int \<Rightarrow> clist \<Rightarrow> clsys \<Rightarrow> (clist \<times> clsys) option" where
  "ndflush_loop cc q s =
     (if \<not> (cc > 0 \<and> c_cc q \<noteq> 0) then Some (q, s)
      else let bp = c_base (c_cf q);
               en = (if bp = c_base (c_cl q - 1) then c_cl q else bp + CBLOCK);
               rem = int en - int (c_cf q)
           in if cc \<ge> rem
              then ndflush_loop (cc - rem) (q\<lparr>c_cc := c_cc q - rem, c_cf := first_info (c_next s bp)\<rparr>) (free_cblock bp s)
              else let q1 = q\<lparr>c_cc := c_cc q - cc, c_cf := c_cf q + nat cc\<rparr>
                   in Some (q1, if c_cc q1 \<le> 0 then free_cblock bp s else s))"

definition ndflush :: "clist \<Rightarrow> int \<Rightarrow> clsys \<Rightarrow> (clist \<times> clsys) option" where
  "ndflush q cc s =
     (if c_cc q \<le> 0 then Some (q, s)
      else map_option (\<lambda>(q1, s1). (if c_cc q1 \<le> 0 then no_chars else q1, s1)) (ndflush_loop cc q s))"

section \<open>Adding characters at the end\<close>

definition store_char :: "int \<Rightarrow> nat \<Rightarrow> clist \<Rightarrow> clsys \<Rightarrow> int \<times> clist \<times> clsys" where
  "store_char c cp p s = (0, p\<lparr>c_cc := c_cc p + 1, c_cl := cp + 1\<rparr>,
     s\<lparr>c_quote := (if c AND TTY_QUOTE \<noteq> 0 then (c_quote s)(cp := True) else c_quote s), c_info := (c_info s)(cp := of_int c)\<rparr>)"

definition putc :: "int \<Rightarrow> clist \<Rightarrow> clsys \<Rightarrow> int \<times> clist \<times> clsys" where
  "putc c p s =
     (let cp = c_cl p in
      if cp = 0 \<or> c_cc p < 0
      then if cfreelist s = 0 then (- 1, p, s)
           else let (bp, s1) = take_cblock s in store_char c (first_info bp) (p\<lparr>c_cf := first_info bp\<rparr>) (zero_quote bp s1)
      else if c_round cp = 0
      then let s1 = s\<lparr>c_next := (c_next s)(cp - CBLOCK := cfreelist s)\<rparr> in
           if cfreelist s = 0 then (- 1, p, s1)
           else let (bp, s2) = take_cblock s1 in store_char c (first_info bp) p s2
      else store_char c cp p s)"

function b_to_q_loop :: "byte list \<Rightarrow> nat \<Rightarrow> clsys \<Rightarrow> byte list \<times> nat \<times> clsys" where
  "b_to_q_loop cp cq s =
     (if cp = [] then ([], cq, s)
      else let s1 = (if c_round cq = 0 then s\<lparr>c_next := (c_next s)(cq - CBLOCK := cfreelist s)\<rparr> else s) in
        if c_round cq = 0 \<and> cfreelist s = 0 then (cp, cq, s1)
        else let (cq1, s2) = (if c_round cq = 0 then let (bp, s2) = take_cblock s1 in (first_info bp, zero_quote bp s2) else (cq, s1));
                 nc = min (length cp) (CBLOCK - c_round cq1)
             in b_to_q_loop (drop nc cp) (cq1 + nc)
                  (s2\<lparr>c_info := (\<lambda>a. if cq1 \<le> a \<and> a < cq1 + nc then cp ! (a - cq1) else c_info s2 a)\<rparr>))"
  by pat_completeness auto

termination
  by (relation "measure (length \<circ> fst)") (auto simp: c_round_def CBLOCK_def)

text \<open>The buffer is the list of its \<^verbatim>\<open>cc\<close> characters; the result is the number of those not transferred.\<close>

definition b_to_q :: "byte list \<Rightarrow> clist \<Rightarrow> clsys \<Rightarrow> int \<times> clist \<times> clsys" where
  "b_to_q cp q s =
     (if cp = [] then (0, q, s)
      else if (c_cl q = 0 \<or> c_cc q < 0) \<and> cfreelist s = 0 then (int (length cp), q\<lparr>c_cl := c_cl q\<rparr>, s)
      else let (cq, q1, s1) = (if c_cl q = 0 \<or> c_cc q < 0
                 then let (bp, s1) = take_cblock s in (first_info bp, q\<lparr>c_cf := first_info bp\<rparr>, zero_quote bp s1)
                 else (c_cl q, q, s));
               (rest, cq2, s2) = b_to_q_loop cp cq s1
           in (int (length rest), q1\<lparr>c_cl := cq2, c_cc := c_cc q1 + int (length cp) - int (length rest)\<rparr>, s2))"

section \<open>Walking, removing the last character, joining\<close>

text \<open>The address of the character after \<open>cp\<close> and the character; \<open>None\<close>: no more.\<close>

definition nextc :: "clist \<Rightarrow> nat \<Rightarrow> clsys \<Rightarrow> (nat \<times> int) option" where
  "nextc p cp s =
     (if c_cc p \<noteq> 0 \<and> cp + 1 \<noteq> c_cl p
      then let cp1 = (if c_round (cp + 1) = 0 then first_info (c_next s (cp + 1 - CBLOCK)) else cp + 1)
           in Some (cp1, quoted (sint (c_info s cp1)) cp1 s)
      else None)"

partial_function (option) prev_block :: "nat \<Rightarrow> nat \<Rightarrow> clsys \<Rightarrow> nat option" where
  "prev_block bp e s = (if c_next s bp = e then Some bp else prev_block (c_next s bp) e s)"

text \<open>The character is not masked here: \<^verbatim>\<open>char\<close> is signed on these machines.\<close>

definition unputc :: "clist \<Rightarrow> clsys \<Rightarrow> (int \<times> clist \<times> clsys) option" where
  "unputc p s =
     (if c_cc p \<le> 0 then Some (- 1, p, s)
      else let cl = c_cl p - 1; c = quoted (sint (c_info s cl)) cl s; p1 = p\<lparr>c_cl := cl, c_cc := c_cc p - 1\<rparr> in
        if c_cc p1 \<le> 0 then Some (c, p1\<lparr>c_cl := 0, c_cf := 0\<rparr>, push_cblock (c_base cl) s)
        else if cl = first_info (c_base cl)
        then map_option (\<lambda>bp. let s1 = push_cblock (c_next s bp) s in
               (c, p1\<lparr>c_cl := bp + CBLOCK\<rparr>, s1\<lparr>c_next := (c_next s1)(bp := 0)\<rparr>))
             (prev_block (c_base (c_cf p)) (c_base cl) s)
        else Some (c, p1, s))"

lemma getc_cc: "getc p s = (c, p1, s1) \<Longrightarrow> 0 \<le> c \<Longrightarrow> nat (c_cc p1) < nat (c_cc p)"
  by (auto simp: getc_def advance_def Let_def split: if_splits)

function catq_loop :: "clist \<Rightarrow> clist \<Rightarrow> clsys \<Rightarrow> clist \<times> clist \<times> clsys" where
  "catq_loop from to s =
     (case getc from s of (c, from1, s1) \<Rightarrow>
        if c \<ge> 0 then (case putc c to s1 of (_, to1, s2) \<Rightarrow> catq_loop from1 to1 s2) else (from1, to, s1))"
  by pat_completeness auto

termination
  by (relation "measure (\<lambda>(from, _, _). nat (c_cc from))") (auto dest!: getc_cc[OF sym])

definition catq :: "clist \<Rightarrow> clist \<Rightarrow> clsys \<Rightarrow> clist \<times> clist \<times> clsys" where
  "catq from to s = (if c_cc to = 0 then (no_chars, from, s) else catq_loop from to s)"

section \<open>What a list holds\<close>

text \<open>\<open>path nx p bs e\<close>: following \<open>nx\<close> from \<open>p\<close> visits the blocks \<open>bs\<close> and arrives at \<open>e\<close>.\<close>

primrec path :: "(nat \<Rightarrow> nat) \<Rightarrow> nat \<Rightarrow> nat list \<Rightarrow> nat \<Rightarrow> bool" where
  "path nx p [] e = (p = e)"
| "path nx p (b # bs) e = (p = b \<and> path nx (nx b) bs e)"

definition block_ok :: "nat \<Rightarrow> bool" where
  "block_ok b = (0 < b \<and> CBLOCK dvd b)"

text \<open>The addresses of the characters from \<open>f\<close> in the first block up to \<open>l\<close> in the last.\<close>

fun addrs :: "nat list \<Rightarrow> nat \<Rightarrow> nat \<Rightarrow> nat list" where
  "addrs [] f l = []"
| "addrs [b] f l = [f ..< l]"
| "addrs (b # b' # r) f l = [f ..< b + CBLOCK] @ addrs (b' # r) (first_info b') l"

text \<open>\<open>holds0\<close> also allows a last block with no characters yet.\<close>

definition holds0 :: "(nat \<Rightarrow> nat) \<Rightarrow> clist \<Rightarrow> nat list \<Rightarrow> bool" where
  "holds0 nx q bs = (list_all block_ok bs \<and> distinct bs \<and> path nx (if bs = [] then 0 else hd bs) bs 0
     \<and> c_cc q = int (length (addrs bs (c_cf q) (c_cl q)))
     \<and> (if bs = [] then c_cf q = 0 \<and> c_cl q = 0
        else first_info (hd bs) \<le> c_cf q \<and> c_cf q < hd bs + CBLOCK \<and> first_info (last bs) \<le> c_cl q
          \<and> c_cl q \<le> last bs + CBLOCK \<and> (tl bs = [] \<longrightarrow> c_cf q \<le> c_cl q)))"

definition holds :: "(nat \<Rightarrow> nat) \<Rightarrow> clist \<Rightarrow> nat list \<Rightarrow> bool" where
  "holds nx q bs = (holds0 nx q bs \<and> (bs \<noteq> [] \<longrightarrow> first_info (last bs) < c_cl q \<and> (tl bs = [] \<longrightarrow> c_cf q < c_cl q)))"

definition chars :: "clsys \<Rightarrow> clist \<Rightarrow> nat list \<Rightarrow> byte list" where
  "chars s q bs = map (c_info s) (addrs bs (c_cf q) (c_cl q))"

definition free_list :: "clsys \<Rightarrow> nat list \<Rightarrow> bool" where
  "free_list s fs = (list_all block_ok fs \<and> distinct fs \<and> path (c_next s) (cfreelist s) fs 0
     \<and> cfreecount s = int CBSIZE * int (length fs))"

definition pool0 :: "clsys \<Rightarrow> clist \<Rightarrow> nat list \<Rightarrow> nat list \<Rightarrow> bool" where
  "pool0 s q bs fs = (holds0 (c_next s) q bs \<and> free_list s fs \<and> set bs \<inter> set fs = {})"

definition pool :: "clsys \<Rightarrow> clist \<Rightarrow> nat list \<Rightarrow> nat list \<Rightarrow> bool" where
  "pool s q bs fs = (holds (c_next s) q bs \<and> free_list s fs \<and> set bs \<inter> set fs = {})"

text \<open>Nothing outside the blocks \<open>W\<close> has changed.\<close>

definition same_but :: "nat set \<Rightarrow> clsys \<Rightarrow> clsys \<Rightarrow> bool" where
  "same_but W s s' = ((\<forall>b. b \<notin> W \<longrightarrow> c_next s' b = c_next s b) \<and> (\<forall>a. c_base a \<notin> W \<longrightarrow> c_info s' a = c_info s a))"

text \<open>From \<open>s\<close> to \<open>s'\<close> the blocks \<open>W\<close> of a list and of the free list have been shared out anew between them, and
  the list now holds \<open>ys\<close>.\<close>

definition moved :: "nat set \<Rightarrow> clsys \<Rightarrow> clsys \<Rightarrow> clist \<Rightarrow> byte list \<Rightarrow> bool" where
  "moved W s s' q' ys = (\<exists>bs' fs'. pool s' q' bs' fs' \<and> chars s' q' bs' = ys \<and> set bs' \<union> set fs' = W \<and> same_but W s s')"

subsection \<open>Addresses and paths\<close>

lemma path_append: "path nx p (xs @ ys) e = (\<exists>m. path nx p xs m \<and> path nx m ys e)"
  by (induction xs arbitrary: p) auto

lemma path_upd [simp]: "b \<notin> set xs \<Longrightarrow> path (nx(b := v)) p xs e = path nx p xs e"
  by (induction xs arbitrary: p) auto

lemma path_cong: "\<forall>b \<in> set xs. nx' b = nx b \<Longrightarrow> path nx' p xs e = path nx p xs e"
  by (induction xs arbitrary: p) auto

lemma path_hd: "path nx p xs e \<Longrightarrow> xs \<noteq> [] \<Longrightarrow> p = hd xs"
  by (cases xs) auto

lemmas cblock_defs = CBLOCK_def CBSIZE_def CBQSIZE_def c_round_def c_base_def first_info_def

lemma in_block:
  assumes "block_ok b" and "b \<le> a" and "a < b + 64"
  shows "c_base a = b" and "c_round a = a - b"
proof -
  obtain k where k: "b = 64 * k" using assms(1) by (auto simp: block_ok_def CBLOCK_def)
  then have "a = 64 * k + (a - b)" "a - b < 64" using assms(2,3) by auto
  then have "a mod 64 = a - b" by (metis mod_mult_self4 mod_less)
  then show "c_round a = a - b" "c_base a = b" using assms(2) by (auto simp: cblock_defs)
qed

lemma block_end:
  assumes "block_ok b" and "b < a" and "a \<le> b + 64"
  shows "c_base (a - 1) = b" and "c_round a = 0 \<longleftrightarrow> a = b + 64"
proof -
  show "c_base (a - 1) = b" using in_block[OF assms(1), of "a - 1"] assms(2,3) by auto
  have "c_round (b + 64) = 0" using assms(1) by (auto simp: block_ok_def c_round_def CBLOCK_def)
  then show "c_round a = 0 \<longleftrightarrow> a = b + 64" using in_block(2)[OF assms(1), of a] assms(2,3) by (cases "a = b + 64") auto
qed

lemma addrs_snoc: "bs \<noteq> [] \<Longrightarrow> addrs (bs @ [b]) f l = addrs bs f (last bs + CBLOCK) @ [first_info b ..< l]"
  by (induction bs f l rule: addrs.induct) auto

lemma addrs_base:
  "a \<in> set (addrs bs f l) \<Longrightarrow> list_all block_ok bs \<Longrightarrow> hd bs \<le> f \<Longrightarrow> l \<le> last bs + CBLOCK \<Longrightarrow> c_base a \<in> set bs"
proof (induction bs f l rule: addrs.induct)
  case (2 b f l)
  then show ?case using in_block(1)[of b a] by (auto simp: CBLOCK_def)
next
  case (3 b b' r f l)
  show ?case
  proof (cases "a \<in> set (addrs (b' # r) (first_info b') l)")
    case True
    then have "c_base a \<in> set (b' # r)" by (rule 3(1)) (use 3(3-5) in \<open>auto simp: first_info_def\<close>)
    then show ?thesis by auto
  next
    case False
    then have "f \<le> a" "a < b + 64" using 3(2) by (auto simp: CBLOCK_def)
    then have "c_base a = b" using 3(3,4) in_block(1)[of b a] by auto
    then show ?thesis by simp
  qed
qed simp

lemma addrs_split:
  assumes "bs \<noteq> []" and "first_info (last bs) \<le> l" and "tl bs = [] \<longrightarrow> f \<le> l"
  shows "addrs bs f (l + n) = addrs bs f l @ [l ..< l + n]"
proof (cases bs rule: rev_cases)
  case (snoc ws b)
  then show ?thesis
    using assms upt_add_eq_append[of f l n] upt_add_eq_append[of "first_info b" l n] by (cases "ws = []") (simp_all add: addrs_snoc)
qed (use assms in simp)

lemma addrs_below:
  assumes "a \<in> set (addrs bs f l)" and "list_all block_ok bs" and "distinct bs" and "hd bs \<le> f"
  shows "a < l \<or> c_base a \<noteq> last bs"
proof (cases bs rule: rev_cases)
  case (snoc ws b)
  show ?thesis
  proof (cases "ws = []")
    case False
    have "a \<in> set (addrs ws f (last ws + CBLOCK)) \<Longrightarrow> c_base a \<in> set ws"
      by (rule addrs_base) (use snoc False assms(2,4) in auto)
    then show ?thesis using assms(1,3) snoc False by (auto simp: addrs_snoc)
  qed (use snoc assms(1) in auto)
qed (use assms in simp)

lemma holds_nonempty: "holds nx q bs \<Longrightarrow> bs \<noteq> [] \<longleftrightarrow> 0 < c_cc q"
proof (cases bs rule: rev_cases)
  case (snoc ws b)
  assume "holds nx q bs"
  then show ?thesis using snoc by (cases "ws = []") (auto simp: holds_def holds0_def addrs_snoc)
qed (simp add: holds_def holds0_def)

lemma holds_null: "holds nx q bs \<Longrightarrow> c_cl q = 0 \<longleftrightarrow> bs = []"
  by (auto simp: holds_def holds0_def)

lemma holds_nil [simp]: "holds nx q [] \<longleftrightarrow> q = no_chars"
  by (cases q) (auto simp: holds_def holds0_def no_chars_def)

lemma pool_pool0: "pool s q bs fs \<Longrightarrow> pool0 s q bs fs"
  by (simp add: pool_def pool0_def holds_def)

lemma pool_empty: "pool s q bs fs \<Longrightarrow> c_cc q \<le> 0 \<Longrightarrow> bs = [] \<and> q = no_chars"
  using holds_nonempty[of "c_next s" q bs] by (auto simp: pool_def)

lemma pool_frame:
  assumes "pool s q bs fs" and "c_next s' = c_next s" and "cfreelist s' = cfreelist s" and "cfreecount s' = cfreecount s"
  shows "pool s' q bs fs"
  using assms by (simp add: pool_def free_list_def)

lemma same_but_refl [simp]: "same_but W s s"
  by (simp add: same_but_def)

lemma same_but_trans: "same_but W s s1 \<Longrightarrow> same_but W s1 s2 \<Longrightarrow> same_but W s s2"
  by (simp add: same_but_def)

lemma moved_same: "pool s q bs fs \<Longrightarrow> W = set bs \<union> set fs \<Longrightarrow> moved W s s q (chars s q bs)"
  by (auto simp: moved_def)

lemma moved_trans:
  assumes "moved W s s1 q1 ys" and "\<And>bs fs. pool s1 q1 bs fs \<Longrightarrow> set bs \<union> set fs = W \<Longrightarrow> chars s1 q1 bs = ys \<Longrightarrow> moved W s1 s2 q2 zs"
  shows "moved W s s2 q2 zs"
  using assms unfolding moved_def by (metis same_but_trans)

subsection \<open>Giving blocks back\<close>

lemma push_cblock_free:
  assumes "free_list s fs" and "block_ok b" and "b \<notin> set fs"
  shows "free_list (push_cblock b s) (b # fs)"
  using assms by (auto simp: free_list_def push_cblock_def algebra_simps)

lemma free_cblock_simps [simp]:
  "c_next (free_cblock b s) = c_next (push_cblock b s)" "c_info (free_cblock b s) = c_info s" "c_quote (free_cblock b s) = c_quote s"
  "free_list (free_cblock b s) = free_list (push_cblock b s)" "c_info (push_cblock b s) = c_info s"
  by (auto simp: free_cblock_def push_cblock_def free_list_def Let_def fun_eq_iff)

lemma c_next_push [simp]: "c_next (push_cblock b s) = (c_next s)(b := cfreelist s)"
  by (simp add: push_cblock_def)

lemma holds_tail:
  assumes "holds nx q (b # b' # r)"
  shows "holds (nx(b := v)) (q\<lparr>c_cf := first_info b', c_cc := c_cc q - int (b + CBLOCK - c_cf q)\<rparr>) (b' # r)"
  using assms by (cases r) (auto simp: holds_def holds0_def cblock_defs)

lemma pool_pop:
  assumes "pool s q (b # b' # r) fs" and "q' = q\<lparr>c_cf := first_info b', c_cc := c_cc q - int (b + CBLOCK - c_cf q)\<rparr>"
  shows "moved (set (b # b' # r) \<union> set fs) s (free_cblock b s) q' (drop (b + CBLOCK - c_cf q) (chars s q (b # b' # r)))"
proof -
  have h: "holds (c_next s) q (b # b' # r)" "free_list s fs" "b \<notin> set fs" "set (b' # r) \<inter> set fs = {}" "block_ok b" "b \<notin> set (b' # r)"
    using assms(1) by (auto simp: pool_def holds_def holds0_def)
  have "holds (c_next (free_cblock b s)) q' (b' # r)" unfolding assms(2) using holds_tail[OF h(1)] by simp
  moreover have "free_list (free_cblock b s) (b # fs)" using push_cblock_free[OF h(2,5,3)] by simp
  ultimately have "pool (free_cblock b s) q' (b' # r) (b # fs)" using h(4,6) by (auto simp: pool_def)
  moreover have "chars (free_cblock b s) q' (b' # r) = drop (b + CBLOCK - c_cf q) (chars s q (b # b' # r))"
    by (simp add: chars_def assms(2))
  moreover have "same_but (set (b # b' # r) \<union> set fs) s (free_cblock b s)" by (simp add: same_but_def)
  ultimately show ?thesis unfolding moved_def by (intro exI[of _ "b' # r"] exI[of _ "b # fs"]) auto
qed

lemma pool_clear:
  assumes "pool s q [b] fs"
  shows "moved (set [b] \<union> set fs) s (free_cblock b s) no_chars []"
proof -
  have "free_list (free_cblock b s) (b # fs)" using assms push_cblock_free[of s fs b] by (auto simp: pool_def holds_def holds0_def)
  then have "pool (free_cblock b s) no_chars [] (b # fs)" by (simp add: pool_def)
  moreover have "same_but (set [b] \<union> set fs) s (free_cblock b s)" by (simp add: same_but_def)
  ultimately show ?thesis unfolding moved_def by (intro exI[of _ "[]"] exI[of _ "b # fs"]) (simp add: chars_def)
qed

lemma pool_skip:
  assumes "pool s q (b # r) fs" and "c_cf q + n < (if r = [] then c_cl q else b + CBLOCK)"
    and "q' = q\<lparr>c_cf := c_cf q + n, c_cc := c_cc q - int n\<rparr>"
  shows "moved (set (b # r) \<union> set fs) s s q' (drop n (chars s q (b # r)))"
proof -
  have "holds (c_next s) q' (b # r)" "chars s q' (b # r) = drop n (chars s q (b # r))"
    using assms by (cases r; auto simp: pool_def holds_def holds0_def chars_def drop_map)+
  then show ?thesis using assms(1) unfolding moved_def pool_def by (intro exI[of _ "b # r"] exI[of _ fs]) auto
qed

lemma pool_front:
  assumes "pool s q (b # r) fs"
  shows "block_ok b" and "first_info b \<le> c_cf q" and "c_cf q < b + 64" and "c_base (c_cf q) = b" and "CBLOCK - c_round (c_cf q) = b + 64 - c_cf q"
    and "c_cc q = int (length (chars s q (b # r)))"
proof -
  show b: "block_ok b" "first_info b \<le> c_cf q" "c_cf q < b + 64" using assms by (auto simp: pool_def holds_def holds0_def CBLOCK_def)
  show "c_base (c_cf q) = b" "CBLOCK - c_round (c_cf q) = b + 64 - c_cf q" using in_block[OF b(1), of "c_cf q"] b(2,3) by (auto simp: cblock_defs)
  show "c_cc q = int (length (chars s q (b # r)))" using assms by (simp add: pool_def holds_def holds0_def chars_def)
qed

lemma advance_moved:
  assumes "pool s q (b # r) fs" and "0 < n" and "n \<le> CBLOCK - c_round (c_cf q)" and "int n \<le> c_cc q"
    and "advance n q s = (q', s')"
  shows "moved (set (b # r) \<union> set fs) s s' q' (drop n (chars s q (b # r)))" and "c_cc q' = c_cc q - int n"
proof -
  note f = pool_front[OF assms(1)]
  have r: "c_round (c_cf q + n) = 0 \<longleftrightarrow> c_cf q + n = b + 64" "c_base (c_cf q + n - 1) = b"
    using block_end[OF f(1), of "c_cf q + n"] f(2,3,5) assms(2,3) by (auto simp: first_info_def)
  show "c_cc q' = c_cc q - int n" using assms(5) by (auto simp: advance_def Let_def split: if_splits)
  show "moved (set (b # r) \<union> set fs) s s' q' (drop n (chars s q (b # r)))"
  proof (cases r)
    case Nil
    then have c: "c_cc q = int (c_cl q - c_cf q)" "c_cl q \<le> b + 64" using assms(1) by (auto simp: pool_def holds_def holds0_def CBLOCK_def)
    show ?thesis
    proof (cases "n = c_cl q - c_cf q")
      case True
      then have "q' = no_chars" "s' = free_cblock b s" using assms(5) c r(2) f(2) by (auto simp: advance_def Let_def no_chars_def)
      moreover have "drop n (chars s q [b]) = []" using True by (simp add: chars_def)
      ultimately show ?thesis using pool_clear[of s q b fs] assms(1) Nil by simp
    next
      case False
      then have "c_cf q + n < c_cl q" using assms(4) c by auto
      then show ?thesis using pool_skip[OF assms(1), of n] Nil assms(5) c r(1) by (auto simp: advance_def Let_def)
    qed
  next
    case (Cons b' r')
    then have nx: "c_next s b = b'" "c_cc q = int (b + 64 - c_cf q) + int (length (addrs (b' # r') (first_info b') (c_cl q)))"
      using assms(1) by (auto simp: pool_def holds_def holds0_def CBLOCK_def)
    have "addrs (b' # r') (first_info b') (c_cl q) \<noteq> []" using assms(1) Cons
      by (cases r') (auto simp: pool_def holds_def holds0_def cblock_defs)
    then have "0 < length (addrs (b' # r') (first_info b') (c_cl q))" by blast
    then have pos: "int n < c_cc q" using nx(2) assms(3) f(5) by linarith
    show ?thesis
    proof (cases "c_cf q + n = b + 64")
      case True
      then have n: "n = b + CBLOCK - c_cf q" using f(3) by (simp add: CBLOCK_def)
      have "q' = q\<lparr>c_cf := first_info b', c_cc := c_cc q - int (b + CBLOCK - c_cf q)\<rparr>" "s' = free_cblock b s"
        using assms(5) True pos r(1) nx(1) n by (auto simp: advance_def Let_def CBLOCK_def)
      then show ?thesis using pool_pop[of s q b b' r' fs] assms(1) Cons n by simp
    next
      case False
      then have "c_cf q + n < b + CBLOCK" using assms(3) f(3,5) by (simp add: CBLOCK_def)
      then show ?thesis using pool_skip[OF assms(1), of n] Cons assms(5) pos r(1) False by (auto simp: advance_def Let_def)
    qed
  qed
qed

lemma getc_moved:
  assumes "pool s q bs fs" and "getc q s = (c, q', s')"
  shows "moved (set bs \<union> set fs) s s' q' (tl (chars s q bs))"
    and "(case chars s q bs of [] \<Rightarrow> c = - 1 | x # _ \<Rightarrow> c = quoted (uint x) (c_cf q) s)"
proof -
  have "moved (set bs \<union> set fs) s s' q' (tl (chars s q bs))
     \<and> (case chars s q bs of [] \<Rightarrow> c = - 1 | x # _ \<Rightarrow> c = quoted (uint x) (c_cf q) s)"
  proof (cases bs)
    case Nil
    then have q: "q = no_chars" using assms(1) by (simp add: pool_def)
    then have "c = - 1" "q' = q" "s' = s" using assms(2) by (auto simp: getc_def no_chars_def)
    then show ?thesis using moved_same[OF assms(1) refl] Nil by (simp add: chars_def)
  next
    case (Cons b r)
    note p = assms(1)[unfolded Cons]
    note f = pool_front[OF p]
    have pos: "0 < c_cc q" using holds_nonempty[of "c_next s" q bs] assms(1) Cons by (simp add: pool_def)
    then have a: "advance 1 q s = (q', s')" "c = quoted (uint (c_info s (c_cf q))) (c_cf q) s" using assms(2) by (auto simp: getc_def)
    have "moved (set bs \<union> set fs) s s' q' (drop 1 (chars s q bs))"
      unfolding Cons by (rule advance_moved(1)[OF p _ _ _ a(1)]) (use pos f(3,5) in auto)
    moreover have "chars s q bs \<noteq> []" "hd (chars s q bs) = c_info s (c_cf q)" using assms(1) Cons
      by (cases r; auto simp: pool_def holds_def holds0_def chars_def hd_map hd_append)+
    ultimately show ?thesis using a(2) by (cases "chars s q bs") (auto simp: drop_Suc)
  qed
  then show "moved (set bs \<union> set fs) s s' q' (tl (chars s q bs))"
    and "(case chars s q bs of [] \<Rightarrow> c = - 1 | x # _ \<Rightarrow> c = quoted (uint x) (c_cf q) s)" by blast+
qed

lemma front_take:
  assumes "pool s q (b # r) fs" and "n \<le> CBLOCK - c_round (c_cf q)" and "int n \<le> c_cc q"
  shows "map (c_info s) [c_cf q ..< c_cf q + n] = take n (chars s q (b # r))"
  using assms pool_front[OF assms(1)]
  by (cases r) (auto simp: pool_def holds_def holds0_def chars_def take_map CBLOCK_def)

declare q_to_b_loop.simps [simp del] b_to_q_loop.simps [simp del]

lemma q_to_b_loop_moved:
  assumes "pool s q bs fs" and "0 < c_cc q" and "q_to_b_loop cc q s = (got, q', s')"
  shows "got = take cc (chars s q bs) \<and> moved (set bs \<union> set fs) s s' q' (drop cc (chars s q bs))"
  using assms
proof (induction cc q s arbitrary: got q' s' bs fs rule: q_to_b_loop.induct)
  case (1 cc q s)
  obtain b r where bs: "bs = b # r" using 1(2,3) holds_nonempty[of "c_next s" q bs] by (cases bs) (auto simp: pool_def)
  note p = 1(2)[unfolded bs]
  note f = pool_front[OF p]
  show ?case
  proof (cases "cc = 0")
    case True
    then show ?thesis using 1(4) moved_same[OF 1(2) refl] by (simp add: q_to_b_loop.simps)
  next
    case False
    define nc where "nc = min (min (CBLOCK - c_round (c_cf q)) cc) (nat (c_cc q))"
    obtain q1 s1 where a: "advance nc q s = (q1, s1)" by fastforce
    have nc: "0 < nc" "nc \<le> CBLOCK - c_round (c_cf q)" "int nc \<le> c_cc q" "nc \<le> cc" using False 1(3) f(3,5) by (auto simp: nc_def)
    note m = advance_moved[OF p nc(1-3) a, folded bs]
    note h = front_take[OF p nc(2,3), folded bs]
    have len: "c_cc q = int (length (chars s q bs))" using f(6) bs by simp
    note eq = 1(4)[unfolded q_to_b_loop.simps[of cc q s] Let_def nc_def[symmetric] a prod.case if_not_P[OF False]]
    show ?thesis
    proof (cases "c_cc q - int nc \<le> 0")
      case True
      then have "length (chars s q bs) \<le> nc" using len by simp
      moreover have "length (chars s q bs) \<le> cc" using True nc(4) len by simp
      ultimately show ?thesis using eq True m(1) h by auto
    next
      case no: False
      obtain rest q2 s2 where l: "q_to_b_loop (cc - nc) q1 s1 = (rest, q2, s2)" by (metis surj_pair)
      have e: "got = map (c_info s) [c_cf q ..< c_cf q + nc] @ rest" "q' = q2" "s' = s2" using eq no l by auto
      obtain bs1 fs1 where p1: "pool s1 q1 bs1 fs1" "chars s1 q1 bs1 = drop nc (chars s q bs)" "set bs1 \<union> set fs1 = set bs \<union> set fs"
        using m(1) unfolding moved_def by metis
      have "0 < c_cc q1" using m(2) no by simp
      from 1(1)[OF False nc_def refl a[symmetric] refl no p1(1) this l]
      have ih: "rest = take (cc - nc) (drop nc (chars s q bs)) \<and> moved (set bs \<union> set fs) s1 s2 q2 (drop (cc - nc) (drop nc (chars s q bs)))"
        using p1(2,3) by simp
      have "moved (set bs \<union> set fs) s s2 q2 (drop cc (chars s q bs))"
        by (rule moved_trans[OF m(1)]) (use ih nc(4) in auto)
      moreover have "got = take cc (chars s q bs)" using e(1) h ih nc(4) take_add[of nc "cc - nc" "chars s q bs"] by simp
      ultimately show ?thesis using e by simp
    qed
  qed
qed

lemma q_to_b_moved:
  assumes "pool s q bs fs" and "q_to_b q cc s = (got, q', s')"
  shows "got = take (nat cc) (chars s q bs)" and "moved (set bs \<union> set fs) s s' q' (drop (nat cc) (chars s q bs))"
proof -
  have "got = take (nat cc) (chars s q bs) \<and> moved (set bs \<union> set fs) s s' q' (drop (nat cc) (chars s q bs))"
  proof (cases "cc \<le> 0 \<or> c_cc q \<le> 0")
    case True
    moreover have "c_cc q \<le> 0 \<Longrightarrow> q = no_chars \<and> chars s q bs = []" using pool_empty[OF assms(1)] by (auto simp: chars_def)
    ultimately show ?thesis using assms(2) moved_same[OF assms(1) refl] by (auto simp: q_to_b_def split: if_splits)
  next
    case False
    then show ?thesis using q_to_b_loop_moved[OF assms(1), of "nat cc"] assms(2) by (simp add: q_to_b_def)
  qed
  then show "got = take (nat cc) (chars s q bs)" and "moved (set bs \<union> set fs) s s' q' (drop (nat cc) (chars s q bs))" by blast+
qed

lemma ndflush_loop_moved:
  assumes "pool s q bs fs" and "bs \<noteq> []"
  shows "\<exists>q1 s1. ndflush_loop cc q s = Some (q1, s1)
     \<and> moved (set bs \<union> set fs) s s1 (if c_cc q1 \<le> 0 then no_chars else q1) (drop (nat cc) (chars s q bs))"
  using assms
proof (induction bs arbitrary: cc q s fs)
  case (Cons b r)
  note p = Cons(2)
  note f = pool_front[OF p]
  have pos: "0 < c_cc q" using p holds_nonempty[of "c_next s" q "b # r"] by (simp add: pool_def)
  show ?case
  proof (cases "cc \<le> 0")
    case True
    then show ?thesis using moved_same[OF p refl] pos by (simp add: ndflush_loop.simps[of cc q s])
  next
    case False
    define en where "en = (if b = c_base (c_cl q - 1) then c_cl q else b + CBLOCK)"
    define rem where "rem = int en - int (c_cf q)"
    have unf: "ndflush_loop cc q s = (if cc \<ge> rem
       then ndflush_loop (cc - rem) (q\<lparr>c_cc := c_cc q - rem, c_cf := first_info (c_next s b)\<rparr>) (free_cblock b s)
       else let q1 = q\<lparr>c_cc := c_cc q - cc, c_cf := c_cf q + nat cc\<rparr> in Some (q1, if c_cc q1 \<le> 0 then free_cblock b s else s))"
      unfolding ndflush_loop.simps[of cc q s] f(4) Let_def en_def[symmetric] rem_def[symmetric] using False pos by simp
    have cl: "c_base (c_cl q - 1) = last (b # r)"
      using p block_end(1)[of "last (b # r)" "c_cl q"] by (auto simp: pool_def holds_def holds0_def cblock_defs list_all_iff)
    have en: "en = (if r = [] then c_cl q else b + CBLOCK)" using cl p by (auto simp: en_def pool_def holds_def holds0_def)
    show ?thesis
    proof (cases "cc \<ge> rem")
      case no: False
      then have lt: "c_cf q + nat cc < (if r = [] then c_cl q else b + CBLOCK)" using en False by (simp add: rem_def)
      have m: "moved (set (b # r) \<union> set fs) s s (q\<lparr>c_cc := c_cc q - cc, c_cf := c_cf q + nat cc\<rparr>) (drop (nat cc) (chars s q (b # r)))"
        by (rule pool_skip[OF p lt]) (use False in simp)
      moreover have "cc < c_cc q" using lt p False by (cases r) (auto simp: pool_def holds_def holds0_def)
      ultimately show ?thesis using no False unf by (simp add: Let_def)
    next
      case yes: True
      show ?thesis
      proof (cases r)
        case Nil
        have "rem = c_cc q" using p Nil en by (auto simp: rem_def pool_def holds_def holds0_def)
        then have "ndflush_loop cc q s = Some (q\<lparr>c_cc := 0, c_cf := first_info (c_next s b)\<rparr>, free_cblock b s)"
          using unf yes by (simp add: ndflush_loop.simps)
        moreover have "length (chars s q (b # r)) \<le> nat cc" using f(6) yes \<open>rem = c_cc q\<close> by simp
        ultimately show ?thesis using pool_clear[of s q b fs] p Nil by simp
      next
        case (Cons b' r')
        have rem: "rem = int (b + CBLOCK - c_cf q)" "c_next s b = b'" using en Cons f(3) p by (auto simp: rem_def CBLOCK_def pool_def holds_def holds0_def)
        define q1 where "q1 = q\<lparr>c_cc := c_cc q - int (b + CBLOCK - c_cf q), c_cf := first_info b'\<rparr>"
        have q1: "q1 = q\<lparr>c_cf := first_info b', c_cc := c_cc q - int (b + CBLOCK - c_cf q)\<rparr>" by (simp add: q1_def)
        have m: "moved (set (b # r) \<union> set fs) s (free_cblock b s) q1 (drop (b + CBLOCK - c_cf q) (chars s q (b # r)))"
          unfolding Cons by (rule pool_pop[OF p[unfolded Cons] q1])
        have p1: "pool (free_cblock b s) q1 r (b # fs)" "chars (free_cblock b s) q1 r = drop (b + CBLOCK - c_cf q) (chars s q (b # r))"
          using holds_tail[of "c_next s" q b b' r' "cfreelist s"] push_cblock_free[of s fs b] p f(1) Cons
          by (auto simp: pool_def q1 chars_def holds_def holds0_def)
        obtain q2 s2 where l: "ndflush_loop (cc - rem) q1 (free_cblock b s) = Some (q2, s2)"
            "moved (set r \<union> set (b # fs)) (free_cblock b s) s2 (if c_cc q2 \<le> 0 then no_chars else q2)
               (drop (nat (cc - rem)) (drop (b + CBLOCK - c_cf q) (chars s q (b # r))))"
          using Cons.IH[OF p1(1), of "cc - rem"] p1(2) Cons by auto
        have "nat (cc - rem) + (b + CBLOCK - c_cf q) = nat cc" using rem(1) yes by simp
        then have "moved (set (b # r) \<union> set fs) s s2 (if c_cc q2 \<le> 0 then no_chars else q2) (drop (nat cc) (chars s q (b # r)))"
          using moved_trans[OF m] l(2) by simp
        moreover have "ndflush_loop cc q s = Some (q2, s2)" using unf yes l(1) rem by (simp add: q1_def)
        ultimately show ?thesis by blast
      qed
    qed
  qed
qed simp

lemma ndflush_moved:
  assumes "pool s q bs fs"
  shows "\<exists>q' s'. ndflush q cc s = Some (q', s') \<and> moved (set bs \<union> set fs) s s' q' (drop (nat cc) (chars s q bs))"
proof (cases bs)
  case Nil
  then have "q = no_chars" "chars s q bs = []" using assms by (simp_all add: pool_def chars_def)
  then show ?thesis using moved_same[OF assms refl] by (simp add: ndflush_def no_chars_def)
next
  case (Cons b r)
  have "0 < c_cc q" using assms holds_nonempty[of "c_next s" q bs] Cons by (simp add: pool_def)
  moreover obtain q1 s1 where "ndflush_loop cc q s = Some (q1, s1)"
      "moved (set bs \<union> set fs) s s1 (if c_cc q1 \<le> 0 then no_chars else q1) (drop (nat cc) (chars s q bs))"
    using ndflush_loop_moved[OF assms, of cc] Cons by auto
  ultimately show ?thesis by (intro exI[of _ "if c_cc q1 \<le> 0 then no_chars else q1"] exI[of _ s1]) (simp add: ndflush_def)
qed

subsection \<open>Adding blocks and characters\<close>

lemma take_cblock_free:
  assumes "free_list s fs" and "cfreelist s \<noteq> 0" and "take_cblock s = (bp, s')"
  shows "\<exists>r. fs = bp # r \<and> free_list s' r \<and> c_next s' = (c_next s)(bp := 0) \<and> c_info s' = c_info s"
proof (cases fs)
  case Nil
  then show ?thesis using assms by (simp add: free_list_def)
next
  case (Cons b r)
  then show ?thesis using assms by (auto simp: free_list_def take_cblock_def Let_def algebra_simps)
qed

lemma free_list_null: "free_list s fs \<Longrightarrow> cfreelist s = 0 \<longleftrightarrow> fs = []"
  by (cases fs) (auto simp: free_list_def block_ok_def)

lemma pool0_start:
  assumes "pool s no_chars [] (b # r)" and "c_next s' = (c_next s)(b := 0)" and "free_list s' r"
  shows "pool0 s' \<lparr>c_cc = 0, c_cf = first_info b, c_cl = first_info b\<rparr> [b] r"
  using assms by (auto simp: pool_def pool0_def holds0_def free_list_def cblock_defs)

lemma pool0_extend:
  assumes "pool s q bs (b # r)" and "bs \<noteq> []" and "c_cl q = last bs + CBLOCK"
    and "c_next s' = (c_next s)(last bs := b, b := 0)" and "free_list s' r"
  shows "pool0 s' (q\<lparr>c_cl := first_info b\<rparr>) (bs @ [b]) r"
proof -
  obtain ws l where bs: "bs = ws @ [l]" using assms(2) by (cases bs rule: rev_cases) auto
  have h: "holds0 (c_next s) q bs" "b \<notin> set bs" "block_ok b" "b \<notin> set r" using assms(1) by (auto simp: pool_def holds_def free_list_def)
  have p: "path (c_next s) (hd bs) ws l" "l \<notin> set ws" using h(1) bs by (auto simp: holds0_def path_append)
  have "path (c_next s') (hd bs) (bs @ [b]) 0" using p h(2) assms(4) bs by (auto simp: path_append)
  moreover have "addrs (bs @ [b]) (c_cf q) (first_info b) = addrs bs (c_cf q) (c_cl q)" using assms(2,3) by (simp add: addrs_snoc)
  ultimately have "holds0 (c_next s') (q\<lparr>c_cl := first_info b\<rparr>) (bs @ [b])"
    using h(1-3) assms(2) by (auto simp: holds0_def cblock_defs)
  then show ?thesis using assms(1,5) h(4) by (auto simp: pool0_def pool_def)
qed

lemma pool0_fill:
  assumes "pool0 s q bs fs" and "bs \<noteq> []" and "ys \<noteq> []" and "c_cl q + length ys \<le> last bs + CBLOCK"
    and "q' = q\<lparr>c_cl := c_cl q + length ys, c_cc := c_cc q + int (length ys)\<rparr>"
    and "s' = s\<lparr>c_info := (\<lambda>a. if c_cl q \<le> a \<and> a < c_cl q + length ys then ys ! (a - c_cl q) else c_info s a)\<rparr>"
  shows "pool s' q' bs fs" and "chars s' q' bs = chars s q bs @ ys"
    and "\<forall>a. c_base a \<noteq> last bs \<longrightarrow> c_info s' a = c_info s a"
proof -
  let ?n = "length ys"
  have h: "list_all block_ok bs" "distinct bs" "first_info (hd bs) \<le> c_cf q" "first_info (last bs) \<le> c_cl q" "tl bs = [] \<longrightarrow> c_cf q \<le> c_cl q"
    using assms(1,2) by (auto simp: pool0_def holds0_def)
  have b: "block_ok (last bs)" using h(1) assms(2) by (simp add: list_all_iff)
  have sp: "addrs bs (c_cf q) (c_cl q + ?n) = addrs bs (c_cf q) (c_cl q) @ [c_cl q ..< c_cl q + ?n]"
    by (rule addrs_split[OF assms(2) h(4,5)])
  have new: "c_base a = last bs" if "c_cl q \<le> a" "a < c_cl q + ?n" for a
    using in_block(1)[OF b, of a] that h(4) assms(4) by (simp add: cblock_defs)
  then show "\<forall>a. c_base a \<noteq> last bs \<longrightarrow> c_info s' a = c_info s a" by (auto simp: assms(6))
  have "a < c_cl q \<or> c_base a \<noteq> last bs" if "a \<in> set (addrs bs (c_cf q) (c_cl q))" for a
    by (rule addrs_below[OF that h(1,2)]) (use h(3) in \<open>simp add: first_info_def\<close>)
  then have old: "map (c_info s') (addrs bs (c_cf q) (c_cl q)) = map (c_info s) (addrs bs (c_cf q) (c_cl q))"
    using new by (force simp: assms(6))
  have "map (c_info s') [c_cl q ..< c_cl q + ?n] = ys" by (rule nth_equalityI) (simp_all add: assms(6))
  then show "chars s' q' bs = chars s q bs @ ys" using sp old by (simp add: chars_def assms(5))
  have "holds0 (c_next s) q' bs" using assms(1,2,4,5) sp by (auto simp: pool0_def holds0_def)
  then have "holds (c_next s) q' bs" using h(4,5) assms(3,5) by (auto simp: holds_def simp flip: length_greater_0_conv)
  then show "pool s' q' bs fs" using assms(1,6) by (simp add: pool_def pool0_def free_list_def)
qed

lemma pool_quote: "pool (s\<lparr>c_quote := x\<rparr>) q bs fs = pool s q bs fs" "chars (s\<lparr>c_quote := x\<rparr>) q bs = chars s q bs"
  "same_but W s (t\<lparr>c_quote := x\<rparr>) = same_but W s t" "pool0 (s\<lparr>c_quote := x\<rparr>) q bs fs = pool0 s q bs fs"
  "free_list (s\<lparr>c_quote := x\<rparr>) fs = free_list s fs"
  by (simp_all add: pool_def free_list_def chars_def same_but_def pool0_def)

lemma free_list_link: "free_list s fs \<Longrightarrow> b \<notin> set fs \<Longrightarrow> free_list (s\<lparr>c_next := (c_next s)(b := v)\<rparr>) fs"
  by (simp add: free_list_def)

text \<open>A list is ready for characters at \<open>cp\<close>: in its last block, in a block just added, or in its first block.\<close>

lemma pool_begin:
  assumes "pool s q [] fs" and "cfreelist s \<noteq> 0" and "take_cblock s = (bp, s1)" and "s' = zero_quote bp s1"
  shows "\<exists>bs r. pool0 s' \<lparr>c_cc = 0, c_cf = first_info bp, c_cl = first_info bp\<rparr> bs r \<and> bs \<noteq> [] \<and> last bs = bp
    \<and> chars s' \<lparr>c_cc = 0, c_cf = first_info bp, c_cl = first_info bp\<rparr> bs = [] \<and> set bs \<union> set r = set fs
    \<and> same_but (set fs) s s'"
proof -
  have q: "q = no_chars" "free_list s fs" using assms(1) by (simp_all add: pool_def)
  obtain r where r: "fs = bp # r" "free_list s1 r" "c_next s1 = (c_next s)(bp := 0)" "c_info s1 = c_info s"
    using take_cblock_free[OF q(2) assms(2,3)] by blast
  have "pool0 s' \<lparr>c_cc = 0, c_cf = first_info bp, c_cl = first_info bp\<rparr> [bp] r"
    by (rule pool0_start[of s]) (use assms(1,4) q r in \<open>auto simp: zero_quote_def pool_quote\<close>)
  then show ?thesis using r assms(4) by (intro exI[of _ "[bp]"] exI[of _ r]) (auto simp: chars_def same_but_def zero_quote_def)
qed

lemma pool_grow:
  assumes "pool s q bs fs" and "bs \<noteq> []" and "c_cl q = last bs + CBLOCK" and "cfreelist s \<noteq> 0"
    and "take_cblock (s\<lparr>c_next := (c_next s)(c_cl q - CBLOCK := cfreelist s)\<rparr>) = (bp, s')"
  shows "\<exists>bs' r. pool0 s' (q\<lparr>c_cl := first_info bp\<rparr>) bs' r \<and> bs' \<noteq> [] \<and> last bs' = bp
    \<and> chars s' (q\<lparr>c_cl := first_info bp\<rparr>) bs' = chars s q bs \<and> set bs' \<union> set r = set bs \<union> set fs
    \<and> same_but (set bs \<union> set fs) s s'"
proof -
  have f: "free_list s fs" "set bs \<inter> set fs = {}" using assms(1) by (simp_all add: pool_def)
  have "last bs \<notin> set fs" using f(2) last_in_set[OF assms(2)] by blast
  then obtain r where r: "fs = bp # r" "free_list s' r" "c_next s' = (c_next s)(last bs := cfreelist s, bp := 0)" "c_info s' = c_info s"
    using take_cblock_free[OF free_list_link[OF f(1)] _ assms(5)] assms(3,4) by auto
  have bp: "cfreelist s = bp" using f(1) r(1) by (simp add: free_list_def)
  have "pool0 s' (q\<lparr>c_cl := first_info bp\<rparr>) (bs @ [bp]) r"
    by (rule pool0_extend[of s]) (use assms(1-3) r bp in auto)
  then show ?thesis using r assms(2,3) by (intro exI[of _ "bs @ [bp]"] exI[of _ r]) (auto simp: chars_def same_but_def addrs_snoc)
qed

lemma pool_back:
  assumes "pool s q bs fs" and "bs \<noteq> []"
  shows "block_ok (last bs)" and "first_info (last bs) < c_cl q" and "c_cl q \<le> last bs + CBLOCK" and "c_round (c_cl q) = 0 \<longleftrightarrow> c_cl q = last bs + CBLOCK"
    and "0 < c_cl q" and "0 < c_cc q" and "c_round (c_cl q) \<noteq> 0 \<Longrightarrow> c_cl q + (CBLOCK - c_round (c_cl q)) = last bs + CBLOCK"
proof -
  show b: "block_ok (last bs)" "first_info (last bs) < c_cl q" "c_cl q \<le> last bs + CBLOCK" "0 < c_cl q" using assms by (auto simp: pool_def holds_def holds0_def list_all_iff)
  show r: "c_round (c_cl q) = 0 \<longleftrightarrow> c_cl q = last bs + CBLOCK" using block_end(2)[OF b(1), of "c_cl q"] b(2,3) by (auto simp: first_info_def CBLOCK_def)
  show "0 < c_cc q" using assms holds_nonempty[of "c_next s" q bs] by (simp add: pool_def)
  show "c_round (c_cl q) \<noteq> 0 \<Longrightarrow> c_cl q + (CBLOCK - c_round (c_cl q)) = last bs + CBLOCK"
    using in_block(2)[OF b(1), of "c_cl q"] b(2,3) r by (auto simp: first_info_def CBLOCK_def)
qed

lemma moved_fill:
  assumes "pool0 s1 q1 bs r" and "bs \<noteq> []" and "ys \<noteq> []" and "c_cl q1 + length ys \<le> last bs + CBLOCK"
    and "q' = q1\<lparr>c_cl := c_cl q1 + length ys, c_cc := c_cc q1 + int (length ys)\<rparr>"
    and "s' = s1\<lparr>c_info := (\<lambda>a. if c_cl q1 \<le> a \<and> a < c_cl q1 + length ys then ys ! (a - c_cl q1) else c_info s1 a)\<rparr>"
    and "same_but W s s1" and "set bs \<union> set r = W"
  shows "moved W s s' q' (chars s1 q1 bs @ ys)"
proof -
  note f = pool0_fill[OF assms(1-6)]
  have "last bs \<in> W" using assms(2,8) by auto
  then have "c_info s' a = c_info s a" if "c_base a \<notin> W" for a using assms(7) f(3) that unfolding same_but_def by metis
  then have "same_but W s s'" using assms(6,7) by (simp add: same_but_def)
  then show ?thesis using f(1,2) assms(8) unfolding moved_def by blast
qed

lemma moved_quote: "moved W s (s'\<lparr>c_quote := x\<rparr>) q ys = moved W s s' q ys"
  by (simp add: moved_def pool_quote)

lemma fill_one: "(\<lambda>a. if p \<le> a \<and> a < p + length [y] then [y] ! (a - p) else g a) = g(p := y)"
  by (auto simp: fun_eq_iff)

lemma store_char_moved:
  assumes "pool0 s1 q1 bs r" and "bs \<noteq> []" and "c_cl q1 < last bs + CBLOCK" and "same_but W s s1" and "set bs \<union> set r = W"
    and "store_char c (c_cl q1) q1 s1 = (rv, q', s')"
  shows "rv = 0 \<and> moved W s s' q' (chars s1 q1 bs @ [of_int c])"
proof -
  define x where "x = (if c AND TTY_QUOTE \<noteq> 0 then (c_quote s1)(c_cl q1 := True) else c_quote s1)"
  have e: "rv = 0" "q' = q1\<lparr>c_cl := c_cl q1 + 1, c_cc := c_cc q1 + 1\<rparr>" "s' = s1\<lparr>c_info := (c_info s1)(c_cl q1 := of_int c)\<rparr>\<lparr>c_quote := x\<rparr>"
    using assms(6) by (auto simp: store_char_def x_def)
  have "moved W s (s1\<lparr>c_info := (c_info s1)(c_cl q1 := of_int c)\<rparr>) q' (chars s1 q1 bs @ [of_int c])"
    by (rule moved_fill[OF assms(1,2)]) (use assms(3-5) e(2) in \<open>simp_all only: fill_one, simp_all\<close>)
  then show ?thesis using e by (simp add: moved_quote)
qed

lemma store_char_cl: "store_char c cp (q\<lparr>c_cl := x\<rparr>) s = store_char c cp q s"
  by (simp add: store_char_def)

lemma putc_moved:
  assumes "pool s q bs fs" and "putc c q s = (rv, q', s')"
  shows "rv = 0 \<and> moved (set bs \<union> set fs) s s' q' (chars s q bs @ [of_int c])
    \<or> rv = - 1 \<and> q' = q \<and> fs = [] \<and> moved (set bs \<union> set fs) s s' q' (chars s q bs)"
proof -
  let ?W = "set bs \<union> set fs"
  have f: "free_list s fs" "set bs \<inter> set fs = {}" using assms(1) by (simp_all add: pool_def)
  show ?thesis
  proof (cases "bs = []")
    case Nil: True
    then have q: "q = no_chars" using assms(1) by (simp add: pool_def)
    show ?thesis
    proof (cases "cfreelist s = 0")
      case True
      then show ?thesis using assms(2) q free_list_null[OF f(1)] moved_same[OF assms(1) refl] by (auto simp: putc_def no_chars_def)
    next
      case False
      obtain bp s1 where t: "take_cblock s = (bp, s1)" by fastforce
      define q1 where "q1 = \<lparr>c_cc = 0, c_cf = first_info bp, c_cl = first_info bp\<rparr>"
      obtain bs1 r where g: "pool0 (zero_quote bp s1) q1 bs1 r" "bs1 \<noteq> []" "last bs1 = bp" "chars (zero_quote bp s1) q1 bs1 = []"
          "set bs1 \<union> set r = ?W" "same_but ?W s (zero_quote bp s1)"
        using pool_begin[OF assms(1)[unfolded Nil] False t refl] Nil unfolding q1_def by auto
      have "store_char c (c_cl q1) q1 (zero_quote bp s1) = (rv, q', s')" using assms(2) q False t store_char_cl[of c "c_cl q1" 0 q1]
        by (simp add: putc_def no_chars_def q1_def)
      from store_char_moved[OF g(1,2) _ g(6,5) this] show ?thesis using g(3,4) Nil by (simp add: chars_def q1_def cblock_defs)
    qed
  next
    case ne: False
    note k = pool_back[OF assms(1) ne]
    have nz: "\<not> (c_cl q = 0 \<or> c_cc q < 0)" using k(5,6) by simp
    show ?thesis
    proof (cases "c_round (c_cl q) = 0")
      case False
      then have "store_char c (c_cl q) q s = (rv, q', s')" using assms(2) nz by (simp add: putc_def)
      from store_char_moved[OF pool_pool0[OF assms(1)] ne _ same_but_refl refl this] show ?thesis using False k(3,4) by simp
    next
      case True
      note cl = True[unfolded k(4)]
      show ?thesis
      proof (cases "cfreelist s = 0")
        case no: True
        have "c_next s (last bs) = 0" using assms(1) ne by (cases bs rule: rev_cases) (auto simp: pool_def holds_def holds0_def path_append)
        then have "s' = s" "q' = q" "rv = - 1" using assms(2) nz True no cl by (auto simp: putc_def fun_upd_idem)
        then show ?thesis using free_list_null[OF f(1)] no moved_same[OF assms(1) refl] by simp
      next
        case yes: False
        obtain bp s1 where t: "take_cblock (s\<lparr>c_next := (c_next s)(c_cl q - CBLOCK := cfreelist s)\<rparr>) = (bp, s1)" by fastforce
        define q1 where "q1 = q\<lparr>c_cl := first_info bp\<rparr>"
        obtain bs1 r1 where g: "pool0 s1 q1 bs1 r1" "bs1 \<noteq> []" "last bs1 = bp"
            "chars s1 q1 bs1 = chars s q bs" "set bs1 \<union> set r1 = ?W" "same_but ?W s s1"
          using pool_grow[OF assms(1) ne cl yes t] unfolding q1_def by blast
        have "store_char c (c_cl q1) q1 s1 = (rv, q', s')" using assms(2) nz True yes t by (simp add: putc_def q1_def store_char_cl)
        from store_char_moved[OF g(1,2) _ g(6,5) this] show ?thesis using g(3,4) by (simp add: q1_def cblock_defs)
      qed
    qed
  qed
qed

text \<open>One round of the loop, in a block with room.\<close>

definition copy_in :: "byte list \<Rightarrow> nat \<Rightarrow> nat \<Rightarrow> clsys \<Rightarrow> clsys" where
  "copy_in cp nc cq s = s\<lparr>c_info := (\<lambda>a. if cq \<le> a \<and> a < cq + nc then cp ! (a - cq) else c_info s a)\<rparr>"

definition has_room :: "nat \<Rightarrow> nat list \<Rightarrow> bool" where
  "has_room cq bs = (bs \<noteq> [] \<and> 0 < c_round cq \<and> cq + (CBLOCK - c_round cq) = last bs + CBLOCK)"

lemma copy_in_moved:
  assumes "pool0 s1 q1 bs r" and "has_room (c_cl q1) bs" and "cp \<noteq> []" and "nc = min (length cp) (CBLOCK - c_round (c_cl q1))"
    and "same_but W s s1" and "set bs \<union> set r = W"
  shows "moved W s (copy_in cp nc (c_cl q1) s1) (q1\<lparr>c_cl := c_cl q1 + nc, c_cc := c_cc q1 + int nc\<rparr>) (chars s1 q1 bs @ take nc cp)"
    and "0 < nc" and "nc \<le> length cp"
proof -
  have "c_round (c_cl q1) < CBLOCK" by (simp add: c_round_def CBLOCK_def)
  then show nc: "0 < nc" "nc \<le> length cp" using assms(3,4) by auto
  have len: "length (take nc cp) = nc" using nc by simp
  have "copy_in cp nc (c_cl q1) s1
      = s1\<lparr>c_info := (\<lambda>a. if c_cl q1 \<le> a \<and> a < c_cl q1 + length (take nc cp) then take nc cp ! (a - c_cl q1) else c_info s1 a)\<rparr>"
    unfolding copy_in_def len by (rule arg_cong[where f = "\<lambda>g. s1\<lparr>c_info := g\<rparr>"]) (auto simp: fun_eq_iff)
  from moved_fill[OF assms(1) _ _ _ _ this assms(5,6)]
  show "moved W s (copy_in cp nc (c_cl q1) s1) (q1\<lparr>c_cl := c_cl q1 + nc, c_cc := c_cc q1 + int nc\<rparr>) (chars s1 q1 bs @ take nc cp)"
    using assms(2,4) nc len by (auto simp: has_room_def)
qed

lemma b_to_q_loop_round:
  assumes "cp \<noteq> []" and "0 < c_round cq" and "nc = min (length cp) (CBLOCK - c_round cq)"
  shows "b_to_q_loop cp cq s = b_to_q_loop (drop nc cp) (cq + nc) (copy_in cp nc cq s)"
  using assms by (subst b_to_q_loop.simps) (simp add: copy_in_def Let_def)

lemma fresh_room: "block_ok bp \<Longrightarrow> bs \<noteq> [] \<Longrightarrow> last bs = bp \<Longrightarrow> has_room (first_info bp) bs"
  using in_block(2)[of bp "first_info bp"] by (simp add: has_room_def first_info_def CBSIZE_def CBQSIZE_def CBLOCK_def)

lemma b_to_q_loop_grow:
  assumes "pool s q bs fs" and "bs \<noteq> []" and "c_round (c_cl q) = 0" and "cfreelist s \<noteq> 0" and "cp \<noteq> []"
  shows "\<exists>s1 q1 bs1 r. b_to_q_loop cp (c_cl q) s = b_to_q_loop cp (c_cl q1) s1 \<and> pool0 s1 q1 bs1 r \<and> has_room (c_cl q1) bs1
    \<and> chars s1 q1 bs1 = chars s q bs \<and> set bs1 \<union> set r = set bs \<union> set fs \<and> same_but (set bs \<union> set fs) s s1
    \<and> q1 = q\<lparr>c_cl := c_cl q1\<rparr>"
proof -
  obtain bp s1 where t: "take_cblock (s\<lparr>c_next := (c_next s)(c_cl q - CBLOCK := cfreelist s)\<rparr>) = (bp, s1)" by fastforce
  obtain bs1 r where g: "pool0 s1 (q\<lparr>c_cl := first_info bp\<rparr>) bs1 r" "bs1 \<noteq> []" "last bs1 = bp" "chars s1 (q\<lparr>c_cl := first_info bp\<rparr>) bs1 = chars s q bs"
      "set bs1 \<union> set r = set bs \<union> set fs" "same_but (set bs \<union> set fs) s s1"
    using pool_grow[OF assms(1,2) _ assms(4) t] assms(3) pool_back(4)[OF assms(1,2)] by blast
  have "block_ok bp" using g(1-3) by (auto simp: pool0_def holds0_def list_all_iff)
  note room = fresh_room[OF this g(2,3)]
  have "b_to_q_loop cp (c_cl q) s = b_to_q_loop cp (first_info bp) (zero_quote bp s1)"
    using assms(3-5) t room b_to_q_loop_round[of cp "first_info bp" _ "zero_quote bp s1", OF _ _ refl]
    by (subst b_to_q_loop.simps) (simp add: copy_in_def has_room_def Let_def)
  then show ?thesis using g room
    by (intro exI[of _ "zero_quote bp s1"] exI[of _ "q\<lparr>c_cl := first_info bp\<rparr>"] exI[of _ bs1] exI[of _ r]) (simp add: zero_quote_def pool_quote)
qed

lemma b_to_q_loop_moved:
  assumes "pool s q bs fs" and "bs \<noteq> []" and "b_to_q_loop cp (c_cl q) s = (rest, cq, s')"
  shows "\<exists>k. rest = drop k cp \<and> k \<le> length cp \<and> (rest \<noteq> [] \<longrightarrow> cfreelist s' = 0)
    \<and> moved (set bs \<union> set fs) s s' (q\<lparr>c_cl := cq, c_cc := c_cc q + int k\<rparr>) (chars s q bs @ take k cp)"
  using assms
proof (induction cp arbitrary: q s bs fs rule: length_induct)
  case (1 cp)
  note p = 1(2) and ne = 1(3) and k = pool_back[OF 1(2,3)]
  let ?W = "set bs \<union> set fs"
  show ?case
  proof (cases "cp = [] \<or> c_round (c_cl q) = 0 \<and> cfreelist s = 0")
    case True
    have "c_next s (last bs) = 0" using p ne by (cases bs rule: rev_cases) (auto simp: pool_def holds_def holds0_def path_append)
    then have "s' = s" "cq = c_cl q" "rest = cp" using 1(4) True k(4) by (auto simp: b_to_q_loop.simps[of cp] fun_upd_idem split: if_splits)
    then show ?thesis using moved_same[OF p refl] True by (intro exI[of _ 0]) auto
  next
    case False
    then have cp: "cp \<noteq> []" by simp
    have "\<exists>s1 q1 bs1 r. b_to_q_loop cp (c_cl q) s = b_to_q_loop cp (c_cl q1) s1 \<and> pool0 s1 q1 bs1 r \<and> has_room (c_cl q1) bs1
      \<and> chars s1 q1 bs1 = chars s q bs \<and> set bs1 \<union> set r = ?W \<and> same_but ?W s s1 \<and> q1 = q\<lparr>c_cl := c_cl q1\<rparr>"
    proof (cases "c_round (c_cl q) = 0")
      case no: False
      then show ?thesis using pool_pool0[OF p] ne k(7)[OF no]
        by (intro exI[of _ s] exI[of _ q] exI[of _ bs] exI[of _ fs]) (simp add: has_room_def)
    next
      case yes: True
      show ?thesis by (rule b_to_q_loop_grow[OF p ne yes _ cp]) (use False yes in simp)
    qed
    then obtain s1 q1 bs1 r where g: "b_to_q_loop cp (c_cl q) s = b_to_q_loop cp (c_cl q1) s1" "pool0 s1 q1 bs1 r" "has_room (c_cl q1) bs1"
      "chars s1 q1 bs1 = chars s q bs" "set bs1 \<union> set r = ?W" "same_but ?W s s1" "q1 = q\<lparr>c_cl := c_cl q1\<rparr>" by blast
    define nc where "nc = min (length cp) (CBLOCK - c_round (c_cl q1))"
    define q2 where "q2 = q1\<lparr>c_cl := c_cl q1 + nc, c_cc := c_cc q1 + int nc\<rparr>"
    note m = copy_in_moved[OF g(2,3) cp nc_def g(6,5), folded q2_def, unfolded g(4)]
    let ?s2 = "copy_in cp nc (c_cl q1) s1"
    obtain bs2 r2 where p2: "pool ?s2 q2 bs2 r2" "chars ?s2 q2 bs2 = chars s q bs @ take nc cp" "set bs2 \<union> set r2 = ?W"
      using m(1) unfolding moved_def by metis
    have l: "b_to_q_loop (drop nc cp) (c_cl q2) ?s2 = (rest, cq, s')"
      using 1(4) b_to_q_loop_round[OF cp _ nc_def, of s1] g(1,3) by (simp add: q2_def has_room_def)
    have ne2: "bs2 \<noteq> []" using p2(2) m(2) cp by (auto simp: chars_def)
    have "length (drop nc cp) < length cp" using m(2,3) by simp
    from 1(1)[rule_format, OF this p2(1) ne2 l] obtain j where j: "rest = drop j (drop nc cp)" "j \<le> length (drop nc cp)" "rest \<noteq> [] \<longrightarrow> cfreelist s' = 0"
      "moved ?W ?s2 s' (q2\<lparr>c_cl := cq, c_cc := c_cc q2 + int j\<rparr>) (chars ?s2 q2 bs2 @ take j (drop nc cp))" using p2(3) by auto
    have q2: "q2\<lparr>c_cl := cq, c_cc := c_cc q2 + int j\<rparr> = q\<lparr>c_cl := cq, c_cc := c_cc q + int (nc + j)\<rparr>"
      using arg_cong[OF g(7), of c_cc] arg_cong[OF g(7), of c_cf] by (cases q; cases q1) (simp add: q2_def)
    have "moved ?W s s' (q\<lparr>c_cl := cq, c_cc := c_cc q + int (nc + j)\<rparr>) (chars s q bs @ take (nc + j) cp)"
      by (rule moved_trans[OF m(1)]) (use j(4) p2(2) q2 in \<open>simp add: take_add\<close>)
    then show ?thesis using j(1-3) m(3) by (intro exI[of _ "nc + j"]) (auto simp: algebra_simps)
  qed
qed

lemma b_to_q_moved:
  assumes "pool s q bs fs" and "b_to_q cp q s = (n, q', s')"
  shows "0 \<le> n \<and> n \<le> int (length cp) \<and> (n \<noteq> 0 \<longrightarrow> cfreelist s' = 0)
    \<and> moved (set bs \<union> set fs) s s' q' (chars s q bs @ take (length cp - nat n) cp)"
proof (cases "cp = [] \<or> (c_cl q = 0 \<or> c_cc q < 0) \<and> cfreelist s = 0")
  case True
  then show ?thesis using assms(2) moved_same[OF assms(1) refl] by (auto simp: b_to_q_def split: if_splits)
next
  case False
  then have cp: "cp \<noteq> []" by simp
  let ?W = "set bs \<union> set fs"
  have fin: "?thesis" if "rest = drop k cp" "k \<le> length cp" "rest \<noteq> [] \<longrightarrow> cfreelist s2 = 0" "n = int (length rest)" "s' = s2"
      "moved ?W s s2 q' (chars s q bs @ take k cp)" for rest k s2
  proof -
    have "length cp - nat n = k" using that(1,2,4) by simp
    then show ?thesis using that by auto
  qed
  show ?thesis
  proof (cases "bs = []")
    case ne: False
    then have nz: "\<not> (c_cl q = 0 \<or> c_cc q < 0)" using pool_back(5,6)[OF assms(1) ne] by simp
    obtain rest cq s2 where l: "b_to_q_loop cp (c_cl q) s = (rest, cq, s2)" by (metis surj_pair)
    obtain k where k: "rest = drop k cp" "k \<le> length cp" "rest \<noteq> [] \<longrightarrow> cfreelist s2 = 0"
        "moved ?W s s2 (q\<lparr>c_cl := cq, c_cc := c_cc q + int k\<rparr>) (chars s q bs @ take k cp)"
      using b_to_q_loop_moved[OF assms(1) ne l] by blast
    show ?thesis by (rule fin[OF k(1-3)]) (use assms(2) nz cp l k in \<open>auto simp: b_to_q_def\<close>)
  next
    case Nil: True
    have q: "q = no_chars" using assms(1) Nil by (simp add: pool_def)
    have fr: "cfreelist s \<noteq> 0" using False q by (simp add: no_chars_def)
    obtain bp s1 where t: "take_cblock s = (bp, s1)" by fastforce
    define q1 where "q1 = \<lparr>c_cc = 0, c_cf = first_info bp, c_cl = first_info bp\<rparr>"
    let ?s1 = "zero_quote bp s1"
    obtain bs1 r where g: "pool0 ?s1 q1 bs1 r" "bs1 \<noteq> []" "last bs1 = bp" "chars ?s1 q1 bs1 = []" "set bs1 \<union> set r = ?W" "same_but ?W s ?s1"
      using pool_begin[OF assms(1)[unfolded Nil] fr t refl] Nil unfolding q1_def by auto
    have "block_ok bp" using g(1-3) by (auto simp: pool0_def holds0_def list_all_iff)
    note room = fresh_room[OF this g(2,3)]
    define nc where "nc = min (length cp) (CBLOCK - c_round (c_cl q1))"
    define q2 where "q2 = q1\<lparr>c_cl := c_cl q1 + nc, c_cc := c_cc q1 + int nc\<rparr>"
    let ?s2 = "copy_in cp nc (c_cl q1) ?s1"
    have m: "moved ?W s ?s2 q2 (take nc cp)" "0 < nc" "nc \<le> length cp"
      using copy_in_moved[OF g(1) _ cp nc_def g(6,5), folded q2_def] room g(4) by (simp_all add: q1_def)
    obtain bs2 r2 where p2: "pool ?s2 q2 bs2 r2" "chars ?s2 q2 bs2 = take nc cp" "set bs2 \<union> set r2 = ?W" using m(1) unfolding moved_def by metis
    have ne2: "bs2 \<noteq> []" using p2(2) m(2) cp by (auto simp: chars_def)
    obtain rest cq s3 where l: "b_to_q_loop cp (first_info bp) ?s1 = (rest, cq, s3)" by (metis surj_pair)
    then have l2: "b_to_q_loop (drop nc cp) (c_cl q2) ?s2 = (rest, cq, s3)"
      using b_to_q_loop_round[OF cp _ nc_def, of ?s1] room by (simp add: q1_def q2_def has_room_def)
    obtain j where j: "rest = drop j (drop nc cp)" "j \<le> length (drop nc cp)" "rest \<noteq> [] \<longrightarrow> cfreelist s3 = 0"
        "moved ?W ?s2 s3 (q2\<lparr>c_cl := cq, c_cc := c_cc q2 + int j\<rparr>) (take nc cp @ take j (drop nc cp))"
      using b_to_q_loop_moved[OF p2(1) ne2 l2] p2(2,3) by auto
    have jn: "rest = drop (nc + j) cp" "nc + j \<le> length cp" using j(1,2) m(3) by (auto simp: add.commute)
    have e: "n = int (length rest)" "s' = s3" "q' = q2\<lparr>c_cl := cq, c_cc := c_cc q2 + int j\<rparr>"
      using assms(2) cp fr q t l jn by (auto simp: b_to_q_def no_chars_def q2_def q1_def Let_def)
    have "moved ?W s s3 q' (chars s q bs @ take (nc + j) cp)" unfolding e(3)
      by (rule moved_trans[OF m(1)]) (use j(4) Nil in \<open>simp add: take_add chars_def\<close>)
    then show ?thesis by (rule fin[OF jn j(3) e(1,2)])
  qed
qed

section \<open>Removing the last character\<close>

lemma prev_block_path:
  assumes "path (c_next s) p (ws @ [b]) e" and "distinct (ws @ [b])" and "ws \<noteq> []"
  shows "prev_block p b s = Some (last ws)"
  using assms
proof (induction ws arbitrary: p)
  case (Cons a ws)
  show ?case
  proof (cases ws)
    case Nil
    then show ?thesis using Cons(2) by (subst prev_block.simps) simp
  next
    case (Cons c ws')
    then have "c_next s p \<noteq> b" using Cons.prems(1,2) by auto
    moreover have "prev_block (c_next s p) b s = Some (last ws)" by (rule Cons.IH) (use Cons.prems Cons in auto)
    ultimately show ?thesis using Cons by (subst prev_block.simps) simp
  qed
qed simp

lemma chars_back:
  assumes "pool s q bs fs" and "bs \<noteq> []"
  shows "chars s q bs = map (c_info s) (addrs bs (c_cf q) (c_cl q - 1)) @ [c_info s (c_cl q - 1)]"
proof -
  have h: "first_info (last bs) \<le> c_cl q - 1" "tl bs = [] \<longrightarrow> c_cf q \<le> c_cl q - 1" "0 < c_cl q"
    using assms by (auto simp: pool_def holds_def holds0_def)
  have "[c_cl q - 1 ..< c_cl q - 1 + 1] = [c_cl q - 1]" "c_cl q - 1 + 1 = c_cl q" using h(3) by (simp_all add: upt_rec)
  then have "addrs bs (c_cf q) (c_cl q) = addrs bs (c_cf q) (c_cl q - 1) @ [c_cl q - 1]"
    using addrs_split[OF assms(2) h(1,2), of 1] by metis
  then show ?thesis by (simp add: chars_def)
qed

lemma unputc_last_block:
  assumes "pool s q (ws @ [b]) fs" and "ws \<noteq> []" and "c_cl q = first_info b + 1"
    and "s1 = push_cblock b s" and "s' = s1\<lparr>c_next := (c_next s1)(last ws := 0)\<rparr>"
    and "q' = q\<lparr>c_cc := c_cc q - 1, c_cl := last ws + CBLOCK\<rparr>"
  shows "moved (set (ws @ [b]) \<union> set fs) s s' q' (butlast (chars s q (ws @ [b])))"
proof -
  have h: "holds (c_next s) q (ws @ [b])" "free_list s fs" "b \<notin> set fs" "b \<notin> set ws" "block_ok b" "set ws \<inter> set fs = {}"
    using assms(1) by (auto simp: pool_def holds_def holds0_def)
  have lw: "last ws \<notin> set fs" "last ws \<noteq> b" "last ws \<in> set ws" using h(4,6) assms(2) by (auto dest: last_in_set)
  obtain us w where ws: "ws = us @ [w]" using assms(2) by (cases ws rule: rev_cases) auto
  have "path (c_next s) (hd ws) us w" "w \<notin> set us" using h(1) ws by (auto simp: holds_def holds0_def path_append hd_append split: if_splits)
  then have p: "path (c_next s') (hd ws) ws 0" using h(4) ws assms(4,5) by (auto simp: path_append)
  have a: "addrs (ws @ [b]) (c_cf q) (c_cl q) = addrs ws (c_cf q) (last ws + CBLOCK) @ [first_info b]" using assms(2,3) by (simp add: addrs_snoc)
  have "tl ws = [] \<Longrightarrow> last ws = hd ws" using ws by (cases us) auto
  then have "holds (c_next s') q' ws" using h(1) p a assms(2,6) by (auto simp: holds_def holds0_def cblock_defs hd_append list_all_iff)
  moreover have "free_list s' (b # fs)"
    unfolding assms(5) by (rule free_list_link) (use push_cblock_free[OF h(2,5,3)] assms(4) lw in auto)
  ultimately have "pool s' q' ws (b # fs)" using h(4,6) by (auto simp: pool_def)
  moreover have "chars s' q' ws = butlast (chars s q (ws @ [b]))" using a assms(4-6) by (simp add: chars_def butlast_append)
  moreover have "same_but (set (ws @ [b]) \<union> set fs) s s'" using assms(4,5) lw(3) by (auto simp: same_but_def)
  ultimately show ?thesis unfolding moved_def by (intro exI[of _ ws] exI[of _ "b # fs"]) auto
qed

lemma unputc_moved:
  assumes "pool s q bs fs"
  shows "\<exists>c q' s'. unputc q s = Some (c, q', s') \<and> moved (set bs \<union> set fs) s s' q' (butlast (chars s q bs))
    \<and> (if chars s q bs = [] then c = - 1 else c = quoted (sint (last (chars s q bs))) (c_cl q - 1) s)"
proof (cases bs rule: rev_cases)
  case Nil
  then have "q = no_chars" "chars s q bs = []" using assms by (simp_all add: pool_def chars_def)
  then show ?thesis using moved_same[OF assms refl] by (simp add: unputc_def no_chars_def)
next
  case (snoc ws b)
  then have ne: "bs \<noteq> []" by simp
  note k = pool_back[OF assms ne] and c = chars_back[OF assms ne]
  have lb: "last bs = b" using snoc by simp
  have cl: "c_base (c_cl q - 1) = b" using block_end(1)[OF k(1), of "c_cl q"] k(2,3) lb by (simp add: first_info_def CBLOCK_def)
  have len: "c_cc q = int (length (addrs bs (c_cf q) (c_cl q - 1))) + 1"
    using c assms by (simp add: pool_def holds_def holds0_def chars_def, metis length_append_singleton length_map of_nat_Suc add.commute)
  define r where "r = quoted (sint (c_info s (c_cl q - 1))) (c_cl q - 1) s"
  define q1 where "q1 = q\<lparr>c_cl := c_cl q - 1, c_cc := c_cc q - 1\<rparr>"
  have unf: "unputc q s = (if c_cc q - 1 \<le> 0 then Some (r, q1\<lparr>c_cl := 0, c_cf := 0\<rparr>, push_cblock b s)
      else if c_cl q - 1 = first_info b
      then map_option (\<lambda>bp. let s1 = push_cblock (c_next s bp) s in (r, q1\<lparr>c_cl := bp + CBLOCK\<rparr>, s1\<lparr>c_next := (c_next s1)(bp := 0)\<rparr>))
             (prev_block (c_base (c_cf q)) b s)
      else Some (r, q1, s))"
    unfolding unputc_def Let_def cl r_def q1_def using k(6) by simp
  have "\<exists>q' s'. unputc q s = Some (r, q', s') \<and> moved (set bs \<union> set fs) s s' q' (butlast (chars s q bs))"
  proof (cases "c_cc q - 1 \<le> 0")
    case True
    have "ws = []"
    proof (rule ccontr)
      assume "ws \<noteq> []"
      then obtain a c rs where abs: "bs = a # c # rs" using snoc by (cases ws; cases "tl ws") auto
      then have "addrs bs (c_cf q) (c_cl q - 1) \<noteq> []" using pool_front(3)[of s q a "c # rs" fs] assms by (simp add: CBLOCK_def)
      then show False using len True by simp
    qed
    then have bs: "bs = [b]" using snoc by simp
    have "free_list (push_cblock b s) (b # fs)" using push_cblock_free[of s fs b] assms bs by (auto simp: pool_def holds_def holds0_def)
    then have "moved (set bs \<union> set fs) s (push_cblock b s) no_chars []"
      using bs unfolding moved_def by (intro exI[of _ "[]"] exI[of _ "b # fs"]) (simp add: pool_def chars_def same_but_def)
    moreover have "q1\<lparr>c_cl := 0, c_cf := 0\<rparr> = no_chars" using True len by (simp add: q1_def no_chars_def)
    ultimately show ?thesis using unf True len c by simp
  next
    case False
    show ?thesis
    proof (cases "c_cl q - 1 = first_info b")
      case no: False
      have "tl bs = [] \<Longrightarrow> c_cf q < c_cl q - 1" using len False ne by (cases bs) auto
      then have "holds (c_next s) q1 bs"
        using assms False no len lb ne k(2) by (auto simp: q1_def pool_def holds_def holds0_def)
      then have "moved (set bs \<union> set fs) s s q1 (butlast (chars s q bs))" using assms c unfolding moved_def
        by (intro exI[of _ bs] exI[of _ fs]) (simp add: pool_def chars_def q1_def)
      then show ?thesis using unf no False by simp
    next
      case yes: True
      have "ws \<noteq> []" using yes False len snoc assms by (auto simp: pool_def holds_def holds0_def)
      have b: "pool s q (ws @ [b]) fs" "c_cl q = first_info b + 1" using assms snoc yes k(5) by auto
      have pth: "path (c_next s) (hd ws) (ws @ [b]) 0" "distinct (ws @ [b])" using b(1) \<open>ws \<noteq> []\<close> by (auto simp: pool_def holds_def holds0_def)
      obtain a rs where wsa: "ws = a # rs" using \<open>ws \<noteq> []\<close> by (cases ws) auto
      have "c_base (c_cf q) = hd ws" using pool_front(4)[of s q a "rs @ [b]" fs] b(1) wsa by simp
      then have pb: "prev_block (c_base (c_cf q)) b s = Some (last ws)" using prev_block_path[OF pth \<open>ws \<noteq> []\<close>] by simp
      have nx: "c_next s (last ws) = b" using pth(1) \<open>ws \<noteq> []\<close> by (cases ws rule: rev_cases) (auto simp: path_append)
      show ?thesis using unf False yes pb nx unputc_last_block[OF b(1) \<open>ws \<noteq> []\<close> b(2) refl refl refl] snoc by (simp add: q1_def Let_def)
    qed
  qed
  then show ?thesis using c by (auto simp: r_def)
qed

section \<open>Many lists sharing the free blocks\<close>

text \<open>The lists \<open>qs\<close> of all terminals hold the characters \<open>v\<close>; every block of \<open>U\<close> is in one of the lists or free.\<close>

definition cl_inv :: "nat set \<Rightarrow> clsys \<Rightarrow> (nat \<Rightarrow> clist) \<Rightarrow> (nat \<Rightarrow> byte list) \<Rightarrow> bool" where
  "cl_inv U s qs v = (\<exists>B fs. (\<forall>i. pool s (qs i) (B i) fs \<and> chars s (qs i) (B i) = v i)
     \<and> (\<forall>i j. i \<noteq> j \<longrightarrow> set (B i) \<inter> set (B j) = {}) \<and> (\<Union>i. set (B i)) \<union> set fs = U)"

lemma same_but_holds:
  assumes "same_but W s s'" and "pool s q bs fs" and "set bs \<inter> W = {}"
  shows "holds (c_next s') q bs" and "chars s' q bs = chars s q bs"
proof -
  have n: "\<forall>b \<in> set bs. c_next s' b = c_next s b" using assms(1,3) by (auto simp: same_but_def)
  show "holds (c_next s') q bs" using assms(2) path_cong[OF n] by (auto simp: pool_def holds_def holds0_def)
  have "c_base a \<in> set bs" if "a \<in> set (addrs bs (c_cf q) (c_cl q))" for a
  proof (cases "bs = []")
    case False
    then show ?thesis by (intro addrs_base[OF that]) (use assms(2) in \<open>auto simp: pool_def holds_def holds0_def first_info_def\<close>)
  qed (use that in simp)
  then show "chars s' q bs = chars s q bs" using assms(1,3) by (fastforce simp: chars_def same_but_def)
qed

lemma cl_inv_moved:
  assumes "cl_inv U s qs v"
    and "\<And>bs fs. pool s (qs i) bs fs \<Longrightarrow> chars s (qs i) bs = v i \<Longrightarrow> moved (set bs \<union> set fs) s s' q' ys"
  shows "cl_inv U s' (qs(i := q')) (v(i := ys))"
proof -
  obtain B fs where B: "\<And>j. pool s (qs j) (B j) fs" "\<And>j. chars s (qs j) (B j) = v j" "\<And>j k. j \<noteq> k \<Longrightarrow> set (B j) \<inter> set (B k) = {}"
      "(\<Union>j. set (B j)) \<union> set fs = U" using assms(1) unfolding cl_inv_def by metis
  obtain bs' fs' where m: "pool s' q' bs' fs'" "chars s' q' bs' = ys" "set bs' \<union> set fs' = set (B i) \<union> set fs" "same_but (set (B i) \<union> set fs) s s'"
    using assms(2)[OF B(1) B(2)] unfolding moved_def by blast
  define B' where "B' = B(i := bs')"
  have d: "set (B j) \<inter> (set (B i) \<union> set fs) = {}" if "j \<noteq> i" for j using B(3)[OF that] B(1)[of j] by (auto simp: pool_def)
  have d': "set (B j) \<inter> set fs' = {}" if "j \<noteq> i" for j using d[OF that] m(3) by blast
  have o: "holds (c_next s') (qs j) (B j)" "chars s' (qs j) (B j) = v j" if "j \<noteq> i" for j
    using same_but_holds[OF m(4) B(1) d[OF that]] B(2) by simp_all
  have "\<forall>j. pool s' ((qs(i := q')) j) (B' j) fs' \<and> chars s' ((qs(i := q')) j) (B' j) = (v(i := ys)) j"
    using m(1,2) o d' unfolding B'_def by (auto simp: pool_def)
  moreover have "\<forall>j k. j \<noteq> k \<longrightarrow> set (B' j) \<inter> set (B' k) = {}"
  proof (intro allI impI)
    fix j k :: nat assume jk: "j \<noteq> k"
    show "set (B' j) \<inter> set (B' k) = {}" using jk d[of j] d[of k] m(3) B(3)[OF jk] unfolding B'_def by (cases "j = i"; cases "k = i") auto
  qed
  moreover have "(\<Union>j. set (B' j)) \<union> set fs' = U"
  proof -
    have "(\<Union>j. set (B' j)) = (\<Union>j \<in> - {i}. set (B j)) \<union> set bs'" unfolding B'_def by (auto split: if_splits)
    moreover have "(\<Union>j. set (B j)) = (\<Union>j \<in> - {i}. set (B j)) \<union> set (B i)" by auto
    ultimately show ?thesis using B(4) m(3) by auto
  qed
  ultimately show ?thesis unfolding cl_inv_def by blast
qed

lemma cl_inv_pool:
  assumes "cl_inv U s qs v"
  obtains bs fs where "pool s (qs i) bs fs" and "chars s (qs i) bs = v i"
  using assms unfolding cl_inv_def by metis

subsection \<open>Joining two lists\<close>

lemma getc_inv:
  assumes "cl_inv U s qs v" and "getc (qs i) s = (c, q', s')"
  shows "cl_inv U s' (qs(i := q')) (v(i := tl (v i)))"
    and "case v i of [] \<Rightarrow> c = - 1 | x # _ \<Rightarrow> c = quoted (uint x) (c_cf (qs i)) s"
proof -
  show "cl_inv U s' (qs(i := q')) (v(i := tl (v i)))" by (rule cl_inv_moved[OF assms(1)]) (use getc_moved(1)[OF _ assms(2)] in metis)
  obtain bs fs where "pool s (qs i) bs fs" "chars s (qs i) bs = v i" using cl_inv_pool[OF assms(1)] .
  then show "case v i of [] \<Rightarrow> c = - 1 | x # _ \<Rightarrow> c = quoted (uint x) (c_cf (qs i)) s" using getc_moved(2)[OF _ assms(2)] by metis
qed

lemma putc_inv:
  assumes "cl_inv U s qs v" and "putc c (qs i) s = (rv, q', s')"
  shows "cl_inv U s' (qs(i := q')) (v(i := v i @ (if rv = 0 then [of_int c] else [])))" and "rv = 0 \<or> rv = - 1 \<and> cfreelist s = 0"
proof -
  have m: "moved (set bs \<union> set fs) s s' q' (v i @ (if rv = 0 then [of_int c] else [])) \<and> (rv = 0 \<or> rv = - 1 \<and> cfreelist s = 0)"
    if "pool s (qs i) bs fs" "chars s (qs i) bs = v i" for bs fs
    using putc_moved[OF that(1) assms(2)] that free_list_null[of s fs] by (auto simp: pool_def)
  show "cl_inv U s' (qs(i := q')) (v(i := v i @ (if rv = 0 then [of_int c] else [])))" by (rule cl_inv_moved[OF assms(1)]) (use m in blast)
  show "rv = 0 \<or> rv = - 1 \<and> cfreelist s = 0" using m cl_inv_pool[OF assms(1)] by metis
qed

lemma quoted_byte: "of_int (quoted (uint x) p s) = (x :: byte)" and quoted_pos: "0 \<le> quoted (uint (x :: byte)) p s"
proof -
  have "take_bit 8 (uint x OR TTY_QUOTE) = take_bit 8 (uint x)" by (simp add: TTY_QUOTE_def)
  moreover have len8: "LENGTH(8) = 8" by simp
  ultimately have "word_of_int (uint x OR TTY_QUOTE) = (word_of_int (uint x) :: byte)" by (simp only: word_of_int_eq_iff len8)
  then show "of_int (quoted (uint x) p s) = x" by (simp add: quoted_def)
  show "0 \<le> quoted (uint x) p s" by (simp add: quoted_def TTY_QUOTE_def)
qed

declare catq_loop.simps [simp del]

lemma catq_loop_inv:
  assumes "cl_inv U s qs v" and "i \<noteq> j" and "catq_loop (qs i) (qs j) s = (f', t', s')"
  shows "\<exists>ys. subseq ys (v i) \<and> cl_inv U s' (qs(i := f', j := t')) (v(i := [], j := v j @ ys))"
  using assms
proof (induction "v i" arbitrary: qs v s)
  case Nil
  obtain c q1 s1 where g: "getc (qs i) s = (c, q1, s1)" by (metis surj_pair)
  note gi = getc_inv[OF Nil(2) g]
  have "c = - 1" using gi(2) Nil(1) by (metis list.simps(4))
  then have "f' = q1" "t' = qs j" "s' = s1" using Nil(4) g by (auto simp: catq_loop.simps[of "qs i"])
  moreover have "qs(i := q1, j := qs j) = qs(i := q1)" "v(i := [], j := v j @ []) = v(i := tl (v i))"
    using Nil(1)[symmetric] Nil(3) by (auto simp: fun_eq_iff)
  ultimately show ?case using gi(1) by (metis list_emb_Nil)
next
  case (Cons x xs)
  obtain c q1 s1 where g: "getc (qs i) s = (c, q1, s1)" by (metis surj_pair)
  note gi = getc_inv[OF Cons(3) g]
  have c: "c = quoted (uint x) (c_cf (qs i)) s" using gi(2) Cons(2)[symmetric] by simp
  obtain rv t1 s2 where p: "putc c ((qs(i := q1)) j) s1 = (rv, t1, s2)" by (metis surj_pair)
  define ys where "ys = (if rv = 0 then [x] else [])"
  define v1 where "v1 = v(i := xs, j := v j @ ys)"
  have "of_int c = x" "0 \<le> c" unfolding c by (rule quoted_byte, rule quoted_pos)
  then have v1: "cl_inv U s2 (qs(i := q1, j := t1)) v1" using putc_inv(1)[OF gi(1) p] Cons(2)[symmetric] Cons(4)
    by (cases "rv = 0") (auto simp: v1_def ys_def simp del: fun_upd_apply simp add: fun_upd_other)
  have i: "xs = v1 i" using Cons(4) by (simp add: v1_def)
  have "catq_loop ((qs(i := q1, j := t1)) i) ((qs(i := q1, j := t1)) j) s2 = (f', t', s')"
    using Cons(5) g p \<open>0 \<le> c\<close> Cons(4) by (simp add: catq_loop.simps[of "qs i"])
  from Cons(1)[OF i v1 Cons(4) this] obtain zs where z: "subseq zs xs" "cl_inv U s' (qs(i := q1, j := t1, i := f', j := t')) (v1(i := [], j := v1 j @ zs))"
    using i by metis
  have "qs(i := q1, j := t1, i := f', j := t') = qs(i := f', j := t')" "v1(i := [], j := v1 j @ zs) = v(i := [], j := v j @ (ys @ zs))"
    using Cons(4) by (auto simp: v1_def fun_eq_iff)
  moreover have "subseq (ys @ zs) (v i)" using z(1) Cons(2)[symmetric] by (auto simp: ys_def)
  ultimately show ?case using z(2) by metis
qed

lemma catq_inv:
  assumes "cl_inv U s qs v" and "i \<noteq> j" and "catq (qs i) (qs j) s = (f', t', s')"
  shows "\<exists>ys. subseq ys (v i) \<and> (v j = [] \<longrightarrow> ys = v i) \<and> cl_inv U s' (qs(i := f', j := t')) (v(i := [], j := v j @ ys))"
proof (cases "c_cc (qs j) = 0")
  case True
  obtain B fs where B: "\<And>k. pool s (qs k) (B k) fs" "\<And>k. chars s (qs k) (B k) = v k" "\<And>k l. k \<noteq> l \<Longrightarrow> set (B k) \<inter> set (B l) = {}"
      "(\<Union>k. set (B k)) \<union> set fs = U" using assms(1) unfolding cl_inv_def by metis
  have j: "B j = []" "v j = []" using pool_empty[OF B(1), of j] True B(2)[of j] by (auto simp: chars_def)
  have e: "f' = no_chars" "t' = qs i" "s' = s" using assms(3) True by (auto simp: catq_def)
  define B' where "B' = B(i := [], j := B i)"
  have "\<forall>k. pool s ((qs(i := f', j := t')) k) (B' k) fs \<and> chars s ((qs(i := f', j := t')) k) (B' k) = (v(i := [], j := v i)) k"
    using B(1,2) e j assms(2) unfolding B'_def by (auto simp: pool_def chars_def)
  moreover have "\<forall>k l. k \<noteq> l \<longrightarrow> set (B' k) \<inter> set (B' l) = {}" using B(3) unfolding B'_def by auto
  moreover have "(\<Union>k. set (B' k)) = (\<Union>k. set (B k))"
  proof (intro equalityI subsetI)
    fix x assume "x \<in> (\<Union>k. set (B k))"
    then obtain k where "x \<in> set (B k)" by blast
    then have "x \<in> set (B' (if k = i then j else k))" using j(1) assms(2) by (auto simp: B'_def)
    then show "x \<in> (\<Union>k. set (B' k))" by blast
  qed (auto simp: B'_def split: if_splits)
  ultimately have "cl_inv U s' (qs(i := f', j := t')) (v(i := [], j := v i))" using B(4) unfolding cl_inv_def e(3) by metis
  then show ?thesis using j(2) by (intro exI[of _ "v i"]) simp
next
  case False
  obtain bs fs where p: "pool s (qs j) bs fs" "chars s (qs j) bs = v j" using cl_inv_pool[OF assms(1)] .
  have "v j \<noteq> []" using p False by (auto simp: pool_def holds_def holds0_def chars_def)
  then show ?thesis using catq_loop_inv[OF assms(1,2), of f' t' s'] assms(3) False by (auto simp: catq_def)
qed

subsection \<open>The lists as queues of characters\<close>

text \<open>A call on one of the lists, and what it returns.\<close>

datatype clop = Putc nat int | Getc nat | Unputc nat | B_to_q nat "byte list" | Q_to_b nat int | Ndflush nat int | Catq nat nat

datatype clout = Code int | Chars "byte list" | Nothing

definition cl_step :: "clop \<Rightarrow> clsys \<times> (nat \<Rightarrow> clist) \<Rightarrow> (clout \<times> clsys \<times> (nat \<Rightarrow> clist)) option" where
  "cl_step op sq = (let (s, qs) = sq in case op of
       Putc i c \<Rightarrow> (case putc c (qs i) s of (r, q, s1) \<Rightarrow> Some (Code r, s1, qs(i := q)))
     | Getc i \<Rightarrow> (case getc (qs i) s of (r, q, s1) \<Rightarrow> Some (Code r, s1, qs(i := q)))
     | Unputc i \<Rightarrow> map_option (\<lambda>(r, q, s1). (Code r, s1, qs(i := q))) (unputc (qs i) s)
     | B_to_q i cp \<Rightarrow> (case b_to_q cp (qs i) s of (r, q, s1) \<Rightarrow> Some (Code r, s1, qs(i := q)))
     | Q_to_b i cc \<Rightarrow> (case q_to_b (qs i) cc s of (got, q, s1) \<Rightarrow> Some (Chars got, s1, qs(i := q)))
     | Ndflush i cc \<Rightarrow> map_option (\<lambda>(q, s1). (Nothing, s1, qs(i := q))) (ndflush (qs i) cc s)
     | Catq i j \<Rightarrow> (case catq (qs i) (qs j) s of (f, t, s1) \<Rightarrow> Some (Nothing, s1, qs(i := f, j := t))))"

text \<open>Each result is kept with whether a free block is left.\<close>

fun cl_run :: "clop list \<Rightarrow> clsys \<times> (nat \<Rightarrow> clist) \<Rightarrow> ((clout \<times> bool) list \<times> clsys \<times> (nat \<Rightarrow> clist)) option" where
  "cl_run [] sq = Some ([], sq)"
| "cl_run (op # ops) sq = (case cl_step op sq of None \<Rightarrow> None
     | Some (out, s1, qs1) \<Rightarrow> map_option (\<lambda>(outs, sq2). ((out, cfreelist s1 = 0) # outs, sq2)) (cl_run ops (s1, qs1)))"

text \<open>The specification: queues of characters.  A character may come back with the quote bit, from \<open>unputc\<close> as a
  signed \<^verbatim>\<open>char\<close>; only when no block is free may characters be refused, or lost in \<open>catq\<close>.\<close>

inductive fifo :: "(nat \<Rightarrow> byte list) \<Rightarrow> clop \<Rightarrow> clout \<times> bool \<Rightarrow> (nat \<Rightarrow> byte list) \<Rightarrow> bool" where
  "fifo v (Putc i c) (Code 0, full) (v(i := v i @ [of_int c]))"
| "fifo v (Putc i c) (Code (- 1), True) v"
| "v i = [] \<Longrightarrow> fifo v (Getc i) (Code (- 1), full) v"
| "v i = x # xs \<Longrightarrow> c = uint x \<or> c = uint x OR TTY_QUOTE \<Longrightarrow> fifo v (Getc i) (Code c, full) (v(i := xs))"
| "v i = [] \<Longrightarrow> fifo v (Unputc i) (Code (- 1), full) v"
| "v i = xs @ [x] \<Longrightarrow> c = sint x \<or> c = sint x OR TTY_QUOTE \<Longrightarrow> fifo v (Unputc i) (Code c, full) (v(i := xs))"
| "n \<le> length cp \<Longrightarrow> n \<noteq> 0 \<longrightarrow> full \<Longrightarrow> fifo v (B_to_q i cp) (Code (int n), full) (v(i := v i @ take (length cp - n) cp))"
| "fifo v (Q_to_b i cc) (Chars (take (nat cc) (v i)), full) (v(i := drop (nat cc) (v i)))"
| "fifo v (Ndflush i cc) (Nothing, full) (v(i := drop (nat cc) (v i)))"
| "subseq ys (v i) \<Longrightarrow> v j = [] \<longrightarrow> ys = v i \<Longrightarrow> fifo v (Catq i j) (Nothing, full) (v(i := [], j := v j @ ys))"

inductive fifo_run :: "(nat \<Rightarrow> byte list) \<Rightarrow> clop list \<Rightarrow> (clout \<times> bool) list \<Rightarrow> (nat \<Rightarrow> byte list) \<Rightarrow> bool" where
  fifo_nil: "fifo_run v [] [] v"
| fifo_cons: "fifo v op out v1 \<Longrightarrow> fifo_run v1 ops outs v2 \<Longrightarrow> fifo_run v (op # ops) (out # outs) v2"

definition two_lists :: "clop \<Rightarrow> bool" where
  "two_lists op = (case op of Catq i j \<Rightarrow> i \<noteq> j | _ \<Rightarrow> True)"

lemma putc_freelist: "putc c q s = (- 1, q', s') \<Longrightarrow> cfreelist s' = 0"
  by (auto simp: putc_def store_char_def Let_def split: if_splits prod.splits)

lemma cl_step_fifo:
  assumes "cl_inv U s qs v" and "two_lists op"
  shows "\<exists>out s' qs' v'. cl_step op (s, qs) = Some (out, s', qs') \<and> cl_inv U s' qs' v' \<and> fifo v op (out, cfreelist s' = 0) v'"
proof (cases op)
  case (Putc i c)
  obtain rv q' s' where p: "putc c (qs i) s = (rv, q', s')" by (metis surj_pair)
  note pi = putc_inv[OF assms(1) p]
  show ?thesis
  proof (cases "rv = 0")
    case True
    then show ?thesis using pi Putc p fifo.intros(1)[of v i c] by (fastforce simp: cl_step_def)
  next
    case False
    then have rv: "rv = - 1" "cfreelist s' = 0" using pi(2) p putc_freelist by auto
    then show ?thesis using pi Putc p fifo.intros(2)[of v i c] by (fastforce simp: cl_step_def)
  qed
next
  case (Getc i)
  obtain c q' s' where p: "getc (qs i) s = (c, q', s')" by (metis surj_pair)
  note gi = getc_inv[OF assms(1) p]
  have "fifo v op (Code c, cfreelist s' = 0) (v(i := tl (v i)))" using gi(2) unfolding Getc
    by (cases "v i") (auto simp: quoted_def fun_upd_idem intro!: fifo.intros(3,4))
  then show ?thesis using gi(1) Getc p by (auto simp: cl_step_def)
next
  case (Unputc i)
  obtain bs fs where b: "pool s (qs i) bs fs" "chars s (qs i) bs = v i" using cl_inv_pool[OF assms(1)] .
  obtain c q' s' where u: "unputc (qs i) s = Some (c, q', s')"
      "if v i = [] then c = - 1 else c = quoted (sint (last (v i))) (c_cl (qs i) - 1) s"
    using unputc_moved[OF b(1)] b(2) by auto
  have "cl_inv U s' (qs(i := q')) (v(i := butlast (v i)))" by (rule cl_inv_moved[OF assms(1)]) (use unputc_moved u(1) in fastforce)
  moreover have "fifo v op (Code c, cfreelist s' = 0) (v(i := butlast (v i)))" using u(2) unfolding Unputc
    by (cases "v i" rule: rev_cases) (auto simp: quoted_def fun_upd_idem intro!: fifo.intros(5,6))
  ultimately show ?thesis using Unputc u(1) by (auto simp: cl_step_def)
next
  case (B_to_q i cp)
  obtain n q' s' where p: "b_to_q cp (qs i) s = (n, q', s')" by (metis surj_pair)
  obtain bs fs where b: "pool s (qs i) bs fs" "chars s (qs i) bs = v i" using cl_inv_pool[OF assms(1)] .
  have "cl_inv U s' (qs(i := q')) (v(i := v i @ take (length cp - nat n) cp))"
    by (rule cl_inv_moved[OF assms(1)]) (use b_to_q_moved[OF _ p] in fastforce)
  moreover have "fifo v op (Code (int (nat n)), cfreelist s' = 0) (v(i := v i @ take (length cp - nat n) cp))"
    unfolding B_to_q by (rule fifo.intros(7)) (use b_to_q_moved[OF b(1) p] in auto)
  ultimately show ?thesis using B_to_q p b_to_q_moved[OF b(1) p] by (auto simp: cl_step_def)
next
  case (Q_to_b i cc)
  obtain got q' s' where p: "q_to_b (qs i) cc s = (got, q', s')" by (metis surj_pair)
  obtain bs fs where b: "pool s (qs i) bs fs" "chars s (qs i) bs = v i" using cl_inv_pool[OF assms(1)] .
  have "cl_inv U s' (qs(i := q')) (v(i := drop (nat cc) (v i)))" by (rule cl_inv_moved[OF assms(1)]) (use q_to_b_moved(2)[OF _ p] in fastforce)
  then show ?thesis using Q_to_b p q_to_b_moved(1)[OF b(1) p] b(2) fifo.intros(8)[of v i cc] by (auto simp: cl_step_def)
next
  case (Ndflush i cc)
  obtain bs fs where b: "pool s (qs i) bs fs" "chars s (qs i) bs = v i" using cl_inv_pool[OF assms(1)] .
  obtain q' s' where n: "ndflush (qs i) cc s = Some (q', s')" using ndflush_moved[OF b(1)] by blast
  have "cl_inv U s' (qs(i := q')) (v(i := drop (nat cc) (v i)))" by (rule cl_inv_moved[OF assms(1)]) (use ndflush_moved[of s "qs i" _ _ cc] n in fastforce)
  then show ?thesis using Ndflush n fifo.intros(9)[of v i cc] by (auto simp: cl_step_def)
next
  case (Catq i j)
  obtain f t s' where c: "catq (qs i) (qs j) s = (f, t, s')" by (metis surj_pair)
  obtain ys where y: "subseq ys (v i)" "v j = [] \<longrightarrow> ys = v i" "cl_inv U s' (qs(i := f, j := t)) (v(i := [], j := v j @ ys))"
    using catq_inv[OF assms(1) _ c] assms(2) Catq by (auto simp: two_lists_def)
  then show ?thesis using Catq c fifo.intros(10)[OF y(1,2)] by (auto simp: cl_step_def)
qed

lemma cl_run_fifo:
  assumes "cl_inv U s qs v" and "list_all two_lists ops"
  shows "\<exists>outs s' qs' v'. cl_run ops (s, qs) = Some (outs, s', qs') \<and> cl_inv U s' qs' v' \<and> fifo_run v ops outs v'"
  using assms
proof (induction ops arbitrary: s qs v)
  case Nil
  then show ?case using fifo_nil by auto
next
  case (Cons op ops)
  obtain out s1 qs1 v1 where st: "cl_step op (s, qs) = Some (out, s1, qs1)" "cl_inv U s1 qs1 v1" "fifo v op (out, cfreelist s1 = 0) v1"
    using cl_step_fifo[OF Cons(2), of op] Cons(3) by auto
  obtain outs s2 qs2 v2 where rn: "cl_run ops (s1, qs1) = Some (outs, s2, qs2)" "cl_inv U s2 qs2 v2" "fifo_run v1 ops outs v2"
    using Cons(1)[OF st(2)] Cons(3) by auto
  then show ?case using st fifo_cons[OF st(3) rn(3)] by auto
qed

subsection \<open>From \<^verbatim>\<open>cinit\<close> on\<close>

definition cblocks :: "nat \<Rightarrow> nat \<Rightarrow> nat list" where
  "cblocks cfree nclist = filter (\<lambda>cp. cp < cfree + CBLOCK * (nclist - 1))
     (map (\<lambda>i. c_base (cfree + (CBLOCK - 1)) + CBLOCK * i) [0 ..< nclist])"

lemma fold_push_free:
  "free_list s fs \<Longrightarrow> list_all block_ok bs \<Longrightarrow> distinct bs \<Longrightarrow> set bs \<inter> set fs = {} \<Longrightarrow> free_list (fold push_cblock bs s) (rev bs @ fs)"
proof (induction bs arbitrary: s fs)
  case (Cons b bs)
  have "free_list (push_cblock b s) (b # fs)" by (rule push_cblock_free) (use Cons in auto)
  then have "free_list (fold push_cblock bs (push_cblock b s)) (rev bs @ b # fs)" by (rule Cons.IH) (use Cons.prems in auto)
  then show ?case by simp
qed simp

lemma cblocks_ok: "0 < cfree \<Longrightarrow> list_all block_ok (cblocks cfree nclist)" and cblocks_distinct: "distinct (cblocks cfree nclist)"
proof -
  have base: "c_base p = CBLOCK * (p div CBLOCK)" for p by (simp add: c_base_def c_round_def minus_mod_eq_mult_div)
  have "0 < cfree \<Longrightarrow> 0 < c_base (cfree + (CBLOCK - 1))" unfolding base by (simp add: CBLOCK_def div_greater_zero_iff)
  moreover have "CBLOCK dvd c_base p" for p unfolding base by simp
  ultimately show "0 < cfree \<Longrightarrow> list_all block_ok (cblocks cfree nclist)"
    by (auto simp: cblocks_def block_ok_def list_all_iff)
  show "distinct (cblocks cfree nclist)" by (auto simp: cblocks_def distinct_map inj_on_def CBLOCK_def)
qed

lemma cinit_inv:
  assumes "0 < cfree" and "cfreelist s = 0" and "cfreecount s = 0"
  shows "cl_inv (set (cblocks cfree nclist)) (cinit cfree nclist s) (\<lambda>_. no_chars) (\<lambda>_. [])"
proof -
  have "free_list s []" using assms(2,3) by (simp add: free_list_def)
  then have "free_list (cinit cfree nclist s) (rev (cblocks cfree nclist) @ [])"
    unfolding cinit_def Let_def cblocks_def[symmetric] by (rule fold_push_free) (use cblocks_ok[OF assms(1)] cblocks_distinct in auto)
  then show ?thesis unfolding cl_inv_def
    by (intro exI[of _ "\<lambda>_. []"] exI[of _ "rev (cblocks cfree nclist)"]) (simp add: pool_def chars_def)
qed


definition ex_clsys :: clsys where
  "ex_clsys = \<lparr>c_next = (\<lambda>_. 0), c_quote = (\<lambda>_. False), c_info = (\<lambda>_. 0), cfreelist = 0, cfreecount = 0, cwaiting = False, wakeups = 0\<rparr>"


subsection \<open>Filling and emptying a list\<close>

lemma free_count:
  assumes "free_list s fs" and "free_list s' fs'" and "set fs' = set fs"
  shows "cfreecount s' = cfreecount s"
  using assms by (simp add: free_list_def) (metis distinct_card)

lemma b_to_q_to_b:
  assumes "cl_inv U s qs v" and "b_to_q cp (qs i) s = (0, q1, s1)" and "q_to_b q1 (int (length (v i) + length cp)) s1 = (got, q2, s2)"
  shows "got = v i @ cp" and "q2 = no_chars" and "v i = [] \<longrightarrow> cfreecount s2 = cfreecount s"
proof -
  obtain bs fs where b: "pool s (qs i) bs fs" "chars s (qs i) bs = v i" using cl_inv_pool[OF assms(1)] .
  obtain bs1 fs1 where m1: "pool s1 q1 bs1 fs1" "chars s1 q1 bs1 = v i @ cp" "set bs1 \<union> set fs1 = set bs \<union> set fs"
    using b_to_q_moved[OF b(1) assms(2)] b(2) unfolding moved_def by auto
  note m2 = q_to_b_moved[OF m1(1) assms(3)]
  show "got = v i @ cp" using m2(1) m1(2) by (simp add: nat_int_add)
  obtain bs2 fs2 where p2: "pool s2 q2 bs2 fs2" "chars s2 q2 bs2 = []" "set bs2 \<union> set fs2 = set bs1 \<union> set fs1"
    using m2(2) m1(2) unfolding moved_def by (auto simp: nat_int_add)
  then have z: "c_cc q2 \<le> 0" by (simp add: pool_def holds_def holds0_def chars_def)
  show "q2 = no_chars" using pool_empty[OF p2(1) z] by simp
  have "bs2 = []" using pool_empty[OF p2(1) z] by simp
  moreover have "v i = [] \<Longrightarrow> c_cc (qs i) \<le> 0" using b by (simp add: pool_def holds_def holds0_def chars_def)
  then have "v i = [] \<Longrightarrow> bs = []" using pool_empty[OF b(1)] by simp
  ultimately have "v i = [] \<Longrightarrow> set fs2 = set fs" using p2(3) m1(3) by simp
  moreover have "free_list s fs" "free_list s2 fs2" using p2(1) b(1) by (simp_all add: pool_def)
  ultimately show "v i = [] \<longrightarrow> cfreecount s2 = cfreecount s" using free_count by blast
qed

text \<open>Round trip through a list.  A buffer that \<^verbatim>\<open>b_to_q\<close> took in whole, put behind what the list held, comes out
  of \<^verbatim>\<open>q_to_b\<close> byte for byte, whatever the buffer's size relative to the blocks; reading everything leaves the list
  empty, and a list that was empty before leaves as much room in the free blocks as there was before.\<close>

theorem clist_roundtrip:
  assumes "cl_inv U s qs v" and "b_to_q cp (qs i) s = (0, q1, s1)" and "q_to_b q1 (int (length (v i) + length cp)) s1 = (got, q2, s2)"
  shows "got = v i @ cp \<and> q2 = no_chars \<and> (v i = [] \<longrightarrow> cfreecount s2 = cfreecount s)"
  using b_to_q_to_b[OF assms] by blast

lemma ex_cinit: "cfreelist (cinit 1000 4 ex_clsys) = 1152" "c_next (cinit 1000 4 ex_clsys) 1152 = 1088"
  by (simp_all add: cinit_def ex_clsys_def cblock_defs push_cblock_def upt_rec)

theorem clist_roundtrip_witness:
  "\<exists>q1 s1 got q2 s2. b_to_q [66, 67] no_chars (cinit 1000 4 ex_clsys) = (0, q1, s1) \<and> q_to_b q1 2 s1 = (got, q2, s2)
    \<and> got = [66, 67] \<and> q2 = no_chars \<and> cfreecount s2 = cfreecount (cinit 1000 4 ex_clsys)"
proof -
  have inv: "cl_inv (set (cblocks 1000 4)) (cinit 1000 4 ex_clsys) (\<lambda>_. no_chars) (\<lambda>_. [])"
    by (rule cinit_inv) (simp_all add: ex_clsys_def)
  obtain q1 s1 where b: "b_to_q [66, 67] no_chars (cinit 1000 4 ex_clsys) = (0, q1, s1)"
    by (simp add: b_to_q_def no_chars_def ex_cinit take_cblock_def b_to_q_loop.simps Let_def cblock_defs)
  obtain got q2 s2 where "q_to_b q1 2 s1 = (got, q2, s2)" by (metis surj_pair)
  then show ?thesis using clist_roundtrip[OF inv b] b by auto
qed

subsection \<open>Contiguous characters\<close>

text \<open>\<^verbatim>\<open>ndqb\<close> counts characters that are adjacent in memory from \<^verbatim>\<open>c_cf\<close> on, so that a driver may hand the address to
  the device: they are the first of the list, none has a flagged bit, and the next, if in the block, has.\<close>

lemma ndqb_prefix:
  fixes flag :: int
  assumes "pool s q (b # r) fs"
  defines "n \<equiv> nat (ndqb q flag s)"
  shows "map (c_info s) [c_cf q ..< c_cf q + n] = take n (chars s q (b # r))"
    and "flag \<noteq> 0 \<Longrightarrow> \<forall>x \<in> set (take n (chars s q (b # r))). sint x AND flag = 0"
    and "flag = 0 \<Longrightarrow> ndqb q flag s = min (c_cc q) (int (b + 64 - c_cf q))"
proof -
  note f = pool_front[OF assms(1)]
  have pos: "0 < c_cc q" using assms(1) holds_nonempty[of "c_next s" q "b # r"] by (simp add: pool_def)
  have base: "c_base (c_cf q + CBSIZE) = b + 64"
  proof -
    have "block_ok (b + 64)" using f(1) by (simp add: block_ok_def CBLOCK_def)
    then show ?thesis using in_block(1)[of "b + 64" "c_cf q + CBSIZE"] f(2,3) by (simp add: first_info_def CBSIZE_def CBQSIZE_def CBLOCK_def)
  qed
  define m where "m = min (c_cc q) (int (b + 64 - c_cf q))"
  have m: "0 < m" "m \<le> c_cc q" "m \<le> int (b + 64 - c_cf q)" using pos f(3) by (auto simp: m_def)
  have unf: "ndqb q flag s = (if flag = 0 then m
      else int (length (takeWhile (\<lambda>p. sint (c_info s p) AND flag = 0) [c_cf q ..< nat (int (c_cf q) + m)])))"
    using pos f(3) by (auto simp: ndqb_def Let_def base m_def min_def of_nat_diff)
  then show "flag = 0 \<Longrightarrow> ndqb q flag s = min (c_cc q) (int (b + 64 - c_cf q))" by (simp add: m_def)
  let ?tw = "takeWhile (\<lambda>p. sint (c_info s p) AND flag = 0) [c_cf q ..< nat (int (c_cf q) + m)]"
  have le: "length ?tw \<le> nat m" using length_takeWhile_le[of _ "[c_cf q ..< nat (int (c_cf q) + m)]"] by (metis length_upt add.commute diff_add_inverse nat_int nat_int_add int_nat_eq m(1) nat_0_le order.strict_implies_order of_nat_add)
  then have n: "int n \<le> m" using unf m(1) by (auto simp: n_def)
  show pre: "map (c_info s) [c_cf q ..< c_cf q + n] = take n (chars s q (b # r))"
    by (rule front_take[OF assms(1)]) (use n m f(5) in auto)
  show "\<forall>x \<in> set (take n (chars s q (b # r))). sint x AND flag = 0" if "flag \<noteq> 0"
  proof -
    have nl: "n = length ?tw" using unf that by (simp add: n_def)
    have "nat (int (c_cf q) + m) = c_cf q + nat m" using m(1) by simp
    moreover have "?tw = take n [c_cf q ..< nat (int (c_cf q) + m)]" unfolding nl by (rule takeWhile_eq_take)
    ultimately have "?tw = [c_cf q ..< c_cf q + n]" using n m(1) by (simp add: take_upt)
    moreover have "\<forall>p \<in> set ?tw. sint (c_info s p) AND flag = 0" by (auto dest: set_takeWhileD)
    ultimately show ?thesis unfolding pre[symmetric] by simp
  qed
qed

subsection \<open>Walking a list\<close>

lemma upt_split:
  assumes eq: "[f ..< l] @ zs = xs @ a # ys" and "length xs < l - f"
  shows "a = f + length xs" and "ys = [f + length xs + 1 ..< l] @ zs"
proof -
  have "([f ..< l] @ zs) ! length xs = a" unfolding eq by simp
  then show "a = f + length xs" using assms(2) by (simp add: nth_append)
  have "drop (length xs + 1) ([f ..< l] @ zs) = ys" unfolding eq by simp
  then show "ys = [f + length xs + 1 ..< l] @ zs" using assms(2) by (simp add: drop_upt)
qed

lemma append_beyond:
  assumes "us @ vs = xs @ a # ys" and "length us \<le> length xs"
  shows "vs = drop (length us) xs @ a # ys"
proof -
  have "drop (length us) (us @ vs) = drop (length us) (xs @ a # ys)" unfolding assms(1) ..
  then show ?thesis using assms(2) by simp
qed

text \<open>From the address of a character, \<^verbatim>\<open>nextc\<close> gives the address of the next and its value, across blocks, and
  stops after the last.\<close>

lemma nextc_walk:
  assumes "holds (c_next s) q bs" and "addrs bs (c_cf q) (c_cl q) = xs @ a # ys" and "0 < c_cc q"
  shows "nextc q a s = (case ys of [] \<Rightarrow> None | a' # _ \<Rightarrow> Some (a', quoted (sint (c_info s a')) a' s))"
  using assms(1,2)
proof -
  have "nextc q a s = (case ys of [] \<Rightarrow> None | a' # _ \<Rightarrow> Some (a', quoted (sint (c_info s a')) a' s))"
    if "list_all block_ok bs" "distinct bs" "path (c_next s) (hd bs) bs 0" "first_info (hd bs) \<le> f" "f < hd bs + CBLOCK"
      "first_info (last bs) < c_cl q" "c_cl q \<le> last bs + CBLOCK" "tl bs = [] \<longrightarrow> f < c_cl q" "addrs bs f (c_cl q) = xs @ a # ys" for bs f xs
    using that
  proof (induction bs arbitrary: f xs)
    case (Cons b r)
    have b: "block_ok b" using Cons(2) by simp
    show ?case
    proof (cases r)
      case Nil
      have eq: "[f ..< c_cl q] = xs @ a # ys" using Cons.prems(9) Nil by simp
      have "length [f ..< c_cl q] = length (xs @ a # ys)" unfolding eq ..
      then have lx: "length xs < c_cl q - f" by simp
      then have len: "length xs < c_cl q - f" "a = f + length xs" "ys = [f + length xs + 1 ..< c_cl q]"
        using upt_split[of f "c_cl q" "[]" xs a ys] eq by simp_all
      show ?thesis
      proof (cases "a + 1 = c_cl q")
        case True
        then show ?thesis using len by (simp add: nextc_def)
      next
        case False
        then have "a + 1 < c_cl q" using len by linarith
        moreover have "c_round (a + 1) \<noteq> 0" using block_end(2)[OF b, of "a + 1"] Cons.prems(4,5,7) Nil len(2) \<open>a + 1 < c_cl q\<close> by (auto simp: first_info_def CBLOCK_def)
        ultimately show ?thesis using len assms(3) by (auto simp: nextc_def upt_rec[of "Suc (f + length xs)"])
      qed
    next
      case (Cons b' r')
      have eq: "[f ..< b + CBLOCK] @ addrs r (first_info b') (c_cl q) = xs @ a # ys" using Cons.prems(9) Cons by simp
      have ne: "addrs r (first_info b') (c_cl q) \<noteq> []" "hd (addrs r (first_info b') (c_cl q)) = first_info b'"
        using Cons.prems(6) Cons by (cases r'; auto simp: cblock_defs hd_append)+
      show ?thesis
      proof (cases "length xs < b + CBLOCK - f")
        case False
        then obtain zs where z: "addrs r (first_info b') (c_cl q) = zs @ a # ys" using append_beyond[OF eq] by auto
        show ?thesis by (rule Cons.IH[of "first_info b'" zs]) (use Cons.prems Cons z in \<open>auto simp: cblock_defs\<close>)
      next
        case True
        have a: "a = f + length xs" and ys: "ys = [a + 1 ..< b + CBLOCK] @ addrs r (first_info b') (c_cl q)"
          using upt_split[OF eq True] by simp_all
        have ncl: "a + 1 \<noteq> c_cl q"
        proof
          assume e: "a + 1 = c_cl q"
          have "c_base (c_cl q - 1) = last r" using block_end(1)[of "last r" "c_cl q"] Cons.prems(1,6,7) Cons by (auto simp: list_all_iff first_info_def CBLOCK_def)
          moreover have "c_base a = b" using in_block(1)[OF b, of a] Cons.prems(4) True a by (auto simp: first_info_def CBLOCK_def)
          ultimately show False using e Cons.prems(2) Cons by (metis add_diff_cancel_right' distinct.simps(2) last_in_set list.distinct(1))
        qed
        have rd: "c_round (a + 1) = 0 \<longleftrightarrow> a + 1 = b + CBLOCK" using block_end(2)[OF b, of "a + 1"] Cons.prems(4) True a by (auto simp: first_info_def CBLOCK_def)
        show ?thesis
        proof (cases "a + 1 = b + CBLOCK")
          case fin: True
          have "c_next s b = b'" using Cons.prems(3) Cons by simp
          then have "nextc q a s = Some (first_info b', quoted (sint (c_info s (first_info b'))) (first_info b') s)"
            using assms(3) ncl rd fin by (simp add: nextc_def Let_def)
          then show ?thesis using ys ne fin by (cases "addrs r (first_info b') (c_cl q)") auto
        next
          case no: False
          then have "a + 1 < b + CBLOCK" using True a by simp
          then show ?thesis using ys assms(3) ncl rd no by (simp add: nextc_def upt_rec[of "Suc a"])
        qed
      qed
    qed
  qed simp
  then show ?thesis using assms by (cases "bs = []") (auto simp: holds_def holds0_def)
qed

subsection \<open>Quoting\<close>

text \<open>\<^verbatim>\<open>putc\<close> clears the quote bits of the first block of a list only.  In a later block a character that is not quoted
  gets whatever bit the block's former contents left.\<close>

lemma putc_stale_quote:
  assumes "pool s q bs (f # r)" and "bs \<noteq> []" and "c_round (c_cl q) = 0" and "c_quote s (first_info f)" and "c AND TTY_QUOTE = 0"
  shows "\<exists>q' s'. putc c q s = (0, q', s') \<and> c_quote s' (c_cl q' - 1)"
proof -
  have "cfreelist s = f" "f \<noteq> 0" using assms(1) by (auto simp: pool_def free_list_def block_ok_def)
  moreover have "\<not> (c_cl q = 0 \<or> c_cc q < 0)" using pool_back(5,6)[OF assms(1,2)] by simp
  ultimately show ?thesis using assms(3-5) by (simp add: putc_def take_cblock_def store_char_def Let_def)
qed

end
