(* ===== verification/Uio.thy ===== *)
theory Uio
  imports Kernel_Prelude
begin

text \<open>
  Moving bytes between the kernel and a user: \<^verbatim>\<open>uiomove\<close> of \<^verbatim>\<open>sys/kern/kern_subr.c\<close> on \<^verbatim>\<open>struct uio\<close> of
  \<^verbatim>\<open>sys/sys/uio.h\<close>.  The user's memory appears as a stream of bytes: those stored in it so far (reading) or
  those still to be fetched (writing), in the order of the I/O vector.
\<close>

section \<open>Data\<close>

text \<open>\<open>iov_ok\<close>: the user may access the memory, so that \<^verbatim>\<open>copyin\<close> and \<^verbatim>\<open>copyout\<close> do not return \<^verbatim>\<open>EFAULT\<close>.\<close>

record iovec =
  iov_len :: nat
  iov_ok :: bool

record uio =
  uio_iov :: "iovec list"
  uio_resid :: int
  uio_mem :: "byte list"

section \<open>Moving\<close>

text \<open>\<^verbatim>\<open>UIO_READ\<close>: \<open>cp\<close> are the \<^verbatim>\<open>n\<close> bytes to move.  The vector must not end before \<^verbatim>\<open>uio_resid\<close> does.\<close>

function uiomove_read :: "byte list \<Rightarrow> uio \<Rightarrow> (errno option \<times> uio) kres" where
  "uiomove_read cp u =
     (if cp = [] \<or> uio_resid u = 0 then Ret (None, u)
      else case uio_iov u of [] \<Rightarrow> Fault
      | iov # r \<Rightarrow>
          if iov_len iov = 0 then uiomove_read cp (u\<lparr>uio_iov := r\<rparr>)
          else let cnt = min (iov_len iov) (length cp) in
            if \<not> iov_ok iov then Ret (Some EFAULT, u)
            else uiomove_read (drop cnt cp)
                   \<lparr>uio_iov = iov\<lparr>iov_len := iov_len iov - cnt\<rparr> # r, uio_resid = uio_resid u - int cnt,
                    uio_mem = uio_mem u @ take cnt cp\<rparr>)"
  by pat_completeness auto

termination
  by (relation "measure (\<lambda>(cp, u). length cp + length (uio_iov u))") auto

text \<open>\<^verbatim>\<open>UIO_WRITE\<close>: up to \<open>n\<close> bytes come from the user.\<close>

function uiomove_write :: "nat \<Rightarrow> uio \<Rightarrow> (errno option \<times> byte list \<times> uio) kres" where
  "uiomove_write n u =
     (if n = 0 \<or> uio_resid u = 0 then Ret (None, [], u)
      else case uio_iov u of [] \<Rightarrow> Fault
      | iov # r \<Rightarrow>
          if iov_len iov = 0 then uiomove_write n (u\<lparr>uio_iov := r\<rparr>)
          else let cnt = min (iov_len iov) n in
            if \<not> iov_ok iov then Ret (Some EFAULT, [], u)
            else kmap (\<lambda>(e, bs, u1). (e, take cnt (uio_mem u) @ bs, u1))
                   (uiomove_write (n - cnt)
                     \<lparr>uio_iov = iov\<lparr>iov_len := iov_len iov - cnt\<rparr> # r, uio_resid = uio_resid u - int cnt,
                      uio_mem = drop cnt (uio_mem u)\<rparr>))"
  by pat_completeness auto

termination
  by (relation "measure (\<lambda>(n, u). n + length (uio_iov u))") auto

declare uiomove_read.simps [simp del] uiomove_write.simps [simp del]

section \<open>What is moved\<close>

text \<open>The vector has room for exactly \<^verbatim>\<open>uio_resid\<close> bytes, all accessible.\<close>

definition room :: "uio \<Rightarrow> bool" where
  "room u = (list_all iov_ok (uio_iov u) \<and> uio_resid u = int (sum_list (map iov_len (uio_iov u))))"

lemma uiomove_read_exact:
  assumes "room u" and "int (length cp) \<le> uio_resid u"
  shows "\<exists>u'. uiomove_read cp u = Ret (None, u') \<and> room u' \<and> uio_resid u' = uio_resid u - int (length cp)
    \<and> uio_mem u' = uio_mem u @ cp"
  using assms
proof (induction cp u rule: uiomove_read.induct)
  case (1 cp u)
  show ?case
  proof (cases "cp = []")
    case True
    then show ?thesis using 1(3) by (simp add: uiomove_read.simps)
  next
    case False
    then have ne: "\<not> (cp = [] \<or> uio_resid u = 0)" using 1(4) by auto
    then obtain iov r where u: "uio_iov u = iov # r" using 1(3) by (cases "uio_iov u") (auto simp: room_def)
    show ?thesis
    proof (cases "iov_len iov = 0")
      case True
      have "\<exists>u'. uiomove_read cp (u\<lparr>uio_iov := r\<rparr>) = Ret (None, u') \<and> room u' \<and> uio_resid u' = uio_resid (u\<lparr>uio_iov := r\<rparr>) - int (length cp)
          \<and> uio_mem u' = uio_mem (u\<lparr>uio_iov := r\<rparr>) @ cp"
        by (rule 1(1)[OF ne u True]) (use 1(3,4) u True in \<open>auto simp: room_def\<close>)
      then show ?thesis using ne u True by (simp add: uiomove_read.simps[of cp u])
    next
      case no: False
      define cnt where "cnt = min (iov_len iov) (length cp)"
      define u1 where "u1 = \<lparr>uio_iov = iov\<lparr>iov_len := iov_len iov - cnt\<rparr> # r, uio_resid = uio_resid u - int cnt, uio_mem = uio_mem u @ take cnt cp\<rparr>"
      have ok: "iov_ok iov" "room u1" "int (length (drop cnt cp)) \<le> uio_resid u1" using 1(3,4) u by (auto simp: room_def u1_def cnt_def)
      have "\<exists>u'. uiomove_read (drop cnt cp) u1 = Ret (None, u') \<and> room u' \<and> uio_resid u' = uio_resid u1 - int (length (drop cnt cp))
          \<and> uio_mem u' = uio_mem u1 @ drop cnt cp"
        using 1(2)[OF ne u no cnt_def _ ok(2,3)[unfolded u1_def]] ok(1) by (simp add: u1_def)
      moreover have "uiomove_read cp u = uiomove_read (drop cnt cp) u1"
        using ne u no ok(1) by (simp add: uiomove_read.simps[of cp u] cnt_def u1_def Let_def)
      moreover have "cnt \<le> length cp" by (simp add: cnt_def)
      ultimately show ?thesis by (auto simp: u1_def)
    qed
  qed
qed

text \<open>For a writer the bytes to fetch fill the vector.\<close>

definition source :: "uio \<Rightarrow> bool" where
  "source u = (room u \<and> uio_resid u = int (length (uio_mem u)))"

lemma uiomove_write_exact:
  assumes "source u" and "int n \<le> uio_resid u"
  shows "\<exists>u'. uiomove_write n u = Ret (None, take n (uio_mem u), u') \<and> source u' \<and> uio_resid u' = uio_resid u - int n
    \<and> uio_mem u' = drop n (uio_mem u)"
  using assms
proof (induction n u rule: uiomove_write.induct)
  case (1 n u)
  show ?case
  proof (cases "n = 0")
    case True
    then show ?thesis using 1(3) by (simp add: uiomove_write.simps)
  next
    case False
    then have ne: "\<not> (n = 0 \<or> uio_resid u = 0)" using 1(4) by auto
    then obtain iov r where u: "uio_iov u = iov # r" using 1(3) by (cases "uio_iov u") (auto simp: room_def source_def)
    show ?thesis
    proof (cases "iov_len iov = 0")
      case True
      have "\<exists>u'. uiomove_write n (u\<lparr>uio_iov := r\<rparr>) = Ret (None, take n (uio_mem (u\<lparr>uio_iov := r\<rparr>)), u') \<and> source u'
          \<and> uio_resid u' = uio_resid (u\<lparr>uio_iov := r\<rparr>) - int n \<and> uio_mem u' = drop n (uio_mem (u\<lparr>uio_iov := r\<rparr>))"
        by (rule 1(1)[OF ne u True]) (use 1(3,4) u True in \<open>auto simp: room_def source_def\<close>)
      then show ?thesis using ne u True by (simp add: uiomove_write.simps[of n u])
    next
      case no: False
      define cnt where "cnt = min (iov_len iov) n"
      define u1 where "u1 = \<lparr>uio_iov = iov\<lparr>iov_len := iov_len iov - cnt\<rparr> # r, uio_resid = uio_resid u - int cnt, uio_mem = drop cnt (uio_mem u)\<rparr>"
      have ok: "iov_ok iov" "source u1" "int (n - cnt) \<le> uio_resid u1" using 1(3,4) u by (auto simp: room_def source_def u1_def cnt_def)
      have ih: "\<exists>u'. uiomove_write (n - cnt) u1 = Ret (None, take (n - cnt) (uio_mem u1), u') \<and> source u' \<and> uio_resid u' = uio_resid u1 - int (n - cnt)
          \<and> uio_mem u' = drop (n - cnt) (uio_mem u1)"
        using 1(2)[OF ne u no cnt_def _ ok(2,3)[unfolded u1_def]] ok(1) by (simp add: u1_def)
      have "uiomove_write n u = kmap (\<lambda>(e, bs, u1). (e, take cnt (uio_mem u) @ bs, u1)) (uiomove_write (n - cnt) u1)"
        using ne u no ok(1) by (simp add: uiomove_write.simps[of n u] cnt_def u1_def Let_def)
      moreover have "cnt \<le> n" "take cnt (uio_mem u) @ take (n - cnt) (drop cnt (uio_mem u)) = take n (uio_mem u)"
        using take_add[of cnt "n - cnt" "uio_mem u"] by (auto simp: cnt_def)
      ultimately show ?thesis using ih by (auto simp: u1_def)
    qed
  qed
qed

end
