(* ===== verification/Soreceive.thy ===== *)
theory Soreceive
  imports Tcp_Usrreq Uio
begin

text \<open>
  Receiving on a socket: \<^verbatim>\<open>soreceive\<close> of \<^verbatim>\<open>sys/kern/uipc_socket.c\<close>, cut at its paragraphs.  The protocol is reached
  through \<^verbatim>\<open>so_proto\<close>, here the argument \<open>pr\<close>.  Each sleep of the process is an argument: what the
  rest of the system did meanwhile and the error \<^verbatim>\<open>tsleep\<close> returned; the operation is \<open>None\<close> when it sleeps after the
  last of them.  Between sleeps it is not interrupted; checks under \<^verbatim>\<open>DIAGNOSTIC\<close> are left out.
\<close>

section \<open>Protocols and arguments\<close>

datatype msg_flag = MSG_OOB | MSG_PEEK | MSG_DONTROUTE | MSG_EOR | MSG_TRUNC | MSG_CTRUNC | MSG_WAITALL

datatype pr_flag = PR_ATOMIC | PR_ADDR | PR_CONNREQUIRED | PR_WANTRCVD | PR_RIGHTS

text \<open>The domain's \<^verbatim>\<open>dom_externalize\<close>, and which control messages have type \<^verbatim>\<open>SCM_RIGHTS\<close>.\<close>

record protosw =
  pr_flags :: "pr_flag set"
  pr_usrreq :: "nat \<Rightarrow> pru \<Rightarrow> chain \<Rightarrow> tcp \<Rightarrow> (errno option \<times> reply \<times> tcp) run"
  dom_externalize :: "(mbuf \<Rightarrow> errno option \<times> mbuf) option"
  scm_rights :: "mbuf \<Rightarrow> bool"

type_synonym sleeps = "(tcp \<Rightarrow> errno option \<times> tcp) list"

definition sosendallatonce :: "protosw \<Rightarrow> bool" where
  "sosendallatonce pr = (PR_ATOMIC \<in> pr_flags pr)"

definition so_upd :: "nat \<Rightarrow> (socket \<Rightarrow> socket) \<Rightarrow> tcp \<Rightarrow> tcp" where
  "so_upd i f t = t\<lparr>stab := upd i f (stab t)\<rparr>"

abbreviation so_at :: "nat \<Rightarrow> tcp \<Rightarrow> socket" where
  "so_at i t \<equiv> sock (stab t) i"

definition so_lock :: "(sockbuf \<Rightarrow> sleep) list \<Rightarrow> nat \<Rightarrow> sbsel \<Rightarrow> tcp \<Rightarrow> (errno option \<times> tcp) option" where
  "so_lock slp i w t = map_option (\<lambda>(e, sb). (e, so_upd i (sb_set w sb) t)) (sblock slp (sb_of w (so_at i t)))"

definition so_unlock :: "nat \<Rightarrow> sbsel \<Rightarrow> tcp \<Rightarrow> tcp" where
  "so_unlock i w t = (let (sb, wanted) = sbunlock (sb_of w (so_at i t)); t1 = so_upd i (sb_set w sb) t
     in if wanted then t1\<lparr>stab := post [Wakeup (W_flags i w)] (stab t1)\<rparr> else t1)"

definition so_sbwait :: "(tcp \<Rightarrow> errno option \<times> tcp) \<Rightarrow> nat \<Rightarrow> sbsel \<Rightarrow> tcp \<Rightarrow> errno option \<times> tcp" where
  "so_sbwait tsleep i w t = tsleep (so_upd i (\<lambda>x. sb_set w ((sb_of w x)\<lparr>SB_WAIT := True\<rparr>) x) t)"

text \<open>\<^verbatim>\<open>paddr\<close>, \<^verbatim>\<open>controlp\<close> and \<^verbatim>\<open>mp0\<close> are pointers that may be null.\<close>

record rcv_args =
  want_addr :: bool
  want_control :: bool
  want_mp :: bool
  rcv_flags :: "msg_flag set"

record rcv_result =
  rv_error :: "errno option"
  rv_addr :: chain
  rv_control :: chain
  rv_mp :: chain
  rv_flags :: "msg_flag set"
  rv_uio :: uio
  rv_tcp :: tcp

section \<open>Whether there is something to receive\<close>

datatype verdict = Release "errno option" | Block | Go

definition rcv_blocks :: "msg_flag set \<Rightarrow> int \<Rightarrow> sockbuf \<Rightarrow> bool" where
  "rcv_blocks flags resid sb = (sb_mb sb = [] \<or> sb_cc sb < of_int resid
     \<and> (sb_cc sb < of_int (sb_lowat sb) \<or> MSG_WAITALL \<in> flags \<and> of_int resid \<le> sb_hiwat sb))"

definition rcv_verdict :: "protosw \<Rightarrow> msg_flag set \<Rightarrow> int \<Rightarrow> socket \<Rightarrow> verdict" where
  "rcv_verdict pr flags resid x =
     (if \<not> rcv_blocks flags resid (so_rcv x) then Go
      else if so_error x \<noteq> None then Release (so_error x)
      else if SS_CANTRCVMORE \<in> so_state x then Release None
      else if so_state x \<inter> {SS_ISCONNECTED, SS_ISCONNECTING} = {} \<and> PR_CONNREQUIRED \<in> pr_flags pr then Release (Some ENOTCONN)
      else if resid = 0 then Release None
      else if SS_NBIO \<in> so_state x then Release (Some EWOULDBLOCK)
      else Block)"

section \<open>Address and control messages\<close>

text \<open>The first record is \<open>m # r\<close>; the result has the address passed back and what follows it.\<close>

definition rcv_addr :: "protosw \<Rightarrow> bool \<Rightarrow> bool \<Rightarrow> chain \<Rightarrow> sockbuf \<Rightarrow> mbsys \<Rightarrow> (chain \<times> chain \<times> sockbuf \<times> mbsys) kres" where
  "rcv_addr pr want peek c sb s =
     (if PR_ADDR \<notin> pr_flags pr then Ret ([], c, sb, s)
      else case c of [] \<Rightarrow> Fault
      | m # r \<Rightarrow>
          if peek then if want then kmap (\<lambda>(cp, s1). (cp, r, sb, s1)) (m_copym (m # r) 0 (m_len m) s) else Ret ([], r, sb, s)
          else if want then Ret ([m], r, sbfree m sb, s) else Ret ([], r, sbfree m sb, MFREE m s))"

text \<open>A copy that fails leaves \<^verbatim>\<open>controlp\<close> pointing through a null pointer, where the next one is stored.\<close>

fun rcv_control :: "protosw \<Rightarrow> bool \<Rightarrow> bool \<Rightarrow> chain \<Rightarrow> sockbuf \<Rightarrow> mbsys \<Rightarrow> (errno option \<times> chain \<times> chain \<times> sockbuf \<times> mbsys) kres" where
  "rcv_control pr want peek [] sb s = Ret (None, [], [], sb, s)"
| "rcv_control pr want peek (m # r) sb s =
     (if m_type m \<noteq> MT_CONTROL then Ret (None, [], m # r, sb, s)
      else kbind (if peek then if want then kmap (\<lambda>(cp, s1). (None, cp, sb, s1)) (m_copym (m # r) 0 (m_len m) s) else Ret (None, [], sb, s)
                  else if want
                  then (case dom_externalize pr of
                      Some ext \<Rightarrow> if scm_rights pr m then (case ext m of (e, m1) \<Rightarrow> Ret (e, [m1], sbfree m sb, s)) else Ret (None, [m], sbfree m sb, s)
                    | None \<Rightarrow> Ret (None, [m], sbfree m sb, s))
                  else Ret (None, [], sbfree m sb, MFREE m s))
        (\<lambda>(e, got, sb1, s1).
          if e \<noteq> None then Ret (e, got, r, sb1, s1)
          else if want \<and> got = [] \<and> r \<noteq> [] \<and> m_type (hd r) = MT_CONTROL then Fault
          else kmap (\<lambda>(e1, got1, rest, sb2, s2). (e1, got @ got1, rest, sb2, s2)) (rcv_control pr want peek r sb1 s1)))"

section \<open>The data\<close>

text \<open>The variables of the loop: \<^verbatim>\<open>m\<close> (the mbufs left of the record), \<^verbatim>\<open>nextrecord\<close>, \<^verbatim>\<open>moff\<close>, \<^verbatim>\<open>offset\<close>, the flags, the mbufs
  passed back, \<^verbatim>\<open>error\<close>.\<close>

record rcv =
  r_tcp :: tcp
  r_m :: chain
  r_next :: "chain list"
  r_moff :: int
  r_offset :: int
  r_flags :: "msg_flag set"
  r_uio :: uio
  r_mp :: chain
  r_err :: "errno option"

text \<open>Where \<^verbatim>\<open>sb_mb\<close> points: at \<^verbatim>\<open>m\<close>, which is linked to the next record if there is an \<^verbatim>\<open>m\<close>.\<close>

definition cur_records :: "chain \<Rightarrow> chain list \<Rightarrow> chain list" where
  "cur_records m nx = (if m = [] then [] else m # nx)"

definition rcv_len :: "nat \<Rightarrow> rcv \<Rightarrow> int" where
  "rcv_len i r =
     (let mark = so_oobmark (so_at i (r_tcp r)); left = mark - of_int (r_offset r);
          len = uio_resid (r_uio r);
          len1 = (if mark \<noteq> 0 \<and> (of_int len :: u32) > left then sint left else len);
          inm = m_len (hd (r_m r)) - r_moff r
      in if len1 > inm then inm else len1)"

text \<open>Copying out, or passing back the mbuf.\<close>

definition rcv_move :: "bool \<Rightarrow> int \<Rightarrow> rcv \<Rightarrow> rcv kres" where
  "rcv_move mp len r =
     (if mp then Ret (r\<lparr>r_uio := (r_uio r)\<lparr>uio_resid := uio_resid (r_uio r) - len\<rparr>\<rparr>)
      else kmap (\<lambda>(e, u). r\<lparr>r_err := e, r_uio := u\<rparr>)
             (uiomove_read (take (nat len) (drop (nat (r_moff r)) (m_bytes (hd (r_m r))))) (r_uio r)))"

text \<open>Taking what was copied off the buffer.\<close>

definition rcv_consume :: "bool \<Rightarrow> nat \<Rightarrow> int \<Rightarrow> rcv \<Rightarrow> rcv kres" where
  "rcv_consume mp i len r =
     (let m = hd (r_m r); rest = tl (r_m r); t = r_tcp r; sb = so_rcv (so_at i t); peek = (MSG_PEEK \<in> r_flags r) in
      if len = m_len m - r_moff r
      then let r1 = (if M_EOR m then r\<lparr>r_flags := insert MSG_EOR (r_flags r)\<rparr> else r) in
        if peek then Ret (r1\<lparr>r_m := rest, r_moff := 0\<rparr>)
        else let t1 = so_upd i (\<lambda>x. x\<lparr>so_rcv := (sbfree m sb)\<lparr>sb_mb := cur_records rest (r_next r)\<rparr>\<rparr>) t
             in Ret (r1\<lparr>r_m := rest, r_tcp := (if mp then t1 else t1\<lparr>mbs := MFREE m (mbs t1)\<rparr>),
                        r_mp := (if mp then r_mp r @ [m] else r_mp r)\<rparr>)
      else if peek then Ret (r\<lparr>r_moff := r_moff r + len\<rparr>)
      else kmap (\<lambda>(cp, s1).
             let m1 = m\<lparr>m_data := m_data m + len, m_bytes := drop (nat len) (m_bytes m)\<rparr>;
                 t1 = so_upd i (\<lambda>x. x\<lparr>so_rcv := sb\<lparr>sb_cc := sb_cc sb - of_int len, sb_mb := (m1 # rest) # r_next r\<rparr>\<rparr>) t
             in r\<lparr>r_m := m1 # rest, r_tcp := t1\<lparr>mbs := s1\<rparr>, r_mp := r_mp r @ cp\<rparr>)
           (if mp then m_copym (r_m r) 0 len (mbs t) else Ret ([], mbs t)))"

text \<open>The out-of-band mark; the flag says whether the loop is left.\<close>

definition rcv_mark :: "nat \<Rightarrow> int \<Rightarrow> rcv \<Rightarrow> bool \<times> rcv" where
  "rcv_mark i len r =
     (let mark = so_oobmark (so_at i (r_tcp r)) in
      if mark = 0 then (False, r)
      else if MSG_PEEK \<in> r_flags r then (False, r\<lparr>r_offset := r_offset r + len\<rparr>)
      else let m1 = mark - of_int len; t1 = so_upd i (\<lambda>x. x\<lparr>so_oobmark := m1\<rparr>) (r_tcp r) in
        if m1 = 0 then (True, r\<lparr>r_tcp := so_upd i (\<lambda>x. x\<lparr>so_state := insert SS_RCVATMARK (so_state x)\<rparr>) t1\<rparr>)
        else (False, r\<lparr>r_tcp := t1\<rparr>))"

text \<open>One round, up to the wait for more.\<close>

definition rcv_round :: "bool \<Rightarrow> nat \<Rightarrow> rcv \<Rightarrow> (bool \<times> rcv) kres" where
  "rcv_round mp i r =
     (let r0 = r\<lparr>r_flags := (if m_type (hd (r_m r)) = MT_OOBDATA then insert MSG_OOB (r_flags r) else r_flags r),
                 r_tcp := so_upd i (\<lambda>x. x\<lparr>so_state := so_state x - {SS_RCVATMARK}\<rparr>) (r_tcp r)\<rparr>;
          len = rcv_len i r0
      in kbind (rcv_move mp len r0) (\<lambda>r1. kmap (\<lambda>r2. case rcv_mark i len r2 of
           (stop, r3) \<Rightarrow> (stop \<or> MSG_EOR \<in> r_flags r3, r3)) (rcv_consume mp i len r1)))"

text \<open>The wait of \<^verbatim>\<open>MSG_WAITALL\<close>: \<open>Inl\<close> an interrupted sleep, which ends the whole call.\<close>

fun rcv_waitall :: "protosw \<Rightarrow> nat \<Rightarrow> sleeps \<Rightarrow> rcv \<Rightarrow> (rcv + rcv \<times> sleeps) option" where
  "rcv_waitall pr i ws r =
     (if \<not> (MSG_WAITALL \<in> r_flags r \<and> r_m r = [] \<and> uio_resid (r_uio r) > 0 \<and> \<not> sosendallatonce pr) then Some (Inr (r, ws))
      else case ws of [] \<Rightarrow> None
      | w # ws' \<Rightarrow> (case so_sbwait w i Rcv (r_tcp r) of
            (Some e, t1) \<Rightarrow> Some (Inl (r\<lparr>r_tcp := so_unlock i Rcv t1\<rparr>))
          | (None, t1) \<Rightarrow>
              let r1 = (case sb_mb (so_rcv (so_at i t1)) of [] \<Rightarrow> r\<lparr>r_tcp := t1\<rparr> | m # nx \<Rightarrow> r\<lparr>r_tcp := t1, r_m := m, r_next := nx\<rparr>)
              in if so_error (so_at i t1) \<noteq> None \<or> SS_CANTRCVMORE \<in> so_state (so_at i t1) then Some (Inr (r1, ws'))
                 else rcv_waitall pr i ws' r1))"

partial_function (option) rcv_loop :: "protosw \<Rightarrow> bool \<Rightarrow> nat \<Rightarrow> mtype \<Rightarrow> sleeps \<Rightarrow> rcv \<Rightarrow> (rcv + rcv) run" where
  "rcv_loop pr mp i ty ws r =
     (if r_m r = [] \<or> m_type (hd (r_m r)) \<noteq> ty \<or> uio_resid (r_uio r) \<le> 0 \<or> r_err r \<noteq> None then Some (Ret (Inr r))
      else case rcv_round mp i r of
        Panic e \<Rightarrow> Some (Panic e)
      | Fault \<Rightarrow> Some Fault
      | Ret (stop, r1) \<Rightarrow>
          if stop then Some (Ret (Inr r1))
          else case rcv_waitall pr i ws r1 of
            None \<Rightarrow> None
          | Some (Inl r2) \<Rightarrow> Some (Ret (Inl r2))
          | Some (Inr (r2, ws2)) \<Rightarrow> rcv_loop pr mp i ty ws2 r2)"

section \<open>The end, and the whole\<close>

definition rcv_end :: "protosw \<Rightarrow> nat \<Rightarrow> rcv \<Rightarrow> rcv run" where
  "rcv_end pr i r =
     (if MSG_PEEK \<in> r_flags r then rret r
      else let t = r_tcp r; sb = so_rcv (so_at i t);
               r1 = (if r_m r = [] then r\<lparr>r_tcp := so_upd i (\<lambda>x. x\<lparr>so_rcv := sb\<lparr>sb_mb := r_next r\<rparr>\<rparr>) t\<rparr>
                     else if PR_ATOMIC \<in> pr_flags pr
                     then case sbdroprecord sb (mbs t) of (sb1, s1) \<Rightarrow>
                       r\<lparr>r_flags := insert MSG_TRUNC (r_flags r), r_tcp := (so_upd i (\<lambda>x. x\<lparr>so_rcv := sb1\<rparr>) t)\<lparr>mbs := s1\<rparr>\<rparr>
                     else r)
           in if PR_WANTRCVD \<in> pr_flags pr \<and> so_pcb (so_at i (r_tcp r1)) \<noteq> None
              then rbind (pr_usrreq pr i PRU_RCVD [] (r_tcp r1)) (\<lambda>(_, _, t1). rret (r1\<lparr>r_tcp := t1\<rparr>))
              else rret r1)"

definition rcv_go :: "protosw \<Rightarrow> nat \<Rightarrow> rcv_args \<Rightarrow> sleeps \<Rightarrow> uio \<Rightarrow> tcp \<Rightarrow> rcv_result run" where
  "rcv_go pr i a ws u t =
     (let sb = so_rcv (so_at i t); rec = hd (sb_mb sb); nx = tl (sb_mb sb);
          flags = rcv_flags a - {MSG_EOR}; peek = (MSG_PEEK \<in> flags)
      in rbind (Some (rcv_addr pr (want_addr a) peek rec sb (mbs t))) (\<lambda>(addr, m1, sb1, s1).
         rbind (Some (rcv_control pr (want_control a) peek m1 sb1 s1)) (\<lambda>(e, ctl, m2, sb2, s2).
         let sb3 = (if peek then sb2 else sb2\<lparr>sb_mb := cur_records m2 nx\<rparr>);
             r = \<lparr>r_tcp = (so_upd i (\<lambda>x. x\<lparr>so_rcv := sb3\<rparr>) t)\<lparr>mbs := s2\<rparr>, r_m = m2, r_next = nx, r_moff = 0, r_offset = 0,
                  r_flags = flags, r_uio = u, r_mp = [], r_err = e\<rparr>
         in rbind (rcv_loop pr (want_mp a) i (if m2 = [] then MT_FREE else m_type (hd m2)) ws r) (\<lambda>res. case res of
              Inl r1 \<Rightarrow> rret \<lparr>rv_error = None, rv_addr = addr, rv_control = ctl, rv_mp = r_mp r1, rv_flags = rcv_flags a,
                             rv_uio = r_uio r1, rv_tcp = r_tcp r1\<rparr>
            | Inr r1 \<Rightarrow> rbind (rcv_end pr i r1) (\<lambda>r2.
                rret \<lparr>rv_error = r_err r2, rv_addr = addr, rv_control = ctl, rv_mp = r_mp r2, rv_flags = rcv_flags a \<union> r_flags r2,
                      rv_uio = r_uio r2, rv_tcp = so_unlock i Rcv (r_tcp r2)\<rparr>)))))"

text \<open>A result without data.\<close>

definition rcv_none :: "rcv_args \<Rightarrow> errno option \<Rightarrow> uio \<Rightarrow> tcp \<Rightarrow> rcv_result" where
  "rcv_none a e u t = \<lparr>rv_error = e, rv_addr = [], rv_control = [], rv_mp = [], rv_flags = rcv_flags a, rv_uio = u, rv_tcp = t\<rparr>"

fun rcv_restart :: "protosw \<Rightarrow> (sockbuf \<Rightarrow> sleep) list \<Rightarrow> nat \<Rightarrow> rcv_args \<Rightarrow> sleeps \<Rightarrow> uio \<Rightarrow> tcp \<Rightarrow> rcv_result run" where
  "rcv_restart pr slp i a ws u t =
     (case so_lock slp i Rcv t of
        None \<Rightarrow> None
      | Some (Some e, t1) \<Rightarrow> rret (rcv_none a (Some e) u t1)
      | Some (None, t1) \<Rightarrow>
          (case rcv_verdict pr (rcv_flags a - {MSG_EOR}) (uio_resid u) (so_at i t1) of
             Go \<Rightarrow> rcv_go pr i a ws u t1
           | Release e \<Rightarrow> rret (rcv_none a e u (so_unlock i Rcv
               (if so_error (so_at i t1) \<noteq> None then so_upd i (\<lambda>x. x\<lparr>so_error := None\<rparr>) t1 else t1)))
           | Block \<Rightarrow> (case ws of [] \<Rightarrow> None
               | w # ws' \<Rightarrow> (case so_sbwait w i Rcv (so_unlock i Rcv t1) of
                     (Some e, t2) \<Rightarrow> rret (rcv_none a (Some e) u t2)
                   | (None, t2) \<Rightarrow> rcv_restart pr slp i a ws' u t2))))"

text \<open>Out-of-band data: the protocol fills in an mbuf.\<close>

definition rcv_oob :: "protosw \<Rightarrow> nat \<Rightarrow> rcv_args \<Rightarrow> uio \<Rightarrow> tcp \<Rightarrow> rcv_result run" where
  "rcv_oob pr i a u t =
     (case MGET MT_DATA (mbs t) of (mo, s1) \<Rightarrow>
        rbind (pr_usrreq pr i (PRU_RCVOOB (MSG_PEEK \<in> rcv_flags a)) [] (t\<lparr>mbs := s1\<rparr>)) (\<lambda>(e, rep, t1).
        case mo of
          None \<Rightarrow> if e \<noteq> None then rret (rcv_none a e u t1) else Some Fault
        | Some m \<Rightarrow>
            if e \<noteq> None then rret (rcv_none a e u (t1\<lparr>mbs := m_freem [m] (mbs t1)\<rparr>))
            else let bs = (case rep of Oob b \<Rightarrow> [b] | _ \<Rightarrow> []) in
              rbind (Some (uiomove_read (take (nat (u_min (uio_resid u) (int (length bs)))) bs) u)) (\<lambda>(e1, u1).
              rret (rcv_none a e1 u1 (t1\<lparr>mbs := MFREE m (mbs t1)\<rparr>)))))"

definition soreceive :: "protosw \<Rightarrow> (sockbuf \<Rightarrow> sleep) list \<Rightarrow> nat \<Rightarrow> rcv_args \<Rightarrow> sleeps \<Rightarrow> uio \<Rightarrow> tcp \<Rightarrow> rcv_result run" where
  "soreceive pr slp i a ws u t =
     (if MSG_OOB \<in> rcv_flags a then rcv_oob pr i a u t
      else rbind (if SS_ISCONFIRMING \<in> so_state (so_at i t) \<and> uio_resid u \<noteq> 0
                  then rbind (pr_usrreq pr i PRU_RCVD [] t) (\<lambda>(_, _, t1). rret t1) else rret t)
             (\<lambda>t1. rcv_restart pr slp i a ws u t1))"

end
