(* ===== verification/Sosend.thy ===== *)
theory Sosend
  imports Soreceive
begin

text \<open>
  Sending on a socket: \<^verbatim>\<open>sosend\<close> of \<^verbatim>\<open>sys/kern/uipc_socket.c\<close>.  The data come from a user (\<open>Inl\<close> a \<^verbatim>\<open>uio\<close>) or in a chain
  (\<open>Inr\<close>).  As in \<open>Soreceive\<close>, sleeps are arguments.  The destination address goes to the protocol with the data;
  here only whether there is one matters.  \<^verbatim>\<open>MAPPED_MBUFS\<close> is a compile time option (set on the VAX and Tahoe, not on
  the HP 300).
\<close>

section \<open>Whether to send\<close>

definition MINCLSIZE :: int where
  "MINCLSIZE = MHLEN + MLEN"

record snd_cfg =
  MAPPED_MBUFS :: bool
  max_hdr :: int

datatype snd_verdict = SndErr errno | SndWait | SndOk int

definition snd_check :: "protosw \<Rightarrow> msg_flag set \<Rightarrow> bool \<Rightarrow> bool \<Rightarrow> int \<Rightarrow> int \<Rightarrow> socket \<Rightarrow> snd_verdict" where
  "snd_check pr flags atomic has_addr resid clen x =
     (let space = sbspace (so_snd x) + (if MSG_OOB \<in> flags then 1024 else 0) in
      if SS_CANTSENDMORE \<in> so_state x then SndErr EPIPE
      else case so_error x of Some e \<Rightarrow> SndErr e | None \<Rightarrow>
        if SS_ISCONNECTED \<notin> so_state x \<and> PR_CONNREQUIRED \<in> pr_flags pr \<and> SS_ISCONFIRMING \<notin> so_state x then SndErr ENOTCONN
        else if SS_ISCONNECTED \<notin> so_state x \<and> PR_CONNREQUIRED \<notin> pr_flags pr \<and> \<not> has_addr then SndErr EDESTADDRREQ
        else if space < resid + clen \<and> (atomic \<or> space < sb_lowat (so_snd x) \<or> space < clen)
        then if atomic \<and> (of_int resid :: u32) > sb_hiwat (so_snd x) \<or> (of_int clen :: u32) > sb_hiwat (so_snd x) then SndErr EMSGSIZE
             else if SS_NBIO \<in> so_state x then SndErr EWOULDBLOCK
             else SndWait
        else SndOk space)"

section \<open>Filling mbufs\<close>

text \<open>The variables of the inner loops.  \<^verbatim>\<open>len\<close> keeps its value from one mbuf to the next.\<close>

record snd =
  s_tcp :: tcp
  s_uio :: uio
  s_resid :: int
  s_space :: int
  s_len :: int
  s_top :: chain
  s_control :: chain

definition set_eor :: "chain \<Rightarrow> chain" where
  "set_eor c = (case c of [] \<Rightarrow> [] | m # r \<Rightarrow> m\<lparr>M_EOR := True\<rparr> # r)"

definition add_pktlen :: "int \<Rightarrow> chain \<Rightarrow> chain" where
  "add_pktlen n c = (case c of [] \<Rightarrow> [] | m # r \<Rightarrow> m\<lparr>m_pkthdr := (m_pkthdr m)\<lparr>pkt_len := pkt_len (m_pkthdr m) + n\<rparr>\<rparr> # r)"

text \<open>An mbuf with a cluster if that is worth it, and how much goes into it: mbuf, \<^verbatim>\<open>len\<close>, \<^verbatim>\<open>space\<close> after it.\<close>

definition snd_mbuf :: "snd_cfg \<Rightarrow> bool \<Rightarrow> snd \<Rightarrow> (mbuf \<times> int \<times> int \<times> mbsys) kres" where
  "snd_mbuf cfg atomic r =
     (case (if s_top r = [] then MGETHDR MT_DATA (mbs (s_tcp r)) else MGET MT_DATA (mbs (s_tcp r))) of
        (None, s1) \<Rightarrow> Fault
      | (Some m0, s1) \<Rightarrow>
          let mlen = (if s_top r = [] then MHLEN else MLEN);
              plain = (\<lambda>m s. let len = u_min (u_min mlen (s_resid r)) (s_space r) in
                (if atomic \<and> s_top r = [] \<and> len < mlen then MH_ALIGN m len else m, len, s_space r - len, s))
          in if s_resid r \<ge> MINCLSIZE \<and> s_space r \<ge> MCLBYTES
             then kmap (\<lambda>(m, s2).
               if \<not> M_EXT m then plain m s2
               else if MAPPED_MBUFS cfg then (m, u_min MCLBYTES (s_resid r), s_space r - MCLBYTES, s2)
               else if s_top r = [] then (m\<lparr>m_data := m_data m + max_hdr cfg\<rparr>, u_min (MCLBYTES - max_hdr cfg) (s_resid r), s_space r - MCLBYTES, s2)
               else (m, s_len r, s_space r - MCLBYTES, s2)) (MCLGET m0 s1)
             else Ret (plain m0 s1))"

text \<open>One round of the loop that fills \<^verbatim>\<open>top\<close>: the error of \<^verbatim>\<open>uiomove\<close>.  What \<^verbatim>\<open>uiomove\<close> did not fill of the \<^verbatim>\<open>len\<close> bytes is what
  the memory held.\<close>

definition snd_fill_round :: "snd_cfg \<Rightarrow> msg_flag set \<Rightarrow> bool \<Rightarrow> snd \<Rightarrow> (errno option \<times> snd) kres" where
  "snd_fill_round cfg flags atomic r =
     kbind (snd_mbuf cfg atomic r) (\<lambda>(m, len, space, s1).
     kmap (\<lambda>(e, bs, u1).
       let m1 = m\<lparr>m_bytes := bs @ map (fresh s1) [length bs ..< nat len]\<rparr>;
           top = add_pktlen len (s_top r @ [m1]);
           resid = uio_resid u1
       in (e, r\<lparr>s_tcp := (s_tcp r)\<lparr>mbs := s1\<rparr>, s_uio := u1, s_resid := resid, s_space := space, s_len := len,
                s_top := (if e = None \<and> resid \<le> 0 \<and> MSG_EOR \<in> flags then set_eor top else top)\<rparr>))
       (uiomove_write (nat len) (s_uio r)))"

partial_function (option) snd_fill :: "snd_cfg \<Rightarrow> msg_flag set \<Rightarrow> bool \<Rightarrow> snd \<Rightarrow> (errno option \<times> snd) run" where
  "snd_fill cfg flags atomic r = (case snd_fill_round cfg flags atomic r of
       Panic x \<Rightarrow> Some (Panic x)
     | Fault \<Rightarrow> Some Fault
     | Ret (e, r1) \<Rightarrow>
         if e \<noteq> None \<or> s_resid r1 \<le> 0 \<or> \<not> (s_space r1 > 0 \<and> atomic) then Some (Ret (e, r1))
         else snd_fill cfg flags atomic r1)"

section \<open>The loops\<close>

text \<open>Handing one chain to the protocol, with \<^verbatim>\<open>SO_DONTROUTE\<close> set meanwhile if asked for.\<close>

definition snd_request :: "protosw \<Rightarrow> nat \<Rightarrow> msg_flag set \<Rightarrow> bool \<Rightarrow> snd \<Rightarrow> (errno option \<times> snd) run" where
  "snd_request pr i flags dontroute r =
     (let t = (if dontroute then so_upd i (\<lambda>x. x\<lparr>so_options := insert SO_DONTROUTE (so_options x)\<rparr>) (s_tcp r) else s_tcp r) in
      rbind (pr_usrreq pr i (if MSG_OOB \<in> flags then PRU_SENDOOB (s_top r) else PRU_SEND (s_top r)) (s_control r) t) (\<lambda>(e, _, t1).
      rret (e, r\<lparr>s_tcp := (if dontroute then so_upd i (\<lambda>x. x\<lparr>so_options := so_options x - {SO_DONTROUTE}\<rparr>) t1 else t1),
                 s_top := [], s_control := []\<rparr>)))"

text \<open>The loop while there is room: \<open>usr\<close> says whether the data come from a user.\<close>

partial_function (option) snd_inner ::
  "protosw \<Rightarrow> snd_cfg \<Rightarrow> nat \<Rightarrow> msg_flag set \<Rightarrow> bool \<Rightarrow> bool \<Rightarrow> bool \<Rightarrow> snd \<Rightarrow> (errno option \<times> snd) run" where
  "snd_inner pr cfg i flags atomic dontroute usr r =
     (case (if usr then snd_fill cfg flags atomic r
            else rret (None, r\<lparr>s_resid := 0, s_top := (if MSG_EOR \<in> flags then set_eor (s_top r) else s_top r)\<rparr>)) of
        None \<Rightarrow> None
      | Some (Panic x) \<Rightarrow> Some (Panic x)
      | Some Fault \<Rightarrow> Some Fault
      | Some (Ret (Some e, r1)) \<Rightarrow> Some (Ret (Some e, r1))
      | Some (Ret (None, r1)) \<Rightarrow>
          (case snd_request pr i flags dontroute r1 of
             None \<Rightarrow> None
           | Some (Panic x) \<Rightarrow> Some (Panic x)
           | Some Fault \<Rightarrow> Some Fault
           | Some (Ret (Some e, r2)) \<Rightarrow> Some (Ret (Some e, r2))
           | Some (Ret (None, r2)) \<Rightarrow>
               if s_resid r2 \<noteq> 0 \<and> s_space r2 > 0 then snd_inner pr cfg i flags atomic dontroute usr r2
               else Some (Ret (None, r2))))"

text \<open>From \<^verbatim>\<open>release\<close>: unlocking, then freeing what is left.\<close>

definition snd_out :: "snd \<Rightarrow> tcp" where
  "snd_out r = (s_tcp r)\<lparr>mbs := m_freem (s_control r) (m_freem (s_top r) (mbs (s_tcp r)))\<rparr>"

definition snd_release :: "nat \<Rightarrow> snd \<Rightarrow> tcp" where
  "snd_release i r = snd_out (r\<lparr>s_tcp := so_unlock i Snd (s_tcp r)\<rparr>)"

text \<open>\<open>locked\<close> is false at \<^verbatim>\<open>restart\<close>.  \<^verbatim>\<open>space\<close> and \<^verbatim>\<open>clen\<close> are set here.\<close>

partial_function (option) snd_outer ::
  "protosw \<Rightarrow> snd_cfg \<Rightarrow> (sockbuf \<Rightarrow> sleep) list \<Rightarrow> nat \<Rightarrow> msg_flag set \<Rightarrow> bool \<Rightarrow> bool \<Rightarrow> bool \<Rightarrow> bool \<Rightarrow> bool
     \<Rightarrow> sleeps \<Rightarrow> snd \<Rightarrow> (errno option \<times> uio \<times> tcp) run" where
  "snd_outer pr cfg slp i flags has_addr atomic dontroute usr locked ws r =
     (case (if locked then Some (None, s_tcp r) else so_lock slp i Snd (s_tcp r)) of
        None \<Rightarrow> None
      | Some (Some e, t1) \<Rightarrow> Some (Ret (Some e, s_uio r, snd_out (r\<lparr>s_tcp := t1\<rparr>)))
      | Some (None, t1) \<Rightarrow>
          let r1 = r\<lparr>s_tcp := t1\<rparr>; clen = (case s_control r of [] \<Rightarrow> 0 | m # _ \<Rightarrow> m_len m) in
          (case snd_check pr flags atomic has_addr (s_resid r) clen (so_at i t1) of
             SndErr e \<Rightarrow> Some (Ret (Some e, s_uio r, snd_release i r1))
           | SndWait \<Rightarrow> (case ws of [] \<Rightarrow> None
               | w # ws' \<Rightarrow> (case so_sbwait w i Snd (so_unlock i Snd t1) of
                     (Some e, t2) \<Rightarrow> Some (Ret (Some e, s_uio r, snd_out (r\<lparr>s_tcp := t2\<rparr>)))
                   | (None, t2) \<Rightarrow> snd_outer pr cfg slp i flags has_addr atomic dontroute usr False ws' (r\<lparr>s_tcp := t2\<rparr>)))
           | SndOk space \<Rightarrow>
               (case snd_inner pr cfg i flags atomic dontroute usr (r1\<lparr>s_space := space - clen\<rparr>) of
                  None \<Rightarrow> None
                | Some (Panic x) \<Rightarrow> Some (Panic x)
                | Some Fault \<Rightarrow> Some Fault
                | Some (Ret (Some e, r2)) \<Rightarrow> Some (Ret (Some e, s_uio r2, snd_release i r2))
                | Some (Ret (None, r2)) \<Rightarrow>
                    if s_resid r2 \<noteq> 0 then snd_outer pr cfg slp i flags has_addr atomic dontroute usr True ws r2
                    else Some (Ret (None, s_uio r2, snd_release i r2)))))"

definition sosend ::
  "protosw \<Rightarrow> snd_cfg \<Rightarrow> (sockbuf \<Rightarrow> sleep) list \<Rightarrow> nat \<Rightarrow> msg_flag set \<Rightarrow> bool \<Rightarrow> uio + chain \<Rightarrow> chain \<Rightarrow> sleeps \<Rightarrow> tcp
     \<Rightarrow> (errno option \<times> uio \<times> tcp) run" where
  "sosend pr cfg slp i flags has_addr src control ws t =
     (let usr = isl src; u = (case src of Inl u \<Rightarrow> u | Inr _ \<Rightarrow> \<lparr>uio_iov = [], uio_resid = 0, uio_mem = []\<rparr>);
          top = (case src of Inl _ \<Rightarrow> [] | Inr c \<Rightarrow> c);
          resid = (case src of Inl u \<Rightarrow> uio_resid u | Inr c \<Rightarrow> pkt_len (m_pkthdr (hd c)));
          dontroute = (MSG_DONTROUTE \<in> flags \<and> SO_DONTROUTE \<notin> so_options (so_at i t) \<and> PR_ATOMIC \<in> pr_flags pr)
      in snd_outer pr cfg slp i flags has_addr (sosendallatonce pr \<or> top \<noteq> []) dontroute usr False ws
           \<lparr>s_tcp = t, s_uio = u, s_resid = resid, s_space = 0, s_len = 0, s_top = top, s_control = control\<rparr>)"

end
