(* ===== verification/Sockops.thy ===== *)
theory Sockops
  imports Sosend
begin

text \<open>
  The other socket operations of \<^verbatim>\<open>sys/kern/uipc_socket.c\<close>: creating, binding, listening, connecting, closing, shutting
  down, and options.  As in \<open>Soreceive\<close> the protocol and the sleeps are arguments.
\<close>

section \<open>Creation and connection\<close>

definition usrreq :: "protosw \<Rightarrow> nat \<Rightarrow> pru \<Rightarrow> tcp \<Rightarrow> (errno option \<times> tcp) run" where
  "usrreq pr i req t = rbind (pr_usrreq pr i req [] t) (\<lambda>(e, _, t1). rret (e, t1))"

definition zero_socket :: socket where
  "zero_socket = \<lparr>so_type = 0, so_options = {}, so_linger = 0, so_state = {}, so_pcb = None, so_head = None, so_q0 = None, so_q = None,
     so_q0len = 0, so_qlen = 0, so_qlimit = 0, so_timeo = 0, so_error = None, so_pgid = 0, so_oobmark = 0, so_rcv = zero_sb, so_snd = zero_sb\<rparr>"

definition so_sofree :: "(sockbuf \<Rightarrow> sleep) list \<Rightarrow> (chain list \<Rightarrow> mbsys \<Rightarrow> mbsys) \<Rightarrow> nat \<Rightarrow> tcp \<Rightarrow> tcp run" where
  "so_sofree slp dispose i t = rbind (sofree slp dispose i (stab t) (mbs t)) (\<lambda>(st, s). rret (t\<lparr>stab := st, mbs := s\<rparr>))"

text \<open>\<open>prp\<close> is what \<^verbatim>\<open>pffindproto\<close> or \<^verbatim>\<open>pffindtype\<close> found, with its \<^verbatim>\<open>pr_type\<close>; \<open>i\<close> the socket \<^verbatim>\<open>MALLOC\<close> gave.\<close>

definition socreate ::
  "(protosw \<times> int) option \<Rightarrow> int \<Rightarrow> bool \<Rightarrow> (sockbuf \<Rightarrow> sleep) list \<Rightarrow> (chain list \<Rightarrow> mbsys \<Rightarrow> mbsys) \<Rightarrow> nat \<Rightarrow> tcp
     \<Rightarrow> (errno option \<times> nat option \<times> tcp) run" where
  "socreate prp type superuser slp dispose i t = (case prp of
       None \<Rightarrow> rret (Some EPROTONOSUPPORT, None, t)
     | Some (pr, pr_type) \<Rightarrow>
         if pr_type \<noteq> type then rret (Some EPROTOTYPE, None, t)
         else let t1 = so_upd i (\<lambda>_. zero_socket\<lparr>so_type := type, so_state := (if superuser then {SS_PRIV} else {})\<rparr>) t in
           rbind (usrreq pr i PRU_ATTACH t1) (\<lambda>(e, t2).
           if e \<noteq> None
           then rbind (so_sofree slp dispose i (so_upd i (\<lambda>x. x\<lparr>so_state := insert SS_NOFDREF (so_state x)\<rparr>) t2)) (\<lambda>t3. rret (e, None, t3))
           else rret (None, Some i, t2)))"

definition sobind :: "protosw \<Rightarrow> nat \<Rightarrow> nam \<Rightarrow> tcp \<Rightarrow> (errno option \<times> tcp) run" where
  "sobind pr i nam t = usrreq pr i (PRU_BIND nam) t"

definition SOMAXCONN :: int where
  "SOMAXCONN = 5"

definition solisten :: "protosw \<Rightarrow> nat \<Rightarrow> int \<Rightarrow> tcp \<Rightarrow> (errno option \<times> tcp) run" where
  "solisten pr i backlog t =
     rbind (usrreq pr i PRU_LISTEN t) (\<lambda>(e, t1).
     if e \<noteq> None then rret (e, t1)
     else rret (None, so_upd i (\<lambda>x. x\<lparr>so_options := (if so_q x = None then insert SO_ACCEPTCONN (so_options x) else so_options x),
            so_qlimit := u_min (if backlog < 0 then 0 else backlog) SOMAXCONN\<rparr>) t1))"

definition soabort :: "protosw \<Rightarrow> nat \<Rightarrow> tcp \<Rightarrow> (errno option \<times> tcp) run" where
  "soabort pr i t = usrreq pr i PRU_ABORT t"

definition soaccept :: "protosw \<Rightarrow> nat \<Rightarrow> tcp \<Rightarrow> (errno option \<times> reply \<times> tcp) run" where
  "soaccept pr i t =
     (if SS_NOFDREF \<notin> so_state (so_at i t) then Some (Panic ''soaccept: !NOFDREF'')
      else pr_usrreq pr i PRU_ACCEPT [] (so_upd i (\<lambda>x. x\<lparr>so_state := so_state x - {SS_NOFDREF}\<rparr>) t))"

definition sodisconnect :: "protosw \<Rightarrow> nat \<Rightarrow> tcp \<Rightarrow> (errno option \<times> tcp) run" where
  "sodisconnect pr i t =
     (if SS_ISCONNECTED \<notin> so_state (so_at i t) then rret (Some ENOTCONN, t)
      else if SS_ISDISCONNECTING \<in> so_state (so_at i t) then rret (Some EALREADY, t)
      else usrreq pr i PRU_DISCONNECT t)"

definition soconnect :: "protosw \<Rightarrow> nat \<Rightarrow> nam \<Rightarrow> tcp \<Rightarrow> (errno option \<times> tcp) run" where
  "soconnect pr i nam t =
     (if SO_ACCEPTCONN \<in> so_options (so_at i t) then rret (Some EOPNOTSUPP, t)
      else if so_state (so_at i t) \<inter> {SS_ISCONNECTED, SS_ISCONNECTING} \<noteq> {}
      then if PR_CONNREQUIRED \<in> pr_flags pr then rret (Some EISCONN, t)
           else rbind (sodisconnect pr i t) (\<lambda>(e, t1). if e \<noteq> None then rret (Some EISCONN, t1) else usrreq pr i (PRU_CONNECT nam) t1)
      else usrreq pr i (PRU_CONNECT nam) t)"

definition soconnect2 :: "protosw \<Rightarrow> nat \<Rightarrow> tcp \<Rightarrow> (errno option \<times> tcp) run" where
  "soconnect2 pr i t = usrreq pr i PRU_CONNECT2 t"

definition soshutdown :: "protosw \<Rightarrow> (sockbuf \<Rightarrow> sleep) list \<Rightarrow> (chain list \<Rightarrow> mbsys \<Rightarrow> mbsys) \<Rightarrow> nat \<Rightarrow> bool \<Rightarrow> bool \<Rightarrow> tcp \<Rightarrow> (errno option \<times> tcp) run" where
  "soshutdown pr slp dispose i rd wr t =
     rbind (if rd then rbind (sorflush slp dispose i (stab t) (mbs t)) (\<lambda>(st, s). rret (t\<lparr>stab := st, mbs := s\<rparr>)) else rret t)
       (\<lambda>t1. if wr then usrreq pr i PRU_SHUTDOWN t1 else rret (None, t1))"

section \<open>Closing\<close>

text \<open>\<open>q\<close>: the queue of completed connections.\<close>

partial_function (option) abort_queue :: "protosw \<Rightarrow> bool \<Rightarrow> nat \<Rightarrow> tcp \<Rightarrow> tcp run" where
  "abort_queue pr q i t = (case nxt q (so_at i t) of
       None \<Rightarrow> Some (Ret t)
     | Some j \<Rightarrow> (case soabort pr j t of
           None \<Rightarrow> None
         | Some (Panic x) \<Rightarrow> Some (Panic x)
         | Some Fault \<Rightarrow> Some Fault
         | Some (Ret (_, t1)) \<Rightarrow> abort_queue pr q i t1))"

text \<open>Lingering: sleeps until the connection is gone or a sleep returns an error (its time is \<^verbatim>\<open>so_linger\<close>).\<close>

fun linger :: "nat \<Rightarrow> sleeps \<Rightarrow> tcp \<Rightarrow> (errno option \<times> tcp) option" where
  "linger i ws t =
     (if SS_ISCONNECTED \<notin> so_state (so_at i t) then Some (None, t)
      else case ws of [] \<Rightarrow> None
      | w # ws' \<Rightarrow> (case w t of (Some e, t1) \<Rightarrow> Some (Some e, t1) | (None, t1) \<Rightarrow> linger i ws' t1))"

text \<open>The disconnection of a connected socket: the error that goes on to the end.\<close>

definition close_conn :: "protosw \<Rightarrow> nat \<Rightarrow> sleeps \<Rightarrow> tcp \<Rightarrow> (errno option \<times> tcp) run" where
  "close_conn pr i ws t =
     (if SS_ISCONNECTED \<notin> so_state (so_at i t) then rret (None, t)
      else rbind (if SS_ISDISCONNECTING \<in> so_state (so_at i t) then rret (None, t) else sodisconnect pr i t) (\<lambda>(e, t1).
        if e \<noteq> None then rret (e, t1)
        else if SO_LINGER \<notin> so_options (so_at i t1) \<or> {SS_ISDISCONNECTING, SS_NBIO} \<subseteq> so_state (so_at i t1) then rret (None, t1)
        else (case linger i ws t1 of None \<Rightarrow> None | Some (e1, t2) \<Rightarrow> rret (e1, t2))))"

definition soclose ::
  "protosw \<Rightarrow> (sockbuf \<Rightarrow> sleep) list \<Rightarrow> (chain list \<Rightarrow> mbsys \<Rightarrow> mbsys) \<Rightarrow> nat \<Rightarrow> sleeps \<Rightarrow> tcp \<Rightarrow> (errno option \<times> tcp) run" where
  "soclose pr slp dispose i ws t =
     rbind (if SO_ACCEPTCONN \<in> so_options (so_at i t)
            then rbind (abort_queue pr False i t) (abort_queue pr True i) else rret t) (\<lambda>t1.
     rbind (if so_pcb (so_at i t1) = None then rret (None, t1)
            else rbind (close_conn pr i ws t1) (\<lambda>(e, t2).
              if so_pcb (so_at i t2) = None then rret (e, t2)
              else rbind (usrreq pr i PRU_DETACH t2) (\<lambda>(e2, t3). rret (if e = None then e2 else e, t3)))) (\<lambda>(e, t2).
     if SS_NOFDREF \<in> so_state (so_at i t2) then Some (Panic ''soclose: NOFDREF'')
     else rbind (so_sofree slp dispose i (so_upd i (\<lambda>x. x\<lparr>so_state := insert SS_NOFDREF (so_state x)\<rparr>) t2)) (\<lambda>t3. rret (e, t3))))"

section \<open>Options\<close>

datatype sockopt =
    OptFlag so_flag | SO_SNDBUF | SO_RCVBUF | SO_SNDLOWAT | SO_RCVLOWAT | SO_SNDTIMEO | SO_RCVTIMEO | SO_TYPE | SO_ERROR | SO_OTHEROPT

text \<open>The option's mbuf: its length and its first two 32-bit words (\<^verbatim>\<open>l_onoff\<close> and \<^verbatim>\<open>l_linger\<close>, or \<^verbatim>\<open>tv_sec\<close> and \<^verbatim>\<open>tv_usec\<close>).\<close>

type_synonym optval = "int \<times> int \<times> int"

definition SHRT_MAX :: int where
  "SHRT_MAX = 32767"

definition set_flag :: "so_flag \<Rightarrow> optval option \<Rightarrow> socket \<Rightarrow> errno option \<times> socket" where
  "set_flag f m x = (case m of None \<Rightarrow> (Some EINVAL, x)
     | Some (len, v, _) \<Rightarrow> if len < 4 then (Some EINVAL, x)
         else (None, x\<lparr>so_options := (if v \<noteq> 0 then insert f (so_options x) else so_options x - {f})\<rparr>))"

definition set_timeo :: "int \<Rightarrow> int \<Rightarrow> optval option \<Rightarrow> int option" where
  "set_timeo hz tick m = (case m of None \<Rightarrow> None
     | Some (len, sec, usec) \<Rightarrow> if len < 8 then None else Some (to_short (sec * hz + c_div usec tick)))"

text \<open>\<^verbatim>\<open>sosetopt\<close> at level \<^verbatim>\<open>SOL_SOCKET\<close>; other levels go to the protocol.\<close>

definition sosetopt :: "u32 \<Rightarrow> int \<Rightarrow> int \<Rightarrow> sockopt \<Rightarrow> optval option \<Rightarrow> socket \<Rightarrow> errno option \<times> socket" where
  "sosetopt sbmax hz tick opt m x = (case opt of
     OptFlag f \<Rightarrow>
       if f = SO_LINGER
       then (case m of Some (len, v, l) \<Rightarrow> if len \<noteq> 8 then (Some EINVAL, x) else set_flag f m (x\<lparr>so_linger := to_short l\<rparr>) | None \<Rightarrow> (Some EINVAL, x))
       else if f = SO_ACCEPTCONN then (Some ENOPROTOOPT, x)
       else set_flag f m x
   | SO_SNDBUF \<Rightarrow> (case m of Some (len, v, _) \<Rightarrow> if len < 4 then (Some EINVAL, x)
       else (case sbreserve sbmax (of_int v) (so_snd x) of (ok, sb) \<Rightarrow> if ok then (None, x\<lparr>so_snd := sb\<rparr>) else (Some ENOBUFS, x)) | None \<Rightarrow> (Some EINVAL, x))
   | SO_RCVBUF \<Rightarrow> (case m of Some (len, v, _) \<Rightarrow> if len < 4 then (Some EINVAL, x)
       else (case sbreserve sbmax (of_int v) (so_rcv x) of (ok, sb) \<Rightarrow> if ok then (None, x\<lparr>so_rcv := sb\<rparr>) else (Some ENOBUFS, x)) | None \<Rightarrow> (Some EINVAL, x))
   | SO_SNDLOWAT \<Rightarrow> (case m of Some (len, v, _) \<Rightarrow> if len < 4 then (Some EINVAL, x) else (None, x\<lparr>so_snd := (so_snd x)\<lparr>sb_lowat := v\<rparr>\<rparr>) | None \<Rightarrow> (Some EINVAL, x))
   | SO_RCVLOWAT \<Rightarrow> (case m of Some (len, v, _) \<Rightarrow> if len < 4 then (Some EINVAL, x) else (None, x\<lparr>so_rcv := (so_rcv x)\<lparr>sb_lowat := v\<rparr>\<rparr>) | None \<Rightarrow> (Some EINVAL, x))
   | SO_SNDTIMEO \<Rightarrow> (case set_timeo hz tick m of None \<Rightarrow> (Some EINVAL, x)
       | Some v \<Rightarrow> if fst (snd (the m)) > SHRT_MAX div hz - hz then (Some EDOM, x) else (None, x\<lparr>so_snd := (so_snd x)\<lparr>sb_timeo := v\<rparr>\<rparr>))
   | SO_RCVTIMEO \<Rightarrow> (case set_timeo hz tick m of None \<Rightarrow> (Some EINVAL, x)
       | Some v \<Rightarrow> if fst (snd (the m)) > SHRT_MAX div hz - hz then (Some EDOM, x) else (None, x\<lparr>so_rcv := (so_rcv x)\<lparr>sb_timeo := v\<rparr>\<rparr>))
   | _ \<Rightarrow> (Some ENOPROTOOPT, x))"

text \<open>The value of an option bit: \<^verbatim>\<open>so_options & optname\<close>.\<close>

definition so_bit :: "so_flag \<Rightarrow> int" where
  "so_bit f = (case f of SO_DEBUG \<Rightarrow> 1 | SO_ACCEPTCONN \<Rightarrow> 2 | SO_REUSEADDR \<Rightarrow> 4 | SO_KEEPALIVE \<Rightarrow> 8 | SO_DONTROUTE \<Rightarrow> 16
     | SO_BROADCAST \<Rightarrow> 32 | SO_USELOOPBACK \<Rightarrow> 64 | SO_LINGER \<Rightarrow> 128 | SO_OOBINLINE \<Rightarrow> 256)"

definition get_timeo :: "int \<Rightarrow> int \<Rightarrow> int \<Rightarrow> optval" where
  "get_timeo hz tick val = (8, c_div val hz, c_div (c_mod val hz) tick)"

text \<open>\<^verbatim>\<open>sogetopt\<close>; \<open>Inl\<close> the error.  Error numbers are values of \<^verbatim>\<open>errno\<close> given by \<open>code\<close>.\<close>

definition sogetopt :: "(errno \<Rightarrow> int) \<Rightarrow> int \<Rightarrow> int \<Rightarrow> sockopt \<Rightarrow> socket \<Rightarrow> (errno + optval) \<times> socket" where
  "sogetopt code hz tick opt x = (case opt of
     OptFlag f \<Rightarrow>
       let v = (if f \<in> so_options x then so_bit f else 0) in
       if f = SO_LINGER then (Inr (8, v, so_linger x), x)
       else if f = SO_ACCEPTCONN then (Inl ENOPROTOOPT, x)
       else (Inr (4, v, 0), x)
   | SO_TYPE \<Rightarrow> (Inr (4, so_type x, 0), x)
   | SO_ERROR \<Rightarrow> (Inr (4, (case so_error x of None \<Rightarrow> 0 | Some e \<Rightarrow> code e), 0), x\<lparr>so_error := None\<rparr>)
   | SO_SNDBUF \<Rightarrow> (Inr (4, sint (sb_hiwat (so_snd x)), 0), x)
   | SO_RCVBUF \<Rightarrow> (Inr (4, sint (sb_hiwat (so_rcv x)), 0), x)
   | SO_SNDLOWAT \<Rightarrow> (Inr (4, sb_lowat (so_snd x), 0), x)
   | SO_RCVLOWAT \<Rightarrow> (Inr (4, sb_lowat (so_rcv x), 0), x)
   | SO_SNDTIMEO \<Rightarrow> (Inr (get_timeo hz tick (sb_timeo (so_snd x))), x)
   | SO_RCVTIMEO \<Rightarrow> (Inr (get_timeo hz tick (sb_timeo (so_rcv x))), x)
   | SO_OTHEROPT \<Rightarrow> (Inl ENOPROTOOPT, x))"

end
