(* ===== verification/Sock_Recv.thy ===== *)
theory Sock_Recv
  imports Sockops Tcp_Send
begin

text \<open>
  What \<^verbatim>\<open>soreceive\<close> delivers on a byte stream: the bytes at the front of the receive buffer, in order, up to what the
  user asked for and never past the out-of-band mark.  A protocol is used through the contract \<open>rcvd_protocol\<close>,
  which TCP meets.
\<close>

section \<open>Changing one socket\<close>

lemma so_upd_simps [simp]:
  "so_at i (so_upd i f t) = f (so_at i t)" "mbs (so_upd i f t) = mbs t" "tp (so_upd i f t) = tp t" "tab (so_upd i f t) = tab t"
  "so_upd i f (so_upd i g t) = so_upd i (\<lambda>x. f (g x)) t" "so_upd i (\<lambda>x. x) t = t"
  "so_upd i f (t\<lparr>mbs := s\<rparr>) = (so_upd i f t)\<lparr>mbs := s\<rparr>" "inp_id (so_upd i f t) = inp_id t" "tcbs (so_upd i f t) = tcbs t"
  by (simp_all add: so_upd_def upd_def)

lemma so_upd_mbs: "(so_upd i f t)\<lparr>mbs := mbs t\<rparr> = so_upd i f t"
  by (simp add: so_upd_def)

text \<open>What a receive may change: the receive buffer, the mark, the state of socket \<open>i\<close>, the mbuf pool.\<close>

definition rcv_only :: "nat \<Rightarrow> tcp \<Rightarrow> tcp \<Rightarrow> bool" where
  "rcv_only i t t' = (\<exists>sb mk st s. t' = (so_upd i (\<lambda>x. x\<lparr>so_rcv := sb, so_oobmark := mk, so_state := st\<rparr>) t)\<lparr>mbs := s\<rparr>)"

lemma rcv_only_refl: "rcv_only i t t"
proof -
  have "t = (so_upd i (\<lambda>x. x\<lparr>so_rcv := so_rcv (so_at i t), so_oobmark := so_oobmark (so_at i t), so_state := so_state (so_at i t)\<rparr>) t)\<lparr>mbs := mbs t\<rparr>"
    by (simp add: so_upd_def upd_def)
  then show ?thesis unfolding rcv_only_def by blast
qed

lemma rcv_only_step:
  assumes "rcv_only i t u" and "\<And>x. so_pcb (f x) = so_pcb x \<and> f x = x\<lparr>so_rcv := so_rcv (f x), so_oobmark := so_oobmark (f x), so_state := so_state (f x)\<rparr>"
  shows "rcv_only i t ((so_upd i f u)\<lparr>mbs := s\<rparr>)"
proof -
  obtain sb mk st s0 where u: "u = (so_upd i (\<lambda>x. x\<lparr>so_rcv := sb, so_oobmark := mk, so_state := st\<rparr>) t)\<lparr>mbs := s0\<rparr>"
    using assms(1) by (auto simp: rcv_only_def)
  define y where "y = f ((so_at i t)\<lparr>so_rcv := sb, so_oobmark := mk, so_state := st\<rparr>)"
  have "y = (so_at i t)\<lparr>so_rcv := so_rcv y, so_oobmark := so_oobmark y, so_state := so_state y\<rparr>"
    using assms(2)[of "(so_at i t)\<lparr>so_rcv := sb, so_oobmark := mk, so_state := st\<rparr>"] unfolding y_def[symmetric] by simp
  moreover have "(so_upd i f u)\<lparr>mbs := s\<rparr> = (so_upd i (\<lambda>x. y) t)\<lparr>mbs := s\<rparr>"
    by (simp add: u so_upd_def upd_def y_def)
  moreover have "so_upd i (\<lambda>x. (so_at i t)\<lparr>so_rcv := so_rcv y, so_oobmark := so_oobmark y, so_state := so_state y\<rparr>) t
      = so_upd i (\<lambda>x. x\<lparr>so_rcv := so_rcv y, so_oobmark := so_oobmark y, so_state := so_state y\<rparr>) t"
    by (simp add: so_upd_def upd_def)
  ultimately show ?thesis unfolding rcv_only_def by metis
qed

section \<open>One round of the loop\<close>

text \<open>The records still in the buffer while \<open>r_m\<close> is being read.\<close>

definition pending :: "rcv \<Rightarrow> chain list" where
  "pending r = (if r_m r = [] then r_next r else r_m r # r_next r)"

definition reading :: "nat \<Rightarrow> mtype \<Rightarrow> rcv \<Rightarrow> bool" where
  "reading i ty r = (sb_ok ((so_rcv (so_at i (r_tcp r)))\<lparr>sb_mb := pending r\<rparr>)
     \<and> (r_m r \<noteq> [] \<longrightarrow> sb_mb (so_rcv (so_at i (r_tcp r))) = r_m r # r_next r)
     \<and> r_flags r \<inter> {MSG_PEEK, MSG_EOR, MSG_WAITALL} = {} \<and> (\<forall>m \<in> set (r_m r). m_type m = ty \<and> \<not> M_EOR m)
     \<and> r_moff r = 0 \<and> r_offset r = 0 \<and> r_err r = None \<and> room (r_uio r) \<and> uio_resid (r_uio r) < 2 ^ 31
     \<and> uint (so_oobmark (so_at i (r_tcp r))) < 2 ^ 31)"

text \<open>How much may be read of \<open>have\<close> bytes when \<open>want\<close> are asked for and the mark is \<open>mk\<close> bytes ahead (0: no mark).\<close>

definition readable :: "int \<Rightarrow> u32 \<Rightarrow> nat \<Rightarrow> nat" where
  "readable want mk have = min (nat want) (if mk = 0 then have else min (unat mk) have)"

definition at_mark :: "u32 \<Rightarrow> nat \<Rightarrow> ss_flag set \<Rightarrow> ss_flag set" where
  "at_mark mk n st = (st - {SS_RCVATMARK}) \<union> (if mk \<noteq> 0 \<and> n = unat mk then {SS_RCVATMARK} else {})"

lemma uint_int_unat: "uint w = int (unat w)"
  by simp

lemma readable_min:
  assumes "0 < w"
  shows "min (if mk \<noteq> 0 \<and> uint mk < w then uint mk else w) (int n) = int (readable w mk n)"
proof -
  obtain k j where k: "uint mk = int k" "unat mk = k" "w = int j" using assms uint_int_unat[of mk] zero_less_imp_eq_int by blast
  show ?thesis unfolding readable_def k by auto
qed

lemma rcv_len_readable:
  assumes "reading i ty r" and "r_m r \<noteq> []" and "0 < uio_resid (r_uio r)"
  shows "rcv_len i r = int (readable (uio_resid (r_uio r)) (so_oobmark (so_at i (r_tcp r))) (length (m_bytes (hd (r_m r)))))"
proof -
  let ?w = "uio_resid (r_uio r)" and ?mk = "so_oobmark (so_at i (r_tcp r))"
  have b: "?w < 2 ^ 31" "uint ?mk < 2 ^ 31" "r_moff r = 0" "r_offset r = 0" using assms(1) unfolding reading_def by blast+
  have "uint (of_int ?w :: u32) = ?w" by (rule uint_of_int_u32) (use b assms(3) in auto)
  then have c: "?mk < of_int ?w \<longleftrightarrow> uint ?mk < ?w" by (simp add: word_less_def)
  have s: "sint ?mk = uint ?mk" using sint_of_int_u32[of "uint ?mk"] b(2) uint_nonnegative[of ?mk] by simp
  have l: "rcv_len i r = min (if ?mk \<noteq> 0 \<and> uint ?mk < ?w then uint ?mk else ?w) (m_len (hd (r_m r)))"
    unfolding rcv_len_def Let_def b(3,4) using c s by simp
  show ?thesis unfolding l m_len_def by (rule readable_min[OF assms(3)])
qed

text \<open>A round takes \<open>n\<close> bytes off the first mbuf.\<close>

lemma rcv_consume_reading:
  assumes "sb_ok ((so_rcv (so_at i (r_tcp r)))\<lparr>sb_mb := (m # c) # r_next r\<rparr>)" and "r_m r = m # c" and "r_moff r = 0"
    and "MSG_PEEK \<notin> r_flags r" and "\<not> M_EOR m" and "n \<le> length (m_bytes m)"
  shows "\<exists>r2. rcv_consume False i (int n) r = Ret r2 \<and> r_flags r2 = r_flags r \<and> r_uio r2 = r_uio r \<and> r_next r2 = r_next r \<and> r_mp r2 = r_mp r
    \<and> r_moff r2 = 0 \<and> r_offset r2 = r_offset r \<and> r_err r2 = r_err r
    \<and> r_m r2 = (if n = length (m_bytes m) then c else m\<lparr>m_data := m_data m + int n, m_bytes := drop n (m_bytes m)\<rparr> # c)
    \<and> (\<exists>sb s. r_tcp r2 = (so_upd i (\<lambda>x. x\<lparr>so_rcv := sb\<rparr>) (r_tcp r))\<lparr>mbs := s\<rparr> \<and> sb_ok (sb\<lparr>sb_mb := pending r2\<rparr>)
         \<and> (r_m r2 \<noteq> [] \<longrightarrow> sb_mb sb = r_m r2 # r_next r2))"
proof -
  let ?sb = "so_rcv (so_at i (r_tcp r))" and ?S = "(so_rcv (so_at i (r_tcp r)))\<lparr>sb_mb := (m # c) # r_next r\<rparr>"
  have wf: "mbuf_wf m" "chain_wf c" "chain_wf (concat (r_next r))" "list_all (\<lambda>r. r \<noteq> []) (r_next r)"
    using assms(1) by (auto simp: sb_ok_def)
  show ?thesis
  proof (cases "n = length (m_bytes m)")
    case True
    define sb where "sb = (sbfree m ?sb)\<lparr>sb_mb := cur_records c (r_next r)\<rparr>"
    define r2 where "r2 = r\<lparr>r_m := c, r_tcp := (so_upd i (\<lambda>x. x\<lparr>so_rcv := sb\<rparr>) (r_tcp r))\<lparr>mbs := MFREE m (mbs (r_tcp r))\<rparr>\<rparr>"
    have "rcv_consume False i (int n) r = Ret r2"
      using assms(2-5) True by (simp add: rcv_consume_def Let_def m_len_def r2_def sb_def)
    moreover have "sb_ok ((grow (- m_len m) (- mbcnt_of [m]) ?S)\<lparr>sb_mb := pending r2\<rparr>)"
      by (rule sb_ok_grow[OF assms(1)]) (use wf in \<open>auto simp: pending_def r2_def sbdata_def m_len_def\<close>)
    then have "sb_ok (sb\<lparr>sb_mb := pending r2\<rparr>)" by (simp add: sb_def sbfree_grow grow_def)
    ultimately show ?thesis using True assms(3) by (auto simp: r2_def sb_def cur_records_def intro!: exI[of _ r2])
  next
    case False
    define m1 where "m1 = m\<lparr>m_data := m_data m + int n, m_bytes := drop n (m_bytes m)\<rparr>"
    define sb where "sb = ?sb\<lparr>sb_cc := sb_cc ?sb - of_int (int n), sb_mb := (m1 # c) # r_next r\<rparr>"
    define r2 where "r2 = r\<lparr>r_m := m1 # c, r_tcp := (so_upd i (\<lambda>x. x\<lparr>so_rcv := sb\<rparr>) (r_tcp r))\<lparr>mbs := mbs (r_tcp r)\<rparr>\<rparr>"
    have "rcv_consume False i (int n) r = Ret r2"
      using assms(2-6) False by (simp add: rcv_consume_def Let_def m_len_def r2_def sb_def m1_def)
    moreover have "sb_ok ((grow (- int n) 0 ?S)\<lparr>sb_mb := pending r2\<rparr>)"
      by (rule sb_ok_grow[OF assms(1)]) (use wf assms(6) in \<open>auto simp: pending_def r2_def m1_def sbdata_def mbuf_wf_def m_len_def\<close>)
    then have "sb_ok (sb\<lparr>sb_mb := pending r2\<rparr>)" by (simp add: sb_def grow_def pending_def r2_def)
    ultimately show ?thesis using False assms(3) by (auto simp: r2_def sb_def m1_def intro!: exI[of _ r2])
  qed
qed

lemma rcv_move_reading:
  assumes "room (r_uio r)" and "int n \<le> uio_resid (r_uio r)" and "r_m r = m # c" and "r_moff r = 0" and "n \<le> length (m_bytes m)"
  shows "\<exists>u. rcv_move False (int n) r = Ret (r\<lparr>r_err := None, r_uio := u\<rparr>) \<and> room u \<and> uio_resid u = uio_resid (r_uio r) - int n
    \<and> uio_mem u = uio_mem (r_uio r) @ take n (m_bytes m)"
  using uiomove_read_exact[OF assms(1), of "take n (m_bytes m)"] assms(2-5) by (auto simp: rcv_move_def)

lemma readable_le: "readable w mk n \<le> n" "0 < w \<Longrightarrow> int (readable w mk n) \<le> w" "mk \<noteq> 0 \<Longrightarrow> readable w mk n \<le> unat mk"
  by (auto simp: readable_def)

lemma mark_left: "n \<le> unat mk \<Longrightarrow> unat (mk - of_nat n) = unat mk - n" for mk :: u32
proof -
  assume n: "n \<le> unat mk"
  then have "unat (of_nat n :: u32) = n" using unsigned_less[where 'a = nat, of mk] by (simp add: unat_of_nat)
  then show ?thesis using n unat_sub[of "of_nat n" mk] by (simp add: word_le_nat_alt)
qed

lemma rcv_mark_reading:
  assumes "MSG_PEEK \<notin> r_flags r" and "mk = so_oobmark (so_at i (r_tcp r))" and "mk \<noteq> 0 \<Longrightarrow> n \<le> unat mk"
    and "SS_RCVATMARK \<notin> so_state (so_at i (r_tcp r))"
  shows "rcv_mark i (int n) r = (mk \<noteq> 0 \<and> n = unat mk,
     r\<lparr>r_tcp := so_upd i (\<lambda>x. x\<lparr>so_oobmark := (if mk = 0 then 0 else mk - of_nat n), so_state := at_mark mk n (so_state x)\<rparr>) (r_tcp r)\<rparr>)"
proof -
  have z: "mk \<noteq> 0 \<Longrightarrow> mk - of_nat n = 0 \<longleftrightarrow> n = unat mk" using mark_left[OF assms(3)] assms(3) by (metis diff_is_0_eq le_antisym unat_eq_zero)
  have eq: "so_upd i (\<lambda>x. x\<lparr>so_oobmark := so_oobmark (so_at i u), so_state := so_state (so_at i u)\<rparr>) u = u" for u
    by (simp add: so_upd_def upd_def)
  have up: "so_upd i f u = so_upd i g u" if "f (so_at i u) = g (so_at i u)" for f g u
    using that by (simp add: so_upd_def upd_def)
  have "r\<lparr>r_tcp := so_upd i (\<lambda>x. x\<lparr>so_oobmark := 0, so_state := at_mark 0 n (so_state x)\<rparr>) (r_tcp r)\<rparr> = r" if "mk = 0"
  proof -
    have "so_upd i (\<lambda>x. x\<lparr>so_oobmark := 0, so_state := at_mark 0 n (so_state x)\<rparr>) (r_tcp r) = r_tcp r"
      using that assms(2,4) by (subst (2) eq[symmetric], intro up) (simp add: at_mark_def)
    then show ?thesis by simp
  qed
  moreover have "so_upd i (\<lambda>x. x\<lparr>so_oobmark := mk - of_nat n\<rparr>) (r_tcp r)
      = so_upd i (\<lambda>x. x\<lparr>so_oobmark := mk - of_nat n, so_state := at_mark mk n (so_state x)\<rparr>) (r_tcp r)" if "n \<noteq> unat mk"
    using that assms(4) by (intro up) (simp add: at_mark_def)
  moreover have "so_upd i (\<lambda>x. x\<lparr>so_oobmark := 0, so_state := insert SS_RCVATMARK (so_state x)\<rparr>) (r_tcp r)
      = so_upd i (\<lambda>x. x\<lparr>so_oobmark := 0, so_state := at_mark mk n (so_state x)\<rparr>) (r_tcp r)" if "n = unat mk" "mk \<noteq> 0"
    using that assms(4) by (intro up) (simp add: at_mark_def)
  ultimately show ?thesis using assms(1,2) z by (auto simp: rcv_mark_def Let_def)
qed

lemma rcv_round_reading:
  assumes "reading i ty r" and "r_m r = m # c" and "0 < uio_resid (r_uio r)"
    and "mk = so_oobmark (so_at i (r_tcp r))" and "n = readable (uio_resid (r_uio r)) mk (length (m_bytes m))"
  shows "\<exists>r'. rcv_round False i r = Ret (mk \<noteq> 0 \<and> n = unat mk, r') \<and> reading i ty r' \<and> rcv_only i (r_tcp r) (r_tcp r')
    \<and> r_m r' = (if n = length (m_bytes m) then c else m\<lparr>m_data := m_data m + int n, m_bytes := drop n (m_bytes m)\<rparr> # c)
    \<and> r_next r' = r_next r \<and> r_mp r' = r_mp r \<and> uio_mem (r_uio r') = uio_mem (r_uio r) @ take n (m_bytes m)
    \<and> uio_resid (r_uio r') = uio_resid (r_uio r) - int n \<and> so_state (so_at i (r_tcp r')) = at_mark mk n (so_state (so_at i (r_tcp r)))
    \<and> so_oobmark (so_at i (r_tcp r')) = (if mk = 0 then 0 else mk - of_nat n)"
proof -
  define r0 where "r0 = r\<lparr>r_flags := (if m_type (hd (r_m r)) = MT_OOBDATA then insert MSG_OOB (r_flags r) else r_flags r),
                 r_tcp := so_upd i (\<lambda>x. x\<lparr>so_state := so_state x - {SS_RCVATMARK}\<rparr>) (r_tcp r)\<rparr>"
  have rd: "reading i ty r0" using assms(1) by (auto simp: reading_def r0_def pending_def)
  have mk: "mk = so_oobmark (so_at i (r_tcp r0))" and fl: "r_flags r0 \<inter> {MSG_PEEK, MSG_EOR, MSG_WAITALL} = {}" "r_moff r0 = 0" "room (r_uio r0)"
      "sb_ok ((so_rcv (so_at i (r_tcp r0)))\<lparr>sb_mb := (m # c) # r_next r0\<rparr>)" "\<not> M_EOR m"
    using rd assms(2,4) by (auto simp: reading_def r0_def pending_def split: if_splits)
  have m0: "r_m r0 = m # c" "r_uio r0 = r_uio r" "r_next r0 = r_next r" using assms(2) by (simp_all add: r0_def)
  have n: "n \<le> length (m_bytes m)" "int n \<le> uio_resid (r_uio r0)" "mk \<noteq> 0 \<Longrightarrow> n \<le> unat mk"
    using readable_le assms(3,5) m0(2) by auto
  have len: "rcv_len i r0 = int n" using rcv_len_readable[OF rd] m0 assms(3,5) mk by simp
  obtain u where u: "rcv_move False (int n) r0 = Ret (r0\<lparr>r_err := None, r_uio := u\<rparr>)" "room u" "uio_resid u = uio_resid (r_uio r) - int n"
      "uio_mem u = uio_mem (r_uio r) @ take n (m_bytes m)"
    using rcv_move_reading[OF fl(3) n(2) m0(1) fl(2) n(1)] m0(2) by auto
  define r1 where "r1 = r0\<lparr>r_err := None, r_uio := u\<rparr>"
  have r1: "r_tcp r1 = r_tcp r0" "r_next r1 = r_next r0" "r_m r1 = m # c" "r_moff r1 = 0" "r_flags r1 = r_flags r0" "r_uio r1 = u" "r_err r1 = None"
      "r_offset r1 = 0" "r_mp r1 = r_mp r" using m0 fl(2) rd by (simp_all add: r1_def reading_def, simp add: r0_def)
  have pk: "MSG_PEEK \<notin> r_flags r1" using fl(1) r1(5) by auto
  from rcv_consume_reading[OF fl(4)[folded r1(1,2)] r1(3,4) pk fl(5) n(1)]
  obtain r2 sb s where r2: "rcv_consume False i (int n) r1 = Ret r2" "r_flags r2 = r_flags r0" "r_uio r2 = u" "r_next r2 = r_next r" "r_mp r2 = r_mp r"
      "r_moff r2 = 0" "r_offset r2 = 0" "r_err r2 = None" and r2m:
      "r_m r2 = (if n = length (m_bytes m) then c else m\<lparr>m_data := m_data m + int n, m_bytes := drop n (m_bytes m)\<rparr> # c)"
    and r2t: "r_tcp r2 = (so_upd i (\<lambda>x. x\<lparr>so_rcv := sb\<rparr>) (r_tcp r0))\<lparr>mbs := s\<rparr>" "sb_ok (sb\<lparr>sb_mb := pending r2\<rparr>)"
      "r_m r2 \<noteq> [] \<longrightarrow> sb_mb sb = r_m r2 # r_next r2"
    unfolding r1 m0(3) by blast
  define r3 where "r3 = r2\<lparr>r_tcp := so_upd i (\<lambda>x. x\<lparr>so_oobmark := (if mk = 0 then 0 else mk - of_nat n), so_state := at_mark mk n (so_state x)\<rparr>) (r_tcp r2)\<rparr>"
  have "rcv_mark i (int n) r2 = (mk \<noteq> 0 \<and> n = unat mk, r3)" unfolding r3_def
    by (rule rcv_mark_reading) (use r2(2) pk r1(5) r2t(1) mk n(3) in \<open>simp_all add: r0_def\<close>)
  then have rr: "rcv_round False i r = Ret (mk \<noteq> 0 \<and> n = unat mk, r3)"
    using u(1) r2(1) len fl(1) r2(2) unfolding r1_def by (simp add: rcv_round_def Let_def r0_def[symmetric] r3_def)
  have at: "at_mark mk n (st - {SS_RCVATMARK}) = at_mark mk n st" for st by (simp add: at_mark_def)
  have "uint mk < 2 ^ 31" using assms(1,4) by (simp add: reading_def)
  moreover have "mk \<noteq> 0 \<Longrightarrow> mk - of_nat n \<le> mk" using mark_left[OF n(3)] by (simp add: word_le_nat_alt)
  ultimately have mk3: "uint (so_oobmark (so_at i (r_tcp r3))) < 2 ^ 31"
    unfolding word_le_def by (cases "mk = 0") (simp_all add: r3_def)
  have t3: "r_tcp r3 = (so_upd i (\<lambda>x. x\<lparr>so_rcv := sb, so_oobmark := (if mk = 0 then 0 else mk - of_nat n),
      so_state := at_mark mk n (so_state x - {SS_RCVATMARK})\<rparr>) (r_tcp r))\<lparr>mbs := s\<rparr>"
    by (simp add: r3_def r2t(1) r0_def)
  then have "rcv_only i (r_tcp r) (r_tcp r3)" by (simp only:, intro rcv_only_step[OF rcv_only_refl], simp)
  moreover have "reading i ty r3"
  proof -
    have "\<forall>k \<in> set (r_m r2). m_type k = ty \<and> \<not> M_EOR k" using r2m assms(1,2) by (auto simp: reading_def)
    moreover have "pending r3 = pending r2" by (simp add: pending_def r3_def)
    ultimately show ?thesis using r2 r2t fl(1) u(2,3) mk3 assms(1,3) by (simp add: reading_def r3_def)
  qed
  moreover have "so_state (so_at i (r_tcp r3)) = at_mark mk n (so_state (so_at i (r_tcp r)))"
      "so_oobmark (so_at i (r_tcp r3)) = (if mk = 0 then 0 else mk - of_nat n)" by (simp_all add: t3 at)
  moreover have "r_m r3 = r_m r2" "r_next r3 = r_next r" "r_mp r3 = r_mp r" "r_uio r3 = u" using r2(3-5) by (simp_all add: r3_def)
  ultimately show ?thesis using rr r2m u(3,4) by (intro exI[of _ r3]) (simp only: simp_thms)
qed

section \<open>The loop\<close>

lemma readable_more:
  assumes "readable w mk a = a" and "0 < w" and "\<not> (mk \<noteq> 0 \<and> a = unat mk)"
  shows "readable w mk (a + b) = a + readable (w - int a) (if mk = 0 then 0 else mk - of_nat a) b"
    and "mk \<noteq> 0 \<Longrightarrow> mk - of_nat a \<noteq> 0"
proof -
  have a: "int a \<le> w" "mk \<noteq> 0 \<Longrightarrow> a < unat mk" using readable_le(2,3)[where n=a and mk=mk and w=w] assms by force+
  show z: "mk \<noteq> 0 \<Longrightarrow> mk - of_nat a \<noteq> 0" using mark_left[of a mk] a(2) by (metis less_imp_le unat_0 zero_less_diff less_irrefl)
  show "readable w mk (a + b) = a + readable (w - int a) (if mk = 0 then 0 else mk - of_nat a) b"
    using a z mark_left[of a mk] by (auto simp: readable_def)
qed

lemma at_mark_more:
  assumes "mk \<noteq> 0 \<Longrightarrow> a < unat mk"
  shows "at_mark (if mk = 0 then 0 else mk - of_nat a) b (at_mark mk a st) = at_mark mk (a + b) st"
proof (cases "mk = 0")
  case False
  then have "unat (mk - of_nat a) = unat mk - a" "a < unat mk" using assms mark_left[of a mk] by auto
  moreover from this have "mk - of_nat a \<noteq> 0" by (metis unat_0 zero_less_diff less_irrefl)
  ultimately show ?thesis using False by (auto simp: at_mark_def)
qed (auto simp: at_mark_def)

lemma rcv_only_trans: "rcv_only i a b \<Longrightarrow> rcv_only i b c \<Longrightarrow> rcv_only i a c"
  by (auto simp: rcv_only_def) blast

text \<open>What the loop has done when it ends after \<open>n\<close> bytes.\<close>

definition has_read :: "nat \<Rightarrow> mtype \<Rightarrow> nat \<Rightarrow> rcv \<Rightarrow> rcv \<Rightarrow> bool" where
  "has_read i ty n r r' = (reading i ty r' \<and> rcv_only i (r_tcp r) (r_tcp r') \<and> r_next r' = r_next r \<and> r_mp r' = r_mp r
     \<and> mdata (r_m r') = drop n (mdata (r_m r)) \<and> uio_mem (r_uio r') = uio_mem (r_uio r) @ take n (mdata (r_m r))
     \<and> uio_resid (r_uio r') = uio_resid (r_uio r) - int n
     \<and> so_oobmark (so_at i (r_tcp r')) = (if so_oobmark (so_at i (r_tcp r)) = 0 then 0 else so_oobmark (so_at i (r_tcp r)) - of_nat n)
     \<and> so_state (so_at i (r_tcp r')) = (if r_m r = [] \<or> uio_resid (r_uio r) = 0 then so_state (so_at i (r_tcp r))
          else at_mark (so_oobmark (so_at i (r_tcp r))) n (so_state (so_at i (r_tcp r)))))"

lemma has_read_none: "reading i ty r \<Longrightarrow> r_m r = [] \<or> uio_resid (r_uio r) = 0 \<Longrightarrow> has_read i ty 0 r r"
  by (simp add: has_read_def rcv_only_refl)

lemma room_nonneg: "room u \<Longrightarrow> 0 \<le> uio_resid u"
  by (simp add: room_def)

lemma rcv_loop_done:
  assumes "r_m r = [] \<or> uio_resid (r_uio r) \<le> 0"
  shows "rcv_loop pr mp i ty ws r = Some (Ret (Inr r))"
  using assms by (subst rcv_loop.simps) auto

lemma rcv_loop_reading:
  assumes "reading i ty r"
  shows "\<exists>r'. rcv_loop pr False i ty ws r = Some (Ret (Inr r'))
    \<and> has_read i ty (readable (uio_resid (r_uio r)) (so_oobmark (so_at i (r_tcp r))) (length (mdata (r_m r)))) r r'"
  using assms
proof (induction "r_m r" arbitrary: r)
  case Nil
  then show ?case using rcv_loop_done[of r] has_read_none[of i ty r] by (simp add: readable_def)
next
  case (Cons m c)
  let ?w = "uio_resid (r_uio r)" and ?mk = "so_oobmark (so_at i (r_tcp r))"
  have w: "0 \<le> ?w" using Cons(3) room_nonneg by (auto simp: reading_def)
  show ?case
  proof (cases "?w = 0")
    case True
    then show ?thesis using rcv_loop_done[of r] has_read_none[OF Cons(3)] by (simp add: readable_def)
  next
    case False
    then have w: "0 < ?w" using w by simp
    define n where "n = readable ?w ?mk (length (m_bytes m))"
    define stop where "stop = (?mk \<noteq> 0 \<and> n = unat ?mk)"
    from rcv_round_reading[OF Cons(3) Cons(2)[symmetric] w refl n_def]
    obtain r1 where r1: "rcv_round False i r = Ret (stop, r1)" "reading i ty r1" "rcv_only i (r_tcp r) (r_tcp r1)"
        "r_m r1 = (if n = length (m_bytes m) then c else m\<lparr>m_data := m_data m + int n, m_bytes := drop n (m_bytes m)\<rparr> # c)"
        "r_next r1 = r_next r" "r_mp r1 = r_mp r" "uio_mem (r_uio r1) = uio_mem (r_uio r) @ take n (m_bytes m)"
        "uio_resid (r_uio r1) = ?w - int n" "so_state (so_at i (r_tcp r1)) = at_mark ?mk n (so_state (so_at i (r_tcp r)))"
        "so_oobmark (so_at i (r_tcp r1)) = (if ?mk = 0 then 0 else ?mk - of_nat n)"
      unfolding stop_def by blast
    have nm: "n \<le> length (m_bytes m)" using readable_le(1) by (simp add: n_def)
    have d1: "mdata (r_m r1) = drop n (m_bytes m) @ mdata c" using r1(4) by simp
    have rm: "mdata (r_m r) = m_bytes m @ mdata c" "m_type m = ty" "r_m r \<noteq> []" "r_m r = m # c" "r_err r = None"
      using Cons(2,3) by (auto simp: Cons(2)[symmetric] reading_def)
    have one: "has_read i ty n r r1" using r1 d1 nm rm(1,3) w by (simp add: has_read_def)
    have loop: "rcv_loop pr False i ty ws r = (if stop then Some (Ret (Inr r1)) else rcv_loop pr False i ty ws r1)"
    proof -
      have "rcv_waitall pr i ws r1 = Some (Inr (r1, ws))" using r1(2) by (subst rcv_waitall.simps) (auto simp: reading_def)
      then show ?thesis using r1(1) rm w by (subst rcv_loop.simps) simp
    qed
    show ?thesis
    proof (cases "stop \<or> n \<noteq> length (m_bytes m)")
      case True
      have "readable ?w ?mk (length (mdata (r_m r))) = n"
        using True nm unfolding n_def stop_def readable_def rm(1) length_append by (simp split: if_splits) linarith+
      moreover have "rcv_loop pr False i ty ws r = Some (Ret (Inr r1))"
      proof (cases stop)
        case False
        then have "int n = ?w" using True w by (auto simp: n_def stop_def readable_def min_def split: if_splits)
        then show ?thesis using loop False rcv_loop_done[of r1] r1(8) by simp
      qed (simp add: loop)
      ultimately show ?thesis using one by simp
    next
      case False
      then have f: "n = length (m_bytes m)" "\<not> (?mk \<noteq> 0 \<and> n = unat ?mk)" "readable ?w ?mk n = n" using n_def by (auto simp: stop_def)
      define k where "k = readable (?w - int n) (if ?mk = 0 then 0 else ?mk - of_nat n) (length (mdata c))"
      have c: "c = r_m r1" using r1(4) f(1) by simp
      from Cons(1)[OF c r1(2)] obtain r2 where r2: "rcv_loop pr False i ty ws r1 = Some (Ret (Inr r2))" "has_read i ty k r1 r2"
        unfolding r1(8,10) k_def c[symmetric] by blast
      have all: "readable ?w ?mk (length (mdata (r_m r))) = n + k"
        using readable_more(1)[OF f(3) w f(2), of "length (mdata c)"] by (simp add: rm(1) f(1) k_def)
      have mk: "?mk \<noteq> 0 \<Longrightarrow> n < unat ?mk" using readable_le(3)[of ?mk ?w n] f(2,3) by force
      have st: "so_state (so_at i (r_tcp r2)) = at_mark ?mk (n + k) (so_state (so_at i (r_tcp r)))"
      proof (cases "c = [] \<or> ?w - int n = 0")
        case True
        then have "k = 0" by (auto simp: k_def readable_def)
        then show ?thesis using r2(2) True c r1(8,9) by (simp add: has_read_def)
      next
        case False
        then show ?thesis using r2(2) c r1(8-10) at_mark_more[OF mk, of k] by (simp add: has_read_def)
      qed
      have "has_read i ty (n + k) r r2"
        using r2(2) one st w rm readable_more(2)[OF f(3) w f(2)] r1(8) by (auto simp: has_read_def f(1) c[symmetric] intro: rcv_only_trans)
      then show ?thesis using loop r2(1) False all by simp
    qed
  qed
qed

section \<open>A whole call\<close>

lemma sb_ok_lock [simp]:
  "sb_ok (sb\<lparr>SB_LOCK := b\<rparr>) = sb_ok sb" "sb_ok (sb\<lparr>SB_WANT := b\<rparr>) = sb_ok sb" "sbdata (sb\<lparr>SB_LOCK := b\<rparr>) = sbdata sb"
  "sbdata (sb\<lparr>SB_WANT := b\<rparr>) = sbdata sb" "sb_ok (sb\<lparr>sb_mb := sb_mb sb\<rparr>) = sb_ok sb"
  by (simp_all add: sb_ok_def sbdata_def)

lemma so_lock_free:
  assumes "\<not> SB_LOCK (sb_of w (so_at i t))"
  shows "so_lock slp i w t = Some (None, so_upd i (sb_set w ((sb_of w (so_at i t))\<lparr>SB_LOCK := True\<rparr>)) t)"
  using assms by (simp add: so_lock_def sblock_def)

text \<open>Unlocking changes two flags of the buffer.\<close>

lemma so_unlock_frame:
  "\<exists>b. so_at i (so_unlock i w t) = sb_set w ((sb_of w (so_at i t))\<lparr>SB_LOCK := False, SB_WANT := b\<rparr>) (so_at i t)"
proof -
  let ?sb = "sb_of w (so_at i t)"
  have a: "so_at i (so_unlock i w t) = sb_set w (if SB_WANT ?sb then ?sb\<lparr>SB_LOCK := False, SB_WANT := False\<rparr> else ?sb\<lparr>SB_LOCK := False\<rparr>) (so_at i t)"
    by (simp add: so_unlock_def sbunlock_def Let_def so_upd_def upd_def post_def)
  have "(if SB_WANT ?sb then ?sb\<lparr>SB_LOCK := False, SB_WANT := False\<rparr> else ?sb\<lparr>SB_LOCK := False\<rparr>) = ?sb\<lparr>SB_LOCK := False, SB_WANT := False\<rparr>"
    by (intro sockbuf.equality) simp_all
  then show ?thesis unfolding a by (simp only:) blast
qed

lemma sb_set_simps [simp]:
  "so_rcv (sb_set Rcv sb x) = sb" "so_snd (sb_set Snd sb x) = sb" "so_snd (sb_set Rcv sb x) = so_snd x" "so_rcv (sb_set Snd sb x) = so_rcv x"
  "so_state (sb_set w sb x) = so_state x" "so_oobmark (sb_set w sb x) = so_oobmark x" "so_error (sb_set w sb x) = so_error x"
  "so_pcb (sb_set w sb x) = so_pcb x" "sb_of Rcv x = so_rcv x" "sb_of Snd x = so_snd x" "so_options (sb_set w sb x) = so_options x"
  by (simp_all add: sb_set_def sb_of_def split: sbsel.splits)

text \<open>The contract of a stream protocol towards \<^verbatim>\<open>soreceive\<close>: it keeps no records and no addresses, its well-formedness
  \<open>ok\<close> does not depend on the receive side, and the notice \<^verbatim>\<open>PRU_RCVD\<close> returns and leaves the sockets alone.\<close>

locale rcvd_protocol =
  fixes pr :: protosw and ok :: "nat \<Rightarrow> tcp \<Rightarrow> bool"
  assumes stream: "pr_flags pr \<inter> {PR_ATOMIC, PR_ADDR} = {}"
    and ok_frame: "ok i t \<Longrightarrow> rcv_only i t t' \<Longrightarrow> ok i t'"
    and rcvd: "ok i t \<Longrightarrow> \<exists>e rep t'. pr_usrreq pr i PRU_RCVD [] t = Some (Ret (e, rep, t')) \<and> stab t' = stab t"
begin

lemma rcv_end_stream:
  assumes "reading i ty r" and "ok i (r_tcp r)"
  shows "\<exists>r'. rcv_end pr i r = Some (Ret r') \<and> r_err r' = None \<and> r_uio r' = r_uio r \<and> r_mp r' = r_mp r
    \<and> so_at i (r_tcp r') = (so_at i (r_tcp r))\<lparr>so_rcv := (so_rcv (so_at i (r_tcp r)))\<lparr>sb_mb := pending r\<rparr>\<rparr>"
proof -
  define t1 where "t1 = (if r_m r = [] then so_upd i (\<lambda>x. x\<lparr>so_rcv := (so_rcv (so_at i (r_tcp r)))\<lparr>sb_mb := r_next r\<rparr>\<rparr>) (r_tcp r) else r_tcp r)"
  have p: "MSG_PEEK \<notin> r_flags r" "r_err r = None" "r_m r \<noteq> [] \<Longrightarrow> sb_mb (so_rcv (so_at i (r_tcp r))) = pending r"
    using assms(1) by (auto simp: reading_def pending_def)
  have "rcv_only i (r_tcp r) ((so_upd i (\<lambda>x. x\<lparr>so_rcv := (so_rcv (so_at i (r_tcp r)))\<lparr>sb_mb := r_next r\<rparr>\<rparr>) (r_tcp r))\<lparr>mbs := mbs (r_tcp r)\<rparr>)"
    by (rule rcv_only_step[OF rcv_only_refl]) simp
  then have "rcv_only i (r_tcp r) t1" using rcv_only_refl by (simp add: t1_def so_upd_mbs)
  then obtain e rep t2 where u: "pr_usrreq pr i PRU_RCVD [] t1 = Some (Ret (e, rep, t2))" "stab t2 = stab t1"
    using rcvd ok_frame assms(2) by blast
  have at: "so_at i t1 = (so_at i (r_tcp r))\<lparr>so_rcv := (so_rcv (so_at i (r_tcp r)))\<lparr>sb_mb := pending r\<rparr>\<rparr>"
    using p(3) by (cases "r_m r = []") (auto simp: t1_def pending_def intro: socket.equality)
  have "rcv_end pr i r = (if PR_WANTRCVD \<in> pr_flags pr \<and> so_pcb (so_at i t1) \<noteq> None
      then rbind (pr_usrreq pr i PRU_RCVD [] t1) (\<lambda>(_, _, t2). rret (r\<lparr>r_tcp := t2\<rparr>)) else rret (r\<lparr>r_tcp := t1\<rparr>))"
    using stream p(1) by (cases "r_m r = []") (auto simp: rcv_end_def Let_def t1_def)
  then show ?thesis using u at p(2) by (auto simp: rret_def)
qed

lemma soreceive_delivers:
  assumes "ok i t" and "sb_ok (so_rcv (so_at i t))" and "sb_mb (so_rcv (so_at i t)) = c # nx"
    and "\<forall>m \<in> set c. m_type m = ty \<and> \<not> M_EOR m" and "ty \<noteq> MT_CONTROL" and "\<not> SB_LOCK (so_rcv (so_at i t))"
    and "\<not> rcv_blocks (rcv_flags a) (uio_resid u) (so_rcv (so_at i t))" and "rcv_flags a \<inter> {MSG_OOB, MSG_PEEK, MSG_WAITALL, MSG_EOR} = {}"
    and "\<not> want_mp a" and "room u" and "uio_resid u < 2 ^ 31" and "uint (so_oobmark (so_at i t)) < 2 ^ 31"
    and "SS_ISCONFIRMING \<notin> so_state (so_at i t)" and n: "n = readable (uio_resid u) (so_oobmark (so_at i t)) (length (mdata c))"
  shows "\<exists>res. soreceive pr slp i a ws u t = Some (Ret res) \<and> rv_error res = None \<and> uio_mem (rv_uio res) = uio_mem u @ take n (sbdata (so_rcv (so_at i t)))
    \<and> uio_resid (rv_uio res) = uio_resid u - int n \<and> sb_ok (so_rcv (so_at i (rv_tcp res)))
    \<and> sbdata (so_rcv (so_at i (rv_tcp res))) = drop n (sbdata (so_rcv (so_at i t))) \<and> \<not> SB_LOCK (so_rcv (so_at i (rv_tcp res)))
    \<and> so_oobmark (so_at i (rv_tcp res)) = (if so_oobmark (so_at i t) = 0 then 0 else so_oobmark (so_at i t) - of_nat n)
    \<and> so_state (so_at i (rv_tcp res)) = (if uio_resid u = 0 then so_state (so_at i t) else at_mark (so_oobmark (so_at i t)) n (so_state (so_at i t)))"
proof -
  let ?x = "so_at i t" and ?sb = "(so_rcv (so_at i t))\<lparr>SB_LOCK := True\<rparr>"
  define t1 where "t1 = so_upd i (sb_set Rcv ?sb) t"
  define r where "r = \<lparr>r_tcp = (so_upd i (\<lambda>x. x\<lparr>so_rcv := ?sb\<lparr>sb_mb := c # nx\<rparr>\<rparr>) t1)\<lparr>mbs := mbs t\<rparr>, r_m = c, r_next = nx, r_moff = 0, r_offset = 0,
                  r_flags = rcv_flags a - {MSG_EOR}, r_uio = u, r_mp = [], r_err = None\<rparr>"
  have c: "c \<noteq> []" "m_type (hd c) = ty" using assms(2-4) by (auto simp: sb_ok_def hd_in_set)
  have x1: "so_at i t1 = sb_set Rcv ?sb ?x" "mbs t1 = mbs t" by (simp_all add: t1_def)
  have rt: "so_at i (r_tcp r) = ?x\<lparr>so_rcv := ?sb\<rparr>" "rcv_only i t (r_tcp r)"
  proof -
    have "?sb\<lparr>sb_mb := c # nx\<rparr> = ?sb" using assms(3) by (intro sockbuf.equality) simp_all
    then have e: "r_tcp r = (so_upd i (\<lambda>x. x\<lparr>so_rcv := ?sb\<rparr>) t)\<lparr>mbs := mbs t\<rparr>"
      by (simp add: r_def t1_def sb_set_def so_upd_def upd_def)
    show "so_at i (r_tcp r) = ?x\<lparr>so_rcv := ?sb\<rparr>" by (simp add: e)
    show "rcv_only i t (r_tcp r)" unfolding e by (rule rcv_only_step[OF rcv_only_refl]) simp
  qed
  have rf: "r_m r = c" "r_uio r = u" "r_next r = nx" by (simp_all add: r_def)
  have ru: "uio_resid (r_uio r) = uio_resid u" "length (mdata (r_m r)) = length (mdata c)" "so_oobmark (?x\<lparr>so_rcv := ?sb\<rparr>) = so_oobmark ?x"
    by (simp_all add: r_def)
  have rd: "reading i ty r" unfolding reading_def rt(1)
    using assms(2-4,8,10-12) c by (auto simp: r_def pending_def sb_ok_def sbdata_def)
  have go: "soreceive pr slp i a ws u t = rcv_go pr i a ws u t1"
    using assms(6-8,13) so_lock_free[where w=Rcv and i=i and t=t and slp=slp] x1
    by (auto simp: soreceive_def rcv_verdict_def rcv_blocks_def rret_def rcv_restart.simps[where t=t] t1_def[symmetric])
  have ctl: "rcv_control pr w pk c sb s = Ret (None, [], c, sb, s)" for w pk sb s using c assms(5) by (cases c) auto
  have go1: "rcv_go pr i a ws u t1 = rbind (rcv_loop pr False i ty ws r) (\<lambda>res. case res of
              Inl r1 \<Rightarrow> rret \<lparr>rv_error = None, rv_addr = [], rv_control = [], rv_mp = r_mp r1, rv_flags = rcv_flags a,
                             rv_uio = r_uio r1, rv_tcp = r_tcp r1\<rparr>
            | Inr r1 \<Rightarrow> rbind (rcv_end pr i r1) (\<lambda>r2.
                rret \<lparr>rv_error = r_err r2, rv_addr = [], rv_control = [], rv_mp = r_mp r2, rv_flags = rcv_flags a \<union> r_flags r2,
                      rv_uio = r_uio r2, rv_tcp = so_unlock i Rcv (r_tcp r2)\<rparr>))"
    using stream assms(3,8,9) c x1 by (simp add: rcv_go_def Let_def rcv_addr_def ctl cur_records_def r_def)
  obtain r1 where r1: "rcv_loop pr False i ty ws r = Some (Ret (Inr r1))" "has_read i ty n r r1"
    using rcv_loop_reading[OF rd, of pr ws] unfolding rt(1) ru n[symmetric] by auto
  have "ok i (r_tcp r1)" using ok_frame[OF assms(1) rcv_only_trans[OF rt(2)]] r1(2) by (simp add: has_read_def)
  then obtain r2 where r2: "rcv_end pr i r1 = Some (Ret r2)" "r_err r2 = None" "r_uio r2 = r_uio r1"
      "so_at i (r_tcp r2) = (so_at i (r_tcp r1))\<lparr>so_rcv := (so_rcv (so_at i (r_tcp r1)))\<lparr>sb_mb := pending r1\<rparr>\<rparr>"
    using rcv_end_stream r1(2) unfolding has_read_def by blast
  define res where "res = \<lparr>rv_error = r_err r2, rv_addr = [], rv_control = [], rv_mp = r_mp r2, rv_flags = rcv_flags a \<union> r_flags r2,
                      rv_uio = r_uio r2, rv_tcp = so_unlock i Rcv (r_tcp r2)\<rparr>"
  have "soreceive pr slp i a ws u t = Some (Ret res)" using go go1 r1(1) r2(1) by (simp add: res_def rret_def)
  moreover obtain b where "so_at i (rv_tcp res) = sb_set Rcv ((so_rcv (so_at i (r_tcp r2)))\<lparr>SB_LOCK := False, SB_WANT := b\<rparr>) (so_at i (r_tcp r2))"
    using so_unlock_frame[where w=Rcv and i=i and t="r_tcp r2"] by (auto simp: res_def)
  moreover have "sbdata (so_rcv ?x) = mdata c @ mdata (concat nx)" "n \<le> length (mdata c)" using assms(3) n readable_le(1) by (simp_all add: sbdata_def)
  moreover have "mdata (concat (pending r1)) = drop n (mdata c) @ mdata (concat nx)" "sb_ok ((so_rcv (so_at i (r_tcp r1)))\<lparr>sb_mb := pending r1\<rparr>)"
    using r1(2) rf by (auto simp: has_read_def reading_def pending_def)
  ultimately show ?thesis using r2 r1(2) c(1) rt(1) rf by (simp add: res_def has_read_def sbdata_def)
qed

end

section \<open>TCP\<close>

text \<open>TCP's entry of \<^verbatim>\<open>inetsw\<close>: the internet domain has no \<^verbatim>\<open>dom_externalize\<close>.\<close>

definition tcp_protosw :: "(mbuf \<Rightarrow> bool) \<Rightarrow> tcpcfg \<Rightarrow> protosw" where
  "tcp_protosw rights cfg = \<lparr>pr_flags = {PR_CONNREQUIRED, PR_WANTRCVD}, pr_usrreq = tcp_usrreq cfg, dom_externalize = None, scm_rights = rights\<rparr>"

text \<open>Socket \<open>i\<close> has a TCP connection that is past its SYN, with its send buffer in order.\<close>

definition tcp_ok :: "nat \<Rightarrow> tcp \<Rightarrow> bool" where
  "tcp_ok i t = (case so_pcb (so_at i t) of None \<Rightarrow> False
     | Some k \<Rightarrow> tp_live (enter k t) \<and> so_id (enter k t) = i \<and> send_inv (enter k t))"

lemma enter_simps [simp]:
  "stab (enter k t) = stab t" "mbs (enter k t) = mbs t" "tab (enter k t) = tab t" "inp_id (enter k t) = k" "inp (enter k t) = pcb (tab t) k"
  "enter k (so_upd i f t) = so_upd i f (enter k t)" "enter k (t\<lparr>mbs := s\<rparr>) = (enter k t)\<lparr>mbs := s\<rparr>" "tp_live (enter k t) = inp_ppcb (pcb (tab t) k)"
  "so_id (enter k t) = inp_socket (pcb (tab t) k)" "sent (enter k t) = sent t"
  by (simp_all add: enter_def Let_def so_upd_def inp_def tp_live_def so_id_def)

lemma the_so_enter: "inp_socket (pcb (tab t) k) = i \<Longrightarrow> the_so (enter k t) = so_at i t"
  by (simp add: the_so_def)

lemma send_inv_cong:
  "tp t' = tp t \<Longrightarrow> so_snd (the_so t') = so_snd (the_so t) \<Longrightarrow> send_inv t' = send_inv t"
  by (simp add: send_inv_def send_ok_def)

lemma tcp_ok_frame:
  assumes "tcp_ok i t" and "so_pcb (f (so_at i t)) = so_pcb (so_at i t)" and "so_snd (f (so_at i t)) = so_snd (so_at i t)"
  shows "tcp_ok i ((so_upd i f t)\<lparr>mbs := s\<rparr>)"
proof -
  obtain k where k: "so_pcb (so_at i t) = Some k" "inp_ppcb (pcb (tab t) k)" "inp_socket (pcb (tab t) k) = i" "send_inv (enter k t)"
    using assms(1) by (auto simp: tcp_ok_def split: option.splits)
  have "send_inv ((so_upd i f (enter k t))\<lparr>mbs := s\<rparr>) = send_inv (enter k t)"
    by (rule send_inv_cong) (use assms(3) k(3) in \<open>simp_all add: the_so_def so_id_def inp_def\<close>)
  then show ?thesis using k assms(2) by (simp add: tcp_ok_def tp_live_def so_id_def inp_def)
qed

lemma tcp_usrreq_live:
  assumes "tcp_ok i t"
  obtains k where "so_pcb (so_at i t) = Some k" and "inp_socket (pcb (tab t) k) = i" and "inp_ppcb (pcb (tab t) k)" and "send_inv (enter k t)"
    and "\<And>cfg req. tcp_usrreq cfg i req [] t = tcp_request cfg req (enter k t)"
  using assms by (fastforce simp: tcp_ok_def tcp_usrreq_def split: option.splits)

interpretation tcp_rcv: rcvd_protocol "tcp_protosw rights cfg" tcp_ok for rights cfg
proof
  show "pr_flags (tcp_protosw rights cfg) \<inter> {PR_ATOMIC, PR_ADDR} = {}" by (simp add: tcp_protosw_def)
next
  fix i t t' assume "tcp_ok i t" "rcv_only i t t'"
  then show "tcp_ok i t'" by (auto simp: rcv_only_def intro!: tcp_ok_frame)
next
  fix i t assume "tcp_ok i t"
  then obtain k where k: "send_inv (enter k t)" "tcp_usrreq cfg i PRU_RCVD [] t = tcp_request cfg PRU_RCVD (enter k t)"
    by (metis tcp_usrreq_live)
  from tcp_output_spec[OF k(1), of cfg] obtain e t1 where o: "tcp_output cfg (enter k t) = Some (Ret (e, t1))" "kept (enter k t) t1" by blast
  then have "stab t1 = stab t" by (simp add: kept_def)
  then show "\<exists>e rep t'. pr_usrreq (tcp_protosw rights cfg) i PRU_RCVD [] t = Some (Ret (e, rep, t')) \<and> stab t' = stab t"
    using k(2) o(1) by (simp add: tcp_protosw_def tcp_request_def rret_def)
qed

text \<open>(C3) Reading from a TCP connection: when the receive buffer has data, \<^verbatim>\<open>soreceive\<close> returns without error and hands
  the user the bytes at the front of the buffer, in order: as many as asked for and there are in the first record, but
  never past the out-of-band mark.  The buffer keeps exactly the rest and its counters stay right, it is unlocked, the
  mark moves with the data, and \<^verbatim>\<open>SS_RCVATMARK\<close> is set exactly when reading stopped at the mark.\<close>

theorem tcp_soreceive_stream:
  assumes "tcp_ok i t" and "sb_ok (so_rcv (so_at i t))" and "sb_mb (so_rcv (so_at i t)) = c # nx"
    and "\<forall>m \<in> set c. m_type m = ty \<and> \<not> M_EOR m" and "ty \<noteq> MT_CONTROL" and "\<not> SB_LOCK (so_rcv (so_at i t))"
    and "\<not> rcv_blocks (rcv_flags a) (uio_resid u) (so_rcv (so_at i t))" and "rcv_flags a \<inter> {MSG_OOB, MSG_PEEK, MSG_WAITALL, MSG_EOR} = {}"
    and "\<not> want_mp a" and "room u" and "uio_resid u < 2 ^ 31" and "uint (so_oobmark (so_at i t)) < 2 ^ 31"
    and "SS_ISCONFIRMING \<notin> so_state (so_at i t)" and "n = readable (uio_resid u) (so_oobmark (so_at i t)) (length (mdata c))"
  shows "\<exists>res. soreceive (tcp_protosw rights cfg) slp i a ws u t = Some (Ret res) \<and> rv_error res = None
    \<and> uio_mem (rv_uio res) = uio_mem u @ take n (sbdata (so_rcv (so_at i t)))
    \<and> uio_resid (rv_uio res) = uio_resid u - int n \<and> sb_ok (so_rcv (so_at i (rv_tcp res)))
    \<and> sbdata (so_rcv (so_at i (rv_tcp res))) = drop n (sbdata (so_rcv (so_at i t))) \<and> \<not> SB_LOCK (so_rcv (so_at i (rv_tcp res)))
    \<and> so_oobmark (so_at i (rv_tcp res)) = (if so_oobmark (so_at i t) = 0 then 0 else so_oobmark (so_at i t) - of_nat n)
    \<and> so_state (so_at i (rv_tcp res)) = (if uio_resid u = 0 then so_state (so_at i t) else at_mark (so_oobmark (so_at i t)) n (so_state (so_at i t)))"
  by (rule tcp_rcv.soreceive_delivers[OF assms])

text \<open>A connected socket with \<open>[1, 2, 3, 4]\<close> received and the mark three bytes ahead; a user with room for ten bytes.\<close>

definition ex_user :: tcp where
  "ex_user = ex_tcp\<lparr>stab := (stab ex_tcp)\<lparr>sock := (\<lambda>_. (the_so ex_tcp)\<lparr>so_pcb := Some 0, so_oobmark := 3, so_state := {SS_ISCONNECTED, SS_NBIO},
     so_rcv := ex_sb [[ex_mbuf [1, 2], ex_mbuf [3, 4]]]\<rparr>)\<rparr>\<rparr>"

definition ex_uio :: uio where
  "ex_uio = \<lparr>uio_iov = [\<lparr>iov_len = 2, iov_ok = True\<rparr>, \<lparr>iov_len = 8, iov_ok = True\<rparr>], uio_resid = 10, uio_mem = []\<rparr>"

definition ex_rcv_args :: rcv_args where
  "ex_rcv_args = \<lparr>want_addr = False, want_control = False, want_mp = False, rcv_flags = {}\<rparr>"

lemma ex_user_simps [simp]:
  "so_rcv (so_at 0 ex_user) = ex_sb [[ex_mbuf [1, 2], ex_mbuf [3, 4]]]" "so_state (so_at 0 ex_user) = {SS_ISCONNECTED, SS_NBIO}"
  "so_oobmark (so_at 0 ex_user) = 3" "so_pcb (so_at 0 ex_user) = Some 0" "so_snd (so_at 0 ex_user) = ex_sb []" "so_error (so_at 0 ex_user) = None"
  by (simp_all add: ex_user_def the_so_def ex_tcp_def ex_so_def)

lemma ex_user_ok: "tcp_ok 0 ex_user"
proof -
  have "enter 0 ex_user = ex_user\<lparr>tcbs := (\<lambda>_. ex_tcpcb)\<rparr>" by (simp add: enter_def ex_user_def ex_tcp_def fun_eq_iff)
  then have "tp (enter 0 ex_user) = ex_tcpcb" by (simp add: ex_user_def)
  moreover have "inp_ppcb (pcb (tab ex_user) 0)" "inp_socket (pcb (tab ex_user) 0) = 0"
    by (simp_all add: ex_user_def ex_tcp_def zero_pcb_def)
  ultimately show ?thesis
    by (simp add: tcp_ok_def send_inv_def send_ok_def the_so_enter M_COPYALL_def, simp add: ex_tcpcb_def)
qed

theorem tcp_soreceive_stream_witness:
  "\<exists>res. soreceive (tcp_protosw (\<lambda>_. False) ex_cfg) [] 0 ex_rcv_args [] ex_uio ex_user = Some (Ret res)
     \<and> uio_mem (rv_uio res) = [1, 2, 3] \<and> sbdata (so_rcv (so_at 0 (rv_tcp res))) = [4] \<and> SS_RCVATMARK \<in> so_state (so_at 0 (rv_tcp res))"
proof -
  let ?c = "[ex_mbuf [1, 2], ex_mbuf [3, 4]]"
  have sb: "sb_ok (so_rcv (so_at 0 ex_user))" "sb_mb (so_rcv (so_at 0 ex_user)) = ?c # []" "\<not> SB_LOCK (so_rcv (so_at 0 ex_user))"
      "\<forall>m \<in> set ?c. m_type m = MT_DATA \<and> \<not> M_EOR m" "MT_DATA \<noteq> MT_CONTROL"
    by (simp_all add: ex_mbuf_simps, simp_all add: ex_sb_def ex_mbuf_def new_mbuf_def)
  have u: "rcv_flags ex_rcv_args \<inter> {MSG_OOB, MSG_PEEK, MSG_WAITALL, MSG_EOR} = {}" "\<not> want_mp ex_rcv_args" "room ex_uio" "uio_resid ex_uio < 2 ^ 31"
      "uint (so_oobmark (so_at 0 ex_user)) < 2 ^ 31" "SS_ISCONFIRMING \<notin> so_state (so_at 0 ex_user)" "uio_resid ex_uio = 10" "uio_mem ex_uio = []"
    by (simp_all add: ex_rcv_args_def ex_uio_def room_def)
  have b: "\<not> rcv_blocks (rcv_flags ex_rcv_args) (uio_resid ex_uio) (so_rcv (so_at 0 ex_user))"
    by (simp add: rcv_blocks_def ex_sb_def ex_mbuf_simps ex_rcv_args_def ex_uio_def)
  have n: "3 = readable (uio_resid ex_uio) (so_oobmark (so_at 0 ex_user)) (length (mdata ?c))" by (simp add: readable_def ex_mbuf_simps u(7))
  have d: "sbdata (so_rcv (so_at 0 ex_user)) = [1, 2, 3, 4]" by (simp add: ex_mbuf_simps)
  from tcp_soreceive_stream[OF ex_user_ok sb(1,2,4,5,3) b u(1-6) n, of "\<lambda>_. False" ex_cfg "[]" "[]"]
  show ?thesis unfolding d u(7,8) by (auto simp: at_mark_def)
qed

section \<open>Peeking up to the mark\<close>

text \<open>The loop of a peek that has come to the out-of-band mark inside an mbuf: there is nothing more it may take.\<close>

definition peek_stuck :: "nat \<Rightarrow> mtype \<Rightarrow> nat \<Rightarrow> rcv \<Rightarrow> bool" where
  "peek_stuck i ty k r = (r_m r \<noteq> [] \<and> m_type (hd (r_m r)) = ty \<and> k < length (m_bytes (hd (r_m r))) \<and> r_moff r = int k \<and> r_offset r = int k
     \<and> so_oobmark (so_at i (r_tcp r)) = of_nat k \<and> 0 < k \<and> k < 2 ^ 31 \<and> MSG_PEEK \<in> r_flags r \<and> MSG_EOR \<notin> r_flags r
     \<and> 0 < uio_resid (r_uio r) \<and> uio_resid (r_uio r) < 2 ^ 31 \<and> r_err r = None)"

lemma peek_stuck_round:
  assumes "peek_stuck i ty k r"
  shows "\<exists>r'. rcv_round mp i r = Ret (False, r') \<and> peek_stuck i ty k r'"
proof -
  define r0 where "r0 = r\<lparr>r_flags := (if m_type (hd (r_m r)) = MT_OOBDATA then insert MSG_OOB (r_flags r) else r_flags r),
                 r_tcp := so_upd i (\<lambda>x. x\<lparr>so_state := so_state x - {SS_RCVATMARK}\<rparr>) (r_tcp r)\<rparr>"
  have st: "peek_stuck i ty k r0" using assms by (simp add: peek_stuck_def r0_def)
  then have f: "r_moff r0 = int k" "r_offset r0 = int k" "so_oobmark (so_at i (r_tcp r0)) = of_nat k" "MSG_PEEK \<in> r_flags r0" "MSG_EOR \<notin> r_flags r0"
      "0 < uio_resid (r_uio r0)" "uio_resid (r_uio r0) < 2 ^ 31" "r_err r0 = None" "k < length (m_bytes (hd (r_m r0)))" "0 < k" "k < 2 ^ 31"
    by (simp_all add: peek_stuck_def)
  have mk: "(of_nat k :: u32) \<noteq> 0" using f(10,11) sint_of_nat_u32[of k] by auto
  have "uint (of_int (uio_resid (r_uio r0)) :: u32) = uio_resid (r_uio r0)" by (rule uint_of_int_u32) (use f(6,7) in simp_all)
  then have "(0 :: u32) < of_int (uio_resid (r_uio r0))" using f(6) by (simp add: word_less_def)
  then have len: "rcv_len i r0 = 0" using f(1-3,9) mk by (simp add: rcv_len_def Let_def m_len_def)
  have "rcv_move mp 0 r0 = Ret r0" using f(8) by (simp add: rcv_move_def uiomove_read.simps)
  moreover have "rcv_consume mp i 0 r0 = Ret r0" using f(1,4,9) by (simp add: rcv_consume_def Let_def m_len_def)
  moreover have "rcv_mark i 0 r0 = (False, r0)" using f(3,4) mk by (simp add: rcv_mark_def Let_def)
  ultimately have "rcv_round mp i r = Ret (False, r0)" using len f(5) by (simp add: rcv_round_def Let_def r0_def[symmetric])
  then show ?thesis using st by blast
qed

lemma peek_stuck_loop:
  assumes "rcv_loop pr mp i ty ws r = Some y" shows "\<not> peek_stuck i ty k r"
  using assms
proof (induction rule: rcv_loop.raw_induct[rotated, where P="\<lambda>pr mp i ty ws r y. \<not> peek_stuck i ty k r", consumes 1])
  case (1 loop pr mp i ty ws r y)
  show ?case
  proof
    assume st: "peek_stuck i ty k r"
    then obtain r' where r': "rcv_round mp i r = Ret (False, r')" "peek_stuck i ty k r'" using peek_stuck_round by blast
    then have "rcv_waitall pr i ws r' = Some (Inr (r', ws))" by (subst rcv_waitall.simps) (simp add: peek_stuck_def)
    then have "loop pr mp i ty ws r' = Some y" using 1(2) r'(1) st by (simp add: peek_stuck_def)
    then show False using 1(1) r'(2) by blast
  qed
qed

lemma peek_first_round:
  assumes "r_m r = m # c" "k < length (m_bytes m)" "r_moff r = 0" "r_offset r = 0" "so_oobmark (so_at i (r_tcp r)) = of_nat k" "0 < k" "k < 2 ^ 31"
    and "MSG_PEEK \<in> r_flags r" "MSG_EOR \<notin> r_flags r" "room (r_uio r)" "int k < uio_resid (r_uio r)" "uio_resid (r_uio r) < 2 ^ 31" "r_err r = None"
  shows "\<exists>r'. rcv_round False i r = Ret (False, r') \<and> peek_stuck i (m_type m) k r'"
proof -
  define r0 where "r0 = r\<lparr>r_flags := (if m_type (hd (r_m r)) = MT_OOBDATA then insert MSG_OOB (r_flags r) else r_flags r),
                 r_tcp := so_upd i (\<lambda>x. x\<lparr>so_state := so_state x - {SS_RCVATMARK}\<rparr>) (r_tcp r)\<rparr>"
  have r0: "r_m r0 = m # c" "r_moff r0 = 0" "r_offset r0 = 0" "so_oobmark (so_at i (r_tcp r0)) = of_nat k" "MSG_PEEK \<in> r_flags r0"
      "MSG_EOR \<notin> r_flags r0" "r_uio r0 = r_uio r"
    using assms by (simp_all add: r0_def)
  have u: "uint (of_nat k :: u32) = int k" "sint (of_nat k :: u32) = int k" "uint (of_int (uio_resid (r_uio r)) :: u32) = uio_resid (r_uio r)"
    using assms(6,7,11,12) uint_of_nat_u32[of k] sint_of_nat_u32[of k] uint_of_int_u32[of "uio_resid (r_uio r)"] by simp_all
  then have mk: "(of_nat k :: u32) \<noteq> 0" "(of_nat k :: u32) < of_int (uio_resid (r_uio r))"
    using assms(6,11) by (auto simp: word_less_def)
  have len: "rcv_len i r0 = int k" using r0 mk u(2) assms(2) by (simp add: rcv_len_def Let_def m_len_def)
  obtain v where v: "rcv_move False (int k) r0 = Ret (r0\<lparr>r_err := None, r_uio := v\<rparr>)" "uio_resid v = uio_resid (r_uio r) - int k"
    using rcv_move_reading[of r0 k m c] r0 assms(2,10,11) by auto
  define r1 where "r1 = r0\<lparr>r_err := None, r_uio := v, r_moff := int k, r_offset := int k\<rparr>"
  have "rcv_consume False i (int k) (r0\<lparr>r_err := None, r_uio := v\<rparr>) = Ret (r0\<lparr>r_err := None, r_uio := v, r_moff := int k\<rparr>)"
    using r0 assms(2) by (simp add: rcv_consume_def Let_def m_len_def)
  moreover have "rcv_mark i (int k) (r0\<lparr>r_err := None, r_uio := v, r_moff := int k\<rparr>) = (False, r1)"
    using r0 mk(1) by (simp add: rcv_mark_def Let_def r1_def)
  ultimately have "rcv_round False i r = Ret (False, r1)" using len v(1) r0(6) by (simp add: rcv_round_def Let_def r0_def[symmetric] r1_def)
  moreover have "peek_stuck i (m_type m) k r1" using r0 v(2) assms(2,6,7,11,12) by (simp add: peek_stuck_def r1_def)
  ultimately show ?thesis by blast
qed

text \<open>(C5) Peeking at data with the out-of-band mark inside the first mbuf, and asking for more than the bytes before the mark,
  never returns: the length of the next round is 0, and the loop, which a plain read leaves at the mark, goes round for
  ever with the socket buffer locked.\<close>

theorem soreceive_peek_hangs:
  assumes "rcv_flags a = {MSG_PEEK}" and "\<not> want_mp a" and "PR_ADDR \<notin> pr_flags pr" and "sb_mb (so_rcv (so_at i t)) = (m # c) # nx"
    and "m_type m \<noteq> MT_CONTROL" and "so_oobmark (so_at i t) = of_nat k" and "0 < k" and "k < length (m_bytes m)" and "k < 2 ^ 31"
    and "room u" and "int k < uio_resid u" and "uio_resid u < 2 ^ 31" and "\<not> SB_LOCK (so_rcv (so_at i t))"
    and "\<not> rcv_blocks {MSG_PEEK} (uio_resid u) (so_rcv (so_at i t))" and "SS_ISCONFIRMING \<notin> so_state (so_at i t)"
  shows "soreceive pr slp i a ws u t = None"
proof -
  let ?sb = "(so_rcv (so_at i t))\<lparr>SB_LOCK := True\<rparr>"
  define t1 where "t1 = so_upd i (sb_set Rcv ?sb) t"
  define r where "r = \<lparr>r_tcp = (so_upd i (\<lambda>x. x\<lparr>so_rcv := ?sb\<rparr>) t1)\<lparr>mbs := mbs t\<rparr>, r_m = m # c, r_next = nx, r_moff = 0, r_offset = 0,
                  r_flags = {MSG_PEEK}, r_uio = u, r_mp = [], r_err = None\<rparr>"
  have x1: "so_at i t1 = sb_set Rcv ?sb (so_at i t)" "mbs t1 = mbs t" by (simp_all add: t1_def)
  have go: "soreceive pr slp i a ws u t = rcv_go pr i a ws u t1"
    using assms(1,13-15) so_lock_free[where w=Rcv and i=i and t=t and slp=slp] x1
    by (auto simp: soreceive_def rcv_verdict_def rcv_blocks_def rret_def rcv_restart.simps[where t=t] t1_def[symmetric])
  have ctl: "rcv_control pr w pk (m # c) sb s = Ret (None, [], m # c, sb, s)" for w pk sb s using assms(5) by simp
  have "rcv_loop pr False i (m_type m) ws r = None"
  proof -
    obtain r1 where r1: "rcv_round False i r = Ret (False, r1)" "peek_stuck i (m_type m) k r1"
      using peek_first_round[of r m c k i] assms(6-12) x1 by (auto simp: r_def)
    then have "rcv_waitall pr i ws r1 = Some (Inr (r1, ws))" by (subst rcv_waitall.simps) (simp add: peek_stuck_def)
    moreover have "r_m r = m # c" "r_err r = None" "\<not> uio_resid (r_uio r) \<le> 0" using assms(7,11) by (simp_all add: r_def)
    ultimately have "rcv_loop pr False i (m_type m) ws r = rcv_loop pr False i (m_type m) ws r1"
      using r1(1) by (subst rcv_loop.simps) simp
    then show ?thesis using peek_stuck_loop r1(2) by (metis not_None_eq)
  qed
  then show ?thesis unfolding go using assms(1-4) x1 by (simp add: rcv_go_def Let_def rcv_addr_def ctl r_def del: rcv_control.simps)
qed

theorem soreceive_peek_hangs_witness:
  "soreceive (tcp_protosw (\<lambda>_. False) ex_cfg) [] 0 (ex_rcv_args\<lparr>rcv_flags := {MSG_PEEK}\<rparr>) [] ex_uio
     (so_upd 0 (\<lambda>x. x\<lparr>so_rcv := ex_sb [[ex_mbuf [1, 2, 3, 4]]]\<rparr>) ex_user) = None"
proof -
  have "\<not> rcv_blocks {MSG_PEEK} (uio_resid ex_uio) (ex_sb [[ex_mbuf [1, 2, 3, 4]]])" "\<not> SB_LOCK (ex_sb [[ex_mbuf [1, 2, 3, 4]]])"
    by (simp_all add: rcv_blocks_def ex_sb_def ex_mbuf_simps ex_uio_def)
  then show ?thesis
    by (intro soreceive_peek_hangs[where m="ex_mbuf [1, 2, 3, 4]" and c="[]" and nx="[]" and k=3])
       (simp_all add: ex_rcv_args_def tcp_protosw_def ex_mbuf_def new_mbuf_def room_def, simp_all add: ex_uio_def)
qed

end
