(* ===== verification/Sock_Send.thy ===== *)
theory Sock_Send
  imports Sock_Recv Tcp_Sender
begin

text \<open>
  What \<^verbatim>\<open>sosend\<close> does on a byte stream with a user's data: the bytes go to the end of the send buffer in order, mbuf by mbuf,
  and the count left tells exactly how many did, also when the call ends early.  The protocol is used through
  the contract \<open>send_protocol\<close>, which TCP meets.
\<close>

section \<open>One mbuf\<close>

text \<open>A round is ready: nothing packed yet, data left and room for some.\<close>

definition ready :: "nat \<Rightarrow> snd \<Rightarrow> bool" where
  "ready i r = (s_top r = [] \<and> s_control r = [] \<and> source (s_uio r) \<and> s_resid r = uio_resid (s_uio r) \<and> 0 < s_resid r \<and> s_resid r < 2 ^ 31
     \<and> 0 < s_space r \<and> int (length (sbdata (so_snd (so_at i (s_tcp r))))) + s_space r < M_COPYALL)"

lemma MGETHDR_fresh:
  assumes "MGETHDR ty s = (Some m, s')"
  shows "m = (new_mbuf ty)\<lparr>m_data := MLEN - MHLEN, M_PKTHDR := True\<rparr>"
  using assms by (auto simp: MGETHDR_def m_retryhdr_def MGETHDR_once_def kmalloc_def Let_def split: prod.splits option.splits list.splits if_splits)

text \<open>How much of \<open>resid\<close> bytes a new mbuf takes, and what is left of the space.\<close>

lemma snd_mbuf_spec:
  assumes "s_top r = []" and "0 < s_resid r" "s_resid r < 2 ^ 31" "0 < s_space r" "s_space r < 2 ^ 31" and "0 \<le> max_hdr cfg" "max_hdr cfg < MCLBYTES"
    and "snd_mbuf cfg False r = Ret (m, len, space, s1)"
  shows "0 < len \<and> len \<le> s_resid r \<and> len + space \<le> s_space r \<and> 0 \<le> space \<and> \<not> M_EOR m
    \<and> (\<forall>bs. int (length bs) = len \<longrightarrow> mbuf_wf (m\<lparr>m_bytes := bs\<rparr>))"
proof -
  obtain m0 s0 where g: "MGETHDR MT_DATA (mbs (s_tcp r)) = (Some m0, s0)"
    using assms(1,8) by (cases "MGETHDR MT_DATA (mbs (s_tcp r))"; cases "fst (MGETHDR MT_DATA (mbs (s_tcp r)))") (auto simp: snd_mbuf_def)
  note m0 = MGETHDR_fresh[OF g]
  let ?l = "u_min (u_min MHLEN (s_resid r)) (s_space r)"
  have l: "?l = min (min MHLEN (s_resid r)) (s_space r)" "u_min MCLBYTES (s_resid r) = min MCLBYTES (s_resid r)"
      "u_min (MCLBYTES - max_hdr cfg) (s_resid r) = min (MCLBYTES - max_hdr cfg) (s_resid r)"
    using assms(2-7) by (simp_all add: u_min_nonneg mbuf_consts)
  have plain: "0 < ?l \<and> ?l \<le> s_resid r \<and> ?l \<le> s_space r \<and> \<not> M_EOR m0 \<and> (\<forall>bs. int (length bs) = ?l \<longrightarrow> mbuf_wf (m0\<lparr>m_bytes := bs\<rparr>))"
    unfolding l(1) using assms(2,4) by (auto simp: m0 new_mbuf_def mbuf_wf_def m_len_def mbuf_consts)
  show ?thesis
  proof (cases "s_resid r \<ge> MINCLSIZE \<and> s_space r \<ge> MCLBYTES")
    case False
    then have "m = m0 \<and> len = ?l \<and> space = s_space r - ?l" using assms(1,8) g by (auto simp: snd_mbuf_def Let_def)
    then show ?thesis using plain by auto
  next
    case True
    obtain m1 s2 where c: "MCLGET m0 s0 = Ret (m1, s2)" using assms(1,8) g True by (auto simp: snd_mbuf_def Let_def)
    then have m1: "m1 = m0 \<or> (\<exists>k. m1 = m0\<lparr>ext_buf := k, m_data := 0, M_EXT := True, ext_size := MCLBYTES\<rparr>)"
      by (auto simp: MCLGET_def split: option.splits)
    show ?thesis
    proof (cases "M_EXT m1")
      case False
      then have "m = m0 \<and> len = ?l \<and> space = s_space r - ?l" using assms(1,8) g True c m1 by (auto simp: snd_mbuf_def Let_def)
      then show ?thesis using plain by auto
    next
      case ext: True
      then obtain k where k: "m1 = m0\<lparr>ext_buf := k, m_data := 0, M_EXT := True, ext_size := MCLBYTES\<rparr>" using m1 by (auto simp: m0 new_mbuf_def)
      show ?thesis using assms(1,2,6,7,8) g True c ext
        by (auto simp: snd_mbuf_def Let_def k l(2,3) m0 new_mbuf_def mbuf_wf_def m_len_def split: if_splits)
    qed
  qed
qed

lemma snd_mbuf_small:
  assumes "s_top r = []" and "0 < s_resid r" "s_resid r \<le> MHLEN" "s_resid r \<le> s_space r" "s_space r < 2 ^ 31" and "fst (MGETHDR MT_DATA (mbs (s_tcp r))) \<noteq> None"
  shows "\<exists>m s1. snd_mbuf cfg False r = Ret (m, s_resid r, s_space r - s_resid r, s1)"
proof -
  obtain m0 s0 where g: "MGETHDR MT_DATA (mbs (s_tcp r)) = (Some m0, s0)" using assms(6) by (metis option.exhaust prod.collapse)
  have "u_min (u_min MHLEN (s_resid r)) (s_space r) = s_resid r" using assms(2-5) by (simp add: u_min_nonneg mbuf_consts)
  then show ?thesis using assms(1-3) g by (auto simp: snd_mbuf_def Let_def MINCLSIZE_def mbuf_consts)
qed

section \<open>Handing it to the protocol\<close>

text \<open>\<open>n\<close> bytes have gone from the user to the end of the send buffer; nothing else of the socket has changed.\<close>

definition stored :: "nat \<Rightarrow> nat \<Rightarrow> uio \<Rightarrow> tcp \<Rightarrow> uio \<Rightarrow> tcp \<Rightarrow> bool" where
  "stored i n u t u' t' = (source u' \<and> n \<le> length (uio_mem u) \<and> uio_mem u' = drop n (uio_mem u)
     \<and> (\<exists>sb. so_at i t' = (so_at i t)\<lparr>so_snd := sb\<rparr> \<and> sbdata sb = sbdata (so_snd (so_at i t)) @ take n (uio_mem u)
          \<and> sb_hiwat sb = sb_hiwat (so_snd (so_at i t)) \<and> sb_lowat sb = sb_lowat (so_snd (so_at i t))))"

lemma stored_trans:
  assumes "stored i n u t u1 t1" and "stored i k u1 t1 u2 t2"
  shows "stored i (n + k) u t u2 t2"
proof -
  obtain sb1 where a: "so_at i t1 = (so_at i t)\<lparr>so_snd := sb1\<rparr>" "sbdata sb1 = sbdata (so_snd (so_at i t)) @ take n (uio_mem u)"
      "sb_hiwat sb1 = sb_hiwat (so_snd (so_at i t))" "sb_lowat sb1 = sb_lowat (so_snd (so_at i t))"
    using assms(1) unfolding stored_def by blast
  have m: "uio_mem u1 = drop n (uio_mem u)" "n \<le> length (uio_mem u)" "k \<le> length (uio_mem u1)" "uio_mem u2 = drop k (uio_mem u1)" "source u2"
    using assms unfolding stored_def by blast+
  obtain sb2 where b: "so_at i t2 = (so_at i t1)\<lparr>so_snd := sb2\<rparr>" "sbdata sb2 = sbdata sb1 @ take k (drop n (uio_mem u))"
      "sb_hiwat sb2 = sb_hiwat sb1" "sb_lowat sb2 = sb_lowat sb1"
    using assms(2) unfolding stored_def m(1) a(1) by auto
  have "so_at i t2 = (so_at i t)\<lparr>so_snd := sb2\<rparr>" "sbdata sb2 = sbdata (so_snd (so_at i t)) @ take (n + k) (uio_mem u)"
      "sb_hiwat sb2 = sb_hiwat (so_snd (so_at i t))" "sb_lowat sb2 = sb_lowat (so_snd (so_at i t))"
    using a b by (simp_all add: take_add)
  moreover have "n + k \<le> length (uio_mem u)" "uio_mem u2 = drop (n + k) (uio_mem u)" using m by (simp_all add: add.commute)
  ultimately show ?thesis using m(5) unfolding stored_def by blast
qed

text \<open>The same for the variables of the loop, with the space counted down.\<close>

definition wrote :: "nat \<Rightarrow> nat \<Rightarrow> snd \<Rightarrow> snd \<Rightarrow> bool" where
  "wrote i n r r' = (stored i n (s_uio r) (s_tcp r) (s_uio r') (s_tcp r') \<and> s_resid r' = uio_resid (s_uio r') \<and> s_resid r' = s_resid r - int n
     \<and> s_top r' = [] \<and> s_control r' = [] \<and> int n + s_space r' \<le> s_space r)"

lemma wrote_trans: "wrote i n r r1 \<Longrightarrow> wrote i k r1 r2 \<Longrightarrow> wrote i (n + k) r r2"
  unfolding wrote_def using stored_trans[of i n "s_uio r" "s_tcp r" "s_uio r1" "s_tcp r1" k "s_uio r2" "s_tcp r2"] by auto

text \<open>Changes of the locks of a send buffer, of the mbuf pool and of what was noted for other processes.\<close>

definition lock_only :: "nat \<Rightarrow> tcp \<Rightarrow> tcp \<Rightarrow> bool" where
  "lock_only i t t' = (tp t' = tp t \<and> tab t' = tab t \<and> tcbs t' = tcbs t \<and> inp_id t' = inp_id t
     \<and> (\<exists>a b. so_at i t' = (so_at i t)\<lparr>so_snd := (so_snd (so_at i t))\<lparr>SB_LOCK := a, SB_WANT := b\<rparr>\<rparr>))"

lemma lock_only_mbs: "lock_only i t (t\<lparr>mbs := s\<rparr>)"
  unfolding lock_only_def
  by (intro conjI exI[of _ "SB_LOCK (so_snd (so_at i t))"] exI[of _ "SB_WANT (so_snd (so_at i t))"]) simp_all

text \<open>Small writes: one mbuf takes all, if there is one.\<close>

definition fits_mbuf :: "snd \<Rightarrow> bool" where
  "fits_mbuf r = (s_resid r \<le> MHLEN \<and> s_resid r \<le> s_space r \<and> fst (MGETHDR MT_DATA (mbs (s_tcp r))) \<noteq> None)"

definition packed :: "nat \<Rightarrow> snd \<Rightarrow> snd \<Rightarrow> bool" where
  "packed n r r1 = (0 < n \<and> n \<le> length (uio_mem (s_uio r)) \<and> (\<exists>m. s_top r1 = [m] \<and> mbuf_wf m \<and> \<not> M_EOR m \<and> m_bytes m = take n (uio_mem (s_uio r)))
     \<and> (\<exists>s1. s_tcp r1 = (s_tcp r)\<lparr>mbs := s1\<rparr>) \<and> source (s_uio r1) \<and> uio_mem (s_uio r1) = drop n (uio_mem (s_uio r)) \<and> s_resid r1 = uio_resid (s_uio r1)
     \<and> s_resid r1 = s_resid r - int n \<and> int n + s_space r1 \<le> s_space r \<and> 0 \<le> s_space r1 \<and> s_control r1 = s_control r)"

lemma snd_fill_round_ready:
  assumes "ready i r" and "0 \<le> max_hdr cfg" "max_hdr cfg < MCLBYTES" and "MSG_EOR \<notin> flags"
  shows "(\<forall>e r1. snd_fill_round cfg flags False r = Ret (e, r1) \<longrightarrow> e = None \<and> (\<exists>n. packed n r r1))
    \<and> (fits_mbuf r \<longrightarrow> (\<exists>r1. snd_fill_round cfg flags False r = Ret (None, r1) \<and> s_resid r1 = 0))"
proof -
  have rd: "s_top r = []" "0 < s_resid r" "s_resid r < 2 ^ 31" "0 < s_space r" "s_space r < 2 ^ 31" "source (s_uio r)" "s_resid r = uio_resid (s_uio r)"
    using assms(1) by (simp_all add: ready_def M_COPYALL_def)
  have round: "\<exists>r1. snd_fill_round cfg flags False r = Ret (None, r1) \<and> packed (nat len) r r1 \<and> s_resid r1 = s_resid r - len"
    if mb: "snd_mbuf cfg False r = Ret (m, len, space, s1)" for m len space s1
  proof -
    note sp = snd_mbuf_spec[OF rd(1-5) assms(2,3) mb]
    define n where "n = nat len"
    have n: "len = int n" "0 < n" "int n \<le> uio_resid (s_uio r)" using sp rd(7) by (auto simp: n_def)
    from uiomove_write_exact[OF rd(6) n(3)] obtain u1 where u: "uiomove_write n (s_uio r) = Ret (None, take n (uio_mem (s_uio r)), u1)" "source u1"
        "uio_resid u1 = uio_resid (s_uio r) - int n" "uio_mem u1 = drop n (uio_mem (s_uio r))" by blast
    have le: "n \<le> length (uio_mem (s_uio r))" using n(3) rd(6) by (simp add: source_def)
    define m1 where "m1 = m\<lparr>m_bytes := take n (uio_mem (s_uio r)), m_pkthdr := (m_pkthdr m)\<lparr>pkt_len := pkt_len (m_pkthdr m) + len\<rparr>\<rparr>"
    define r1 where "r1 = r\<lparr>s_tcp := (s_tcp r)\<lparr>mbs := s1\<rparr>, s_uio := u1, s_resid := uio_resid u1, s_space := space, s_len := len, s_top := [m1]\<rparr>"
    have "snd_fill_round cfg flags False r = Ret (None, r1)"
      using mb u(1) le assms(4) rd(1) by (simp add: snd_fill_round_def n add_pktlen_def r1_def m1_def)
    moreover have "mbuf_wf (m\<lparr>m_bytes := take n (uio_mem (s_uio r))\<rparr>)" using sp le n(1) by simp
    moreover have "mbuf_wf m1 = mbuf_wf (m\<lparr>m_bytes := take n (uio_mem (s_uio r))\<rparr>)" by (simp add: mbuf_wf_def m1_def m_len_def)
    ultimately have rr: "snd_fill_round cfg flags False r = Ret (None, r1)" "mbuf_wf m1" by simp_all
    have m1: "s_top r1 = [m1]" "\<not> M_EOR m1" "m_bytes m1 = take n (uio_mem (s_uio r))" "s_tcp r1 = (s_tcp r)\<lparr>mbs := s1\<rparr>" "s_uio r1 = u1"
        "s_resid r1 = uio_resid u1" "s_space r1 = space" "s_control r1 = s_control r"
      using sp by (simp_all add: r1_def m1_def)
    have "packed n r r1" unfolding packed_def m1(5-8) using rr(2) m1(1-4) n(2) le u(2-4) sp n(1) rd(7) by auto
    moreover have "s_resid r1 = s_resid r - len" using m1(6) u(3) rd(7) n(1) by simp
    ultimately show ?thesis using rr(1) by (auto simp: n_def)
  qed
  show ?thesis
  proof (intro conjI allI impI)
    fix e r1 assume r1: "snd_fill_round cfg flags False r = Ret (e, r1)"
    then obtain m len space s1 where "snd_mbuf cfg False r = Ret (m, len, space, s1)" by (auto simp: snd_fill_round_def)
    then show "e = None" "\<exists>n. packed n r r1" using round r1 by fastforce+
  next
    assume "fits_mbuf r"
    then show "\<exists>r1. snd_fill_round cfg flags False r = Ret (None, r1) \<and> s_resid r1 = 0"
      using snd_mbuf_small[OF rd(1,2) _ _ rd(5), of cfg] round by (fastforce simp: fits_mbuf_def)
  qed
qed

lemma snd_fill_once: "snd_fill cfg flags False r = Some (snd_fill_round cfg flags False r)"
  by (subst snd_fill.simps) (auto split: kres.splits)

section \<open>The loops\<close>

text \<open>A connected socket that may be written to and does not block; a positive low-water mark.\<close>

definition can_write :: "socket \<Rightarrow> bool" where
  "can_write x = (SS_CANTSENDMORE \<notin> so_state x \<and> SS_ISCONNECTED \<in> so_state x \<and> SS_NBIO \<in> so_state x \<and> so_error x = None
     \<and> 0 < sb_lowat (so_snd x) \<and> uint (sb_hiwat (so_snd x)) < M_COPYALL)"

lemma stored_lock:
  assumes "stored i n u t u' t'" and "lock_only i t' t''"
  shows "stored i n u t u' t''"
  using assms unfolding stored_def lock_only_def by (auto simp: sbdata_def)

lemma snd_release_lock: "lock_only i (s_tcp r) (snd_release i r) \<and> \<not> SB_LOCK (so_snd (so_at i (snd_release i r)))"
proof -
  obtain b where b: "so_at i (so_unlock i Snd (s_tcp r)) = sb_set Snd ((so_snd (so_at i (s_tcp r)))\<lparr>SB_LOCK := False, SB_WANT := b\<rparr>) (so_at i (s_tcp r))"
    using so_unlock_frame[of i Snd "s_tcp r"] by auto
  have at: "so_at i (snd_release i r) = (so_at i (s_tcp r))\<lparr>so_snd := (so_snd (so_at i (s_tcp r)))\<lparr>SB_LOCK := False, SB_WANT := b\<rparr>\<rparr>"
    using b by (simp add: snd_release_def snd_out_def sb_set_def)
  have "tp (so_unlock i Snd t) = tp t" "tab (so_unlock i Snd t) = tab t" "tcbs (so_unlock i Snd t) = tcbs t" "inp_id (so_unlock i Snd t) = inp_id t" for t
    by (simp_all add: so_unlock_def Let_def split: prod.splits)
  then show ?thesis using at unfolding lock_only_def by (auto simp: snd_release_def snd_out_def)
qed

text \<open>The contract of a stream protocol towards \<^verbatim>\<open>sosend\<close>: it takes data in pieces, its well-formedness \<open>sok\<close> does not
  depend on locks, and \<^verbatim>\<open>PRU_SEND\<close> returns with the data at the end of the send buffer.\<close>

locale send_protocol =
  fixes pr :: protosw and sok :: "nat \<Rightarrow> tcp \<Rightarrow> bool"
  assumes pieces: "PR_ATOMIC \<notin> pr_flags pr"
    and sok_lock: "sok i t \<Longrightarrow> lock_only i t t' \<Longrightarrow> sok i t'"
    and sok_snd: "sok i t \<Longrightarrow> sb_ok (so_snd (so_at i t)) \<and> int (length (sbdata (so_snd (so_at i t)))) < M_COPYALL"
    and send: "sok i t \<Longrightarrow> chain_wf m \<Longrightarrow> \<forall>k \<in> set m. \<not> M_EOR k \<Longrightarrow> int (length (sbdata (so_snd (so_at i t))) + length (mdata m)) < M_COPYALL \<Longrightarrow>
      \<exists>e rep t' sb. pr_usrreq pr i (PRU_SEND m) [] t = Some (Ret (e, rep, t')) \<and> sok i t' \<and> so_at i t' = (so_at i t)\<lparr>so_snd := sb\<rparr>
        \<and> sbdata sb = sbdata (so_snd (so_at i t)) @ mdata m \<and> sb_hiwat sb = sb_hiwat (so_snd (so_at i t))
        \<and> sb_lowat sb = sb_lowat (so_snd (so_at i t))"
begin

lemma snd_request_packed:
  assumes "sok i (s_tcp r)" and "ready i r" and "packed n r r1" and "MSG_OOB \<notin> flags"
  shows "\<exists>e r2. snd_request pr i flags False r1 = Some (Ret (e, r2)) \<and> sok i (s_tcp r2) \<and> wrote i n r r2 \<and> s_resid r2 = s_resid r1 \<and> s_space r2 = s_space r1"
proof -
  obtain m s1 where p: "s_top r1 = [m]" "mbuf_wf m" "\<not> M_EOR m" "m_bytes m = take n (uio_mem (s_uio r))" "s_tcp r1 = (s_tcp r)\<lparr>mbs := s1\<rparr>"
      "s_control r1 = []" "n \<le> length (uio_mem (s_uio r))" "int n + s_space r1 \<le> s_space r" "0 \<le> s_space r1"
    using assms(2,3) by (auto simp: packed_def ready_def)
  let ?x = "so_at i (s_tcp r)"
  have "lock_only i (s_tcp r) (s_tcp r1)" unfolding p(5) by (rule lock_only_mbs)
  then have ok: "sok i (s_tcp r1)" using sok_lock[OF assms(1)] by blast
  have at: "so_at i (s_tcp r1) = ?x" by (simp add: p(5))
  have "int (length (sbdata (so_snd ?x)) + length (mdata [m])) < M_COPYALL" using p(4,7-9) assms(2) by (simp add: ready_def)
  from send[OF ok _ _ this[folded at]] p(2,3) obtain e rep t' sb where s: "pr_usrreq pr i (PRU_SEND [m]) [] (s_tcp r1) = Some (Ret (e, rep, t'))" "sok i t'"
      "so_at i t' = ?x\<lparr>so_snd := sb\<rparr>" "sbdata sb = sbdata (so_snd ?x) @ take n (uio_mem (s_uio r))" "sb_hiwat sb = sb_hiwat (so_snd ?x)"
      "sb_lowat sb = sb_lowat (so_snd ?x)"
    unfolding at by (auto simp: p(4))
  define r2 where "r2 = r1\<lparr>s_tcp := t', s_top := [], s_control := []\<rparr>"
  have "snd_request pr i flags False r1 = Some (Ret (e, r2))" using assms(4) p(1,6) s(1) by (simp add: snd_request_def rret_def r2_def)
  moreover have "wrote i n r r2" unfolding wrote_def stored_def
    using assms(3) s(3-6) by (simp add: r2_def packed_def) blast
  ultimately show ?thesis using s(2) by (auto simp: r2_def)
qed

lemma snd_inner_stream:
  assumes "sok i (s_tcp r)" and "ready i r" and "0 \<le> max_hdr cfg" "max_hdr cfg < MCLBYTES" and "flags \<inter> {MSG_EOR, MSG_OOB} = {}"
  shows "\<exists>res. snd_inner pr cfg i flags False False True r = Some res
    \<and> (\<forall>e r'. res = Ret (e, r') \<longrightarrow> (\<exists>n > 0. sok i (s_tcp r') \<and> wrote i n r r'))
    \<and> (fits_mbuf r \<longrightarrow> (\<exists>e r'. res = Ret (e, r') \<and> s_resid r' = 0))"
  using assms(1,2)
proof (induction "nat (s_resid r)" arbitrary: r rule: less_induct)
  case less
  have fl: "MSG_EOR \<notin> flags" "MSG_OOB \<notin> flags" using assms(5) by auto
  note fr = snd_fill_round_ready[OF less(3) assms(3,4) fl(1)]
  note eq = snd_inner.simps[of pr cfg i flags False False True r] snd_fill_once[of cfg flags r]
  show ?case
  proof (cases "snd_fill_round cfg flags False r")
    case (Ret p)
    then obtain r1 n where r1: "snd_fill_round cfg flags False r = Ret (None, r1)" "packed n r r1" using fr by (cases p) blast
    obtain e r2 where r2: "snd_request pr i flags False r1 = Some (Ret (e, r2))" "sok i (s_tcp r2)" "wrote i n r r2" "s_resid r2 = s_resid r1"
        "s_space r2 = s_space r1" using snd_request_packed[OF less(2,3) r1(2) fl(2)] by blast
    have n: "0 < n" using r1(2) by (simp add: packed_def)
    have small: "fits_mbuf r \<Longrightarrow> s_resid r2 = 0" using fr r1(1) r2(4) by auto
    show ?thesis
    proof (cases "e = None \<and> s_resid r2 \<noteq> 0 \<and> s_space r2 > 0")
      case False
      then have "snd_inner pr cfg i flags False False True r = Some (Ret (e, r2))" unfolding eq using r1(1) r2(1) by (cases e) (auto simp: eq(2))
      then show ?thesis using r2(2,3) n small by auto
    next
      case True
      then have st: "snd_inner pr cfg i flags False False True r = snd_inner pr cfg i flags False False True r2"
        by (subst eq(1)) (simp add: eq(2) r1(1) r2(1))
      have w: "s_resid r2 = s_resid r - int n" "0 < s_resid r" "s_resid r2 = uio_resid (s_uio r2)" "source (s_uio r2)"
        using r2(3) less(3) unfolding wrote_def stored_def ready_def by blast+
      then have pos: "0 < s_resid r2" "nat (s_resid r2) < nat (s_resid r)" using True n room_nonneg by (auto simp: source_def)
      obtain sb where sb: "so_at i (s_tcp r2) = (so_at i (s_tcp r))\<lparr>so_snd := sb\<rparr>" "sbdata sb = sbdata (so_snd (so_at i (s_tcp r))) @ take n (uio_mem (s_uio r))"
          "n \<le> length (uio_mem (s_uio r))" "int n + s_space r2 \<le> s_space r" using r2(3) unfolding wrote_def stored_def by blast
      have "s_top r2 = []" "s_control r2 = []" using r2(3) unfolding wrote_def by blast+
      moreover have "s_resid r2 < 2 ^ 31" "int (length (sbdata (so_snd (so_at i (s_tcp r2))))) + s_space r2 < M_COPYALL"
        using less(3) sb n w(1) unfolding ready_def by auto
      ultimately have "ready i r2" using w(3,4) pos(1) True unfolding ready_def by blast
      from less(1)[OF pos(2) r2(2) this] obtain res where res: "snd_inner pr cfg i flags False False True r2 = Some res"
          "\<forall>e r'. res = Ret (e, r') \<longrightarrow> (\<exists>n > 0. sok i (s_tcp r') \<and> wrote i n r2 r')" by blast
      have "\<exists>n > 0. sok i (s_tcp r') \<and> wrote i n r r'" if "res = Ret (e', r')" for e' r'
      proof -
        obtain k where "0 < k" "sok i (s_tcp r')" "wrote i k r2 r'" using res(2) \<open>res = Ret (e', r')\<close> by blast
        then show ?thesis using wrote_trans[OF r2(3)] by (intro exI[of _ "n + k"]) simp
      qed
      then show ?thesis unfolding st using res(1) small True by blast
    qed
  qed (use fr in \<open>auto simp: eq(2) snd_inner.simps[of pr cfg i flags False False True r]\<close>)
qed

text \<open>Without room enough a socket that does not block returns \<^verbatim>\<open>EWOULDBLOCK\<close>.\<close>

lemma snd_check_stream:
  assumes "sok i t" and "can_write (so_at i t)" and "0 < resid" "resid < 2 ^ 31" and "MSG_OOB \<notin> flags"
  shows "snd_check pr flags False has_addr resid 0 (so_at i t) = SndErr EWOULDBLOCK \<and> sbspace (so_snd (so_at i t)) < resid
    \<or> snd_check pr flags False has_addr resid 0 (so_at i t) = SndOk (sbspace (so_snd (so_at i t))) \<and> 0 < sbspace (so_snd (so_at i t))
      \<and> int (length (sbdata (so_snd (so_at i t)))) + sbspace (so_snd (so_at i t)) < M_COPYALL"
proof -
  let ?sb = "so_snd (so_at i t)" and ?N = "int (length (sbdata (so_snd (so_at i t))))"
  have cw: "SS_CANTSENDMORE \<notin> so_state (so_at i t)" "so_error (so_at i t) = None" "SS_ISCONNECTED \<in> so_state (so_at i t)" "SS_NBIO \<in> so_state (so_at i t)"
      "0 < sb_lowat ?sb" "uint (sb_hiwat ?sb) < M_COPYALL" using assms(2) by (simp_all add: can_write_def)
  have n: "sb_cc ?sb = of_nat (length (sbdata ?sb))" "?N < M_COPYALL" using sok_snd[OF assms(1)] by (simp_all add: sb_ok_def)
  define H where "H = uint (sb_hiwat ?sb)"
  have h: "0 \<le> H" "H < M_COPYALL" "sb_hiwat ?sb = of_int H" using cw(6) by (simp_all add: H_def)
  have "sint (sb_hiwat ?sb - sb_cc ?sb) = H - ?N"
    by (rule sint_eqI) (use n h in \<open>simp_all add: M_COPYALL_def\<close>)
  then have "?N + sbspace ?sb \<le> H" by (simp add: sbspace_def)
  then show ?thesis using cw(1-5) h(2) assms(3,5) by (auto simp: snd_check_def Let_def)
qed

lemma snd_outer_locked:
  assumes "sok i (s_tcp r)" and "can_write (so_at i (s_tcp r))" and "s_top r = []" "s_control r = []" and "source (s_uio r)"
    and "s_resid r = uio_resid (s_uio r)" and "0 < s_resid r" "s_resid r < 2 ^ 31"
    and "0 \<le> max_hdr cfg" "max_hdr cfg < MCLBYTES" and "flags \<inter> {MSG_EOR, MSG_OOB} = {}"
  shows "\<exists>res. snd_outer pr cfg slp i flags has_addr False False True True ws r = Some res
    \<and> (\<forall>e u' t'. res = Ret (e, u', t') \<longrightarrow> sok i t' \<and> \<not> SB_LOCK (so_snd (so_at i t'))
         \<and> (\<exists>n. stored i n (s_uio r) (s_tcp r) u' t' \<and> (e = None \<longrightarrow> n = length (uio_mem (s_uio r)))))
    \<and> (fits_mbuf (r\<lparr>s_space := sbspace (so_snd (so_at i (s_tcp r)))\<rparr>) \<longrightarrow> (\<exists>e u' t'. res = Ret (e, u', t') \<and> uio_resid u' = 0))"
  using assms(1-8)
proof (induction "nat (s_resid r)" arbitrary: r rule: less_induct)
  case less
  let ?x = "so_at i (s_tcp r)" and ?sp = "sbspace (so_snd (so_at i (s_tcp r)))"
  define r0 where "r0 = r\<lparr>s_space := ?sp\<rparr>"
  have fl: "MSG_OOB \<notin> flags" using assms(11) by auto
  note eq = snd_outer.simps[of pr cfg slp i flags has_addr False False True True ws r]
  have rel: "sok i (snd_release i r')" "\<not> SB_LOCK (so_snd (so_at i (snd_release i r')))" "stored i n (s_uio r) (s_tcp r) u' (snd_release i r')"
    if "sok i (s_tcp r')" "stored i n (s_uio r) (s_tcp r) u' (s_tcp r')" for r' u' n
    using that snd_release_lock[of i r'] sok_lock stored_lock by blast+
  have src: "stored i 0 (s_uio r) (s_tcp r) (s_uio r) (s_tcp r)" using less(6) by (auto simp: stored_def intro: exI[of _ "so_snd ?x"])
  show ?case
  proof (cases "snd_check pr flags False has_addr (s_resid r) 0 ?x = SndErr EWOULDBLOCK \<and> ?sp < s_resid r")
    case True
    then have "snd_outer pr cfg slp i flags has_addr False False True True ws r = Some (Ret (Some EWOULDBLOCK, s_uio r, snd_release i r))"
      unfolding eq using less(5) by simp
    then show ?thesis using rel[OF less(2) src] True by (auto simp: fits_mbuf_def)
  next
    case False
    then have ok: "snd_check pr flags False has_addr (s_resid r) 0 ?x = SndOk ?sp" "0 < ?sp" "int (length (sbdata (so_snd ?x))) + ?sp < M_COPYALL"
      using snd_check_stream[OF less(2,3,8,9) fl] by blast+
    have rd: "ready i r0" using less(4-9) ok(2,3) unfolding ready_def r0_def by simp
    have r0: "s_tcp r0 = s_tcp r" "s_uio r0 = s_uio r" by (simp_all add: r0_def)
    from snd_inner_stream[OF less(2)[folded r0(1)] rd assms(9-11)] obtain res where inn: "snd_inner pr cfg i flags False False True r0 = Some res"
        "\<forall>e r'. res = Ret (e, r') \<longrightarrow> (\<exists>n > 0. sok i (s_tcp r') \<and> wrote i n r0 r')" "fits_mbuf r0 \<longrightarrow> (\<exists>e r'. res = Ret (e, r') \<and> s_resid r' = 0)"
      by blast
    have out: "snd_outer pr cfg slp i flags has_addr False False True True ws r = (case Some res of
                  None \<Rightarrow> None
                | Some (Panic x) \<Rightarrow> Some (Panic x)
                | Some Fault \<Rightarrow> Some Fault
                | Some (Ret (Some e, r2)) \<Rightarrow> Some (Ret (Some e, s_uio r2, snd_release i r2))
                | Some (Ret (None, r2)) \<Rightarrow>
                    if s_resid r2 \<noteq> 0 then snd_outer pr cfg slp i flags has_addr False False True True ws r2
                    else Some (Ret (None, s_uio r2, snd_release i r2)))"
      unfolding eq using less(5) ok(1) inn(1) by (simp add: r0_def)
    show ?thesis
    proof (cases res)
      case (Ret p)
      obtain e r2 where p: "p = (e, r2)" by fastforce
      then obtain n where n: "0 < n" "sok i (s_tcp r2)" "wrote i n r0 r2" using inn(2) Ret by blast
      then have st: "stored i n (s_uio r) (s_tcp r) (s_uio r2) (s_tcp r2)" and w: "s_resid r2 = uio_resid (s_uio r2)" "s_resid r2 = s_resid r - int n"
          "s_top r2 = []" "s_control r2 = []" using n(3) unfolding wrote_def by (simp_all add: r0_def)
      have s2: "source (s_uio r2)" "source (s_uio r)" using st less(6) by (simp_all add: stored_def)
      have all: "s_resid r2 = 0 \<Longrightarrow> n = length (uio_mem (s_uio r))" using w(2) less(7) s2(2) by (simp add: source_def)
      show ?thesis
      proof (cases "e = None \<and> s_resid r2 \<noteq> 0")
        case False
        then have "snd_outer pr cfg slp i flags has_addr False False True True ws r = Some (Ret (e, s_uio r2, snd_release i r2))"
          unfolding out Ret p by (cases e) simp_all
        then show ?thesis using rel[OF n(2) st] all inn(3) Ret p w(1) False unfolding r0_def by auto
      next
        case True
        then have o2: "snd_outer pr cfg slp i flags has_addr False False True True ws r = snd_outer pr cfg slp i flags has_addr False False True True ws r2"
          unfolding out Ret p by simp
        have pos: "0 < s_resid r2" "nat (s_resid r2) < nat (s_resid r)" "s_resid r2 < 2 ^ 31"
          using True w(1,2) n(1) s2(1) room_nonneg less(8,9) by (auto simp: source_def)
        have cw: "can_write (so_at i (s_tcp r2))" using less(3) st by (auto simp: stored_def can_write_def)
        from less(1)[OF pos(2) n(2) cw w(3,4) s2(1) w(1) pos(1,3)] obtain res2 where r2: "snd_outer pr cfg slp i flags has_addr False False True True ws r2 = Some res2"
            "\<forall>e u' t'. res2 = Ret (e, u', t') \<longrightarrow> sok i t' \<and> \<not> SB_LOCK (so_snd (so_at i t'))
              \<and> (\<exists>n. stored i n (s_uio r2) (s_tcp r2) u' t' \<and> (e = None \<longrightarrow> n = length (uio_mem (s_uio r2))))" by blast
        have "\<exists>n. stored i n (s_uio r) (s_tcp r) u' t' \<and> (e' = None \<longrightarrow> n = length (uio_mem (s_uio r)))"
          if "stored i k (s_uio r2) (s_tcp r2) u' t'" "e' = None \<longrightarrow> k = length (uio_mem (s_uio r2))" for e' u' t' k
        proof -
          have "n \<le> length (uio_mem (s_uio r))" "uio_mem (s_uio r2) = drop n (uio_mem (s_uio r))" using st unfolding stored_def by blast+
          then show ?thesis using stored_trans[OF st that(1)] that(2) by (intro exI[of _ "n + k"]) auto
        qed
        moreover have "\<not> fits_mbuf r0" using inn(3) Ret p True by auto
        ultimately show ?thesis unfolding o2 using r2 unfolding r0_def by blast
      qed
    qed (use inn(3) in \<open>auto simp: out r0_def\<close>)
  qed
qed

lemma sosend_stores:
  assumes "sok i t" and "can_write (so_at i t)" and "\<not> SB_LOCK (so_snd (so_at i t))" and "source u" and "0 < uio_resid u" "uio_resid u < 2 ^ 31"
    and "0 \<le> max_hdr cfg" "max_hdr cfg < MCLBYTES" and "flags \<inter> {MSG_EOR, MSG_OOB} = {}"
  shows "\<exists>res. sosend pr cfg slp i flags has_addr (Inl u) [] ws t = Some res
    \<and> (\<forall>e u' t'. res = Ret (e, u', t') \<longrightarrow> sok i t' \<and> \<not> SB_LOCK (so_snd (so_at i t')) \<and> (\<exists>n. stored i n u t u' t' \<and> (e = None \<longrightarrow> n = length (uio_mem u))))
    \<and> (uio_resid u \<le> MHLEN \<and> uio_resid u \<le> sbspace (so_snd (so_at i t)) \<and> fst (MGETHDR MT_DATA (mbs t)) \<noteq> None
        \<longrightarrow> (\<exists>e u' t'. res = Ret (e, u', t') \<and> uio_resid u' = 0))"
proof -
  define t1 where "t1 = so_upd i (sb_set Snd ((so_snd (so_at i t))\<lparr>SB_LOCK := True\<rparr>)) t"
  define r where "r = (\<lambda>t. \<lparr>s_tcp = t, s_uio = u, s_resid = uio_resid u, s_space = 0, s_len = 0, s_top = [], s_control = []\<rparr>)"
  have r: "s_tcp (r x) = x" "s_uio (r x) = u" "s_resid (r x) = uio_resid u" "s_top (r x) = []" "s_control (r x) = []" "(r x)\<lparr>s_tcp := y\<rparr> = r y" for x y
    by (simp_all add: r_def)
  have at: "so_at i t1 = (so_at i t)\<lparr>so_snd := (so_snd (so_at i t))\<lparr>SB_LOCK := True\<rparr>\<rparr>" "mbs t1 = mbs t" by (simp_all add: t1_def sb_set_def)
  have "so_at i t1 = (so_at i t)\<lparr>so_snd := (so_snd (so_at i t))\<lparr>SB_LOCK := True, SB_WANT := SB_WANT (so_snd (so_at i t))\<rparr>\<rparr>" unfolding at by simp
  moreover have "tp t1 = tp t" "tab t1 = tab t" "tcbs t1 = tcbs t" "inp_id t1 = inp_id t" by (simp_all add: t1_def)
  ultimately have lk: "lock_only i t t1" unfolding lock_only_def by blast
  have "so_lock slp i Snd t = Some (None, t1)" using so_lock_free[where w=Snd and i=i and t=t and slp=slp] assms(3) by (simp add: t1_def)
  then have "snd_outer pr cfg slp i flags has_addr False False True False ws (r t) = snd_outer pr cfg slp i flags has_addr False False True True ws (r t1)"
    by (intro trans[OF snd_outer.simps[of pr cfg slp i flags has_addr False False True False ws "r t"]
          trans[OF _ snd_outer.simps[of pr cfg slp i flags has_addr False False True True ws "r t1", symmetric]]]) (unfold r Let_def, simp)
  moreover have "sosend pr cfg slp i flags has_addr (Inl u) [] ws t = snd_outer pr cfg slp i flags has_addr False False True False ws (r t)"
    using pieces by (simp add: sosend_def sosendallatonce_def r_def)
  ultimately have so: "sosend pr cfg slp i flags has_addr (Inl u) [] ws t = snd_outer pr cfg slp i flags has_addr False False True True ws (r t1)" by simp
  have cw: "can_write (so_at i t1)" using assms(2) unfolding at can_write_def by simp
  have sp: "sbspace (so_snd (so_at i t1)) = sbspace (so_snd (so_at i t))" unfolding at by (simp add: sbspace_def)
  have st: "stored i n u t1 u' t' \<Longrightarrow> stored i n u t u' t'" for n u' t' unfolding stored_def at by (simp add: sbdata_def)
  from snd_outer_locked[of i "r t1", unfolded r, OF sok_lock[OF assms(1) lk] cw refl refl assms(4) refl assms(5-9), of slp has_addr ws]
  show ?thesis unfolding so using st by (fastforce simp: fits_mbuf_def r sp at(2))
qed

end

section \<open>TCP\<close>

lemma sbappend_limits:
  assumes "sbappend m sb s = (sb', s')"
  shows "sb_hiwat sb' = sb_hiwat sb \<and> sb_lowat sb' = sb_lowat sb"
proof -
  have g: "sb_hiwat (grow n k x) = sb_hiwat x" "sb_lowat (grow n k x) = sb_lowat x" for n k x by (simp_all add: grow_def)
  have c: "sb_hiwat sb1 = sb_hiwat x \<and> sb_lowat sb1 = sb_lowat x" if "sbcompress c n x s = (d, sb1, s1)" for c n x d sb1 s1
    using sbcompress_spec(2)[OF that[unfolded sbcompress_def]] g by simp
  show ?thesis using assms
    by (auto simp: sbappend_def sbappendrecord_def Let_def sballoc_grow g split: if_splits prod.splits list.splits dest!: c)
qed

text \<open>Socket \<open>i\<close> has a TCP connection past its SYN, which has not sent its FIN and has sent nothing beyond its buffer.\<close>

definition tcp_snd_ok :: "nat \<Rightarrow> tcp \<Rightarrow> bool" where
  "tcp_snd_ok i t = (tcp_ok i t \<and> within (enter (the (so_pcb (so_at i t))) t) \<and> plain (so_snd (so_at i t)))"

lemma snd_cong:
  assumes "tp t' = tp t" and "sb_mb (so_snd (the_so t')) = sb_mb (so_snd (the_so t))" and "sb_cc (so_snd (the_so t')) = sb_cc (so_snd (the_so t))"
    and "sb_mbcnt (so_snd (the_so t')) = sb_mbcnt (so_snd (the_so t))"
  shows "send_inv t' = send_inv t" and "within t' = within t"
  using assms by (simp_all add: send_inv_def send_ok_def within_def sb_ok_def sbdata_def)

lemma tcp_snd_okI:
  assumes "so_pcb (so_at i t) = Some k" and "inp_ppcb (pcb (tab t) k)" and "inp_socket (pcb (tab t) k) = i" and "inp_id t = k"
    and "send_inv t" and "within t" and "plain (so_snd (so_at i t))"
  shows "tcp_snd_ok i t"
proof -
  have "tp (enter k t) = tp t" "the_so (enter k t) = the_so t" using assms(4) by (simp_all add: enter_def Let_def the_so_def so_id_def inp_def)
  then have "send_inv (enter k t) = send_inv t" "within (enter k t) = within t"
    using snd_cong[of "enter k t" t] by simp_all
  then show ?thesis using assms by (simp add: tcp_snd_ok_def tcp_ok_def)
qed

lemma tcp_snd_ok_lock:
  assumes "tcp_snd_ok i t" and "lock_only i t t'"
  shows "tcp_snd_ok i t'"
proof -
  obtain k where k: "so_pcb (so_at i t) = Some k" "inp_ppcb (pcb (tab t) k)" "inp_socket (pcb (tab t) k) = i" "send_inv (enter k t)" "within (enter k t)"
      "plain (so_snd (so_at i t))" using assms(1) by (auto simp: tcp_snd_ok_def tcp_ok_def split: option.splits)
  obtain a b where l: "tp t' = tp t" "tab t' = tab t" "tcbs t' = tcbs t" "inp_id t' = inp_id t"
      "so_at i t' = (so_at i t)\<lparr>so_snd := (so_snd (so_at i t))\<lparr>SB_LOCK := a, SB_WANT := b\<rparr>\<rparr>" using assms(2) by (auto simp: lock_only_def)
  have so: "the_so (enter k t') = so_at i t'" "the_so (enter k t) = so_at i t" using k(3) l(2) by (simp_all add: the_so_enter)
  have "tp (enter k t') = tp (enter k t)" using l by (simp add: enter_def Let_def)
  then have "send_inv (enter k t')" "within (enter k t')" using k(4,5) l(5) snd_cong[of "enter k t'" "enter k t"] so by simp_all
  then show ?thesis using k l by (simp add: tcp_snd_ok_def tcp_ok_def plain_def)
qed

lemma tcp_send_stores:
  assumes "tcp_snd_ok i t" and "chain_wf m" and "\<forall>k \<in> set m. \<not> M_EOR k" and "int (length (sbdata (so_snd (so_at i t))) + length (mdata m)) < M_COPYALL"
  shows "\<exists>e rep t' sb. tcp_usrreq cfg i (PRU_SEND m) [] t = Some (Ret (e, rep, t')) \<and> tcp_snd_ok i t' \<and> so_at i t' = (so_at i t)\<lparr>so_snd := sb\<rparr>
     \<and> sbdata sb = sbdata (so_snd (so_at i t)) @ mdata m \<and> sb_hiwat sb = sb_hiwat (so_snd (so_at i t)) \<and> sb_lowat sb = sb_lowat (so_snd (so_at i t))"
proof -
  obtain k where k: "so_pcb (so_at i t) = Some k" "inp_socket (pcb (tab t) k) = i" "inp_ppcb (pcb (tab t) k)" "send_inv (enter k t)"
      "\<And>cfg req. tcp_usrreq cfg i req [] t = tcp_request cfg req (enter k t)"
    using assms(1) tcp_usrreq_live unfolding tcp_snd_ok_def by (metis (no_types, lifting))
  have so: "the_so (enter k t) = so_at i t" using k(2) by (rule the_so_enter)
  have w: "within (enter k t)" "plain (so_snd (the_so (enter k t)))" using assms(1) k(1) so by (simp_all add: tcp_snd_ok_def)
  define a where "a = usr_append m (enter k t)"
  note inv = usr_append_inv[OF k(4) w assms(2,3) assms(4)[folded so], folded a_def]
  obtain sb s where sb: "sbappend m (so_snd (so_at i t)) (mbs t) = (sb, s)" by fastforce
  have a: "a = (updso (\<lambda>x. x\<lparr>so_snd := sb\<rparr>) (enter k t))\<lparr>mbs := s\<rparr>" using sb so by (simp add: a_def usr_append_def)
  have at: "so_at i a = (so_at i t)\<lparr>so_snd := sb\<rparr>" "inp_id a = k" "tab a = tab t" using k(2) by (simp_all add: a updso_def upd_def)
  have "the_so a = so_at i a" using at(2,3) k(2) by (simp add: the_so_def so_id_def inp_def)
  then have d: "sbdata sb = sbdata (so_snd (so_at i t)) @ mdata m" "plain sb" using inv(3,4) at(1) so by simp_all
  from tcp_output_spec[OF inv(1), of cfg] obtain e t1 where o: "tcp_output cfg a = Some (Ret (e, t1))" "kept a t1" by blast
  note iv = tcp_output_within[OF inv(1,2) o(1)]
  have t1: "so_at i t1 = (so_at i t)\<lparr>so_snd := sb\<rparr>" "inp_id t1 = k" "tab t1 = tab t" using o(2) at by (simp_all add: kept_def)
  have "tcp_snd_ok i t1" by (rule tcp_snd_okI[of _ _ k]) (use t1 k d(2) iv in simp_all)
  moreover have "tcp_usrreq cfg i (PRU_SEND m) [] t = Some (Ret (e, NoReply, t1))" using k(5) o(1) by (simp add: tcp_request_def noreply_def a_def rret_def)
  ultimately show ?thesis using t1(1) d(1) sbappend_limits[OF sb] by blast
qed

interpretation tcp_snd: send_protocol "tcp_protosw rights cfg" tcp_snd_ok for rights cfg
proof
  show "PR_ATOMIC \<notin> pr_flags (tcp_protosw rights cfg)" by (simp add: tcp_protosw_def)
next
  fix i t assume "tcp_snd_ok i t"
  then show "sb_ok (so_snd (so_at i t)) \<and> int (length (sbdata (so_snd (so_at i t)))) < M_COPYALL"
    by (auto simp: tcp_snd_ok_def tcp_ok_def send_inv_def send_ok_def the_so_enter split: option.splits)
qed (use tcp_snd_ok_lock tcp_send_stores in \<open>auto simp: tcp_protosw_def\<close>)



end
