(* ===== verification/Sock_Opt.thy ===== *)
theory Sock_Opt
  imports Sockops
begin

text \<open>
  What \<^verbatim>\<open>getsockopt\<close> gives back of what \<^verbatim>\<open>setsockopt\<close> set, at level \<^verbatim>\<open>SOL_SOCKET\<close>: the option unchanged, except for
  timeouts, whose fraction of a second is lost.
\<close>

lemma sbreserve_hiwat: "sbreserve m cc sb = (True, sb') \<Longrightarrow> sb_hiwat sb' = cc"
  by (auto simp: sbreserve_def Let_def split: if_splits)

text \<open>A set option: a flag, a buffer size or a low-water mark, and the length and words of a value the code accepts.\<close>

definition opt_value :: "sockopt \<Rightarrow> int \<Rightarrow> int \<Rightarrow> optval" where
  "opt_value opt v l = (case opt of
     OptFlag f \<Rightarrow> (if f = SO_LINGER then (8, if v \<noteq> 0 then so_bit f else 0, l) else (4, if v \<noteq> 0 then so_bit f else 0, 0))
   | _ \<Rightarrow> (4, v, 0))"

text \<open>(C15) Every option but the timeouts reads back as it was set: a flag as its own bit (and no other flag changes), buffer
  sizes, low-water marks and the linger time as the numbers given, for values of the width of their fields.\<close>

theorem sockopt_roundtrip:
  assumes "sosetopt sbmax hz tick opt (Some (len, v, l)) x = (None, x')" and "opt \<notin> {SO_SNDTIMEO, SO_RCVTIMEO}"
    and "- (2 ^ 31) \<le> v" "v < 2 ^ 31" "- 32768 \<le> l" "l < 32768"
  shows "fst (sogetopt code hz tick opt x') = Inr (opt_value opt v l)
    \<and> (f \<in> so_options x' \<longleftrightarrow> (if opt = OptFlag f then v \<noteq> 0 else f \<in> so_options x))"
proof
  have s: "sint (of_int v :: u32) = v" using sint_of_int_u32 assms(3,4) by blast
  show "fst (sogetopt code hz tick opt x') = Inr (opt_value opt v l)"
    using assms(1,2,5,6) s to_short_id[of l]
    by (auto simp: sosetopt_def sogetopt_def opt_value_def set_flag_def Let_def split: sockopt.splits if_splits prod.splits dest!: sbreserve_hiwat)
  show "f \<in> so_options x' \<longleftrightarrow> (if opt = OptFlag f then v \<noteq> 0 else f \<in> so_options x)"
    using assms(1,2) by (auto simp: sosetopt_def set_flag_def split: sockopt.splits if_splits prod.splits)
qed

theorem sockopt_roundtrip_witness:
  "fst (sogetopt (\<lambda>_. 0) 100 10000 SO_SNDLOWAT (snd (sosetopt 65536 100 10000 SO_SNDLOWAT (Some (4, 7, 0)) (ex_so None None None 0 0)))) = Inr (4, 7, 0)"
proof -
  let ?x = "snd (sosetopt 65536 100 10000 SO_SNDLOWAT (Some (4, 7, 0)) (ex_so None None None 0 0))"
  have "sosetopt 65536 100 10000 SO_SNDLOWAT (Some (4, 7, 0)) (ex_so None None None 0 0) = (None, ?x)" by (simp add: sosetopt_def)
  from sockopt_roundtrip[OF this, of "\<lambda>_. 0"] show ?thesis by (simp add: opt_value_def)
qed

text \<open>With the VAX clock (\<^verbatim>\<open>hz\<close> 100, \<^verbatim>\<open>tick\<close> 10000 microseconds) a timeout is accepted up to 227 seconds and stored in ticks
  (rounded down), but reads back without its fraction: the remainder is divided by \<^verbatim>\<open>tick\<close>, where it should be multiplied.\<close>

theorem sockopt_timeo_fraction_lost:
  assumes "opt \<in> {SO_SNDTIMEO, SO_RCVTIMEO}" and "0 \<le> sec" "sec \<le> 227" "0 \<le> usec" "usec < 1000000"
  shows "\<exists>x'. sosetopt sbmax 100 10000 opt (Some (8, sec, usec)) x = (None, x')
     \<and> sb_timeo (if opt = SO_SNDTIMEO then so_snd x' else so_rcv x') = sec * 100 + usec div 10000
     \<and> fst (sogetopt code 100 10000 opt x') = Inr (8, sec, 0)"
proof -
  have d: "0 \<le> usec div 10000" "usec div 10000 < 100" using assms(4,5) by auto
  then have t: "to_short (sec * 100 + usec div 10000) = sec * 100 + usec div 10000" using assms(2,3) by (intro to_short_id) auto
  have "(sec * 100 + usec div 10000) div 100 = sec" "(sec * 100 + usec div 10000) mod 100 div 10000 = 0" using d by auto
  then have "get_timeo 100 10000 (sec * 100 + usec div 10000) = (8, sec, 0)" using d assms(2) by (simp add: get_timeo_def)
  then show ?thesis using assms t by (auto simp: sosetopt_def sogetopt_def set_timeo_def SHRT_MAX_def)
qed

theorem sockopt_timeo_fraction_lost_witness:
  "\<exists>x'. sosetopt 65536 100 10000 SO_RCVTIMEO (Some (8, 1, 500000)) (ex_so None None None 0 0) = (None, x')
     \<and> sb_timeo (so_rcv x') = 150 \<and> fst (sogetopt (\<lambda>_. 0) 100 10000 SO_RCVTIMEO x') = Inr (8, 1, 0)"
  using sockopt_timeo_fraction_lost[of SO_RCVTIMEO 1 500000 65536 "ex_so None None None 0 0" "\<lambda>_. 0"] by simp

end
