(* ===== verification/Cksum.thy ===== *)
theory Cksum
  imports Mbuf
begin

unbundle bit_operations_syntax

text \<open>
  The internet checksum: \<^verbatim>\<open>in_cksum_c\<close> of \<^verbatim>\<open>sys/netinet/in_cksum_c.c\<close>, the portable version, against the definition of the
  checksum as the complement of the one's complement sum of 16-bit words.  The routine reads words at even addresses
  only: the first byte of an mbuf may belong to a word begun in the one before, and data at an odd address are
  summed with their bytes swapped.  An mbuf's buffer begins at an even address, so that the parity of \<^verbatim>\<open>m_data\<close> is that of
  the offset the model keeps.  The flag \<open>be\<close> is the byte order of the machine (the VAX is little-endian, the Tahoe big-endian).
\<close>

section \<open>The routine\<close>

text \<open>The \<^verbatim>\<open>u_short\<close> made of two adjacent bytes.\<close>

definition half :: "bool \<Rightarrow> byte \<Rightarrow> byte \<Rightarrow> u32" where
  "half be a b = (if be then 256 * ucast a + ucast b else ucast a + 256 * ucast b)"

definition ADDCARRY :: "u32 \<Rightarrow> u32" where
  "ADDCARRY x = (if x > 65535 then x - 65535 else x)"

definition REDUCE :: "u32 \<Rightarrow> u32" where
  "REDUCE sm = ADDCARRY (take_bit 16 sm + drop_bit 16 sm)"

text \<open>\<open>k\<close> words from \<open>w\<close> on.\<close>

fun add_words :: "bool \<Rightarrow> nat \<Rightarrow> byte list \<Rightarrow> u32 \<Rightarrow> (byte list \<times> u32) kres" where
  "add_words be 0 w sm = Ret (w, sm)"
| "add_words be (Suc k) (a # b # r) sm = add_words be k r (sm + half be a b)"
| "add_words be (Suc k) _ sm = Fault"

text \<open>\<^verbatim>\<open>while ((mlen -= k) >= 0)\<close>, \<open>k\<close> bytes a round.\<close>

function cksum_while :: "bool \<Rightarrow> nat \<Rightarrow> byte list \<Rightarrow> int \<Rightarrow> u32 \<Rightarrow> (byte list \<times> int \<times> u32) kres" where
  "cksum_while be k w mlen sm =
     (if k \<noteq> 0 \<and> mlen - int k \<ge> 0
      then case add_words be (k div 2) w sm of
             Ret (w1, sm1) \<Rightarrow> cksum_while be k w1 (mlen - int k) sm1
           | Panic e \<Rightarrow> Panic e
           | Fault \<Rightarrow> Fault
      else Ret (w, mlen - int k, sm))"
  by pat_completeness auto

termination
  by (relation "measure (\<lambda>(be, k, w, mlen, sm). nat mlen)") auto

declare cksum_while.simps [simp del]

text \<open>The variables that live from one mbuf to the next: \<^verbatim>\<open>sum\<close>, \<^verbatim>\<open>mlen\<close> (-1: a byte waits in \<^verbatim>\<open>s_util.c[0]\<close>), that byte, \<^verbatim>\<open>len\<close>.\<close>

record cks =
  ck_sum :: u32
  ck_mlen :: int
  ck_c0 :: byte
  ck_len :: int

text \<open>The byte that completes a word, and the byte before an even address.\<close>

definition cksum_join :: "bool \<Rightarrow> mbuf \<Rightarrow> cks \<Rightarrow> (byte list \<times> bool \<times> u32 \<times> int \<times> int) kres" where
  "cksum_join be m st =
     (if ck_mlen st = -1
      then case m_bytes m of [] \<Rightarrow> Fault
           | b # r \<Rightarrow> Ret (r, even (m_data m), ck_sum st + half be (ck_c0 st) b, m_len m - 1, ck_len st - 1)
      else Ret (m_bytes m, odd (m_data m), ck_sum st, m_len m, ck_len st))"

definition cksum_align :: "bool \<Rightarrow> byte list \<Rightarrow> int \<Rightarrow> u32 \<Rightarrow> byte \<Rightarrow> (byte list \<times> bool \<times> u32 \<times> byte \<times> int) kres" where
  "cksum_align odd_w w mlen sm c0 =
     (if odd_w \<and> mlen > 0
      then case w of [] \<Rightarrow> Fault | b # r \<Rightarrow> Ret (r, True, push_bit 8 (REDUCE sm), b, mlen - 1)
      else Ret (w, False, sm, c0, mlen))"

text \<open>The rest of the loop body; \<^verbatim>\<open>len\<close> has been counted down.\<close>

definition cksum_last :: "bool \<Rightarrow> byte list \<Rightarrow> bool \<Rightarrow> u32 \<Rightarrow> byte \<Rightarrow> int \<Rightarrow> int \<Rightarrow> cks kres" where
  "cksum_last be w swapped sm c0 mlen len =
     (if mlen = 0 \<and> \<not> swapped then Ret \<lparr>ck_sum = sm, ck_mlen = 0, ck_c0 = c0, ck_len = len\<rparr>
      else kbind (cksum_while be 2 w mlen (REDUCE sm)) (\<lambda>(w, mlen, sm).
        if swapped
        then let sm1 = push_bit 8 (REDUCE sm) in
          if mlen = -1
          then case w of [] \<Rightarrow> Fault | b # _ \<Rightarrow> Ret \<lparr>ck_sum = sm1 + half be c0 b, ck_mlen = 0, ck_c0 = c0, ck_len = len\<rparr>
          else Ret \<lparr>ck_sum = sm1, ck_mlen = -1, ck_c0 = c0, ck_len = len\<rparr>
        else if mlen = -1
        then case w of [] \<Rightarrow> Fault | b # _ \<Rightarrow> Ret \<lparr>ck_sum = sm, ck_mlen = -1, ck_c0 = b, ck_len = len\<rparr>
        else Ret \<lparr>ck_sum = sm, ck_mlen = mlen, ck_c0 = c0, ck_len = len\<rparr>))"

definition cksum_tail :: "bool \<Rightarrow> byte list \<Rightarrow> bool \<Rightarrow> u32 \<Rightarrow> byte \<Rightarrow> int \<Rightarrow> int \<Rightarrow> cks kres" where
  "cksum_tail be w swapped sm c0 mlen len =
     kbind (cksum_while be 32 w mlen sm) (\<lambda>(w, mlen, sm).
     kbind (cksum_while be 8 w (mlen + 32) sm) (\<lambda>(w, mlen, sm).
     cksum_last be w swapped sm c0 (mlen + 8) len))"

definition cksum_mbuf :: "bool \<Rightarrow> mbuf \<Rightarrow> cks \<Rightarrow> cks kres" where
  "cksum_mbuf be m st =
     (if m_len m = 0 then Ret st
      else kbind (cksum_join be m st) (\<lambda>(w, odd_w, sm, mlen0, len).
        let mlen = (if len < mlen0 then len else mlen0) in
        kbind (cksum_align odd_w w mlen sm (ck_c0 st)) (\<lambda>(w, swapped, sm, c0, mlen1).
        cksum_tail be w swapped sm c0 mlen1 (len - mlen))))"

fun cksum_loop :: "bool \<Rightarrow> chain \<Rightarrow> cks \<Rightarrow> cks kres" where
  "cksum_loop be [] st = Ret st"
| "cksum_loop be (m # c) st = (if ck_len st = 0 then Ret st else kbind (cksum_mbuf be m st) (cksum_loop be c))"

text \<open>The result, and whether the routine printed \<^verbatim>\<open>cksum: out of data\<close>.\<close>

definition in_cksum_c :: "bool \<Rightarrow> chain \<Rightarrow> int \<Rightarrow> (u32 \<times> bool) kres" where
  "in_cksum_c be c len =
     kmap (\<lambda>st. let sm = (if ck_mlen st = -1 then ck_sum st + half be (ck_c0 st) 0 else ck_sum st)
                in (NOT (REDUCE sm) AND 0xffff, ck_len st \<noteq> 0))
       (cksum_loop be c \<lparr>ck_sum = 0, ck_mlen = 0, ck_c0 = 0, ck_len = len\<rparr>)"

section \<open>The definition of the checksum\<close>

text \<open>16-bit words, the last one padded with a zero byte, and one's complement addition.\<close>

fun words16 :: "bool \<Rightarrow> byte list \<Rightarrow> nat list" where
  "words16 be [] = []"
| "words16 be [a] = [unat (half be a 0)]"
| "words16 be (a # b # r) = unat (half be a b) # words16 be r"

definition oc_add :: "nat \<Rightarrow> nat \<Rightarrow> nat" where
  "oc_add x y = (if x + y > 65535 then x + y - 65535 else x + y)"

definition cksum_ref :: "bool \<Rightarrow> byte list \<Rightarrow> nat" where
  "cksum_ref be bs = 65535 - foldl oc_add 0 (words16 be bs)"

section \<open>Numbers that stand for the same one's complement sum\<close>

definition rep :: "nat \<Rightarrow> nat \<Rightarrow> bool" where
  "rep v n = (v mod 65535 = n mod 65535 \<and> (v = 0 \<longleftrightarrow> n = 0))"

lemma rep_refl [simp]: "rep v v"
  by (simp add: rep_def)

lemma rep_sym: "rep v n \<Longrightarrow> rep n v"
  by (auto simp: rep_def)

lemma rep_trans [trans]: "rep a b \<Longrightarrow> rep b c \<Longrightarrow> rep a c"
  by (auto simp: rep_def)

lemma rep_add: "rep a b \<Longrightarrow> rep c d \<Longrightarrow> rep (a + c) (b + d)"
  by (auto simp: rep_def intro: mod_add_cong)

lemma rep_mult: "rep a b \<Longrightarrow> rep (256 * a) (256 * b)"
  by (auto simp: rep_def intro: mod_mult_cong)

lemma rep_shift: "rep (65536 * a) a"
proof -
  have "65536 * a = a + a * 65535" by simp
  moreover have "(a + a * 65535) mod 65535 = a mod 65535" by (rule mod_mult_self1)
  ultimately show ?thesis unfolding rep_def by simp
qed

lemma rep_unique:
  assumes "rep a n" and "rep b n" and "a \<le> 65535" and "b \<le> 65535"
  shows "a = b"
proof (cases "n = 0")
  case True
  then show ?thesis using assms by (simp add: rep_def)
next
  case False
  then have "0 < a" "0 < b" "a mod 65535 = b mod 65535" using assms(1,2) by (auto simp: rep_def)
  then show ?thesis using assms(3,4) by (cases "a = 65535"; cases "b = 65535") auto
qed

section \<open>Words\<close>

definition first_weight :: "bool \<Rightarrow> nat" where
  "first_weight be = (if be then 256 else 1)"

definition last_weight :: "bool \<Rightarrow> nat" where
  "last_weight be = (if be then 1 else 256)"

lemma unat_half: "unat (half be a b) = first_weight be * unat a + last_weight be * unat b"
proof -
  have l: "0 \<le> uint x" "uint x < 256" for x :: byte using uint_bounded[of x] by auto
  have u: "uint (ucast x :: u32) = uint x" for x :: byte using l[of x] by (simp add: unsigned_ucast_eq take_bit_int_eq_self)
  have m: "uint (256 * ucast x + ucast y :: u32) = 256 * uint x + uint y" for x y :: byte
    using l[of x] l[of y] by (simp add: uint_word_ariths u)
  have "uint (half be a b) = int (first_weight be) * uint a + int (last_weight be) * uint b"
    using m[of a b] m[of b a] by (simp add: half_def first_weight_def last_weight_def add.commute)
  then have "int (unat (half be a b)) = int (first_weight be * unat a + last_weight be * unat b)" by simp
  then show ?thesis by (simp only: of_nat_eq_iff)
qed

lemma REDUCE_rep: "rep (unat (REDUCE s)) (unat s)" "unat (REDUCE s) \<le> 65535"
proof -
  define q r where "q = unat s div 65536" and "r = unat s mod 65536"
  have s: "unat s = 65536 * q + r" "r < 65536" by (simp_all add: q_def r_def)
  have "unat s < 2 ^ 32" using unsigned_less[where 'a = nat, of s] by simp
  then have q: "q < 65536" using s(1) by simp
  have "take_bit 16 s = s mod 65536" "drop_bit 16 s = s div 65536" by (simp_all add: take_bit_eq_mod drop_bit_eq_div)
  then have "unat (take_bit 16 s) = r" "unat (drop_bit 16 s) = q" by (simp_all add: r_def q_def unat_mod unat_div)
  then have x: "unat (take_bit 16 s + drop_bit 16 s) = r + q" using s(2) q by (simp add: unat_word_ariths)
  define x where "x = take_bit 16 s + drop_bit 16 s"
  have xu: "unat x = r + q" using x by (simp add: x_def)
  have red: "unat (REDUCE s) = (if r + q > 65535 then r + q - 65535 else r + q)"
  proof (cases "x > 65535")
    case True
    then have "r + q > 65535" using xu by (simp add: word_less_nat_alt)
    moreover have "unat (x - 65535) = r + q - 65535" using True xu unat_sub[of 65535 x] by (simp add: word_less_nat_alt word_le_nat_alt)
    ultimately show ?thesis using True by (simp add: REDUCE_def ADDCARRY_def x_def[symmetric])
  next
    case False
    then show ?thesis using xu by (simp add: REDUCE_def ADDCARRY_def x_def[symmetric] word_less_nat_alt)
  qed
  have "rep (r + q) (unat s)" unfolding s(1) using rep_add[OF rep_refl[of r] rep_sym[OF rep_shift[of q]]] by (simp add: add.commute)
  moreover have "rep (r + q - 65535) (r + q)" if "r + q > 65535" using that by (auto simp: rep_def mod_if)
  ultimately show "rep (unat (REDUCE s)) (unat s)" unfolding red using rep_trans by auto
  show "unat (REDUCE s) \<le> 65535" unfolding red using s(2) q by auto
qed

text \<open>The bytes with weights \<open>a\<close> and \<open>b\<close> in turn.\<close>

fun wsum :: "nat \<Rightarrow> nat \<Rightarrow> byte list \<Rightarrow> nat" where
  "wsum a b [] = 0"
| "wsum a b (x # r) = a * unat x + wsum b a r"

lemma wsum_append: "wsum a b (xs @ ys) = wsum a b xs + (if even (length xs) then wsum a b ys else wsum b a ys)"
  by (induction xs arbitrary: a b) auto

abbreviation true_sum :: "bool \<Rightarrow> byte list \<Rightarrow> nat" where
  "true_sum be \<equiv> wsum (first_weight be) (last_weight be)"

abbreviation swapped_sum :: "bool \<Rightarrow> byte list \<Rightarrow> nat" where
  "swapped_sum be \<equiv> wsum (last_weight be) (first_weight be)"

lemma swap_rep: "rep (256 * true_sum be xs) (swapped_sum be xs)" "rep (256 * swapped_sum be xs) (true_sum be xs)"
proof (induction xs)
  case (Cons x xs)
  have w: "rep (256 * (first_weight be * unat x)) (last_weight be * unat x)" "rep (256 * (last_weight be * unat x)) (first_weight be * unat x)"
    using rep_shift[of "unat x"] by (simp_all add: first_weight_def last_weight_def)
  case 1
  show ?case using rep_add[OF w(1) Cons(2)] by (simp add: algebra_simps)
  case 2
  show ?case using rep_add[OF w(2) Cons(1)] by (simp add: algebra_simps)
qed simp_all

lemma half_le: "first_weight be * unat a + last_weight be * unat b \<le> 65535" for a b :: byte
proof -
  have "unat x < 256" for x :: byte using unsigned_less[where 'a = nat, of x] by simp
  from this[of a] this[of b] show ?thesis by (simp add: first_weight_def last_weight_def)
qed

lemma true_sum_le: "2 * k \<le> length w \<Longrightarrow> true_sum be (take (2 * k) w) \<le> 65535 * k"
proof (induction k arbitrary: w)
  case (Suc k)
  then obtain a b r where w: "w = a # b # r" by (cases w; cases "tl w") auto
  then show ?case using Suc half_le[of be a b] by fastforce
qed simp

lemma unat_add_bound: "unat s + x < 2 ^ 32 \<Longrightarrow> unat h = x \<Longrightarrow> unat (s + h) = unat s + x" for s h :: u32
  by (simp add: unat_word_ariths)

lemma add_words_spec:
  assumes "2 * k \<le> length w" and "unat s + 65535 * k < 2 ^ 32"
  shows "\<exists>s'. add_words be k w s = Ret (drop (2 * k) w, s') \<and> unat s' = unat s + true_sum be (take (2 * k) w)"
  using assms
proof (induction k arbitrary: w s)
  case (Suc k)
  then obtain a b r where w: "w = a # b # r" by (cases w; cases "tl w") auto
  have u: "unat (s + half be a b) = unat s + (first_weight be * unat a + last_weight be * unat b)"
    by (rule unat_add_bound) (use Suc(3) half_le[of be a b] in \<open>auto simp: unat_half\<close>)
  have "unat (s + half be a b) + 65535 * k < 2 ^ 32" using Suc(3) half_le[of be a b] unfolding u by simp
  from Suc(1)[OF _ this, of r] Suc(2) show ?case by (auto simp: w u)
qed simp

lemma cksum_while_spec:
  assumes "0 < k" and "even k" and "0 \<le> mlen" and "nat mlen \<le> length w" and "unat s + 32768 * nat mlen < 2 ^ 32"
  shows "\<exists>s'. cksum_while be k w mlen s = Ret (drop (nat mlen div k * k) w, int (nat mlen mod k) - int k, s')
    \<and> unat s' = unat s + true_sum be (take (nat mlen div k * k) w)"
  using assms(3-5)
proof (induction "nat mlen" arbitrary: mlen w s rule: less_induct)
  case less
  obtain j where k: "k = 2 * j" "0 < j" using assms(1,2) by (auto elim: evenE)
  show ?case
  proof (cases "mlen - int k \<ge> 0")
    case False
    then have "nat mlen < k" using less(2) by linarith
    then show ?thesis using False less(2) by (subst cksum_while.simps) simp
  next
    case True
    have n: "nat mlen = nat (mlen - int k) + k" using True less(2) by simp
    obtain s1 where s1: "add_words be j w s = Ret (drop k w, s1)" "unat s1 = unat s + true_sum be (take k w)"
      using add_words_spec[of j w s be] less(3,4) n k by auto
    have b: "true_sum be (take k w) \<le> 65535 * j" using true_sum_le[of j w be] less(3) n k(1) by simp
    have lt: "nat (mlen - int k) < nat mlen" using n assms(1) by simp
    have "nat (mlen - int k) \<le> length (drop k w)" "unat s1 + 32768 * nat (mlen - int k) < 2 ^ 32"
      using less(3,4) n b k by (simp_all add: s1(2))
    from less(1)[OF lt True this] obtain s2 where s2:
      "cksum_while be k (drop k w) (mlen - int k) s1 = Ret (drop (nat (mlen - int k) div k * k) (drop k w), int (nat (mlen - int k) mod k) - int k, s2)"
      "unat s2 = unat s1 + true_sum be (take (nat (mlen - int k) div k * k) (drop k w))" by blast
    let ?n = "nat (mlen - int k) div k * k"
    have d: "nat mlen div k * k = k + ?n" "nat mlen mod k = nat (mlen - int k) mod k"
      unfolding n using assms(1) by (simp_all add: div_add_self2 distrib_right)
    have t: "take (k + ?n) w = take k w @ take ?n (drop k w)" by (rule take_add)
    have "true_sum be (take (k + ?n) w) = true_sum be (take k w) + true_sum be (take ?n (drop k w))"
      unfolding t wsum_append using less(3) n assms(2) by simp
    then show ?thesis unfolding d using True s1(1) s2 s1(2) k assms(1)
      by (subst cksum_while.simps) (simp add: add.commute)
  qed
qed

lemma REDUCE_le: "unat (REDUCE s) \<le> unat s"
proof (cases "unat s \<le> 65535")
  case True
  then show ?thesis using rep_unique[OF REDUCE_rep(1) rep_refl REDUCE_rep(2)] by simp
next
  case False
  then show ?thesis using REDUCE_rep(2)[of s] by simp
qed

lemma swap_REDUCE: "rep (unat (push_bit 8 (REDUCE s))) (256 * unat s)" "unat (push_bit 8 (REDUCE s)) \<le> 256 * 65535"
proof -
  have "unat (push_bit 8 (REDUCE s)) = 256 * unat (REDUCE s)"
    using REDUCE_rep(2)[of s] by (simp add: push_bit_eq_mult unat_word_ariths)
  then show "rep (unat (push_bit 8 (REDUCE s))) (256 * unat s)" "unat (push_bit 8 (REDUCE s)) \<le> 256 * 65535"
    using rep_mult[OF REDUCE_rep(1)[of s]] REDUCE_rep(2)[of s] by simp_all
qed

lemma true_sum_bound: "even n \<Longrightarrow> n \<le> length w \<Longrightarrow> 2 * true_sum be (take n w) \<le> 65535 * n"
  using true_sum_le[of "n div 2" w be] by auto

lemma true_sum_split:
  "even a \<Longrightarrow> a \<le> length w \<Longrightarrow> true_sum be (take (a + b) w) = true_sum be (take a w) + true_sum be (take b (drop a w))"
  by (simp add: take_add wsum_append)

lemma chunks: "b dvd a \<Longrightarrow> n div b * b = n div a * a + n mod a div b * b" for n a b :: nat
  using div_mult_mod_eq[of n b] div_mult_mod_eq[of n a] div_mult_mod_eq[of "n mod a" b] mod_mod_cancel[of b a n] by linarith

lemma two_loops:
  assumes "n \<le> length w" and "unat s + 32768 * n < 2 ^ 32"
  shows "\<exists>s'. (\<forall>sw c0 len. cksum_tail be w sw s c0 (int n) len = cksum_last be (drop (n div 8 * 8) w) sw s' c0 (int (n mod 8)) len)
    \<and> unat s' = unat s + true_sum be (take (n div 8 * 8) w)"
proof -
  let ?a = "n div 32 * 32"
  have le: "?a + n mod 32 = n" by simp
  obtain s1 where s1: "cksum_while be 32 w (int n) s = Ret (drop ?a w, int (n mod 32) - 32, s1)"
    "unat s1 = unat s + true_sum be (take ?a w)"
    using cksum_while_spec[of 32 "int n" w s be] assms by auto
  have "true_sum be (take ?a w) \<le> 32768 * ?a" using true_sum_bound[of ?a w be] le assms(1) by simp
  then have "unat s1 + 32768 * (n mod 32) < 2 ^ 32" "n mod 32 \<le> length (drop ?a w)" 
    unfolding length_drop using assms le s1(2) by linarith+
  then obtain s2 where s2: "cksum_while be 8 (drop ?a w) (int (n mod 32)) s1
      = Ret (drop (n mod 32 div 8 * 8) (drop ?a w), int (n mod 32 mod 8) - 8, s2)"
    "unat s2 = unat s1 + true_sum be (take (n mod 32 div 8 * 8) (drop ?a w))"
    using cksum_while_spec[of 8 "int (n mod 32)" "drop ?a w" s1 be] by auto
  have d: "n div 8 * 8 = ?a + n mod 32 div 8 * 8" "n mod 32 mod 8 = n mod 8" by (rule chunks, simp) (rule mod_mod_cancel, simp)
  have "unat s2 = unat s + true_sum be (take (n div 8 * 8) w)"
    unfolding d(1) using true_sum_split[of ?a w be] le assms(1) s1(2) s2(2) by simp
  moreover have "drop (n div 8 * 8) w = drop (n mod 32 div 8 * 8) (drop ?a w)" unfolding d(1) by (simp add: add.commute)
  ultimately show ?thesis using s1(1) s2(1) d(2) by (intro exI[of _ s2]) (simp add: cksum_tail_def)
qed

lemma last_loop:
  assumes "n \<le> length w" and "unat s + 32768 * n < 2 ^ 32" and "unat s1 = unat s + true_sum be (take (n div 8 * 8) w)"
  shows "\<exists>s'. cksum_while be 2 (drop (n div 8 * 8) w) (int (n mod 8)) (REDUCE s1) = Ret (drop (n div 2 * 2) w, int (n mod 2) - 2, s')
    \<and> rep (unat s') (unat s + true_sum be (take (n div 2 * 2) w)) \<and> unat s' \<le> unat s + 65536 * (n div 2)"
proof -
  let ?a = "n div 8 * 8" and ?b = "n mod 8 div 2 * 2"
  have le: "?a + n mod 8 = n" by simp
  have b1: "true_sum be (take ?a w) \<le> 32768 * ?a" using true_sum_bound[of ?a w be] le assms(1) by simp
  then have "unat (REDUCE s1) + 32768 * (n mod 8) < 2 ^ 32" "n mod 8 \<le> length (drop ?a w)"
    unfolding length_drop using assms le REDUCE_le[of s1] by linarith+
  then obtain s2 where s2: "cksum_while be 2 (drop ?a w) (int (n mod 8)) (REDUCE s1) = Ret (drop ?b (drop ?a w), int (n mod 8 mod 2) - 2, s2)"
    "unat s2 = unat (REDUCE s1) + true_sum be (take ?b (drop ?a w))"
    using cksum_while_spec[of 2 "int (n mod 8)" "drop ?a w" "REDUCE s1" be] by auto
  have d: "n div 2 * 2 = ?a + ?b" "n mod 8 mod 2 = n mod 2" by (rule chunks, simp) (rule mod_mod_cancel, simp)
  have t: "true_sum be (take (n div 2 * 2) w) = true_sum be (take ?a w) + true_sum be (take ?b (drop ?a w))"
    unfolding d(1) using true_sum_split[of ?a w be] le assms(1) by simp
  have "rep (unat s2) (unat s + true_sum be (take (n div 2 * 2) w))"
    using rep_add[OF REDUCE_rep(1)[of s1] rep_refl] by (simp add: s2(2) t assms(3) add.assoc)
  moreover have "2 * true_sum be (take (n div 2 * 2) w) \<le> 65535 * (n div 2 * 2)" by (rule true_sum_bound) (use assms(1) in auto)
  then have "unat s2 \<le> unat s + 65536 * (n div 2)" using REDUCE_le[of s1] s2(2) t assms(3) div_mult_mod_eq[of n 2] by linarith
  moreover have "drop (n div 2 * 2) w = drop ?b (drop ?a w)" unfolding d(1) by (simp add: add.commute)
  ultimately show ?thesis using s2(1) d(2) by auto
qed

lemma odd_last:
  assumes "odd n" and "n \<le> length w"
  obtains b r where "drop (n div 2 * 2) w = b # r" and "take n w = take (n div 2 * 2) w @ [b]"
proof -
  let ?e = "n div 2 * 2"
  have n: "n = ?e + 1" using assms(1) by presburger
  then have "?e < length w" using assms(2) by linarith
  then have "drop ?e w = w ! ?e # drop (Suc ?e) w" "take (Suc ?e) w = take ?e w @ [w ! ?e]"
    by (simp_all add: Cons_nth_drop_Suc take_Suc_conv_app_nth)
  with n show thesis using that by simp
qed

lemma cksum_tail_plain:
  assumes "n \<le> length w" and "unat s + 32768 * n < 2 ^ 32"
  obtains s' m c where "cksum_tail be w False s c0 (int n) len = Ret \<lparr>ck_sum = s', ck_mlen = m, ck_c0 = c, ck_len = len\<rparr>"
    and "m = -1 \<longleftrightarrow> odd n" and "unat s' \<le> unat s + 65536 * (n div 2)"
    and "rep (unat s' + (if odd n then first_weight be * unat c else 0)) (unat s + true_sum be (take n w))"
proof -
  let ?e = "n div 2 * 2"
  obtain s1 where s1: "cksum_tail be w False s c0 (int n) len = cksum_last be (drop (n div 8 * 8) w) False s1 c0 (int (n mod 8)) len"
    "unat s1 = unat s + true_sum be (take (n div 8 * 8) w)" using two_loops[OF assms, of be] by blast
  obtain s2 where s2: "cksum_while be 2 (drop (n div 8 * 8) w) (int (n mod 8)) (REDUCE s1) = Ret (drop ?e w, int (n mod 2) - 2, s2)"
    "rep (unat s2) (unat s + true_sum be (take ?e w))" "unat s2 \<le> unat s + 65536 * (n div 2)"
    using last_loop[OF assms s1(2)] by blast
  consider (z) "n mod 8 = 0" | (e) "n mod 8 \<noteq> 0" "even n" | (o) "n mod 8 \<noteq> 0" "odd n" by blast
  then show thesis
  proof cases
    case z
    then have n: "even n" "n div 8 * 8 = n" by presburger+
    have b: "2 * true_sum be (take n w) \<le> 65535 * n" by (rule true_sum_bound) (use n assms(1) in auto)
    show thesis by (rule that[of s1 0 c0]) (use s1 z n b in \<open>auto simp: cksum_last_def\<close>)
  next
    case e
    then have n: "?e = n" "n mod 2 = 0" by auto
    show thesis by (rule that[of s2 "-2" c0]) (use s1(1) e s2 n in \<open>auto simp: cksum_last_def\<close>)
  next
    case o
    then obtain b r where d: "drop ?e w = b # r" "take n w = take ?e w @ [b]" using odd_last[of n w] assms(1) by blast
    have ts: "true_sum be (take n w) = true_sum be (take ?e w) + first_weight be * unat b"
      unfolding d(2) using assms(1) by (simp add: wsum_append)
    have "n mod 2 = 1" using o(2) by presburger
    then show thesis
      by (intro that[of s2 "-1" b]) (use s1(1) o s2(1,3) d(1) ts rep_add[OF s2(2) rep_refl] in \<open>auto simp: cksum_last_def add.assoc\<close>)
  qed
qed

lemma cksum_tail_swapped:
  assumes "n \<le> length w" and "unat s + 32768 * n < 2 ^ 32"
  obtains s' m where "cksum_tail be w True s c0 (int n) len = Ret \<lparr>ck_sum = s', ck_mlen = m, ck_c0 = c0, ck_len = len\<rparr>"
    and "m = -1 \<longleftrightarrow> even n" and "unat s' \<le> 2 ^ 25"
    and "rep (unat s' + (if even n then first_weight be * unat c0 else 0)) (256 * unat s + first_weight be * unat c0 + swapped_sum be (take n w))"
proof -
  let ?e = "n div 2 * 2" and ?h = "\<lambda>s. push_bit 8 (REDUCE s)"
  obtain s1 where s1: "cksum_tail be w True s c0 (int n) len = cksum_last be (drop (n div 8 * 8) w) True s1 c0 (int (n mod 8)) len"
    "unat s1 = unat s + true_sum be (take (n div 8 * 8) w)" using two_loops[OF assms, of be] by blast
  obtain s2 where s2: "cksum_while be 2 (drop (n div 8 * 8) w) (int (n mod 8)) (REDUCE s1) = Ret (drop ?e w, int (n mod 2) - 2, s2)"
    "rep (unat s2) (unat s + true_sum be (take ?e w))"
    using last_loop[OF assms s1(2)] by blast
  have "rep (unat (?h s2)) (256 * unat s + 256 * true_sum be (take ?e w))"
    using rep_trans[OF swap_REDUCE(1) rep_mult[OF s2(2)]] by (simp add: distrib_left)
  then have h: "rep (unat (?h s2)) (256 * unat s + swapped_sum be (take ?e w))"
    using rep_trans[OF _ rep_add[OF rep_refl swap_rep(1)]] by blast
  show thesis
  proof (cases "even n")
    case True
    then have n: "?e = n" "n mod 2 = 0" by auto
    show thesis
      by (rule that[of "?h s2" "-1"]) (use s1(1) True s2(1) swap_REDUCE(2)[of s2] rep_add[OF h rep_refl[of "first_weight be * unat c0"]] n
          in \<open>auto simp: cksum_last_def ac_simps\<close>)
  next
    case False
    then obtain b r where d: "drop ?e w = b # r" "take n w = take ?e w @ [b]" using odd_last[of n w] assms(1) by blast
    have ts: "swapped_sum be (take n w) = swapped_sum be (take ?e w) + last_weight be * unat b"
      unfolding d(2) using assms(1) by (simp add: wsum_append)
    have u: "unat (?h s2 + half be c0 b) = unat (?h s2) + (first_weight be * unat c0 + last_weight be * unat b)"
      by (rule unat_add_bound) (use swap_REDUCE(2)[of s2] half_le[of be c0 b] in \<open>auto simp: unat_half\<close>)
    have "n mod 2 = 1" using False by presburger
    then show thesis
      by (intro that[of "?h s2 + half be c0 b" 0]) (use s1(1) False s2(1) d(1) ts u swap_REDUCE(2)[of s2] half_le[of be c0 b]
          rep_add[OF h rep_refl[of "first_weight be * unat c0 + last_weight be * unat b"]] in \<open>auto simp: cksum_last_def ac_simps\<close>)
  qed
qed

section \<open>One mbuf, and the chain\<close>

text \<open>The state after the bytes \<open>bs\<close>: the last byte of an odd number of them waits.\<close>

definition cks_inv :: "bool \<Rightarrow> byte list \<Rightarrow> cks \<Rightarrow> bool" where
  "cks_inv be bs st = ((ck_mlen st = -1 \<longleftrightarrow> odd (length bs))
     \<and> rep (unat (ck_sum st) + (if odd (length bs) then first_weight be * unat (ck_c0 st) else 0)) (true_sum be bs)
     \<and> unat (ck_sum st) \<le> 2 ^ 25 + 65536 * (length bs div 2))"

lemma cksum_body:
  assumes "even (length bs)" and "rep (unat sm) (true_sum be bs)" and "unat sm \<le> 2 ^ 25 + 65536 * (length bs div 2)"
    and "n \<le> length w" and "length bs + n \<le> 65535"
  shows "\<exists>st'. kbind (cksum_align odd_w w (int n) sm c0) (\<lambda>(w, swapped, sm, c0, mlen1). cksum_tail be w swapped sm c0 mlen1 len) = Ret st'
    \<and> cks_inv be (bs @ take n w) st' \<and> ck_len st' = len"
proof (cases "odd_w \<and> 0 < n")
  case False
  then have a: "cksum_align odd_w w (int n) sm c0 = Ret (w, False, sm, c0, int n)" by (auto simp: cksum_align_def)
  have b: "unat sm + 32768 * n < 2 ^ 32" using assms(3,5) by simp
  obtain s' m c where t: "cksum_tail be w False sm c0 (int n) len = Ret \<lparr>ck_sum = s', ck_mlen = m, ck_c0 = c, ck_len = len\<rparr>"
    "m = -1 \<longleftrightarrow> odd n" "unat s' \<le> unat sm + 65536 * (n div 2)"
    "rep (unat s' + (if odd n then first_weight be * unat c else 0)) (unat sm + true_sum be (take n w))"
    using cksum_tail_plain[OF assms(4) b] by blast
  have l: "(length bs + n) div 2 = length bs div 2 + n div 2" "odd (length bs + n) \<longleftrightarrow> odd n" using assms(1) by auto
  have "rep (unat s' + (if odd n then first_weight be * unat c else 0)) (true_sum be (bs @ take n w))"
    using rep_trans[OF t(4) rep_add[OF assms(2) rep_refl]] assms(1) by (simp add: wsum_append)
  then show ?thesis using t(1-3) assms(3,4) l by (auto simp: a cks_inv_def split: if_splits)
next
  case True
  then obtain b r k where w: "w = b # r" "n = Suc k" using assms(4) by (cases w; cases n) auto
  let ?s = "push_bit 8 (REDUCE sm)"
  have a: "cksum_align odd_w w (int n) sm c0 = Ret (r, True, ?s, b, int k)" using True by (simp add: cksum_align_def w)
  have u: "unat ?s + 32768 * k < 2 ^ 32" using swap_REDUCE(2)[of sm] assms(5) w(2) by simp
  have k: "k \<le> length r" using assms(4) w by simp
  obtain s' m where t: "cksum_tail be r True ?s b (int k) len = Ret \<lparr>ck_sum = s', ck_mlen = m, ck_c0 = b, ck_len = len\<rparr>"
    "m = -1 \<longleftrightarrow> even k" "unat s' \<le> 2 ^ 25"
    "rep (unat s' + (if even k then first_weight be * unat b else 0)) (256 * unat ?s + first_weight be * unat b + swapped_sum be (take k r))"
    using cksum_tail_swapped[OF k u] by blast
  have "rep (256 * unat ?s) (65536 * unat sm)" using rep_mult[OF swap_REDUCE(1)[of sm]] by simp
  then have "rep (256 * unat ?s) (true_sum be bs)" using rep_trans rep_shift assms(2) by blast
  then have "rep (256 * unat ?s + (first_weight be * unat b + swapped_sum be (take k r))) (true_sum be (bs @ take n w))"
    using rep_add[OF _ rep_refl] assms(1) by (simp add: wsum_append w)
  then have "rep (unat s' + (if even k then first_weight be * unat b else 0)) (true_sum be (bs @ take n w))"
    using rep_trans[OF t(4)] by (simp add: add.assoc)
  then show ?thesis unfolding a using t(1-3) assms(1) k by (auto simp: cks_inv_def w split: if_splits)
qed

lemma cksum_mbuf_spec:
  assumes "cks_inv be bs st" and "0 < ck_len st" and "length bs + length (take (nat (ck_len st)) (m_bytes m)) \<le> 65535"
  shows "\<exists>st'. cksum_mbuf be m st = Ret st' \<and> cks_inv be (bs @ take (nat (ck_len st)) (m_bytes m)) st'
    \<and> ck_len st' = ck_len st - int (length (take (nat (ck_len st)) (m_bytes m)))"
proof (cases "m_bytes m")
  case Nil
  then show ?thesis using assms(1) by (simp add: cksum_mbuf_def m_len_def)
next
  case (Cons b r)
  show ?thesis
  proof (cases "odd (length bs)")
    case False
    define n where "n = min (length (m_bytes m)) (nat (ck_len st))"
    have n: "(if ck_len st < m_len m then ck_len st else m_len m) = int n" "n \<le> length (m_bytes m)" "length bs + n \<le> 65535"
      using assms(2,3) by (auto simp: n_def m_len_def)
    have t: "take n (m_bytes m) = take (nat (ck_len st)) (m_bytes m)" by (simp add: n_def min_def)
    have i: "ck_mlen st \<noteq> -1" "rep (unat (ck_sum st)) (true_sum be bs)" "unat (ck_sum st) \<le> 2 ^ 25 + 65536 * (length bs div 2)"
      using assms(1) False by (auto simp: cks_inv_def)
    from cksum_body[OF _ i(2,3) n(2,3), of "odd (m_data m)" "ck_c0 st" "ck_len st - int n"] show ?thesis
      using False i(1) n(1) Cons t by (auto simp: cksum_mbuf_def cksum_join_def m_len_def n_def)
  next
    case True
    define n where "n = min (length r) (nat (ck_len st - 1))"
    let ?s = "ck_sum st + half be (ck_c0 st) b"
    have n: "(if ck_len st - 1 < m_len m - 1 then ck_len st - 1 else m_len m - 1) = int n" "n \<le> length r" "length (bs @ [b]) + n \<le> 65535"
      using assms(2,3) Cons by (auto simp: n_def m_len_def)
    have t: "b # take n r = take (nat (ck_len st)) (m_bytes m)" using assms(2) by (simp add: n_def min_def Cons take_Cons' nat_diff_distrib)
    have i: "ck_mlen st = -1" "rep (unat (ck_sum st) + first_weight be * unat (ck_c0 st)) (true_sum be bs)"
      "unat (ck_sum st) \<le> 2 ^ 25 + 65536 * (length bs div 2)"
      using assms(1) True by (auto simp: cks_inv_def)
    have u: "unat ?s = unat (ck_sum st) + (first_weight be * unat (ck_c0 st) + last_weight be * unat b)"
      by (rule unat_add_bound) (use i(3) n(3) half_le[of be "ck_c0 st" b] in \<open>auto simp: unat_half\<close>)
    have r1: "rep (unat ?s) (true_sum be (bs @ [b]))"
      using rep_add[OF i(2) rep_refl] True by (simp add: u wsum_append add.assoc)
    have r2: "unat ?s \<le> 2 ^ 25 + 65536 * (length (bs @ [b]) div 2)" using i(3) half_le[of be "ck_c0 st" b] True by (simp add: u)
    from cksum_body[OF _ r1 r2 n(2,3), of "even (m_data m)" "ck_c0 st" "ck_len st - 1 - int n"] show ?thesis
      using True i(1) n(1) Cons t by (auto simp: cksum_mbuf_def cksum_join_def m_len_def n_def)
  qed
qed

lemma cksum_loop_spec:
  assumes "cks_inv be bs st" and "0 \<le> ck_len st" and "length bs + length (take (nat (ck_len st)) (mdata c)) \<le> 65535"
  shows "\<exists>st'. cksum_loop be c st = Ret st' \<and> cks_inv be (bs @ take (nat (ck_len st)) (mdata c)) st'
    \<and> ck_len st' = ck_len st - int (length (take (nat (ck_len st)) (mdata c)))"
  using assms
proof (induction c arbitrary: bs st)
  case (Cons m c)
  show ?case
  proof (cases "ck_len st = 0")
    case False
    let ?n = "nat (ck_len st)"
    have "0 < ck_len st" "length bs + length (take ?n (m_bytes m)) \<le> 65535" using False Cons(3,4) by auto
    from cksum_mbuf_spec[OF Cons(2) this] obtain st1 where st1: "cksum_mbuf be m st = Ret st1" "cks_inv be (bs @ take ?n (m_bytes m)) st1"
      "ck_len st1 = ck_len st - int (length (take ?n (m_bytes m)))" by blast
    have l: "0 \<le> ck_len st1" "nat (ck_len st1) = ?n - length (m_bytes m)" using st1(3) Cons(3) by auto
    then have "length (bs @ take ?n (m_bytes m)) + length (take (nat (ck_len st1)) (mdata c)) \<le> 65535" using Cons(4) by simp
    from Cons(1)[OF st1(2) l(1) this] show ?thesis using False st1(1,3) l(2) by auto
  qed (use Cons(2) in simp)
qed simp

lemma oc_add_rep: "rep (oc_add x y) (x + y)" "x \<le> 65535 \<Longrightarrow> y \<le> 65535 \<Longrightarrow> oc_add x y \<le> 65535"
  by (auto simp: oc_add_def rep_def mod_if)

lemma words16_rep:
  "s \<le> 65535 \<Longrightarrow> rep (foldl oc_add s (words16 be bs)) (s + true_sum be bs) \<and> foldl oc_add s (words16 be bs) \<le> 65535"
proof (induction be bs arbitrary: s rule: words16.induct)
  case (2 be a)
  then show ?case using oc_add_rep[of s "first_weight be * unat a"] half_le[of be a 0] by (simp add: unat_half)
next
  case (3 be a b r)
  let ?h = "first_weight be * unat a + last_weight be * unat b"
  have "oc_add s ?h \<le> 65535" using oc_add_rep(2)[OF 3(2) half_le] .
  from 3(1)[OF this] show ?case using rep_trans[OF _ rep_add[OF oc_add_rep(1)[of s ?h] rep_refl]] by (auto simp: unat_half add.assoc)
qed simp

lemma NOT_low: "unat x \<le> 65535 \<Longrightarrow> NOT x AND 0xffff = of_nat (65535 - unat x)" for x :: u32
proof -
  assume x: "unat x \<le> 65535"
  have "unat (x mod 65536) = unat x" using x by (simp add: unat_mod)
  then have "x mod 65536 = x" by (simp only: word_unat_eq_iff)
  then have t: "take_bit 16 x = x" by (simp add: take_bit_eq_mod)
  have "NOT x AND 0xffff = take_bit 16 (NOT x)" by (simp add: take_bit_eq_mask mask_eq_exp_minus_1)
  also have "\<dots> = 65535 - x" unfolding take_bit_not_eq_mask_diff t by (simp add: mask_eq_exp_minus_1)
  also have "\<dots> = of_nat (65535 - unat x)" using x by (simp add: of_nat_diff)
  finally show ?thesis .
qed

lemma in_cksum_ref:
  assumes "0 \<le> len" and "length (take (nat len) (mdata c)) \<le> 65535"
  shows "in_cksum_c be c len = Ret (of_nat (cksum_ref be (take (nat len) (mdata c))), int (length (mdata c)) < len)"
proof -
  let ?bs = "take (nat len) (mdata c)"
  have "cks_inv be [] \<lparr>ck_sum = 0, ck_mlen = 0, ck_c0 = 0, ck_len = len\<rparr>" by (simp add: cks_inv_def)
  from cksum_loop_spec[OF this] assms obtain st where st: "cksum_loop be c \<lparr>ck_sum = 0, ck_mlen = 0, ck_c0 = 0, ck_len = len\<rparr> = Ret st"
    "cks_inv be ?bs st" "ck_len st = len - int (length ?bs)" by fastforce
  define sm where "sm = (if ck_mlen st = -1 then ck_sum st + half be (ck_c0 st) 0 else ck_sum st)"
  have "rep (unat sm) (true_sum be ?bs)"
  proof (cases "odd (length ?bs)")
    case True
    then have "unat (ck_sum st + half be (ck_c0 st) 0) = unat (ck_sum st) + first_weight be * unat (ck_c0 st)"
      by (intro unat_add_bound) (use st(2) assms(2) half_le[of be "ck_c0 st" 0] in \<open>auto simp: unat_half cks_inv_def\<close>)
    then show ?thesis using st(2) True by (simp add: cks_inv_def sm_def)
  next
    case False
    then show ?thesis using st(2) by (simp add: cks_inv_def sm_def)
  qed
  then have "unat (REDUCE sm) = foldl oc_add 0 (words16 be ?bs)"
    using rep_unique[OF rep_trans[OF REDUCE_rep(1)] _ REDUCE_rep(2)] words16_rep[of 0 be ?bs] by auto
  then have "NOT (REDUCE sm) AND 0xffff = of_nat (cksum_ref be ?bs)" using NOT_low[OF REDUCE_rep(2)[of sm]] by (simp add: cksum_ref_def)
  moreover have "ck_len st \<noteq> 0 \<longleftrightarrow> int (length (mdata c)) < len" using st(3) assms(1) by auto
  ultimately show ?thesis by (simp add: in_cksum_c_def st(1) sm_def Let_def)
qed

text \<open>(C10) For any chain, however its bytes are split among mbufs and wherever they are aligned, \<^verbatim>\<open>in_cksum_c\<close> returns the checksum
  of the first \<^verbatim>\<open>len\<close> bytes as RFC 1071 defines it, and complains exactly when the chain is shorter.
\<close>

theorem in_cksum_correct:
  assumes "0 \<le> len" and "length (take (nat len) (mdata c)) \<le> 65535"
  shows "in_cksum_c be c len = Ret (of_nat (cksum_ref be (take (nat len) (mdata c))), int (length (mdata c)) < len)"
  using assms by (rule in_cksum_ref)

text \<open>Five bytes in two mbufs of odd length, little-endian: the words 0x0045, 0x0403 and 0x0005.\<close>

theorem in_cksum_correct_witness:
  "in_cksum_c False [ex_mbuf [0x45, 0, 3], ex_mbuf [4, 5]] 5 = Ret (0xfbb2, False)"
  using in_cksum_correct[of 5 "[ex_mbuf [0x45, 0, 3], ex_mbuf [4, 5]]" False]
  by (simp add: ex_mbuf_simps mdata_def cksum_ref_def unat_half first_weight_def last_weight_def oc_add_def)

text \<open>(C12) What a receiver relies on: when the checksum of a packet, computed with its checksum field zero, is stored in that
  field, the routine gives zero over the packet received, whatever the chains on the two sides.
\<close>

theorem in_cksum_verifies:
  assumes "mdata c = pre @ [0, 0] @ post" and "mdata d = pre @ [a, b] @ post" and "even (length pre)"
    and "len = int (length (mdata c))" and "len \<le> 65535" and "in_cksum_c be c len = Ret (half be a b, e)"
  shows "in_cksum_c be d len = Ret (0, False)"
proof -
  let ?S = "foldl oc_add 0 (words16 be (mdata c))" and ?D = "foldl oc_add 0 (words16 be (mdata d))"
  have S: "rep ?S (true_sum be (mdata c))" "?S \<le> 65535" and D: "rep ?D (true_sum be (mdata d))" "?D \<le> 65535"
    using words16_rep[of 0 be "mdata c"] words16_rep[of 0 be "mdata d"] by auto
  have "half be a b = of_nat (65535 - ?S)"
    using in_cksum_ref[of len c be] assms(4-6) by (simp add: cksum_ref_def)
  then have "unat (half be a b) = 65535 - ?S" by (simp add: unat_of_nat take_bit_eq_mod)
  then have "true_sum be (mdata d) = true_sum be (mdata c) + (65535 - ?S)"
    using assms(1-3) by (simp add: wsum_append unat_half)
  then have "rep (true_sum be (mdata d)) (?S + (65535 - ?S))" using rep_add[OF rep_sym[OF S(1)] rep_refl] by simp
  then have "rep ?D 65535" using rep_trans[OF D(1)] S(2) by simp
  then have "?D = 65535" using rep_unique[OF _ rep_refl D(2)] by simp
  moreover have "length (mdata d) = nat len" using assms(1,2,4) by simp
  ultimately show ?thesis using in_cksum_ref[of len d be] assms(4,5) by (simp add: cksum_ref_def)
qed

theorem in_cksum_verifies_witness:
  "in_cksum_c False [ex_mbuf [0x45], ex_mbuf [0, 0xb7, 0xfb, 3, 4]] 6 = Ret (0, False)"
proof (rule in_cksum_verifies[where pre = "[0x45, 0]" and post = "[3, 4]" and c = "[ex_mbuf [0x45, 0, 0, 0, 3, 4]]" and e = False])
  show "in_cksum_c False [ex_mbuf [0x45, 0, 0, 0, 3, 4]] 6 = Ret (half False 0xb7 0xfb, False)"
    using in_cksum_ref[of 6 "[ex_mbuf [0x45, 0, 0, 0, 3, 4]]" False]
    by (simp add: ex_mbuf_simps mdata_def cksum_ref_def unat_half first_weight_def last_weight_def oc_add_def half_def)
qed (simp_all add: ex_mbuf_simps mdata_def)

end
