(* ===== verification/Callout.thy ===== *)
theory Callout
  imports Kernel_Prelude
begin

text \<open>
  Callouts, \<^verbatim>\<open>sys/kern/kern_clock.c\<close>: functions to be called a number of clock ticks from now.  \<^verbatim>\<open>calltodo\<close> is a list in which
  each time is the difference to the entry before, except that entries at the front that are due count their lateness.
  The specification is an agenda of absolute deadlines in order; the code refines it through every sequence of
  \<^verbatim>\<open>timeout\<close>, \<^verbatim>\<open>untimeout\<close>, clock ticks and \<^verbatim>\<open>softclock\<close>, whatever timeouts the called functions set and remove in turn.
\<close>

section \<open>The table\<close>

text \<open>Functions and their arguments are addresses.\<close>

record callout =
  c_time :: int
  c_arg :: nat
  c_func :: nat

record clock =
  calltodo :: "callout list"
  callfree :: "callout list"

text \<open>A result stored in an \<^verbatim>\<open>int\<close>.\<close>

definition int32 :: "int \<Rightarrow> int" where
  "int32 k = sint (of_int k :: u32)"

text \<open>At startup the whole table is free.\<close>

definition callout_init :: "nat \<Rightarrow> clock" where
  "callout_init n = \<lparr>calltodo = [], callfree = replicate n \<lparr>c_time = 0, c_arg = 0, c_func = 0\<rparr>\<rparr>"

section \<open>Setting and removing\<close>

text \<open>The walk of \<^verbatim>\<open>timeout\<close>, from the entry after \<^verbatim>\<open>p1\<close> on.\<close>

fun timeout_insert :: "callout \<Rightarrow> int \<Rightarrow> callout list \<Rightarrow> callout list" where
  "timeout_insert pnew t [] = [pnew\<lparr>c_time := t\<rparr>]"
| "timeout_insert pnew t (p2 # r) =
     (if c_time p2 < t
      then p2 # timeout_insert pnew (if c_time p2 > 0 then int32 (t - c_time p2) else t) r
      else pnew\<lparr>c_time := t\<rparr> # p2\<lparr>c_time := int32 (c_time p2 - t)\<rparr> # r)"

definition timeout :: "nat \<Rightarrow> nat \<Rightarrow> u32 \<Rightarrow> clock \<Rightarrow> clock kres" where
  "timeout func arg t0 s =
     (let t = (if sint t0 \<le> 0 then 1 else sint t0) in
      case callfree s of
        [] \<Rightarrow> Panic ''timeout table overflow''
      | pnew # fr \<Rightarrow> Ret (s\<lparr>callfree := fr, calltodo := timeout_insert (pnew\<lparr>c_arg := arg, c_func := func\<rparr>) t (calltodo s)\<rparr>))"

fun untimeout_scan :: "nat \<Rightarrow> nat \<Rightarrow> callout list \<Rightarrow> callout list \<times> callout option" where
  "untimeout_scan func arg [] = ([], None)"
| "untimeout_scan func arg (p2 # r) =
     (if c_func p2 = func \<and> c_arg p2 = arg
      then (case r of
              [] \<Rightarrow> []
            | nx # r1 \<Rightarrow> if c_time p2 > 0 then nx\<lparr>c_time := int32 (c_time nx + c_time p2)\<rparr> # r1 else r,
            Some p2)
      else let (r1, q) = untimeout_scan func arg r in (p2 # r1, q))"

definition untimeout :: "nat \<Rightarrow> nat \<Rightarrow> clock \<Rightarrow> clock" where
  "untimeout func arg s =
     (case untimeout_scan func arg (calltodo s) of
        (td, None) \<Rightarrow> s
      | (td, Some p2) \<Rightarrow> s\<lparr>calltodo := td, callfree := p2 # callfree s\<rparr>)"

section \<open>The clock\<close>

text \<open>The loop of \<^verbatim>\<open>hardclock\<close> over the queue, and \<^verbatim>\<open>needsoft\<close>.\<close>

fun hardclock_todo :: "callout list \<Rightarrow> callout list \<times> bool" where
  "hardclock_todo [] = ([], False)"
| "hardclock_todo (p1 # r) =
     (let p = p1\<lparr>c_time := int32 (c_time p1 - 1)\<rparr> in
      if c_time p > 0 then (p # r, False)
      else if c_time p = 0 then (p # r, True)
      else let (r1, b) = hardclock_todo r in (p # r1, True))"

text \<open>What a called function asks for.\<close>

datatype creq = Timeout nat nat u32 | Untimeout nat nat

primrec do_req :: "creq \<Rightarrow> clock \<Rightarrow> clock kres" where
  "do_req (Timeout f a t) s = timeout f a t s"
| "do_req (Untimeout f a) s = Ret (untimeout f a s)"

primrec do_reqs :: "creq list \<Rightarrow> clock \<Rightarrow> clock kres" where
  "do_reqs [] s = Ret s"
| "do_reqs (q # qs) s = kbind (do_req q s) (do_reqs qs)"

text \<open>
  \<^verbatim>\<open>softclock\<close>: \<open>call\<close> gives the requests of a called function, by the calls made before, the function, its argument and the
  lateness passed to it; the last argument collects the calls.
\<close>

type_synonym ccall = "nat \<times> nat \<times> int"

partial_function (option) softclock ::
    "(ccall list \<Rightarrow> ccall \<Rightarrow> creq list) \<Rightarrow> clock \<Rightarrow> ccall list \<Rightarrow> (clock \<times> ccall list) run" where
  "softclock call s calls =
     (case calltodo s of
        [] \<Rightarrow> rret (s, calls)
      | p1 # r \<Rightarrow>
          if c_time p1 > 0 then rret (s, calls)
          else let k = (c_func p1, c_arg p1, c_time p1) in
            (case do_reqs (call calls k) (s\<lparr>calltodo := r, callfree := p1 # callfree s\<rparr>) of
               Ret s1 \<Rightarrow> softclock call s1 (calls @ [k])
             | Panic e \<Rightarrow> Some (Panic e)
             | Fault \<Rightarrow> Some Fault))"

text \<open>Histories: requests from elsewhere in the kernel, ticks, and software clock interrupts.\<close>

datatype cop = Request creq | Hardclock | Softclock

primrec do_op :: "(ccall list \<Rightarrow> ccall \<Rightarrow> creq list) \<Rightarrow> cop \<Rightarrow> clock \<times> ccall list \<Rightarrow> (clock \<times> ccall list) run" where
  "do_op call (Request q) st = Some (kmap (\<lambda>s. (s, snd st)) (do_req q (fst st)))"
| "do_op call Hardclock st = rret ((fst st)\<lparr>calltodo := fst (hardclock_todo (calltodo (fst st)))\<rparr>, snd st)"
| "do_op call Softclock st = softclock call (fst st) (snd st)"

primrec do_ops :: "(ccall list \<Rightarrow> ccall \<Rightarrow> creq list) \<Rightarrow> cop list \<Rightarrow> clock \<times> ccall list \<Rightarrow> (clock \<times> ccall list) run" where
  "do_ops call [] st = rret st"
| "do_ops call (p # ps) st = rbind (do_op call p st) (do_ops call ps)"

section \<open>The agenda\<close>

text \<open>The time, and the deadlines in order with what is to be called.\<close>

record agenda =
  ag_now :: int
  ag_pend :: "(int \<times> nat \<times> nat) list"

text \<open>A new entry stands before the ones with the same deadline.\<close>

definition ag_insert :: "int \<times> nat \<times> nat \<Rightarrow> (int \<times> nat \<times> nat) list \<Rightarrow> (int \<times> nat \<times> nat) list" where
  "ag_insert e L = takeWhile (\<lambda>x. fst x < fst e) L @ e # dropWhile (\<lambda>x. fst x < fst e) L"

fun ag_remove :: "nat \<times> nat \<Rightarrow> (int \<times> nat \<times> nat) list \<Rightarrow> (int \<times> nat \<times> nat) list" where
  "ag_remove k [] = []"
| "ag_remove k (e # L) = (if snd e = k then L else e # ag_remove k L)"

primrec ag_req :: "nat \<Rightarrow> creq \<Rightarrow> agenda \<Rightarrow> agenda kres" where
  "ag_req n (Timeout f a t) g =
     (if length (ag_pend g) = n then Panic ''timeout table overflow''
      else Ret (g\<lparr>ag_pend := ag_insert (ag_now g + max 1 (sint t), f, a) (ag_pend g)\<rparr>))"
| "ag_req n (Untimeout f a) g = Ret (g\<lparr>ag_pend := ag_remove (f, a) (ag_pend g)\<rparr>)"

primrec ag_reqs :: "nat \<Rightarrow> creq list \<Rightarrow> agenda \<Rightarrow> agenda kres" where
  "ag_reqs n [] g = Ret g"
| "ag_reqs n (q # qs) g = kbind (ag_req n q g) (ag_reqs n qs)"

definition ag_due :: "agenda \<Rightarrow> nat" where
  "ag_due g = length (filter (\<lambda>e. fst e \<le> ag_now g) (ag_pend g))"

lemma ag_remove_filter: "length (filter P (ag_remove k L)) \<le> length (filter P L)"
  by (induction L) auto

lemma ag_insert_filter: "\<not> P e \<Longrightarrow> filter P (ag_insert e L) = filter P L"
  unfolding ag_insert_def using takeWhile_dropWhile_id[of "\<lambda>x. fst x < fst e" L]
  by (metis (no_types, lifting) filter.simps(2) filter_append)

lemma ag_req_due: "ag_req n q g = Ret g' \<Longrightarrow> ag_due g' \<le> ag_due g \<and> ag_now g' = ag_now g"
  by (cases q) (auto simp: ag_due_def ag_insert_filter ag_remove_filter split: if_splits)

lemma ag_reqs_due: "ag_reqs n qs g = Ret g' \<Longrightarrow> ag_due g' \<le> ag_due g \<and> ag_now g' = ag_now g"
proof (induction qs arbitrary: g)
  case (Cons q qs)
  from Cons(2) obtain g1 where g1: "ag_req n q g = Ret g1" "ag_reqs n qs g1 = Ret g'" by (simp only: ag_reqs.simps kbind_eq_Ret) blast
  from ag_req_due[OF g1(1)] Cons(1)[OF g1(2)] show ?case by simp
qed simp

text \<open>Whatever is due is called, with its lateness; what is set meanwhile is due later.\<close>

function ag_soft :: "nat \<Rightarrow> (ccall list \<Rightarrow> ccall \<Rightarrow> creq list) \<Rightarrow> agenda \<Rightarrow> ccall list \<Rightarrow> (agenda \<times> ccall list) kres" where
  "ag_soft n call g calls =
     (case ag_pend g of
        [] \<Rightarrow> Ret (g, calls)
      | e # L \<Rightarrow>
          if fst e > ag_now g then Ret (g, calls)
          else case ag_reqs n (call calls (fst (snd e), snd (snd e), fst e - ag_now g)) (g\<lparr>ag_pend := L\<rparr>) of
                 Ret g1 \<Rightarrow> ag_soft n call g1 (calls @ [(fst (snd e), snd (snd e), fst e - ag_now g)])
               | Panic x \<Rightarrow> Panic x
               | Fault \<Rightarrow> Fault)"
  by pat_completeness auto

termination
proof (relation "measure (\<lambda>(n, call, g, calls). ag_due g)", goal_cases)
  case (2 n call g calls e L g1)
  then have "ag_due g1 \<le> ag_due (g\<lparr>ag_pend := L\<rparr>)" using ag_reqs_due by blast
  also have "\<dots> < ag_due g" using 2 by (simp add: ag_due_def)
  finally show ?case by simp
qed simp

declare ag_soft.simps [simp del]

primrec ag_op :: "nat \<Rightarrow> (ccall list \<Rightarrow> ccall \<Rightarrow> creq list) \<Rightarrow> cop \<Rightarrow> agenda \<times> ccall list \<Rightarrow> (agenda \<times> ccall list) kres" where
  "ag_op n call (Request q) st = kmap (\<lambda>g. (g, snd st)) (ag_req n q (fst st))"
| "ag_op n call Hardclock st = Ret ((fst st)\<lparr>ag_now := ag_now (fst st) + 1\<rparr>, snd st)"
| "ag_op n call Softclock st = ag_soft n call (fst st) (snd st)"

primrec ag_ops :: "nat \<Rightarrow> (ccall list \<Rightarrow> ccall \<Rightarrow> creq list) \<Rightarrow> cop list \<Rightarrow> agenda \<times> ccall list \<Rightarrow> (agenda \<times> ccall list) kres" where
  "ag_ops n call [] st = Ret st"
| "ag_ops n call (p # ps) st = kbind (ag_op n call p st) (ag_ops n call ps)"

section \<open>The list as an agenda\<close>

text \<open>Ticks left for each entry; \<open>acc\<close> for the entry before, at least 0.\<close>

fun ticks_left :: "int \<Rightarrow> callout list \<Rightarrow> (int \<times> nat \<times> nat) list" where
  "ticks_left acc [] = []"
| "ticks_left acc (c # cs) = (acc + c_time c, c_func c, c_arg c) # ticks_left (max 0 (acc + c_time c)) cs"

text \<open>Behind an entry not yet due no time is negative, and everything fits an \<^verbatim>\<open>int\<close>.\<close>

fun deltas_ok :: "int \<Rightarrow> callout list \<Rightarrow> bool" where
  "deltas_ok acc [] = True"
| "deltas_ok acc (c # cs) = ((acc > 0 \<longrightarrow> c_time c \<ge> 0) \<and> - INT_MAX \<le> acc + c_time c \<and> acc + c_time c \<le> INT_MAX \<and> deltas_ok (max 0 (acc + c_time c)) cs)"

lemma int32_id: "- INT_MAX - 1 \<le> k \<Longrightarrow> k \<le> INT_MAX \<Longrightarrow> int32 k = k"
  unfolding int32_def by (rule sint_of_int_u32) (simp_all add: INT_MAX_def)

lemma ticks_left_ge: "0 < acc \<Longrightarrow> deltas_ok acc cs \<Longrightarrow> e \<in> set (ticks_left acc cs) \<Longrightarrow> acc \<le> fst e"
proof (induction cs arbitrary: acc)
  case (Cons c cs)
  then have "0 \<le> c_time c" "max 0 (acc + c_time c) = acc + c_time c" by auto
  then show ?case using Cons(1)[of "acc + c_time c"] Cons(2-4) by auto
qed simp

lemma length_ticks_left [simp]: "length (ticks_left acc cs) = length cs"
  by (induction cs arbitrary: acc) auto

lemma timeout_insert_spec:
  assumes "0 \<le> acc" and "1 \<le> t" and "acc + t \<le> INT_MAX" and "deltas_ok acc cs"
  shows "ticks_left acc (timeout_insert new t cs) = ag_insert (acc + t, c_func new, c_arg new) (ticks_left acc cs)
    \<and> deltas_ok acc (timeout_insert new t cs)"
  using assms
proof (induction cs arbitrary: acc t)
  case Nil
  then show ?case by (simp add: ag_insert_def)
next
  case (Cons p r)
  show ?case
  proof (cases "c_time p < t")
    case True
    define t1 where "t1 = (if c_time p > 0 then t - c_time p else t)"
    have i: "(if c_time p > 0 then int32 (t - c_time p) else t) = t1"
      unfolding t1_def using Cons(2-5) True by (auto intro!: int32_id)
    have a: "max 0 (acc + c_time p) + t1 = acc + t" "1 \<le> t1" using Cons(2,3,5) True by (auto simp: t1_def)
    from Cons(1)[of "max 0 (acc + c_time p)" t1] Cons(4,5) a show ?thesis using True by (simp add: i ag_insert_def)
  next
    case False
    have "int32 (c_time p - t) = c_time p - t" using Cons(2-5) False by (intro int32_id) (auto simp: INT_MAX_def)
    then show ?thesis using Cons(2-5) False by (simp add: ag_insert_def INT_MAX_def)
  qed
qed

lemma untimeout_scan_spec:
  assumes "0 \<le> acc" and "deltas_ok acc cs"
  shows "ticks_left acc (fst (untimeout_scan f a cs)) = ag_remove (f, a) (ticks_left acc cs) \<and> deltas_ok acc (fst (untimeout_scan f a cs))"
    and "(snd (untimeout_scan f a cs) = None \<longrightarrow> fst (untimeout_scan f a cs) = cs)
      \<and> (snd (untimeout_scan f a cs) \<noteq> None \<longrightarrow> Suc (length (fst (untimeout_scan f a cs))) = length cs)"
proof -
  show "ticks_left acc (fst (untimeout_scan f a cs)) = ag_remove (f, a) (ticks_left acc cs) \<and> deltas_ok acc (fst (untimeout_scan f a cs))"
    using assms
  proof (induction cs arbitrary: acc)
    case (Cons p r)
    show ?case
    proof (cases "c_func p = f \<and> c_arg p = a")
      case False
      then show ?thesis using Cons(1)[of "max 0 (acc + c_time p)"] Cons(3) by (auto split: prod.splits)
    next
      case True
      show ?thesis
      proof (cases r)
        case (Cons nx r1)
        have "int32 (c_time nx + c_time p) = c_time nx + c_time p" if "c_time p > 0"
          using that Cons.prems Cons by (intro int32_id) auto
        moreover have "max 0 (acc + c_time p) = acc" if "\<not> c_time p > 0" using that Cons.prems by auto
        ultimately show ?thesis using True Cons Cons.prems by (auto simp: add.commute add.left_commute max_def)
      qed (use True in simp)
    qed
  qed simp
  show "(snd (untimeout_scan f a cs) = None \<longrightarrow> fst (untimeout_scan f a cs) = cs)
      \<and> (snd (untimeout_scan f a cs) \<noteq> None \<longrightarrow> Suc (length (fst (untimeout_scan f a cs))) = length cs)"
  proof (induction cs)
    case (Cons p r)
    show ?case
    proof (cases "c_func p = f \<and> c_arg p = a")
      case True
      then show ?thesis by (cases r) simp_all
    next
      case False
      obtain r1 q where "untimeout_scan f a r = (r1, q)" by (cases "untimeout_scan f a r")
      then show ?thesis using Cons False by auto
    qed
  qed simp
qed

lemma ticks_left_dec:
  "0 \<le> acc \<Longrightarrow> deltas_ok (acc + 1) cs \<Longrightarrow> ticks_left acc cs = map (apfst (\<lambda>k. k - 1)) (ticks_left (acc + 1) cs) \<and> deltas_ok acc cs"
proof (induction cs arbitrary: acc)
  case (Cons c cs)
  have "max 0 (acc + 1 + c_time c) = max 0 (acc + c_time c) + 1" using Cons(2,3) by auto
  then show ?case using Cons(1)[of "max 0 (acc + c_time c)"] Cons(2,3) by (auto simp: INT_MAX_def algebra_simps)
qed simp

lemma hardclock_todo_spec:
  assumes "deltas_ok 0 cs" and "\<And>e. e \<in> set (ticks_left 0 cs) \<Longrightarrow> - INT_MAX < fst e"
  shows "ticks_left 0 (fst (hardclock_todo cs)) = map (apfst (\<lambda>k. k - 1)) (ticks_left 0 cs) \<and> deltas_ok 0 (fst (hardclock_todo cs))
    \<and> (snd (hardclock_todo cs) \<longleftrightarrow> (\<exists>e \<in> set (ticks_left 0 cs). fst e \<le> 1))"
  using assms
proof (induction cs)
  case (Cons p r)
  have b: "- INT_MAX < c_time p" using Cons(3)[of "(c_time p, c_func p, c_arg p)"] by simp
  then have i: "int32 (c_time p - 1) = c_time p - 1" using Cons(2) by (intro int32_id) auto
  show ?case
  proof (cases "c_time p - 1 \<ge> 0")
    case True
    have d: "deltas_ok (c_time p) r" using Cons(2) True by (simp add: max_def)
    have "\<not> (\<exists>e \<in> set (ticks_left (c_time p) r). fst e < c_time p)" using ticks_left_ge[OF _ d] True by fastforce
    then show ?thesis using ticks_left_dec[of "c_time p - 1" r] d True Cons(2) b i by (fastforce simp: max_def Let_def)
  next
    case False
    have m: "max 0 (c_time p) = 0" "max 0 (c_time p - 1) = 0" using False by auto
    have "\<And>e. e \<in> set (ticks_left 0 r) \<Longrightarrow> - INT_MAX < fst e" using Cons(3) m by auto
    then show ?thesis using Cons(1,2) False b i m by (auto simp: Let_def split: prod.splits)
  qed
qed simp

section \<open>Refinement\<close>

definition callouts_as :: "nat \<Rightarrow> agenda \<Rightarrow> clock \<Rightarrow> bool" where
  "callouts_as n g s = (deltas_ok 0 (calltodo s) \<and> map (apfst ((+) (ag_now g))) (ticks_left 0 (calltodo s)) = ag_pend g
     \<and> length (calltodo s) + length (callfree s) = n \<and> 0 \<le> ag_now g \<and> (\<forall>e \<in> set (ag_pend g). 1 \<le> fst e))"

text \<open>Same outcome, and results in relation.\<close>

definition sim :: "('a \<Rightarrow> 'b \<Rightarrow> bool) \<Rightarrow> 'a kres \<Rightarrow> 'b kres \<Rightarrow> bool" where
  "sim R a b = (case a of Ret x \<Rightarrow> (\<exists>y. b = Ret y \<and> R x y) | Panic e \<Rightarrow> b = Panic e | Fault \<Rightarrow> b = Fault)"

lemma sim_simps [simp]: "sim R (Ret x) b \<longleftrightarrow> (\<exists>y. b = Ret y \<and> R x y)" "sim R (Panic e) b \<longleftrightarrow> b = Panic e" "sim R Fault b \<longleftrightarrow> b = Fault"
  by (simp_all add: sim_def)

lemma sim_kbind: "sim R a b \<Longrightarrow> (\<And>x y. R x y \<Longrightarrow> sim Q (f x) (h y)) \<Longrightarrow> sim Q (kbind a f) (kbind b h)"
  by (cases a) auto

lemma ag_insert_map: "map (apfst ((+) c)) (ag_insert (k, e) L) = ag_insert (c + k, e) (map (apfst ((+) c)) L)"
  by (simp add: ag_insert_def takeWhile_map dropWhile_map comp_def)

lemma ag_remove_map: "map (apfst ((+) c)) (ag_remove k L) = ag_remove k (map (apfst ((+) c)) L)"
  by (induction L) auto

lemma set_ag_insert: "set (ag_insert e L) = insert e (set L)"
proof -
  have "set L = set (takeWhile (\<lambda>x. fst x < fst e) L) \<union> set (dropWhile (\<lambda>x. fst x < fst e) L)"
    by (metis set_append takeWhile_dropWhile_id)
  then show ?thesis by (auto simp: ag_insert_def)
qed

lemma set_ag_remove: "set (ag_remove k L) \<subseteq> set L"
  by (induction L) auto

lemma length_timeout_insert [simp]: "length (timeout_insert new t cs) = Suc (length cs)"
  by (induction cs arbitrary: t) auto

lemma length_as: "callouts_as n g s \<Longrightarrow> length (ag_pend g) = length (calltodo s)"
  by (metis callouts_as_def length_map length_ticks_left)

lemma req_sim:
  assumes "callouts_as n g s"
  shows "sim (callouts_as n) (ag_req n q g) (do_req q s)"
proof (cases q)
  case (Timeout f a t)
  define t1 where "t1 = max 1 (sint t)"
  have t1: "(if sint t \<le> 0 then 1 else sint t) = t1" "1 \<le> t1" by (auto simp: t1_def)
  have "sint t < 2 ^ 31" using sint_lt[of t] by simp
  then have le: "0 + t1 \<le> INT_MAX" by (simp add: t1_def INT_MAX_def)
  show ?thesis
  proof (cases "callfree s")
    case Nil
    then have "length (ag_pend g) = n" using assms length_as[OF assms] by (simp add: callouts_as_def)
    then show ?thesis using Nil by (simp add: Timeout timeout_def)
  next
    case (Cons c fr)
    have "length (ag_pend g) \<noteq> n" using assms length_as[OF assms] Cons by (simp add: callouts_as_def)
    moreover have d: "deltas_ok 0 (calltodo s)" using assms by (simp add: callouts_as_def)
    note timeout_insert_spec[OF order_refl t1(2) le d, of "c\<lparr>c_arg := a, c_func := f\<rparr>"]
    ultimately show ?thesis
      using assms Cons by (simp add: Timeout timeout_def Let_def t1(1) t1_def[symmetric] callouts_as_def ag_insert_map set_ag_insert)
        (use t1(2) in linarith)
  qed
next
  case (Untimeout f a)
  have d: "deltas_ok 0 (calltodo s)" using assms by (simp add: callouts_as_def)
  obtain td r where u: "untimeout_scan f a (calltodo s) = (td, r)" by (cases "untimeout_scan f a (calltodo s)")
  have *: "ticks_left 0 td = ag_remove (f, a) (ticks_left 0 (calltodo s))" "deltas_ok 0 td"
    "r = None \<Longrightarrow> td = calltodo s" "r \<noteq> None \<Longrightarrow> Suc (length td) = length (calltodo s)"
    using untimeout_scan_spec[OF order_refl d, of f a] u by auto
  have p: "map (apfst ((+) (ag_now g))) (ticks_left 0 td) = ag_remove (f, a) (ag_pend g)"
    using assms by (simp add: *(1) ag_remove_map callouts_as_def)
  have m: "\<forall>e \<in> set (ag_remove (f, a) (ag_pend g)). 1 \<le> fst e"
    using assms set_ag_remove[of "(f, a)" "ag_pend g"] by (auto simp: callouts_as_def)
  show ?thesis
  proof (cases r)
    case None
    then show ?thesis using *(3)[OF None] p m assms u by (simp add: Untimeout untimeout_def callouts_as_def)
  next
    case (Some c)
    then show ?thesis using *(2,4) p m assms u by (simp add: Untimeout untimeout_def callouts_as_def)
  qed
qed

lemma reqs_sim: "callouts_as n g s \<Longrightarrow> sim (callouts_as n) (ag_reqs n qs g) (do_reqs qs s)"
  by (induction qs arbitrary: g s) (auto intro!: sim_kbind[OF req_sim])

lemma soft_sim:
  assumes "callouts_as n g s"
  shows "\<exists>r. softclock call s calls = Some r \<and> sim (\<lambda>(g, c) (s, d). callouts_as n g s \<and> c = d) (ag_soft n call g calls) r"
  using assms
proof (induction n call g calls arbitrary: s rule: ag_soft.induct)
  case (1 n call g calls)
  show ?case
  proof (cases "calltodo s")
    case Nil
    then have "ag_pend g = []" using 1(2) by (simp add: callouts_as_def)
    then show ?thesis using Nil 1(2) by (subst softclock.simps, subst ag_soft.simps) (simp add: rret_def)
  next
    case (Cons c r)
    define L where "L = map (apfst ((+) (ag_now g))) (ticks_left (max 0 (c_time c)) r)"
    have pend: "ag_pend g = (ag_now g + c_time c, c_func c, c_arg c) # L" using 1(2) Cons by (auto simp: callouts_as_def L_def)
    show ?thesis
    proof (cases "c_time c > 0")
      case True
      then show ?thesis using Cons 1(2) pend by (subst softclock.simps, subst ag_soft.simps) (simp add: rret_def)
    next
      case False
      let ?k = "(c_func c, c_arg c, c_time c)" and ?s = "s\<lparr>calltodo := r, callfree := c # callfree s\<rparr>"
      have "max 0 (c_time c) = 0" using False by simp
      then have "callouts_as n (g\<lparr>ag_pend := L\<rparr>) ?s" using 1(2) Cons pend by (auto simp: callouts_as_def L_def)
      then have q: "sim (callouts_as n) (ag_reqs n (call calls ?k) (g\<lparr>ag_pend := L\<rparr>)) (do_reqs (call calls ?k) ?s)" by (rule reqs_sim)
      show ?thesis
      proof (cases "ag_reqs n (call calls ?k) (g\<lparr>ag_pend := L\<rparr>)")
        case (Ret g1)
        then obtain s1 where s1: "do_reqs (call calls ?k) ?s = Ret s1" "callouts_as n g1 s1" using q by auto
        from 1(1)[OF pend _ _ s1(2)] False Ret have
          "\<exists>r. softclock call s1 (calls @ [?k]) = Some r \<and> sim (\<lambda>(g, c) (s, d). callouts_as n g s \<and> c = d) (ag_soft n call g1 (calls @ [?k])) r"
          by simp
        moreover have "softclock call s calls = softclock call s1 (calls @ [?k])"
          using Cons False s1(1) by (subst softclock.simps) (simp add: Let_def)
        moreover have "ag_soft n call g calls = ag_soft n call g1 (calls @ [?k])"
          using pend False Ret by (subst ag_soft.simps) simp
        ultimately show ?thesis by simp
      next
        case (Panic x)
        then show ?thesis using q Cons False pend by (subst softclock.simps, subst ag_soft.simps) (simp add: Let_def)
      next
        case Fault
        then show ?thesis using q Cons False pend by (subst softclock.simps, subst ag_soft.simps) (simp add: Let_def)
      qed
    qed
  qed
qed

lemma ag_soft_induct:
  assumes "ag_soft n call g calls = Ret (g', c')" and "P g"
    and "\<And>m g g1 e L qs. P g \<Longrightarrow> ag_pend g = e # L \<Longrightarrow> ag_reqs m qs (g\<lparr>ag_pend := L\<rparr>) = Ret g1 \<Longrightarrow> P g1"
  shows "P g'"
  using assms(1,2)
proof (induction n call g calls rule: ag_soft.induct)
  case (1 n call g calls)
  show ?case
  proof (cases "ag_pend g")
    case Nil
    then show ?thesis using 1(2,3) by (subst (asm) ag_soft.simps) simp
  next
    case (Cons e L)
    let ?k = "(fst (snd e), snd (snd e), fst e - ag_now g)"
    show ?thesis
    proof (cases "fst e > ag_now g")
      case True
      then show ?thesis using 1(2,3) Cons by (subst (asm) ag_soft.simps) simp
    next
      case False
      then obtain g1 where g1: "ag_reqs n (call calls ?k) (g\<lparr>ag_pend := L\<rparr>) = Ret g1"
        "ag_soft n call g1 (calls @ [?k]) = Ret (g', c')"
        using 1(2) Cons by (subst (asm) ag_soft.simps) (auto split: kres.splits)
      show ?thesis using 1(1)[OF Cons False g1(1) g1(2)] assms(3)[OF 1(3) Cons g1(1)] by simp
    qed
  qed
qed

lemma ag_soft_now: "ag_soft n call g calls = Ret (g', c') \<Longrightarrow> ag_now g' = ag_now g"
  by (rule ag_soft_induct[where P = "\<lambda>x. ag_now x = ag_now g"]) (auto dest: ag_reqs_due)

lemma ag_op_now: "ag_op n call p st = Ret st' \<Longrightarrow> ag_now (fst st') = ag_now (fst st) + (if p = Hardclock then 1 else 0)"
  by (cases p; cases st') (auto simp: ag_req_due dest: ag_soft_now)

lemma ag_ops_now: "ag_ops n call ps st = Ret st' \<Longrightarrow> ag_now (fst st') = ag_now (fst st) + int (count_list ps Hardclock)"
proof (induction ps arbitrary: st)
  case (Cons p ps)
  from Cons(2) obtain st1 where "ag_op n call p st = Ret st1" "ag_ops n call ps st1 = Ret st'" by (simp only: ag_ops.simps kbind_eq_Ret) blast
  from Cons(1)[OF this(2)] ag_op_now[OF this(1)] show ?case by simp
qed simp

abbreviation clock_as :: "nat \<Rightarrow> agenda \<times> ccall list \<Rightarrow> clock \<times> ccall list \<Rightarrow> bool" where
  "clock_as n \<equiv> \<lambda>(g, c) (s, d). callouts_as n g s \<and> c = d"

lemma op_sim:
  assumes "callouts_as n g s" and "p = Hardclock \<Longrightarrow> ag_now g < INT_MAX"
  shows "\<exists>r. do_op call p (s, c) = Some r \<and> sim (clock_as n) (ag_op n call p (g, c)) r"
proof (cases p)
  case (Request q)
  show ?thesis using req_sim[OF assms(1), of q] by (cases "ag_req n q g") (auto simp: Request)
next
  case Softclock
  then show ?thesis using soft_sim[OF assms(1)] by simp
next
  case Hardclock
  have d: "deltas_ok 0 (calltodo s)" using assms(1) by (simp add: callouts_as_def)
  have b: "- INT_MAX < fst e" if "e \<in> set (ticks_left 0 (calltodo s))" for e
  proof -
    have "apfst ((+) (ag_now g)) e \<in> set (ag_pend g)" using imageI[OF that, of "apfst ((+) (ag_now g))"] assms(1) by (metis callouts_as_def set_map)
    then have "1 \<le> ag_now g + fst e" using assms(1) by (fastforce simp: callouts_as_def)
    then show ?thesis using assms(2)[OF Hardclock] by linarith
  qed
  have l: "length (fst (hardclock_todo cs)) = length cs" for cs by (induction cs) (auto simp: Let_def split: prod.splits)
  have m: "apfst ((+) (ag_now g + 1)) \<circ> apfst (\<lambda>k. k - 1) = apfst ((+) (ag_now g))" for k :: int by auto
  from hardclock_todo_spec[OF d b] show ?thesis using assms(1) by (simp add: Hardclock rret_def callouts_as_def l m)
qed

lemma ops_sim:
  assumes "callouts_as n g s" and "ag_now g + int (count_list ps Hardclock) \<le> INT_MAX"
  shows "\<exists>r. do_ops call ps (s, c) = Some r \<and> sim (clock_as n) (ag_ops n call ps (g, c)) r"
  using assms
proof (induction ps arbitrary: g s c)
  case (Cons p ps)
  obtain r where r: "do_op call p (s, c) = Some r" "sim (clock_as n) (ag_op n call p (g, c)) r"
    using op_sim[OF Cons(2), of p call c] Cons(3) by (cases "p = Hardclock") auto
  show ?case
  proof (cases "ag_op n call p (g, c)")
    case (Ret st)
    obtain g1 c1 where st: "st = (g1, c1)" by (cases st)
    obtain s1 where s1: "r = Ret (s1, c1)" "callouts_as n g1 s1" using r(2) Ret by (auto simp: st)
    have "ag_now g1 + int (count_list ps Hardclock) \<le> INT_MAX" using ag_op_now[OF Ret] Cons(3) by (auto simp: st split: if_splits)
    from Cons(1)[OF s1(2) this] show ?thesis using r(1) Ret s1(1) by (simp add: st)
  qed (use r in simp_all)
qed (simp add: rret_def)

lemma init_as: "callouts_as n \<lparr>ag_now = 0, ag_pend = []\<rparr> (callout_init n)"
  by (simp add: callouts_as_def callout_init_def)

section \<open>Deadlines stay in order\<close>

lemma ag_insert_sorted: "sorted (map fst L) \<Longrightarrow> sorted (map fst (ag_insert e L))"
  unfolding ag_insert_def
proof (induction L)
  case (Cons x L)
  then show ?case by (cases "fst x < fst e") (auto dest: set_takeWhileD, force dest!: set_dropWhileD)
qed simp

lemma ag_remove_sorted: "sorted (map fst L) \<Longrightarrow> sorted (map fst (ag_remove k L))"
proof (induction L)
  case (Cons e L)
  then show ?case using set_ag_remove[of k L] by auto
qed simp

lemma ag_reqs_sorted: "ag_reqs n qs g = Ret g' \<Longrightarrow> sorted (map fst (ag_pend g)) \<Longrightarrow> sorted (map fst (ag_pend g'))"
proof (induction qs arbitrary: g)
  case (Cons q qs)
  then show ?case by (cases q) (auto simp: ag_insert_sorted ag_remove_sorted split: if_splits)
qed simp

lemma ag_soft_sorted: "ag_soft n call g calls = Ret (g', c') \<Longrightarrow> sorted (map fst (ag_pend g)) \<Longrightarrow> sorted (map fst (ag_pend g'))"
  by (erule ag_soft_induct, assumption) (erule ag_reqs_sorted, simp)

lemma ag_op_sorted: "ag_op n call p st = Ret st' \<Longrightarrow> sorted (map fst (ag_pend (fst st))) \<Longrightarrow> sorted (map fst (ag_pend (fst st')))"
  using ag_reqs_sorted[where qs = "[q]" for q] by (cases p; cases st') (auto dest: ag_soft_sorted)

lemma ag_ops_sorted: "ag_ops n call ps st = Ret st' \<Longrightarrow> sorted (map fst (ag_pend (fst st))) \<Longrightarrow> sorted (map fst (ag_pend (fst st')))"
  by (induction ps arbitrary: st) (auto dest: ag_op_sorted)

text \<open>When the functions called ask for nothing, exactly what is due is called, in order.\<close>

lemma ag_soft_quiet:
  "sorted (map fst (ag_pend g)) \<Longrightarrow> \<exists>g'. ag_soft n (\<lambda>_ _. []) g calls = Ret (g', calls @
     map (\<lambda>e. (fst (snd e), snd (snd e), fst e - ag_now g)) (filter (\<lambda>e. fst e \<le> ag_now g) (ag_pend g)))"
proof (induction "ag_pend g" arbitrary: g calls)
  case Nil
  then show ?case by (subst ag_soft.simps) simp
next
  case (Cons e L)
  note p = Cons(2)[symmetric]
  show ?case
  proof (cases "fst e > ag_now g")
    case True
    then have "filter (\<lambda>e. fst e \<le> ag_now g) (ag_pend g) = []" using Cons(3) by (force simp: p filter_empty_conv)
    then show ?thesis using True by (subst ag_soft.simps) (simp add: p)
  next
    case False
    have "\<exists>g'. ag_soft n (\<lambda>_ _. []) (g\<lparr>ag_pend := L\<rparr>) c = Ret (g', c @
        map (\<lambda>e. (fst (snd e), snd (snd e), fst e - ag_now g)) (filter (\<lambda>e. fst e \<le> ag_now g) L))" for c
      using Cons(1)[of "g\<lparr>ag_pend := L\<rparr>" c] Cons(3) by (simp add: p)
    from this[of "calls @ [(fst (snd e), snd (snd e), fst e - ag_now g)]"] show ?thesis
      using False by (subst ag_soft.simps) (simp add: p)
  qed
qed

lemma ag_ops_append: "ag_ops n call (ps @ qs) st = kbind (ag_ops n call ps st) (ag_ops n call qs)"
proof (induction ps arbitrary: st)
  case (Cons p ps)
  then show ?case by (cases "ag_op n call p st") simp_all
qed simp

lemma ag_ticks: "ag_ops n call (replicate k Hardclock) (g, c) = Ret (g\<lparr>ag_now := ag_now g + int k\<rparr>, c)"
  by (induction k arbitrary: g) (simp_all add: add.assoc)

section \<open>Time of day to ticks\<close>

text \<open>A division by zero traps.\<close>

definition hzto :: "int \<Rightarrow> int \<Rightarrow> int \<times> int \<Rightarrow> int \<times> int \<Rightarrow> int kres" where
  "hzto hz tick time tv =
     (let sec = int32 (fst tv - fst time) in
      if sec \<le> c_div 0x7fffffff 1000 - 1000
      then if c_div tick 1000 = 0 then Fault
           else Ret (c_div (int32 (int32 (sec * 1000) + c_div (int32 (snd tv - snd time)) 1000)) (c_div tick 1000))
      else if hz = 0 then Fault
      else if sec \<le> c_div 0x7fffffff hz then Ret (int32 (sec * hz))
      else Ret 0x7fffffff)"

section \<open>Properties\<close>

text \<open>(C7) The callout table refines the agenda of absolute deadlines: through any sequence of requests, ticks and software
  clock interrupts, whatever timeouts the called functions set and remove, every operation returns, the same functions are called in the
  same order with the same lateness, the table overflows exactly when all its entries are pending, and no time leaves the range of \<^verbatim>\<open>int\<close>.\<close>

theorem callouts_refine:
  assumes "int (count_list ops Hardclock) \<le> INT_MAX"
  shows "\<exists>r. do_ops call ops (callout_init n, []) = Some r
    \<and> sim (clock_as n) (ag_ops n call ops (\<lparr>ag_now = 0, ag_pend = []\<rparr>, [])) r"
  using ops_sim[OF init_as] assms by simp

theorem callouts_refine_witness:
  "\<exists>s. do_ops (\<lambda>c k. if k = (7, 8, 0) then [Timeout 7 9 1, Untimeout 5 5] else [])
     [Request (Timeout 7 8 2), Request (Timeout 5 5 2), Request (Untimeout 5 5), Hardclock, Hardclock, Softclock, Hardclock, Hardclock, Softclock]
     (callout_init 2, []) = Some (Ret (s, [(7, 8, 0), (7, 9, -1)]))"
  using callouts_refine[of "[Request (Timeout 7 8 2), Request (Timeout 5 5 2), Request (Untimeout 5 5), Hardclock, Hardclock, Softclock, Hardclock, Hardclock, Softclock]"
    "\<lambda>c k. if k = (7, 8, 0) then [Timeout 7 9 1, Untimeout 5 5] else []" 2]
  by (auto simp: INT_MAX_def ag_soft.simps ag_insert_def simp del: do_ops.simps)

text \<open>(C8) A timeout comes neither early nor late: set in any state the kernel can reach, for \<^verbatim>\<open>t\<close> ticks (at least one), it is called by
  the software clock after \<open>k\<close> ticks exactly when \<open>k\<close> is at least \<^verbatim>\<open>t\<close>, with the ticks it is late; calls are made in the order of their
  deadlines.\<close>

theorem timeout_on_time:
  assumes "do_ops call ops (callout_init n, []) = Some (Ret (s, calls))" and "timeout f a t s = Ret s1"
    and "int (count_list ops Hardclock) + int k \<le> INT_MAX"
  shows "\<exists>s2 c. do_ops (\<lambda>_ _. []) (replicate k Hardclock @ [Softclock]) (s1, []) = Some (Ret (s2, c))
    \<and> ((f, a, max 1 (sint t) - int k) \<in> set c \<longleftrightarrow> max 1 (sint t) \<le> int k) \<and> sorted (map (snd \<circ> snd) c)"
proof -
  let ?T = "max 1 (sint t)"
  obtain g where g: "ag_ops n call ops (\<lparr>ag_now = 0, ag_pend = []\<rparr>, []) = Ret (g, calls)" "callouts_as n g s"
    using ops_sim[OF init_as, where ps = ops and n = n and call = call and c = "[]"] assms(1,3)
    by (cases "ag_ops n call ops (\<lparr>ag_now = 0, ag_pend = []\<rparr>, [])") auto
  have sg: "sorted (map fst (ag_pend g))" using ag_ops_sorted[OF g(1)] by simp
  obtain g1 where g1: "ag_req n (Timeout f a t) g = Ret g1" "callouts_as n g1 s1"
    using req_sim[OF g(2), of "Timeout f a t"] assms(2) by (cases "ag_req n (Timeout f a t) g") auto
  then have p: "ag_pend g1 = ag_insert (ag_now g + ?T, f, a) (ag_pend g)" "ag_now g1 = ag_now g" by (auto split: if_splits)
  have nw: "ag_now g = int (count_list ops Hardclock)" using ag_ops_now[OF g(1)] by simp
  let ?g = "g1\<lparr>ag_now := ag_now g + int k\<rparr>"
  have "sorted (map fst (ag_pend ?g))" using ag_insert_sorted[OF sg] p by simp
  from ag_soft_quiet[OF this, of n "[]"] obtain g2 where g2: "ag_ops n (\<lambda>_ _. []) (replicate k Hardclock @ [Softclock]) (g1, []) =
      Ret (g2, map (\<lambda>e. (fst (snd e), snd (snd e), fst e - ag_now ?g)) (filter (\<lambda>e. fst e \<le> ag_now ?g) (ag_pend g1)))"
    by (auto simp: ag_ops_append ag_ticks p(2))
  let ?c = "map (\<lambda>e. (fst (snd e), snd (snd e), fst e - ag_now ?g)) (filter (\<lambda>e. fst e \<le> ag_now ?g) (ag_pend g1))"
  have ct: "count_list (replicate k Hardclock) Hardclock = k" by (induction k) auto
  obtain s2 where s2: "do_ops (\<lambda>_ _. []) (replicate k Hardclock @ [Softclock]) (s1, []) = Some (Ret (s2, ?c))"
    using ops_sim[OF g1(2), where ps = "replicate k Hardclock @ [Softclock]" and call = "\<lambda>_ _. []" and c = "[]"] assms(3) g2 by (auto simp: ct nw p(2))
  have "(f, a, ?T - int k) \<in> set ?c \<longleftrightarrow> ?T \<le> int k" by (force simp: p(1) set_ag_insert)
  moreover have "sorted (map (snd \<circ> snd) ?c)"
    using sorted_filter[of fst "ag_pend g1"] ag_insert_sorted[OF sg] by (auto simp: p(1) sorted_map sorted_wrt_map comp_def elim: sorted_wrt_mono_rel[rotated])
  ultimately show ?thesis using s2 by blast
qed

theorem timeout_on_time_witness:
  "\<exists>s2 c. do_ops (\<lambda>_ _. []) (replicate 3 Hardclock @ [Softclock])
      (\<lparr>calltodo = [\<lparr>c_time = 2, c_arg = 8, c_func = 7\<rparr>, \<lparr>c_time = 3, c_arg = 5, c_func = 5\<rparr>], callfree = []\<rparr>, []) = Some (Ret (s2, c))
    \<and> (7, 8, -1) \<in> set c \<and> sorted (map (snd \<circ> snd) c)"
proof -
  have "do_ops (\<lambda>_ _. []) [Request (Timeout 5 5 6), Hardclock] (callout_init 2, [])
      = Some (Ret (\<lparr>calltodo = [\<lparr>c_time = 5, c_arg = 5, c_func = 5\<rparr>], callfree = [\<lparr>c_time = 0, c_arg = 0, c_func = 0\<rparr>]\<rparr>, []))"
    by (simp add: timeout_def callout_init_def numeral_2_eq_2 int32_def rret_def Let_def)
  moreover have "timeout 7 8 2 \<lparr>calltodo = [\<lparr>c_time = 5, c_arg = 5, c_func = 5\<rparr>], callfree = [\<lparr>c_time = 0, c_arg = 0, c_func = 0\<rparr>]\<rparr>
      = Ret \<lparr>calltodo = [\<lparr>c_time = 2, c_arg = 8, c_func = 7\<rparr>, \<lparr>c_time = 3, c_arg = 5, c_func = 5\<rparr>], callfree = []\<rparr>"
    by (simp add: timeout_def int32_def)
  ultimately show ?thesis using timeout_on_time[of "\<lambda>_ _. []" "[Request (Timeout 5 5 6), Hardclock]" 2 _ "[]" 7 8 2 _ 3]
    by (auto simp: INT_MAX_def)
qed

lemma c_div_sub:
  fixes x b :: int
  assumes "0 < b"
  shows "\<bar>c_div x b * b - x\<bar> < b"
proof (cases "0 \<le> x")
  case True
  then have "c_div x b * b = x - x mod b" using assms by (simp add: minus_mod_eq_div_mult)
  then show ?thesis using assms by simp
next
  case False
  then have "c_div x b = - (- x div b)" using assms by (simp add: c_div_def sgn_if)
  then have "c_div x b * b = x + - x mod b" using minus_mod_eq_div_mult[of "- x" b] by simp
  then show ?thesis using assms by simp
qed



text \<open>A time 35 days past gives a timeout 15 days ahead: the milliseconds overflow, as only the upper end is tested.\<close>

lemma hzto_past_wraps: "hzto 100 10000 (3000000, 0) (0, 0) = Ret 129496729"
  by (simp add: hzto_def int32_def c_div_def)

end
