(* ===== verification/Ip_Reass.thy ===== *)
theory Ip_Reass
  imports Mbuf
begin

unbundle bit_operations_syntax

text \<open>
  Reassembly of IP datagrams, \<^verbatim>\<open>sys/netinet/ip_input.c\<close>: the part of \<^verbatim>\<open>ipintr\<close> that handles fragments for this host,
  \<^verbatim>\<open>ip_reass\<close>, and the timer and drain routines.  The queue \<^verbatim>\<open>ipq\<close> is a list of datagrams, each with its list of fragments in
  order.  The fields of a header are kept in a record beside the chain whose first mbuf holds it; a header hidden in
  front of the data (\<^verbatim>\<open>m_data += hlen\<close>) is kept with the place where it starts.  The lemmas say that fragments of a
  datagram, in whatever order, repetition or overlap they come and however the fragments of other datagrams come between, give the
  datagram when they cover it.
\<close>

section \<open>State\<close>

text \<open>\<^verbatim>\<open>struct ip\<close>: a header as received; \<^verbatim>\<open>ip_len\<close> and \<^verbatim>\<open>ip_off\<close> are declared \<^verbatim>\<open>short\<close>.\<close>

record iphdr =
  ih_hl :: int
  ih_len :: int
  ih_id :: u16
  ih_off :: u16
  ih_p :: byte
  ih_src :: u32
  ih_dst :: u32

text \<open>\<^verbatim>\<open>struct ipasfrag\<close>, with the chain it lies in.\<close>

record ipasfrag =
  ip_hl :: int
  ipf_mff :: bool
  ip_len :: int
  ip_off :: int
  ip_m :: chain
  ip_hdr :: "byte list"
  ip_at :: int

record ipq =
  ipq_ttl :: byte
  ipq_p :: byte
  ipq_id :: u16
  ipq_frags :: "ipasfrag list"
  ipq_src :: u32
  ipq_dst :: u32

record ipsys =
  ipqs :: "ipq list"
  ip_mbs :: mbsys
  ips_fragments :: u32
  ips_fragdropped :: u32
  ips_fragtimeout :: u32
  ips_toosmall :: u32
  ips_reassembled :: u32
  ips_delivered :: u32

definition IPFRAGTTL :: byte where "IPFRAGTTL = 60"
definition IP_DF :: u16 where "IP_DF = 0x4000"
definition IP_MF :: u16 where "IP_MF = 0x2000"

text \<open>A value stored in a \<^verbatim>\<open>short\<close>.\<close>

definition short :: "int \<Rightarrow> int" where
  "short k = sint (of_int k :: u16)"

section \<open>Freeing a datagram\<close>

primrec free_frags :: "ipasfrag list \<Rightarrow> mbsys \<Rightarrow> mbsys" where
  "free_frags [] s = s"
| "free_frags (q # r) s = free_frags r (m_freem (ip_m q) s)"

text \<open>\<^verbatim>\<open>remque(fp)\<close>, and the mbuf of the queue's header.\<close>

definition remque_ipq :: "nat \<Rightarrow> ipsys \<Rightarrow> ipsys" where
  "remque_ipq k st = st\<lparr>ipqs := take k (ipqs st) @ drop (Suc k) (ipqs st), ip_mbs := MFREE (new_mbuf MT_FTABLE) (ip_mbs st)\<rparr>"

definition ip_freef :: "nat \<Rightarrow> ipsys \<Rightarrow> ipsys" where
  "ip_freef k st = remque_ipq k (st\<lparr>ip_mbs := free_frags (ipq_frags (ipqs st ! k)) (ip_mbs st)\<rparr>)"

section \<open>\<^verbatim>\<open>ip_reass\<close>\<close>

text \<open>Taking the header out of the data.\<close>

definition hide_header :: "iphdr \<Rightarrow> bool \<Rightarrow> int \<Rightarrow> int \<Rightarrow> chain \<Rightarrow> ipasfrag kres" where
  "hide_header h mff len off c =
     (case c of [] \<Rightarrow> Fault
      | m # r \<Rightarrow>
          let hlen = ih_hl h * 4 in
          if hlen < 0 \<or> m_len m < hlen then Fault
          else Ret \<lparr>ip_hl = ih_hl h, ipf_mff = mff, ip_len = len, ip_off = off,
                 ip_m = m\<lparr>m_data := m_data m + hlen, m_bytes := drop (nat hlen) (m_bytes m)\<rparr> # r,
                 ip_hdr = take (nat hlen) (m_bytes m), ip_at = m_data m\<rparr>)"

text \<open>What the fragment before already holds: \<open>None\<close>, all of it.\<close>

definition frag_front :: "ipasfrag list \<Rightarrow> ipasfrag \<Rightarrow> ipasfrag option kres" where
  "frag_front pre f =
     (if pre = [] then Ret (Some f)
      else let i = ip_off (last pre) + ip_len (last pre) - ip_off f in
        if i > 0
        then if i \<ge> ip_len f then Ret None
             else kmap (\<lambda>m. Some (f\<lparr>ip_off := short (ip_off f + i), ip_len := short (ip_len f - i), ip_m := m\<rparr>)) (m_adj (ip_m f) i)
        else Ret (Some f))"

text \<open>The fragments behind that the new one overlaps.\<close>

fun frag_trim :: "ipasfrag \<Rightarrow> ipasfrag list \<Rightarrow> mbsys \<Rightarrow> (ipasfrag list \<times> mbsys) kres" where
  "frag_trim f [] s = Ret ([], s)"
| "frag_trim f (q # r) s =
     (if \<not> ip_off f + ip_len f > ip_off q then Ret (q # r, s)
      else let i = ip_off f + ip_len f - ip_off q in
        if i < ip_len q
        then kmap (\<lambda>m. (q\<lparr>ip_off := short (ip_off q + i), ip_len := short (ip_len q - i), ip_m := m\<rparr> # r, s)) (m_adj (ip_m q) i)
        else frag_trim f r (m_freem (ip_m q) s))"

text \<open>The test for a complete datagram: the length up to the end of the list, \<open>None\<close> if there is a gap.\<close>

fun frags_next :: "int \<Rightarrow> ipasfrag list \<Rightarrow> int option" where
  "frags_next nx [] = Some nx"
| "frags_next nx (q # r) = (if ip_off q \<noteq> nx then None else frags_next (nx + ip_len q) r)"

fun frags_cat :: "chain \<Rightarrow> ipasfrag list \<Rightarrow> mbsys \<Rightarrow> (chain \<times> mbsys) kres" where
  "frags_cat m [] s = Ret (m, s)"
| "frags_cat m (q # r) s = kbind (m_cat m (ip_m q) s) (\<lambda>(m1, s1). frags_cat m1 r s1)"

text \<open>The header of the first fragment made visible again; it has to lie in front of the data.\<close>

definition show_header :: "ipasfrag \<Rightarrow> chain \<Rightarrow> chain kres" where
  "show_header q c =
     (case c of [] \<Rightarrow> Fault
      | m # r \<Rightarrow>
          if m_data m - ip_hl q * 4 \<noteq> ip_at q then Fault
          else Ret (m\<lparr>m_data := m_data m - ip_hl q * 4, m_bytes := ip_hdr q @ m_bytes m\<rparr> # r))"

text \<open>From \<^verbatim>\<open>insert\<close> on, the fragment being in the list of the queue \<open>k\<close>.\<close>

definition frags_join :: "nat \<Rightarrow> ipsys \<Rightarrow> ((iphdr \<times> chain) option \<times> ipsys) kres" where
  "frags_join k st =
     (let fp = ipqs st ! k; fs = ipq_frags fp in
      case frags_next 0 fs of
        None \<Rightarrow> Ret (None, st)
      | Some nx \<Rightarrow>
          if ipf_mff (last fs) then Ret (None, st)
          else case ip_m (hd fs) of
            [] \<Rightarrow> Fault
          | m # t \<Rightarrow>
              kbind (m_cat [m] t (ip_mbs st)) (\<lambda>(c, s).
              kbind (frags_cat c (tl fs) s) (\<lambda>(c, s).
              kmap (\<lambda>c. (Some (\<lparr>ih_hl = ip_hl (hd fs), ih_len = short nx, ih_id = ipq_id fp, ih_off = of_int (ip_off (hd fs)),
                                ih_p = ipq_p fp, ih_src = ipq_src fp, ih_dst = ipq_dst fp\<rparr>, c),
                         remque_ipq k (st\<lparr>ip_mbs := s\<rparr>)))
                (show_header (hd fs) c))))"

definition dropfrag :: "chain \<Rightarrow> ipsys \<Rightarrow> ipsys" where
  "dropfrag c st = st\<lparr>ips_fragdropped := ips_fragdropped st + 1, ip_mbs := m_freem c (ip_mbs st)\<rparr>"

definition ip_reass :: "iphdr \<Rightarrow> bool \<Rightarrow> int \<Rightarrow> int \<Rightarrow> chain \<Rightarrow> nat option \<Rightarrow> ipsys \<Rightarrow> ((iphdr \<times> chain) option \<times> ipsys) kres" where
  "ip_reass h mff len off c fp st =
     kbind (hide_header h mff len off c) (\<lambda>f.
       case fp of
         None \<Rightarrow>
           (case MGET MT_FTABLE (ip_mbs st) of
              (None, s1) \<Rightarrow> Ret (None, dropfrag (ip_m f) (st\<lparr>ip_mbs := s1\<rparr>))
            | (Some t, s1) \<Rightarrow>
                frags_join 0 (st\<lparr>ip_mbs := s1,
                  ipqs := \<lparr>ipq_ttl = IPFRAGTTL, ipq_p = ih_p h, ipq_id = ih_id h, ipq_frags = [f], ipq_src = ih_src h, ipq_dst = ih_dst h\<rparr> # ipqs st\<rparr>))
       | Some k \<Rightarrow>
           let fs = ipq_frags (ipqs st ! k);
               pre = takeWhile (\<lambda>q. \<not> ip_off q > off) fs;
               suf = dropWhile (\<lambda>q. \<not> ip_off q > off) fs
           in kbind (frag_front pre f) (\<lambda>res. case res of
                None \<Rightarrow> Ret (None, dropfrag (ip_m f) st)
              | Some f1 \<Rightarrow>
                  kbind (frag_trim f1 suf (ip_mbs st)) (\<lambda>(suf1, s1).
                    frags_join k (st\<lparr>ip_mbs := s1, ipqs := (ipqs st)[k := (ipqs st ! k)\<lparr>ipq_frags := pre @ f1 # suf1\<rparr>]\<rparr>))))"

section \<open>Arrival and time\<close>

text \<open>The queue of the packet's datagram.\<close>

definition of_datagram :: "iphdr \<Rightarrow> ipq \<Rightarrow> bool" where
  "of_datagram h fp = (ih_id h = ipq_id fp \<and> ih_src h = ipq_src fp \<and> ih_dst h = ipq_dst fp \<and> ih_p h = ipq_p fp)"

fun ip_find :: "iphdr \<Rightarrow> ipq list \<Rightarrow> nat option" where
  "ip_find h [] = None"
| "ip_find h (fp # r) = (if of_datagram h fp then Some 0 else map_option Suc (ip_find h r))"

text \<open>
  A packet for this host, from \<^verbatim>\<open>ours\<close> on: what is handed to the protocol, if anything.  A fragment in a cluster is pulled up,
  by 20 bytes at least.
\<close>

definition deliver :: "iphdr \<times> chain \<Rightarrow> ipsys \<Rightarrow> (iphdr \<times> chain) option \<times> ipsys" where
  "deliver p st = (Some p, st\<lparr>ips_delivered := ips_delivered st + 1\<rparr>)"

definition frag_input :: "iphdr \<Rightarrow> chain \<Rightarrow> ipsys \<Rightarrow> ((iphdr \<times> chain) option \<times> ipsys) kres" where
  "frag_input h c st =
     (let fp = ip_find h (ipqs st);
          len = short (ih_len h - ih_hl h * 4);
          mff = (ih_off h AND IP_MF \<noteq> 0);
          off = sint (push_bit 3 (ih_off h))
      in if mff \<or> off \<noteq> 0
         then kbind (ip_reass h mff len off c fp (st\<lparr>ips_fragments := ips_fragments st + 1\<rparr>)) (\<lambda>(res, st1).
                case res of
                  None \<Rightarrow> Ret (None, st1)
                | Some p \<Rightarrow> Ret (deliver p (st1\<lparr>ips_reassembled := ips_reassembled st1 + 1\<rparr>)))
         else Ret (deliver (h\<lparr>ih_len := len, ih_off := 0\<rparr>, c) (case fp of None \<Rightarrow> st | Some k \<Rightarrow> ip_freef k st)))"

definition ip_ours :: "int \<Rightarrow> iphdr \<Rightarrow> chain \<Rightarrow> ipsys \<Rightarrow> ((iphdr \<times> chain) option \<times> ipsys) run" where
  "ip_ours max_protohdr h c st =
     (if ih_off h AND NOT IP_DF \<noteq> 0
      then case c of [] \<Rightarrow> Some Fault
        | m # r \<Rightarrow>
            if M_EXT m
            then case m_pullup max_protohdr c 20 (ip_mbs st) of
                Ret None \<Rightarrow> None
              | Ret (Some (None, s1)) \<Rightarrow> rret (None, st\<lparr>ip_mbs := s1, ips_toosmall := ips_toosmall st + 1\<rparr>)
              | Ret (Some (Some c1, s1)) \<Rightarrow> Some (frag_input h c1 (st\<lparr>ip_mbs := s1\<rparr>))
              | Panic e \<Rightarrow> Some (Panic e)
              | Fault \<Rightarrow> Some Fault
            else Some (frag_input h c st)
      else rret (deliver (h\<lparr>ih_len := short (ih_len h - ih_hl h * 4)\<rparr>, c) st))"

text \<open>\<^verbatim>\<open>ip_slowtimo\<close>: from the queue \<open>k\<close> on.\<close>

function slow_ipqs :: "nat \<Rightarrow> ipsys \<Rightarrow> ipsys" where
  "slow_ipqs k st =
     (if k < length (ipqs st)
      then let st1 = st\<lparr>ipqs := (ipqs st)[k := (ipqs st ! k)\<lparr>ipq_ttl := ipq_ttl (ipqs st ! k) - 1\<rparr>]\<rparr> in
        if ipq_ttl (ipqs st1 ! k) = 0
        then slow_ipqs k (ip_freef k (st1\<lparr>ips_fragtimeout := ips_fragtimeout st1 + 1\<rparr>))
        else slow_ipqs (Suc k) st1
      else st)"
  by pat_completeness auto

termination
  by (relation "measure (\<lambda>(k, st). length (ipqs st) - k)") (auto simp: ip_freef_def remque_ipq_def)

declare slow_ipqs.simps [simp del]

definition ip_slowtimo :: "ipsys \<Rightarrow> ipsys" where
  "ip_slowtimo st = slow_ipqs 0 st"

function ip_drain :: "ipsys \<Rightarrow> ipsys" where
  "ip_drain st =
     (if ipqs st = [] then st
      else ip_drain (ip_freef 0 (st\<lparr>ips_fragdropped := ips_fragdropped st + 1\<rparr>)))"
  by pat_completeness auto

termination
  by (relation "measure (\<lambda>st. length (ipqs st))") (auto simp: ip_freef_def remque_ipq_def)

declare ip_drain.simps [simp del]

section \<open>Fragments of a datagram\<close>

lemma short_id: "0 \<le> k \<Longrightarrow> k \<le> 32767 \<Longrightarrow> short k = k"
  by (simp add: short_def sint_sbintrunc' signed_take_bit_int_eq_self)

text \<open>A piece of the datagram \<open>D\<close>; the header of the first piece lies in front of its data.\<close>

definition piece :: "byte list \<Rightarrow> ipasfrag \<Rightarrow> bool" where
  "piece D f = (0 \<le> ip_off f \<and> 0 < ip_len f \<and> ip_off f + ip_len f \<le> int (length D) \<and> length D \<le> 32767
     \<and> mdata (ip_m f) = take (nat (ip_len f)) (drop (nat (ip_off f)) D) \<and> chain_wf (ip_m f) \<and> ip_m f \<noteq> []
     \<and> (ipf_mff f \<longleftrightarrow> ip_off f + ip_len f < int (length D))
     \<and> (ip_off f = 0 \<longrightarrow> m_data (hd (ip_m f)) - ip_hl f * 4 = ip_at f \<and> \<not> M_EXT (hd (ip_m f)) \<and> int (length (ip_hdr f)) = ip_hl f * 4
          \<and> (if M_PKTHDR (hd (ip_m f)) then MLEN - MHLEN else 0) \<le> ip_at f))"

text \<open>In order and apart, from \<open>lo\<close> on.\<close>

fun frags_ok :: "byte list \<Rightarrow> int \<Rightarrow> ipasfrag list \<Rightarrow> bool" where
  "frags_ok D lo [] = True"
| "frags_ok D lo (f # fs) = (piece D f \<and> lo \<le> ip_off f \<and> frags_ok D (ip_off f + ip_len f) fs)"

abbreviation span :: "ipasfrag \<Rightarrow> int set" where
  "span f \<equiv> {ip_off f ..< ip_off f + ip_len f}"

definition spans :: "ipasfrag list \<Rightarrow> int set" where
  "spans fs = (\<Union>f \<in> set fs. span f)"

lemma spans_simps [simp]: "spans [] = {}" "spans (f # fs) = span f \<union> spans fs" "spans (a @ b) = spans a \<union> spans b"
  by (auto simp: spans_def)

lemma frags_ok_mono: "frags_ok D lo fs \<Longrightarrow> lo' \<le> lo \<Longrightarrow> frags_ok D lo' fs"
  by (cases fs) auto

lemma frags_ok_piece: "frags_ok D lo fs \<Longrightarrow> f \<in> set fs \<Longrightarrow> piece D f \<and> lo \<le> ip_off f"
proof (induction fs arbitrary: lo)
  case (Cons g fs)
  have "0 < ip_len g" using Cons(2) by (simp add: piece_def)
  then show ?case using Cons by fastforce
qed simp

lemma frags_ok_append:
  "frags_ok D lo (a @ b) \<longleftrightarrow> frags_ok D lo a \<and> frags_ok D (if a = [] then lo else ip_off (last a) + ip_len (last a)) b"
  by (induction a arbitrary: lo) auto

lemma spans_ge: "frags_ok D lo fs \<Longrightarrow> x \<in> spans fs \<Longrightarrow> lo \<le> x \<and> x < int (length D)"
  using frags_ok_piece by (fastforce simp: spans_def piece_def)

lemma piece_trim:
  assumes "piece D f" and "0 < i" and "i < ip_len f"
  obtains m where "m_adj (ip_m f) i = Ret m"
    and "short (ip_off f + i) = ip_off f + i" and "short (ip_len f - i) = ip_len f - i"
    and "piece D (f\<lparr>ip_off := ip_off f + i, ip_len := ip_len f - i, ip_m := m\<rparr>)"
proof -
  have wf: "chain_wf (ip_m f)" using assms(1) by (simp add: piece_def)
  obtain m where m: "m_adj (ip_m f) i = Ret m" "chain_wf m" "length m = length (ip_m f)" "mdata m = drop (nat i) (mdata (ip_m f))"
    using m_adj_data[OF wf, of i] assms(2) by auto
  have d: "mdata m = take (nat (ip_len f - i)) (drop (nat (ip_off f + i)) D)"
    using assms by (simp add: m(4) piece_def drop_take nat_diff_distrib nat_add_distrib add.commute)
  have s: "short (ip_off f + i) = ip_off f + i" "short (ip_len f - i) = ip_len f - i"
    using assms by (auto intro!: short_id simp: piece_def)
  have "piece D (f\<lparr>ip_off := ip_off f + i, ip_len := ip_len f - i, ip_m := m\<rparr>)"
    using assms m(2,3) d by (auto simp: piece_def)
  with m(1) s show thesis by (rule that)
qed

lemma frag_trim_spec:
  assumes "piece D f" and "frags_ok D (ip_off f) fs"
  shows "\<exists>fs' s'. frag_trim f fs s = Ret (fs', s') \<and> frags_ok D (ip_off f + ip_len f) fs'
    \<and> span f \<union> spans fs' = span f \<union> spans fs \<and> mal_answers s' = mal_answers s"
  using assms(2)
proof (induction fs arbitrary: s)
  case (Cons q r)
  have q: "piece D q" "ip_off f \<le> ip_off q" "frags_ok D (ip_off q + ip_len q) r" using Cons(2) by simp_all
  define i where "i = ip_off f + ip_len f - ip_off q"
  consider (no) "i \<le> 0" | (part) "0 < i" "i < ip_len q" | (all) "0 < i" "ip_len q \<le> i" by linarith
  then show ?case
  proof cases
    case no
    then show ?thesis using q by (simp add: i_def)
  next
    case part
    obtain m where m: "m_adj (ip_m q) i = Ret m" "short (ip_off q + i) = ip_off q + i" "short (ip_len q - i) = ip_len q - i"
      "piece D (q\<lparr>ip_off := ip_off q + i, ip_len := ip_len q - i, ip_m := m\<rparr>)" using piece_trim[OF q(1) part] by blast
    have e: "ip_off q + i = ip_off f + ip_len f" "ip_off f + ip_len f + (ip_len q - i) = ip_off q + ip_len q" by (simp_all add: i_def)
    let ?q = "q\<lparr>ip_off := ip_off q + i, ip_len := ip_len q - i, ip_m := m\<rparr>"
    have "frag_trim f (q # r) s = Ret (?q # r, s)" using part m(1-3) by (simp add: i_def[symmetric] Let_def) (simp add: i_def)
    moreover have "span f \<union> span ?q = span f \<union> span q" using part q(2) e by auto
    then have "span f \<union> spans (?q # r) = span f \<union> spans (q # r)" by (simp only: spans_simps Un_assoc[symmetric])
    moreover have "frags_ok D (ip_off f + ip_len f) (?q # r)" using m(4) q(3) by (simp add: i_def add.commute)
    ultimately show ?thesis by blast
  next
    case all
    have "frags_ok D (ip_off f) r" using q frags_ok_mono[OF q(3)] by (simp add: piece_def)
    from Cons(1)[OF this, of "m_freem (ip_m q) s"] obtain fs' s' where
      "frag_trim f r (m_freem (ip_m q) s) = Ret (fs', s')" "frags_ok D (ip_off f + ip_len f) fs'"
      "span f \<union> spans fs' = span f \<union> spans r" "mal_answers s' = mal_answers s" by (auto simp: m_freem_mal)
    moreover have "span q \<subseteq> span f" using all q(2) by (auto simp: i_def)
    then have "span f \<union> spans (q # r) = span f \<union> spans r" by auto
    moreover have "frag_trim f (q # r) s = frag_trim f r (m_freem (ip_m q) s)" using all by (simp add: i_def)
    ultimately show ?thesis by metis
  qed
qed simp

text \<open>The fragment in its place.\<close>

lemma frag_place:
  assumes "frags_ok D 0 fs" and "piece D f"
    and "pre = takeWhile (\<lambda>q. \<not> ip_off q > ip_off f) fs" and "suf = dropWhile (\<lambda>q. \<not> ip_off q > ip_off f) fs"
  shows "(frag_front pre f = Ret None \<and> span f \<subseteq> spans fs)
    \<or> (\<exists>f1 suf1 s1. frag_front pre f = Ret (Some f1) \<and> frag_trim f1 suf s = Ret (suf1, s1) \<and> frags_ok D 0 (pre @ f1 # suf1)
        \<and> spans (pre @ f1 # suf1) = spans fs \<union> span f \<and> mal_answers s1 = mal_answers s)"
proof -
  have fs: "fs = pre @ suf" by (simp add: assms(3,4))
  have pos: "0 < ip_len f" "0 \<le> ip_off f" using assms(2) by (simp_all add: piece_def)
  have ok: "frags_ok D 0 pre" "frags_ok D (if pre = [] then 0 else ip_off (last pre) + ip_len (last pre)) suf"
    using assms(1) unfolding fs frags_ok_append by simp_all
  have le: "ip_off q \<le> ip_off f" if "q \<in> set pre" for q using that set_takeWhileD assms(3) by fastforce
  have gt: "suf = [] \<or> ip_off (hd suf) > ip_off f" using hd_dropWhile[of _ fs] assms(4) by force
  have suf: "frags_ok D (ip_off f) suf" using ok(2) gt by (cases suf) auto
  have fin: ?thesis if f1: "frag_front pre f = Ret (Some f1)" "piece D f1" "ip_off f \<le> ip_off f1" "ip_off f1 + ip_len f1 = ip_off f + ip_len f"
      "frags_ok D (ip_off f1) suf" "pre = [] \<or> ip_off (last pre) + ip_len (last pre) \<le> ip_off f1" "spans pre \<union> span f1 = spans pre \<union> span f" for f1
  proof -
    obtain suf1 s1 where t: "frag_trim f1 suf s = Ret (suf1, s1)" "frags_ok D (ip_off f1 + ip_len f1) suf1"
      "span f1 \<union> spans suf1 = span f1 \<union> spans suf" "mal_answers s1 = mal_answers s" using frag_trim_spec[OF f1(2,5)] by blast
    have "0 \<le> ip_off f1" using f1(2) by (simp add: piece_def)
    then have "frags_ok D 0 (pre @ f1 # suf1)" using ok(1) f1(2,6) t(2) by (auto simp: frags_ok_append)
    moreover have "spans (pre @ f1 # suf1) = spans fs \<union> span f" using t(3) f1(7) by (simp add: fs) blast
    ultimately show ?thesis using f1(1) t(1,4) by blast
  qed
  show ?thesis
  proof (cases "pre = []")
    case True
    then show ?thesis using suf assms(2) by (intro fin[of f]) (auto simp: frag_front_def)
  next
    case False
    define p i where "p = last pre" and "i = ip_off p + ip_len p - ip_off f"
    have p: "p \<in> set pre" "ip_off p \<le> ip_off f" using False le by (simp_all add: p_def)
    consider (no) "i \<le> 0" | (part) "0 < i" "i < ip_len f" | (all) "0 < i" "ip_len f \<le> i" by linarith
    then show ?thesis
    proof cases
      case no
      then show ?thesis using suf assms(2) False by (intro fin[of f]) (auto simp: frag_front_def p_def i_def)
    next
      case all
      then have "span f \<subseteq> span p" using p(2) by (auto simp: i_def)
      then have "span f \<subseteq> spans fs" using p(1) by (auto simp: fs spans_def)
      then show ?thesis using all False by (simp add: frag_front_def p_def[symmetric] i_def Let_def)
    next
      case part
      obtain m where m: "m_adj (ip_m f) i = Ret m" "short (ip_off f + i) = ip_off f + i" "short (ip_len f - i) = ip_len f - i"
        "piece D (f\<lparr>ip_off := ip_off f + i, ip_len := ip_len f - i, ip_m := m\<rparr>)" using piece_trim[OF assms(2) part] by blast
      let ?f = "f\<lparr>ip_off := ip_off f + i, ip_len := ip_len f - i, ip_m := m\<rparr>"
      have e: "ip_off f + i = ip_off p + ip_len p" by (simp add: i_def)
      have "span f \<subseteq> span p \<union> span ?f" "span ?f \<subseteq> span f" using part p(2) by (auto simp: i_def)
      moreover have "span p \<subseteq> spans pre" using p(1) by (auto simp: spans_def)
      ultimately have "spans pre \<union> span ?f = spans pre \<union> span f" by blast
      moreover have "frag_front pre f = Ret (Some ?f)"
        using part m(1-3) False by (simp add: frag_front_def p_def[symmetric] i_def[symmetric] Let_def)
      moreover have "frags_ok D (ip_off f + i) suf" using ok(2) False e by (simp add: p_def)
      ultimately show ?thesis using m(4) part e False by (intro fin[of ?f]) (auto simp: p_def)
    qed
  qed
qed

section \<open>Joining the fragments\<close>

text \<open>What of the first mbuf \<^verbatim>\<open>m_cat\<close> keeps.\<close>

definition same_head :: "chain \<Rightarrow> chain \<Rightarrow> bool" where
  "same_head a c = (c \<noteq> [] \<and> m_data (hd c) = m_data (hd a) \<and> M_EXT (hd c) = M_EXT (hd a) \<and> M_PKTHDR (hd c) = M_PKTHDR (hd a)
     \<and> m_pkthdr (hd c) = m_pkthdr (hd a))"

lemma m_cat_loop_head: "m_cat_loop m c s = (c', s') \<Longrightarrow> same_head [m] c' \<and> mal_answers s' = mal_answers s"
proof (induction m c s rule: m_cat_loop.induct)
  case (2 m n r s)
  then show ?case using m_freem_mal[of "[n]" s] by (auto simp: same_head_def split: if_splits)
qed (auto simp: same_head_def)

lemma m_cat_spec:
  assumes "chain_wf a" and "chain_wf b" and "a \<noteq> []"
  obtains c s' where "m_cat a b s = Ret (c, s')" and "chain_wf c" and "mdata c = mdata a @ mdata b" and "same_head a c"
    and "mal_answers s' = mal_answers s"
proof -
  obtain c s' where c: "m_cat a b s = Ret (c, s')" "chain_wf c" "mdata c = mdata a @ mdata b" using m_cat_exact[OF assms, of s] by blast
  obtain l s2 where l: "m_cat_loop (last a) b s = (l, s2)" by fastforce
  have "c = butlast a @ l" "s2 = s'" using c(1) l assms(3) by (auto simp: m_cat_def)
  moreover have "a = butlast a @ [last a]" using assms(3) by simp
  then have "hd a = (if butlast a = [] then last a else hd (butlast a))" by (metis append_Nil hd_append2 list.sel(1))
  ultimately have "same_head a c" using m_cat_loop_head[OF l] by (auto simp: same_head_def)
  then show thesis using that c m_cat_loop_head[OF l] \<open>s2 = s'\<close> by blast
qed

lemma same_head_trans: "same_head a b \<Longrightarrow> same_head b c \<Longrightarrow> same_head a c"
  by (simp add: same_head_def)

lemma frags_cat_spec:
  assumes "chain_wf c" and "c \<noteq> []" and "\<forall>q \<in> set fs. chain_wf (ip_m q)"
  shows "\<exists>c' s'. frags_cat c fs s = Ret (c', s') \<and> chain_wf c' \<and> mdata c' = mdata c @ concat (map (\<lambda>q. mdata (ip_m q)) fs)
    \<and> same_head c c' \<and> mal_answers s' = mal_answers s"
  using assms
proof (induction fs arbitrary: c s)
  case Nil
  then show ?case by (simp add: same_head_def)
next
  case (Cons q r)
  obtain c1 s1 where c1: "m_cat c (ip_m q) s = Ret (c1, s1)" "chain_wf c1" "mdata c1 = mdata c @ mdata (ip_m q)" "same_head c c1"
    "mal_answers s1 = mal_answers s" using m_cat_spec[OF Cons(2) _ Cons(3), of "ip_m q"] Cons(4) by auto
  have "c1 \<noteq> []" using c1(4) by (simp add: same_head_def)
  from Cons(1)[OF c1(2) this, of s1] Cons(4) obtain c2 s2 where
    "frags_cat c1 r s1 = Ret (c2, s2)" "chain_wf c2" "mdata c2 = mdata c1 @ concat (map (\<lambda>q. mdata (ip_m q)) r)" "same_head c1 c2"
    "mal_answers s2 = mal_answers s1" by auto
  then show ?case using c1 same_head_trans by auto
qed

lemma frags_next_Some:
  assumes "frags_ok D nx fs" and "frags_next nx fs = Some e" and "0 \<le> nx"
  shows "nx \<le> e \<and> spans fs = {nx ..< e} \<and> concat (map (\<lambda>q. mdata (ip_m q)) fs) = take (nat (e - nx)) (drop (nat nx) D)
    \<and> (fs \<noteq> [] \<longrightarrow> e = ip_off (last fs) + ip_len (last fs))"
  using assms
proof (induction fs arbitrary: nx)
  case (Cons f fs)
  have f: "ip_off f = nx" "piece D f" "frags_ok D (nx + ip_len f) fs" "frags_next (nx + ip_len f) fs = Some e"
    using Cons(2,3) by (auto split: if_splits)
  have l: "0 < ip_len f" using f(2) by (simp add: piece_def)
  then have "0 \<le> nx + ip_len f" using Cons(4) by simp
  note ih = Cons(1)[OF f(3,4) this]
  have "take (nat (ip_len f)) (drop (nat nx) D) @ take (nat (e - (nx + ip_len f))) (drop (nat (nx + ip_len f)) D)
      = take (nat (e - nx)) (drop (nat nx) D)"
    using take_add[of "nat (ip_len f)" "nat (e - (nx + ip_len f))" "drop (nat nx) D"] ih l Cons(4)
    by (simp add: nat_add_distrib[symmetric] add.commute)
  moreover have "spans (f # fs) = {nx ..< e}" using ih l f(1) by auto
  ultimately show ?case using ih l f(1,2) Cons(3) by (auto simp: piece_def)
qed simp

lemma frags_next_None:
  "frags_ok D nx fs \<Longrightarrow> frags_next nx fs = None \<Longrightarrow> \<exists>x. nx \<le> x \<and> x < int (length D) \<and> x \<notin> spans fs"
proof (induction fs arbitrary: nx)
  case (Cons f fs)
  have f: "piece D f" "nx \<le> ip_off f" "frags_ok D (ip_off f + ip_len f) fs" using Cons(2) by auto
  show ?case
  proof (cases "ip_off f = nx")
    case True
    then obtain x where "nx + ip_len f \<le> x" "x < int (length D)" "x \<notin> spans fs" using Cons(1)[of "nx + ip_len f"] Cons(3) f by auto
    then show ?thesis using True f(1) by (intro exI[of _ x]) (auto simp: piece_def)
  next
    case False
    have "nx \<notin> spans (f # fs)" using spans_ge[OF f(3), of nx] f False by (auto simp: piece_def)
    then show ?thesis using f False by (intro exI[of _ nx]) (auto simp: piece_def)
  qed
qed simp

lemma complete_iff:
  assumes "frags_ok D 0 fs" and "fs \<noteq> []"
  shows "(\<exists>e. frags_next 0 fs = Some e \<and> \<not> ipf_mff (last fs)) \<longleftrightarrow> spans fs = {0 ..< int (length D)}"
proof -
  have l: "piece D (last fs)" using frags_ok_piece[OF assms(1)] assms(2) by simp
  show ?thesis
  proof (cases "frags_next 0 fs")
    case None
    then show ?thesis using frags_next_None[OF assms(1)] by force
  next
    case (Some e)
    note s = frags_next_Some[OF assms(1) Some order_refl]
    have "ipf_mff (last fs) \<longleftrightarrow> e < int (length D)" "e \<le> int (length D)" "0 < e" using s l assms(2) by (auto simp: piece_def)
    moreover have "{0 ..< e} = {0 ..< int (length D)} \<longleftrightarrow> e = int (length D)" using calculation(2,3) by (subst atLeastLessThan_eq_iff) auto
    ultimately show ?thesis using s Some by auto
  qed
qed

section \<open>The queue of datagrams\<close>

text \<open>What names a datagram, and which of its bytes a queue holds.\<close>

type_synonym dkey = "u16 \<times> u32 \<times> u32 \<times> byte"

definition hkey :: "iphdr \<Rightarrow> dkey" where
  "hkey h = (ih_id h, ih_src h, ih_dst h, ih_p h)"

definition qkey :: "ipq \<Rightarrow> dkey" where
  "qkey fp = (ipq_id fp, ipq_src fp, ipq_dst fp, ipq_p fp)"

definition held :: "ipq list \<Rightarrow> dkey \<Rightarrow> int set" where
  "held qs \<kappa> = (\<Union>fp \<in> {fp \<in> set qs. qkey fp = \<kappa>}. spans (ipq_frags fp))"

text \<open>\<open>DD\<close> gives the bytes of every datagram under way.\<close>

definition queue_ok :: "(dkey \<Rightarrow> byte list) \<Rightarrow> ipq list \<Rightarrow> bool" where
  "queue_ok DD qs = ((\<forall>fp \<in> set qs. frags_ok (DD (qkey fp)) 0 (ipq_frags fp) \<and> ipq_frags fp \<noteq> []) \<and> distinct (map qkey qs))"

lemma of_datagram_key: "of_datagram h fp \<longleftrightarrow> hkey h = qkey fp"
  by (simp add: of_datagram_def hkey_def qkey_def)

lemma held_split:
  assumes "distinct (map qkey (xs @ fp # ys))"
  shows "held (xs @ fp # ys) = (held (xs @ ys))(qkey fp := spans (ipq_frags fp))" and "held (xs @ ys) (qkey fp) = {}"
proof -
  have n: "\<forall>g \<in> set (xs @ ys). qkey g \<noteq> qkey fp" using assms by (force simp: image_iff)
  then have "{g \<in> set (xs @ ys). qkey g = qkey fp} = {}" by blast
  then show "held (xs @ ys) (qkey fp) = {}" by (simp only: held_def) simp
  show "held (xs @ fp # ys) = (held (xs @ ys))(qkey fp := spans (ipq_frags fp))"
  proof
    fix \<kappa>
    have "{g \<in> set (xs @ fp # ys). qkey g = \<kappa>} = (if \<kappa> = qkey fp then {fp} else {g \<in> set (xs @ ys). qkey g = \<kappa>})"
      using n by (cases "\<kappa> = qkey fp") (simp_all, blast+)
    then show "held (xs @ fp # ys) \<kappa> = ((held (xs @ ys))(qkey fp := spans (ipq_frags fp))) \<kappa>" by (simp add: held_def)
  qed
qed

lemma held_update:
  assumes "queue_ok DD qs" and "k < length qs" and "qkey fp = qkey (qs ! k)" and "frags_ok (DD (qkey fp)) 0 (ipq_frags fp)" and "ipq_frags fp \<noteq> []"
  shows "queue_ok DD (qs[k := fp])" and "held (qs[k := fp]) = (held qs)(qkey fp := spans (ipq_frags fp))"
proof -
  have q: "qs = take k qs @ qs ! k # drop (Suc k) qs" using assms(2) by (rule id_take_nth_drop)
  have u: "qs[k := fp] = take k qs @ fp # drop (Suc k) qs" using assms(2) by (rule upd_conv_take_nth_drop)
  have m: "map qkey (qs[k := fp]) = map qkey qs" using assms(3) by (metis list_update_id map_update)
  have "set (qs[k := fp]) \<subseteq> insert fp (set qs)" by (rule set_update_subset_insert)
  then show ok: "queue_ok DD (qs[k := fp])" unfolding queue_ok_def m using assms(1,4,5) unfolding queue_ok_def by blast
  have d: "distinct (map qkey qs)" "distinct (map qkey (qs[k := fp]))" using assms(1) ok by (simp_all add: queue_ok_def)
  have "held qs = (held (take k qs @ drop (Suc k) qs))(qkey (qs ! k) := spans (ipq_frags (qs ! k)))"
    using held_split(1) d(1) q by metis
  moreover have "held (qs[k := fp]) = (held (take k qs @ drop (Suc k) qs))(qkey fp := spans (ipq_frags fp))"
    using held_split(1) d(2) u by metis
  ultimately show "held (qs[k := fp]) = (held qs)(qkey fp := spans (ipq_frags fp))" using assms(3) by simp
qed

lemma held_remove:
  assumes "queue_ok DD qs" and "k < length qs"
  shows "queue_ok DD (take k qs @ drop (Suc k) qs)" and "held (take k qs @ drop (Suc k) qs) = (held qs)(qkey (qs ! k) := {})"
proof -
  let ?r = "take k qs @ drop (Suc k) qs"
  have q: "qs = take k qs @ qs ! k # drop (Suc k) qs" using assms(2) by (rule id_take_nth_drop)
  have d: "distinct (map qkey (take k qs @ qs ! k # drop (Suc k) qs))" using assms(1) q by (metis queue_ok_def)
  have "set ?r \<subseteq> set qs" using set_take_subset[of k qs] set_drop_subset[of "Suc k" qs] by simp
  moreover have "distinct (map qkey ?r)" using d by simp
  ultimately show "queue_ok DD ?r" using assms(1) unfolding queue_ok_def by blast
  have "held qs = (held ?r)(qkey (qs ! k) := spans (ipq_frags (qs ! k)))" using held_split(1)[OF d] q by metis
  then show "held ?r = (held qs)(qkey (qs ! k) := {})" using held_split(2)[OF d] by (simp add: fun_upd_idem)
qed

lemma ip_find_spec:
  "case ip_find h qs of None \<Rightarrow> (\<forall>fp \<in> set qs. qkey fp \<noteq> hkey h) | Some k \<Rightarrow> k < length qs \<and> qkey (qs ! k) = hkey h"
  by (induction qs) (auto simp: of_datagram_key split: option.splits)

text \<open>A whole datagram with its header.\<close>

definition whole :: "byte list \<Rightarrow> iphdr \<times> chain \<Rightarrow> bool" where
  "whole D p = (ih_len (fst p) = int (length D) \<and> drop (nat (ih_hl (fst p) * 4)) (mdata (snd p)) = D \<and> chain_wf (snd p) \<and> snd p \<noteq> []
     \<and> ih_hl (fst p) * 4 \<le> m_len (hd (snd p)))"

lemma show_header_spec:
  assumes "piece D f" and "ip_off f = 0" and "same_head (ip_m f) c" and "chain_wf c"
  obtains c' where "show_header f c = Ret c'" and "chain_wf c'" and "mdata c' = ip_hdr f @ mdata c" and "c' \<noteq> []"
    and "ip_hl f * 4 \<le> m_len (hd c')" and "int (length (ip_hdr f)) = ip_hl f * 4" and "m_pkthdr (hd c') = m_pkthdr (hd (ip_m f))"
proof -
  obtain m r where c: "c = m # r" using assms(3) by (cases c) (auto simp: same_head_def)
  let ?m = "m\<lparr>m_data := m_data m - ip_hl f * 4, m_bytes := ip_hdr f @ m_bytes m\<rparr>"
  have h: "m_data m - ip_hl f * 4 = ip_at f" "\<not> M_EXT m" "int (length (ip_hdr f)) = ip_hl f * 4"
    "(if M_PKTHDR m then MLEN - MHLEN else 0) \<le> ip_at f" "m_pkthdr m = m_pkthdr (hd (ip_m f))"
    using assms(1-3) by (simp_all add: piece_def same_head_def c)
  have "show_header f c = Ret (?m # r)" using h(1) by (simp add: show_header_def c)
  moreover have "mbuf_wf ?m" using assms(4) h by (auto simp: c mbuf_wf_def m_len_def)
  ultimately show thesis using that[of "?m # r"] assms(4) h(3,5) by (simp add: c m_len_def)
qed

lemma frags_join_spec:
  assumes "queue_ok DD (ipqs st)" and "k < length (ipqs st)" and "\<kappa> = qkey (ipqs st ! k)"
  shows "\<exists>res st'. frags_join k st = Ret (res, st') \<and> queue_ok DD (ipqs st') \<and> mal_answers (ip_mbs st') = mal_answers (ip_mbs st)
    \<and> (if held (ipqs st) \<kappa> = {0 ..< int (length (DD \<kappa>))}
       then held (ipqs st') = (held (ipqs st))(\<kappa> := {}) \<and> (\<exists>p. res = Some p \<and> whole (DD \<kappa>) p \<and> hkey (fst p) = \<kappa>)
       else res = None \<and> st' = st)"
proof -
  define fp fs where "fp = ipqs st ! k" and "fs = ipq_frags fp"
  have ok: "frags_ok (DD \<kappa>) 0 fs" "fs \<noteq> []" using assms by (auto simp: queue_ok_def fp_def fs_def)
  have held: "held (ipqs st) \<kappa> = spans fs"
  proof -
    have "(ipqs st)[k := fp] = ipqs st" by (simp add: fp_def)
    moreover have "held ((ipqs st)[k := fp]) = (held (ipqs st))(qkey fp := spans (ipq_frags fp))"
      by (rule held_update(2)[OF assms(1,2)]) (use ok in \<open>simp_all add: assms(3) fp_def fs_def\<close>)
    ultimately show ?thesis by (metis assms(3) fp_def fs_def fun_upd_same)
  qed
  show ?thesis
  proof (cases "spans fs = {0 ..< int (length (DD \<kappa>))}")
    case False
    then have "\<not> (\<exists>e. frags_next 0 fs = Some e \<and> \<not> ipf_mff (last fs))" using complete_iff[OF ok] by blast
    then have "frags_join k st = Ret (None, st)"
      by (auto simp: frags_join_def Let_def fp_def[symmetric] fs_def[symmetric] split: option.split)
    then show ?thesis using False held assms(1) by simp
  next
    case True
    then obtain e where e: "frags_next 0 fs = Some e" "\<not> ipf_mff (last fs)" using complete_iff[OF ok] by blast
    note nx = frags_next_Some[OF ok(1) e(1) order_refl]
    obtain f r where f: "fs = f # r" using ok(2) by (cases fs) auto
    have fo: "piece (DD \<kappa>) f" "ip_off f = 0" using ok(1) e(1) by (auto simp: f split: if_splits)
    have L: "0 < int (length (DD \<kappa>))" "length (DD \<kappa>) \<le> 32767" using fo(1) by (auto simp: piece_def)
    have "{0 ..< e} = {0 ..< int (length (DD \<kappa>))}" using nx True by simp
    then have "0 \<in> {0 ..< e}" using L(1) by simp
    then have "0 < e" by simp
    with \<open>{0 ..< e} = _\<close> L have eL: "e = int (length (DD \<kappa>))" "length (DD \<kappa>) \<le> 32767"
      using atLeastLessThan_eq_iff[of 0 e 0 "int (length (DD \<kappa>))"] by auto
    have wf: "\<forall>q \<in> set fs. chain_wf (ip_m q)" using frags_ok_piece[OF ok(1)] by (auto simp: piece_def)
    obtain m t where m: "ip_m f = m # t" using fo(1) by (cases "ip_m f") (auto simp: piece_def)
    have wm: "chain_wf [m]" "chain_wf t" using wf by (auto simp: f m)
    obtain c1 s1 where c1: "m_cat [m] t (ip_mbs st) = Ret (c1, s1)" "chain_wf c1" "mdata c1 = mdata (ip_m f)" "same_head [m] c1"
      "mal_answers s1 = mal_answers (ip_mbs st)" using m_cat_spec[OF wm, of "ip_mbs st"] by (auto simp: m)
    have "c1 \<noteq> []" using c1(4) by (simp add: same_head_def)
    then obtain c2 s2 where c2: "frags_cat c1 r s1 = Ret (c2, s2)" "chain_wf c2" "mdata c2 = mdata c1 @ concat (map (\<lambda>q. mdata (ip_m q)) r)"
      "same_head c1 c2" "mal_answers s2 = mal_answers s1" using frags_cat_spec[OF c1(2), of r s1] wf by (auto simp: f)
    have d: "mdata c2 = DD \<kappa>" using nx c1(3) c2(3) eL by (simp add: f)
    have sh: "same_head (ip_m f) c2" using same_head_trans[OF c1(4) c2(4)] by (simp add: same_head_def m)
    obtain c3 where c3: "show_header f c2 = Ret c3" "chain_wf c3" "mdata c3 = ip_hdr f @ mdata c2" "c3 \<noteq> []"
      "ip_hl f * 4 \<le> m_len (hd c3)" "int (length (ip_hdr f)) = ip_hl f * 4" using show_header_spec[OF fo sh c2(2)] by metis
    let ?h = "\<lparr>ih_hl = ip_hl f, ih_len = short e, ih_id = ipq_id fp, ih_off = of_int (ip_off f), ih_p = ipq_p fp, ih_src = ipq_src fp, ih_dst = ipq_dst fp\<rparr>"
    have j: "frags_join k st = Ret (Some (?h, c3), remque_ipq k (st\<lparr>ip_mbs := s2\<rparr>))"
      using e c1(1) c2(1) c3(1) by (simp add: frags_join_def Let_def fp_def[symmetric] fs_def[symmetric] f m)
    have "nat (ip_hl f * 4) = length (ip_hdr f)" using c3(6) by simp
    then have "whole (DD \<kappa>) (?h, c3)" using c3(2-5) d eL by (simp add: whole_def short_id)
    moreover have "hkey ?h = \<kappa>" by (simp add: hkey_def assms(3) qkey_def fp_def)
    moreover have "mal_answers (MFREE (new_mbuf MT_FTABLE) s2) = mal_answers (ip_mbs st)"
      using m_freem_mal[of "[new_mbuf MT_FTABLE]" s2] c1(5) c2(5) by simp
    moreover note held_remove[OF assms(1,2)]
    ultimately show ?thesis using j True held assms(3) by (simp add: remque_ipq_def)
  qed
qed

section \<open>Arriving fragments\<close>

definition frag_off :: "iphdr \<Rightarrow> int" where
  "frag_off h = 8 * uint (ih_off h AND 0x1fff)"

definition frag_len :: "iphdr \<Rightarrow> int" where
  "frag_len h = ih_len h - ih_hl h * 4"

text \<open>A fragment of the datagram \<open>DD\<close> names, in small mbufs, its header in the first.\<close>

definition arrives :: "(dkey \<Rightarrow> byte list) \<Rightarrow> iphdr \<times> chain \<Rightarrow> bool" where
  "arrives DD = (\<lambda>(h, c). let D = DD (hkey h) in
     0 < frag_len h \<and> frag_off h + frag_len h \<le> int (length D) \<and> length D \<le> 32767
     \<and> (ih_off h AND IP_MF \<noteq> 0 \<longleftrightarrow> frag_off h + frag_len h < int (length D)) \<and> (ih_off h AND IP_MF \<noteq> 0 \<or> frag_off h \<noteq> 0)
     \<and> c \<noteq> [] \<and> \<not> M_EXT (hd c) \<and> chain_wf c \<and> 0 \<le> ih_hl h \<and> ih_hl h * 4 \<le> m_len (hd c)
     \<and> drop (nat (ih_hl h * 4)) (mdata c) = take (nat (frag_len h)) (drop (nat (frag_off h)) D))"

lemma offset_word:
  fixes x :: u16
  assumes "8 * uint (x AND 0x1fff) \<le> 32767"
  shows "sint (push_bit 3 x) = 8 * uint (x AND 0x1fff)"
proof -
  have m: "x AND 0x1fff = take_bit 13 x" by (simp add: take_bit_eq_mask mask_eq_exp_minus_1)
  have u: "uint (x AND 0x1fff) = uint x mod 8192" unfolding m take_bit_eq_mod by (simp add: uint_mod)
  have "uint (push_bit 3 x) = (uint x * 8) mod 65536" by (simp add: push_bit_eq_mult uint_word_ariths)
  also have "\<dots> = 8 * (uint x mod 8192)" using mult_mod_right[of 8 "uint x" 8192] by (simp add: mult.commute)
  finally have p: "uint (push_bit 3 x) = 8 * uint (x AND 0x1fff)" by (simp add: u)
  have "sint (push_bit 3 x) = signed_take_bit 15 (uint (push_bit 3 x))" by (simp add: sint_uint)
  also have "\<dots> = uint (push_bit 3 x)"
  proof (rule signed_take_bit_int_eq_self)
    show "- (2 ^ 15) \<le> uint (push_bit 3 x)" by (rule order_trans[of _ 0]) simp_all
    show "uint (push_bit 3 x) < 2 ^ 15" using assms p by simp
  qed
  finally show ?thesis using p by simp
qed

lemma not_whole:
  fixes x :: u16
  assumes "x AND IP_MF \<noteq> 0 \<or> 8 * uint (x AND 0x1fff) \<noteq> 0"
  shows "x AND NOT IP_DF \<noteq> 0"
proof
  assume z: "x AND NOT IP_DF = 0"
  have "x AND IP_MF = (x AND NOT IP_DF) AND IP_MF" "x AND 0x1fff = (x AND NOT IP_DF) AND 0x1fff"
    by (simp_all add: IP_MF_def IP_DF_def and.assoc)
  then show False using assms z by simp
qed

lemma arrives_piece:
  assumes "arrives DD (h, c)"
  obtains f where "hide_header h (ih_off h AND IP_MF \<noteq> 0) (short (frag_len h)) (sint (push_bit 3 (ih_off h))) c = Ret f"
    and "piece (DD (hkey h)) f" and "ip_off f = frag_off h" and "ip_len f = frag_len h" and "sint (push_bit 3 (ih_off h)) = frag_off h"
proof -
  obtain m r where c: "c = m # r" using assms by (cases c) (auto simp: arrives_def Let_def)
  let ?D = "DD (hkey h)"
  have a: "0 < frag_len h" "frag_off h + frag_len h \<le> int (length ?D)" "length ?D \<le> 32767"
    "ih_off h AND IP_MF \<noteq> 0 \<longleftrightarrow> frag_off h + frag_len h < int (length ?D)" "\<not> M_EXT m" "mbuf_wf m" "chain_wf r"
    "0 \<le> ih_hl h" "ih_hl h * 4 \<le> m_len m" "drop (nat (ih_hl h * 4)) (mdata c) = take (nat (frag_len h)) (drop (nat (frag_off h)) ?D)"
    using assms by (simp_all add: arrives_def Let_def c)
  have o: "0 \<le> frag_off h" by (simp add: frag_off_def)
  have so: "sint (push_bit 3 (ih_off h)) = frag_off h" using a(1-3) unfolding frag_off_def by (intro offset_word) linarith
  have sl: "short (frag_len h) = frag_len h" using a(1-3) o by (intro short_id) linarith+
  let ?m = "m\<lparr>m_data := m_data m + ih_hl h * 4, m_bytes := drop (nat (ih_hl h * 4)) (m_bytes m)\<rparr>"
  let ?f = "\<lparr>ip_hl = ih_hl h, ipf_mff = (ih_off h AND IP_MF \<noteq> 0), ip_len = frag_len h, ip_off = frag_off h, ip_m = ?m # r,
    ip_hdr = take (nat (ih_hl h * 4)) (m_bytes m), ip_at = m_data m\<rparr>"
  have l: "nat (ih_hl h * 4) \<le> length (m_bytes m)" using a(9) by (simp add: m_len_def)
  have w: "mbuf_wf ?m" using mbuf_wf_shrink(3)[OF a(6), of "ih_hl h * 4"] a(8,9) by simp
  have d: "mdata (?m # r) = take (nat (frag_len h)) (drop (nat (frag_off h)) ?D)" using a(10) l by (simp add: c)
  have b: "(if M_PKTHDR m then MLEN - MHLEN else 0) \<le> m_data m" using a(5,6) by (simp add: mbuf_wf_def)
  have hd: "hide_header h (ih_off h AND IP_MF \<noteq> 0) (short (frag_len h)) (sint (push_bit 3 (ih_off h))) c = Ret ?f"
    using a(8,9) by (simp add: hide_header_def c so sl Let_def)
  have pc: "piece ?D ?f" using a(1-5,7,8) o w d b l by (simp add: piece_def)
  show thesis by (rule that[OF hd pc _ _ so]) simp_all
qed

text \<open>One fragment.\<close>

definition arrived :: "(dkey \<Rightarrow> byte list) \<Rightarrow> iphdr \<Rightarrow> (dkey \<Rightarrow> int set) \<Rightarrow> (dkey \<Rightarrow> int set) \<times> bool" where
  "arrived DD h H =
     (let C = H (hkey h) \<union> {frag_off h ..< frag_off h + frag_len h} in
      if C = {0 ..< int (length (DD (hkey h)))} then (H(hkey h := {}), True) else (H(hkey h := C), False))"

lemma frags_join_arrived:
  assumes "queue_ok DD (ipqs st)" and "k < length (ipqs st)" and "hkey h = qkey (ipqs st ! k)"
    and "held (ipqs st) = H(hkey h := H (hkey h) \<union> {frag_off h ..< frag_off h + frag_len h})"
  shows "\<exists>res st'. frags_join k st = Ret (res, st') \<and> queue_ok DD (ipqs st') \<and> mal_answers (ip_mbs st') = mal_answers (ip_mbs st)
    \<and> held (ipqs st') = fst (arrived DD h H)
    \<and> (if snd (arrived DD h H) then \<exists>p. res = Some p \<and> whole (DD (hkey h)) p \<and> hkey (fst p) = hkey h else res = None)"
proof -
  have "held (ipqs st) (hkey h) = H (hkey h) \<union> {frag_off h ..< frag_off h + frag_len h}" using assms(4) by simp
  with frags_join_spec[OF assms(1-3)] assms(4) show ?thesis by (fastforce simp: arrived_def Let_def split: if_splits)
qed

text \<open>No datagram that is all there waits.\<close>

definition waiting :: "(dkey \<Rightarrow> byte list) \<Rightarrow> (dkey \<Rightarrow> int set) \<Rightarrow> bool" where
  "waiting DD H = (\<forall>\<kappa>. DD \<kappa> \<noteq> [] \<longrightarrow> H \<kappa> \<noteq> {0 ..< int (length (DD \<kappa>))})"

lemma arrived_waiting: "waiting DD H \<Longrightarrow> waiting DD (fst (arrived DD h H))"
  by (auto simp: waiting_def arrived_def Let_def)

lemma ip_reass_spec:
  assumes "queue_ok DD (ipqs st)" and "arrives DD (h, c)" and "mal_ok (Suc n) (ip_mbs st)" and "waiting DD (held (ipqs st))"
  shows "\<exists>res st'. ip_reass h (ih_off h AND IP_MF \<noteq> 0) (short (frag_len h)) (sint (push_bit 3 (ih_off h))) c (ip_find h (ipqs st)) st = Ret (res, st')
    \<and> queue_ok DD (ipqs st') \<and> mal_ok n (ip_mbs st') \<and> held (ipqs st') = fst (arrived DD h (held (ipqs st)))
    \<and> (if snd (arrived DD h (held (ipqs st))) then \<exists>p. res = Some p \<and> whole (DD (hkey h)) p \<and> hkey (fst p) = hkey h else res = None)"
proof -
  obtain f where f: "hide_header h (ih_off h AND IP_MF \<noteq> 0) (short (frag_len h)) (sint (push_bit 3 (ih_off h))) c = Ret f"
    "piece (DD (hkey h)) f" "ip_off f = frag_off h" "ip_len f = frag_len h" "sint (push_bit 3 (ih_off h)) = frag_off h"
    using arrives_piece[OF assms(2)] by blast
  have mn: "mal_ok n (ip_mbs st)" using mal_ok_mono[OF assms(3)] by simp
  show ?thesis
  proof (cases "ip_find h (ipqs st)")
    case None
    then have nk: "\<forall>fp \<in> set (ipqs st). qkey fp \<noteq> hkey h" using ip_find_spec[where h = h and qs = "ipqs st"] by simp
    obtain t s1 where s1: "MGET MT_FTABLE (ip_mbs st) = (Some t, s1)" "mal_ok n s1"
      using MGET_spec(4)[of MT_FTABLE "ip_mbs st" _ _ n] assms(3) by (cases "MGET MT_FTABLE (ip_mbs st)") auto
    let ?fp = "\<lparr>ipq_ttl = IPFRAGTTL, ipq_p = ih_p h, ipq_id = ih_id h, ipq_frags = [f], ipq_src = ih_src h, ipq_dst = ih_dst h\<rparr>"
    let ?st = "st\<lparr>ip_mbs := s1, ipqs := ?fp # ipqs st\<rparr>"
    have k: "qkey ?fp = hkey h" by (simp add: qkey_def hkey_def)
    have d: "distinct (map qkey (?fp # ipqs st))" using assms(1) nk k by (auto simp: queue_ok_def)
    then have ok: "queue_ok DD (ipqs ?st)" using assms(1) f(2) k by (simp add: queue_ok_def) (simp add: piece_def)
    have h0: "held (ipqs st) (hkey h) = {}" using nk by (auto simp: held_def)
    have "held (ipqs ?st) = (held (ipqs st))(hkey h := held (ipqs st) (hkey h) \<union> {frag_off h ..< frag_off h + frag_len h})"
      using held_split(1)[of "[]" ?fp "ipqs st"] d k h0 f(3,4) by simp
    from frags_join_arrived[OF ok _ _ this, of 0] k obtain res st' where r: "frags_join 0 ?st = Ret (res, st')" "queue_ok DD (ipqs st')"
      "mal_answers (ip_mbs st') = mal_answers s1" "held (ipqs st') = fst (arrived DD h (held (ipqs st)))"
      "if snd (arrived DD h (held (ipqs st))) then \<exists>p. res = Some p \<and> whole (DD (hkey h)) p \<and> hkey (fst p) = hkey h else res = None" by auto
    have "ip_reass h (ih_off h AND IP_MF \<noteq> 0) (short (frag_len h)) (sint (push_bit 3 (ih_off h))) c (ip_find h (ipqs st)) st = frags_join 0 ?st"
      by (simp add: ip_reass_def f(1) None s1(1))
    moreover have "mal_ok n (ip_mbs st')" using s1(2) r(3) by (simp add: mal_ok_def)
    ultimately show ?thesis using r by (intro exI[of _ res] exI[of _ st'] conjI) simp_all
  next
    case (Some k)
    then have k: "k < length (ipqs st)" "qkey (ipqs st ! k) = hkey h" using ip_find_spec[where h = h and qs = "ipqs st"] by simp_all
    let ?fs = "ipq_frags (ipqs st ! k)"
    have fs: "frags_ok (DD (hkey h)) 0 ?fs" using assms(1) k(2) nth_mem[OF k(1)] unfolding queue_ok_def by metis
    define pre suf where "pre = takeWhile (\<lambda>q. \<not> ip_off q > ip_off f) ?fs" and "suf = dropWhile (\<lambda>q. \<not> ip_off q > ip_off f) ?fs"
    have hk: "held (ipqs st) (hkey h) = spans ?fs"
    proof -
      have "(ipqs st)[k := ipqs st ! k] = ipqs st" by simp
      then show ?thesis using held_split[of "take k (ipqs st)" "ipqs st ! k" "drop (Suc k) (ipqs st)"] id_take_nth_drop[OF k(1)] assms(1) k(2)
        by (metis fun_upd_same queue_ok_def)
    qed
    from frag_place[OF fs f(2) pre_def suf_def, of "ip_mbs st"] show ?thesis
    proof (elim disjE exE conjE)
      assume a: "frag_front pre f = Ret None" "span f \<subseteq> spans ?fs"
      have un: "held (ipqs st) (hkey h) \<union> {frag_off h ..< frag_off h + frag_len h} = held (ipqs st) (hkey h)" using a(2) hk f(3,4) by auto
      have "DD (hkey h) \<noteq> []" using f(2) by (auto simp: piece_def)
      then have "held (ipqs st) (hkey h) \<noteq> {0 ..< int (length (DD (hkey h)))}" using assms(4) unfolding waiting_def by blast
      then have "arrived DD h (held (ipqs st)) = (held (ipqs st), False)" by (simp add: arrived_def un)
      moreover have "ip_reass h (ih_off h AND IP_MF \<noteq> 0) (short (frag_len h)) (sint (push_bit 3 (ih_off h))) c (ip_find h (ipqs st)) st
          = Ret (None, dropfrag (ip_m f) st)"
        by (simp add: ip_reass_def f(1)[unfolded f(5) f(3)[symmetric]] Some Let_def f(5) f(3)[symmetric] pre_def[symmetric] suf_def[symmetric] a(1) del: kbind_eq_Ret)
      moreover have "mal_ok n (ip_mbs (dropfrag (ip_m f) st))" using mn by (simp add: dropfrag_def mal_ok_def m_freem_mal)
      moreover have "ipqs (dropfrag (ip_m f) st) = ipqs st" by (simp add: dropfrag_def)
      ultimately show ?thesis using assms(1) by (intro exI[of _ None] exI[of _ "dropfrag (ip_m f) st"] conjI) simp_all
    next
      fix f1 suf1 s1
      assume a: "frag_front pre f = Ret (Some f1)" "frag_trim f1 suf (ip_mbs st) = Ret (suf1, s1)" "frags_ok (DD (hkey h)) 0 (pre @ f1 # suf1)"
        "spans (pre @ f1 # suf1) = spans ?fs \<union> span f" "mal_answers s1 = mal_answers (ip_mbs st)"
      let ?fp = "(ipqs st ! k)\<lparr>ipq_frags := pre @ f1 # suf1\<rparr>"
      let ?st = "st\<lparr>ip_mbs := s1, ipqs := (ipqs st)[k := ?fp]\<rparr>"
      have q: "qkey ?fp = hkey h" using k(2) by (simp add: qkey_def)
      note u = held_update[OF assms(1) k(1), of ?fp]
      have ok: "queue_ok DD (ipqs ?st)" using u(1) q k(2) a(3) by simp
      have "held (ipqs ?st) = (held (ipqs st))(hkey h := held (ipqs st) (hkey h) \<union> {frag_off h ..< frag_off h + frag_len h})"
        using u(2) q k(2) a(3,4) hk f(3,4) by simp
      from frags_join_arrived[OF ok _ _ this, of k] k(1) q obtain res st' where r: "frags_join k ?st = Ret (res, st')" "queue_ok DD (ipqs st')"
        "mal_answers (ip_mbs st') = mal_answers s1" "held (ipqs st') = fst (arrived DD h (held (ipqs st)))"
        "if snd (arrived DD h (held (ipqs st))) then \<exists>p. res = Some p \<and> whole (DD (hkey h)) p \<and> hkey (fst p) = hkey h else res = None" by auto
      have "ip_reass h (ih_off h AND IP_MF \<noteq> 0) (short (frag_len h)) (sint (push_bit 3 (ih_off h))) c (ip_find h (ipqs st)) st = frags_join k ?st"
        by (simp add: ip_reass_def f(1)[unfolded f(5) f(3)[symmetric]] Some Let_def f(5) f(3)[symmetric] pre_def[symmetric] suf_def[symmetric] a(1,2))
      moreover have "mal_ok n (ip_mbs st')" using mn r(3) a(5) by (simp add: mal_ok_def)
      ultimately show ?thesis using r by (intro exI[of _ res] exI[of _ st'] conjI) simp_all
    qed
  qed
qed

lemma ip_ours_spec:
  assumes "queue_ok DD (ipqs st)" and "waiting DD (held (ipqs st))" and "arrives DD (h, c)" and "mal_ok (Suc n) (ip_mbs st)"
  shows "\<exists>res st'. ip_ours mph h c st = Some (Ret (res, st')) \<and> queue_ok DD (ipqs st') \<and> mal_ok n (ip_mbs st')
    \<and> held (ipqs st') = fst (arrived DD h (held (ipqs st)))
    \<and> (if snd (arrived DD h (held (ipqs st))) then \<exists>p. res = Some p \<and> whole (DD (hkey h)) p \<and> hkey (fst p) = hkey h else res = None)"
proof -
  let ?st = "st\<lparr>ips_fragments := ips_fragments st + 1\<rparr>"
  obtain m r where c: "c = m # r" "\<not> M_EXT m" using assms(3) by (cases c) (auto simp: arrives_def Let_def)
  have mf: "ih_off h AND IP_MF \<noteq> 0 \<or> frag_off h \<noteq> 0" using assms(3) unfolding arrives_def Let_def by blast
  have df: "ih_off h AND NOT IP_DF \<noteq> 0" using mf unfolding frag_off_def by (rule not_whole)
  have so: "sint (push_bit 3 (ih_off h)) = frag_off h" using arrives_piece[OF assms(3)] by blast
  obtain res st' where r: "ip_reass h (ih_off h AND IP_MF \<noteq> 0) (short (frag_len h)) (sint (push_bit 3 (ih_off h))) c (ip_find h (ipqs ?st)) ?st = Ret (res, st')"
    "queue_ok DD (ipqs st')" "mal_ok n (ip_mbs st')" "held (ipqs st') = fst (arrived DD h (held (ipqs st)))"
    "if snd (arrived DD h (held (ipqs st))) then \<exists>p. res = Some p \<and> whole (DD (hkey h)) p \<and> hkey (fst p) = hkey h else res = None"
    using ip_reass_spec[of DD ?st h c n] assms by auto
  have i: "ip_ours mph h c st = Some (frag_input h c st)" using df c by (simp add: ip_ours_def)
  show ?thesis
  proof (cases res)
    case None
    have "frag_input h c st = Ret (None, st')"
      unfolding frag_input_def Let_def frag_len_def[symmetric] using r(1) mf so None by auto
    then show ?thesis using r None i by (auto split: if_splits)
  next
    case (Some p)
    have "frag_input h c st = Ret (deliver p (st'\<lparr>ips_reassembled := ips_reassembled st' + 1\<rparr>))"
      unfolding frag_input_def Let_def frag_len_def[symmetric] using r(1) mf so Some by auto
    then show ?thesis using r Some i by (auto simp: deliver_def split: if_splits)
  qed
qed

section \<open>Any order\<close>

text \<open>Packets arriving one after the other, and what is handed on for each.\<close>

fun frag_run :: "int \<Rightarrow> (iphdr \<times> chain) list \<Rightarrow> ipsys \<Rightarrow> ((iphdr \<times> chain) option list \<times> ipsys) run" where
  "frag_run mph [] st = rret ([], st)"
| "frag_run mph ((h, c) # ps) st =
     rbind (ip_ours mph h c st) (\<lambda>(r, st1). rbind (frag_run mph ps st1) (\<lambda>(rs, st2). rret (r # rs, st2)))"

text \<open>What the spans of the fragments promise: a datagram is handed on with the fragment that completes it.\<close>

fun expected :: "(dkey \<Rightarrow> byte list) \<Rightarrow> (dkey \<Rightarrow> int set) \<Rightarrow> iphdr list \<Rightarrow> byte list option list" where
  "expected DD H [] = []"
| "expected DD H (h # hs) = (if snd (arrived DD h H) then Some (DD (hkey h)) else None) # expected DD (fst (arrived DD h H)) hs"

definition handed_on :: "(iphdr \<times> chain) option \<Rightarrow> byte list option \<Rightarrow> bool" where
  "handed_on r e = (case e of None \<Rightarrow> r = None | Some D \<Rightarrow> (\<exists>p. r = Some p \<and> whole D p))"

lemma frag_run_spec:
  assumes "queue_ok DD (ipqs st)" and "waiting DD (held (ipqs st))" and "\<forall>p \<in> set ps. arrives DD p" and "mal_ok (length ps) (ip_mbs st)"
  shows "\<exists>rs st'. frag_run mph ps st = Some (Ret (rs, st')) \<and> list_all2 handed_on rs (expected DD (held (ipqs st)) (map fst ps))"
  using assms
proof (induction ps arbitrary: st)
  case Nil
  then show ?case by (simp add: rret_def)
next
  case (Cons p ps)
  obtain h c where p: "p = (h, c)" by (cases p)
  have a: "arrives DD (h, c)" "mal_ok (Suc (length ps)) (ip_mbs st)" using Cons(4,5) by (simp_all add: p)
  obtain r st1 where r: "ip_ours mph h c st = Some (Ret (r, st1))" "queue_ok DD (ipqs st1)" "mal_ok (length ps) (ip_mbs st1)"
    "held (ipqs st1) = fst (arrived DD h (held (ipqs st)))"
    "if snd (arrived DD h (held (ipqs st))) then \<exists>p. r = Some p \<and> whole (DD (hkey h)) p \<and> hkey (fst p) = hkey h else r = None"
    using ip_ours_spec[OF Cons(2,3) a] by blast
  have w: "waiting DD (held (ipqs st1))" unfolding r(4) by (rule arrived_waiting[OF Cons(3)])
  obtain rs st2 where rs: "frag_run mph ps st1 = Some (Ret (rs, st2))" "list_all2 handed_on rs (expected DD (held (ipqs st1)) (map fst ps))"
    using Cons(1)[OF r(2) w _ r(3)] Cons(4) by auto
  have "handed_on r (if snd (arrived DD h (held (ipqs st))) then Some (DD (hkey h)) else None)" using r(5) by (auto simp: handed_on_def)
  then show ?case using r(1,4) rs by (simp add: p rret_def)
qed


definition ex_frag :: "u16 \<Rightarrow> byte list \<Rightarrow> iphdr \<times> chain" where
  "ex_frag off bs = (\<lparr>ih_hl = 5, ih_len = 20 + int (length bs), ih_id = 7, ih_off = off, ih_p = 17, ih_src = 1, ih_dst = 2\<rparr>,
     [ex_mbuf (replicate 20 0 @ bs)])"

definition ex_ipsys :: ipsys where
  "ex_ipsys = \<lparr>ipqs = [], ip_mbs = ex_mbsys, ips_fragments = 0, ips_fragdropped = 0, ips_fragtimeout = 0, ips_toosmall = 0,
     ips_reassembled = 0, ips_delivered = 0\<rparr>"


section \<open>Ageing\<close>

definition older :: "ipq \<Rightarrow> ipq" where
  "older fp = fp\<lparr>ipq_ttl := ipq_ttl fp - 1\<rparr>"

lemma slow_ipqs_spec:
  "k \<le> length (ipqs st) \<Longrightarrow>
     ipqs (slow_ipqs k st) = take k (ipqs st) @ map older (filter (\<lambda>fp. ipq_ttl fp \<noteq> 1) (drop k (ipqs st)))
   \<and> ips_fragtimeout (slow_ipqs k st) = ips_fragtimeout st + of_nat (length (filter (\<lambda>fp. ipq_ttl fp = 1) (drop k (ipqs st))))"
proof (induction k st rule: slow_ipqs.induct)
  case (1 k st)
  show ?case
  proof (cases "k < length (ipqs st)")
    case False
    then show ?thesis using 1(3) by (subst (1 2) slow_ipqs.simps) simp
  next
    case True
    define fp st1 where "fp = ipqs st ! k" and "st1 = st\<lparr>ipqs := (ipqs st)[k := older fp]\<rparr>"
    have d: "drop k (ipqs st) = fp # drop (Suc k) (ipqs st)" using True by (simp add: fp_def Cons_nth_drop_Suc)
    have s1: "st\<lparr>ipqs := (ipqs st)[k := (ipqs st ! k)\<lparr>ipq_ttl := ipq_ttl (ipqs st ! k) - 1\<rparr>]\<rparr> = st1"
      by (simp add: st1_def fp_def older_def)
    have t: "ipq_ttl (ipqs st1 ! k) = 0 \<longleftrightarrow> ipq_ttl fp = 1" using True by (simp add: st1_def older_def)
    show ?thesis
    proof (cases "ipq_ttl fp = 1")
      case one: True
      let ?st = "ip_freef k (st1\<lparr>ips_fragtimeout := ips_fragtimeout st1 + 1\<rparr>)"
      have q: "ipqs ?st = take k (ipqs st) @ drop (Suc k) (ipqs st)" "ips_fragtimeout ?st = ips_fragtimeout st + 1"
        using True by (simp_all add: ip_freef_def remque_ipq_def st1_def)
      have "slow_ipqs k st = slow_ipqs k ?st" using True one t by (subst slow_ipqs.simps) (simp add: s1 Let_def)
      moreover have "k \<le> length (ipqs ?st)" using True by (simp add: q)
      note 1(1)[OF True s1[symmetric] _ this, unfolded t]
      ultimately show ?thesis using one True by (simp add: q d)
    next
      case False
      have "slow_ipqs k st = slow_ipqs (Suc k) st1" using True False t by (subst slow_ipqs.simps) (simp add: s1 Let_def)
      moreover have "Suc k \<le> length (ipqs st1)" using True by (simp add: st1_def)
      note 1(2)[OF True s1[symmetric] _ this, unfolded t]
      ultimately show ?thesis using False True by (simp add: st1_def d take_Suc_conv_app_nth nth_append)
    qed
  qed
qed

text \<open>(C11) \<^verbatim>\<open>ip_slowtimo\<close> always returns; it ages every datagram by one, and throws away, with its fragments and counted, exactly those
  whose time runs out; the others keep their place.\<close>

theorem ip_slowtimo_exact:
  "ipqs (ip_slowtimo st) = map older (filter (\<lambda>fp. ipq_ttl fp \<noteq> 1) (ipqs st))
   \<and> ips_fragtimeout (ip_slowtimo st) = ips_fragtimeout st + of_nat (length (filter (\<lambda>fp. ipq_ttl fp = 1) (ipqs st)))"
  using slow_ipqs_spec[of 0 st] by (simp add: ip_slowtimo_def)

section \<open>Two flaws\<close>

text \<open>A first fragment in a cluster whose header has more than 20 bytes of options: only \<^verbatim>\<open>max_protohdr\<close> (40) bytes are pulled up, and
  the header to be hidden is longer than its mbuf (\<^verbatim>\<open>m_len\<close> turns negative).\<close>

lemma frag_options_fault:
  "ip_ours 40 \<lparr>ih_hl = 12, ih_len = 56, ih_id = 7, ih_off = 0x2000, ih_p = 17, ih_src = 1, ih_dst = 2\<rparr>
     [(ex_mbuf (replicate 48 0 @ replicate 8 1))\<lparr>M_EXT := True, ext_size := MCLBYTES\<rparr>] ex_ipsys = Some Fault"
  by (simp add: ip_ours_def IP_DF_def IP_MF_def ex_mbuf_simps ex_ipsys_def ex_mbsys_def m_pullup_def m_pullup_fill_def m_pullup_loop.simps
      MGET_def MGET_once_def kmalloc_def frag_input_def ip_reass_def hide_header_def Let_def)

text \<open>The packet header of a reassembled datagram still has the length of the first fragment.\<close>

lemma reassembled_pktlen:
  "\<exists>p st'. frag_run 40
      [(fst (ex_frag 0x2000 [1, 2, 3, 4, 5, 6, 7, 8]), [ex_pkt (replicate 20 0 @ [1, 2, 3, 4, 5, 6, 7, 8]) 28]),
       (fst (ex_frag 1 [9, 10]), [ex_pkt (replicate 20 0 @ [9, 10]) 22])] ex_ipsys = Some (Ret ([None, Some p], st'))
     \<and> ih_len (fst p) = 10 \<and> mdata (snd p) = replicate 20 0 @ [1, 2, 3, 4, 5, 6, 7, 8, 9, 10] \<and> pkt_len (m_pkthdr (hd (snd p))) = 28"
  by (simp add: ip_ours_def IP_DF_def IP_MF_def ex_frag_def ex_pkt_def ex_mbuf_simps ex_ipsys_def ex_mbsys_def rret_def mdata_def
      MGET_def MGET_once_def kmalloc_def frag_input_def ip_reass_def hide_header_def frags_join_def of_datagram_def frag_front_def short_id
      m_cat_def show_header_def deliver_def Let_def)

end
