(* ===== verification/Mbuf_Ops.thy ===== *)
theory Mbuf_Ops
  imports Mbuf
begin

text \<open>
  The chain operations of \<^verbatim>\<open>sys/kern/uipc_mbuf.c\<close> one after the other: a chain whose mbufs keep their data inside their buffers
  stays such a chain, so that no later operation finds one it was not written for.
\<close>

section \<open>Prepending\<close>

lemma m_prepend_wf:
  assumes "chain_wf c" and "c \<noteq> []" and "0 \<le> len" and "len \<le> MHLEN"
  shows "\<exists>res s'. m_prepend c len s = Ret (res, s') \<and>
    (\<forall>c'. res = Some c' \<longrightarrow> chain_wf c' \<and> c' \<noteq> [] \<and> int (length (mdata c')) = len + int (length (mdata c)) \<and> drop (nat len) (mdata c') = mdata c)"
proof -
  obtain m r where c: "c = m # r" using assms(2) by (cases c) auto
  obtain g s1 where g: "MGET (m_type m) s = (g, s1)" by fastforce
  from MGET_spec(1)[OF g] show ?thesis
  proof
    assume "g = None"
    then show ?thesis using g by (simp add: m_prepend_def c)
  next
    assume "g = Some (new_mbuf (m_type m))"
    then show ?thesis using g assms(1,3,4)
      by (auto simp: m_prepend_def c Let_def M_COPY_PKTHDR_def MH_ALIGN_def long_align_def mbuf_wf_def m_len_def new_mbuf_def mbuf_consts split: if_splits)
  qed
qed

lemma M_PREPEND_wf:
  assumes "chain_wf c" and "c \<noteq> []" and "0 \<le> len" and "len \<le> MHLEN"
  shows "\<exists>res s'. M_PREPEND c len s = Ret (res, s') \<and>
    (\<forall>c'. res = Some c' \<longrightarrow> chain_wf c' \<and> c' \<noteq> [] \<and> drop (nat len) (mdata c') = mdata c)"
proof -
  obtain m r where c: "c = m # r" using assms(2) by (cases c) auto
  show ?thesis
  proof (cases "M_LEADINGSPACE m \<ge> len")
    case True
    then show ?thesis using assms(1,3)
      by (auto simp: M_PREPEND_def c M_LEADINGSPACE_def mbuf_wf_def m_len_def mbuf_consts split: if_splits)
  next
    case False
    obtain res s' where p: "m_prepend (m # r) len s = Ret (res, s')"
      "\<forall>c'. res = Some c' \<longrightarrow> chain_wf c' \<and> c' \<noteq> [] \<and> drop (nat len) (mdata c') = mdata c"
      using m_prepend_wf[OF assms, of s] unfolding c by blast
    show ?thesis
    proof (cases res)
      case None
      then show ?thesis using p False by (simp add: M_PREPEND_def c)
    next
      case (Some d)
      then obtain n t where d: "d = n # t" using p(2) by (cases d) auto
      then show ?thesis using p False Some by (auto simp: M_PREPEND_def c mbuf_wf_def m_len_def)
    qed
  qed
qed

section \<open>Sequences of operations\<close>

datatype chain_op = Adj int | Pullup int | Prepend int | Cat chain

primrec chain_step :: "int \<Rightarrow> chain_op \<Rightarrow> chain \<Rightarrow> mbsys \<Rightarrow> (chain option \<times> mbsys) run" where
  "chain_step mph (Adj n) c s = Some (kmap (\<lambda>c. (Some c, s)) (m_adj c n))"
| "chain_step mph (Pullup n) c s =
     (case m_pullup mph c n s of Ret r \<Rightarrow> map_option Ret r | Panic e \<Rightarrow> Some (Panic e) | Fault \<Rightarrow> Some Fault)"
| "chain_step mph (Prepend n) c s = Some (M_PREPEND c n s)"
| "chain_step mph (Cat d) c s = Some (kmap (\<lambda>(c, s). (Some c, s)) (m_cat c d s))"

text \<open>A chain an operation could not serve is freed, and nothing follows.\<close>

fun chain_run :: "int \<Rightarrow> chain_op list \<Rightarrow> chain \<Rightarrow> mbsys \<Rightarrow> (chain option \<times> mbsys) run" where
  "chain_run mph [] c s = rret (Some c, s)"
| "chain_run mph (p # ps) c s =
     rbind (chain_step mph p c s) (\<lambda>(r, s1). case r of None \<Rightarrow> rret (None, s1) | Some c1 \<Rightarrow> chain_run mph ps c1 s1)"

primrec op_ok :: "chain_op \<Rightarrow> bool" where
  "op_ok (Adj n) = True"
| "op_ok (Pullup n) = (0 < n)"
| "op_ok (Prepend n) = (0 \<le> n \<and> n \<le> MHLEN)"
| "op_ok (Cat d) = chain_wf d"

text \<open>What becomes of the bytes; \<open>Prepend\<close> leaves the new ones open.\<close>

primrec op_bytes :: "chain_op \<Rightarrow> byte list \<Rightarrow> byte list \<Rightarrow> bool" where
  "op_bytes (Adj n) bs bs' = (bs' = (if n \<ge> 0 then drop (nat n) bs else take (length bs - nat (- n)) bs))"
| "op_bytes (Pullup n) bs bs' = (bs' = bs)"
| "op_bytes (Prepend n) bs bs' = (drop (nat n) bs' = bs)"
| "op_bytes (Cat d) bs bs' = (bs' = bs @ mdata d)"

lemma chain_step_wf:
  assumes "chain_wf c" and "c \<noteq> []" and "op_ok p"
  shows "\<exists>r s'. chain_step mph p c s = Some (Ret (r, s')) \<and> (\<forall>c'. r = Some c' \<longrightarrow> chain_wf c' \<and> c' \<noteq> [] \<and> op_bytes p (mdata c) (mdata c'))"
proof (cases p)
  case (Adj n)
  obtain c' where "m_adj c n = Ret c'" "chain_wf c'" "length c' = length c"
    "mdata c' = (if n \<ge> 0 then drop (nat n) (mdata c) else take (length (mdata c) - nat (- n)) (mdata c))" using m_adj_data[OF assms(1)] by blast
  then show ?thesis using Adj assms(2) by auto
next
  case (Pullup n)
  have n: "0 < n" using assms(3) by (simp add: Pullup)
  obtain r s' where "m_pullup mph c n s = Ret (Some (r, s'))" "pulled_up c n s r" using m_pullup_spec[OF assms(1,2) n] by blast
  then show ?thesis by (auto simp: Pullup pulled_up_def split: option.splits)
next
  case (Prepend n)
  then show ?thesis using M_PREPEND_wf[OF assms(1,2)] assms(3) by simp
next
  case (Cat d)
  have "chain_wf d" using assms(3) by (simp add: Cat)
  then obtain e s' where e: "m_cat c d s = Ret (e, s')" "chain_wf e" "mdata e = mdata c @ mdata d" using m_cat_exact[OF assms(1) _ assms(2)] by blast
  have "e \<noteq> []"
  proof -
    obtain l s2 where l: "m_cat_loop (last c) d s = (l, s2)" by fastforce
    have "mbuf_wf (last c)" using assms(1,2) chain_wf_simps(3)[of "butlast c" "[last c]"] by simp
    then have "l \<noteq> []" using m_cat_loop_spec[OF _ \<open>chain_wf d\<close> l] by blast
    then show ?thesis using l e(1) assms(2) by (auto simp: m_cat_def)
  qed
  then show ?thesis using e by (simp add: Cat)
qed

lemma chain_run_wf:
  "chain_wf c \<Longrightarrow> c \<noteq> [] \<Longrightarrow> \<forall>p \<in> set ps. op_ok p \<Longrightarrow>
   \<exists>r s'. chain_run mph ps c s = Some (Ret (r, s')) \<and> (\<forall>c'. r = Some c' \<longrightarrow> chain_wf c' \<and> c' \<noteq> [])"
proof (induction ps arbitrary: c s)
  case Nil
  then show ?case by (simp add: rret_def)
next
  case (Cons p ps)
  obtain r s1 where r: "chain_step mph p c s = Some (Ret (r, s1))" "\<forall>c'. r = Some c' \<longrightarrow> chain_wf c' \<and> c' \<noteq> []"
    using chain_step_wf[OF Cons(2,3), of p mph s] Cons(4) by auto
  show ?case
  proof (cases r)
    case None
    then show ?thesis using r(1) by (simp add: rret_def)
  next
    case (Some c1)
    then show ?thesis using r Cons(1)[of c1 s1] Cons(4) by simp
  qed
qed

text \<open>(C21) Well-formedness of chains.  Any sequence of \<^verbatim>\<open>m_adj\<close> (head or tail), \<^verbatim>\<open>m_pullup\<close>, \<^verbatim>\<open>M_PREPEND\<close> (of at most \<^verbatim>\<open>MHLEN\<close> bytes) and \<^verbatim>\<open>m_cat\<close>
  on a well-formed chain returns, without panic or access outside a buffer, whatever the allocator answers; what is left is again a well-formed
  chain, or nothing when an operation failed.\<close>

theorem chain_ops_wf:
  assumes "chain_wf c" and "c \<noteq> []" and "\<forall>p \<in> set ps. op_ok p"
  shows "\<exists>r s'. chain_run mph ps c s = Some (Ret (r, s')) \<and> (\<forall>c'. r = Some c' \<longrightarrow> chain_wf c' \<and> c' \<noteq> [])"
  using assms by (rule chain_run_wf)

theorem chain_ops_wf_witness:
  "\<exists>r s'. chain_run 40 [Adj 1, Cat [ex_mbuf [4]], Prepend 20, Pullup 22, Adj (-1)] [ex_mbuf [1, 2, 3]] ex_mbsys = Some (Ret (r, s'))
     \<and> (\<forall>c'. r = Some c' \<longrightarrow> chain_wf c' \<and> c' \<noteq> [])"
  using chain_ops_wf[of "[ex_mbuf [1, 2, 3]]" "[Adj 1, Cat [ex_mbuf [4]], Prepend 20, Pullup 22, Adj (-1)]" 40 ex_mbsys]
  by (simp add: ex_mbuf_simps del: chain_run.simps)

end
