(* ===== verification/Sl_Compress.thy ===== *)
theory Sl_Compress
  imports Cksum "HOL-Library.Multiset"
begin

unbundle bit_operations_syntax

text \<open>
  Van Jacobson's compression of TCP/IP headers, \<^verbatim>\<open>sys/net/slcompress.c\<close>.  A header is a record with its fields in host order, its options
  as bytes; a packet on the line is an ordinary one, one whose protocol field carries a connection number, or a compressed one, whose
  bytes are modelled.  The circular list of transmit states is the list that starts at \<^verbatim>\<open>last_cs->cs_next\<close>.  Alignment of the
  receive buffer, which \<^verbatim>\<open>ovbcopy\<close> restores, and the statistics are left out.  The lemmas lead to the round trip: what one end
  compresses the other restores, header and checksum included.
\<close>

section \<open>Headers and packets\<close>

text \<open>\<^verbatim>\<open>struct ip\<close> and \<^verbatim>\<open>struct tcphdr\<close>; the IP checksum as the machine reads it.\<close>

record slhdr =
  s_ver :: nat
  s_hl :: nat
  s_tos :: byte
  s_len :: u16
  s_id :: u16
  s_off :: u16
  s_ttl :: byte
  s_p :: byte
  s_sum :: u16
  s_src :: u32
  s_dst :: u32
  s_opts :: "byte list"
  t_sport :: u16
  t_dport :: u16
  t_seqno :: u32
  t_ackno :: u32
  t_offset :: nat
  t_x2 :: nat
  t_flagbits :: byte
  t_win :: u16
  t_cksum :: u16
  t_urp :: u16
  t_opts :: "byte list"

datatype slpkt = SlIp slhdr "byte list" | SlUncompressed slhdr "byte list" | SlCompressed "byte list"

definition slhdr_zero :: slhdr where
  "slhdr_zero = \<lparr>s_ver = 0, s_hl = 0, s_tos = 0, s_len = 0, s_id = 0, s_off = 0, s_ttl = 0, s_p = 0, s_sum = 0, s_src = 0, s_dst = 0, s_opts = [],
     t_sport = 0, t_dport = 0, t_seqno = 0, t_ackno = 0, t_offset = 0, t_x2 = 0, t_flagbits = 0, t_win = 0, t_cksum = 0, t_urp = 0, t_opts = []\<rparr>"

definition sl_hlen :: "slhdr \<Rightarrow> nat" where
  "sl_hlen h = 4 * (s_hl h + t_offset h)"

definition NEW_C :: byte where "NEW_C = 0x40"
definition NEW_I :: byte where "NEW_I = 0x20"
definition TCP_PUSH_BIT :: byte where "TCP_PUSH_BIT = 0x10"
definition NEW_S :: byte where "NEW_S = 0x08"
definition NEW_A :: byte where "NEW_A = 0x04"
definition NEW_W :: byte where "NEW_W = 0x02"
definition NEW_U :: byte where "NEW_U = 0x01"
definition SPECIAL_I :: byte where "SPECIAL_I = 0x0b"
definition SPECIAL_D :: byte where "SPECIAL_D = 0x0f"
definition MAX_STATES :: nat where "MAX_STATES = 16"
definition MAX_HDR :: nat where "MAX_HDR = nat MLEN"
definition IPPROTO_TCP :: byte where "IPPROTO_TCP = 6"

lemmas sl_bits = NEW_C_def NEW_I_def TCP_PUSH_BIT_def NEW_S_def NEW_A_def NEW_W_def NEW_U_def SPECIAL_I_def SPECIAL_D_def

text \<open>The flag bits of TCP that are looked at.\<close>

definition TH_PUSHBIT :: byte where "TH_PUSHBIT = 0x08"
definition TH_URGBIT :: byte where "TH_URGBIT = 0x20"
definition TH_CONTROL :: byte where "TH_CONTROL = 0x17"
definition TH_ACKBIT :: byte where "TH_ACKBIT = 0x10"

section \<open>Numbers\<close>

definition hi8 :: "u16 \<Rightarrow> byte" where "hi8 n = ucast (drop_bit 8 n)"
definition lo8 :: "u16 \<Rightarrow> byte" where "lo8 n = ucast n"
definition get16 :: "byte \<Rightarrow> byte \<Rightarrow> u16" where "get16 a b = push_bit 8 (ucast a) OR ucast b"

definition ENCODE :: "u16 \<Rightarrow> byte list" where
  "ENCODE n = (if n \<ge> 256 then [0, hi8 n, lo8 n] else [lo8 n])"

definition ENCODEZ :: "u16 \<Rightarrow> byte list" where
  "ENCODEZ n = (if n \<ge> 256 \<or> n = 0 then [0, hi8 n, lo8 n] else [lo8 n])"

text \<open>The number at the front, and the bytes behind it.\<close>

fun decode :: "byte list \<Rightarrow> (u16 \<times> byte list) kres" where
  "decode (c # r) =
     (if c = 0 then case r of a # b # r1 \<Rightarrow> Ret (get16 a b, r1) | _ \<Rightarrow> Fault
      else Ret (ucast c, r))"
| "decode [] = Fault"

section \<open>Compression\<close>

record sltx =
  tstate :: "(byte \<times> slhdr) list"
  last_xmit :: byte

text \<open>The same conversation: addresses and ports.\<close>

definition sl_match :: "slhdr \<Rightarrow> slhdr \<Rightarrow> bool" where
  "sl_match h c = (s_src h = s_src c \<and> s_dst h = s_dst c \<and> t_sport h = t_sport c \<and> t_dport h = t_dport c)"

text \<open>The state found, moved to the front; or the oldest, to be used again.\<close>

definition sl_lookup :: "slhdr \<Rightarrow> (byte \<times> slhdr) list \<Rightarrow> bool \<times> (byte \<times> slhdr) list" where
  "sl_lookup h ts =
     (let pre = takeWhile (\<lambda>c. \<not> sl_match h (snd c)) ts; suf = dropWhile (\<lambda>c. \<not> sl_match h (snd c)) ts in
      case suf of
        [] \<Rightarrow> (False, last ts # butlast ts)
      | c # r \<Rightarrow> (True, c # pre @ r))"

text \<open>What must not have changed.\<close>

definition sl_same :: "slhdr \<Rightarrow> slhdr \<Rightarrow> bool" where
  "sl_same h c = (s_ver h = s_ver c \<and> s_hl h = s_hl c \<and> s_tos h = s_tos c \<and> s_off h = s_off c \<and> s_ttl h = s_ttl c \<and> s_p h = s_p c
     \<and> t_offset h = t_offset c \<and> (s_hl h > 5 \<longrightarrow> s_opts h = s_opts c) \<and> (t_offset h > 5 \<longrightarrow> t_opts h = t_opts c))"

text \<open>The changes of urgent pointer, window, acknowledgement and sequence number: mask, encoding and the last two differences; \<open>None\<close>, the
  packet cannot be compressed.\<close>

definition sl_deltas :: "slhdr \<Rightarrow> slhdr \<Rightarrow> (byte \<times> byte list \<times> u32 \<times> u32) option" where
  "sl_deltas h c =
     (let urg = (t_flagbits h AND TH_URGBIT \<noteq> 0);
          (m0, e0) = (if urg then (NEW_U, ENCODEZ (t_urp h)) else (0, []));
          dW = t_win h - t_win c;
          (m1, e1) = (if dW \<noteq> 0 then (m0 OR NEW_W, e0 @ ENCODE dW) else (m0, e0));
          dA = t_ackno h - t_ackno c;
          (m2, e2) = (if dA \<noteq> 0 then (m1 OR NEW_A, e1 @ ENCODE (ucast dA)) else (m1, e1));
          dS = t_seqno h - t_seqno c;
          (m3, e3) = (if dS \<noteq> 0 then (m2 OR NEW_S, e2 @ ENCODE (ucast dS)) else (m2, e2))
      in if \<not> urg \<and> t_urp h \<noteq> t_urp c then None
         else if dA > 0xffff \<or> dS > 0xffff then None
         else Some (m3, e3, dA, dS))"

text \<open>The \<^verbatim>\<open>switch\<close>: the special encodings, and the changes that look like them.\<close>

definition sl_special :: "slhdr \<Rightarrow> slhdr \<Rightarrow> byte \<times> byte list \<times> u32 \<times> u32 \<Rightarrow> (byte \<times> byte list) option" where
  "sl_special h c = (\<lambda>(m, e, dA, dS).
     let dlen = ucast (s_len c) - of_nat (sl_hlen h) :: u32 in
     if m = 0 then (if s_len h \<noteq> s_len c \<and> unat (s_len c) = sl_hlen h then Some (m, e) else None)
     else if m = SPECIAL_I \<or> m = SPECIAL_D then None
     else if m = NEW_S OR NEW_A then (if dS = dA \<and> dS = dlen then Some (SPECIAL_I, []) else Some (m, e))
     else if m = NEW_S then (if dS = dlen then Some (SPECIAL_D, []) else Some (m, e))
     else Some (m, e))"

definition sl_changes :: "slhdr \<Rightarrow> slhdr \<Rightarrow> (byte \<times> byte list) option" where
  "sl_changes h c =
     (if \<not> sl_same h c then None
      else case sl_deltas h c of None \<Rightarrow> None
      | Some d \<Rightarrow>
          (case sl_special h c d of None \<Rightarrow> None
           | Some (m, e) \<Rightarrow>
               let (m1, e1) = (if int (unat (s_id h)) - int (unat (s_id c)) \<noteq> 1 then (m OR NEW_I, e @ ENCODEZ (s_id h - s_id c)) else (m, e))
               in Some (if t_flagbits h AND TH_PUSHBIT \<noteq> 0 then m1 OR TCP_PUSH_BIT else m1, e1)))"

text \<open>A header longer than the state has room for; or one too short, whose fields overlap, which the record cannot hold.\<close>

definition sl_badlen :: "slhdr \<Rightarrow> bool" where
  "sl_badlen h = (MAX_HDR < sl_hlen h \<or> s_hl h < 5 \<or> t_offset h < 5)"

text \<open>\<open>mlen\<close> is the length of the packet's first mbuf; a header beyond it or of a bad length is a \<open>Fault\<close>.\<close>

definition sl_compress_tcp :: "slhdr \<Rightarrow> byte list \<Rightarrow> nat \<Rightarrow> bool \<Rightarrow> sltx \<Rightarrow> (slpkt \<times> sltx) kres" where
  "sl_compress_tcp h d mlen compress_cid st =
     (if s_off h AND 0x3fff \<noteq> 0 \<or> mlen < 40 then Ret (SlIp h d, st)
      else if t_flagbits h AND TH_CONTROL \<noteq> TH_ACKBIT then Ret (SlIp h d, st)
      else if mlen < sl_hlen h \<or> sl_badlen h then Fault
      else case sl_lookup h (tstate st) of
        (_, []) \<Rightarrow> Fault
      | (found, (cid, c) # r) \<Rightarrow>
          (case (if found then sl_changes h c else None) of
             None \<Rightarrow> Ret (SlUncompressed (h\<lparr>s_p := cid\<rparr>) d, st\<lparr>tstate := (cid, h) # r, last_xmit := cid\<rparr>)
           | Some (m, e) \<Rightarrow>
               if \<not> compress_cid \<or> last_xmit st \<noteq> cid
               then Ret (SlCompressed ([m OR NEW_C, cid, hi8 (t_cksum h), lo8 (t_cksum h)] @ e @ d),
                         st\<lparr>tstate := (cid, h) # r, last_xmit := cid\<rparr>)
               else Ret (SlCompressed ([m, hi8 (t_cksum h), lo8 (t_cksum h)] @ e @ d), st\<lparr>tstate := (cid, h) # r\<rparr>)))"

section \<open>Restoring\<close>

record slrx =
  rstate :: "byte \<Rightarrow> slhdr \<times> nat"
  last_recv :: byte
  sl_toss :: bool

definition sl_compress_init :: "sltx \<times> slrx" where
  "sl_compress_init =
     (\<lparr>tstate = map (\<lambda>i. (of_nat i, slhdr_zero)) (rev [0 ..< MAX_STATES]), last_xmit = 255\<rparr>,
      \<lparr>rstate = (\<lambda>_. (slhdr_zero, 0)), last_recv = 255, sl_toss = False\<rparr>)"

text \<open>The bytes of the IP header, its checksum zero, and the sum over them.\<close>

definition put16 :: "u16 \<Rightarrow> byte list" where "put16 n = [hi8 n, lo8 n]"
definition put32 :: "u32 \<Rightarrow> byte list" where "put32 n = put16 (ucast (drop_bit 16 n)) @ put16 (ucast n)"

definition ip_bytes :: "slhdr \<Rightarrow> byte list" where
  "ip_bytes h = [of_nat (16 * s_ver h + s_hl h), s_tos h] @ put16 (s_len h) @ put16 (s_id h) @ put16 (s_off h) @ [s_ttl h, s_p h, 0, 0]
     @ put32 (s_src h) @ put32 (s_dst h) @ s_opts h"

definition sl_ipsum :: "bool \<Rightarrow> slhdr \<Rightarrow> u16" where
  "sl_ipsum be h =
     (let changes = sum_list (words16 be (ip_bytes h));
          changes = changes mod 65536 + changes div 65536;
          changes = changes mod 65536 + changes div 65536
      in NOT (of_nat changes))"

text \<open>The fields of the saved header after the mask \<open>m\<close>, and what is left of the bytes.\<close>

definition sl_fields :: "byte \<Rightarrow> slhdr \<Rightarrow> nat \<Rightarrow> byte list \<Rightarrow> (slhdr \<times> byte list) kres" where
  "sl_fields m c hlen bs =
     (let i = ucast (s_len c) - of_nat hlen :: u32 in
      if m AND SPECIAL_D = SPECIAL_I then Ret (c\<lparr>t_ackno := t_ackno c + i, t_seqno := t_seqno c + i\<rparr>, bs)
      else if m AND SPECIAL_D = SPECIAL_D then Ret (c\<lparr>t_seqno := t_seqno c + i\<rparr>, bs)
      else
        kbind (if m AND NEW_U \<noteq> 0
               then kmap (\<lambda>(n, r). (c\<lparr>t_flagbits := t_flagbits c OR TH_URGBIT, t_urp := n\<rparr>, r)) (decode bs)
               else Ret (c\<lparr>t_flagbits := t_flagbits c AND NOT TH_URGBIT\<rparr>, bs)) (\<lambda>(c, bs).
        kbind (if m AND NEW_W \<noteq> 0 then kmap (\<lambda>(n, r). (c\<lparr>t_win := t_win c + n\<rparr>, r)) (decode bs) else Ret (c, bs)) (\<lambda>(c, bs).
        kbind (if m AND NEW_A \<noteq> 0 then kmap (\<lambda>(n, r). (c\<lparr>t_ackno := t_ackno c + ucast n\<rparr>, r)) (decode bs) else Ret (c, bs)) (\<lambda>(c, bs).
        if m AND NEW_S \<noteq> 0 then kmap (\<lambda>(n, r). (c\<lparr>t_seqno := t_seqno c + ucast n\<rparr>, r)) (decode bs) else Ret (c, bs)))))"

definition sl_ident :: "byte \<Rightarrow> slhdr \<Rightarrow> byte list \<Rightarrow> (slhdr \<times> byte list) kres" where
  "sl_ident m c bs =
     (if m AND NEW_I \<noteq> 0 then kmap (\<lambda>(n, r). (c\<lparr>s_id := s_id c + n\<rparr>, r)) (decode bs) else Ret (c\<lparr>s_id := s_id c + 1\<rparr>, bs))"

text \<open>The packet restored, if any; a state that no header was saved in is a \<open>Fault\<close>.  \<open>junk\<close> stands for the memory behind the packet, which a truncated one makes the code read.\<close>

definition sl_bad :: "slrx \<Rightarrow> (slhdr \<times> byte list) option \<times> slrx" where
  "sl_bad st = (None, st\<lparr>sl_toss := True\<rparr>)"

definition sl_rebuild :: "bool \<Rightarrow> byte \<Rightarrow> byte list \<Rightarrow> byte list \<Rightarrow> nat \<Rightarrow> slrx \<Rightarrow> ((slhdr \<times> byte list) option \<times> slrx) kres" where
  "sl_rebuild be m bs junk used st =
     (if MAX_STATES \<le> unat (last_recv st) then Fault
      else let (c, hlen) = rstate st (last_recv st) in
      if s_hl c < 5 then Fault else
      case drop used (bs @ junk) of
        a # b # r \<Rightarrow>
          let c1 = c\<lparr>t_cksum := get16 a b, t_flagbits := (if m AND TCP_PUSH_BIT \<noteq> 0 then t_flagbits c OR TH_PUSHBIT else t_flagbits c AND NOT TH_PUSHBIT)\<rparr>
          in kbind (sl_fields m c1 hlen r) (\<lambda>(c2, r2).
             kmap (\<lambda>(c3, r3).
               let len = int (length bs) - (int (length (bs @ junk)) - int (length r3)) in
               if len < 0 then sl_bad (st\<lparr>rstate := (rstate st)(last_recv st := (c3, hlen))\<rparr>)
               else let c4 = c3\<lparr>s_len := of_int (len + int hlen)\<rparr> in
                 (Some (c4\<lparr>s_sum := sl_ipsum be c4\<rparr>, take (nat len) r3), st\<lparr>rstate := (rstate st)(last_recv st := (c4, hlen))\<rparr>))
               (sl_ident m c2 r2))
      | _ \<Rightarrow> Fault)"

definition sl_uncompress_tcp :: "bool \<Rightarrow> slpkt \<Rightarrow> byte list \<Rightarrow> slrx \<Rightarrow> ((slhdr \<times> byte list) option \<times> slrx) kres" where
  "sl_uncompress_tcp be p junk st =
     (case p of
        SlIp h d \<Rightarrow> Ret (sl_bad st)
      | SlUncompressed h d \<Rightarrow>
          if unat (s_p h) \<ge> MAX_STATES then Ret (sl_bad st)
          else if sl_badlen h then Fault
          else let h1 = h\<lparr>s_p := IPPROTO_TCP\<rparr> in
            Ret (Some (h1, d), st\<lparr>rstate := (rstate st)(s_p h := (h1\<lparr>s_sum := 0\<rparr>, sl_hlen h)), last_recv := s_p h, sl_toss := False\<rparr>)
      | SlCompressed bs \<Rightarrow>
          (case bs @ junk of
             [] \<Rightarrow> Fault
           | m # r \<Rightarrow>
               if m AND NEW_C \<noteq> 0
               then case r of [] \<Rightarrow> Fault
                 | cid # _ \<Rightarrow>
                     if unat cid \<ge> MAX_STATES then Ret (sl_bad st)
                     else sl_rebuild be m bs junk 2 (st\<lparr>last_recv := cid, sl_toss := False\<rparr>)
               else if sl_toss st then Ret (None, st)
               else sl_rebuild be m bs junk 1 st))"

section \<open>Numbers come back\<close>

lemma get16_halves: "get16 (hi8 n) (lo8 n) = n"
proof (rule bit_word_eqI)
  fix i
  assume "i < LENGTH(16)"
  then show "bit (get16 (hi8 n) (lo8 n)) i = bit n i" by (cases "i < 8") (auto simp: get16_def hi8_def lo8_def bit_simps)
qed

lemma lo8_small:
  assumes "\<not> n \<ge> 256"
  shows "ucast (lo8 n) = n"
proof -
  have "unat n < 256" using assms by (simp add: word_le_nat_alt not_le)
  then have "unat (lo8 n) = unat n" by (simp add: lo8_def unsigned_ucast_eq take_bit_eq_mod)
  moreover have "unat (ucast (lo8 n) :: u16) = unat (lo8 n)"
    using unsigned_less[where 'a = nat, of "lo8 n"] by (simp add: unsigned_ucast_eq take_bit_eq_mod)
  ultimately show ?thesis by (simp only: word_unat_eq_iff)
qed

lemma ENCODE_decode: "n \<noteq> 0 \<Longrightarrow> decode (ENCODE n @ r) = Ret (n, r)"
proof -
  assume n: "n \<noteq> 0"
  show ?thesis
  proof (cases "n \<ge> 256")
    case True
    then show ?thesis by (simp add: ENCODE_def get16_halves)
  next
    case False
    then have "lo8 n \<noteq> 0" using lo8_small[OF False] n by auto
    then show ?thesis using False lo8_small[OF False] by (simp add: ENCODE_def)
  qed
qed

lemma ENCODEZ_decode: "decode (ENCODEZ n @ r) = Ret (n, r)"
proof (cases "n = 0")
  case True
  then show ?thesis by (simp add: ENCODEZ_def) (simp add: get16_halves[of 0])
next
  case False
  then show ?thesis using ENCODE_decode[OF False] by (simp add: ENCODEZ_def ENCODE_def)
qed

lemma ucast_small:
  fixes x :: u32
  assumes "x \<le> 0xffff"
  shows "ucast (ucast x :: u16) = x"
proof -
  have "ucast (ucast x :: u16) = take_bit 16 x" by (rule bit_word_eqI) (auto simp: bit_simps)
  also have "\<dots> = x mod 65536" by (simp add: take_bit_eq_mod)
  also have "unat (x mod 65536) = unat x" using assms by (simp add: unat_mod word_le_nat_alt)
  then have "x mod 65536 = x" by (simp only: word_unat_eq_iff)
  finally show ?thesis .
qed

section \<open>Flags come back\<close>

lemma and_bit: "f AND push_bit n 1 = (if bit f n then push_bit n 1 else 0)" for f :: byte
  by (rule bit_word_eqI) (auto simp: bit_simps)

lemma ack_flags:
  fixes f :: byte
  assumes "f AND TH_CONTROL = TH_ACKBIT" and "f AND 0xc0 = 0"
  shows "f = 0x10 \<or> f = 0x18 \<or> f = 0x30 \<or> f = 0x38"
proof -
  have "(0xff :: byte) = - 1" by simp
  then have "f = f AND 0xff" by (simp only: and.right_neutral)
  also have "\<dots> = (f AND 0x17) OR (f AND 0xc0) OR (f AND 0x08) OR (f AND 0x20)"
    by (simp flip: bit.conj_disj_distrib)
  finally have f: "f = 0x10 OR (f AND 0x08) OR (f AND 0x20)" using assms by (simp add: TH_CONTROL_def TH_ACKBIT_def)
  have "f AND 0x08 = 0 \<or> f AND 0x08 = 0x08" "f AND 0x20 = 0 \<or> f AND 0x20 = 0x20" using and_bit[of f 3] and_bit[of f 5] by (auto split: if_splits)
  then show ?thesis using f by auto
qed

lemma ack_flags_restored:
  assumes "f AND TH_CONTROL = TH_ACKBIT" and "f AND 0xc0 = 0" and "g AND TH_CONTROL = TH_ACKBIT" and "g AND 0xc0 = 0"
    and "p = (if f AND TH_PUSHBIT \<noteq> 0 then g OR TH_PUSHBIT else g AND NOT TH_PUSHBIT)"
  shows "f AND TH_URGBIT \<noteq> 0 \<Longrightarrow> p OR TH_URGBIT = f" and "f AND TH_URGBIT = 0 \<Longrightarrow> p AND NOT TH_URGBIT = f"
    and "f AND TH_URGBIT = 0 \<Longrightarrow> g AND TH_URGBIT = 0 \<Longrightarrow> p = f"
  using ack_flags[OF assms(1,2)] ack_flags[OF assms(3,4)] unfolding assms(5)
  by (elim disjE; simp add: TH_PUSHBIT_def TH_URGBIT_def)+

section \<open>The IP checksum\<close>

lemma sum_words16: "sum_list (words16 be bs) = true_sum be bs"
  by (induction be bs rule: words16.induct) (simp_all add: unat_half)

lemma fold_rep: "rep (s mod 65536 + s div 65536) s"
proof -
  have "s = s mod 65536 + 65536 * (s div 65536)" by simp
  moreover have "rep (s mod 65536 + s div 65536) (s mod 65536 + 65536 * (s div 65536))" by (rule rep_add[OF rep_refl rep_sym[OF rep_shift]])
  ultimately show ?thesis by simp
qed

lemma true_sum_le_bytes: "true_sum be bs \<le> 65280 * length bs" "swapped_sum be bs \<le> 65280 * length bs"
proof (induction bs)
  case (Cons x bs)
  have x: "unat x \<le> 255" using unsigned_less[where 'a = nat, of x] by simp
  case 1
  show ?case using Cons(2) x by (auto simp: first_weight_def)
  case 2
  show ?case using Cons(1) x by (auto simp: last_weight_def)
qed simp_all

lemma sl_ipsum_ref:
  assumes "length (ip_bytes h) \<le> 60"
  shows "sl_ipsum be h = of_nat (cksum_ref be (ip_bytes h))"
proof -
  define s where "s = sum_list (words16 be (ip_bytes h))"
  define c1 where "c1 = s mod 65536 + s div 65536"
  define c2 where "c2 = c1 mod 65536 + c1 div 65536"
  have "s \<le> 65280 * 60" using true_sum_le_bytes(1)[of be "ip_bytes h"] assms by (simp add: s_def sum_words16)
  then have "s div 65536 \<le> 59" by simp
  then have c1: "c1 \<le> 65594" by (simp add: c1_def)
  have c2: "c2 \<le> 65535"
  proof (cases "c1 < 65536")
    case True
    then show ?thesis by (simp add: c2_def)
  next
    case False
    then have "c1 div 65536 = 1" "c1 mod 65536 = c1 - 65536" using c1 by (auto simp: div_nat_eqI mod_if)
    then show ?thesis using c1 False by (simp add: c2_def)
  qed
  have "rep c2 (true_sum be (ip_bytes h))"
    using rep_trans[OF fold_rep[of c1] fold_rep[of s, folded c1_def]] by (simp add: c2_def s_def sum_words16)
  then have c: "c2 = foldl oc_add 0 (words16 be (ip_bytes h))" using words16_rep[of 0 be "ip_bytes h"] c2 rep_unique by simp
  have "sl_ipsum be h = NOT (of_nat c2)" by (simp add: sl_ipsum_def Let_def c2_def c1_def s_def)
  also have "\<dots> = of_nat (65535 - c2)" using c2 by (simp add: of_nat_diff not_eq_complement)
  finally show ?thesis by (simp add: cksum_ref_def c)
qed

section \<open>Fields come back\<close>

text \<open>What a conversation's headers look like, so that nothing the code takes as unchanged changes: the length of the options as the header length
  says, the bits reserved by the standards zero, an urgent pointer exactly when it is flagged.\<close>

definition sl_regular :: "slhdr \<Rightarrow> bool" where
  "sl_regular h = (5 \<le> s_hl h \<and> s_hl h \<le> 15 \<and> length (s_opts h) = 4 * (s_hl h - 5) \<and> 5 \<le> t_offset h \<and> length (t_opts h) = 4 * (t_offset h - 5)
     \<and> t_x2 h = 0 \<and> t_flagbits h AND TH_CONTROL = TH_ACKBIT \<and> t_flagbits h AND 0xc0 = 0 \<and> (t_flagbits h AND TH_URGBIT \<noteq> 0 \<longleftrightarrow> t_urp h \<noteq> 0)
     \<and> s_p h = IPPROTO_TCP)"

text \<open>The saved header with the fields of TCP from \<open>h\<close>.\<close>

definition with_tcp :: "slhdr \<Rightarrow> slhdr \<Rightarrow> slhdr" where
  "with_tcp h c = c\<lparr>t_flagbits := t_flagbits h, t_urp := t_urp h, t_win := t_win h, t_ackno := t_ackno h, t_seqno := t_seqno h\<rparr>"

lemma sl_fields_low: "sl_fields m c hlen bs = sl_fields (m AND 0x0f) c hlen bs"
proof -
  have x: "(m AND 0x0f) AND NEW_U = m AND NEW_U" "(m AND 0x0f) AND NEW_W = m AND NEW_W" "(m AND 0x0f) AND NEW_A = m AND NEW_A"
    "(m AND 0x0f) AND NEW_S = m AND NEW_S" "(m AND 0x0f) AND SPECIAL_D = m AND SPECIAL_D"
    by (simp_all add: sl_bits and.assoc)
  show ?thesis unfolding sl_fields_def x by (rule refl)
qed

lemma eq_add_diff [simp]: "(c :: 'a::len word) + (h - c) = h"
  by simp

lemma sl_deltas_mask:
  assumes "sl_deltas h c = Some (m, e, dA, dS)"
  shows "m = ((if t_flagbits h AND TH_URGBIT \<noteq> 0 then 1 else 0) OR (if t_win h \<noteq> t_win c then 2 else 0))
      OR (if t_ackno h \<noteq> t_ackno c then 4 else 0) OR (if t_seqno h \<noteq> t_seqno c then 8 else 0)"
    and "e = (if t_flagbits h AND TH_URGBIT \<noteq> 0 then ENCODEZ (t_urp h) else []) @ (if t_win h \<noteq> t_win c then ENCODE (t_win h - t_win c) else [])
      @ (if t_ackno h \<noteq> t_ackno c then ENCODE (ucast dA) else []) @ (if t_seqno h \<noteq> t_seqno c then ENCODE (ucast dS) else [])"
    and "dA = t_ackno h - t_ackno c" and "dS = t_seqno h - t_seqno c" and "dA \<le> 0xffff" and "dS \<le> 0xffff"
    and "t_flagbits h AND TH_URGBIT = 0 \<Longrightarrow> t_urp h = t_urp c"
  using assms unfolding sl_deltas_def Let_def
  by (auto simp: sl_bits or.assoc split: if_splits)

lemma ucast_nonzero:
  fixes x :: u32
  assumes "x \<le> 0xffff" and "x \<noteq> 0"
  shows "(ucast x :: u16) \<noteq> 0"
  using ucast_small[OF assms(1)] assms(2) by auto

lemma sl_deltas_bits:
  assumes "sl_deltas h c = Some (m, e, dA, dS)"
  shows "m AND NEW_U \<noteq> 0 \<longleftrightarrow> t_flagbits h AND TH_URGBIT \<noteq> 0" and "m AND NEW_W \<noteq> 0 \<longleftrightarrow> t_win h \<noteq> t_win c"
    and "m AND NEW_A \<noteq> 0 \<longleftrightarrow> t_ackno h \<noteq> t_ackno c" and "m AND NEW_S \<noteq> 0 \<longleftrightarrow> t_seqno h \<noteq> t_seqno c" and "m AND SPECIAL_D = m"
  unfolding sl_deltas_mask(1)[OF assms] sl_bits by simp_all

text \<open>The fields as they are sent, when no special encoding is used.\<close>

lemma sl_fields_plain:
  assumes "sl_deltas h c = Some (m, e, dA, dS)" and "m \<noteq> SPECIAL_I" and "m \<noteq> SPECIAL_D"
    and "(if t_flagbits h AND TH_URGBIT \<noteq> 0 then p OR TH_URGBIT else p AND NOT TH_URGBIT) = t_flagbits h"
  shows "sl_fields m (c\<lparr>t_cksum := x, t_flagbits := p\<rparr>) hlen (e @ r) = Ret (with_tcp h (c\<lparr>t_cksum := x\<rparr>), r)" and "m AND 0xf0 = 0"
proof -
  note d = sl_deltas_mask[OF assms(1)]
  have A: "t_ackno h \<noteq> t_ackno c \<Longrightarrow> decode (ENCODE (ucast dA) @ y) = Ret (ucast dA, y) \<and> t_ackno c + ucast (ucast dA :: u16) = t_ackno h" for y
    using ENCODE_decode[OF ucast_nonzero[OF d(5)], of y] ucast_small[OF d(5)] d(3) by auto
  have S: "t_seqno h \<noteq> t_seqno c \<Longrightarrow> decode (ENCODE (ucast dS) @ y) = Ret (ucast dS, y) \<and> t_seqno c + ucast (ucast dS :: u16) = t_seqno h" for y
    using ENCODE_decode[OF ucast_nonzero[OF d(6)], of y] ucast_small[OF d(6)] d(4) by auto
  have W: "t_win h \<noteq> t_win c \<Longrightarrow> decode (ENCODE (t_win h - t_win c) @ y) = Ret (t_win h - t_win c, y)" for y
    using ENCODE_decode[of "t_win h - t_win c" y] by simp
  show "m AND 0xf0 = 0" unfolding d(1) by simp
  note m = sl_deltas_bits[OF assms(1)]
  define u w a s where "u = (t_flagbits h AND TH_URGBIT \<noteq> 0)" and "w = (t_win h \<noteq> t_win c)" and "a = (t_ackno h \<noteq> t_ackno c)" and "s = (t_seqno h \<noteq> t_seqno c)"
  note defs = u_def[symmetric] w_def[symmetric] a_def[symmetric] s_def[symmetric]
  let ?c = "c\<lparr>t_cksum := x, t_flagbits := p\<rparr>"
  let ?c1 = "c\<lparr>t_cksum := x, t_flagbits := t_flagbits h, t_urp := t_urp h\<rparr>"
  let ?c2 = "?c1\<lparr>t_win := t_win h\<rparr>" and ?c3 = "?c1\<lparr>t_win := t_win h, t_ackno := t_ackno h\<rparr>"
  let ?eS = "if s then ENCODE (ucast dS) else []" let ?eA = "(if a then ENCODE (ucast dA) else []) @ ?eS"
  let ?eW = "(if w then ENCODE (t_win h - t_win c) else []) @ ?eA"
  have sU: "(if u then kmap (\<lambda>(n, r). (?c\<lparr>t_flagbits := t_flagbits ?c OR TH_URGBIT, t_urp := n\<rparr>, r)) (decode (((if u then ENCODEZ (t_urp h) else []) @ y)))
      else Ret (?c\<lparr>t_flagbits := t_flagbits ?c AND NOT TH_URGBIT\<rparr>, ((if u then ENCODEZ (t_urp h) else []) @ y))) = Ret (?c1, y)" for y
    using assms(4) d(7) by (cases u) (simp_all add: u_def ENCODEZ_decode)
  have sW: "(if w then kmap (\<lambda>(n, r). (?c1\<lparr>t_win := t_win ?c1 + n\<rparr>, r)) (decode ((if w then ENCODE (t_win h - t_win c) else []) @ y))
      else Ret (?c1, (if w then ENCODE (t_win h - t_win c) else []) @ y)) = Ret (?c2, y)" for y
    using W by (cases w) (simp_all add: w_def)
  have sA: "(if a then kmap (\<lambda>(n, r). (?c2\<lparr>t_ackno := t_ackno ?c2 + ucast n\<rparr>, r)) (decode ((if a then ENCODE (ucast dA) else []) @ y))
      else Ret (?c2, (if a then ENCODE (ucast dA) else []) @ y)) = Ret (?c3, y)" for y
    using A by (cases a) (simp_all add: a_def)
  have sS: "(if s then kmap (\<lambda>(n, r). (?c3\<lparr>t_seqno := t_seqno ?c3 + ucast n\<rparr>, r)) (decode (?eS @ y))
      else Ret (?c3, ?eS @ y)) = Ret (with_tcp h (c\<lparr>t_cksum := x\<rparr>), y)" for y
    using S by (cases s) (simp_all add: s_def with_tcp_def)
  have e: "e = (if u then ENCODEZ (t_urp h) else []) @ (if w then ENCODE (t_win h - t_win c) else [])
      @ (if a then ENCODE (ucast dA) else []) @ ?eS" using d(2) by (simp only: u_def w_def a_def s_def)
  show "sl_fields m ?c hlen (e @ r) = Ret (with_tcp h (c\<lparr>t_cksum := x\<rparr>), r)"
    unfolding sl_fields_def Let_def m(5) unfolding m(1-4) defs unfolding e append_assoc
    using assms(2,3) sU sW sA sS by simp
qed

lemma sl_special_cases:
  assumes "sl_special h c (m, e, dA, dS) = Some (m1, e1)"
  obtains (plain) "m1 = m" and "e1 = e" and "m \<noteq> SPECIAL_I" and "m \<noteq> SPECIAL_D"
  | (echo) "m = NEW_S OR NEW_A" and "m1 = SPECIAL_I" and "e1 = []" and "dS = ucast (s_len c) - of_nat (sl_hlen h)" and "dA = dS"
  | (data) "m = NEW_S" and "m1 = SPECIAL_D" and "e1 = []" and "dS = ucast (s_len c) - of_nat (sl_hlen h)"
  using assms by (auto simp: sl_special_def Let_def sl_bits split: if_splits)

lemma sl_fields_ok:
  assumes "sl_deltas h c = Some (m, e, dA, dS)" and "sl_special h c (m, e, dA, dS) = Some (m1, e1)"
    and "sl_regular h" and "sl_regular c" and "p = (if t_flagbits h AND TH_PUSHBIT \<noteq> 0 then t_flagbits c OR TH_PUSHBIT else t_flagbits c AND NOT TH_PUSHBIT)"
  shows "sl_fields m1 (c\<lparr>t_cksum := x, t_flagbits := p\<rparr>) (sl_hlen h) (e1 @ r) = Ret (with_tcp h (c\<lparr>t_cksum := x\<rparr>), r) \<and> m1 AND 0xf0 = 0"
proof -
  have fl: "t_flagbits h AND TH_CONTROL = TH_ACKBIT" "t_flagbits h AND 0xc0 = 0" "t_flagbits c AND TH_CONTROL = TH_ACKBIT" "t_flagbits c AND 0xc0 = 0"
    "t_flagbits h AND TH_URGBIT \<noteq> 0 \<longleftrightarrow> t_urp h \<noteq> 0" "t_flagbits c AND TH_URGBIT \<noteq> 0 \<longleftrightarrow> t_urp c \<noteq> 0"
    using assms(3,4) by (simp_all add: sl_regular_def)
  note rest = ack_flags_restored[OF fl(1-4) assms(5)]
  note b = sl_deltas_bits[OF assms(1)] and d = sl_deltas_mask[OF assms(1)]
  from assms(2) show ?thesis
  proof (cases rule: sl_special_cases)
    case plain
    have "(if t_flagbits h AND TH_URGBIT \<noteq> 0 then p OR TH_URGBIT else p AND NOT TH_URGBIT) = t_flagbits h" using rest(1,2) by simp
    from sl_fields_plain[OF assms(1) plain(3,4) this] show ?thesis by (simp add: plain(1,2))
  next
    case echo
    have z: "t_flagbits h AND TH_URGBIT = 0" "t_win h = t_win c" using b(1,2) unfolding echo(1) sl_bits by simp_all
    have u: "t_urp h = t_urp c" "t_flagbits c AND TH_URGBIT = 0" using d(7)[OF z(1)] fl(5,6) z(1) by auto
    have "t_ackno c + dS = t_ackno h" unfolding echo(5)[symmetric] d(3) by (rule eq_add_diff)
    moreover have "t_seqno c + dS = t_seqno h" unfolding d(4) by (rule eq_add_diff)
    ultimately have e: "t_ackno c + dS = t_ackno h \<and> t_seqno c + dS = t_seqno h" ..
    let ?c = "c\<lparr>t_cksum := x, t_flagbits := p\<rparr>"
    have R: "?c\<lparr>t_ackno := t_ackno ?c + dS, t_seqno := t_seqno ?c + dS\<rparr> = with_tcp h (c\<lparr>t_cksum := x\<rparr>)"
      by (rule slhdr.equality) (simp_all add: with_tcp_def e z(2) u(1) rest(3)[OF z(1) u(2)])
    have "sl_fields SPECIAL_I ?c (sl_hlen h) r = Ret (?c\<lparr>t_ackno := t_ackno ?c + dS, t_seqno := t_seqno ?c + dS\<rparr>, r)"
      unfolding sl_fields_def Let_def echo(4) by (simp add: sl_bits)
    then show ?thesis unfolding R echo(2,3) by (simp add: sl_bits)
  next
    case data
    have z: "t_flagbits h AND TH_URGBIT = 0" "t_win h = t_win c" "t_ackno h = t_ackno c" using b(1-3) unfolding data(1) sl_bits by simp_all
    have u: "t_urp h = t_urp c" "t_flagbits c AND TH_URGBIT = 0" using d(7)[OF z(1)] fl(5,6) z(1) by auto
    have e: "t_seqno c + dS = t_seqno h" unfolding d(4) by (rule eq_add_diff)
    let ?c = "c\<lparr>t_cksum := x, t_flagbits := p\<rparr>"
    have R: "?c\<lparr>t_seqno := t_seqno ?c + dS\<rparr> = with_tcp h (c\<lparr>t_cksum := x\<rparr>)"
      by (rule slhdr.equality) (simp_all add: with_tcp_def e z(2,3) u(1) rest(3)[OF z(1) u(2)])
    have "sl_fields SPECIAL_D ?c (sl_hlen h) r = Ret (?c\<lparr>t_seqno := t_seqno ?c + dS\<rparr>, r)"
      unfolding sl_fields_def Let_def data(4) by (simp add: sl_bits)
    then show ?thesis unfolding R data(2,3) by (simp add: sl_bits)
  qed
qed

section \<open>A packet comes back\<close>

lemma sl_changesE:
  assumes "sl_changes h c = Some (m, e)"
  obtains m0 e0 dA dS m1 e1 where "sl_same h c" and "sl_deltas h c = Some (m0, e0, dA, dS)" and "sl_special h c (m0, e0, dA, dS) = Some (m1, e1)"
    and "e = e1 @ (if int (unat (s_id h)) - int (unat (s_id c)) \<noteq> 1 then ENCODEZ (s_id h - s_id c) else [])"
    and "m = (m1 OR (if int (unat (s_id h)) - int (unat (s_id c)) \<noteq> 1 then NEW_I else 0)) OR (if t_flagbits h AND TH_PUSHBIT \<noteq> 0 then TCP_PUSH_BIT else 0)"
proof -
  have same: "sl_same h c" using assms by (simp add: sl_changes_def split: if_splits)
  obtain m0 e0 dA dS where d: "sl_deltas h c = Some (m0, e0, dA, dS)"
    using assms by (cases "sl_deltas h c") (auto simp: sl_changes_def split: if_splits)
  obtain m1 e1 where q: "sl_special h c (m0, e0, dA, dS) = Some (m1, e1)"
    using assms d same by (cases "sl_special h c (m0, e0, dA, dS)") (auto simp: sl_changes_def)
  show thesis
  proof (rule that[OF same d q])
    show "e = e1 @ (if int (unat (s_id h)) - int (unat (s_id c)) \<noteq> 1 then ENCODEZ (s_id h - s_id c) else [])"
      using assms by (simp add: sl_changes_def same d q Let_def split: if_splits)
    show "m = (m1 OR (if int (unat (s_id h)) - int (unat (s_id c)) \<noteq> 1 then NEW_I else 0)) OR (if t_flagbits h AND TH_PUSHBIT \<noteq> 0 then TCP_PUSH_BIT else 0)"
      using assms by (simp add: sl_changes_def same d q Let_def split: if_splits)
  qed
qed

lemma high_bits:
  fixes m1 :: byte
  assumes "m1 AND 0xf0 = 0" and "x = 0 \<or> x = NEW_I" and "y = 0 \<or> y = TCP_PUSH_BIT" and "z = 0 \<or> z = NEW_C" and "m = ((m1 OR x) OR y) OR z"
  shows "m AND NEW_I \<noteq> 0 \<longleftrightarrow> x = NEW_I" and "m AND TCP_PUSH_BIT \<noteq> 0 \<longleftrightarrow> y = TCP_PUSH_BIT" and "m AND NEW_C \<noteq> 0 \<longleftrightarrow> z = NEW_C" and "m AND 0x0f = m1 AND 0x0f"
proof -
  have n: "m1 AND b = 0" if "0xf0 AND b = b" for b :: byte
  proof -
    have "m1 AND b = (m1 AND 0xf0) AND b" unfolding and.assoc that ..
    then show ?thesis using assms(1) by simp
  qed
  have "m1 AND 0x20 = 0" "m1 AND 0x10 = 0" "m1 AND 0x40 = 0" by (rule n, simp)+
  then show "m AND NEW_I \<noteq> 0 \<longleftrightarrow> x = NEW_I" "m AND TCP_PUSH_BIT \<noteq> 0 \<longleftrightarrow> y = TCP_PUSH_BIT" "m AND NEW_C \<noteq> 0 \<longleftrightarrow> z = NEW_C" "m AND 0x0f = m1 AND 0x0f"
    using assms(2-4) unfolding assms(5) by (auto simp: sl_bits bit.conj_disj_distrib2)
qed

lemma sl_ident_ok:
  assumes "(m AND NEW_I \<noteq> 0) = (int (unat (s_id h)) - int (unat (s_id c)) \<noteq> 1)"
  shows "sl_ident m c ((if int (unat (s_id h)) - int (unat (s_id c)) \<noteq> 1 then ENCODEZ (s_id h - s_id c) else []) @ r) = Ret (c\<lparr>s_id := s_id h\<rparr>, r)"
proof (cases "int (unat (s_id h)) - int (unat (s_id c)) = 1")
  case True
  then have "unat (s_id h) = unat (s_id c) + 1" by linarith
  then have "of_nat (unat (s_id h)) = (of_nat (unat (s_id c)) + 1 :: u16)" by simp
  then have "s_id c + 1 = s_id h" by simp
  then show ?thesis using assms True by (simp add: sl_ident_def)
next
  case False
  then show ?thesis using assms by (simp add: sl_ident_def ENCODEZ_decode)
qed

definition sl_valid :: "bool \<Rightarrow> slhdr \<Rightarrow> byte list \<Rightarrow> bool" where
  "sl_valid be h d = (sl_regular h \<and> s_sum h = of_nat (cksum_ref be (ip_bytes h)) \<and> unat (s_len h) = sl_hlen h + length d \<and> sl_hlen h \<le> MAX_HDR)"

lemma ip_bytes_sum [simp]: "ip_bytes (h\<lparr>s_sum := x\<rparr>) = ip_bytes h"
  by (simp add: ip_bytes_def)

lemma sl_saved_sum: "sl_deltas h (c\<lparr>s_sum := x\<rparr>) = sl_deltas h c" "sl_special h (c\<lparr>s_sum := x\<rparr>) = sl_special h c"
  by (simp add: sl_deltas_def) (simp add: sl_special_def fun_eq_iff)

lemma sl_rebuild_ok:
  assumes "sl_changes h c = Some (m, e)" and "sl_match h c" and "sl_valid be h d" and "sl_regular c"
    and "unat (last_recv st) < MAX_STATES" and "rstate st (last_recv st) = (c\<lparr>s_sum := 0\<rparr>, sl_hlen c)"
    and "z = 0 \<or> z = NEW_C" and "bs = front @ [hi8 (t_cksum h), lo8 (t_cksum h)] @ e @ d"
  shows "sl_rebuild be (m OR z) bs junk (length front) st
     = Ret (Some (h, d), st\<lparr>rstate := (rstate st)(last_recv st := (h\<lparr>s_sum := 0\<rparr>, sl_hlen h))\<rparr>)"
proof -
  let ?c = "c\<lparr>s_sum := 0\<rparr>"
  let ?idn = "int (unat (s_id h)) - int (unat (s_id c)) \<noteq> 1"
  obtain m0 e0 dA dS m1 e1 where ch: "sl_same h c" "sl_deltas h c = Some (m0, e0, dA, dS)" "sl_special h c (m0, e0, dA, dS) = Some (m1, e1)"
    "e = e1 @ (if ?idn then ENCODEZ (s_id h - s_id c) else [])"
    "m = (m1 OR (if ?idn then NEW_I else 0)) OR (if t_flagbits h AND TH_PUSHBIT \<noteq> 0 then TCP_PUSH_BIT else 0)"
    using sl_changesE[OF assms(1)] by metis
  have reg: "sl_regular h" "sl_regular ?c" using assms(3,4) by (simp_all add: sl_valid_def sl_regular_def)
  have ch': "sl_deltas h ?c = Some (m0, e0, dA, dS)" "sl_special h ?c (m0, e0, dA, dS) = Some (m1, e1)"
    using ch(2,3) by (simp_all add: sl_saved_sum)
  define p where "p = (if t_flagbits h AND TH_PUSHBIT \<noteq> 0 then t_flagbits ?c OR TH_PUSHBIT else t_flagbits ?c AND NOT TH_PUSHBIT)"
  define idbs where "idbs = (if ?idn then ENCODEZ (s_id h - s_id c) else []) @ (d @ junk)"
  have hl: "sl_hlen c = sl_hlen h" using ch(1) by (simp add: sl_same_def sl_hlen_def)
  note f = sl_fields_ok[OF ch' reg p_def, of "t_cksum h"]
  have "m OR z = ((m1 OR (if ?idn then NEW_I else 0)) OR (if t_flagbits h AND TH_PUSHBIT \<noteq> 0 then TCP_PUSH_BIT else 0)) OR z" unfolding ch(5) ..
  note hb = high_bits[OF _ _ _ assms(7) this]
  have M: "(m OR z) AND NEW_I \<noteq> 0 \<longleftrightarrow> ?idn" "(m OR z) AND TCP_PUSH_BIT \<noteq> 0 \<longleftrightarrow> t_flagbits h AND TH_PUSHBIT \<noteq> 0" "(m OR z) AND 0x0f = m1 AND 0x0f"
    using hb(1,2,4) f by (auto simp: sl_bits)
  let ?c1 = "?c\<lparr>t_cksum := t_cksum h, t_flagbits := p\<rparr>"
  have F: "sl_fields (m OR z) ?c1 (sl_hlen h) (e1 @ idbs) = Ret (with_tcp h (?c\<lparr>t_cksum := t_cksum h\<rparr>), idbs)"
    using f sl_fields_low[of "m OR z"] sl_fields_low[of m1] M(3) by metis
  let ?c2 = "with_tcp h (?c\<lparr>t_cksum := t_cksum h\<rparr>)"
  have i2: "s_id ?c2 = s_id c" by (simp add: with_tcp_def)
  have I: "sl_ident (m OR z) ?c2 idbs = Ret (?c2\<lparr>s_id := s_id h\<rparr>, d @ junk)"
    using sl_ident_ok[of "m OR z" h ?c2 "d @ junk"] M(1) unfolding i2 idbs_def by simp
  let ?c3 = "?c2\<lparr>s_id := s_id h\<rparr>"
  have L: "of_nat (length d + sl_hlen h) = s_len h" 
  proof -
    have "of_nat (unat (s_len h)) = (of_nat (length d + sl_hlen h) :: u16)" using assms(3) by (simp only: sl_valid_def add.commute)
    then show ?thesis by simp
  qed
  have o: "s_opts h = s_opts c" "t_opts h = t_opts c" using ch(1) reg by (auto simp: sl_same_def sl_regular_def)
  have E: "?c3\<lparr>s_len := s_len h\<rparr> = h\<lparr>s_sum := 0\<rparr>"
    using ch(1) assms(2) o reg by (intro slhdr.equality) (simp_all add: with_tcp_def sl_same_def sl_match_def sl_regular_def)
  have "length (ip_bytes h) \<le> 60" using reg(1) by (auto simp: ip_bytes_def put16_def put32_def sl_regular_def)
  then have S: "sl_ipsum be (h\<lparr>s_sum := 0\<rparr>) = s_sum h" using sl_ipsum_ref[of "h\<lparr>s_sum := 0\<rparr>" be] assms(3) by (simp add: sl_valid_def)
  have dr: "drop (length front) (bs @ junk) = hi8 (t_cksum h) # lo8 (t_cksum h) # (e1 @ idbs)"
    unfolding assms(8) ch(4) idbs_def by simp
  have len: "int (length bs) - (int (length (bs @ junk)) - int (length (d @ junk))) = int (length d)" by simp
  have h5: "\<not> s_hl c < 5" using assms(4) by (simp add: sl_regular_def)
  have lenw: "of_int (int (length d) + int (sl_hlen h)) = s_len h" using L by simp
  show ?thesis
    unfolding sl_rebuild_def assms(6) hl dr M(2) using assms(5)
    by (simp add: Let_def get16_halves p_def[simplified, symmetric] F I len E S h5 lenw[simplified] del: kbind_eq_Ret kmap_eq_Ret)
qed

section \<open>The line\<close>

text \<open>A packet with the length of its first mbuf, the choice of sending the connection number, and the memory behind it at the receiver.\<close>

type_synonym slin = "slhdr \<times> byte list \<times> nat \<times> bool \<times> byte list"

definition sl_link :: "bool \<Rightarrow> slin \<Rightarrow> sltx \<times> slrx \<Rightarrow> ((slhdr \<times> byte list) option \<times> sltx \<times> slrx) kres" where
  "sl_link be = (\<lambda>(h, d, mlen, cc, junk) (tx, rx).
     kbind (sl_compress_tcp h d mlen cc tx) (\<lambda>(p, tx1).
       case p of SlIp h1 d1 \<Rightarrow> Ret (Some (h1, d1), tx1, rx)
       | _ \<Rightarrow> kmap (\<lambda>(q, rx1). (q, tx1, rx1)) (sl_uncompress_tcp be p junk rx)))"

fun sl_run :: "bool \<Rightarrow> slin list \<Rightarrow> sltx \<times> slrx \<Rightarrow> ((slhdr \<times> byte list) option list \<times> sltx \<times> slrx) kres" where
  "sl_run be [] st = Ret ([], st)"
| "sl_run be (x # xs) st = kbind (sl_link be x st) (\<lambda>(q, st1). kmap (\<lambda>(qs, st2). (q # qs, st2)) (sl_run be xs st1))"

text \<open>Packets the code passes by, and packets it has to give back.\<close>

definition sl_in_ok :: "bool \<Rightarrow> slin \<Rightarrow> bool" where
  "sl_in_ok be = (\<lambda>(h, d, mlen, cc, junk). (s_off h AND 0x3fff \<noteq> 0 \<or> mlen < 40) \<or> t_flagbits h AND TH_CONTROL \<noteq> TH_ACKBIT
     \<or> sl_valid be h d \<and> sl_hlen h \<le> mlen)"

text \<open>A transmit state is fresh, or the receive state of its number mirrors it.\<close>

definition sl_mirror :: "sltx \<Rightarrow> slrx \<Rightarrow> bool" where
  "sl_mirror tx rx = (tstate tx \<noteq> [] \<and> distinct (map fst (tstate tx)) \<and> \<not> sl_toss rx \<and> (last_xmit tx = 255 \<or> last_recv rx = last_xmit tx)
     \<and> (\<forall>i c. (i, c) \<in> set (tstate tx) \<longrightarrow> unat i < MAX_STATES
          \<and> (c = slhdr_zero \<or> sl_regular c \<and> rstate rx i = (c\<lparr>s_sum := 0\<rparr>, sl_hlen c))))"

lemma sl_lookup_spec:
  assumes "ts \<noteq> []" and "sl_lookup h ts = (found, ts')"
  shows "mset ts' = mset ts" and "found \<Longrightarrow> sl_match h (snd (hd ts'))"
proof -
  let ?P = "\<lambda>c. \<not> sl_match h (snd c)"
  have "mset ts' = mset ts \<and> (found \<longrightarrow> sl_match h (snd (hd ts')))"
  proof (cases "dropWhile ?P ts")
    case Nil
    then have "ts' = last ts # butlast ts" "\<not> found" using assms(2) unfolding sl_lookup_def Let_def Nil by auto
    moreover have "mset ts = mset (butlast ts @ [last ts])" using assms(1) by simp
    ultimately show ?thesis by (simp only: mset_append mset.simps union_mset_add_mset_right) simp
  next
    case (Cons c r)
    then have t: "ts' = c # takeWhile ?P ts @ r" using assms(2) unfolding sl_lookup_def Let_def Cons by auto
    have "mset ts = mset (takeWhile ?P ts) + mset (c # r)" using takeWhile_dropWhile_id[of ?P ts] Cons by (metis mset_append)
    moreover have "sl_match h (snd c)" using hd_dropWhile[of ?P ts] Cons by auto
    ultimately show ?thesis by (simp add: t)
  qed
  then show "mset ts' = mset ts" "found \<Longrightarrow> sl_match h (snd (hd ts'))" by auto
qed

lemma sl_mirror_step:
  assumes "sl_mirror tx rx" and "mset ((i, c) # r) = mset (tstate tx)" and "sl_regular h"
    and "rstate rx1 = (rstate rx)(i := (h\<lparr>s_sum := 0\<rparr>, sl_hlen h))" and "\<not> sl_toss rx1" and "last_xmit tx1 = 255 \<or> last_recv rx1 = last_xmit tx1"
    and "tstate tx1 = (i, h) # r"
  shows "sl_mirror tx1 rx1"
proof -
  have s: "set (tstate tx) = insert (i, c) (set r)" using assms(2) by (metis list.simps(15) set_mset_mset)
  have "mset (map fst ((i, c) # r)) = mset (map fst (tstate tx))" using assms(2) by (metis mset_map)
  then have d: "distinct (map fst ((i, c) # r))" using assms(1) unfolding sl_mirror_def by (metis mset_eq_imp_distinct_iff)
  then have n: "(j, b) \<in> set r \<Longrightarrow> j \<noteq> i" for j b by (force simp: image_iff)
  have m: "unat j < MAX_STATES \<and> (b = slhdr_zero \<or> sl_regular b \<and> rstate rx j = (b\<lparr>s_sum := 0\<rparr>, sl_hlen b))" if "(j, b) \<in> set (tstate tx)" for j b
    using assms(1) that unfolding sl_mirror_def by blast
  have "unat j < MAX_STATES \<and> (b = slhdr_zero \<or> sl_regular b \<and> rstate rx1 j = (b\<lparr>s_sum := 0\<rparr>, sl_hlen b))" if "(j, b) \<in> set (tstate tx1)" for j b
  proof (cases "(j, b) = (i, h)")
    case True
    then show ?thesis using m[of i c] s assms(3,4) by simp
  next
    case False
    then have r: "(j, b) \<in> set r" using that assms(7) by auto
    then show ?thesis using m[of j b] s n[OF r] assms(4) by auto
  qed
  then show ?thesis using d assms(5-7) by (simp add: sl_mirror_def)
qed

lemma sl_link_ok:
  assumes "sl_mirror tx rx" and "sl_in_ok be x"
  shows "\<exists>tx1 rx1. sl_link be x (tx, rx) = Ret (Some (fst x, fst (snd x)), tx1, rx1) \<and> sl_mirror tx1 rx1"
proof -
  obtain h d mlen cc junk where x: "x = (h, d, mlen, cc, junk)" by (cases x)
  show ?thesis
  proof (cases "(s_off h AND 0x3fff \<noteq> 0 \<or> mlen < 40) \<or> t_flagbits h AND TH_CONTROL \<noteq> TH_ACKBIT")
    case True
    then show ?thesis using assms(1) by (auto simp: sl_link_def x sl_compress_tcp_def)
  next
    case False
    then have v: "sl_valid be h d" "sl_hlen h \<le> mlen" using assms(2) by (auto simp: sl_in_ok_def x)
    have reg: "sl_regular h" "sl_hlen h \<le> MAX_HDR" "s_p h = IPPROTO_TCP" "\<not> sl_badlen h" using v(1) by (simp_all add: sl_valid_def sl_regular_def sl_badlen_def)
    obtain found ts where l: "sl_lookup h (tstate tx) = (found, ts)" by fastforce
    have tn: "tstate tx \<noteq> []" using assms(1) by (simp add: sl_mirror_def)
    note ls = sl_lookup_spec[OF tn l]
    then obtain i c r where ts: "ts = (i, c) # r" using tn by (cases ts) auto
    have "(i, c) \<in> set (tstate tx)" using ls(1) unfolding ts by (metis list.set_intros(1) set_mset_mset)
    then have ic: "unat i < MAX_STATES" "c = slhdr_zero \<or> sl_regular c \<and> rstate rx i = (c\<lparr>s_sum := 0\<rparr>, sl_hlen c)"
      using assms(1) unfolding sl_mirror_def by blast+
    have i255: "i \<noteq> 255" using ic(1) by (auto simp: MAX_STATES_def)
    have cmp: "sl_compress_tcp h d mlen cc tx = (case (if found then sl_changes h c else None) of
             None \<Rightarrow> Ret (SlUncompressed (h\<lparr>s_p := i\<rparr>) d, tx\<lparr>tstate := (i, h) # r, last_xmit := i\<rparr>)
           | Some (m, e) \<Rightarrow>
               if \<not> cc \<or> last_xmit tx \<noteq> i
               then Ret (SlCompressed ([m OR NEW_C, i, hi8 (t_cksum h), lo8 (t_cksum h)] @ e @ d), tx\<lparr>tstate := (i, h) # r, last_xmit := i\<rparr>)
               else Ret (SlCompressed ([m, hi8 (t_cksum h), lo8 (t_cksum h)] @ e @ d), tx\<lparr>tstate := (i, h) # r\<rparr>))"
      using False v(2) reg(4) by (simp add: sl_compress_tcp_def l ts)
    show ?thesis
    proof (cases "if found then sl_changes h c else None")
      case None
      let ?rx = "rx\<lparr>rstate := (rstate rx)(i := (h\<lparr>s_sum := 0\<rparr>, sl_hlen h)), last_recv := i, sl_toss := False\<rparr>"
      have hp: "h\<lparr>s_p := i\<rparr>\<lparr>s_p := IPPROTO_TCP\<rparr> = h" using reg(3) by simp
      have "sl_uncompress_tcp be (SlUncompressed (h\<lparr>s_p := i\<rparr>) d) junk rx = Ret (Some (h, d), ?rx)"
        using ic(1) reg(4) hp by (simp add: sl_uncompress_tcp_def sl_hlen_def sl_badlen_def)
      moreover have "sl_mirror (tx\<lparr>tstate := (i, h) # r, last_xmit := i\<rparr>) ?rx"
        by (rule sl_mirror_step[OF assms(1) ls(1)[unfolded ts] reg(1)]) simp_all
      ultimately show ?thesis using cmp None by (simp add: sl_link_def x)
    next
      case (Some me)
      then obtain m e where me: "me = (m, e)" "found" "sl_changes h c = Some (m, e)" by (cases me) (auto split: if_splits)
      have "sl_same h c" using sl_changesE[OF me(3)] by metis
      then have "c \<noteq> slhdr_zero" using reg(1) by (auto simp: sl_same_def slhdr_zero_def sl_regular_def)
      then have rc: "sl_regular c" "rstate rx i = (c\<lparr>s_sum := 0\<rparr>, sl_hlen c)" using ic(2) by auto
      have mt: "sl_match h c" using ls(2) me(2) by (simp add: ts)
      obtain m1 where mc: "m1 AND 0xf0 = 0" "m = (m1 OR (if int (unat (s_id h)) - int (unat (s_id c)) \<noteq> 1 then NEW_I else 0)) OR (if t_flagbits h AND TH_PUSHBIT \<noteq> 0 then TCP_PUSH_BIT else 0)"
        using sl_changesE[OF me(3)] sl_fields_ok reg(1) rc(1) by metis
      show ?thesis
      proof (cases "\<not> cc \<or> last_xmit tx \<noteq> i")
        case True
        let ?bs = "[m OR NEW_C, i, hi8 (t_cksum h), lo8 (t_cksum h)] @ e @ d"
        let ?rx0 = "rx\<lparr>last_recv := i, sl_toss := False\<rparr>"
        have "sl_rebuild be (m OR NEW_C) ?bs junk 2 ?rx0 = Ret (Some (h, d), ?rx0\<lparr>rstate := (rstate rx)(i := (h\<lparr>s_sum := 0\<rparr>, sl_hlen h))\<rparr>)"
          using sl_rebuild_ok[OF me(3) mt v(1) rc(1), of ?rx0 NEW_C ?bs "[m OR NEW_C, i]" junk] ic(1) rc(2) by (simp add: numeral_2_eq_2)
        moreover have "(m OR NEW_C) AND NEW_C \<noteq> 0" using high_bits(3)[OF mc(1), of "if int (unat (s_id h)) - int (unat (s_id c)) \<noteq> 1 then NEW_I else 0" "if t_flagbits h AND TH_PUSHBIT \<noteq> 0 then TCP_PUSH_BIT else 0" NEW_C "m OR NEW_C"] mc(2) by simp
        ultimately have "sl_uncompress_tcp be (SlCompressed ?bs) junk rx = Ret (Some (h, d), ?rx0\<lparr>rstate := (rstate rx)(i := (h\<lparr>s_sum := 0\<rparr>, sl_hlen h))\<rparr>)"
          using ic(1) by (simp add: sl_uncompress_tcp_def)
        moreover have "sl_mirror (tx\<lparr>tstate := (i, h) # r, last_xmit := i\<rparr>) (?rx0\<lparr>rstate := (rstate rx)(i := (h\<lparr>s_sum := 0\<rparr>, sl_hlen h))\<rparr>)"
          by (rule sl_mirror_step[OF assms(1) ls(1)[unfolded ts] reg(1)]) simp_all
        ultimately show ?thesis using cmp Some me(1) True by (simp add: sl_link_def x)
      next
        case False
        let ?bs = "[m, hi8 (t_cksum h), lo8 (t_cksum h)] @ e @ d"
        have lr: "last_recv rx = i" "\<not> sl_toss rx" using assms(1) False i255 by (auto simp: sl_mirror_def)
        have "sl_rebuild be m ?bs junk 1 rx = Ret (Some (h, d), rx\<lparr>rstate := (rstate rx)(i := (h\<lparr>s_sum := 0\<rparr>, sl_hlen h))\<rparr>)"
          using sl_rebuild_ok[OF me(3) mt v(1) rc(1), of rx 0 ?bs "[m]" junk] ic(1) rc(2) lr by simp
        moreover have "m AND NEW_C = 0" using high_bits(3)[OF mc(1), of "if int (unat (s_id h)) - int (unat (s_id c)) \<noteq> 1 then NEW_I else 0" "if t_flagbits h AND TH_PUSHBIT \<noteq> 0 then TCP_PUSH_BIT else 0" 0 m] mc(2) by (simp add: NEW_C_def)
        ultimately have "sl_uncompress_tcp be (SlCompressed ?bs) junk rx = Ret (Some (h, d), rx\<lparr>rstate := (rstate rx)(i := (h\<lparr>s_sum := 0\<rparr>, sl_hlen h))\<rparr>)"
          using lr(2) by (simp add: sl_uncompress_tcp_def)
        moreover have "sl_mirror (tx\<lparr>tstate := (i, h) # r\<rparr>) (rx\<lparr>rstate := (rstate rx)(i := (h\<lparr>s_sum := 0\<rparr>, sl_hlen h))\<rparr>)"
          by (rule sl_mirror_step[OF assms(1) ls(1)[unfolded ts] reg(1)]) (use lr False in simp_all)
        ultimately show ?thesis using cmp Some me(1) False by (simp add: sl_link_def x)
      qed
    qed
  qed
qed

lemma sl_run_ok:
  "sl_mirror tx rx \<Longrightarrow> \<forall>x \<in> set xs. sl_in_ok be x \<Longrightarrow>
   \<exists>st. sl_run be xs (tx, rx) = Ret (map (\<lambda>x. Some (fst x, fst (snd x))) xs, st)"
proof (induction xs arbitrary: tx rx)
  case (Cons x xs)
  obtain tx1 rx1 where s: "sl_link be x (tx, rx) = Ret (Some (fst x, fst (snd x)), tx1, rx1)" "sl_mirror tx1 rx1"
    using sl_link_ok[OF Cons(2), of be x] Cons(3) by auto
  obtain st where "sl_run be xs (tx1, rx1) = Ret (map (\<lambda>x. Some (fst x, fst (snd x))) xs, st)" using Cons(1)[OF s(2)] Cons(3) by auto
  then show ?case using s(1) by simp
qed simp

lemma sl_mirror_init: "sl_mirror (fst sl_compress_init) (snd sl_compress_init)"
proof -
  have "distinct (map (of_nat :: nat \<Rightarrow> byte) (rev [0 ..< MAX_STATES]))" by (simp add: MAX_STATES_def upt_rec)
  then have "distinct (map fst (map (\<lambda>i. (of_nat i :: byte, slhdr_zero)) (rev [0 ..< MAX_STATES])))" by (simp add: comp_def)
  moreover have "unat (of_nat i :: byte) < MAX_STATES" if "i < MAX_STATES" for i
    using that by (simp add: MAX_STATES_def unat_of_nat take_bit_eq_mod)
  ultimately show ?thesis by (auto simp: sl_mirror_def sl_compress_init_def MAX_STATES_def)
qed


definition ex_slhdr :: "u16 \<Rightarrow> u16 \<Rightarrow> u32 \<Rightarrow> byte \<Rightarrow> u16 \<Rightarrow> slhdr" where
  "ex_slhdr len ident seqno fl urp =
     (let h = \<lparr>s_ver = 4, s_hl = 5, s_tos = 0, s_len = len, s_id = ident, s_off = 0, s_ttl = 64, s_p = 6, s_sum = 0, s_src = 1, s_dst = 2, s_opts = [],
        t_sport = 1023, t_dport = 513, t_seqno = seqno, t_ackno = 7, t_offset = 5, t_x2 = 0, t_flagbits = fl, t_win = 4096, t_cksum = 99, t_urp = urp, t_opts = []\<rparr>
      in h\<lparr>s_sum := of_nat (cksum_ref False (ip_bytes h))\<rparr>)"


lemmas sl_example = sl_compress_tcp_def ex_slhdr_def Let_def sl_hlen_def sl_badlen_def MAX_HDR_def mbuf_consts TH_CONTROL_def TH_ACKBIT_def
  TH_URGBIT_def TH_PUSHBIT_def sl_lookup_def sl_match_def sl_changes_def sl_same_def sl_deltas_def sl_special_def sl_bits hi8_def lo8_def
  sl_uncompress_tcp_def sl_rebuild_def sl_fields_def sl_ident_def MAX_STATES_def

lemma sl_example_compressed:
  "sl_compress_tcp (ex_slhdr 41 2 102 0x18 0) [3] 41 True \<lparr>tstate = [(15, ex_slhdr 42 1 100 0x10 0)], last_xmit = 15\<rparr>
     = Ret (SlCompressed [0x1f, 0, 99, 3], \<lparr>tstate = [(15, ex_slhdr 41 2 102 0x18 0)], last_xmit = 15\<rparr>)"
  by (simp add: sl_example)

section \<open>Three flaws\<close>

text \<open>The receiver is not told to toss at first: a compressed packet without a connection number, before any other, makes it use the state 255 of
  16.\<close>

lemma sl_first_fault: "m AND NEW_C = 0 \<Longrightarrow> sl_uncompress_tcp be (SlCompressed (m # bs)) junk (snd sl_compress_init) = Fault"
  by (simp add: sl_uncompress_tcp_def sl_compress_init_def sl_rebuild_def MAX_STATES_def)

text \<open>The special encodings leave the urgent flag of the packet before: it comes back on a packet that had it cleared, but the same pointer.\<close>

lemma sl_urgent_kept:
  "sl_compress_tcp (ex_slhdr 41 2 102 0x10 5) [3] 41 True \<lparr>tstate = [(15, ex_slhdr 42 1 100 0x30 5)], last_xmit = 15\<rparr>
     = Ret (SlCompressed [0x0f, 0, 99, 3], \<lparr>tstate = [(15, ex_slhdr 41 2 102 0x10 5)], last_xmit = 15\<rparr>)"
  "\<exists>h st. sl_uncompress_tcp be (SlCompressed [0x0f, 0, 99, 3]) []
      \<lparr>rstate = (\<lambda>_. (ex_slhdr 42 1 100 0x30 5, 40)), last_recv = 15, sl_toss = False\<rparr> = Ret (Some (h, [3]), st) \<and> t_flagbits h = 0x30"
  by (simp_all add: sl_example)

text \<open>A header longer than \<^verbatim>\<open>MAX_HDR\<close> (108; headers go up to 120) is copied beyond its state.\<close>

lemma sl_long_header:
  "s_off h AND 0x3fff = 0 \<Longrightarrow> t_flagbits h AND TH_CONTROL = TH_ACKBIT \<Longrightarrow> 40 \<le> mlen \<Longrightarrow> MAX_HDR < sl_hlen h \<Longrightarrow>
     sl_compress_tcp h d mlen cc st = Fault"
  by (simp add: sl_compress_tcp_def sl_badlen_def)

end
