(* ===== verification/Kmem.thy ===== *)
theory Kmem
  imports Mbuf
begin

unbundle bit_operations_syntax

text \<open>
  The kernel memory allocator, \<^verbatim>\<open>sys/kern/kern_malloc.c\<close> and \<^verbatim>\<open>sys/sys/malloc.h\<close>, with statistics (\<^verbatim>\<open>KMEMSTATS\<close>, which
  \<^verbatim>\<open>malloc.h\<close> defines) and the checks under \<^verbatim>\<open>DIAGNOSTIC\<close> if the configuration says so; constants of the VAX, page sizes from \<open>Mbuf\<close>.  Pages come from
  the resource map \<^verbatim>\<open>kmemmap\<close> (theory \<open>Rmap\<close>).  An address is an integer, 0 the null pointer; \<open>cell\<close> gives the pointer stored at an
  address, in which the lists of free blocks are threaded through the blocks themselves.  Between calls the holders of blocks may
  write anything into them.  \<^verbatim>\<open>malloc\<close> is cut in two where it may sleep for page frames, in \<^verbatim>\<open>vmemall\<close>, and other calls may come
  between; a call that sleeps before begins again.
\<close>

section \<open>Constants\<close>

definition CLSZ :: int where "CLSZ = 2"
definition MINBUCKET :: nat where "MINBUCKET = 4"
definition MINALLOCSIZE :: int where "MINALLOCSIZE = 2 ^ MINBUCKET"
definition MAXALLOCSAVE :: int where "MAXALLOCSAVE = 2 * CLBYTES"
definition M_LAST :: nat where "M_LAST = 50"

lemmas kmem_consts = NBPG_def CLBYTES_def CLSZ_def MINBUCKET_def MINALLOCSIZE_def MAXALLOCSAVE_def M_LAST_def

definition to_long :: "int \<Rightarrow> int" where "to_long k = sint (of_int k :: u32)"

definition BUCKETINDX :: "int \<Rightarrow> nat" where
  "BUCKETINDX sz =
     (if sz \<le> MINALLOCSIZE * 128 then
        if sz \<le> MINALLOCSIZE * 8 then
          if sz \<le> MINALLOCSIZE * 2 then if sz \<le> MINALLOCSIZE * 1 then MINBUCKET + 0 else MINBUCKET + 1
          else if sz \<le> MINALLOCSIZE * 4 then MINBUCKET + 2 else MINBUCKET + 3
        else
          if sz \<le> MINALLOCSIZE * 32 then if sz \<le> MINALLOCSIZE * 16 then MINBUCKET + 4 else MINBUCKET + 5
          else if sz \<le> MINALLOCSIZE * 64 then MINBUCKET + 6 else MINBUCKET + 7
      else
        if sz \<le> MINALLOCSIZE * 2048 then
          if sz \<le> MINALLOCSIZE * 512 then if sz \<le> MINALLOCSIZE * 256 then MINBUCKET + 8 else MINBUCKET + 9
          else if sz \<le> MINALLOCSIZE * 1024 then MINBUCKET + 10 else MINBUCKET + 11
        else
          if sz \<le> MINALLOCSIZE * 8192 then if sz \<le> MINALLOCSIZE * 4096 then MINBUCKET + 12 else MINBUCKET + 13
          else if sz \<le> MINALLOCSIZE * 16384 then MINBUCKET + 14 else MINBUCKET + 15)"

text \<open>\<^verbatim>\<open>btoc\<close>, \<^verbatim>\<open>clrnd\<close> and \<^verbatim>\<open>roundup(size, CLBYTES)\<close>, the last in \<^verbatim>\<open>unsigned long\<close>.\<close>

definition btoc :: "int \<Rightarrow> int" where "btoc x = (x mod 2 ^ 32 + 511) mod 2 ^ 32 div 512"
definition clrnd :: "int \<Rightarrow> int" where "clrnd i = (i + (CLSZ - 1)) AND NOT (CLSZ - 1)"
definition roundup_cl :: "int \<Rightarrow> int" where "roundup_cl sz = (sz + (CLBYTES - 1)) mod 2 ^ 32 div CLBYTES * CLBYTES"

section \<open>State\<close>

record kmembuckets =
  kb_next :: int
  kb_calls :: int
  kb_total :: int
  kb_totalfree :: int
  kb_elmpercl :: int
  kb_highwat :: int
  kb_couldfree :: int

text \<open>\<open>ku_cnt\<close> is the union of \<^verbatim>\<open>freecnt\<close> and \<^verbatim>\<open>pagecnt\<close>.\<close>

record kmemusage =
  ku_indx :: nat
  ku_cnt :: int

record kmemstats =
  ks_inuse :: int
  ks_calls :: int
  ks_memuse :: int
  ks_limblocks :: int
  ks_mapblocks :: int
  ks_maxused :: int
  ks_limit :: int

text \<open>The last two fields count the wakeups of those who wait for the map, and, for each type, for its limit.\<close>

record kmem =
  kbucket :: "nat \<Rightarrow> kmembuckets"
  kusage :: "int \<Rightarrow> kmemusage"
  kstats :: "nat \<Rightarrow> kmemstats"
  kmemmap :: "rmap \<times> rmenv"
  wantkmemmap :: int
  cell :: "int \<Rightarrow> int"
  map_wakeups :: nat
  lim_wakeups :: "nat \<Rightarrow> nat"

text \<open>\<open>kpages\<close> is \<^verbatim>\<open>ekmempt - kmempt\<close>.\<close>

record kconf =
  kmembase :: int
  kpages :: int
  krmconf :: rmconf
  diagnostic :: bool

text \<open>The index of \<^verbatim>\<open>btokup\<close>; and whether a pointer may be read at an address of kernel memory.\<close>

definition btokup :: "kconf \<Rightarrow> int \<Rightarrow> int" where
  "btokup c addr = (addr - kmembase c) div CLBYTES"

definition kaddr :: "kconf \<Rightarrow> int \<Rightarrow> bool" where
  "kaddr c addr = (kmembase c \<le> addr \<and> addr + 4 \<le> kmembase c + NBPG * kpages c)"

section \<open>Operations\<close>

definition elmpercl :: "nat \<Rightarrow> int" where
  "elmpercl indx = (if 2 ^ indx \<ge> CLBYTES then 1 else CLBYTES div 2 ^ indx)"

text \<open>The memory of the map is clear.\<close>

definition kmeminit :: "kconf \<Rightarrow> kmem \<Rightarrow> kmem kres" where
  "kmeminit c st =
     kmap (\<lambda>mp. st\<lparr>kmemmap := (mp, snd (kmemmap st)),
         kbucket := (\<lambda>indx. if indx < MINBUCKET + 16 then (kbucket st indx)\<lparr>kb_elmpercl := elmpercl indx, kb_highwat := 5 * elmpercl indx\<rparr>
            else kbucket st indx),
         kstats := (\<lambda>t. if t < M_LAST then (kstats st t)\<lparr>ks_limit := kpages c * NBPG * 6 div 10\<rparr> else kstats st t)\<rparr>)
       (rminit (replicate (nat (kpages c) - 1) delim) (kpages c) CLSZ ''malloc map'' (nat (kpages c)))"

text \<open>The end of \<^verbatim>\<open>malloc\<close>, from \<^verbatim>\<open>out\<close>, and the end that takes a block off its list.\<close>

definition malloc_out :: "nat \<Rightarrow> nat \<Rightarrow> int \<Rightarrow> kmem \<Rightarrow> kmem" where
  "malloc_out indx t amount st =
     (let ks = (kstats st t)\<lparr>ks_memuse := ks_memuse (kstats st t) + amount\<rparr> in
      st\<lparr>kbucket := (kbucket st)(indx := (kbucket st indx)\<lparr>kb_calls := to_long (kb_calls (kbucket st indx) + 1)\<rparr>),
         kstats := (kstats st)(t := ks\<lparr>ks_inuse := ks_inuse ks + 1, ks_calls := to_long (ks_calls ks + 1),
            ks_maxused := max (ks_maxused ks) (ks_memuse ks)\<rparr>)\<rparr>)"

definition malloc_take :: "kconf \<Rightarrow> nat \<Rightarrow> nat \<Rightarrow> kmem \<Rightarrow> (int \<times> kmem) kres" where
  "malloc_take c indx t st =
     (let kb = kbucket st indx; va = kb_next kb; kup = btokup c va in
      if \<not> kaddr c va then Fault
      else if ku_indx (kusage st kup) \<noteq> indx then Panic ''malloc: wrong bucket''
      else if ku_cnt (kusage st kup) = 0 then Panic ''malloc: lost data''
      else Ret (va, malloc_out indx t (2 ^ indx)
        (st\<lparr>kbucket := (kbucket st)(indx := kb\<lparr>kb_next := cell st va, kb_totalfree := kb_totalfree kb - 1\<rparr>),
            kusage := (kusage st)(kup := (kusage st kup)\<lparr>ku_cnt := ku_cnt (kusage st kup) - 1\<rparr>)\<rparr>)))"

text \<open>\<^verbatim>\<open>malloc\<close> up to \<^verbatim>\<open>vmemall\<close>: a block, no block, sleep and begin again, or pages whose frames are now asked for.\<close>

datatype mstep = MGot int | MNull | MSleep | MGrow int int int

definition malloc_size :: "int \<Rightarrow> int" where
  "malloc_size sz = (if sz > MAXALLOCSAVE then to_long (roundup_cl sz) else 2 ^ BUCKETINDX sz)"

definition malloc_start :: "kconf \<Rightarrow> int \<Rightarrow> nat \<Rightarrow> bool \<Rightarrow> int \<Rightarrow> kmem \<Rightarrow> (mstep \<times> kmem) kres" where
  "malloc_start c sz t nowait freemem st =
     (if t > M_LAST then Panic ''malloc - bogus type''
      else if t = M_LAST then Fault
      else let indx = BUCKETINDX sz; ks = kstats st t in
        if ks_memuse ks \<ge> ks_limit ks then
          (if nowait then Ret (MNull, st)
           else Ret (MSleep, st\<lparr>kstats := (kstats st)(t := ks\<lparr>ks_limblocks := (if ks_limblocks ks < 65535 then ks_limblocks ks + 1 else ks_limblocks ks)\<rparr>)\<rparr>))
        else if kb_next (kbucket st indx) = 0 then
          (let allocsize = malloc_size sz; npg = clrnd (btoc allocsize) in
           if nowait \<and> freemem < npg then Ret (MNull, st)
           else kbind (rmalloc (krmconf c) Othermap npg (kmemmap st)) (\<lambda>(alloc, mp).
             if alloc = 0 then
               (if nowait then Ret (MNull, st\<lparr>kmemmap := mp\<rparr>)
                else Ret (MSleep, st\<lparr>kmemmap := mp, wantkmemmap := wantkmemmap st + 1,
                  kstats := (kstats st)(t := ks\<lparr>ks_mapblocks := (if ks_mapblocks ks < 65535 then ks_mapblocks ks + 1 else ks_mapblocks ks)\<rparr>)\<rparr>))
             else Ret (MGrow (alloc - CLSZ) npg allocsize, st\<lparr>kmemmap := mp\<rparr>)))
        else kmap (\<lambda>(va, st1). (MGot va, st1)) (malloc_take c indx t st))"

text \<open>The loop that threads the new blocks, from the last to the first, \<^verbatim>\<open>va\<close>.\<close>

function carve :: "nat \<Rightarrow> int \<Rightarrow> int \<Rightarrow> (int \<Rightarrow> int) \<Rightarrow> (int \<Rightarrow> int)" where
  "carve indx va cp mem =
     (if cp > va then carve indx va (cp - 2 ^ indx) (mem(cp := cp - 2 ^ indx)) else mem(cp := 0))"
  by pat_completeness auto

termination
  by (relation "measure (\<lambda>(indx, va, cp, mem). nat (cp - va))") auto

declare carve.simps [simp del]

text \<open>\<^verbatim>\<open>malloc\<close> with its pages in place.\<close>

definition malloc_grown :: "kconf \<Rightarrow> int \<Rightarrow> nat \<Rightarrow> int \<Rightarrow> int \<Rightarrow> int \<Rightarrow> kmem \<Rightarrow> (int \<times> kmem) kres" where
  "malloc_grown c sz t alloc npg allocsize st =
     (let indx = BUCKETINDX sz; va = kmembase c + alloc * NBPG; kb = kbucket st indx; kup = btokup c va;
          kb1 = kb\<lparr>kb_total := kb_total kb + kb_elmpercl kb\<rparr> in
      if \<not> kaddr c va then Fault
      else if allocsize > MAXALLOCSAVE then
        (if npg > 65535 then Panic ''malloc: allocation too large''
         else Ret (va, malloc_out indx t allocsize (st\<lparr>kbucket := (kbucket st)(indx := kb1), kusage := (kusage st)(kup := \<lparr>ku_indx = indx, ku_cnt = npg\<rparr>)\<rparr>)))
      else let top = va + npg * NBPG - allocsize in
        malloc_take c indx t
          (st\<lparr>kbucket := (kbucket st)(indx := kb1\<lparr>kb_totalfree := kb_totalfree kb1 + kb_elmpercl kb1, kb_next := top\<rparr>),
              kusage := (kusage st)(kup := \<lparr>ku_indx = indx, ku_cnt = kb_elmpercl kb mod 65536\<rparr>),
              cell := carve indx va top (cell st)\<rparr>))"

text \<open>\<^verbatim>\<open>free\<close>: the wakeup of those who wait for the limit of a type, and the two ends.\<close>

definition free_stats :: "nat \<Rightarrow> int \<Rightarrow> kmem \<Rightarrow> kmem" where
  "free_stats t sz st =
     (let ks = (kstats st t)\<lparr>ks_memuse := ks_memuse (kstats st t) - sz\<rparr> in
      st\<lparr>kstats := (kstats st)(t := ks\<lparr>ks_inuse := ks_inuse ks - 1\<rparr>),
         lim_wakeups := (if ks_memuse ks + sz \<ge> ks_limit ks \<and> ks_memuse ks < ks_limit ks
                         then (lim_wakeups st)(t := Suc (lim_wakeups st t)) else lim_wakeups st)\<rparr>)"

definition free_pages :: "kconf \<Rightarrow> int \<Rightarrow> nat \<Rightarrow> kmem \<Rightarrow> kmem kres" where
  "free_pages c addr t st =
     (let kup = btokup c addr; k = kusage st kup; kb = kbucket st (ku_indx k); alloc = (addr - kmembase c) div NBPG in
      kmap (\<lambda>mp. let st1 = (if wantkmemmap st \<noteq> 0 then st\<lparr>map_wakeups := Suc (map_wakeups st), wantkmemmap := 0\<rparr> else st) in
          free_stats t (ku_cnt k * NBPG)
            (st1\<lparr>kmemmap := mp, kusage := (kusage st)(kup := \<lparr>ku_indx = 0, ku_cnt = 0\<rparr>),
                 kbucket := (kbucket st)(ku_indx k := kb\<lparr>kb_total := kb_total kb - 1\<rparr>)\<rparr>))
        (rmfree Othermap (ku_cnt k) (alloc + CLSZ) (kmemmap st)))"

definition free_block :: "kconf \<Rightarrow> int \<Rightarrow> nat \<Rightarrow> kmem \<Rightarrow> kmem kres" where
  "free_block c addr t st =
     (let kup = btokup c addr; k = kusage st kup; kb = kbucket st (ku_indx k); cnt = (ku_cnt k + 1) mod 65536 in
      if cnt > kb_elmpercl kb then Panic ''free: multiple frees''
      else let kb1 = (if cnt = kb_elmpercl kb \<and> kb_totalfree kb > kb_highwat kb then kb\<lparr>kb_couldfree := kb_couldfree kb + 1\<rparr> else kb) in
        Ret (free_stats t (2 ^ ku_indx k)
          (st\<lparr>kusage := (kusage st)(kup := k\<lparr>ku_cnt := cnt\<rparr>), cell := (cell st)(addr := kb_next kb),
              kbucket := (kbucket st)(ku_indx k := kb1\<lparr>kb_totalfree := kb_totalfree kb + 1, kb_next := addr\<rparr>)\<rparr>)))"

definition kfree :: "kconf \<Rightarrow> int \<Rightarrow> nat \<Rightarrow> kmem \<Rightarrow> kmem kres" where
  "kfree c addr t st =
     (if \<not> kaddr c addr \<or> t \<ge> M_LAST then Fault
      else let sz = 2 ^ ku_indx (kusage st (btokup c addr)) :: int in
        if diagnostic c \<and> addr mod (if sz > CLBYTES then 2 ^ BUCKETINDX CLBYTES else sz) \<noteq> 0 then Panic ''free: unaligned addr''
        else if sz > MAXALLOCSAVE then free_pages c addr t st
        else free_block c addr t st)"

section \<open>Calls in any order\<close>

text \<open>The blocks out, with the size asked for and the type; the calls that wait for page frames; and what may happen: a call, the arrival of the
  frames of the \<open>i\<close>-th waiting call, the return of the \<open>i\<close>-th block, and arbitrary writes into the blocks that are out.\<close>

type_synonym kblock = "int \<times> int \<times> nat"
type_synonym kwait = "int \<times> int \<times> int \<times> int \<times> nat"

datatype kop = KMalloc int nat bool int | KGrown nat | KFree nat | KUse "int \<Rightarrow> int"

definition kuse :: "(int \<Rightarrow> int) \<Rightarrow> kblock list \<Rightarrow> kmem \<Rightarrow> kmem" where
  "kuse g live st = st\<lparr>cell := (\<lambda>x. if \<exists>(a, s, t) \<in> set live. x < a + s \<and> a < x + 4 then g x else cell st x)\<rparr>"

fun kstep :: "kconf \<Rightarrow> kop \<Rightarrow> kmem \<times> kblock list \<times> kwait list \<Rightarrow> (kmem \<times> kblock list \<times> kwait list) kres" where
  "kstep c (KMalloc sz t nowait fm) (st, live, pend) =
     kmap (\<lambda>(r, st1). (case r of MGot va \<Rightarrow> (st1, (va, sz, t) # live, pend)
        | MGrow a n z \<Rightarrow> (st1, live, (a, n, z, sz, t) # pend) | _ \<Rightarrow> (st1, live, pend)))
       (malloc_start c sz t nowait fm st)"
| "kstep c (KGrown i) (st, live, pend) =
     (if i < length pend then
        (let (a, n, z, sz, t) = pend ! i in
         kmap (\<lambda>(va, st1). (st1, (va, sz, t) # live, take i pend @ drop (Suc i) pend)) (malloc_grown c sz t a n z st))
      else Ret (st, live, pend))"
| "kstep c (KFree i) (st, live, pend) =
     (if i < length live then
        (let (va, sz, t) = live ! i in kmap (\<lambda>st1. (st1, take i live @ drop (Suc i) live, pend)) (kfree c va t st))
      else Ret (st, live, pend))"
| "kstep c (KUse g) (st, live, pend) = Ret (kuse g live st, live, pend)"

fun krun :: "kconf \<Rightarrow> kop list \<Rightarrow> kmem \<times> kblock list \<times> kwait list \<Rightarrow> (kmem \<times> kblock list \<times> kwait list) kres" where
  "krun c [] s = Ret s"
| "krun c (op # ops) s = kbind (kstep c op s) (krun c ops)"

section \<open>Sizes\<close>

lemma clrnd_int: "clrnd i = 2 * ((i + 1) div 2)"
proof -
  have "x AND NOT 1 = 2 * drop_bit 1 x" for x :: int by (rule bit_eqI) (auto simp: bit_double_iff bit_simps)
  from this[of "i + 1"] show ?thesis by (simp add: clrnd_def CLSZ_def drop_bit_eq_div)
qed

lemma BUCKETINDX_cases:
  shows "4 \<le> BUCKETINDX sz \<and> BUCKETINDX sz \<le> 19" and "BUCKETINDX sz \<le> 11 \<longleftrightarrow> sz \<le> 2048" and "sz \<le> 2048 \<Longrightarrow> sz \<le> 2 ^ BUCKETINDX sz"
  by (auto simp: BUCKETINDX_def kmem_consts)

definition size_ok :: "int \<Rightarrow> bool" where "size_ok sz = (0 \<le> sz \<and> sz < 2 ^ 31 - 1024)"

definition pool_pages :: "nat \<Rightarrow> int" where "pool_pages i = (if i = 11 then 4 else 2)"

lemma pool_index_cases: "4 \<le> i \<Longrightarrow> i \<le> 11 \<Longrightarrow> i = 4 \<or> i = 5 \<or> i = 6 \<or> i = 7 \<or> i = 8 \<or> i = 9 \<or> i = 10 \<or> i = (11 :: nat)"
  by presburger

lemma pool_facts:
  assumes "4 \<le> i" and "i \<le> 11"
  shows "elmpercl i * 2 ^ i = 512 * pool_pages i" and "0 < elmpercl i" and "elmpercl i \<le> 64" and "i \<noteq> 11 \<Longrightarrow> elmpercl i * 2 ^ i = 1024"
    and "clrnd (btoc (2 ^ i)) = pool_pages i" and "16 \<le> (2 :: int) ^ i" and "(2 :: int) ^ i \<le> 2048" and "i = 11 \<Longrightarrow> elmpercl i = 1"
  using pool_index_cases[OF assms] by (auto simp: elmpercl_def kmem_consts pool_pages_def clrnd_int btoc_def)

lemma malloc_size_small: "sz \<le> 2048 \<Longrightarrow> malloc_size sz = 2 ^ BUCKETINDX sz"
  by (simp add: malloc_size_def kmem_consts)

lemma malloc_size_big:
  assumes "size_ok sz" and "2048 < sz"
  shows "malloc_size sz = 1024 * ((sz + 1023) div 1024)" and "clrnd (btoc (malloc_size sz)) = 2 * ((sz + 1023) div 1024)"
    and "sz \<le> malloc_size sz" and "2048 < malloc_size sz" and "malloc_size sz < 2 ^ 31"
proof -
  have b: "0 \<le> sz" "sz < 2 ^ 31 - 1024" using assms(1) by (simp_all add: size_ok_def)
  have k: "1024 * ((sz + 1023) div 1024) < 2 ^ 31" "sz \<le> 1024 * ((sz + 1023) div 1024)" using b by linarith+
  have "to_long (roundup_cl sz) = 1024 * ((sz + 1023) div 1024)"
    unfolding to_long_def using k b by (subst sint_of_int_u32) (simp_all add: roundup_cl_def CLBYTES_def)
  then show m: "malloc_size sz = 1024 * ((sz + 1023) div 1024)" using assms(2) by (simp add: malloc_size_def kmem_consts)
  show "clrnd (btoc (malloc_size sz)) = 2 * ((sz + 1023) div 1024)" unfolding m clrnd_int btoc_def using k b by simp
  show "sz \<le> malloc_size sz" "2048 < malloc_size sz" "malloc_size sz < 2 ^ 31" unfolding m using k assms(2) by auto
qed

lemma size_le_malloc_size: "size_ok sz \<Longrightarrow> sz \<le> malloc_size sz"
  using malloc_size_big(3) BUCKETINDX_cases(3) malloc_size_small by (metis not_le)

section \<open>Free lists\<close>

primrec flist :: "(int \<Rightarrow> int) \<Rightarrow> int \<Rightarrow> int list \<Rightarrow> bool" where
  "flist mem p [] = (p = 0)"
| "flist mem p (x # xs) = (p = x \<and> p \<noteq> 0 \<and> flist mem (mem p) xs)"

lemma flist_cong: "\<forall>x \<in> set xs. mem' x = mem x \<Longrightarrow> flist mem' p xs = flist mem p xs"
  by (induction xs arbitrary: p) auto

lemma flist_0 [simp]: "flist mem 0 xs \<longleftrightarrow> xs = []"
  by (cases xs) auto

definition chain_of :: "nat \<Rightarrow> int \<Rightarrow> nat \<Rightarrow> int list" where
  "chain_of i va k = map (\<lambda>j. va + int j * 2 ^ i) (rev [0 ..< Suc k])"

lemma set_chain_of: "x \<in> set (chain_of i va k) \<longleftrightarrow> (\<exists>j \<le> k. x = va + int j * 2 ^ i)"
  by (auto simp: chain_of_def less_Suc_eq_le simp del: upt_Suc)

lemma carve_exact:
  "carve i va (va + int k * 2 ^ i) mem = (\<lambda>x. if x \<in> set (chain_of i va k) then (if x = va then 0 else x - 2 ^ i) else mem x)"
proof (induction k arbitrary: mem)
  case 0
  show ?case by (subst carve.simps) (auto simp: set_chain_of)
next
  case (Suc k)
  have p: "va < va + int (Suc k) * 2 ^ i" by simp
  have s: "va + int (Suc k) * 2 ^ i - 2 ^ i = va + int k * 2 ^ i" by (simp add: algebra_simps)
  have n: "x \<in> set (chain_of i va (Suc k)) \<longleftrightarrow> x = va + int (Suc k) * 2 ^ i \<or> x \<in> set (chain_of i va k)" for x
    unfolding set_chain_of by (metis le_Suc_eq)
  show ?case by (subst carve.simps) (use p in \<open>auto simp: s Suc n fun_eq_iff simp del: of_nat_Suc\<close>)
qed

lemma chain_of_Suc: "chain_of i va (Suc k) = (va + int (Suc k) * 2 ^ i) # chain_of i va k"
  by (simp add: chain_of_def del: of_nat_Suc)

lemma chain_of_0: "chain_of i va 0 = [va]"
  by (simp add: chain_of_def)

lemma distinct_chain_of: "distinct (chain_of i va k)"
  unfolding chain_of_def distinct_map by (auto simp: inj_on_def)

lemma flist_carve:
  assumes "0 < va"
  shows "flist (carve i va (va + int k * 2 ^ i) mem) (va + int k * 2 ^ i) (chain_of i va k)"
proof -
  have "flist mem' (va + int j * 2 ^ i) (chain_of i va j)"
    if "j \<le> k" and m: "\<forall>x \<in> set (chain_of i va k). mem' x = (if x = va then 0 else x - 2 ^ i)" for j mem'
    using that(1)
  proof (induction j)
    case 0
    have "va \<in> set (chain_of i va k)" by (auto simp: set_chain_of)
    then have "mem' va = 0" using m by simp
    then show ?case using assms by (simp add: chain_of_0)
  next
    case (Suc j)
    have "va + int (Suc j) * 2 ^ i \<in> set (chain_of i va k)" using Suc(2) unfolding set_chain_of by blast
    then have "mem' (va + int (Suc j) * 2 ^ i) = va + int (Suc j) * 2 ^ i - 2 ^ i" using m by simp
    then have "mem' (va + int (Suc j) * 2 ^ i) = va + int j * 2 ^ i" by (simp add: algebra_simps)
    moreover have "va + int (Suc j) * 2 ^ i \<noteq> 0" using assms by (smt (verit) of_nat_0_le_iff zero_le_mult_iff zero_le_power)
    ultimately show ?case using Suc by (simp add: chain_of_Suc del: of_nat_Suc)
  qed
  then show ?thesis by (simp add: carve_exact)
qed

section \<open>Pages from the map\<close>

text \<open>Regions of pages out of the map: cut into a pool of blocks, a block by themselves, or waiting for their frames.\<close>

datatype rkind = Pool nat | Big | Wait

type_synonym region = "int \<times> int \<times> rkind"

definition runits :: "region \<Rightarrow> int set" where "runits r = {fst r + 2 ..< fst r + 2 + fst (snd r)}"

definition regs_ok :: "int \<Rightarrow> int set \<Rightarrow> region set \<Rightarrow> bool" where
  "regs_ok N F G \<longleftrightarrow> (\<forall>(a, n, k) \<in> G. even a \<and> even n \<and> 0 \<le> a \<and> 0 < n \<and> a + n \<le> N) \<and> (\<forall>r \<in> G. runits r \<inter> F = {})
     \<and> (\<forall>r \<in> G. \<forall>q \<in> G. r \<noteq> q \<longrightarrow> runits r \<inter> runits q = {})"

lemma regs_okI:
  assumes "\<And>a n k. (a, n, k) \<in> G \<Longrightarrow> even a \<and> even n \<and> 0 \<le> a \<and> 0 < n \<and> a + n \<le> N" and "\<And>r. r \<in> G \<Longrightarrow> runits r \<inter> F = {}"
    and "\<And>r q. r \<in> G \<Longrightarrow> q \<in> G \<Longrightarrow> r \<noteq> q \<Longrightarrow> runits r \<inter> runits q = {}"
  shows "regs_ok N F G"
  unfolding regs_ok_def using assms by blast

lemma regs_okD: "regs_ok N F G \<Longrightarrow> (a, n, k) \<in> G \<Longrightarrow> even a \<and> even n \<and> 0 \<le> a \<and> 0 < n \<and> a + n \<le> N"
  by (auto simp: regs_ok_def)

lemma regs_free: "regs_ok N F G \<Longrightarrow> r \<in> G \<Longrightarrow> runits r \<inter> F = {}"
  by (simp add: regs_ok_def)

lemma regs_apart: "regs_ok N F G \<Longrightarrow> r \<in> G \<Longrightarrow> q \<in> G \<Longrightarrow> r \<noteq> q \<Longrightarrow> runits r \<inter> runits q = {}"
  by (simp add: regs_ok_def)

lemma regs_same:
  assumes "regs_ok N F G" and "(a, n, k) \<in> G" and "(b, m, l) \<in> G" and "a \<le> x" "x < a + n" "b \<le> x" "x < b + m"
  shows "a = b \<and> n = m \<and> k = l"
proof (rule ccontr)
  assume "\<not> (a = b \<and> n = m \<and> k = l)"
  then have "runits (a, n, k) \<inter> runits (b, m, l) = {}" using regs_apart[OF assms(1-3)] by auto
  moreover have "x + 2 \<in> runits (a, n, k) \<inter> runits (b, m, l)" using assms(4-7) by (simp add: runits_def)
  ultimately show False by blast
qed

lemma regs_insert:
  assumes "regs_ok N F G" and "even a \<and> even n \<and> 0 \<le> a \<and> 0 < n \<and> a + n \<le> N" and "runits (a, n, k) \<inter> F = {}"
    and "\<And>r. r \<in> G \<Longrightarrow> runits r \<inter> runits (a, n, k) = {}"
  shows "regs_ok N F (insert (a, n, k) G)"
proof (rule regs_okI)
  fix r q
  assume "r \<in> insert (a, n, k) G" "q \<in> insert (a, n, k) G" "r \<noteq> q"
  then show "runits r \<inter> runits q = {}" using assms(4)[of r] assms(4)[of q] regs_apart[OF assms(1), of r q] by (auto simp: Int_commute)
next
  show "runits r \<inter> F = {}" if "r \<in> insert (a, n, k) G" for r using that assms(3) regs_free[OF assms(1), of r] by auto
qed (use assms(2) regs_okD[OF assms(1)] in auto)

lemma regs_drop:
  assumes "regs_ok N F G" and "G' \<subseteq> G"
  shows "regs_ok N F G'"
proof (rule regs_okI)
  show "even a \<and> even n \<and> 0 \<le> a \<and> 0 < n \<and> a + n \<le> N" if "(a, n, k) \<in> G'" for a n k using regs_okD[OF assms(1)] that assms(2) by blast
  show "runits r \<inter> F = {}" if "r \<in> G'" for r using regs_free[OF assms(1)] that assms(2) by blast
  show "runits r \<inter> runits q = {}" if "r \<in> G'" "q \<in> G'" "r \<noteq> q" for r q using regs_apart[OF assms(1)] that assms(2) by blast
qed

lemma regs_shrink:
  assumes "regs_ok N F G" and "\<And>r. r \<in> G \<Longrightarrow> runits r \<inter> F' = {}"
  shows "regs_ok N F' G"
  by (rule regs_okI[OF regs_okD[OF assms(1)] assms(2) regs_apart[OF assms(1)]])

lemma regs_kind:
  assumes "regs_ok N F G" and "(a, n, k) \<in> G"
  shows "regs_ok N F (insert (a, n, l) (G - {(a, n, k)}))"
proof (rule regs_insert)
  have u: "runits (a, n, l) = runits (a, n, k)" by (simp add: runits_def)
  show "runits (a, n, l) \<inter> F = {}" unfolding u by (rule regs_free[OF assms])
  show "runits r \<inter> runits (a, n, l) = {}" if "r \<in> G - {(a, n, k)}" for r unfolding u using that regs_apart[OF assms(1) _ assms(2), of r] by simp
  show "regs_ok N F (G - {(a, n, k)})" by (rule regs_drop[OF assms(1)]) blast
  show "even a \<and> even n \<and> 0 \<le> a \<and> 0 < n \<and> a + n \<le> N" by (rule regs_okD[OF assms])
qed

text \<open>What \<^verbatim>\<open>malloc\<close> and \<^verbatim>\<open>free\<close> need of the map: pairs of pages, exactly as asked, and nothing lost.\<close>

locale page_map =
  fixes al :: "int \<Rightarrow> 's \<Rightarrow> (int \<times> 's) kres"
    and rl :: "int \<Rightarrow> int \<Rightarrow> 's \<Rightarrow> 's kres"
    and ok :: "int \<Rightarrow> 's \<Rightarrow> bool"
    and free :: "'s \<Rightarrow> int set"
  assumes al_pages: "ok N s \<Longrightarrow> 0 < n \<Longrightarrow> even n \<Longrightarrow> \<exists>a s1. al n s = Ret (a, s1) \<and> ok N s1 \<and>
      (if a = 0 then s1 = s else even a \<and> 2 \<le> a \<and> a + n \<le> N + 2 \<and> {a ..< a + n} \<subseteq> free s \<and> free s1 = free s - {a ..< a + n})"
    and rl_pages: "ok N s \<Longrightarrow> 0 < n \<Longrightarrow> even n \<Longrightarrow> even a \<Longrightarrow> 2 \<le> a \<Longrightarrow> a + n \<le> N + 2 \<Longrightarrow> {a ..< a + n} \<inter> free s = {} \<Longrightarrow>
      \<exists>s1. rl n a s = Ret s1 \<and> ok N s1 \<and> free s1 = free s \<union> {a ..< a + n}"
begin

lemma al_region:
  assumes "ok N s" and "0 < n" and "even n" and "regs_ok N (free s) G"
  shows "\<exists>a s1. al n s = Ret (a, s1) \<and> ok N s1 \<and> (if a = 0 then s1 = s else regs_ok N (free s1) (insert (a - 2, n, k) G) \<and> (\<forall>l. (a - 2, n, l) \<notin> G))"
proof -
  obtain a s1 where a: "al n s = Ret (a, s1)" "ok N s1"
    "if a = 0 then s1 = s else even a \<and> 2 \<le> a \<and> a + n \<le> N + 2 \<and> {a ..< a + n} \<subseteq> free s \<and> free s1 = free s - {a ..< a + n}"
    using al_pages[OF assms(1-3)] by blast
  show ?thesis
  proof (cases "a = 0")
    case True
    then show ?thesis using a by auto
  next
    case False
    then have p: "even a" "2 \<le> a" "a + n \<le> N + 2" "{a ..< a + n} \<subseteq> free s" "free s1 = free s - {a ..< a + n}" using a(3) by auto
    have u: "runits (a - 2, n, l) = {a ..< a + n}" for l by (simp add: runits_def)
    have g: "runits r \<inter> free s = {}" if "r \<in> G" for r using regs_free[OF assms(4) that] .
    have g1: "runits r \<inter> free s1 = {}" if "r \<in> G" for r using g[OF that] p(5) by blast
    have "regs_ok N (free s1) (insert (a - 2, n, k) G)"
    proof (rule regs_insert)
      show "regs_ok N (free s1) G" by (rule regs_shrink[OF assms(4) g1])
      show "even (a - 2) \<and> even n \<and> 0 \<le> a - 2 \<and> 0 < n \<and> a - 2 + n \<le> N" using p assms(2,3) by auto
      show "runits (a - 2, n, k) \<inter> free s1 = {}" unfolding u p(5) by blast
      show "runits r \<inter> runits (a - 2, n, k) = {}" if "r \<in> G" for r unfolding u using g[OF that] p(4) by blast
    qed
    moreover have "(a - 2, n, l) \<notin> G" for l
    proof
      assume "(a - 2, n, l) \<in> G"
      then have "{a ..< a + n} \<inter> free s = {}" using g u by metis
      then have "a \<notin> {a ..< a + n}" using p(4) by blast
      then show False using assms(2) by simp
    qed
    ultimately show ?thesis using a False by auto
  qed
qed

lemma rl_region:
  assumes "ok N s" and "regs_ok N (free s) G" and "(a, n, k) \<in> G"
  shows "\<exists>s1. rl n (a + 2) s = Ret s1 \<and> ok N s1 \<and> regs_ok N (free s1) (G - {(a, n, k)})"
proof -
  have r: "even a" "even n" "0 \<le> a" "0 < n" "a + n \<le> N" using regs_okD[OF assms(2,3)] by auto
  have u: "runits (a, n, k) = {a + 2 ..< a + 2 + n}" by (simp add: runits_def)
  have "{a + 2 ..< a + 2 + n} \<inter> free s = {}" using regs_free[OF assms(2,3)] unfolding u .
  then obtain s1 where s1: "rl n (a + 2) s = Ret s1" "ok N s1" "free s1 = free s \<union> {a + 2 ..< a + 2 + n}"
    using rl_pages[OF assms(1), of n "a + 2"] r by auto
  have d: "runits q \<inter> {a + 2 ..< a + 2 + n} = {}" if "q \<in> G - {(a, n, k)}" for q using regs_apart[OF assms(2) _ assms(3), of q] that unfolding u by simp
  have "runits q \<inter> free s1 = {}" if "q \<in> G - {(a, n, k)}" for q using d[OF that] s1(3) regs_free[OF assms(2), of q] that by blast
  then have "regs_ok N (free s1) (G - {(a, n, k)})" using regs_shrink[OF regs_drop[OF assms(2), of "G - {(a, n, k)}"]] by blast
  then show ?thesis using s1 by blast
qed

end

text \<open>The map keeps pairs of pages together, so it never runs out of slots.\<close>

definition pages_ok :: "int \<Rightarrow> rmap \<times> rmenv \<Rightarrow> bool" where
  "pages_ok N st \<longleftrightarrow> rm_wf (fst st) \<and> int (m_limit (fst st)) = N - 1 \<and> 8 \<le> N \<and> rm_free (fst st) \<subseteq> {2 ..< N + 2}
     \<and> (\<forall>x. even x \<longrightarrow> (x \<in> rm_free (fst st) \<longleftrightarrow> x + 1 \<in> rm_free (fst st)))"

lemma seg_maximal:
  assumes "segs_from lo ss" and "e \<in> set ss"
  shows "m_addr e - 1 \<notin> units ss" and "m_addr e + m_size e \<notin> units ss"
proof -
  obtain xs ys where ss: "ss = xs @ e # ys" using assms(2) by (metis split_list)
  have s: "segs_from lo xs" "seg_end lo xs < m_addr e" "0 < m_size e" "segs_from (m_addr e + m_size e) ys" using assms(1) by (auto simp: ss)
  have "m_addr e - 1 \<notin> units xs" "m_addr e + m_size e \<notin> units xs" using units_bounds[OF s(1), of "m_addr e - 1"] units_bounds[OF s(1), of "m_addr e + m_size e"] s(2,3) by auto
  moreover have "m_addr e - 1 \<notin> units ys" "m_addr e + m_size e \<notin> units ys" using units_bounds[OF s(4), of "m_addr e - 1"] units_bounds[OF s(4), of "m_addr e + m_size e"] s(3) by auto
  ultimately show "m_addr e - 1 \<notin> units ss" "m_addr e + m_size e \<notin> units ss" using s(3) by (auto simp: ss seg_units_def)
qed

lemma segs_even:
  assumes "segs_from lo ss" and "\<forall>x. even x \<longrightarrow> (x \<in> units ss \<longleftrightarrow> x + 1 \<in> units ss)" and "e \<in> set ss"
  shows "even (m_addr e)" and "even (m_size e)" and "2 \<le> m_size e"
proof -
  have p: "0 < m_size e" using segs_from_pos[OF assms(1,3)] by simp
  have i: "x \<in> units ss" if "m_addr e \<le> x" "x < m_addr e + m_size e" for x using that assms(3) by (auto simp: units_def seg_units_def)
  note m = seg_maximal[OF assms(1,3)]
  show ev: "even (m_addr e)"
  proof (rule ccontr)
    assume "odd (m_addr e)"
    then have "even (m_addr e - 1)" by simp
    then have "m_addr e - 1 \<in> units ss \<longleftrightarrow> m_addr e - 1 + 1 \<in> units ss" using assms(2) by blast
    then show False using m(1) i[of "m_addr e"] p by simp
  qed
  show "even (m_size e)"
  proof (rule ccontr)
    assume "odd (m_size e)"
    then have "even (m_addr e + m_size e - 1)" using ev by simp
    moreover have "m_addr e + m_size e - 1 \<in> units ss" using p i[of "m_addr e + m_size e - 1"] by simp
    ultimately have "m_addr e + m_size e - 1 + 1 \<in> units ss" using assms(2) by blast
    then show False using m(2) by simp
  qed
  then show "2 \<le> m_size e" using p by presburger
qed

lemma segs_room: "segs_from lo ss \<Longrightarrow> \<forall>e \<in> set ss. 2 \<le> m_size e \<Longrightarrow> lo + 3 * int (length ss) \<le> seg_end lo ss"
proof (induction ss arbitrary: lo)
  case (Cons e ss)
  have "m_addr e + m_size e + 3 * int (length ss) \<le> seg_end (m_addr e + m_size e) ss" using Cons by simp
  then show ?case using Cons(2,3) by simp
qed simp

lemma pages_room:
  assumes "pages_ok N st"
  shows "Suc (length (rm_segs (fst st))) < m_limit (fst st)"
proof -
  have wf: "rm_wf (fst st)" and N: "8 \<le> N" "int (m_limit (fst st)) = N - 1" and F: "rm_free (fst st) \<subseteq> {2 ..< N + 2}"
    and ev: "\<forall>x. even x \<longrightarrow> (x \<in> rm_free (fst st) \<longleftrightarrow> x + 1 \<in> rm_free (fst st))" using assms by (auto simp: pages_ok_def)
  obtain ss k where s: "segs_from 0 ss" "rm_segs (fst st) = ss" "rm_free (fst st) = units ss" by (rule rm_wfE[OF wf])
  have "0 + 3 * int (length ss) \<le> seg_end 0 ss"
    using s(1) segs_even(3)[OF s(1) ev[unfolded s(3)]] by (intro segs_room) auto
  moreover have "seg_end 0 ss \<le> N + 2"
  proof (cases "ss = []")
    case False
    have "0 < m_size (last ss)" using segs_from_pos[OF s(1), of "last ss"] False by simp
    then have "m_addr (last ss) + m_size (last ss) - 1 \<in> units ss" using False unfolding units_def seg_units_def by (intro UN_I[of "last ss"]) auto
    then show ?thesis using F s(3) False by (auto simp: seg_end_def)
  qed (use N in simp)
  ultimately show ?thesis using N unfolding s(2) by linarith
qed

lemma pages_alloc:
  assumes "pages_ok N st" and "0 < n" and "even n"
  shows "\<exists>a s1. rmalloc c Othermap n st = Ret (a, s1) \<and> pages_ok N s1 \<and>
      (if a = 0 then s1 = st else even a \<and> 2 \<le> a \<and> a + n \<le> N + 2 \<and> {a ..< a + n} \<subseteq> rm_free (fst st) \<and> rm_free (fst s1) = rm_free (fst st) - {a ..< a + n})"
proof -
  obtain mp env where st: "st = (mp, env)" by (cases st)
  have wf: "rm_wf mp" and N: "8 \<le> N" "int (m_limit mp) = N - 1" and F: "rm_free mp \<subseteq> {2 ..< N + 2}"
    and ev: "\<forall>x. even x \<longrightarrow> (x \<in> rm_free mp \<longleftrightarrow> x + 1 \<in> rm_free mp)" using assms by (auto simp: pages_ok_def st)
  obtain ss k where s: "segs_from 0 ss" "rm_segs mp = ss" "rm_free mp = units ss" by (rule rm_wfE[OF wf])
  have sw: "\<not> (Othermap = Swapmap \<and> n > dmmax c)" by simp
  show ?thesis
  proof (cases rule: first_fit_cases[of "rm_segs mp" "fits_here c Othermap n"])
    case none
    then show ?thesis using rmalloc_nofit[OF wf assms(2) sw, of env] assms(1) by (auto simp: fits_next_def st)
  next
    case (found xs e ys)
    have A: "\<forall>f \<in> set xs. \<not> fits_here c Othermap n f \<and> \<not> fits_next c Othermap n f" "\<not> (Othermap = Swapmap \<and> c_mod (m_addr e) (CLSIZE c) \<noteq> 0)"
      using found(2) by (auto simp: fits_next_def)
    from rmalloc_took[OF wf assms(2) sw found(1) A(1) found(3) A(2), of env]
    obtain mp1 where r: "rmalloc c Othermap n (mp, env) = Ret (m_addr e, mp1, env)" "rm_wf mp1" "rm_free mp1 = rm_free mp - {m_addr e ..< m_addr e + n}"
      "{m_addr e ..< m_addr e + n} \<subseteq> rm_free mp" "0 < m_addr e" "m_limit mp1 = m_limit mp" .
    have e: "even (m_addr e)" using segs_even(1)[OF s(1) ev[unfolded s(3)]] found(1) s(2) by simp
    have "m_addr e \<in> {m_addr e ..< m_addr e + n}" "m_addr e + n - 1 \<in> {m_addr e ..< m_addr e + n}" using assms(2) by auto
    then have b: "2 \<le> m_addr e" "m_addr e + n \<le> N + 2" using r(4) F by fastforce+
    have "x \<in> {m_addr e ..< m_addr e + n} \<longleftrightarrow> x + 1 \<in> {m_addr e ..< m_addr e + n}" if "even x" for x
      using that e assms(3) by (auto; presburger)
    then have "pages_ok N (mp1, env)" using r N F ev unfolding pages_ok_def by (auto simp del: atLeastLessThan_iff)
    then show ?thesis using r e b by (intro exI[of _ "m_addr e"] exI[of _ "(mp1, env)"]) (simp add: st)
  qed
qed

lemma pages_release:
  assumes "pages_ok N st" and "0 < n" and "even n" and "even a" and "2 \<le> a" and "a + n \<le> N + 2" and "{a ..< a + n} \<inter> rm_free (fst st) = {}"
  shows "\<exists>s1. rmfree Othermap n a st = Ret s1 \<and> pages_ok N s1 \<and> rm_free (fst s1) = rm_free (fst st) \<union> {a ..< a + n}"
proof -
  obtain mp env where st: "st = (mp, env)" by (cases st)
  have wf: "rm_wf mp" and N: "8 \<le> N" "int (m_limit mp) = N - 1" and F: "rm_free mp \<subseteq> {2 ..< N + 2}"
    and ev: "\<forall>x. even x \<longrightarrow> (x \<in> rm_free mp \<longleftrightarrow> x + 1 \<in> rm_free mp)" using assms(1) by (auto simp: pages_ok_def st)
  have room: "Suc (length (rm_segs mp)) < m_limit mp" using pages_room[OF assms(1)] by (simp add: st)
  have a: "0 < a" using assms(5) by simp
  have d: "{a ..< a + n} \<inter> rm_free mp = {}" using assms(7) by (simp add: st)
  obtain mp1 env1 lost where r: "rmfree Othermap n a (mp, env) = Ret (mp1, env1)" "rm_wf mp1" "rm_ovflo env1 = rm_ovflo env @ lost"
    "rm_free mp1 = (rm_free mp \<union> {a ..< a + n}) - (\<Union>(n, lo, hi) \<in> set lost. {lo ..< hi})"
    "Suc (length (rm_segs mp)) < m_limit mp \<longrightarrow> lost = []" "m_limit mp1 = m_limit mp" "m_name mp1 = m_name mp"
    by (rule rmfree_spec[OF wf a assms(2) d, of Othermap env])
  have f: "rm_free mp1 = rm_free mp \<union> {a ..< a + n}" using r(4,5) room by simp
  have "x \<in> {a ..< a + n} \<longleftrightarrow> x + 1 \<in> {a ..< a + n}" if "even x" for x using that assms(3,4) by (auto; presburger)
  then have "x \<in> rm_free mp1 \<longleftrightarrow> x + 1 \<in> rm_free mp1" if "even x" for x using that ev unfolding f by blast
  moreover have "{a ..< a + n} \<subseteq> {2 ..< N + 2}" using assms(5,6) by auto
  then have "rm_free mp1 \<subseteq> {2 ..< N + 2}" using F unfolding f by blast
  ultimately have "pages_ok N (mp1, env1)" using r(2,6) N unfolding pages_ok_def by simp
  then show ?thesis using r(1) f by (simp add: st)
qed

interpretation pg: page_map "rmalloc rc Othermap" "rmfree Othermap" pages_ok "\<lambda>st. rm_free (fst st)" for rc
  using pages_alloc pages_release by unfold_locales

section \<open>Blocks in their regions\<close>

definition kconf_ok :: "kconf \<Rightarrow> bool" where
  "kconf_ok c \<longleftrightarrow> 0 < kmembase c \<and> kmembase c mod 1024 = 0 \<and> 8 \<le> kpages c \<and> kpages c \<le> 65535 \<and> even (kpages c)"

definition raddr :: "kconf \<Rightarrow> int \<Rightarrow> int" where "raddr c a = kmembase c + 512 * a"

definition in_reg :: "kconf \<Rightarrow> int \<Rightarrow> int \<Rightarrow> int \<Rightarrow> bool" where "in_reg c a n x \<longleftrightarrow> raddr c a \<le> x \<and> x < raddr c (a + n)"

definition slot :: "kconf \<Rightarrow> int \<Rightarrow> nat \<Rightarrow> int \<Rightarrow> bool" where
  "slot c a i x \<longleftrightarrow> (\<exists>k. x = raddr c a + k * 2 ^ i \<and> 0 \<le> k \<and> k < elmpercl i)"

definition pools_ok :: "region set \<Rightarrow> bool" where
  "pools_ok G \<longleftrightarrow> (\<forall>a n i. (a, n, Pool i) \<in> G \<longrightarrow> 4 \<le> i \<and> i \<le> 11 \<and> n = pool_pages i)"

text \<open>A place of a pool, or a region by itself: where a block is and how long.\<close>

definition kext :: "kconf \<Rightarrow> region set \<Rightarrow> int \<Rightarrow> int \<Rightarrow> bool" where
  "kext c G x z \<longleftrightarrow> (\<exists>a n i. (a, n, Pool i) \<in> G \<and> slot c a i x \<and> z = 2 ^ i) \<or> (\<exists>a n. (a, n, Big) \<in> G \<and> x = raddr c a \<and> z = 512 * n)"

lemma in_reg_same:
  assumes "regs_ok N F G" and "(a, n, k) \<in> G" and "(b, m, l) \<in> G" and "in_reg c a n x" and "in_reg c b m x"
  shows "a = b \<and> n = m \<and> k = l"
proof -
  define p where "p = (x - kmembase c) div 512"
  have "a \<le> p" "p < a + n" "b \<le> p" "p < b + m" using assms(4,5) by (auto simp: in_reg_def raddr_def p_def)
  then show ?thesis using regs_same[OF assms(1-3)] by metis
qed

lemma slot_bounds:
  assumes "slot c a i x" and "4 \<le> i" and "i \<le> 11"
  shows "raddr c a \<le> x" and "x + 2 ^ i \<le> raddr c (a + pool_pages i)" and "in_reg c a (pool_pages i) x"
    and "even a \<Longrightarrow> btokup c x = a div 2" and "even a \<Longrightarrow> (x - kmembase c) mod min (2 ^ i) 1024 = 0"
proof -
  obtain k where k: "x = raddr c a + k * 2 ^ i" "0 \<le> k" "k < elmpercl i" using assms(1) by (auto simp: slot_def)
  note f = pool_facts[OF assms(2,3)]
  have "(k + 1) * 2 ^ i \<le> elmpercl i * 2 ^ i" using k(3) by (intro mult_right_mono) auto
  then have u: "k * 2 ^ i + 2 ^ i \<le> 512 * pool_pages i" using f(1) by (simp add: distrib_right)
  have l: "0 \<le> k * 2 ^ i" using k(2) by simp
  show b: "raddr c a \<le> x" "x + 2 ^ i \<le> raddr c (a + pool_pages i)" using k(1) u l by (auto simp: raddr_def)
  show "in_reg c a (pool_pages i) x" using b f(6) by (simp add: in_reg_def)
  have w: "0 \<le> k * 2 ^ i" "k * 2 ^ i < 1024"
  proof -
    show "k * 2 ^ i < 1024"
    proof (cases "i = 11")
      case True
      then show ?thesis using k(2,3) f(8) by simp
    next
      case False
      then show ?thesis using u f(6) by (simp add: pool_pages_def)
    qed
  qed (rule l)
  show "even a \<Longrightarrow> btokup c x = a div 2"
  proof -
    assume "even a"
    then obtain b where b: "a = 2 * b" by auto
    then show "btokup c x = a div 2" using w k(1) by (simp add: btokup_def raddr_def CLBYTES_def)
  qed
  show "even a \<Longrightarrow> (x - kmembase c) mod min (2 ^ i) 1024 = 0"
  proof -
    assume "even a"
    then obtain b where b: "x - kmembase c = 1024 * b + k * 2 ^ i" using k(1) by (auto simp: raddr_def)
    show ?thesis
    proof (cases "i = 11")
      case True
      then show ?thesis using b k(2,3) f(8) by simp
    next
      case False
      then have "(1024 :: int) = elmpercl i * 2 ^ i" "(2 :: int) ^ i \<le> 1024" using f(4) pool_index_cases[OF assms(2,3)] by auto
      then show ?thesis unfolding b by (metis dvd_add dvd_mult2 dvd_triv_right min.absorb1 mod_0_imp_dvd dvd_imp_mod_0)
    qed
  qed
qed

lemma pools_okD: "pools_ok G \<Longrightarrow> (a, n, Pool i) \<in> G \<Longrightarrow> 4 \<le> i \<and> i \<le> 11 \<and> n = pool_pages i"
  by (simp add: pools_ok_def)

lemma kext_region:
  assumes "regs_ok N F G" and "pools_ok G" and "kext c G x z"
  obtains a n k where "(a, n, k) \<in> G" "raddr c a \<le> x" "x + z \<le> raddr c (a + n)" "0 < z"
    "(\<exists>i. k = Pool i \<and> slot c a i x \<and> z = 2 ^ i) \<or> (k = Big \<and> x = raddr c a \<and> z = 512 * n)"
proof -
  from assms(3) consider a n i where "(a, n, Pool i) \<in> G" "slot c a i x" "z = 2 ^ i" | a n where "(a, n, Big) \<in> G" "x = raddr c a" "z = 512 * n"
    unfolding kext_def by blast
  then show ?thesis
  proof cases
    case (1 a n i)
    note p = pools_okD[OF assms(2) 1(1)]
    show ?thesis using 1 p slot_bounds(1,2)[OF 1(2)] by (intro that[of a n "Pool i"]) auto
  next
    case (2 a n)
    then show ?thesis using regs_okD[OF assms(1) 2(1)] by (intro that[of a n Big]) (auto simp: raddr_def)
  qed
qed

lemma kext_apart:
  assumes "regs_ok N F G" and "pools_ok G" and "kext c G x z" and "kext c G y w" and "x \<noteq> y"
  shows "{x ..< x + z} \<inter> {y ..< y + w} = {}"
proof (rule ccontr)
  assume "{x ..< x + z} \<inter> {y ..< y + w} \<noteq> {}"
  then obtain q where "q \<in> {x ..< x + z} \<inter> {y ..< y + w}" by blast
  then have q: "x \<le> q" "q < x + z" "y \<le> q" "q < y + w" by auto
  obtain a n k where A: "(a, n, k) \<in> G" "raddr c a \<le> x" "x + z \<le> raddr c (a + n)"
    "(\<exists>i. k = Pool i \<and> slot c a i x \<and> z = 2 ^ i) \<or> (k = Big \<and> x = raddr c a \<and> z = 512 * n)" by (rule kext_region[OF assms(1-3)])
  obtain b m l where B: "(b, m, l) \<in> G" "raddr c b \<le> y" "y + w \<le> raddr c (b + m)"
    "(\<exists>i. l = Pool i \<and> slot c b i y \<and> w = 2 ^ i) \<or> (l = Big \<and> y = raddr c b \<and> w = 512 * m)" by (rule kext_region[OF assms(1,2,4)])
  have "in_reg c a n q" "in_reg c b m q" using q A(2,3) B(2,3) by (auto simp: in_reg_def)
  then have e: "a = b" "n = m" "k = l" using in_reg_same[OF assms(1) A(1) B(1)] by auto
  show False
  proof (cases k)
    case (Pool i)
    then have s: "slot c a i x" "slot c a i y" "z = 2 ^ i" "w = 2 ^ i" using A(4) B(4) e by auto
    then obtain j1 j2 where j: "x = raddr c a + j1 * 2 ^ i" "y = raddr c a + j2 * 2 ^ i" unfolding slot_def by blast
    have "j1 + 1 \<le> j2 \<or> j2 + 1 \<le> j1" using j assms(5) by auto
    then have "(j1 + 1) * 2 ^ i \<le> j2 * 2 ^ i \<or> (j2 + 1) * 2 ^ i \<le> j1 * (2 :: int) ^ i" by (auto intro: mult_right_mono)
    then show False using q j s(3,4) by (auto simp: distrib_right)
  next
    case Big
    then show False using A(4) B(4) e assms(5) by auto
  next
    case Wait
    then show False using A(4) by auto
  qed
qed

lemma kext_bounds:
  assumes "regs_ok (kpages c) F G" and "pools_ok G" and "kext c G x z"
  shows "kmembase c \<le> x" and "x + z \<le> kmembase c + 512 * kpages c"
proof -
  obtain a n k where A: "(a, n, k) \<in> G" "raddr c a \<le> x" "x + z \<le> raddr c (a + n)" by (rule kext_region[OF assms])
  show "kmembase c \<le> x" "x + z \<le> kmembase c + 512 * kpages c" using A regs_okD[OF assms(1) A(1)] by (auto simp: raddr_def)
qed

lemma kext_kaddr:
  assumes "regs_ok (kpages c) F G" and "pools_ok G" and "kext c G x z"
  shows "kaddr c x"
proof -
  obtain a n k where A: "(a, n, k) \<in> G" "(\<exists>i. k = Pool i \<and> slot c a i x \<and> z = 2 ^ i) \<or> (k = Big \<and> x = raddr c a \<and> z = 512 * n)" by (rule kext_region[OF assms])
  have "4 \<le> z"
  proof (cases k)
    case (Pool i)
    then show ?thesis using A pools_okD[OF assms(2), of a n i] pool_facts(6)[of i] by auto
  qed (use A regs_okD[OF assms(1) A(1)] in auto)
  then show ?thesis using kext_bounds[OF assms] by (simp add: kaddr_def NBPG_def)
qed

section \<open>The invariant\<close>

text \<open>\<open>live\<close> are the blocks out, \<open>pend\<close> the waiting calls, \<open>G\<close> the regions and \<open>fl\<close> the lists of free blocks.\<close>

definition kpools :: "kconf \<Rightarrow> (int \<Rightarrow> kmemusage) \<Rightarrow> kblock list \<Rightarrow> region set \<Rightarrow> bool" where
  "kpools c usage live G \<longleftrightarrow> (\<forall>a n i. (a, n, Pool i) \<in> G \<longrightarrow> ku_indx (usage (a div 2)) = i
     \<and> ku_cnt (usage (a div 2)) + int (length (filter (\<lambda>b. in_reg c a n (fst b)) live)) = elmpercl i)"

definition klists :: "kconf \<Rightarrow> (nat \<Rightarrow> kmembuckets) \<Rightarrow> (int \<Rightarrow> int) \<Rightarrow> region set \<Rightarrow> (nat \<Rightarrow> int list) \<Rightarrow> bool" where
  "klists c bucket mem G fl \<longleftrightarrow> (\<forall>i < 20. kb_elmpercl (bucket i) = elmpercl i \<and> flist mem (kb_next (bucket i)) (fl i) \<and> distinct (fl i)
     \<and> (\<forall>x \<in> set (fl i). \<exists>a n. (a, n, Pool i) \<in> G \<and> slot c a i x))"

definition kblock_ok :: "kconf \<Rightarrow> (int \<Rightarrow> kmemusage) \<Rightarrow> region set \<Rightarrow> (nat \<Rightarrow> int list) \<Rightarrow> kblock \<Rightarrow> bool" where
  "kblock_ok c usage G fl = (\<lambda>(x, s, t). size_ok s \<and> t < 50
     \<and> (if s \<le> 2048 then x \<notin> set (fl (BUCKETINDX s)) \<and> (\<exists>a n. (a, n, Pool (BUCKETINDX s)) \<in> G \<and> slot c a (BUCKETINDX s) x)
        else \<exists>a n. (a, n, Big) \<in> G \<and> x = raddr c a \<and> malloc_size s = 512 * n \<and> usage (a div 2) = \<lparr>ku_indx = BUCKETINDX s, ku_cnt = n\<rparr>))"

definition kblocks :: "kconf \<Rightarrow> (int \<Rightarrow> kmemusage) \<Rightarrow> kblock list \<Rightarrow> region set \<Rightarrow> (nat \<Rightarrow> int list) \<Rightarrow> bool" where
  "kblocks c usage live G fl \<longleftrightarrow> distinct (map fst live) \<and> (\<forall>b \<in> set live. kblock_ok c usage G fl b)"

definition kwaits :: "kwait list \<Rightarrow> region set \<Rightarrow> bool" where
  "kwaits pend G \<longleftrightarrow> distinct (map fst pend) \<and> (\<forall>(a, n, z, s, t) \<in> set pend. (a, n, Wait) \<in> G \<and> size_ok s \<and> t < 50 \<and> z = malloc_size s \<and> n = clrnd (btoc z))"

definition kcounts :: "(nat \<Rightarrow> kmemstats) \<Rightarrow> kblock list \<Rightarrow> bool" where
  "kcounts stats live \<longleftrightarrow> (\<forall>t < 50. ks_inuse (stats t) = int (length (filter (\<lambda>b. snd (snd b) = t) live))
     \<and> ks_memuse (stats t) = sum_list (map (\<lambda>b. malloc_size (fst (snd b))) (filter (\<lambda>b. snd (snd b) = t) live)))"

definition kinv :: "kconf \<Rightarrow> kmem \<Rightarrow> kblock list \<Rightarrow> kwait list \<Rightarrow> region set \<Rightarrow> (nat \<Rightarrow> int list) \<Rightarrow> bool" where
  "kinv c st live pend G fl \<longleftrightarrow> pages_ok (kpages c) (kmemmap st) \<and> regs_ok (kpages c) (rm_free (fst (kmemmap st))) G \<and> pools_ok G
     \<and> kpools c (kusage st) live G \<and> klists c (kbucket st) (cell st) G fl \<and> kblocks c (kusage st) live G fl \<and> kwaits pend G
     \<and> kcounts (kstats st) live"

lemma malloc_out_simps [simp]:
  "kusage (malloc_out i t z st) = kusage st" "cell (malloc_out i t z st) = cell st" "kmemmap (malloc_out i t z st) = kmemmap st"
  "kb_next (kbucket (malloc_out i t z st) j) = kb_next (kbucket st j)" "kb_elmpercl (kbucket (malloc_out i t z st) j) = kb_elmpercl (kbucket st j)"
  by (simp_all add: malloc_out_def Let_def)

lemma free_stats_simps [simp]:
  "kusage (free_stats t z st) = kusage st" "cell (free_stats t z st) = cell st" "kmemmap (free_stats t z st) = kmemmap st"
  "kbucket (free_stats t z st) = kbucket st"
  by (simp_all add: free_stats_def Let_def)

lemma kcounts_out: "kcounts (kstats st) live \<Longrightarrow> z = malloc_size s \<Longrightarrow> kcounts (kstats (malloc_out i t z st)) ((x, s, t) # live)"
  by (auto simp: kcounts_def malloc_out_def Let_def)

lemma kcounts_free:
  assumes "kcounts (kstats st) (xs @ (x, s, t) # ys)" and "z = malloc_size s"
  shows "kcounts (kstats (free_stats t z st)) (xs @ ys)"
  using assms by (auto simp: kcounts_def free_stats_def Let_def)

lemma kblock_ext:
  assumes "kblock_ok c usage G fl (x, s, t)"
  shows "kext c G x (malloc_size s)"
proof (cases "s \<le> 2048")
  case True
  then show ?thesis using assms malloc_size_small[OF True] unfolding kext_def kblock_ok_def by auto
next
  case False
  then show ?thesis using assms unfolding kext_def kblock_ok_def by auto
qed

text \<open>The blocks out that lie in a pool.\<close>

lemma live_in_pool:
  assumes "regs_ok N F G" and "pools_ok G" and "kblock_ok c usage G fl (x, s, t)" and "(a, n, Pool i) \<in> G" and "in_reg c a n x"
  shows "s \<le> 2048" and "i = BUCKETINDX s" and "slot c a i x" and "x \<notin> set (fl i)"
proof -
  obtain b m k where B: "(b, m, k) \<in> G" "raddr c b \<le> x" "x + malloc_size s \<le> raddr c (b + m)" "0 < malloc_size s"
    "(\<exists>i. k = Pool i \<and> slot c b i x \<and> malloc_size s = 2 ^ i) \<or> (k = Big \<and> x = raddr c b \<and> malloc_size s = 512 * m)"
    by (rule kext_region[OF assms(1,2) kblock_ext[OF assms(3)]])
  have e: "b = a" "m = n" "k = Pool i" using in_reg_same[OF assms(1) B(1) assms(4) _ assms(5)] B(2-4) by (auto simp: in_reg_def)
  show le: "s \<le> 2048"
  proof (rule ccontr)
    assume "\<not> s \<le> 2048"
    then obtain b' m' where b': "(b', m', Big) \<in> G" "x = raddr c b'" using assms(3) by (auto simp: kblock_ok_def)
    then have "in_reg c b' m' x" using regs_okD[OF assms(1) b'(1)] by (simp add: in_reg_def raddr_def)
    then show False using in_reg_same[OF assms(1) b'(1) assms(4) _ assms(5)] by auto
  qed
  then obtain b' m' where b': "(b', m', Pool (BUCKETINDX s)) \<in> G" "slot c b' (BUCKETINDX s) x" "x \<notin> set (fl (BUCKETINDX s))"
    using assms(3) by (auto simp: kblock_ok_def)
  note p = pools_okD[OF assms(2) b'(1)]
  have "in_reg c b' m' x" using slot_bounds(3)[OF b'(2)] p by auto
  then have "b' = a" "BUCKETINDX s = i" using in_reg_same[OF assms(1) b'(1) assms(4) _ assms(5)] by auto
  then show "i = BUCKETINDX s" "slot c a i x" "x \<notin> set (fl i)" using b' by auto
qed

text \<open>The blocks out of a pool and the free ones together are no more than it can hold.\<close>

lemma pool_room:
  assumes "regs_ok N F G" and "pools_ok G" and "kblocks c u live G fl" and "(a, n, Pool i) \<in> G" and "\<forall>y \<in> T. slot c a i y \<and> y \<in> set (fl i)"
  shows "int (length (filter (\<lambda>b. in_reg c a n (fst b)) live)) + int (card T) \<le> elmpercl i"
proof -
  let ?L = "filter (\<lambda>b. in_reg c a n (fst b)) live"
  let ?S = "(\<lambda>k. raddr c a + k * 2 ^ i) ` {0 ..< elmpercl i}"
  have m: "x \<in> ?S \<and> x \<notin> T" if "x \<in> fst ` set ?L" for x
  proof -
    from that obtain s t where b: "(x, s, t) \<in> set live" "in_reg c a n x" by auto
    then have "kblock_ok c u G fl (x, s, t)" using assms(3) by (auto simp: kblocks_def)
    from live_in_pool(3,4)[OF assms(1,2) this assms(4) b(2)] show ?thesis using assms(5) unfolding slot_def by force
  qed
  have T: "T \<subseteq> ?S" using assms(5) unfolding slot_def by force
  have d: "distinct (map fst ?L)" using assms(3) by (simp add: kblocks_def distinct_map_filter)
  have "length ?L + card T = card (fst ` set ?L) + card T" using d by (metis distinct_card length_map set_map)
  also have "\<dots> = card (fst ` set ?L \<union> T)" using m finite_subset[OF T] by (intro card_Un_disjoint[symmetric]) auto
  also have "\<dots> \<le> card ?S" using m T by (intro card_mono) auto
  also have "\<dots> \<le> nat (elmpercl i)" using card_image_le[of "{0 ..< elmpercl i}" "\<lambda>k. raddr c a + k * 2 ^ i"] by simp
  finally have "length ?L + card T \<le> nat (elmpercl i)" .
  moreover have "0 < elmpercl i" using pool_facts(2) pools_okD[OF assms(2,4)] by auto
  ultimately show ?thesis by linarith
qed

lemma reg_index:
  assumes "regs_ok N F G" and "(a, n, k) \<in> G" and "(b, m, l) \<in> G" and "a div 2 = b div 2"
  shows "a = b \<and> n = m \<and> k = l"
proof -
  have A: "even a" "0 < n" and B: "even b" "0 < m" using regs_okD[OF assms(1)] assms(2,3) by auto
  then have "a = b" using assms(4) by (auto elim!: evenE)
  then show ?thesis using regs_same[OF assms(1-3), of a] A B by auto
qed

lemma kblock_change:
  assumes "kblock_ok c u G fl (x, s, t)" and "x \<notin> set (fl (BUCKETINDX s)) \<Longrightarrow> x \<notin> set (fl' (BUCKETINDX s))"
    and "\<And>a n i. (a, n, Pool i) \<in> G \<Longrightarrow> slot c a i x \<Longrightarrow> (a, n, Pool i) \<in> G'"
    and "\<And>a n. (a, n, Big) \<in> G \<Longrightarrow> x = raddr c a \<Longrightarrow> (a, n, Big) \<in> G' \<and> u' (a div 2) = u (a div 2)"
  shows "kblock_ok c u' G' fl' (x, s, t)"
proof (cases "s \<le> 2048")
  case True
  then obtain a n where "(a, n, Pool (BUCKETINDX s)) \<in> G" "slot c a (BUCKETINDX s) x" "x \<notin> set (fl (BUCKETINDX s))"
    using assms(1) by (auto simp: kblock_ok_def)
  then show ?thesis using True assms(1) assms(2) assms(3)[of a n "BUCKETINDX s"] by (auto simp: kblock_ok_def)
next
  case False
  then obtain a n where "(a, n, Big) \<in> G" "x = raddr c a" "malloc_size s = 512 * n" "u (a div 2) = \<lparr>ku_indx = BUCKETINDX s, ku_cnt = n\<rparr>"
    using assms(1) by (auto simp: kblock_ok_def)
  then show ?thesis using False assms(1) assms(4)[of a n] by (auto simp: kblock_ok_def)
qed

text \<open>One block more or less in a pool.\<close>

lemma kpools_upd:
  assumes "regs_ok N F G" and "kpools c u live G" and "(a, n, Pool i) \<in> G" and "in_reg c a n x"
    and "\<And>k. k \<noteq> a div 2 \<Longrightarrow> u' k = u k" and "ku_indx (u' (a div 2)) = i"
    and "ku_cnt (u' (a div 2)) + int (length (filter (\<lambda>b. in_reg c a n (fst b)) live')) = elmpercl i"
    and "\<And>b m. \<not> in_reg c b m x \<Longrightarrow> length (filter (\<lambda>z. in_reg c b m (fst z)) live') = length (filter (\<lambda>z. in_reg c b m (fst z)) live)"
  shows "kpools c u' live' G"
  unfolding kpools_def
proof (intro allI impI)
  fix b m j
  assume b: "(b, m, Pool j) \<in> G"
  show "ku_indx (u' (b div 2)) = j \<and> ku_cnt (u' (b div 2)) + int (length (filter (\<lambda>z. in_reg c b m (fst z)) live')) = elmpercl j"
  proof (cases "b = a")
    case True
    then have "m = n" "j = i" using reg_index[OF assms(1) b assms(3)] by auto
    then show ?thesis using True assms(6,7) by simp
  next
    case False
    have "\<not> in_reg c b m x" using in_reg_same[OF assms(1) b assms(3) _ assms(4)] False by blast
    moreover have "b div 2 \<noteq> a div 2" using reg_index[OF assms(1) b assms(3)] False by blast
    ultimately show ?thesis using assms(2,5,8) b unfolding kpools_def by simp
  qed
qed

section \<open>Each step keeps the invariant\<close>

lemma take_ok:
  assumes "kinv c st live pend G fl" and "size_ok s" and "t < 50" and "i = BUCKETINDX s" and "fl i = va # r"
  shows "\<exists>st1. malloc_take c i t st = Ret (va, st1) \<and> kinv c st1 ((va, s, t) # live) pend G (fl(i := r))"
proof -
  have I: "pages_ok (kpages c) (kmemmap st)" "regs_ok (kpages c) (rm_free (fst (kmemmap st))) G" "pools_ok G" "kpools c (kusage st) live G"
    "klists c (kbucket st) (cell st) G fl" "kblocks c (kusage st) live G fl" "kwaits pend G" "kcounts (kstats st) live"
    using assms(1) by (simp_all add: kinv_def)
  have i20: "i < 20" using BUCKETINDX_cases(1)[of s] assms(4) by simp
  have l: "flist (cell st) (kb_next (kbucket st i)) (va # r)" "distinct (va # r)" "kb_elmpercl (kbucket st i) = elmpercl i"
    "\<exists>a n. (a, n, Pool i) \<in> G \<and> slot c a i va"
    using I(5) i20 unfolding klists_def by (auto simp: assms(5))
  then obtain a n where a: "(a, n, Pool i) \<in> G" "slot c a i va" by blast
  have p: "4 \<le> i" "i \<le> 11" "n = pool_pages i" using pools_okD[OF I(3) a(1)] by auto
  have s: "s \<le> 2048" using p(2) BUCKETINDX_cases(2) assms(4) by blast
  have ra: "even a" using regs_okD[OF I(2) a(1)] by simp
  have kup: "btokup c va = a div 2" using slot_bounds(4)[OF a(2) p(1,2) ra] .
  have inr: "in_reg c a n va" using slot_bounds(3)[OF a(2) p(1,2)] p(3) by simp
  have ka: "kaddr c va" using kext_kaddr[OF I(2,3)] a unfolding kext_def by blast
  have vf: "va \<in> set (fl i)" using assms(5) by simp
  have cnt: "ku_indx (kusage st (a div 2)) = i" "ku_cnt (kusage st (a div 2)) + int (length (filter (\<lambda>b. in_reg c a n (fst b)) live)) = elmpercl i"
    using I(4) a(1) unfolding kpools_def by blast+
  have nz: "ku_cnt (kusage st (a div 2)) \<noteq> 0" using pool_room[OF I(2,3,6) a(1), of "{va}"] a(2) vf cnt(2) by simp
  have nxt: "kb_next (kbucket st i) = va" "flist (cell st) (cell st va) r" using l(1) by auto
  let ?u = "(kusage st)(a div 2 := (kusage st (a div 2))\<lparr>ku_cnt := ku_cnt (kusage st (a div 2)) - 1\<rparr>)"
  let ?st = "malloc_out i t (2 ^ i) (st\<lparr>kbucket := (kbucket st)(i := (kbucket st i)\<lparr>kb_next := cell st va, kb_totalfree := kb_totalfree (kbucket st i) - 1\<rparr>), kusage := ?u\<rparr>)"
  have r: "malloc_take c i t st = Ret (va, ?st)" using ka kup cnt(1) nz nxt(1) by (simp add: malloc_take_def Let_def)
  have other: "b div 2 \<noteq> a div 2" if "(b, m, k) \<in> G" "k \<noteq> Pool i" for b m k using reg_index[OF I(2) that(1) a(1)] that(2) by auto
  have pools: "kpools c ?u ((va, s, t) # live) G"
    by (rule kpools_upd[OF I(2,4) a(1) inr]) (use cnt inr in auto)
  have lists: "klists c (kbucket ?st) (cell ?st) G (fl(i := r))" using I(5) l nxt unfolding klists_def by (auto simp: assms(5))
  have new: "x \<noteq> va" if "(x, s', t') \<in> set live" for x s' t'
  proof
    assume "x = va"
    moreover have "kblock_ok c (kusage st) G fl (x, s', t')" using I(6) that by (auto simp: kblocks_def)
    ultimately show False using live_in_pool(4)[OF I(2,3) _ a(1), of c "kusage st" fl x s' t'] inr vf by blast
  qed
  have sub: "set ((fl(i := r)) j) \<subseteq> set (fl j)" for j using assms(5) by auto
  have "kblock_ok c ?u G (fl(i := r)) b" if b: "b \<in> set live" for b
  proof (cases b)
    case (fields x s' t')
    have "kblock_ok c (kusage st) G fl (x, s', t')" using I(6) b by (auto simp: kblocks_def fields)
    then have "kblock_ok c ?u G (fl(i := r)) (x, s', t')"
    proof (rule kblock_change)
      show "x \<notin> set (fl (BUCKETINDX s')) \<Longrightarrow> x \<notin> set ((fl(i := r)) (BUCKETINDX s'))" using sub by blast
      show "(b, m, Big) \<in> G \<and> ?u (b div 2) = kusage st (b div 2)" if "(b, m, Big) \<in> G" for b m using that other[OF that] by simp
    qed
    then show ?thesis by (simp add: fields)
  qed
  moreover have "kblock_ok c ?u G (fl(i := r)) (va, s, t)" using a assms(2-4) s l(2) by (auto simp: kblock_ok_def)
  moreover have "va \<notin> fst ` set live" using new by force
  ultimately have blocks: "kblocks c ?u ((va, s, t) # live) G (fl(i := r))" using I(6) by (simp add: kblocks_def)
  have counts: "kcounts (kstats ?st) ((va, s, t) # live)"
    by (rule kcounts_out) (use I(8) malloc_size_small[OF s] assms(4) in simp_all)
  have "kinv c ?st ((va, s, t) # live) pend G (fl(i := r))"
    unfolding kinv_def using I(1-3,7) pools lists blocks counts by simp
  then show ?thesis using r by blast
qed

text \<open>The pages of a waiting call hold no block, free or out.\<close>

lemma live_not_wait:
  assumes "regs_ok N F G" and "pools_ok G" and "kblock_ok c u G fl (x, s, t)" and "(a, n, Wait) \<in> G"
  shows "\<not> in_reg c a n x"
proof
  assume r: "in_reg c a n x"
  obtain b m k where B: "(b, m, k) \<in> G" "raddr c b \<le> x" "x + malloc_size s \<le> raddr c (b + m)" "0 < malloc_size s"
    "(\<exists>i. k = Pool i \<and> slot c b i x \<and> malloc_size s = 2 ^ i) \<or> (k = Big \<and> x = raddr c b \<and> malloc_size s = 512 * m)"
    by (rule kext_region[OF assms(1,2) kblock_ext[OF assms(3)]])
  have "in_reg c b m x" using B(2-4) by (simp add: in_reg_def)
  then have "k = Wait" using in_reg_same[OF assms(1) B(1) assms(4) _ r] by blast
  then show False using B(5) by auto
qed

lemma free_not_wait:
  assumes "regs_ok N F G" and "pools_ok G" and "(b, m, Pool j) \<in> G" and "slot c b j x" and "(a, n, Wait) \<in> G"
  shows "\<not> in_reg c a n x"
  using in_reg_same[OF assms(1,3,5)] slot_bounds(3)[OF assms(4)] pools_okD[OF assms(2,3)] by blast

lemma kwaits_remove:
  assumes "kwaits (xs @ (a, n, z, s, t) # ys) G"
  shows "kwaits (xs @ ys) (insert (a, n, k) (G - {(a, n, Wait)}))"
  unfolding kwaits_def
proof (intro conjI ballI)
  show "distinct (map fst (xs @ ys))" using assms by (auto simp: kwaits_def)
  fix w
  assume w: "w \<in> set (xs @ ys)"
  then have "fst w \<in> fst ` set (xs @ ys)" by (rule imageI)
  then have "fst w \<noteq> a" using assms by (auto simp: kwaits_def)
  moreover have "case w of (a, n, z, s, t) \<Rightarrow> (a, n, Wait) \<in> G \<and> size_ok s \<and> t < 50 \<and> z = malloc_size s \<and> n = clrnd (btoc z)"
    using assms w unfolding kwaits_def by auto
  ultimately show "case w of (b, m, z, s, t) \<Rightarrow> (b, m, Wait) \<in> insert (a, n, k) (G - {(a, n, Wait)}) \<and> size_ok s \<and> t < 50 \<and> z = malloc_size s \<and> m = clrnd (btoc z)"
    by (cases w) auto
qed

lemma pools_change: "pools_ok G \<Longrightarrow> (\<And>i. k = Pool i \<Longrightarrow> 4 \<le> i \<and> i \<le> 11 \<and> n = pool_pages i) \<Longrightarrow> pools_ok (insert (a, n, k) (G - {w}))"
  unfolding pools_ok_def by auto

lemma grown_small:
  assumes "kconf_ok c" and "kinv c st live (xs @ (a, n, z, s, t) # ys) G fl" and "s \<le> 2048"
  shows "\<exists>st1 va G1 fl1. malloc_grown c s t a n z st = Ret (va, st1) \<and> kinv c st1 ((va, s, t) # live) (xs @ ys) G1 fl1"
proof -
  have I: "pages_ok (kpages c) (kmemmap st)" "regs_ok (kpages c) (rm_free (fst (kmemmap st))) G" "pools_ok G" "kpools c (kusage st) live G"
    "klists c (kbucket st) (cell st) G fl" "kblocks c (kusage st) live G fl" "kwaits (xs @ (a, n, z, s, t) # ys) G" "kcounts (kstats st) live"
    using assms(2) by (simp_all add: kinv_def)
  have w: "(a, n, Wait) \<in> G" "size_ok s" "t < 50" "z = malloc_size s" "n = clrnd (btoc z)" using I(7) by (auto simp: kwaits_def)
  define i where "i = BUCKETINDX s"
  have i: "4 \<le> i" "i \<le> 11" using BUCKETINDX_cases[of s] assms(3) by (auto simp: i_def)
  note pf = pool_facts[OF i]
  have z: "z = 2 ^ i" using malloc_size_small[OF assms(3)] w(4) by (simp add: i_def)
  have n: "n = pool_pages i" using w(5) pf(5) z by simp
  have ra: "even a" "0 \<le> a" "0 < n" "a + n \<le> kpages c" using regs_okD[OF I(2) w(1)] by auto
  define va where "va = kmembase c + a * NBPG"
  have va: "va = raddr c a" "0 < va" using assms(1) ra(2) by (auto simp: va_def raddr_def NBPG_def kconf_ok_def)
  have kup: "btokup c va = a div 2" using ra(1) by (auto simp: va raddr_def btokup_def CLBYTES_def)
  have ka: "kaddr c va" using ra by (simp add: kaddr_def va raddr_def NBPG_def)
  define k where "k = nat (elmpercl i - 1)"
  have ck: "int k = elmpercl i - 1" using pf(2) by (simp add: k_def)
  have top: "va + n * NBPG - 2 ^ i = va + int k * 2 ^ i" using pf(1) by (simp add: ck n NBPG_def algebra_simps)
  let ?G = "insert (a, n, Pool i) (G - {(a, n, Wait)})" and ?fl = "fl(i := chain_of i va k)"
  let ?kb = "(kbucket st i)\<lparr>kb_total := kb_total (kbucket st i) + kb_elmpercl (kbucket st i),
     kb_totalfree := kb_totalfree (kbucket st i) + kb_elmpercl (kbucket st i), kb_next := va + int k * 2 ^ i\<rparr>"
  let ?u = "(kusage st)(a div 2 := \<lparr>ku_indx = i, ku_cnt = kb_elmpercl (kbucket st i) mod 65536\<rparr>)"
  let ?st = "st\<lparr>kbucket := (kbucket st)(i := ?kb), kusage := ?u, cell := carve i va (va + int k * 2 ^ i) (cell st)\<rparr>"
  have g: "malloc_grown c s t a n z st = malloc_take c i t ?st"
    unfolding top[symmetric] using ka kup z pf(7) by (simp add: malloc_grown_def va_def[symmetric] i_def[symmetric] Let_def MAXALLOCSAVE_def CLBYTES_def)
  have e: "kb_elmpercl (kbucket st i) = elmpercl i" using I(5) i unfolding klists_def by auto
  have slots: "slot c a i x" if "x \<in> set (chain_of i va k)" for x
    using that ck unfolding set_chain_of slot_def va(1) by (metis of_nat_0_le_iff of_nat_mono zle_diff1_eq)
  have chain: "in_reg c a n x" if "x \<in> set (chain_of i va k)" for x using slot_bounds(3)[OF slots[OF that] i] n by simp
  have other: "b div 2 \<noteq> a div 2" if "(b, m, l) \<in> G" "l \<noteq> Wait" for b m l using reg_index[OF I(2) that(1) w(1)] that(2) by auto
  have live: "\<not> in_reg c a n (fst b)" if "b \<in> set live" for b
    using that I(6) live_not_wait[OF I(2,3) _ w(1)] unfolding kblocks_def by (metis prod_cases3 fst_conv)
  have pools: "kpools c ?u live ?G"
    unfolding kpools_def
  proof (intro allI impI)
    fix b m j
    assume b: "(b, m, Pool j) \<in> ?G"
    show "ku_indx (?u (b div 2)) = j \<and> ku_cnt (?u (b div 2)) + int (length (filter (\<lambda>z. in_reg c b m (fst z)) live)) = elmpercl j"
    proof (cases "(b, m, Pool j) = (a, n, Pool i)")
      case True
      have "filter (\<lambda>z. in_reg c a n (fst z)) live = []" using live by (simp add: filter_empty_conv)
      then show ?thesis using True e pf(2,3) by simp
    next
      case False
      then have b': "(b, m, Pool j) \<in> G" using b by auto
      then show ?thesis using other[OF b'] I(4) unfolding kpools_def by simp
    qed
  qed
  have lists: "klists c (kbucket ?st) (cell ?st) ?G ?fl"
    unfolding klists_def
  proof (intro allI impI)
    fix j :: nat
    assume j: "j < 20"
    show "kb_elmpercl (kbucket ?st j) = elmpercl j \<and> flist (cell ?st) (kb_next (kbucket ?st j)) (?fl j) \<and> distinct (?fl j)
      \<and> (\<forall>x \<in> set (?fl j). \<exists>b m. (b, m, Pool j) \<in> ?G \<and> slot c b j x)"
    proof (cases "j = i")
      case True
      then show ?thesis using e flist_carve[OF va(2)] distinct_chain_of slots by auto
    next
      case False
      have L: "kb_elmpercl (kbucket st j) = elmpercl j" "flist (cell st) (kb_next (kbucket st j)) (fl j)" "distinct (fl j)"
        "\<forall>x \<in> set (fl j). \<exists>b m. (b, m, Pool j) \<in> G \<and> slot c b j x" using I(5) j unfolding klists_def by blast+
      have "x \<notin> set (chain_of i va k)" if "x \<in> set (fl j)" for x using free_not_wait[OF I(2,3) _ _ w(1)] chain L(4) that by blast
      then have "flist (cell ?st) (kb_next (kbucket st j)) (fl j)" using L(2) by (subst flist_cong[of _ _ "cell st"]) (auto simp: carve_exact)
      then show ?thesis using False L by auto
    qed
  qed
  have "kblock_ok c ?u ?G ?fl b" if b: "b \<in> set live" for b
  proof (cases b)
    case (fields x s' t')
    have "kblock_ok c (kusage st) G fl (x, s', t')" using I(6) b by (auto simp: kblocks_def fields)
    then have "kblock_ok c ?u ?G ?fl (x, s', t')"
    proof (rule kblock_change)
      show "x \<notin> set (fl (BUCKETINDX s')) \<Longrightarrow> x \<notin> set (?fl (BUCKETINDX s'))" using chain live[OF b] by (auto simp: fields)
      show "(b, m, Big) \<in> ?G \<and> ?u (b div 2) = kusage st (b div 2)" if "(b, m, Big) \<in> G" for b m using that other[OF that] by simp
    qed simp
    then show ?thesis by (simp add: fields)
  qed
  then have blocks: "kblocks c ?u live ?G ?fl" using I(6) by (simp add: kblocks_def)
  have po: "pools_ok ?G" by (rule pools_change[OF I(3)]) (use i n in simp)
  have "kinv c ?st live (xs @ ys) ?G ?fl"
    unfolding kinv_def using I(1,8) regs_kind[OF I(2) w(1)] po pools lists blocks kwaits_remove[OF I(7)] by simp
  then show ?thesis using take_ok[of c ?st live "xs @ ys" ?G ?fl s t i] w(2,3) i_def g
    by (cases "chain_of i va k") (auto simp: chain_of_def)
qed

lemma grown_big:
  assumes "kconf_ok c" and "kinv c st live (xs @ (a, n, z, s, t) # ys) G fl" and "2048 < s"
  shows "\<exists>st1 va G1 fl1. malloc_grown c s t a n z st = Ret (va, st1) \<and> kinv c st1 ((va, s, t) # live) (xs @ ys) G1 fl1"
proof -
  have I: "pages_ok (kpages c) (kmemmap st)" "regs_ok (kpages c) (rm_free (fst (kmemmap st))) G" "pools_ok G" "kpools c (kusage st) live G"
    "klists c (kbucket st) (cell st) G fl" "kblocks c (kusage st) live G fl" "kwaits (xs @ (a, n, z, s, t) # ys) G" "kcounts (kstats st) live"
    using assms(2) by (simp_all add: kinv_def)
  have w: "(a, n, Wait) \<in> G" "size_ok s" "t < 50" "z = malloc_size s" "n = clrnd (btoc z)" using I(7) by (auto simp: kwaits_def)
  note ms = malloc_size_big[OF w(2) assms(3)]
  have zn: "z = 512 * n" using ms(1,2) w(4,5) by simp
  define i where "i = BUCKETINDX s"
  have i: "12 \<le> i" "i < 20" using BUCKETINDX_cases(1,2)[of s] assms(3) by (auto simp: i_def)
  have ra: "even a" "0 \<le> a" "0 < n" "even n" "a + n \<le> kpages c" using regs_okD[OF I(2) w(1)] by auto
  have n: "n \<le> 65535" using ra assms(1) by (simp add: kconf_ok_def)
  define va where "va = kmembase c + a * NBPG"
  have va: "va = raddr c a" by (simp add: va_def raddr_def NBPG_def)
  have kup: "btokup c va = a div 2" using ra(1) by (auto simp: va raddr_def btokup_def CLBYTES_def)
  have ka: "kaddr c va" using ra by (simp add: kaddr_def va raddr_def NBPG_def)
  let ?G = "insert (a, n, Big) (G - {(a, n, Wait)})"
  let ?u = "(kusage st)(a div 2 := \<lparr>ku_indx = i, ku_cnt = n\<rparr>)"
  let ?st = "malloc_out i t z (st\<lparr>kbucket := (kbucket st)(i := (kbucket st i)\<lparr>kb_total := kb_total (kbucket st i) + kb_elmpercl (kbucket st i)\<rparr>), kusage := ?u\<rparr>)"
  have r: "malloc_grown c s t a n z st = Ret (va, ?st)"
    using ka kup n ms(4) w(4) by (simp add: malloc_grown_def va_def[symmetric] i_def[symmetric] Let_def MAXALLOCSAVE_def CLBYTES_def)
  have other: "b div 2 \<noteq> a div 2" if "(b, m, l) \<in> G" "l \<noteq> Wait" for b m l using reg_index[OF I(2) that(1) w(1)] that(2) by auto
  have inr: "in_reg c a n va" using ra(3) by (simp add: in_reg_def va raddr_def)
  have live: "\<not> in_reg c a n (fst b)" if "b \<in> set live" for b
    using that I(6) live_not_wait[OF I(2,3) _ w(1)] unfolding kblocks_def by (metis prod_cases3 fst_conv)
  have pools: "kpools c ?u ((va, s, t) # live) ?G"
    unfolding kpools_def
  proof (intro allI impI)
    fix b m j
    assume "(b, m, Pool j) \<in> ?G"
    then have b: "(b, m, Pool j) \<in> G" by auto
    have "\<not> in_reg c b m va" using in_reg_same[OF I(2) b w(1) _ inr] by blast
    then show "ku_indx (?u (b div 2)) = j \<and> ku_cnt (?u (b div 2)) + int (length (filter (\<lambda>z. in_reg c b m (fst z)) ((va, s, t) # live))) = elmpercl j"
      using other[OF b] I(4) b unfolding kpools_def by simp
  qed
  have lists: "klists c (kbucket ?st) (cell ?st) ?G fl" using I(5) unfolding klists_def by fastforce
  have "kblock_ok c ?u ?G fl b" if b: "b \<in> set live" for b
  proof (cases b)
    case (fields x s' t')
    have "kblock_ok c (kusage st) G fl (x, s', t')" using I(6) b by (auto simp: kblocks_def fields)
    then have "kblock_ok c ?u ?G fl (x, s', t')" by (rule kblock_change) (use other in auto)
    then show ?thesis by (simp add: fields)
  qed
  moreover have "kblock_ok c ?u ?G fl (va, s, t)" using w(2-4) zn assms(3) i_def by (simp add: kblock_ok_def va) blast
  moreover have "va \<notin> fst ` set live" using live inr by auto
  ultimately have blocks: "kblocks c ?u ((va, s, t) # live) ?G fl" using I(6) by (simp add: kblocks_def)
  have counts: "kcounts (kstats ?st) ((va, s, t) # live)" by (rule kcounts_out) (use I(8) w(4) in simp_all)
  have po: "pools_ok ?G" by (rule pools_change[OF I(3)]) simp
  have "kinv c ?st ((va, s, t) # live) (xs @ ys) ?G fl"
    unfolding kinv_def using I(1) regs_kind[OF I(2) w(1)] po pools lists blocks kwaits_remove[OF I(7)] counts by simp
  then show ?thesis using r by blast
qed

lemma grown_ok:
  assumes "kconf_ok c" and "kinv c st live (xs @ (a, n, z, s, t) # ys) G fl"
  shows "\<exists>st1 va G1 fl1. malloc_grown c s t a n z st = Ret (va, st1) \<and> kinv c st1 ((va, s, t) # live) (xs @ ys) G1 fl1"
  using grown_small[OF assms] grown_big[OF assms] by (meson not_le)

lemma npg_ok:
  assumes "size_ok s"
  shows "0 < clrnd (btoc (malloc_size s))" and "even (clrnd (btoc (malloc_size s)))"
proof -
  have "0 < clrnd (btoc (malloc_size s)) \<and> even (clrnd (btoc (malloc_size s)))"
  proof (cases "s \<le> 2048")
    case True
    have "4 \<le> BUCKETINDX s" "BUCKETINDX s \<le> 11" using BUCKETINDX_cases(1,2)[of s] True by auto
    then show ?thesis using pool_facts(5) True by (simp add: malloc_size_small pool_pages_def)
  next
    case False
    then show ?thesis using malloc_size_big(2)[OF assms] by simp
  qed
  then show "0 < clrnd (btoc (malloc_size s))" "even (clrnd (btoc (malloc_size s)))" by auto
qed

lemma kcounts_cong: "(\<And>t. ks_inuse (f t) = ks_inuse (g t)) \<Longrightarrow> (\<And>t. ks_memuse (f t) = ks_memuse (g t)) \<Longrightarrow> kcounts f live = kcounts g live"
  by (simp add: kcounts_def)

text \<open>Pages just taken from the map wait for their frames.\<close>

lemma grow_ok:
  assumes "kinv c st live pend G fl" and "size_ok s" and "t < 50" and "z = malloc_size s" and "n = clrnd (btoc z)"
    and "pages_ok (kpages c) mp" and "regs_ok (kpages c) (rm_free (fst mp)) (insert (a, n, Wait) G)" and "\<And>l. (a, n, l) \<notin> G"
  shows "kinv c (st\<lparr>kmemmap := mp\<rparr>) live ((a, n, z, s, t) # pend) (insert (a, n, Wait) G) fl"
proof -
  let ?G = "insert (a, n, Wait) G"
  have I: "pools_ok G" "kpools c (kusage st) live G" "klists c (kbucket st) (cell st) G fl" "kblocks c (kusage st) live G fl" "kwaits pend G"
    "kcounts (kstats st) live" using assms(1) by (simp_all add: kinv_def)
  have "a \<notin> fst ` set pend"
  proof
    assume "a \<in> fst ` set pend"
    then obtain m z' s' t' where "(a, m, z', s', t') \<in> set pend" by auto
    then have m: "(a, m, Wait) \<in> G" using I(5) unfolding kwaits_def by fastforce
    then have "m = n" using reg_index[OF assms(7), of a m Wait a n Wait] by simp
    then show False using m assms(8) by blast
  qed
  then have "kwaits ((a, n, z, s, t) # pend) ?G" using I(5) assms(2-5) unfolding kwaits_def by auto
  moreover have "kblocks c (kusage st) live ?G fl"
    unfolding kblocks_def
  proof (intro conjI ballI)
    show "distinct (map fst live)" using I(4) by (simp add: kblocks_def)
    fix b
    assume "b \<in> set live"
    then have "kblock_ok c (kusage st) G fl b" using I(4) by (simp add: kblocks_def)
    then show "kblock_ok c (kusage st) ?G fl b" by (cases b) (auto elim!: kblock_change)
  qed
  moreover have "klists c (kbucket st) (cell st) ?G fl" using I(3) unfolding klists_def by blast
  moreover have "kpools c (kusage st) live ?G" using I(2) unfolding kpools_def by simp
  moreover have "pools_ok ?G" using I(1) by (simp add: pools_ok_def)
  ultimately show ?thesis using assms(6,7) I(6) by (simp add: kinv_def)
qed

lemma start_ok:
  assumes "kinv c st live pend G fl" and "size_ok s" and "t < 50"
  shows "\<exists>r st1 G1 fl1. malloc_start c s t nowait fm st = Ret (r, st1) \<and> (case r of MGot va \<Rightarrow> kinv c st1 ((va, s, t) # live) pend G1 fl1
     | MGrow a n z \<Rightarrow> kinv c st1 live ((a, n, z, s, t) # pend) G1 fl1 | _ \<Rightarrow> kinv c st1 live pend G1 fl1)"
proof -
  define i where "i = BUCKETINDX s"
  have t: "\<not> t > M_LAST" "t \<noteq> M_LAST" using assms(3) by (simp_all add: M_LAST_def)
  show ?thesis
  proof (cases "ks_memuse (kstats st t) \<ge> ks_limit (kstats st t)")
    case True
    have "kinv c (st\<lparr>kstats := (kstats st)(t := (kstats st t)\<lparr>ks_limblocks := v\<rparr>)\<rparr>) live pend G fl" for v
      using assms(1) unfolding kinv_def by (simp, subst kcounts_cong[of _ "kstats st"]) auto
    then show ?thesis using True t assms(1) by (auto simp: malloc_start_def Let_def)
  next
    case lim: False
    show ?thesis
    proof (cases "kb_next (kbucket st i) = 0")
      case False
      have "i < 20" using BUCKETINDX_cases(1)[of s] by (simp add: i_def)
      then have "flist (cell st) (kb_next (kbucket st i)) (fl i)" using assms(1) by (simp add: kinv_def klists_def)
      then obtain va r where "fl i = va # r" using False by (cases "fl i") auto
      from take_ok[OF assms i_def this] show ?thesis using lim t False by (fastforce simp: malloc_start_def Let_def i_def[symmetric])
    next
      case True
      define z where "z = malloc_size s"
      define n where "n = clrnd (btoc z)"
      have p: "pages_ok (kpages c) (kmemmap st)" "regs_ok (kpages c) (rm_free (fst (kmemmap st))) G" using assms(1) by (simp_all add: kinv_def)
      obtain a mp where a: "rmalloc (krmconf c) Othermap n (kmemmap st) = Ret (a, mp)" "pages_ok (kpages c) mp"
        "if a = 0 then mp = kmemmap st else regs_ok (kpages c) (rm_free (fst mp)) (insert (a - 2, n, Wait) G) \<and> (\<forall>l. (a - 2, n, l) \<notin> G)"
        using pg.al_region[OF p(1) npg_ok[OF assms(2)] p(2), folded z_def, folded n_def] by blast
      show ?thesis
      proof (cases "nowait \<and> fm < n")
        case True
        then show ?thesis using \<open>kb_next (kbucket st i) = 0\<close> lim t assms(1)
          by (simp add: malloc_start_def Let_def i_def[symmetric] z_def[symmetric] n_def[symmetric]) blast
      next
        case fm: False
        show ?thesis
        proof (cases "a = 0")
          case False
          have "kinv c (st\<lparr>kmemmap := mp\<rparr>) live ((a - CLSZ, n, z, s, t) # pend) (insert (a - CLSZ, n, Wait) G) fl"
            using grow_ok[OF assms z_def n_def a(2)] a(3) False by (simp add: CLSZ_def)
          then show ?thesis using True lim t fm a(1) False
            by (simp add: malloc_start_def Let_def i_def[symmetric] z_def[symmetric] n_def[symmetric]) blast
        next
          case a0: True
          then have mp: "mp = kmemmap st" using a(3) by simp
          have k: "kinv c (st\<lparr>kmemmap := mp, wantkmemmap := w, kstats := (kstats st)(t := (kstats st t)\<lparr>ks_mapblocks := v\<rparr>)\<rparr>) live pend G fl" for v w
            using assms(1) unfolding kinv_def mp by (simp, subst kcounts_cong[of _ "kstats st"]) auto
          have k2: "kinv c (st\<lparr>kmemmap := mp, wantkmemmap := w\<rparr>) live pend G fl" for w
            using assms(1) unfolding kinv_def mp by simp
          show ?thesis
          proof (cases nowait)
            case True
            then show ?thesis using \<open>kb_next (kbucket st i) = 0\<close> lim t fm a(1) a0 assms(1)
              by (simp add: malloc_start_def Let_def i_def[symmetric] z_def[symmetric] n_def[symmetric] mp) blast
          next
            case False
            then show ?thesis using \<open>kb_next (kbucket st i) = 0\<close> lim t fm a(1) a0
              by (simp add: malloc_start_def Let_def i_def[symmetric] z_def[symmetric] n_def[symmetric]) (intro conjI impI exI; (rule k | rule k2))
          qed
        qed
      qed
    qed
  qed
qed

text \<open>A block that comes back.\<close>

lemma kblocks_remove:
  assumes "kblocks c u (xs @ (x, s, t) # ys) G fl" and "b \<in> set (xs @ ys)"
  shows "kblock_ok c u G fl b" and "fst b \<noteq> x"
proof -
  show "kblock_ok c u G fl b" using assms by (auto simp: kblocks_def)
  have "x \<notin> fst ` set (xs @ ys)" using assms(1) by (auto simp: kblocks_def)
  then show "fst b \<noteq> x" using assms(2) by (metis imageI)
qed

lemma slot_aligned:
  assumes "kconf_ok c" and "slot c a i x" and "4 \<le> i" and "i \<le> 11" and "even a"
  shows "x mod (if (2 :: int) ^ i > CLBYTES then 2 ^ BUCKETINDX CLBYTES else 2 ^ i) = 0"
proof -
  let ?m = "min (2 ^ i) 1024 :: int"
  have "?m = 2 ^ min i 10" using pool_index_cases[OF assms(3,4)] by auto
  moreover have "(2 :: int) ^ min i 10 dvd 2 ^ 10" by (rule le_imp_power_dvd) simp
  ultimately have "?m dvd 1024" by simp
  moreover have "1024 dvd kmembase c" using assms(1) by (simp add: kconf_ok_def mod_0_imp_dvd)
  ultimately have "?m dvd kmembase c" by (rule dvd_trans)
  moreover have "?m dvd x - kmembase c" using slot_bounds(5)[OF assms(2-5)] by (rule mod_0_imp_dvd)
  ultimately have "?m dvd x - kmembase c + kmembase c" by (intro dvd_add)
  then have "x mod ?m = 0" by simp
  moreover have "(if (2 :: int) ^ i > CLBYTES then 2 ^ BUCKETINDX CLBYTES else 2 ^ i) = ?m" by (simp add: CLBYTES_def BUCKETINDX_def kmem_consts)
  ultimately show ?thesis by simp
qed

lemma free_small:
  assumes "kconf_ok c" and "kinv c st (xs @ (x, s, t) # ys) pend G fl" and "s \<le> 2048"
  shows "\<exists>st1 G1 fl1. kfree c x t st = Ret st1 \<and> kinv c st1 (xs @ ys) pend G1 fl1"
proof -
  let ?live = "xs @ (x, s, t) # ys"
  have I: "pages_ok (kpages c) (kmemmap st)" "regs_ok (kpages c) (rm_free (fst (kmemmap st))) G" "pools_ok G" "kpools c (kusage st) ?live G"
    "klists c (kbucket st) (cell st) G fl" "kblocks c (kusage st) ?live G fl" "kwaits pend G" "kcounts (kstats st) ?live"
    using assms(2) by (simp_all add: kinv_def)
  define i where "i = BUCKETINDX s"
  have b: "kblock_ok c (kusage st) G fl (x, s, t)" using I(6) by (simp add: kblocks_def)
  then obtain a n where a: "(a, n, Pool i) \<in> G" "slot c a i x" "x \<notin> set (fl i)" and t: "t < 50" using assms(3) by (auto simp: kblock_ok_def i_def)
  have i: "4 \<le> i" "i \<le> 11" "n = pool_pages i" using pools_okD[OF I(3) a(1)] by auto
  note pf = pool_facts[OF i(1,2)]
  have ra: "even a" using regs_okD[OF I(2) a(1)] by simp
  have kup: "btokup c x = a div 2" using slot_bounds(4)[OF a(2) i(1,2) ra] .
  have inr: "in_reg c a n x" using slot_bounds(3)[OF a(2) i(1,2)] i(3) by simp
  have ext: "kext c G x (2 ^ i)" using a unfolding kext_def by blast
  have ka: "kaddr c x" using kext_kaddr[OF I(2,3) ext] .
  have x0: "x \<noteq> 0" using kext_bounds(1)[OF I(2,3) ext] assms(1) by (simp add: kconf_ok_def)
  let ?N = "\<lambda>l. int (length (filter (\<lambda>b. in_reg c a n (fst b)) l))"
  have cnt: "ku_indx (kusage st (a div 2)) = i" "ku_cnt (kusage st (a div 2)) + ?N ?live = elmpercl i" using I(4) a(1) unfolding kpools_def by blast+
  have cnt': "ku_cnt (kusage st (a div 2)) + 1 + ?N (xs @ ys) = elmpercl i" using cnt(2) inr by simp
  have "kb_elmpercl (kbucket st i) = elmpercl i" and L: "flist (cell st) (kb_next (kbucket st i)) (fl i)" "distinct (fl i)"
    using I(5) i unfolding klists_def by auto
  note e = this(1)
  have al: "x mod (if (2 :: int) ^ i > CLBYTES then 2 ^ BUCKETINDX CLBYTES else 2 ^ i) = 0"
    by (rule slot_aligned[OF assms(1) a(2) i(1,2) ra])
  have kc: "(ku_cnt (kusage st (a div 2)) + 1) mod 65536 = ku_cnt (kusage st (a div 2)) + 1" "ku_cnt (kusage st (a div 2)) + 1 \<le> elmpercl i"
    using cnt' pool_room[OF I(2,3,6) a(1), of "{}"] cnt(2) pf(3) by auto
  let ?u = "(kusage st)(a div 2 := (kusage st (a div 2))\<lparr>ku_cnt := ku_cnt (kusage st (a div 2)) + 1\<rparr>)" and ?fl = "fl(i := x # fl i)"
  let ?kb = "(if ku_cnt (kusage st (a div 2)) + 1 = elmpercl i \<and> kb_totalfree (kbucket st i) > kb_highwat (kbucket st i)
     then (kbucket st i)\<lparr>kb_couldfree := kb_couldfree (kbucket st i) + 1\<rparr> else kbucket st i)\<lparr>kb_totalfree := kb_totalfree (kbucket st i) + 1, kb_next := x\<rparr>"
  let ?st = "free_stats t (2 ^ i) (st\<lparr>kusage := ?u, cell := (cell st)(x := kb_next (kbucket st i)), kbucket := (kbucket st)(i := ?kb)\<rparr>)"
  have r: "kfree c x t st = Ret ?st"
    using ka t kup cnt(1) pf(7) al kc e by (simp add: kfree_def free_block_def Let_def M_LAST_def MAXALLOCSAVE_def CLBYTES_def)
  have pools: "kpools c ?u (xs @ ys) G"
    by (rule kpools_upd[OF I(2,4) a(1) inr]) (use cnt(1) cnt' in auto)
  have other: "b div 2 \<noteq> a div 2" if "(b, m, l) \<in> G" "l \<noteq> Pool i" for b m l using reg_index[OF I(2) that(1) a(1)] that(2) by auto
  have lists: "klists c (kbucket ?st) (cell ?st) G ?fl"
    unfolding klists_def
  proof (intro allI impI)
    fix j :: nat
    assume j: "j < 20"
    have M: "kb_elmpercl (kbucket st j) = elmpercl j" "flist (cell st) (kb_next (kbucket st j)) (fl j)" "distinct (fl j)"
      "\<forall>y \<in> set (fl j). \<exists>b m. (b, m, Pool j) \<in> G \<and> slot c b j y" using I(5) j unfolding klists_def by blast+
    have n: "x \<notin> set (fl j)"
    proof
      assume x: "x \<in> set (fl j)"
      then obtain b m where "(b, m, Pool j) \<in> G" "slot c b j x" using M(4) by blast
      then have "j = i" using in_reg_same[OF I(2) _ a(1) _ inr, of b m "Pool j"] slot_bounds(3)[of c b j x] pools_okD[OF I(3), of b m j] by blast
      then show False using x a(3) by simp
    qed
    then have "flist ((cell st)(x := v)) p (fl j) = flist (cell st) p (fl j)" for v p by (intro flist_cong) auto
    then show "kb_elmpercl (kbucket ?st j) = elmpercl j \<and> flist (cell ?st) (kb_next (kbucket ?st j)) (?fl j) \<and> distinct (?fl j)
      \<and> (\<forall>y \<in> set (?fl j). \<exists>b m. (b, m, Pool j) \<in> G \<and> slot c b j y)"
      using M n x0 a(1,2) L e by auto
  qed
  have "kblock_ok c ?u G ?fl b" if b: "b \<in> set (xs @ ys)" for b
  proof (cases b)
    case (fields y s' t')
    have "kblock_ok c (kusage st) G fl (y, s', t')" "y \<noteq> x" using kblocks_remove[OF I(6) b] by (simp_all add: fields)
    from this(1) have "kblock_ok c ?u G ?fl (y, s', t')" by (rule kblock_change) (use \<open>y \<noteq> x\<close> other in auto)
    then show ?thesis by (simp add: fields)
  qed
  then have blocks: "kblocks c ?u (xs @ ys) G ?fl" using I(6) by (auto simp: kblocks_def)
  have counts: "kcounts (kstats ?st) (xs @ ys)" by (rule kcounts_free[where x = x and s = s]) (use I(8) malloc_size_small[OF assms(3)] i_def in simp_all)
  have "kinv c ?st (xs @ ys) pend G ?fl" unfolding kinv_def using I(1-3,7) pools lists blocks counts by simp
  then show ?thesis using r by blast
qed

lemma free_big:
  assumes "kconf_ok c" and "kinv c st (xs @ (x, s, t) # ys) pend G fl" and "2048 < s"
  shows "\<exists>st1 G1 fl1. kfree c x t st = Ret st1 \<and> kinv c st1 (xs @ ys) pend G1 fl1"
proof -
  let ?live = "xs @ (x, s, t) # ys"
  have I: "pages_ok (kpages c) (kmemmap st)" "regs_ok (kpages c) (rm_free (fst (kmemmap st))) G" "pools_ok G" "kpools c (kusage st) ?live G"
    "klists c (kbucket st) (cell st) G fl" "kblocks c (kusage st) ?live G fl" "kwaits pend G" "kcounts (kstats st) ?live"
    using assms(2) by (simp_all add: kinv_def)
  define i where "i = BUCKETINDX s"
  have i: "12 \<le> i" using BUCKETINDX_cases(2)[of s] assms(3) by (auto simp: i_def)
  have b: "kblock_ok c (kusage st) G fl (x, s, t)" using I(6) by (simp add: kblocks_def)
  then obtain a n where a: "(a, n, Big) \<in> G" "x = raddr c a" "malloc_size s = 512 * n" "kusage st (a div 2) = \<lparr>ku_indx = i, ku_cnt = n\<rparr>" and t: "t < 50"
    using assms(3) by (auto simp: kblock_ok_def i_def)
  have ra: "even a" "0 < n" "0 \<le> a" using regs_okD[OF I(2) a(1)] by auto
  have kup: "btokup c x = a div 2" "(x - kmembase c) div NBPG = a" using ra(1) by (auto simp: a(2) raddr_def btokup_def CLBYTES_def NBPG_def)
  have inr: "in_reg c a n x" using ra(2) by (simp add: in_reg_def a(2) raddr_def)
  have ka: "kaddr c x" by (rule kext_kaddr[OF I(2,3)]) (use a(1,2) in \<open>unfold kext_def, blast\<close>)
  have big: "(2048 :: int) < 2 ^ i" using power_strict_increasing_iff[of "2 :: int" 11 i] i by simp
  obtain q where "a = 2 * q" using ra(1) by auto
  then have al: "x mod (if (2 :: int) ^ i > CLBYTES then 2 ^ BUCKETINDX CLBYTES else 2 ^ i) = 0"
    using big assms(1) by (simp add: CLBYTES_def BUCKETINDX_def kmem_consts a(2) raddr_def kconf_ok_def mod_add_left_eq[symmetric])
  obtain mp where mp: "rmfree Othermap n (a + 2) (kmemmap st) = Ret mp" "pages_ok (kpages c) mp" "regs_ok (kpages c) (rm_free (fst mp)) (G - {(a, n, Big)})"
    using pg.rl_region[OF I(1,2) a(1)] by blast
  let ?G = "G - {(a, n, Big)}" and ?u = "(kusage st)(a div 2 := \<lparr>ku_indx = 0, ku_cnt = 0\<rparr>)"
  let ?kb = "(kbucket st i)\<lparr>kb_total := kb_total (kbucket st i) - 1\<rparr>"
  let ?st = "free_stats t (n * NBPG) ((if wantkmemmap st \<noteq> 0 then st\<lparr>map_wakeups := Suc (map_wakeups st), wantkmemmap := 0\<rparr> else st)
     \<lparr>kmemmap := mp, kusage := ?u, kbucket := (kbucket st)(i := ?kb)\<rparr>)"
  have r: "kfree c x t st = Ret ?st"
    using ka t al big mp(1) by (simp add: kfree_def free_pages_def Let_def M_LAST_def MAXALLOCSAVE_def CLBYTES_def CLSZ_def kup a(4))
  have other: "b div 2 \<noteq> a div 2" if "(b, m, l) \<in> G" "(b, m, l) \<noteq> (a, n, Big)" for b m l using reg_index[OF I(2) that(1) a(1)] that(2) by auto
  have pools: "kpools c ?u (xs @ ys) ?G"
    unfolding kpools_def
  proof (intro allI impI)
    fix b m j
    assume "(b, m, Pool j) \<in> ?G"
    then have b: "(b, m, Pool j) \<in> G" by auto
    have "\<not> in_reg c b m x" using in_reg_same[OF I(2) b a(1) _ inr] by blast
    then show "ku_indx (?u (b div 2)) = j \<and> ku_cnt (?u (b div 2)) + int (length (filter (\<lambda>z. in_reg c b m (fst z)) (xs @ ys))) = elmpercl j"
    proof -
      have "filter (\<lambda>z. in_reg c b m (fst z)) (xs @ ys) = filter (\<lambda>z. in_reg c b m (fst z)) ?live" using \<open>\<not> in_reg c b m x\<close> by simp
      moreover have "?u (b div 2) = kusage st (b div 2)" using other[OF b] by simp
      ultimately show ?thesis using I(4) b unfolding kpools_def by metis
    qed
  qed
  have lists: "klists c (kbucket ?st) (cell ?st) ?G fl" using I(5) unfolding klists_def by auto
  have "kblock_ok c ?u ?G fl b" if b: "b \<in> set (xs @ ys)" for b
  proof (cases b)
    case (fields y s' t')
    have "kblock_ok c (kusage st) G fl (y, s', t')" and y: "y \<noteq> x" using kblocks_remove[OF I(6) b] by (simp_all add: fields)
    from this(1) have "kblock_ok c ?u ?G fl (y, s', t')"
    proof (rule kblock_change)
      show "(b, m, Big) \<in> ?G \<and> ?u (b div 2) = kusage st (b div 2)" if "(b, m, Big) \<in> G" "y = raddr c b" for b m
        using that y a(2) other[OF that(1)] by auto
    qed auto
    then show ?thesis by (simp add: fields)
  qed
  then have blocks: "kblocks c ?u (xs @ ys) ?G fl" using I(6) by (auto simp: kblocks_def)
  have waits: "kwaits pend ?G" using I(7) unfolding kwaits_def by auto
  have po: "pools_ok ?G" using I(3) unfolding pools_ok_def by auto
  have counts: "kcounts (kstats ?st) (xs @ ys)" by (rule kcounts_free[where x = x and s = s]) (use I(8) a(3) in \<open>simp_all add: NBPG_def\<close>)
  have "kinv c ?st (xs @ ys) pend ?G fl" unfolding kinv_def using mp(2,3) po pools lists blocks waits counts by simp
  then show ?thesis using r by blast
qed

lemma free_ok:
  assumes "kconf_ok c" and "kinv c st (xs @ (x, s, t) # ys) pend G fl"
  shows "\<exists>st1 G1 fl1. kfree c x t st = Ret st1 \<and> kinv c st1 (xs @ ys) pend G1 fl1"
  using free_small[OF assms] free_big[OF assms] by (meson not_le)

text \<open>Whatever is written into the blocks out, the lists of free blocks are as before.\<close>

lemma use_ok:
  assumes "kinv c st live pend G fl"
  shows "kinv c (kuse g live st) live pend G fl"
proof -
  have I: "regs_ok (kpages c) (rm_free (fst (kmemmap st))) G" "pools_ok G" "klists c (kbucket st) (cell st) G fl" "kblocks c (kusage st) live G fl"
    using assms by (simp_all add: kinv_def)
  have keep: "cell (kuse g live st) y = cell st y" if y: "y \<in> set (fl j)" "j < 20" for y j
  proof -
    obtain a n where a: "(a, n, Pool j) \<in> G" "slot c a j y" using I(3) y unfolding klists_def by blast
    have e: "kext c G y (2 ^ j)" using a unfolding kext_def by blast
    have j: "4 \<le> j" "j \<le> 11" "n = pool_pages j" using pools_okD[OF I(2) a(1)] by auto
    have "\<not> (y < x + s \<and> x < y + 4)" if x: "(x, s, t) \<in> set live" for x s t
    proof
      assume h: "y < x + s \<and> x < y + 4"
      have k: "kblock_ok c (kusage st) G fl (x, s, t)" using I(4) x by (auto simp: kblocks_def)
      have "x \<noteq> y"
      proof
        assume "x = y"
        then have "in_reg c a n x" using slot_bounds(3)[OF a(2) j(1,2)] j(3) by simp
        then have "y \<notin> set (fl j)" using live_in_pool(4)[OF I(1,2) k a(1)] \<open>x = y\<close> by simp
        then show False using y(1) by simp
      qed
      then have d: "{x ..< x + malloc_size s} \<inter> {y ..< y + 2 ^ j} = {}" using kext_apart[OF I(1,2) kblock_ext[OF k] e] by simp
      have "s \<le> malloc_size s" using k size_le_malloc_size by (simp add: kblock_ok_def)
      moreover have "0 < malloc_size s" by (rule kext_region[OF I(1,2) kblock_ext[OF k]])
      ultimately have "max x y \<in> {x ..< x + malloc_size s} \<inter> {y ..< y + 2 ^ j}" using h pool_facts(6)[OF j(1,2)] by (auto simp: max_def)
      then show False using d by blast
    qed
    then show ?thesis by (auto simp: kuse_def)
  qed
  then have "flist (cell (kuse g live st)) p (fl j) = flist (cell st) p (fl j)" if "j < 20" for p j using that by (intro flist_cong) auto
  then have "klists c (kbucket st) (cell (kuse g live st)) G fl" using I(3) unfolding klists_def by auto
  then show ?thesis using assms by (simp add: kinv_def) (simp add: kuse_def)
qed

section \<open>All runs\<close>

text \<open>Memory is clear when the kernel starts.\<close>

definition kmem_clear :: "rmap \<times> rmenv \<Rightarrow> kmem" where
  "kmem_clear m = \<lparr>kbucket = (\<lambda>_. \<lparr>kb_next = 0, kb_calls = 0, kb_total = 0, kb_totalfree = 0, kb_elmpercl = 0, kb_highwat = 0, kb_couldfree = 0\<rparr>),
     kusage = (\<lambda>_. \<lparr>ku_indx = 0, ku_cnt = 0\<rparr>),
     kstats = (\<lambda>_. \<lparr>ks_inuse = 0, ks_calls = 0, ks_memuse = 0, ks_limblocks = 0, ks_mapblocks = 0, ks_maxused = 0, ks_limit = 0\<rparr>),
     kmemmap = m, wantkmemmap = 0, cell = (\<lambda>_. 0), map_wakeups = 0, lim_wakeups = (\<lambda>_. 0)\<rparr>"

lemma init_ok:
  assumes "kconf_ok c"
  shows "\<exists>st. kmeminit c (kmem_clear m) = Ret st \<and> kinv c st [] [] {} (\<lambda>_. [])"
proof -
  define N where "N = kpages c"
  have N: "8 \<le> N" "even N" using assms by (simp_all add: kconf_ok_def N_def)
  define k where "k = nat N - 3"
  have nk: "nat N - 1 = Suc (Suc k)" "nat N = k + 3" using N(1) by (auto simp: k_def)
  let ?es = "mkseg 2 N # delim # replicate k delim"
  define mp where "mp = \<lparr>m_limit = nat N - 1, m_name = ''malloc map'', m_ent = ?es\<rparr>"
  have r: "rminit (replicate (nat N - 1) delim) N CLSZ ''malloc map'' (nat N) = Ret mp" by (simp only: rminit_def mp_def nk(1) replicate_Suc list.case CLSZ_def)
  have "rm_wf mp" unfolding rm_wf_decomp using N nk by (intro exI[of _ "[mkseg 2 N]"] exI[of _ k]) (simp add: mp_def)
  moreover have "rm_segs mp = [mkseg 2 N]" using N by (simp add: rm_segs_def mp_def)
  then have "rm_free mp = {2 ..< N + 2}" by (auto simp: rm_free_def seg_units_def)
  moreover have "x \<in> {2 ..< N + 2} \<longleftrightarrow> x + 1 \<in> {2 ..< N + 2}" if "even x" for x using that N(2) by (auto; presburger)
  moreover have "int (m_limit mp) = N - 1" using N(1) by (simp add: mp_def)
  ultimately have p: "pages_ok N (mp, e)" for e using N(1) by (simp add: pages_ok_def)
  show ?thesis
    using p[unfolded N_def] r[unfolded N_def] by (auto simp: kmeminit_def kinv_def regs_ok_def pools_ok_def kpools_def klists_def kblocks_def kwaits_def kcounts_def
        kmem_clear_def MINBUCKET_def M_LAST_def)
qed

lemma block_aligned:
  assumes "kconf_ok c" and "regs_ok N F G" and "pools_ok G" and "kblock_ok c u G fl (x, s, t)"
  shows "(x - kmembase c) mod min (2 ^ BUCKETINDX s) 1024 = 0"
proof (cases "s \<le> 2048")
  case True
  then obtain a n where a: "(a, n, Pool (BUCKETINDX s)) \<in> G" "slot c a (BUCKETINDX s) x" using assms(4) by (auto simp: kblock_ok_def)
  show ?thesis using slot_bounds(5)[OF a(2)] pools_okD[OF assms(3) a(1)] regs_okD[OF assms(2) a(1)] by blast
next
  case False
  then obtain a n where "(a, n, Big) \<in> G" "x = raddr c a" using assms(4) by (auto simp: kblock_ok_def)
  moreover from this(1) obtain b where "a = 2 * b" using regs_okD[OF assms(2)] by blast
  moreover have "12 \<le> BUCKETINDX s" using BUCKETINDX_cases(2)[of s] False by auto
  then have "(1024 :: int) \<le> 2 ^ BUCKETINDX s" using power_increasing[of 10 "BUCKETINDX s" "2 :: int"] by simp
  ultimately show ?thesis by (simp add: raddr_def min_absorb2)
qed

definition kop_ok :: "kop \<Rightarrow> bool" where
  "kop_ok op = (case op of KMalloc s t nowait fm \<Rightarrow> size_ok s \<and> t < 50 | _ \<Rightarrow> True)"

lemma kstep_ok:
  assumes "kconf_ok c" and "kop_ok op" and "kinv c st live pend G fl"
  shows "\<exists>st1 live1 pend1 G1 fl1. kstep c op (st, live, pend) = Ret (st1, live1, pend1) \<and> kinv c st1 live1 pend1 G1 fl1"
proof (cases op)
  case (KMalloc s t nowait fm)
  then have "size_ok s" "t < 50" using assms(2) by (simp_all add: kop_ok_def)
  then obtain r st1 G1 fl1 where "malloc_start c s t nowait fm st = Ret (r, st1)" "case r of MGot va \<Rightarrow> kinv c st1 ((va, s, t) # live) pend G1 fl1
     | MGrow a n z \<Rightarrow> kinv c st1 live ((a, n, z, s, t) # pend) G1 fl1 | _ \<Rightarrow> kinv c st1 live pend G1 fl1"
    using start_ok[OF assms(3)] by metis
  then show ?thesis by (cases r) (auto simp: KMalloc)
next
  case (KGrown i)
  show ?thesis
  proof (cases "i < length pend")
    case True
    obtain a n z s t where w: "pend ! i = (a, n, z, s, t)" by (cases "pend ! i")
    then have "pend = take i pend @ (a, n, z, s, t) # drop (Suc i) pend" using id_take_nth_drop[OF True] by simp
    then obtain st1 va G1 fl1 where g: "malloc_grown c s t a n z st = Ret (va, st1)" "kinv c st1 ((va, s, t) # live) (take i pend @ drop (Suc i) pend) G1 fl1"
      using grown_ok[OF assms(1), of st live "take i pend" a n z s t "drop (Suc i) pend" G fl] assms(3) by auto
    then have "kstep c op (st, live, pend) = Ret (st1, (va, s, t) # live, take i pend @ drop (Suc i) pend)" using True w by (simp add: KGrown)
    then show ?thesis using g(2) by blast
  qed (use assms(3) KGrown in auto)
next
  case (KFree i)
  show ?thesis
  proof (cases "i < length live")
    case True
    obtain x s t where w: "live ! i = (x, s, t)" by (cases "live ! i")
    then have "live = take i live @ (x, s, t) # drop (Suc i) live" using id_take_nth_drop[OF True] by simp
    then obtain st1 G1 fl1 where g: "kfree c x t st = Ret st1" "kinv c st1 (take i live @ drop (Suc i) live) pend G1 fl1"
      using free_ok[OF assms(1), of st "take i live" x s t "drop (Suc i) live" pend G fl] assms(3) by auto
    then have "kstep c op (st, live, pend) = Ret (st1, take i live @ drop (Suc i) live, pend)" using True w by (simp add: KFree)
    then show ?thesis using g(2) by blast
  qed (use assms(3) KFree in auto)
qed (use use_ok[OF assms(3)] in auto)

lemma krun_ok:
  "kconf_ok c \<Longrightarrow> \<forall>op \<in> set ops. kop_ok op \<Longrightarrow> kinv c st live pend G fl \<Longrightarrow>
   \<exists>st1 live1 pend1 G1 fl1. krun c ops (st, live, pend) = Ret (st1, live1, pend1) \<and> kinv c st1 live1 pend1 G1 fl1"
proof (induction ops arbitrary: st live pend G fl)
  case (Cons op ops)
  then obtain st1 live1 pend1 G1 fl1 where s: "kstep c op (st, live, pend) = Ret (st1, live1, pend1)" "kinv c st1 live1 pend1 G1 fl1"
    using kstep_ok[of c op st live pend G fl] by auto
  then show ?case using Cons(1)[OF Cons(2) _ s(2)] Cons(3) by auto
qed auto

definition kapart :: "kblock list \<Rightarrow> bool" where
  "kapart live \<longleftrightarrow> distinct (map fst live) \<and> (\<forall>(x, s, t) \<in> set live. \<forall>(y, s', t') \<in> set live. x \<noteq> y \<longrightarrow>
     {x ..< x + malloc_size s} \<inter> {y ..< y + malloc_size s'} = {})"

text \<open>(C13) From \<^verbatim>\<open>kmeminit\<close> on, whatever is asked for and given back, in whatever order calls overtake one that waits for page frames, and whatever the holders write
  into their blocks: no call panics or leaves kernel memory; the blocks out are apart from each other, inside kernel memory, as long as asked for and aligned to
  their size up to a page cluster; and the statistics of each type are the number and the sizes of its blocks.\<close>

theorem kmalloc_apart:
  assumes "kconf_ok c" and "\<forall>op \<in> set ops. kop_ok op"
  shows "\<exists>st live pend. kbind (kmeminit c (kmem_clear m)) (\<lambda>st0. krun c ops (st0, [], [])) = Ret (st, live, pend) \<and> kapart live
     \<and> (\<forall>(x, s, t) \<in> set live. kmembase c \<le> x \<and> x + malloc_size s \<le> kmembase c + NBPG * kpages c \<and> s \<le> malloc_size s
          \<and> (x - kmembase c) mod min (2 ^ BUCKETINDX s) CLBYTES = 0)
     \<and> (\<forall>t < 50. ks_inuse (kstats st t) = int (length (filter (\<lambda>b. snd (snd b) = t) live))
          \<and> ks_memuse (kstats st t) = sum_list (map (\<lambda>b. malloc_size (fst (snd b))) (filter (\<lambda>b. snd (snd b) = t) live)))"
proof -
  obtain st0 where 0: "kmeminit c (kmem_clear m) = Ret st0" "kinv c st0 [] [] {} (\<lambda>_. [])" using init_ok[OF assms(1)] by blast
  obtain st live pend G fl where r: "krun c ops (st0, [], []) = Ret (st, live, pend)" and k: "kinv c st live pend G fl"
    using krun_ok[OF assms 0(2)] by blast
  have I: "regs_ok (kpages c) (rm_free (fst (kmemmap st))) G" "pools_ok G" "kblocks c (kusage st) live G fl" "kcounts (kstats st) live"
    using k by (simp_all add: kinv_def)
  have b: "kblock_ok c (kusage st) G fl (x, s, t)" if "(x, s, t) \<in> set live" for x s t using I(3) that by (auto simp: kblocks_def)
  have "{x ..< x + malloc_size s} \<inter> {y ..< y + malloc_size s'} = {}" if "(x, s, t) \<in> set live" "(y, s', t') \<in> set live" "x \<noteq> y" for x s t y s' t'
    by (rule kext_apart[OF I(1,2) kblock_ext[OF b[OF that(1)]] kblock_ext[OF b[OF that(2)]] that(3)])
  note D = this
  have "kapart live"
    unfolding kapart_def
  proof
    show "distinct (map fst live)" using I(3) by (simp add: kblocks_def)
    show "\<forall>(x, s, t) \<in> set live. \<forall>(y, s', t') \<in> set live. x \<noteq> y \<longrightarrow> {x ..< x + malloc_size s} \<inter> {y ..< y + malloc_size s'} = {}"
      by clarify (rule D)
  qed
  have E: "kmembase c \<le> x \<and> x + malloc_size s \<le> kmembase c + NBPG * kpages c \<and> s \<le> malloc_size s \<and> (x - kmembase c) mod min (2 ^ BUCKETINDX s) CLBYTES = 0"
    if "(x, s, t) \<in> set live" for x s t
    using kext_bounds[OF I(1,2) kblock_ext[OF b[OF that]]] size_le_malloc_size b[OF that] block_aligned[OF assms(1) I(1,2) b[OF that]]
    by (simp add: NBPG_def CLBYTES_def kblock_ok_def)
  have "\<forall>(x, s, t) \<in> set live. kmembase c \<le> x \<and> x + malloc_size s \<le> kmembase c + NBPG * kpages c \<and> s \<le> malloc_size s
      \<and> (x - kmembase c) mod min (2 ^ BUCKETINDX s) CLBYTES = 0"
    by clarify (rule E)
  then show ?thesis using 0(1) r \<open>kapart live\<close> I(4) unfolding kcounts_def by (intro exI[of _ st] exI[of _ live] exI[of _ pend]) simp
qed

definition ex_kconf :: kconf where
  "ex_kconf = \<lparr>kmembase = 4096, kpages = 8, krmconf = rm_conf0, diagnostic = True\<rparr>"

definition ex_kops :: "kop list" where
  "ex_kops = [KMalloc 100 1 False 8, KGrown 0, KUse (\<lambda>x. 7 * x), KMalloc 128 2 False 8, KMalloc 3000 1 True 8, KFree 1]"

theorem kmalloc_apart_witness:
  "\<exists>st live pend. kbind (kmeminit ex_kconf (kmem_clear (rm_map0, rm_env0))) (\<lambda>st0. krun ex_kconf ex_kops (st0, [], [])) = Ret (st, live, pend) \<and> kapart live
     \<and> (\<forall>(x, s, t) \<in> set live. kmembase ex_kconf \<le> x \<and> x + malloc_size s \<le> kmembase ex_kconf + NBPG * kpages ex_kconf \<and> s \<le> malloc_size s
          \<and> (x - kmembase ex_kconf) mod min (2 ^ BUCKETINDX s) CLBYTES = 0)
     \<and> (\<forall>t < 50. ks_inuse (kstats st t) = int (length (filter (\<lambda>b. snd (snd b) = t) live))
          \<and> ks_memuse (kstats st t) = sum_list (map (\<lambda>b. malloc_size (fst (snd b))) (filter (\<lambda>b. snd (snd b) = t) live)))"
  by (rule kmalloc_apart) (simp_all add: kconf_ok_def ex_kconf_def ex_kops_def kop_ok_def size_ok_def)

section \<open>Flaws\<close>

text \<open>Two calls for the same size that both wait for page frames: the list the second makes replaces the list of the first, whose free blocks are
  lost though still counted.\<close>

definition kmem_race :: "(kmem \<times> kblock list \<times> kwait list) kres" where
  "kmem_race = kbind (kmeminit ex_kconf (kmem_clear (rm_map0, rm_env0))) (\<lambda>st0.
     krun ex_kconf [KMalloc 500 1 False 8, KMalloc 500 1 False 8, KGrown 0, KGrown 0] (st0, [], []))"

lemma kmem_race_loses:
  "kmap (\<lambda>(st, live, pend). (map fst live, kb_totalfree (kbucket st 9), kb_next (kbucket st 9), cell st (kb_next (kbucket st 9)))) kmem_race
   = Ret ([4608, 5632], 2, 4096, 0)"
  by code_simp

text \<open>A size close to \<^verbatim>\<open>ULONG_MAX\<close> is rounded up to 0, for which \<^verbatim>\<open>rmalloc\<close> panics.\<close>

lemma kmalloc_huge:
  assumes "ks_memuse (kstats st t) < ks_limit (kstats st t)" and "kb_next (kbucket st 19) = 0" and "t < M_LAST" and "2 ^ 32 - 1024 < sz" and "sz < 2 ^ 32"
  shows "malloc_start c sz t False fm st = Panic ''rmalloc''"
proof -
  have "(sz + 1023 - 2 ^ 32 + 2 ^ 32) mod 2 ^ 32 = sz + 1023 - 2 ^ 32"
    unfolding mod_add_self2 using assms(4,5) by (intro mod_pos_pos_trivial) auto
  then have "(sz + 1023) mod 2 ^ 32 = sz + 1023 - 2 ^ 32" by (simp add: add.commute)
  then have "roundup_cl sz = 0" using assms(4,5) by (simp add: roundup_cl_def CLBYTES_def)
  then have "malloc_size sz = 0" using assms(4) by (simp add: malloc_size_def to_long_def kmem_consts)
  moreover have "BUCKETINDX sz = 19" using assms(4) by (simp add: BUCKETINDX_def kmem_consts)
  ultimately show ?thesis using assms(1-3) by (cases "kmemmap st") (simp add: malloc_start_def Let_def clrnd_int btoc_def rmalloc_def)
qed

end
