(* ===== verification/Spec2Isabelle.thy ===== *)
theory Spec2Isabelle
  imports Tcp_Sender Tcp_Fsm Tcp_Timer Clist Sock_Send Sock_Opt Cksum Callout Ip_Reass Mbuf_Ops Sl_Compress Kmem
begin

text \<open>
  \<^bold>\<open>A verification library for the 4.3BSD-Reno kernel\<close>

  The library models part of the kernel under \<^verbatim>\<open>src/sys\<close>: the way of a byte from a user's \<^verbatim>\<open>write\<close> through the socket
  layer and TCP to the network and back, the memory the way uses, and other kernel services: resource maps and the allocator
  above them, character lists, callouts and header compression.  Sources are named relative to \<^verbatim>\<open>src/\<close>.

  \<^bold>\<open>The program's parts and how they interact.\<close>  Network data live in chains of mbufs (\<^verbatim>\<open>sys/kern/uipc_mbuf.c\<close>,
  \<^verbatim>\<open>sys/sys/mbuf.h\<close>).  A socket (\<^verbatim>\<open>sys/sys/socketvar.h\<close>, \<^verbatim>\<open>sys/kern/uipc_socket2.c\<close>) has a send and a receive buffer of
  such chains, and, when it listens, two queues of incoming connections.  A protocol control block
  (\<^verbatim>\<open>sys/netinet/in_pcb.c\<close>) ties a socket to addresses and ports and TCP's control block (\<^verbatim>\<open>tcp_var.h\<close>) to both.  The socket
  operations (\<^verbatim>\<open>sys/kern/uipc_socket.c\<close>) move a user's data (\<^verbatim>\<open>uiomove\<close>) into and out of the buffers and
  reach TCP by requests (\<^verbatim>\<open>tcp_usrreq.c\<close>); the network reaches it by \<^verbatim>\<open>tcp_input\<close>, time by the timers (\<^verbatim>\<open>tcp_timer.c\<close>); all three
  end in \<^verbatim>\<open>tcp_output\<close>, which copies from the send buffer and hands segments to IP.

  \<^bold>\<open>Theories.\<close>
  \<^item> \<open>Kernel_Prelude\<close>: results of kernel code (\<open>Ret\<close>, \<open>Panic\<close>, \<open>Fault\<close>: an access outside its object), operations that
    may not return (\<open>run\<close>, \<open>None\<close>), the integers of C, error numbers, shared lemmas.
  \<^item> \<open>Rmap\<close>: resource maps, \<^verbatim>\<open>sys/kern/subr_rmap.c\<close>, on the array of segments the code shifts.  First fit, exact space
    accounting, the panics of \<^verbatim>\<open>rmfree\<close> and the swap boundary rule.  The locale \<open>space_allocator\<close> states what a client may
    rely on (blocks handed out are disjoint) and is interpreted on \<open>rmalloc\<close> and \<open>rmfree\<close>.
  \<^item> \<open>Kmem\<close>: \<^verbatim>\<open>malloc\<close> and \<^verbatim>\<open>free\<close>, \<^verbatim>\<open>sys/kern/kern_malloc.c\<close>, with the free lists threaded through the free blocks.  The locale
    \<open>page_map\<close> is what they need of the map, interpreted on \<open>rmalloc\<close> and \<open>rmfree\<close>; blocks stay apart, in range, aligned and counted in
    every order of calls; three flaws.
  \<^item> \<open>Mbuf\<close>: mbufs as records with the position of the data in the buffer, cluster reference counts, the free cluster
    list; every chain operation.  Data, bounds and reference counts after each, also when memory runs out.  \<open>Mbuf_Ops\<close>: any
    sequence of operations keeps a chain well-formed.
  \<^item> \<open>Cksum\<close>: the internet checksum, \<^verbatim>\<open>sys/netinet/in_cksum.c\<close>, equal to its definition for every split and alignment of a
    chain and both byte orders, and its use by a receiver.
  \<^item> \<open>Ip_Reass\<close>: fragments of IP datagrams, \<^verbatim>\<open>sys/netinet/ip_input.c\<close>.  Fragments in any order and mixture give their datagrams
    exactly when they cover them (\<open>expected\<close> is the specification); ageing; two flaws.
  \<^item> \<open>Sl_Compress\<close>: compression of TCP/IP headers on serial lines, \<^verbatim>\<open>sys/net/slcompress.c\<close>.  The two ends mirror each other's
    states (\<open>sl_mirror\<close>), so every packet comes back; three flaws.
  \<^item> \<open>Sockbuf\<close>: the \<^verbatim>\<open>sb...\<close> routines with counters as 32-bit words.  The locale \<open>byte_stream\<close> says that append and drop
    make a byte queue; it is interpreted on \<open>sbappend\<close> and \<open>sbdrop\<close>.
  \<^item> \<open>Socket\<close>: connection states and the accept queues as linked lists in a store of sockets; wakeups and signals are
    recorded as events.
  \<^item> \<open>In_Pcb\<close>: control blocks: bind, connect, lookup, notification.
  \<^item> \<open>Tcp_Defs\<close>, \<open>Tcp_Reass\<close>, \<open>Tcp_Output\<close>, \<open>Tcp_Subr\<close>, \<open>Tcp_Usrreq\<close>, \<open>Tcp_Input\<close>, \<open>Tcp_Header\<close>: TCP.  The two long functions
    \<^verbatim>\<open>tcp_input\<close> and \<^verbatim>\<open>tcp_output\<close> are cut at their paragraphs into one definition each, which return where the code goes
    next (\<open>act\<close>: a \<^verbatim>\<open>goto\<close> or falling through).  The state \<open>tcp\<close> holds the connection at hand, the tables of control blocks
    and sockets, the mbufs, the statistics and the segments handed to IP.
  \<^item> \<open>Tcp_Send\<close>, \<open>Tcp_Receive\<close>, \<open>Tcp_Stream\<close>, \<open>Tcp_Sender\<close>: what TCP promises.  \<open>tcp_output\<close> returns and sends only bytes of
    the send buffer under their own sequence numbers; trimming and reassembly put exactly the stream into the
    receive buffer, in whatever order, repetition or overlap the segments come; both together are the end-to-end
    theorem.  The steps of the two ends and the network are the inductive relations \<open>snd_step\<close> and \<open>connection\<close>.
  \<^item> \<open>Uio\<close>: \<^verbatim>\<open>uiomove\<close> on I/O vectors, exact for accessible memory.
  \<^item> \<open>Soreceive\<close>, \<open>Sosend\<close>, \<open>Sockops\<close>: \<^verbatim>\<open>sys/kern/uipc_socket.c\<close>, the operations behind the socket system calls.  The protocol
    is the argument \<open>pr\<close>, a record with the fields of \<^verbatim>\<open>struct protosw\<close> in use; each sleep is an argument that says what
    happened meanwhile.
  \<^item> \<open>Sock_Recv\<close>, \<open>Sock_Send\<close>: what a user of a stream gets and gives.  The locales \<open>rcvd_protocol\<close> and \<open>send_protocol\<close> are what
    \<^verbatim>\<open>soreceive\<close> and \<^verbatim>\<open>sosend\<close> need of a protocol; both are interpreted on TCP's entry of \<^verbatim>\<open>inetsw\<close>, so that the theorems run from
    the user's memory to the buffers TCP works on.  A peek across the out-of-band mark never returns.
  \<^item> \<open>Sock_Opt\<close>: socket options read back as set, timeouts without their fraction.
  \<^item> \<open>Tcp_Fsm\<close>: the state diagram as the relation \<open>tcp_arc\<close>; input and close follow it.
  \<^item> \<open>Tcp_Timer\<close>: the round trip estimator and the retransmission backoff in 16-bit arithmetic.
  \<^item> \<open>Clist\<close>: character lists, \<^verbatim>\<open>sys/kern/tty_subr.c\<close>, on block addresses, as the code finds a block by rounding a
    character's address.  Many lists over one free list behave as byte queues (\<open>fifo\<close>).
  \<^item> \<open>Callout\<close>: \<^verbatim>\<open>timeout\<close>, \<^verbatim>\<open>untimeout\<close>, \<^verbatim>\<open>hzto\<close> and the callout parts of \<^verbatim>\<open>hardclock\<close> and \<^verbatim>\<open>softclock\<close>
    (\<^verbatim>\<open>sys/kern/kern_clock.c\<close>).  The list of time differences refines an agenda of absolute deadlines (\<open>agenda\<close>), with called
    functions that set and remove timeouts themselves.

  \<^bold>\<open>Bounds and loops.\<close>  No fuel is used.  Loops that end by construction are recursive functions with termination
  proofs.  Loops that may run forever outside their invariant are \<^theory_text>\<open>partial_function (option)\<close>, and the theorems say that they
  return: \<open>tcp_output_loop\<close> (each repetition consumes bytes of the window or an answer of the allocator), the port
  search of \<open>in_pcbbind\<close> (ends exactly when a port is free), \<open>ndflush_loop\<close>, \<open>prev_block\<close>, the loops of \<^verbatim>\<open>soreceive\<close> and
  \<^verbatim>\<open>sosend\<close> (each round takes bytes of the request), and \<^verbatim>\<open>softclock\<close> (a timeout set meanwhile is not due).  Sequence numbers are 32-bit
  words; the stream theorems speak of streams of fewer than \<open>2\<^sup>2\<^sup>9\<close> bytes, within which the signed comparison of
  sequence numbers orders positions.  Window arithmetic, timers and counters keep the widths of the C types.

  \<^bold>\<open>Parameters.\<close>  Memory allocation (\<^verbatim>\<open>malloc\<close>, outside \<open>Kmem\<close>), the answer of \<^verbatim>\<open>ip_output\<close>, route and interface lookups, and inside TCP the result of the checksum routine, are
  inputs of the model: lists of answers in the state or functions in a configuration record.

  \<^bold>\<open>Not modelled.\<close>  Interrupt priority (\<^verbatim>\<open>spl\<close>): operations are atomic, as the masking makes them.  Sleeping: a blocked
  operation is an event or an argument.  The trace buffer and printing.  \<^verbatim>\<open>PRU_CONTROL\<close>, the system calls'
  own handling of descriptors and user addresses, and UNIX domain sockets.  UDP, the rest of IP, routing, terminals' line
  disciplines, processes, the file systems, virtual memory and drivers.
\<close>

end
